(* ===== verification/Prelude.thy ===== *)
theory Prelude
  imports Complex_Main "HOL-Library.Word"
begin

text \<open>
  Shared vocabulary of the development.

  \<^item> C strings: the code handles Lua strings both as length-counted byte strings and,
    through \<open>const char*\<close>, as zero-terminated ones. A Lua string is a HOL \<open>string\<close>
    (a list of bytes); \<open>cstr s\<close> is what a C function sees through the pointer, the bytes
    before the first zero. \<open>cnth\<close> reads one byte, the terminator included.
  \<^item> Errors: a function of the Lua C API either raises (\<open>Inl\<close>) or returns (\<open>Inr\<close>);
    \<open>bindE\<close> sequences such computations.
  \<^item> Casts from \<open>double\<close> to the integer types: \<open>trunc_real\<close>.
\<close>

unbundle bit_operations_syntax

named_theorems cstr_simps "facts about zero-terminated strings"
named_theorems api_simps "unfolding of the Lua C API model"

abbreviation NUL :: char where "NUL \<equiv> CHR 0x00"
abbreviation LF :: char where "LF \<equiv> CHR 0x0A"
abbreviation CR :: char where "CR \<equiv> CHR 0x0D"
abbreviation TAB :: char where "TAB \<equiv> CHR 0x09"

section \<open>Raising computations\<close>

fun bindE :: "'e + 'a \<Rightarrow> ('a \<Rightarrow> 'e + 'b) \<Rightarrow> 'e + 'b" where
  "bindE (Inl e) f = Inl e"
| "bindE (Inr a) f = f a"

lemma bindE_cong [fundef_cong]:
  assumes "m = m'" and "\<And>a. m' = Inr a \<Longrightarrow> f a = g a"
  shows "bindE m f = bindE m' g"
  using assms by (cases m') auto

lemma bindE_Inr_iff: "bindE m f = Inr b \<longleftrightarrow> (\<exists>a. m = Inr a \<and> f a = Inr b)"
  by (cases m) auto

lemma bindE_Inl_iff: "bindE m f = Inl e \<longleftrightarrow> m = Inl e \<or> (\<exists>a. m = Inr a \<and> f a = Inl e)"
  by (cases m) auto

lemma bindE_assoc: "bindE (bindE m f) g = bindE m (\<lambda>a. bindE (f a) g)"
  by (cases m) auto

section \<open>Zero-terminated strings\<close>

definition cstr :: "string \<Rightarrow> string" where
  "cstr s = takeWhile (\<lambda>c. c \<noteq> NUL) s"

definition cnth :: "string \<Rightarrow> nat \<Rightarrow> char" where
  "cnth s i = (if i < length s then s ! i else NUL)"

text \<open>\<open>strchr\<close> and \<open>strrchr\<close>: the offset of the first or last \<open>c\<close>, \<open>None\<close> for NULL.\<close>

fun strchr :: "string \<Rightarrow> char \<Rightarrow> nat option" where
  "strchr [] c = None"
| "strchr (x # xs) c = (if x = c then Some 0 else map_option Suc (strchr xs c))"

fun strrchr :: "string \<Rightarrow> char \<Rightarrow> nat option" where
  "strrchr [] c = None"
| "strrchr (x # xs) c =
     (case strrchr xs c of Some i \<Rightarrow> Some (Suc i) | None \<Rightarrow> if x = c then Some 0 else None)"

lemma cstr_Nil [simp, cstr_simps]: "cstr [] = []"
  by (simp add: cstr_def)

lemma cstr_no_nul [cstr_simps]: "NUL \<notin> set (cstr s)"
  by (auto simp: cstr_def dest: set_takeWhileD)

lemma cstr_id [cstr_simps]: "NUL \<notin> set s \<Longrightarrow> cstr s = s"
  by (simp add: cstr_def takeWhile_eq_all_conv) metis

lemma cstr_cstr [simp, cstr_simps]: "cstr (cstr s) = cstr s"
  by (rule cstr_id) (rule cstr_no_nul)

lemma length_cstr: "length (cstr s) \<le> length s"
  by (simp add: cstr_def length_takeWhile_le)

lemma cnth_0_nul: "cnth (cstr s) 0 = NUL \<longleftrightarrow> cstr s = []"
  using cstr_no_nul [of s] by (cases "cstr s") (auto simp: cnth_def)

lemma strchr_None: "strchr s c = None \<longleftrightarrow> c \<notin> set s"
  by (induction s) auto

lemma strchr_Some:
  "strchr s c = Some i \<longleftrightarrow> i < length s \<and> s ! i = c \<and> c \<notin> set (take i s)"
proof (induction s arbitrary: i)
  case Nil
  then show ?case by simp
next
  case (Cons x xs)
  then show ?case by (cases i) auto
qed

lemma strchr_split:
  "strchr s c = Some i \<Longrightarrow> s = take i s @ c # drop (Suc i) s"
  using id_take_nth_drop [of i s] by (auto simp: strchr_Some)

lemma strrchr_None: "strrchr s c = None \<longleftrightarrow> c \<notin> set s"
  by (induction s) (auto split: option.splits)

lemma strrchr_Some:
  "strrchr s c = Some i \<Longrightarrow> i < length s \<and> s = take i s @ c # drop (Suc i) s \<and> c \<notin> set (drop (Suc i) s)"
  by (induction s arbitrary: i) (auto split: option.splits if_splits simp: strrchr_None)

section \<open>Casts from double\<close>

text \<open>
  \<open>(int) d\<close>, \<open>(long) d\<close> and \<open>(size_t) d\<close> truncate towards zero. C leaves a value
  outside the target's range undefined; the model keeps the truncated integer.
\<close>

definition trunc_real :: "real \<Rightarrow> int" where
  "trunc_real r = (if 0 \<le> r then \<lfloor>r\<rfloor> else \<lceil>r\<rceil>)"

lemma trunc_real_of_int [simp]: "trunc_real (of_int k) = k"
  by (simp add: trunc_real_def)

lemma trunc_real_numeral [simp]:
  "trunc_real (numeral n) = numeral n" "trunc_real (- numeral n) = - numeral n"
  "trunc_real 0 = 0" "trunc_real 1 = 1" "trunc_real (- 1) = - 1"
  using trunc_real_of_int [of "- 1"] by (simp_all add: trunc_real_def)

lemma trunc_real_of_nat [simp]: "trunc_real (real n) = int n"
  by (simp add: trunc_real_def)

section \<open>Hexadecimal digits\<close>

text \<open>The digit table of \<open>%X\<close>, shared by the UUID, the hash and the quoted-printable code.\<close>

definition hexdigit :: "nat \<Rightarrow> char" where
  "hexdigit n = ''0123456789ABCDEF'' ! n"

lemma all_less_16:
  "(\<forall>n < (16::nat). P n) \<longleftrightarrow> P 0 \<and> P 1 \<and> P 2 \<and> P 3 \<and> P 4 \<and> P 5 \<and> P 6 \<and> P 7 \<and> P 8 \<and> P 9
     \<and> P 10 \<and> P 11 \<and> P 12 \<and> P 13 \<and> P 14 \<and> P 15"
  by (simp add: All_less_Suc numeral_eq_Suc) (auto simp: numeral_eq_Suc)

lemma hexdigit_inj: "m < 16 \<Longrightarrow> n < 16 \<Longrightarrow> hexdigit m = hexdigit n \<longleftrightarrow> m = n"
proof -
  have d: "distinct ''0123456789ABCDEF''" by simp
  assume "m < 16" "n < 16"
  then show ?thesis
    unfolding hexdigit_def by (intro nth_eq_iff_index_eq [OF d]) simp_all
qed

lemma hexdigit_mem: "n < 16 \<Longrightarrow> hexdigit n \<in> set ''0123456789ABCDEF''"
  unfolding hexdigit_def by (rule nth_mem) simp

section \<open>Shifts and masks as arithmetic\<close>

abbreviation uc :: "char \<Rightarrow> nat" where "uc c \<equiv> of_char c"   \<comment> \<open>the cast to \<open>unsigned char\<close>\<close>

lemma uc_less [simp]: "uc c < 256"
  using of_char_mod_256 [of c] mod_less_divisor [of 256 "uc c"] by simp

lemma and_mask_nat: "(v::nat) AND (2 ^ n - 1) = v mod 2 ^ n"
  using take_bit_eq_mask [of n v] by (simp add: take_bit_eq_mod mask_eq_exp_minus_1)

lemma mask4: "(v::nat) AND 0x0F = v mod 16"
  using and_mask_nat [of v 4] by simp

lemma mask6: "(v::nat) AND 0x3f = v mod 64"
  using and_mask_nat [of v 6] by simp

lemma mask8: "(v::nat) AND 0xff = v mod 256"
  using and_mask_nat [of v 8] by simp

lemma push_or: "b < 2 ^ n \<Longrightarrow> push_bit n (a::nat) OR b = a * 2 ^ n + b"
proof -
  assume b: "b < 2 ^ n"
  have "push_bit n a AND b = 0"
  proof (rule bit_eqI)
    fix m
    from b have "\<not> bit b m" if "n \<le> m"
      using that by (metis bit_take_bit_iff take_bit_nat_eq_self leD)
    then show "bit (push_bit n a AND b) m \<longleftrightarrow> bit 0 m"
      by (cases "n \<le> m") (auto simp: bit_and_iff bit_push_bit_iff)
  qed
  then show ?thesis by (simp add: disjunctive_add_eq_or [symmetric] push_bit_eq_mult)
qed

end
