(* ===== verification/Lua_Api.thy ===== *)
theory Lua_Api
  imports Prelude
begin

text \<open>
  The part of the Lua 5.1 C API that the host's C functions call, after
  \<open>src/host/lua-5.1.4/src/lapi.c\<close>, \<open>lauxlib.c\<close> and \<open>lvm.c\<close>.

  A C function receives its arguments as the list of stack slots 1, 2, \<dots>; a slot past the
  end is \<open>LUA_TNONE\<close>. It returns \<open>Inr\<close> of the values it leaves as results or \<open>Inl\<close> of
  the error it raises (\<open>lua_error\<close> does not return). The conversions between numbers and
  strings use \<open>sprintf ("%.14g")\<close> and \<open>strtod\<close> of the C library, those from 64-bit integers
  to numbers round to a \<open>double\<close>; they are the three fields of the parameter \<open>lua_conv\<close>.
  Numbers are \<open>double\<close>s in the code and reals in the model: no rounding of arithmetic is
  modelled. A table is its association list; every table a modelled function
  returns is freshly built by it, so no aliasing is lost.
\<close>

section \<open>Values\<close>

datatype lval =
    LNil
  | LBool bool
  | LNum real
  | LStr string
  | LTable "(lval \<times> lval) list"
  | LLight "64 word"
  | LFun string
  | LUser nat

record lua_conv =
  number2str :: "real \<Rightarrow> string"
  str2number :: "string \<Rightarrow> real option"
  integer2number :: "int \<Rightarrow> real"

text \<open>
  A concrete instance for examples: no number prints as a string or is read from one, and
  integers convert exactly.
\<close>

definition plain_conv :: lua_conv where
  "plain_conv = \<lparr>number2str = (\<lambda>_. []), str2number = (\<lambda>_. None), integer2number = real_of_int\<rparr>"

text \<open>
  \<open>ArgError n msg\<close> is \<open>luaL_argerror (L, n, msg)\<close>; the final wording (\<open>bad argument #n to f\<close>)
  also depends on debug information of the caller, which is not modelled.
  \<open>ErrorValue v\<close> is \<open>lua_error\<close> with \<open>v\<close> on top of the stack.
\<close>

datatype lua_error = ArgError nat string | ErrorValue lval

type_synonym lua_results = "lua_error + lval list"

definition luaL_error :: "string \<Rightarrow> lua_error + 'a" where
  "luaL_error msg = Inl (ErrorValue (LStr msg))"

section \<open>Reading the stack\<close>

text \<open>\<open>index2adr\<close> for a positive index; \<open>None\<close> is \<open>luaO_nilobject\<close>, type \<open>LUA_TNONE\<close>.\<close>

definition index2adr :: "lval list \<Rightarrow> nat \<Rightarrow> lval option" where
  "index2adr args i = (if 1 \<le> i \<and> i \<le> length args then Some (args ! (i - 1)) else None)"

fun lua_typename :: "lval option \<Rightarrow> string" where
  "lua_typename None = ''no value''"
| "lua_typename (Some LNil) = ''nil''"
| "lua_typename (Some (LBool _)) = ''boolean''"
| "lua_typename (Some (LNum _)) = ''number''"
| "lua_typename (Some (LStr _)) = ''string''"
| "lua_typename (Some (LTable _)) = ''table''"
| "lua_typename (Some (LLight _)) = ''userdata''"
| "lua_typename (Some (LFun _)) = ''function''"
| "lua_typename (Some (LUser _)) = ''userdata''"

fun lua_tonumber :: "lua_conv \<Rightarrow> lval option \<Rightarrow> real option" where
  "lua_tonumber cv (Some (LNum n)) = Some n"
| "lua_tonumber cv (Some (LStr s)) = str2number cv s"
| "lua_tonumber cv _ = None"

definition lua_isnumber :: "lua_conv \<Rightarrow> lval option \<Rightarrow> bool" where
  "lua_isnumber cv v = (lua_tonumber cv v \<noteq> None)"

fun lua_isstring :: "lval option \<Rightarrow> bool" where
  "lua_isstring (Some (LStr _)) = True"
| "lua_isstring (Some (LNum _)) = True"
| "lua_isstring _ = False"

fun lua_toboolean :: "lval option \<Rightarrow> bool" where
  "lua_toboolean None = False"
| "lua_toboolean (Some LNil) = False"
| "lua_toboolean (Some (LBool b)) = b"
| "lua_toboolean (Some _) = True"

fun lua_isnoneornil :: "lval option \<Rightarrow> bool" where
  "lua_isnoneornil None = True"
| "lua_isnoneornil (Some LNil) = True"
| "lua_isnoneornil (Some _) = False"

definition lua_isnil :: "lval option \<Rightarrow> bool" where
  "lua_isnil v = (v = Some LNil)"

text \<open>A string, or a number formatted by \<open>luaV_tostring\<close>; NULL for anything else.\<close>

fun lua_tolstring :: "lua_conv \<Rightarrow> lval option \<Rightarrow> string option" where
  "lua_tolstring cv (Some (LStr s)) = Some s"
| "lua_tolstring cv (Some (LNum n)) = Some (number2str cv n)"
| "lua_tolstring cv _ = None"

section \<open>Checked arguments\<close>

definition luaL_argerror :: "nat \<Rightarrow> string \<Rightarrow> lua_error + 'a" where
  "luaL_argerror narg extramsg = Inl (ArgError narg extramsg)"

definition luaL_typerror :: "lval list \<Rightarrow> nat \<Rightarrow> string \<Rightarrow> lua_error + 'a" where
  "luaL_typerror args narg tname =
     luaL_argerror narg (tname @ '' expected, got '' @ lua_typename (index2adr args narg))"

definition luaL_checklstring :: "lua_conv \<Rightarrow> lval list \<Rightarrow> nat \<Rightarrow> lua_error + string" where
  "luaL_checklstring cv args narg =
     (case lua_tolstring cv (index2adr args narg) of
        None \<Rightarrow> luaL_typerror args narg ''string''
      | Some s \<Rightarrow> Inr s)"

text \<open>\<open>luaL_optlstring\<close>: the default may be NULL, so the result is an option.\<close>

definition luaL_optlstring ::
    "lua_conv \<Rightarrow> lval list \<Rightarrow> nat \<Rightarrow> string option \<Rightarrow> lua_error + string option" where
  "luaL_optlstring cv args narg d =
     (if lua_isnoneornil (index2adr args narg) then Inr d
      else bindE (luaL_checklstring cv args narg) (\<lambda>s. Inr (Some s)))"

text \<open>
  \<open>luaL_checkstring\<close> and \<open>luaL_optstring\<close> drop the length: the caller sees the bytes up to
  the first zero.
\<close>

definition luaL_checkstring :: "lua_conv \<Rightarrow> lval list \<Rightarrow> nat \<Rightarrow> lua_error + string" where
  "luaL_checkstring cv args narg = bindE (luaL_checklstring cv args narg) (\<lambda>s. Inr (cstr s))"

definition luaL_optstring ::
    "lua_conv \<Rightarrow> lval list \<Rightarrow> nat \<Rightarrow> string option \<Rightarrow> lua_error + string option" where
  "luaL_optstring cv args narg d =
     bindE (luaL_optlstring cv args narg d) (\<lambda>s. Inr (map_option cstr s))"

definition luaL_checknumber :: "lua_conv \<Rightarrow> lval list \<Rightarrow> nat \<Rightarrow> lua_error + real" where
  "luaL_checknumber cv args narg =
     (case lua_tonumber cv (index2adr args narg) of
        None \<Rightarrow> luaL_typerror args narg ''number''
      | Some d \<Rightarrow> Inr d)"

definition luaL_optnumber :: "lua_conv \<Rightarrow> lval list \<Rightarrow> nat \<Rightarrow> real \<Rightarrow> lua_error + real" where
  "luaL_optnumber cv args narg d =
     (if lua_isnoneornil (index2adr args narg) then Inr d else luaL_checknumber cv args narg)"

definition luaL_checkinteger :: "lua_conv \<Rightarrow> lval list \<Rightarrow> nat \<Rightarrow> lua_error + int" where
  "luaL_checkinteger cv args narg =
     bindE (luaL_checknumber cv args narg) (\<lambda>d. Inr (trunc_real d))"

fun checkoption_from :: "string list \<Rightarrow> string \<Rightarrow> nat option" where
  "checkoption_from [] name = None"
| "checkoption_from (o1 # lst) name =
     (if o1 = name then Some 0 else map_option Suc (checkoption_from lst name))"

text \<open>\<open>LUA_QL\<close>: a piece of a message between single quotes.\<close>

definition quoted :: "string \<Rightarrow> string" where
  "quoted s = CHR 0x27 # s @ [CHR 0x27]"

definition luaL_checkoption ::
    "lua_conv \<Rightarrow> lval list \<Rightarrow> nat \<Rightarrow> string option \<Rightarrow> string list \<Rightarrow> lua_error + nat" where
  "luaL_checkoption cv args narg d lst =
     bindE (case d of Some d' \<Rightarrow> bindE (luaL_optstring cv args narg (Some d')) (\<lambda>s. Inr (the s))
            | None \<Rightarrow> luaL_checkstring cv args narg)
       (\<lambda>name. case checkoption_from lst name of
          Some i \<Rightarrow> Inr i
        | None \<Rightarrow> luaL_argerror narg (''invalid option '' @ quoted name))"

section \<open>Results\<close>

text \<open>
  \<open>return n\<close> hands the top \<open>n\<close> slots of the stack to Lua, whatever lies below them.
\<close>

definition returns :: "nat \<Rightarrow> lval list \<Rightarrow> lval list" where
  "returns n stack = drop (length stack - n) stack"

lemma returns_exact [simp]: "length xs = n \<Longrightarrow> returns n (ys @ xs) = xs"
  by (simp add: returns_def)

text \<open>\<open>lua_pushstring\<close>: NULL pushes nil; otherwise the bytes up to the first zero.\<close>

fun lua_pushstring :: "string option \<Rightarrow> lval" where
  "lua_pushstring None = LNil"
| "lua_pushstring (Some s) = LStr (cstr s)"

section \<open>Tables\<close>

text \<open>\<open>lua_settable\<close> on a fresh table: the value of an existing key is replaced.\<close>

fun table_set :: "(lval \<times> lval) list \<Rightarrow> lval \<Rightarrow> lval \<Rightarrow> (lval \<times> lval) list" where
  "table_set [] k v = [(k, v)]"
| "table_set ((k', v') # t) k v = (if k' = k then (k, v) # t else (k', v') # table_set t k v)"

definition table_get :: "(lval \<times> lval) list \<Rightarrow> lval \<Rightarrow> lval" where
  "table_get t k = (case map_of t k of None \<Rightarrow> LNil | Some v \<Rightarrow> v)"

lemma map_of_table_set: "map_of (table_set t k v) = (map_of t)(k \<mapsto> v)"
  by (induction t k v rule: table_set.induct) (auto simp: fun_eq_iff)

lemma table_get_set: "table_get (table_set t k v) k' = (if k' = k then v else table_get t k')"
  by (simp add: table_get_def map_of_table_set)

lemma keys_table_set: "fst ` set (table_set t k v) = insert k (fst ` set t)"
  by (induction t k v rule: table_set.induct) auto

lemma distinct_keys_table_set: "distinct (map fst t) \<Longrightarrow> distinct (map fst (table_set t k v))"
  by (induction t k v rule: table_set.induct) (auto simp: keys_table_set)

section \<open>Automation\<close>

lemma index2adr_1 [simp]: "index2adr (v # vs) (Suc 0) = Some v"
  by (simp add: index2adr_def)

lemma index2adr_2 [simp]: "index2adr (u # v # vs) 2 = Some v"
  by (simp add: index2adr_def)

lemma index2adr_3 [simp]: "index2adr (u # v # w # vs) 3 = Some w"
  by (simp add: index2adr_def)

lemma index2adr_beyond [simp]: "length args < i \<Longrightarrow> index2adr args i = None"
  by (simp add: index2adr_def)

declare luaL_error_def [api_simps] luaL_argerror_def [api_simps] luaL_typerror_def [api_simps]
  luaL_checklstring_def [api_simps] luaL_optlstring_def [api_simps]
  luaL_checkstring_def [api_simps] luaL_optstring_def [api_simps]
  luaL_checknumber_def [api_simps] luaL_optnumber_def [api_simps]
  luaL_checkinteger_def [api_simps] lua_isnil_def [api_simps] lua_isnumber_def [api_simps]
  returns_def [api_simps]

lemma luaL_checkstring_Str [simp]:
  "index2adr args i = Some (LStr s) \<Longrightarrow> luaL_checkstring cv args i = Inr (cstr s)"
  by (simp add: api_simps)

lemma luaL_checkstring_no_nul: "luaL_checkstring cv args i = Inr s \<Longrightarrow> NUL \<notin> set s"
  by (auto simp: luaL_checkstring_def bindE_Inr_iff cstr_no_nul)

lemma luaL_optlstring_Str [simp]:
  "index2adr args i = Some (LStr s) \<Longrightarrow> luaL_optlstring cv args i d = Inr (Some s)"
  by (simp add: api_simps)

lemma luaL_optlstring_none [simp]:
  "lua_isnoneornil (index2adr args i) \<Longrightarrow> luaL_optlstring cv args i d = Inr d"
  by (simp add: api_simps)

lemma luaL_checknumber_Num [simp]:
  "index2adr args i = Some (LNum n) \<Longrightarrow> luaL_checknumber cv args i = Inr n"
  by (simp add: api_simps)

lemma luaL_optnumber_none [simp]:
  "lua_isnoneornil (index2adr args i) \<Longrightarrow> luaL_optnumber cv args i d = Inr d"
  by (simp add: api_simps)

lemma luaL_optnumber_Num [simp]:
  "index2adr args i = Some (LNum n) \<Longrightarrow> luaL_optnumber cv args i d = Inr n"
  by (simp add: api_simps)

end
