(* ===== verification/Mime_Codec.thy ===== *)
theory Mime_Codec
  imports Lua_Api
begin

text \<open>
  What the four incremental coders of \<open>lib/src/mime.c\<close> (\<open>b64\<close>, \<open>unb64\<close>, \<open>qp\<close>, \<open>unqp\<close>)
  have in common. Each is a step function that takes one byte, the bytes kept so far (the
  first \<open>size\<close> bytes of the C array \<open>atom\<close>) and the output buffer, and returns the bytes
  kept now and the grown output. \<open>mime_filter\<close> is the body the four \<open>mime_global_*\<close>
  functions share; the locale \<open>chunk_codec\<close> is the contract of a step function under which
  a script may feed its data in pieces of any size.
\<close>

section \<open>The loop over the input\<close>

type_synonym codec_step = "char \<Rightarrow> string \<Rightarrow> string \<Rightarrow> string \<times> string"

text \<open>\<open>while (input < last) asize = step (*input++, atom, asize, &buffer);\<close>\<close>

fun codec_run :: "codec_step \<Rightarrow> string \<Rightarrow> string \<Rightarrow> string \<Rightarrow> string \<times> string" where
  "codec_run step atom out [] = (atom, out)"
| "codec_run step atom out (c # s) =
     (let (atom', out') = step c atom out in codec_run step atom' out' s)"

text \<open>
  The shared body. Slot 1 is the first part of the input; without it the call reports the
  end of the data. Slot 2 is the second part; without it \<open>pad\<close> deals with what is left in
  the atom. The test \<open>if (!( *lua_tostring (L, -1)))\<close> looks at the first byte of the result:
  it is zero for an empty result, and also for one whose first byte is zero.
\<close>

definition mime_filter ::
    "codec_step \<Rightarrow> (string \<Rightarrow> string \<Rightarrow> string) \<Rightarrow> lua_conv \<Rightarrow> lval list \<Rightarrow> lua_results" where
  "mime_filter step pad cv args =
     bindE (luaL_optlstring cv args 1 None) (\<lambda>input. case input of
        None \<Rightarrow> Inr (returns 2 [LNil, LNil])
      | Some s \<Rightarrow>
          (let (atom, out) = codec_run step [] [] s in
           bindE (luaL_optlstring cv args 2 None) (\<lambda>input2. case input2 of
              None \<Rightarrow>
                (let out' = pad atom out in
                 Inr (returns 2 (LStr out' # (if cnth out' 0 = NUL then [LNil] else []) @ [LNil])))
            | Some s2 \<Rightarrow>
                (let (atom', out') = codec_run step atom out s2 in
                 Inr (returns 2 [LStr out', LStr atom'])))))"

text \<open>The end of the data for the decoders: nothing is added for the bytes left over.\<close>

definition no_pad :: "string \<Rightarrow> string \<Rightarrow> string" where
  "no_pad atom out = out"

section \<open>The contract of a step\<close>

text \<open>
  \<open>pending a\<close>: the bytes \<open>a\<close> can be what a step leaves in the atom. A step only appends to
  the output, keeps a pending atom pending, and reading a pending atom again from an empty
  one outputs nothing and rebuilds it.
\<close>

locale chunk_codec =
  fixes step :: codec_step
    and pending :: "string \<Rightarrow> bool"
  assumes step_out: "step c a out = (fst (step c a []), out @ snd (step c a []))"
    and pending_Nil: "pending []"
    and pending_step: "pending a \<Longrightarrow> pending (fst (step c a []))"
    and pending_prefix: "pending (a @ [c]) \<Longrightarrow> pending a"
    and pending_replay: "pending (a @ [c]) \<Longrightarrow> step c a [] = (a @ [c], [])"
begin

lemma run_out: "codec_run step a out s = (fst (codec_run step a [] s), out @ snd (codec_run step a [] s))"
proof (induction s arbitrary: a out)
  case Nil
  then show ?case by simp
next
  case (Cons c s)
  let ?a = "fst (step c a [])" and ?o = "snd (step c a [])"
  have l: "codec_run step a out (c # s) = codec_run step ?a (out @ ?o) s"
    by (simp add: step_out [of c a out])
  have r: "codec_run step a [] (c # s) = codec_run step ?a ?o s"
    by (simp add: case_prod_beta)
  show ?case
    unfolding l r using Cons.IH [of ?a "out @ ?o"] Cons.IH [of ?a ?o] by simp
qed

lemma run_append:
  "codec_run step a out (s @ t) =
     (let (a', out') = codec_run step a out s in codec_run step a' out' t)"
  by (induction s arbitrary: a out) (simp_all add: case_prod_beta)

lemma run_pending: "pending a \<Longrightarrow> pending (fst (codec_run step a out s))"
proof (induction s arbitrary: a out)
  case Nil
  then show ?case by simp
next
  case (Cons c s)
  have "pending (fst (step c a out))"
    using pending_step [OF Cons.prems, of c] by (simp add: step_out [of c a out])
  then show ?case by (simp add: case_prod_beta Cons.IH)
qed

lemma replay: "pending a \<Longrightarrow> codec_run step [] [] a = (a, [])"
proof (induction a rule: rev_induct)
  case Nil
  then show ?case by simp
next
  case (snoc c a)
  then have "codec_run step [] [] a = (a, [])" by (blast intro: pending_prefix)
  with snoc.prems show ?case by (simp add: run_append pending_replay)
qed

text \<open>Handing the kept bytes back as the first part of the next call resumes the run.\<close>

lemma resume:
  assumes "codec_run step [] [] s = (a, out)"
  shows "codec_run step [] [] (s @ t) = (let (a', out') = codec_run step [] [] (a @ t) in (a', out @ out'))"
proof -
  have "pending a" using run_pending [OF pending_Nil, of "[]" s] assms by simp
  then have "codec_run step [] [] (a @ t) = codec_run step a [] t"
    by (simp add: run_append replay)
  moreover have "codec_run step [] [] (s @ t) = codec_run step a out t"
    by (simp add: run_append assms)
  ultimately show ?thesis by (simp add: run_out [of a out t] case_prod_beta)
qed

lemma filter_two_parts:
  assumes "codec_run step [] [] (s @ t) = (a, out)"
  shows "mime_filter step pad cv [LStr s, LStr t] = Inr [LStr out, LStr a]"
  using assms by (simp add: mime_filter_def run_append case_prod_beta api_simps)

lemma filter_last:
  assumes "codec_run step [] [] s = (a, out)" and "cnth (pad a out) 0 \<noteq> NUL"
  shows "mime_filter step pad cv [LStr s] = Inr [LStr (pad a out), LNil]"
  using assms by (simp add: mime_filter_def returns_def)

end

section \<open>Feeding a stream in pieces\<close>

text \<open>
  The way \<open>ltn12\<close> filters drive a coder: every piece is passed together with the bytes the
  previous call kept.
\<close>

fun codec_stream :: "codec_step \<Rightarrow> string \<Rightarrow> string list \<Rightarrow> string \<times> string" where
  "codec_stream step kept [] = (kept, [])"
| "codec_stream step kept (d # ds) =
     (let (a, out) = codec_run step [] [] (kept @ d); (a', out') = codec_stream step a ds
      in (a', out @ out'))"

context chunk_codec begin

lemma stream_eq_run: "pending a \<Longrightarrow> codec_stream step a ds = codec_run step [] [] (a @ concat ds)"
proof (induction ds arbitrary: a)
  case Nil
  then show ?case by (simp add: replay)
next
  case (Cons d ds)
  obtain a' out where r: "codec_run step [] [] (a @ d) = (a', out)" by fastforce
  have "pending a'" using run_pending [OF pending_Nil, of "[]" "a @ d"] r by simp
  from Cons.IH [OF this] resume [OF r, of "concat ds"] show ?case by (simp add: r)
qed

end

end
