(* ===== verification/Mime_B64.thy ===== *)
theory Mime_B64
  imports Mime_Codec
begin

text \<open>
  Base64 transfer encoding, \<open>lib/src/mime.c\<close>: the tables, the two incremental steps, the
  padding, and the functions \<open>mime.b64\<close> and \<open>mime.unb64\<close> of the Lua module. The \<open>unsigned
  long\<close> and \<open>int\<close> the code computes with never exceed 24 bits here, so they are \<open>nat\<close>s, with
  the shifts and masks written as in C.
\<close>

section \<open>The code\<close>

definition b64base :: string where
  "b64base = ''ABCDEFGHIJKLMNOPQRSTUVWXYZabcdefghijklmnopqrstuvwxyz0123456789+/''"

text \<open>The decode map as \<open>b64setup\<close> fills it: a table indexed by byte.\<close>

definition b64setup :: "char \<Rightarrow> nat" where
  "b64setup = (foldl (\<lambda>t i. t(b64base ! i := i)) (\<lambda>_. 255) [0..<64])(CHR ''='' := 0)"

definition b64encode :: codec_step where
  "b64encode c atom out =
     (let input = atom @ [c] in
      if length input = 3 then
        (let value = uc (input ! 0);
             value = push_bit 8 value + uc (input ! 1);
             value = push_bit 8 value + uc (input ! 2);
             code3 = b64base ! (value AND 0x3f); value = drop_bit 6 value;
             code2 = b64base ! (value AND 0x3f); value = drop_bit 6 value;
             code1 = b64base ! (value AND 0x3f); value = drop_bit 6 value;
             code0 = b64base ! value
         in ([], out @ [code0, code1, code2, code3]))
      else (input, out))"

definition b64pad :: "string \<Rightarrow> string \<Rightarrow> string" where
  "b64pad input out =
     (if length input = 1 then
        (let value = push_bit 4 (uc (input ! 0));
             code1 = b64base ! (value AND 0x3f); value = drop_bit 6 value;
             code0 = b64base ! value
         in out @ [code0, code1, CHR ''='', CHR ''=''])
      else if length input = 2 then
        (let value = uc (input ! 0); value = push_bit 8 value;
             value = value OR uc (input ! 1); value = push_bit 2 value;
             code2 = b64base ! (value AND 0x3f); value = drop_bit 6 value;
             code1 = b64base ! (value AND 0x3f); value = drop_bit 6 value;
             code0 = b64base ! value
         in out @ [code0, code1, code2, CHR ''=''])
      else out)"

definition b64decode :: codec_step where
  "b64decode c atom out =
     (if b64setup c > 64 then (atom, out)
      else
        (let input = atom @ [c] in
         if length input = 4 then
           (let value = b64setup (input ! 0); value = push_bit 6 value;
                value = value OR b64setup (input ! 1); value = push_bit 6 value;
                value = value OR b64setup (input ! 2); value = push_bit 6 value;
                value = value OR b64setup (input ! 3);
                decoded2 = char_of (value AND 0xff); value = drop_bit 8 value;
                decoded1 = char_of (value AND 0xff); value = drop_bit 8 value;
                decoded0 = char_of value;
                valid = (if input ! 2 = CHR ''='' then 1 else if input ! 3 = CHR ''='' then 2 else 3)
            in ([], out @ take valid [decoded0, decoded1, decoded2]))
         else (input, out)))"

definition mime_global_b64 :: "lua_conv \<Rightarrow> lval list \<Rightarrow> lua_results" where
  "mime_global_b64 = mime_filter b64encode b64pad"

definition mime_global_unb64 :: "lua_conv \<Rightarrow> lval list \<Rightarrow> lua_results" where
  "mime_global_unb64 = mime_filter b64decode no_pad"

section \<open>The tables\<close>

lemma length_b64base [simp]: "length b64base = 64"
  by (simp add: b64base_def)

lemma distinct_b64base: "distinct b64base"
  by (simp add: b64base_def)

lemma foldl_upd_index:
  "distinct xs \<Longrightarrow> n \<le> length xs \<Longrightarrow>
   foldl (\<lambda>t i. t(xs ! i := i)) f [0..<n] c =
     (if c \<in> set (take n xs) then (THE k. k < n \<and> xs ! k = c) else f c)"
proof (induction n)
  case 0
  then show ?case by simp
next
  case (Suc n)
  then have n: "n < length xs" by simp
  have inj: "xs ! k = xs ! n \<longleftrightarrow> k = n" if "k < Suc n" for k
    using Suc.prems(1) that n by (simp add: nth_eq_iff_index_eq)
  show ?case
  proof (cases "c = xs ! n")
    case True
    moreover have "(THE k. k < Suc n \<and> xs ! k = xs ! n) = n"
      using inj by (intro the_equality) auto
    ultimately show ?thesis using n by (simp add: take_Suc_conv_app_nth)
  next
    case False
    then have "(\<lambda>k. k < Suc n \<and> xs ! k = c) = (\<lambda>k. k < n \<and> xs ! k = c)"
      by (auto simp: less_Suc_eq)
    with False Suc n show ?thesis by (simp add: take_Suc_conv_app_nth)
  qed
qed

lemma b64setup_base [simp]: "i < 64 \<Longrightarrow> b64setup (b64base ! i) = i"
proof -
  assume i: "i < 64"
  have "CHR ''='' \<notin> set b64base" by (simp add: b64base_def)
  with i have ne: "b64base ! i \<noteq> CHR ''=''" by (metis length_b64base nth_mem)
  have "(THE k. k < 64 \<and> b64base ! k = b64base ! i) = i"
    using i distinct_b64base by (intro the_equality) (auto simp: nth_eq_iff_index_eq)
  with i ne show ?thesis
    by (simp add: b64setup_def foldl_upd_index distinct_b64base del: upt_rec_numeral upt_conv_Cons)
qed

lemma b64setup_pad [simp]: "b64setup (CHR ''='') = 0"
  by (simp add: b64setup_def del: upt_rec_numeral)

lemma b64base_not_pad [simp]: "i < 64 \<Longrightarrow> b64base ! i \<noteq> CHR ''=''"
proof
  assume "i < 64" "b64base ! i = CHR ''=''"
  then have "CHR ''='' \<in> set b64base" by (metis length_b64base nth_mem)
  then show False by (simp add: b64base_def)
qed

lemma b64setup_range: "b64setup c \<le> 64 \<Longrightarrow> b64setup c < 64"
proof (cases "c \<in> set b64base")
  case True
  then obtain i where "i < 64" "c = b64base ! i" by (auto simp: in_set_conv_nth)
  then show ?thesis by simp
next
  case False
  then have "c \<noteq> CHR ''='' \<Longrightarrow> b64setup c = 255"
    by (simp add: b64setup_def foldl_upd_index distinct_b64base del: upt_rec_numeral upt_conv_Cons)
  then show "b64setup c \<le> 64 \<Longrightarrow> ?thesis" by (cases "c = CHR ''=''") simp_all
qed

section \<open>Reference encoding\<close>

text \<open>The alphabet of RFC 4648, Table 1: the upper and the lower case letters, the digits, \<open>+\<close> and \<open>/\<close>.\<close>

definition rfc_digit :: "nat \<Rightarrow> char" where
  "rfc_digit n =
     (if n < 26 then char_of (uc (CHR ''A'') + n)
      else if n < 52 then char_of (uc (CHR ''a'') + (n - 26))
      else if n < 62 then char_of (uc (CHR ''0'') + (n - 52))
      else if n = 62 then CHR ''+'' else CHR ''/'')"

text \<open>RFC 4648 on whole strings: three bytes are four base-64 digits, the rest is padded.\<close>

fun b64_spec :: "string \<Rightarrow> string" where
  "b64_spec [] = []"
| "b64_spec [a] = [rfc_digit (uc a div 4), rfc_digit (uc a mod 4 * 16), CHR ''='', CHR ''='']"
| "b64_spec [a, b] =
     [rfc_digit (uc a div 4), rfc_digit (uc a mod 4 * 16 + uc b div 16),
      rfc_digit (uc b mod 16 * 4), CHR ''='']"
| "b64_spec (a # b # c # s) =
     [rfc_digit (uc a div 4), rfc_digit (uc a mod 4 * 16 + uc b div 16),
      rfc_digit (uc b mod 16 * 4 + uc c div 64), rfc_digit (uc c mod 64)] @ b64_spec s"

text \<open>The table of the code is that alphabet.\<close>

lemma b64base_rfc: "n < 64 \<Longrightarrow> rfc_digit n = b64base ! n"
proof -
  have "list_all (\<lambda>n. rfc_digit n = b64base ! n) [0..<64]"
    by code_simp
  thus "n < 64 \<Longrightarrow> ?thesis"
    by (simp add: list_all_iff)
qed

section \<open>The encoder\<close>

lemma div_mod_64: "r < 64 \<Longrightarrow> (x * 64 + r) div 64 = x \<and> (x * 64 + r) mod 64 = (r::nat)"
  by simp

lemma sextet1: "(b::nat) < 256 \<Longrightarrow> a mod 4 * 16 + b div 16 < 64"
proof -
  assume "b < 256"
  then have "b div 16 < 16" by auto
  moreover have "a mod 4 < 4" by simp
  ultimately show ?thesis by linarith
qed

lemma sextet2: "(c::nat) < 256 \<Longrightarrow> b mod 16 * 4 + c div 64 < 64"
proof -
  assume "c < 256"
  then have "c div 64 < 4" by auto
  moreover have "b mod 16 < 16" by simp
  ultimately show ?thesis by linarith
qed

lemma sextets_value:
  "65536 * a + b * 256 + c =
     ((a div 4 * 64 + (a mod 4 * 16 + b div 16)) * 64 + (b mod 16 * 4 + c div 64)) * 64 + c mod (64::nat)"
proof -
  have "65536 * (a1 * 4 + a0) + (b1 * 16 + b0) * 256 + (c1 * 64 + c0)
      = ((a1 * 64 + (a0 * 16 + b1)) * 64 + (b0 * 4 + c1)) * 64 + (c0::nat)" for a1 a0 b1 b0 c1 c0
    by simp
  from this [of "a div 4" "a mod 4" "b div 16" "b mod 16" "c div 64" "c mod 64"]
  show ?thesis by (simp only: div_mult_mod_eq)
qed

lemma sextets:
  assumes "(b::nat) < 256" and "(c::nat) < 256"
  shows "(65536 * a + b * 256 + c) mod 64 = c mod 64"
    "(65536 * a + b * 256 + c) div 64 mod 64 = b mod 16 * 4 + c div 64"
    "(65536 * a + b * 256 + c) div 64 div 64 mod 64 = a mod 4 * 16 + b div 16"
    "(65536 * a + b * 256 + c) div 64 div 64 div 64 = a div 4"
  using sextet1 [OF assms(1), of a] sextet2 [OF assms(2), of b]
  by (simp_all only: sextets_value div_mod_64 mod_less_divisor)

lemma uc_div_4 [simp]: "uc a div 4 < 64"
  using uc_less [of a] by linarith

declare b64_spec.simps [simp del]

lemma b64_spec_base [simp]:
  "b64_spec [] = []"
  "b64_spec [a] = [b64base ! (uc a div 4), b64base ! (uc a mod 4 * 16), CHR ''='', CHR ''='']"
  "b64_spec [a, b] =
     [b64base ! (uc a div 4), b64base ! (uc a mod 4 * 16 + uc b div 16),
      b64base ! (uc b mod 16 * 4), CHR ''='']"
  "b64_spec (a # b # c # s) =
     [b64base ! (uc a div 4), b64base ! (uc a mod 4 * 16 + uc b div 16),
      b64base ! (uc b mod 16 * 4 + uc c div 64), b64base ! (uc c mod 64)] @ b64_spec s"
  using sextet1 [of 0 "uc a"] sextet1 [of "uc b" "uc a"] sextet2 [of 0 "uc b"] sextet2 [of "uc c" "uc b"]
  by (simp_all add: b64_spec.simps b64base_rfc)

lemma b64encode_short: "length a < 2 \<Longrightarrow> b64encode c a out = (a @ [c], out)"
  by (simp add: b64encode_def)

lemma b64encode_full:
  "b64encode c [a, b] out = ([], out @
     [b64base ! (uc a div 4), b64base ! (uc a mod 4 * 16 + uc b div 16),
      b64base ! (uc b mod 16 * 4 + uc c div 64), b64base ! (uc c mod 64)])"
  by (simp add: b64encode_def mask6 push_bit_eq_mult drop_bit_eq_div sextets Let_def)

definition b64_pending :: "string \<Rightarrow> bool" where
  "b64_pending a \<longleftrightarrow> length a < 3"

lemma short_cases: "length a < 3 \<Longrightarrow> length a < 2 \<or> (\<exists>x y. a = [x, y])"
  by (cases a; cases "tl a"; cases "tl (tl a)") auto

interpretation b64e: chunk_codec b64encode b64_pending
proof
  show "b64encode c a out = (fst (b64encode c a []), out @ snd (b64encode c a []))" for c a out
    by (simp add: b64encode_def Let_def)
  show "b64_pending []" by (simp add: b64_pending_def)
  show "b64_pending (fst (b64encode c a []))" if "b64_pending a" for c a
    using that by (simp add: b64_pending_def b64encode_def Let_def)
  show "b64_pending a" if "b64_pending (a @ [c])" for a c
    using that by (simp add: b64_pending_def)
  show "b64encode c a [] = (a @ [c], [])" if "b64_pending (a @ [c])" for a c
    using that by (simp add: b64_pending_def b64encode_short)
qed

lemma b64pad_spec: "length a < 3 \<Longrightarrow> b64pad a out = out @ b64_spec a"
proof -
  assume "length a < 3"
  then consider "a = []" | x where "a = [x]" | x y where "a = [x, y]"
    by (cases a; cases "tl a"; cases "tl (tl a)") auto
  then show ?thesis
  proof cases
    case 2
    have "uc x * 16 = uc x div 4 * 64 + uc x mod 4 * 16" "uc x mod 4 * 16 < 64"
      using div_mult_mod_eq [of "uc x" 4] mod_less_divisor [of 4 "uc x"] by linarith+
    then have "uc x * 16 mod 64 = uc x mod 4 * 16" "uc x * 16 div 64 = uc x div 4"
      using div_mod_64 by metis+
    with 2 show ?thesis by (simp add: b64pad_def mask6 push_bit_eq_mult drop_bit_eq_div Let_def)
  next
    case 3
    have or8: "push_bit 8 (uc x) OR uc y = uc x * 256 + uc y"
      using push_or [of "uc y" 8 "uc x"] by simp
    have b: "uc x mod 4 * 16 + uc y div 16 < 64" "uc y mod 16 * 4 < 64"
      using sextet1 [of "uc y" "uc x"] sextet2 [of 0 "uc y"] by simp_all
    have v: "(uc x * 256 + uc y) * 4
        = (uc x div 4 * 64 + (uc x mod 4 * 16 + uc y div 16)) * 64 + uc y mod 16 * 4"
      using sextets_value [of "uc x" "uc y" 0] by simp
    have e: "n div 16 = n * 4 div 64" for n :: nat by simp
    have "(uc x * 256 + uc y) * 4 mod 64 = uc y mod 16 * 4"
      "(uc x * 256 + uc y) div 16 mod 64 = uc x mod 4 * 16 + uc y div 16"
      "(uc x * 256 + uc y) div 16 div 64 = uc x div 4"
      using b by (simp_all only: e [of "uc x * 256 + uc y"] v div_mod_64)
    with 3 show ?thesis
      by (simp add: b64pad_def mask6 or8 push_bit_eq_mult [of 2] drop_bit_eq_div Let_def)
  qed (simp add: b64pad_def)
qed

lemma b64_run_spec:
  assumes "codec_run b64encode [] [] s = (a, out)"
  shows "length a < 3 \<and> b64_spec s = out @ b64_spec a"
  using assms
proof (induction s arbitrary: out rule: b64_spec.induct)
  case (4 x y z s)
  define g where "g = [b64base ! (uc x div 4), b64base ! (uc x mod 4 * 16 + uc y div 16),
      b64base ! (uc y mod 16 * 4 + uc z div 64), b64base ! (uc z mod 64)]"
  have "codec_run b64encode [] [] (x # y # z # s) = codec_run b64encode [] g s"
    by (simp add: b64encode_short b64encode_full g_def)
  with "4.prems" have "codec_run b64encode [] [] s = (a, snd (codec_run b64encode [] [] s))"
    and "out = g @ snd (codec_run b64encode [] [] s)"
    by (simp_all add: b64e.run_out [of "[]" g])
  with "4.IH" show ?case by (simp add: g_def)
qed (auto simp: b64encode_short)

section \<open>The decoder\<close>

lemma b64decode_invalid: "64 < b64setup c \<Longrightarrow> b64decode c a out = (a, out)"
  by (simp add: b64decode_def)

lemma b64decode_short: "b64setup c \<le> 64 \<Longrightarrow> length a < 3 \<Longrightarrow> b64decode c a out = (a @ [c], out)"
  by (simp add: b64decode_def)

lemma b64decode_digit:
  "i < 64 \<Longrightarrow> length a < 3 \<Longrightarrow> b64decode (b64base ! i) a out = (a @ [b64base ! i], out)"
  by (simp add: b64decode_short)

lemma b64decode_equals: "length a < 3 \<Longrightarrow> b64decode (CHR ''='') a out = (a @ [CHR ''=''], out)"
  by (simp add: b64decode_short)

lemma b64decode_length: "length a < 4 \<Longrightarrow> length (fst (b64decode c a out)) < 4"
  by (simp add: b64decode_def Let_def)

definition unb64_pending :: "string \<Rightarrow> bool" where
  "unb64_pending a \<longleftrightarrow> length a < 4 \<and> (\<forall>c \<in> set a. b64setup c \<le> 64)"

interpretation b64d: chunk_codec b64decode unb64_pending
proof
  show "b64decode c a out = (fst (b64decode c a []), out @ snd (b64decode c a []))" for c a out
    by (simp add: b64decode_def Let_def)
  show "unb64_pending []" by (simp add: unb64_pending_def)
  show "unb64_pending (fst (b64decode c a []))" if "unb64_pending a" for c a
    using that by (simp add: unb64_pending_def b64decode_def Let_def not_less)
  show "unb64_pending a" if "unb64_pending (a @ [c])" for a c
    using that by (simp add: unb64_pending_def)
  show "b64decode c a [] = (a @ [c], [])" if "unb64_pending (a @ [c])" for a c
    using that by (simp add: unb64_pending_def b64decode_short)
qed

text \<open>One group of four digits whose 24-bit value is that of the bytes \<open>a b c\<close>.\<close>

lemma b64decode_group:
  assumes v: "((b64setup x * 64 + b64setup y) * 64 + b64setup z) * 64 + b64setup w
      = 65536 * uc a + uc b * 256 + uc c"
    and lt: "b64setup y < 64" "b64setup z < 64" "b64setup w < 64"
  shows "b64decode w [x, y, z] out
     = ([], out @ take (if z = CHR ''='' then 1 else if w = CHR ''='' then 2 else 3) [a, b, c])"
proof -
  have o: "push_bit 6 p OR q = p * 64 + q" if "q < 64" for p q :: nat
    using push_or [of q 6 p] that by simp
  define V where "V = 65536 * uc a + uc b * 256 + uc c"
  have V: "push_bit 6 (push_bit 6 (push_bit 6 (b64setup x) OR b64setup y) OR b64setup z) OR b64setup w = V"
    using lt by (simp only: o v V_def)
  have d: "V mod 256 = uc c" "V div 256 mod 256 = uc b" "V div 256 div 256 = uc a"
  proof -
    have v': "V = (uc a * 256 + uc b) * 256 + uc c" by (simp add: V_def)
    have dm: "r < 256 \<Longrightarrow> (n * 256 + r) div 256 = n \<and> (n * 256 + r) mod 256 = r" for n r :: nat
      by simp
    show "V mod 256 = uc c" "V div 256 mod 256 = uc b" "V div 256 div 256 = uc a"
      unfolding v' by (simp_all only: dm uc_less)
  qed
  have len: "length ([x, y, z] @ [w]) = 4" by simp
  have ok: "\<not> b64setup w > 64" using lt by simp
  show ?thesis
    unfolding b64decode_def Let_def len if_not_P [OF ok] if_P [OF refl]
    by (simp add: V mask8 drop_bit_eq_div d del: push_bit_or push_bit_push_bit)
qed

lemma b64_run_decode: "codec_run b64decode [] out (b64_spec s) = ([], out @ s)"
proof (induction s arbitrary: out rule: b64_spec.induct)
  case 1
  then show ?case by simp
next
  case (2 a)
  have lt: "uc a div 4 < 64" "uc a mod 4 * 16 < 64"
    using sextet1 [of 0 "uc a"] by simp_all
  have g: "b64decode (CHR ''='') [b64base ! (uc a div 4), b64base ! (uc a mod 4 * 16), CHR ''=''] out
      = ([], out @ [a])"
    using b64decode_group [of "b64base ! (uc a div 4)" "b64base ! (uc a mod 4 * 16)" "CHR ''=''" "CHR ''=''" a NUL NUL]
      sextets_value [of "uc a" 0 0] lt by simp
  show ?case using lt by (simp add: b64decode_digit b64decode_equals g)
next
  case (3 a b)
  have lt: "uc a div 4 < 64" "uc a mod 4 * 16 + uc b div 16 < 64" "uc b mod 16 * 4 < 64"
    using sextet1 [of "uc b" "uc a"] sextet2 [of 0 "uc b"] by simp_all
  have g: "b64decode (CHR ''='') [b64base ! (uc a div 4), b64base ! (uc a mod 4 * 16 + uc b div 16),
       b64base ! (uc b mod 16 * 4)] out = ([], out @ [a, b])"
    using b64decode_group [of "b64base ! (uc a div 4)" "b64base ! (uc a mod 4 * 16 + uc b div 16)"
        "b64base ! (uc b mod 16 * 4)" "CHR ''=''" a b NUL]
      sextets_value [of "uc a" "uc b" 0] lt by simp
  show ?case using lt by (simp add: b64decode_digit b64decode_equals g)
next
  case (4 a b c s)
  have lt: "uc a div 4 < 64" "uc a mod 4 * 16 + uc b div 16 < 64"
    "uc b mod 16 * 4 + uc c div 64 < 64" "uc c mod 64 < 64"
    using sextet1 [of "uc b" "uc a"] sextet2 [of "uc c" "uc b"] by simp_all
  have g: "b64decode (b64base ! (uc c mod 64)) [b64base ! (uc a div 4),
       b64base ! (uc a mod 4 * 16 + uc b div 16), b64base ! (uc b mod 16 * 4 + uc c div 64)] out
      = ([], out @ [a, b, c])"
    using b64decode_group [of "b64base ! (uc a div 4)" "b64base ! (uc a mod 4 * 16 + uc b div 16)"
        "b64base ! (uc b mod 16 * 4 + uc c div 64)" "b64base ! (uc c mod 64)" a b c]
      sextets_value [of "uc a" "uc b" "uc c"] lt by simp
  show ?case using lt "4.IH" by (simp add: b64decode_digit g)
qed

section \<open>Properties\<close>

lemma b64_spec_head: "s \<noteq> [] \<Longrightarrow> cnth (b64_spec s) 0 \<noteq> NUL"
proof -
  have z: "NUL \<notin> set b64base" by (simp add: b64base_def)
  have "b64base ! (uc a div 4) \<noteq> NUL" for a
    using z nth_mem [of "uc a div 4" b64base] by (metis length_b64base uc_div_4)
  then show "s \<noteq> [] \<Longrightarrow> ?thesis" by (cases s rule: b64_spec.cases) (simp_all add: cnth_def)
qed

lemma b64_run_pad: "codec_run b64encode [] [] s = (a, out) \<Longrightarrow> b64pad a out = b64_spec s"
  using b64_run_spec [of s a out] by (simp add: b64pad_spec)

text \<open>
  C23. \<open>mime.b64 (s)\<close> on a non-empty string returns the RFC 4648 encoding of \<open>s\<close> and nil,
  for every byte string: the incremental coder with its three-byte atom and padding
  implements the whole-string reference.
\<close>

theorem b64_implements_rfc4648:
  assumes "s \<noteq> []"
  shows "mime_global_b64 cv [LStr s] = Inr [LStr (b64_spec s), LNil]"
proof -
  obtain a out where r: "codec_run b64encode [] [] s = (a, out)" by fastforce
  from b64_run_pad [OF r] b64_spec_head [OF assms] have "cnth (b64pad a out) 0 \<noteq> NUL" by simp
  from b64e.filter_last [where pad = b64pad, OF r this] b64_run_pad [OF r] show ?thesis
    by (simp add: mime_global_b64_def)
qed

theorem b64_implements_rfc4648_witness:
  "mime_global_b64 plain_conv [LStr ''diego:password'']
     = Inr [LStr ''ZGllZ286cGFzc3dvcmQ='', LNil]"
proof -
  have "b64_spec ''diego:password'' = ''ZGllZ286cGFzc3dvcmQ=''" by code_simp
  with b64_implements_rfc4648 [of "''diego:password''"] show ?thesis by simp
qed

text \<open>
  C24. Round trip: decoding with \<open>mime.unb64\<close> what \<open>mime.b64\<close> produced gives the original
  string back, for every string that is not empty and does not start with a zero byte.
\<close>

theorem b64_roundtrip:
  assumes "s \<noteq> []" and "hd s \<noteq> NUL"
    and "mime_global_b64 cv [LStr s] = Inr [LStr e, LNil]"
  shows "mime_global_unb64 cv [LStr e] = Inr [LStr s, LNil]"
proof -
  from assms(3) b64_implements_rfc4648 [OF assms(1)] have e: "e = b64_spec s" by simp
  have r: "codec_run b64decode [] [] e = ([], s)" by (simp add: e b64_run_decode)
  have "cnth (no_pad [] s) 0 \<noteq> NUL" using assms(1,2) by (cases s) (auto simp: no_pad_def cnth_def)
  from b64d.filter_last [where pad = no_pad, OF r this] show ?thesis by (simp add: mime_global_unb64_def no_pad_def)
qed

theorem b64_roundtrip_witness:
  "mime_global_unb64 plain_conv [LStr ''cHJlbWFrZQ=='']
     = Inr [LStr ''premake'', LNil]"
proof -
  have "b64_spec ''premake'' = ''cHJlbWFrZQ==''" by code_simp
  with b64_implements_rfc4648 [of "''premake''"]
  have "mime_global_b64 plain_conv [LStr ''premake'']
    = Inr [LStr ''cHJlbWFrZQ=='', LNil]" by simp
  from b64_roundtrip [OF _ _ this] show ?thesis by simp
qed

text \<open>
  The exception of the round trip is a loss of data: decoding the encoding of any string
  that starts with a zero byte returns nil, nil, as if there were no output, because the
  test for an empty result looks at the first byte only.
\<close>

theorem unb64_loses_leading_zero:
  "mime_global_unb64 cv [LStr (b64_spec (NUL # s))] = Inr [LNil, LNil]"
  by (simp add: mime_global_unb64_def mime_filter_def b64_run_decode no_pad_def cnth_def returns_def
      del: b64_spec_base)

text \<open>
  Streaming: however a script cuts the data into pieces \<open>ds\<close>, passing to each call the
  bytes the previous one kept, the encoder's output with its final padding is the encoding
  of the whole, and however the encoded text is cut into pieces \<open>es\<close> the decoder's output
  is the original data with nothing left over.
\<close>

theorem b64_streaming:
  assumes "concat es = b64_spec (concat ds)"
  shows "(case codec_stream b64encode [] ds of (kept, out) \<Rightarrow> b64pad kept out) = concat es
     \<and> codec_stream b64decode [] es = ([], concat ds)"
proof -
  have "codec_stream b64encode [] ds = codec_run b64encode [] [] (concat ds)"
    using b64e.stream_eq_run [of "[]" ds] by (simp add: b64_pending_def)
  moreover have "codec_stream b64decode [] es = codec_run b64decode [] [] (concat es)"
    using b64d.stream_eq_run [of "[]" es] by (simp add: unb64_pending_def)
  ultimately show ?thesis
    using assms b64_run_pad [of "concat ds"] by (simp add: b64_run_decode split: prod.splits)
qed

theorem b64_streaming_witness:
  "codec_stream b64decode [] [''cH'', ''JlbWF'', ''rZQ='', ''=''] = ([], ''premake'')"
proof -
  have "concat [''cH'', ''JlbWF'', ''rZQ='', ''=''] = b64_spec (concat [''pre'', ''make''])" by code_simp
  from b64_streaming [OF this] show ?thesis by simp
qed

lemma run_decode_filter:
  "codec_run b64decode a out s = codec_run b64decode a out (filter (\<lambda>c. b64setup c \<le> 64) s)"
  by (induction s arbitrary: a out) (simp_all add: b64decode_invalid not_le case_prod_beta)

text \<open>
  The decoder skips every byte outside the base-64 alphabet, so text broken into lines
  (for example by \<open>mime.wrp\<close>) decodes like the unbroken text.
\<close>

theorem unb64_skips_foreign_bytes:
  "mime_global_unb64 cv [LStr s] = mime_global_unb64 cv [LStr (filter (\<lambda>c. b64setup c \<le> 64) s)]"
  using run_decode_filter [of "[]" "[]" s] by (simp add: mime_global_unb64_def mime_filter_def returns_def)

text \<open>
  Memory bounds: after any input the encoder keeps fewer than 3 bytes and the decoder
  fewer than 4, so the byte a step adds always fits \<open>UC atom[3]\<close> and \<open>UC atom[4]\<close>; and a
  byte the decoder accepts has a value below 64, so no digit value overflows its six bits.
\<close>

theorem b64_atom_bounds:
  "length (fst (codec_run b64encode [] [] s)) < 3
   \<and> length (fst (codec_run b64decode [] [] s)) < 4
   \<and> (\<forall>c. c \<in> set (fst (codec_run b64decode [] [] s)) \<longrightarrow> b64setup c < 64)"
  using b64e.run_pending [of "[]" "[]" s] b64d.run_pending [of "[]" "[]" s]
  by (auto simp: b64_pending_def unb64_pending_def intro: b64setup_range)

end
