(* ===== verification/Mime_Qp.thy ===== *)
theory Mime_Qp
  imports Mime_Codec
begin

text \<open>
  Quoted-printable transfer encoding, \<open>lib/src/mime.c\<close>: the character classes, the two
  incremental steps and the functions \<open>mime.qp\<close> and \<open>mime.unqp\<close>. The atom is the list of
  the first \<open>size\<close> bytes of \<open>UC input[3]\<close>; the shift \<open>input[0] = input[1]; input[1] = input[2];
  size--\<close> of the encoder's loop is the tail of that list.
\<close>

section \<open>The code\<close>

datatype qp_class = QP_PLAIN | QP_QUOTED | QP_CR | QP_IF_LAST

text \<open>\<open>qpsetup\<close>: the assignments of the code from the last, which wins, to the first.\<close>

definition qpclass :: "char \<Rightarrow> qp_class" where
  "qpclass c =
     (if c = CR then QP_CR
      else if c = CHR '' '' then QP_IF_LAST
      else if c = TAB then QP_IF_LAST
      else if 62 \<le> uc c \<and> uc c \<le> 126 then QP_PLAIN
      else if 33 \<le> uc c \<and> uc c \<le> 60 then QP_PLAIN
      else QP_QUOTED)"

definition qpunbase :: "char \<Rightarrow> nat" where
  "qpunbase c =
     (case strchr ''0123456789ABCDEF'' c of Some i \<Rightarrow> i
      | None \<Rightarrow> (case strchr ''abcdef'' c of Some i \<Rightarrow> 10 + i | None \<Rightarrow> 255))"

definition CRLF :: string where "CRLF = [CR, LF]"
definition EQCRLF :: string where "EQCRLF = [CHR ''='', CR, LF]"

text \<open>\<open>qpbase\<close> is the table \<open>hexdigit\<close>.\<close>

definition qpquote :: "char \<Rightarrow> string \<Rightarrow> string" where
  "qpquote c out = out @ [CHR ''='', hexdigit (drop_bit 4 (uc c)), hexdigit (uc c AND 0x0F)]"

fun qpencode_loop :: "string \<Rightarrow> string \<Rightarrow> string \<Rightarrow> string \<times> string" where
  "qpencode_loop marker [] out = ([], out)"
| "qpencode_loop marker (c # rest) out =
     (case qpclass c of
        QP_CR \<Rightarrow>
          (if length (c # rest) < 2 then (c # rest, out)
           else if rest ! 0 = LF then ([], out @ marker)
           else qpencode_loop marker rest (qpquote c out))
      | QP_IF_LAST \<Rightarrow>
          (if length (c # rest) < 3 then (c # rest, out)
           else if rest ! 0 = CR \<and> rest ! 1 = LF then ([], qpquote c out @ marker)
           else qpencode_loop marker rest (out @ [c]))
      | QP_QUOTED \<Rightarrow> qpencode_loop marker rest (qpquote c out)
      | QP_PLAIN \<Rightarrow> qpencode_loop marker rest (out @ [c]))"

definition qpencode :: "string \<Rightarrow> codec_step" where
  "qpencode marker c atom out = qpencode_loop marker (atom @ [c]) out"

definition qppad :: "string \<Rightarrow> string \<Rightarrow> string" where
  "qppad input out =
     (let out = foldl (\<lambda>out c. if qpclass c = QP_PLAIN then out @ [c] else qpquote c out) out input
      in if length input > 0 then out @ EQCRLF else out)"

definition qpdecode :: codec_step where
  "qpdecode c atom out =
     (let input = atom @ [c] in
      if input ! 0 = CHR ''='' then
        (if length input < 3 then (input, out)
         else if input ! 1 = CR \<and> input ! 2 = LF then ([], out)
         else (let c = qpunbase (input ! 1); d = qpunbase (input ! 2) in
               if c > 15 \<or> d > 15 then ([], out @ take 3 input)
               else ([], out @ [char_of (push_bit 4 c + d)])))
      else if input ! 0 = CR then
        (if length input < 2 then (input, out)
         else if input ! 1 = LF then ([], out @ take 2 input)
         else ([], out))
      else if input ! 0 = TAB \<or> (uc (input ! 0) > 31 \<and> uc (input ! 0) < 127)
        then ([], out @ [input ! 0])
        else ([], out))"

text \<open>\<open>mime.qp (C, D, marker)\<close>: slot 1 is checked first, then the marker of slot 3.\<close>

definition mime_global_qp :: "lua_conv \<Rightarrow> lval list \<Rightarrow> lua_results" where
  "mime_global_qp cv args =
     bindE (luaL_optlstring cv args 1 None) (\<lambda>_.
     bindE (luaL_optstring cv args 3 (Some CRLF)) (\<lambda>marker.
     mime_filter (qpencode (the marker)) qppad cv args))"

definition mime_global_unqp :: "lua_conv \<Rightarrow> lval list \<Rightarrow> lua_results" where
  "mime_global_unqp = mime_filter qpdecode no_pad"

section \<open>Output of the encoder\<close>

lemma qpquote_app: "qpquote c out = out @ qpquote c []"
  by (simp add: qpquote_def)

lemma qpencode_loop_out:
  "qpencode_loop m a out = (fst (qpencode_loop m a []), out @ snd (qpencode_loop m a []))"
proof (induction a arbitrary: out)
  case Nil
  then show ?case by simp
next
  case (Cons c rest)
  note app = Cons.IH [of "out @ [c]"] Cons.IH [of "[c]"] Cons.IH [of "out @ qpquote c []"]
    Cons.IH [of "qpquote c []"] qpquote_app [of c out]
  show ?case
    by (cases "qpclass c") (simp_all add: app)
qed

text \<open>What a step leaves: a carriage return, or a blank and perhaps one more byte.\<close>

definition qp_pending :: "string \<Rightarrow> bool" where
  "qp_pending a \<longleftrightarrow> a = [] \<or> (length a = 1 \<and> qpclass (hd a) = QP_CR)
     \<or> (length a < 3 \<and> qpclass (hd a) = QP_IF_LAST)"

lemma qpclass_CR: "qpclass c = QP_CR \<longleftrightarrow> c = CR"
  by (simp add: qpclass_def)

lemma qpclass_of_CR [simp]: "qpclass CR = QP_CR"
  by (simp add: qpclass_def)

text \<open>The bytes the loop works on: at most three, and three only after a blank.\<close>

definition qp_input :: "string \<Rightarrow> bool" where
  "qp_input a \<longleftrightarrow> length a < 3 \<or> (length a = 3 \<and> qpclass (hd a) = QP_IF_LAST)"

lemma qp_pending_input: "qp_pending a \<Longrightarrow> qp_input (a @ [c])"
  by (auto simp: qp_pending_def qp_input_def hd_append)

lemma qp_loop_pending: "qp_input a \<Longrightarrow> qp_pending (fst (qpencode_loop m a out))"
proof (induction m a out rule: qpencode_loop.induct)
  case (1 m out)
  then show ?case by (simp add: qp_pending_def)
next
  case (2 m c rest out)
  have r: "qp_input rest" using "2.prems" by (auto simp: qp_input_def)
  show ?case
    using 2 r by (cases "qpclass c") (auto simp: qp_pending_def)
qed

interpretation qpe: chunk_codec "qpencode m" qp_pending for m
proof
  show "qpencode m c a out = (fst (qpencode m c a []), out @ snd (qpencode m c a []))" for c a out
    by (simp add: qpencode_def) (rule qpencode_loop_out)
  show "qp_pending []" by (simp add: qp_pending_def)
  show "qp_pending (fst (qpencode m c a []))" if "qp_pending a" for c a
    unfolding qpencode_def by (rule qp_loop_pending [OF qp_pending_input [OF that]])
  show "qp_pending a" if "qp_pending (a @ [c])" for a c
    using that by (cases a) (auto simp: qp_pending_def)
  show "qpencode m c a [] = (a @ [c], [])" if "qp_pending (a @ [c])" for a c
    using that by (cases a) (auto simp: qp_pending_def qpencode_def)
qed

section \<open>The decoder\<close>

definition unqp_pending :: "string \<Rightarrow> bool" where
  "unqp_pending a \<longleftrightarrow> a = [] \<or> (hd a = CHR ''='' \<and> length a < 3) \<or> a = [CR]"

lemma unqp_pending_cases:
  assumes "unqp_pending a"
  obtains "a = []" | "a = [CHR ''='']" | x where "a = [CHR ''='', x]" | "a = [CR]"
  using assms by (cases a; cases "tl a") (auto simp: unqp_pending_def)

lemma qpdecode_simps:
  "qpdecode c [] out =
     (if c = CHR ''='' \<or> c = CR then ([c], out)
      else if c = TAB \<or> (uc c > 31 \<and> uc c < 127) then ([], out @ [c]) else ([], out))"
  "qpdecode c [CHR ''=''] out = ([CHR ''='', c], out)"
  "qpdecode c [CHR ''='', x] out =
     (if x = CR \<and> c = LF then ([], out)
      else if qpunbase x > 15 \<or> qpunbase c > 15 then ([], out @ [CHR ''='', x, c])
      else ([], out @ [char_of (push_bit 4 (qpunbase x) + qpunbase c)]))"
  "qpdecode c [CR] out = (if c = LF then ([], out @ [CR, LF]) else ([], out))"
  by (simp_all add: qpdecode_def Let_def)

interpretation qpd: chunk_codec qpdecode unqp_pending
proof
  show "qpdecode c a out = (fst (qpdecode c a []), out @ snd (qpdecode c a []))" for c a out
  proof -
    define input where "input = a @ [c]"
    show ?thesis unfolding qpdecode_def Let_def input_def [symmetric] by simp
  qed
  show "unqp_pending []" by (simp add: unqp_pending_def)
  show "unqp_pending (fst (qpdecode c a []))" if "unqp_pending a" for c a
    using that by (cases rule: unqp_pending_cases) (simp_all add: qpdecode_simps unqp_pending_def)
  show "unqp_pending a" if "unqp_pending (a @ [c])" for a c
    using that by (cases a) (auto simp: unqp_pending_def)
  show "qpdecode c a [] = (a @ [c], [])" if "unqp_pending (a @ [c])" for a c
    using that by (cases rule: unqp_pending_cases)
      (auto simp: qpdecode_simps append_eq_Cons_conv)
qed

section \<open>Decoding what was encoded\<close>

text \<open>
  \<open>qp_text e p\<close>: the text \<open>e\<close> is a sequence of quoted-printable tokens (a plain byte, \<open>=XX\<close>,
  a hard or a soft line break) that stands for the bytes \<open>p\<close>. \<open>decodes e p\<close>: the decoder
  turns \<open>e\<close> into \<open>p\<close> and keeps nothing.
\<close>

inductive qp_text :: "string \<Rightarrow> string \<Rightarrow> bool" where
  empty: "qp_text [] []"
| plain: "qpclass c = QP_PLAIN \<or> qpclass c = QP_IF_LAST \<Longrightarrow> qp_text e p \<Longrightarrow> qp_text (c # e) (c # p)"
| quote: "qp_text e p \<Longrightarrow> qp_text (qpquote c [] @ e) (c # p)"
| hard_break: "qp_text e p \<Longrightarrow> qp_text (CRLF @ e) (CRLF @ p)"
| soft_break: "qp_text e p \<Longrightarrow> qp_text (EQCRLF @ e) p"

definition decodes :: "string \<Rightarrow> string \<Rightarrow> bool" where
  "decodes e p \<longleftrightarrow> codec_run qpdecode [] [] e = ([], p)"

named_theorems qp_tokens "texts made of one quoted-printable token"

lemma qp_text_append: "qp_text e p \<Longrightarrow> qp_text e' p' \<Longrightarrow> qp_text (e @ e') (p @ p')"
  by (induction rule: qp_text.induct) (auto intro: qp_text.intros)

lemma qp_text_plain [qp_tokens]: "qpclass c = QP_PLAIN \<or> qpclass c = QP_IF_LAST \<Longrightarrow> qp_text [c] [c]"
  using qp_text.plain [OF _ qp_text.empty] .

lemma qp_text_quote [qp_tokens]: "qp_text (qpquote c []) [c]"
  using qp_text.quote [OF qp_text.empty, of c] by simp

lemma qp_text_CRLF [qp_tokens]: "qp_text CRLF CRLF"
  using qp_text.hard_break [OF qp_text.empty] by simp

lemma qp_text_EQCRLF [qp_tokens]: "qp_text EQCRLF []"
  using qp_text.soft_break [OF qp_text.empty] by simp

lemma decodes_append: "decodes e p \<Longrightarrow> decodes e' p' \<Longrightarrow> decodes (e @ e') (p @ p')"
  by (simp add: decodes_def qpd.run_append qpd.run_out [of "[]" p])

lemma decodes_plain: "qpclass c = QP_PLAIN \<or> qpclass c = QP_IF_LAST \<Longrightarrow> decodes [c] [c]"
proof -
  assume "qpclass c = QP_PLAIN \<or> qpclass c = QP_IF_LAST"
  then have "c = TAB \<or> (31 < uc c \<and> uc c < 127)" "c \<noteq> CR" "uc c \<noteq> 61"
    by (auto simp: qpclass_def split: if_splits)
  moreover from \<open>uc c \<noteq> 61\<close> have "c \<noteq> CHR ''=''" by auto
  ultimately show ?thesis by (simp add: decodes_def qpdecode_simps)
qed

lemma qpunbase_hexdigit: "n < 16 \<Longrightarrow> qpunbase (hexdigit n) = n"
proof -
  have "\<forall>n < (16::nat). qpunbase (hexdigit n) = n"
    unfolding all_less_16 by (simp add: qpunbase_def hexdigit_def)
  then show "n < 16 \<Longrightarrow> ?thesis" by blast
qed

lemma hexdigit_not_CR: "n < 16 \<Longrightarrow> hexdigit n \<noteq> CR"
  using hexdigit_mem [of n] by auto

lemma uc_div_16 [simp]: "uc c div 16 < 16"
  using uc_less [of c] by linarith

lemma decodes_quote: "decodes (qpquote c []) [c]"
proof -
  have "push_bit 4 (uc c div 16) + uc c mod 16 = uc c"
    by (simp add: push_bit_eq_mult)
  then show ?thesis
    by (simp add: decodes_def qpquote_def drop_bit_eq_div mask4 qpdecode_simps qpunbase_hexdigit
        hexdigit_not_CR not_less_eq less_Suc_eq_le [symmetric])
qed

lemma decodes_CRLF: "decodes CRLF CRLF"
  by (simp add: decodes_def CRLF_def qpdecode_simps)

lemma decodes_EQCRLF: "decodes EQCRLF []"
  by (simp add: decodes_def EQCRLF_def qpdecode_simps)

lemma qp_text_decodes: "qp_text e p \<Longrightarrow> decodes e p"
proof (induction rule: qp_text.induct)
  case empty
  show ?case by (simp add: decodes_def)
next
  case (plain c e p)
  from decodes_append [OF decodes_plain [OF plain.hyps(1)] plain.IH] show ?case by simp
next
  case (quote e p c)
  from decodes_append [OF decodes_quote quote.IH] show ?case by simp
next
  case (hard_break e p)
  from decodes_append [OF decodes_CRLF hard_break.IH] show ?case .
next
  case (soft_break e p)
  from decodes_append [OF decodes_EQCRLF soft_break.IH] show ?case by simp
qed

text \<open>
  The loop on a well-formed atom: what it consumes is what its output stands for. The
  marker has to stand for a line break itself, as \<open>CRLF\<close> and its quoted form do.
\<close>

lemma qpencode_loop_text:
  assumes "qp_text m CRLF" and "qp_input a"
  shows "\<exists>p. a = p @ fst (qpencode_loop m a []) \<and> qp_text (snd (qpencode_loop m a [])) p"
  using assms(2)
proof (induction a)
  case Nil
  then show ?case by (simp add: qp_text.empty)
next
  case (Cons c rest)
  have r: "qp_input rest" using Cons.prems by (auto simp: qp_input_def)
  from Cons.IH [OF r] obtain p where
    p: "rest = p @ fst (qpencode_loop m rest [])" "qp_text (snd (qpencode_loop m rest [])) p"
    by blast
  define tail where "tail = qpencode_loop m rest []"
  have step: "\<exists>q. c # rest = q @ fst tail \<and> qp_text (e @ snd tail) q" if "qp_text e [c]" for e
  proof -
    have "qp_text (e @ snd tail) ([c] @ p)"
      using that p(2) unfolding tail_def by (rule qp_text_append)
    moreover have "c # rest = ([c] @ p) @ fst tail" using p(1) by (simp add: tail_def)
    ultimately show ?thesis by blast
  qed
  note out = qpencode_loop_out [of m rest "[c]"] qpencode_loop_out [of m rest "qpquote c []"]
  show ?case
  proof (cases "qpclass c")
    case QP_PLAIN
    then show ?thesis using step [OF qp_text_plain] by (simp add: out tail_def)
  next
    case QP_QUOTED
    then show ?thesis using step [OF qp_text_quote] by (simp add: out tail_def)
  next
    case QP_CR
    consider "rest = []" | "rest ! 0 = LF" "rest \<noteq> []" | "rest ! 0 \<noteq> LF" "rest \<noteq> []" by blast
    then show ?thesis
    proof cases
      case 1
      with QP_CR show ?thesis by (simp add: qp_text.empty)
    next
      case 2
      with QP_CR Cons.prems have "c = CR" "rest = [LF]"
        by (auto simp: qp_input_def qpclass_CR length_Suc_conv numeral_2_eq_2 less_Suc_eq)
      with assms(1) show ?thesis by (auto simp: CRLF_def)
    next
      case 3
      with QP_CR show ?thesis using step [OF qp_text_quote] by (simp add: out tail_def)
    qed
  next
    case QP_IF_LAST
    consider "length rest < 2" | "rest = [CR, LF]" | "length rest = 2" "rest \<noteq> [CR, LF]"
      using Cons.prems by (auto simp: qp_input_def)
    then show ?thesis
    proof cases
      case 1
      with QP_IF_LAST show ?thesis by (simp add: qp_text.empty)
    next
      case 2
      with QP_IF_LAST qp_text_append [OF qp_text_quote [of c] assms(1)] show ?thesis
        by (auto simp: CRLF_def)
    next
      case 3
      then have "\<not> (rest ! 0 = CR \<and> rest ! 1 = LF)"
        by (auto simp: length_Suc_conv numeral_2_eq_2)
      with 3 QP_IF_LAST show ?thesis using step [OF qp_text_plain] by (auto simp: out tail_def)
    qed
  qed
qed

lemma qp_run_text:
  assumes "qp_text m CRLF" and "codec_run (qpencode m) [] [] s = (a, out)"
  shows "\<exists>p. s = p @ a \<and> qp_text out p"
  using assms(2)
proof (induction s arbitrary: a out rule: rev_induct)
  case Nil
  then show ?case by (simp add: qp_text.empty)
next
  case (snoc c s)
  obtain b o1 where r: "codec_run (qpencode m) [] [] s = (b, o1)" by fastforce
  from snoc.IH [OF r] obtain p where p: "s = p @ b" "qp_text o1 p" by blast
  from r qpe.run_pending [of "[]" m "[]" s] have "qp_pending b" by (simp add: qp_pending_def)
  then have "qp_input (b @ [c])" by (rule qp_pending_input)
  from qpencode_loop_text [OF assms(1) this] obtain q where
    q: "b @ [c] = q @ fst (qpencode m c b [])" "qp_text (snd (qpencode m c b [])) q"
    unfolding qpencode_def by blast
  from snoc.prems r have ao: "a = fst (qpencode m c b [])" "out = o1 @ snd (qpencode m c b [])"
    by (simp_all add: qpe.run_append qpe.step_out [of m c b o1])
  have "qp_text out (p @ q)" unfolding ao using p(2) q(2) by (rule qp_text_append)
  moreover have "s @ [c] = (p @ q) @ a" using p(1) q(1) ao by simp
  ultimately show ?case by blast
qed

lemma qppad_text: "\<exists>e. qppad a out = out @ e \<and> qp_text e a"
proof -
  let ?f = "\<lambda>out c. if qpclass c = QP_PLAIN then out @ [c] else qpquote c out"
  have f: "\<exists>e. foldl ?f out a = out @ e \<and> qp_text e a" for out
  proof (induction a arbitrary: out)
    case Nil
    then show ?case by (simp add: qp_text.empty)
  next
    case (Cons c a)
    define q where "q = (if qpclass c = QP_PLAIN then [c] else qpquote c [])"
    have q: "?f out c = out @ q" "qp_text q [c]"
      using qpquote_app [of c out] by (auto simp: q_def intro: qp_tokens)
    from Cons.IH [of "out @ q"] obtain e where "foldl ?f (out @ q) a = (out @ q) @ e" "qp_text e a"
      by blast
    with q qp_text_append [OF q(2), of e a] show ?case by auto
  qed
  from f obtain e where e: "foldl ?f out a = out @ e" "qp_text e a" by blast
  show ?thesis
  proof (cases "a = []")
    case True
    then show ?thesis by (simp add: qppad_def qp_text.empty)
  next
    case False
    have "qppad a out = out @ (e @ EQCRLF)" using False e(1) by (simp add: qppad_def Let_def)
    with qp_text_append [OF e(2) qp_text_EQCRLF] show ?thesis by auto
  qed
qed

section \<open>Bytes of the encoded text\<close>

text \<open>Printable ASCII, blank, tabulator and line breaks: what every mail relay passes on.\<close>

definition qp_safe :: "char \<Rightarrow> bool" where
  "qp_safe c \<longleftrightarrow> c = TAB \<or> c = CR \<or> c = LF \<or> (32 \<le> uc c \<and> uc c \<le> 126)"

lemma qp_safe_class: "qpclass c = QP_PLAIN \<or> qpclass c = QP_IF_LAST \<Longrightarrow> qp_safe c"
  by (auto simp: qpclass_def qp_safe_def split: if_splits)

lemma qp_safe_hexdigit: "n < 16 \<Longrightarrow> qp_safe (hexdigit n)"
proof -
  have "\<forall>c \<in> set ''0123456789ABCDEF''. qp_safe c" by (simp add: qp_safe_def)
  then show "n < 16 \<Longrightarrow> ?thesis" using hexdigit_mem by blast
qed

lemma qp_safe_quote: "\<forall>x \<in> set (qpquote c []). qp_safe x"
  by (auto simp: qpquote_def drop_bit_eq_div mask4 qp_safe_hexdigit) (simp add: qp_safe_def)

lemma qp_safe_breaks: "\<forall>x \<in> set CRLF. qp_safe x" "\<forall>x \<in> set EQCRLF. qp_safe x"
  by (simp_all add: CRLF_def EQCRLF_def qp_safe_def)

lemma qp_safe_loop:
  assumes "\<forall>x \<in> set m. qp_safe x"
  shows "\<forall>x \<in> set (snd (qpencode_loop m a [])). qp_safe x"
proof (induction a)
  case Nil
  then show ?case by simp
next
  case (Cons c rest)
  note out = qpencode_loop_out [of m rest "[c]"] qpencode_loop_out [of m rest "qpquote c []"]
  show ?case
    using assms Cons.IH qp_safe_quote [of c] qp_safe_class [of c]
    by (cases "qpclass c") (auto simp: out)
qed

lemma qp_safe_run:
  assumes "\<forall>x \<in> set m. qp_safe x"
  shows "\<forall>x \<in> set (snd (codec_run (qpencode m) a [] s)). qp_safe x"
proof (induction s arbitrary: a)
  case Nil
  then show ?case by simp
next
  case (Cons c s)
  let ?a = "fst (qpencode m c a [])" and ?o = "snd (qpencode m c a [])"
  have "snd (codec_run (qpencode m) a [] (c # s)) = ?o @ snd (codec_run (qpencode m) ?a [] s)"
    using qpe.run_out [of m ?a ?o s] by (simp add: case_prod_beta)
  moreover have "\<forall>x \<in> set ?o. qp_safe x"
    unfolding qpencode_def by (rule qp_safe_loop [OF assms])
  ultimately show ?case using Cons.IH [of ?a] by auto
qed

lemma qp_safe_pad: "(\<forall>x \<in> set out. qp_safe x) \<Longrightarrow> \<forall>x \<in> set (qppad a out). qp_safe x"
proof -
  let ?f = "\<lambda>out c. if qpclass c = QP_PLAIN then out @ [c] else qpquote c out"
  have "(\<forall>x \<in> set out. qp_safe x) \<Longrightarrow> \<forall>x \<in> set (foldl ?f out a). qp_safe x"
  proof (induction a arbitrary: out)
    case Nil
    then show ?case by simp
  next
    case (Cons c a)
    have "\<forall>x \<in> set (?f out c). qp_safe x"
      using Cons.prems qp_safe_quote [of c] qp_safe_class [of c] qpquote_app [of c out] by auto
    from Cons.IH [OF this] show ?case by simp
  qed
  then show "(\<forall>x \<in> set out. qp_safe x) \<Longrightarrow> ?thesis"
    using qp_safe_breaks(2) by (auto simp: qppad_def Let_def)
qed

section \<open>Properties\<close>

lemmas qp_eval = qpencode_def qpclass_def qpquote_def drop_bit_eq_div mask4 hexdigit_def CRLF_def cstr_def cnth_def

lemma qp_last_call:
  assumes "s \<noteq> []" and "qp_text m CRLF" and "NUL \<notin> set m" and "\<forall>x \<in> set m. qp_safe x"
  shows "\<exists>e. mime_global_qp cv [LStr s, LNil, LStr m] = Inr [LStr e, LNil] \<and> qp_text e s
    \<and> (\<forall>x \<in> set e. qp_safe x)"
proof -
  obtain a out where r: "codec_run (qpencode m) [] [] s = (a, out)" by fastforce
  obtain p where p: "s = p @ a" "qp_text out p" using qp_run_text [OF assms(2) r] by blast
  obtain e where e: "qppad a out = out @ e" "qp_text e a" using qppad_text by blast
  have d: "qp_text (qppad a out) s" unfolding e(1) p(1) using p(2) e(2) by (rule qp_text_append)
  have safe: "\<forall>x \<in> set (qppad a out). qp_safe x"
    using qp_safe_run [OF assms(4), of "[]" s] r by (intro qp_safe_pad) simp
  have "qppad a out \<noteq> []" using qp_text_decodes [OF d] assms(1) by (auto simp: decodes_def)
  moreover have "\<not> qp_safe NUL" by (simp add: qp_safe_def)
  ultimately have h: "cnth (qppad a out) 0 \<noteq> NUL"
    using safe by (cases "qppad a out") (auto simp: cnth_def)
  have m: "cstr m = m" using assms(3) by (rule cstr_id)
  have "mime_global_qp cv [LStr s, LNil, LStr m] = Inr [LStr (qppad a out), LNil]"
    using h r by (simp add: mime_global_qp_def mime_filter_def luaL_optstring_def m returns_def)
  with d safe show ?thesis by blast
qed

text \<open>
  C25. Quoted-printable round trip, for both markers the package uses (\<open>CRLF\<close> for text,
  \<open>=0D=0A\<close> for binary data): \<open>mime.unqp\<close> gives back what \<open>mime.qp\<close> encoded, for every
  string that is not empty and does not start with a zero byte.
\<close>

theorem qp_roundtrip:
  assumes "s \<noteq> []" and "hd s \<noteq> NUL" and "m = CRLF \<or> m = ''=0D=0A''"
    and "mime_global_qp cv [LStr s, LNil, LStr m] = Inr [LStr e, LNil]"
  shows "mime_global_unqp cv [LStr e] = Inr [LStr s, LNil]"
proof -
  have "qp_text (qpquote CR [] @ qpquote LF []) ([CR] @ [LF])"
    by (rule qp_text_append [OF qp_text_quote qp_text_quote])
  then have "qp_text ''=0D=0A'' CRLF"
    by (simp add: qpquote_def CRLF_def drop_bit_eq_div mask4 hexdigit_def)
  then have m: "qp_text m CRLF" "NUL \<notin> set m" "\<forall>x \<in> set m. qp_safe x"
    using assms(3) qp_text_CRLF by (auto simp: CRLF_def qp_safe_def)
  from qp_last_call [OF assms(1) m, of cv] assms(4) have "decodes e s" by (auto dest: qp_text_decodes)
  then have r: "codec_run qpdecode [] [] e = ([], s)" by (simp add: decodes_def)
  have "cnth (no_pad [] s) 0 \<noteq> NUL" using assms(1,2) by (cases s) (auto simp: no_pad_def cnth_def)
  from qpd.filter_last [where pad = no_pad, OF r this]
  show ?thesis by (simp add: mime_global_unqp_def no_pad_def)
qed

theorem qp_roundtrip_witness:
  "mime_global_unqp plain_conv [LStr ''a=3Db'']
     = Inr [LStr ''a=b'', LNil]"
proof -
  let ?cv = "plain_conv"
  have "mime_global_qp ?cv [LStr ''a=b'', LNil, LStr CRLF] = Inr [LStr ''a=3Db'', LNil]"
    by (simp add: mime_global_qp_def mime_filter_def qppad_def qp_eval luaL_optstring_def returns_def)
  from qp_roundtrip [OF _ _ _ this] show ?thesis by simp
qed

text \<open>
  Whatever the bytes of the input, the encoded text of \<open>mime.qp\<close> with the default
  marker consists of printable ASCII, blanks, tabulators and line breaks only.
\<close>

theorem qp_output_is_safe:
  assumes "mime_global_qp cv [LStr s] = Inr [LStr e, LNil]"
  shows "\<forall>x \<in> set e. qp_safe x"
proof -
  obtain a out where r: "codec_run (qpencode CRLF) [] [] s = (a, out)" by fastforce
  have "cstr CRLF = CRLF" by (rule cstr_id) (simp add: CRLF_def)
  with assms r have "e = qppad a out"
    by (auto simp: mime_global_qp_def mime_filter_def luaL_optstring_def returns_def Let_def split: if_splits)
  moreover have "\<forall>x \<in> set out. qp_safe x"
    using qp_safe_run [OF qp_safe_breaks(1), of "[]" s] r by simp
  ultimately show ?thesis by (simp add: qp_safe_pad)
qed

end
