(* ===== verification/Mime_Text.thy ===== *)
theory Mime_Text
  imports Mime_Qp
begin

text \<open>
  The line-oriented filters of \<open>lib/src/mime.c\<close>: breaking text into lines (\<open>mime.wrp\<close>,
  \<open>mime.qpwrp\<close>), the uniform end-of-line convention (\<open>mime.eol\<close>) and SMTP dot stuffing
  (\<open>mime.dot\<close>). Their contexts (\<open>left\<close>, \<open>ctx\<close>, \<open>state\<close>) are \<open>int\<close>s the script passes
  back in; they stay within the line length or one byte, so no width is modelled.
\<close>

section \<open>Breaking into lines\<close>

text \<open>\<open>*input\<close> of the loop of \<open>mime_global_wrp\<close>, with \<open>left\<close> and the output threaded.\<close>

fun wrp_loop :: "int \<Rightarrow> int \<Rightarrow> string \<Rightarrow> string \<Rightarrow> int \<times> string" where
  "wrp_loop len left out [] = (left, out)"
| "wrp_loop len left out (c # s) =
     (if c = CR then wrp_loop len left out s
      else if c = LF then wrp_loop len len (out @ CRLF) s
      else (let (left, out) = (if left \<le> 0 then (len, out @ CRLF) else (left, out))
            in wrp_loop len (left - 1) (out @ [c]) s))"

definition mime_global_wrp :: "lua_conv \<Rightarrow> lval list \<Rightarrow> lua_results" where
  "mime_global_wrp cv args =
     bindE (luaL_checknumber cv args 1) (\<lambda>l.
     bindE (luaL_optlstring cv args 2 None) (\<lambda>input.
     bindE (luaL_optnumber cv args 3 76) (\<lambda>n.
       let left = trunc_real l; len = trunc_real n in
       case input of
         None \<Rightarrow> Inr (returns 2 [if left < len then LStr CRLF else LNil, LNum (of_int len)])
       | Some s \<Rightarrow>
           (let (left, out) = wrp_loop len left [] s
            in Inr (returns 2 [LStr out, LNum (of_int left)])))))"

fun qpwrp_loop :: "int \<Rightarrow> int \<Rightarrow> string \<Rightarrow> string \<Rightarrow> int \<times> string" where
  "qpwrp_loop len left out [] = (left, out)"
| "qpwrp_loop len left out (c # s) =
     (if c = CR then qpwrp_loop len left out s
      else if c = LF then qpwrp_loop len len (out @ CRLF) s
      else if c = CHR ''='' then
        (let (left, out) = (if left \<le> 3 then (len, out @ EQCRLF) else (left, out))
         in qpwrp_loop len (left - 1) (out @ [c]) s)
      else
        (let (left, out) = (if left \<le> 1 then (len, out @ EQCRLF) else (left, out))
         in qpwrp_loop len (left - 1) (out @ [c]) s))"

definition mime_global_qpwrp :: "lua_conv \<Rightarrow> lval list \<Rightarrow> lua_results" where
  "mime_global_qpwrp cv args =
     bindE (luaL_checknumber cv args 1) (\<lambda>l.
     bindE (luaL_optlstring cv args 2 None) (\<lambda>input.
     bindE (luaL_optnumber cv args 3 76) (\<lambda>n.
       let left = trunc_real l; len = trunc_real n in
       case input of
         None \<Rightarrow> Inr (returns 2 [if left < len then LStr EQCRLF else LNil, LNum (of_int len)])
       | Some s \<Rightarrow>
           (let (left, out) = qpwrp_loop len left [] s
            in Inr (returns 2 [LStr out, LNum (of_int left)])))))"

text \<open>
  What the filters promise. \<open>line_left len left s\<close>: the bytes left on the last line of \<open>s\<close>
  when \<open>left\<close> were left before it, \<open>None\<close> if some line of \<open>s\<close> is longer than \<open>len\<close>;
  the bytes of a line break do not count.
\<close>

fun line_left :: "int \<Rightarrow> int \<Rightarrow> string \<Rightarrow> int option" where
  "line_left len left [] = Some left"
| "line_left len left (c # s) =
     (if c = CR then line_left len left s
      else if c = LF then line_left len len s
      else if left \<le> 0 then None
      else line_left len (left - 1) s)"

lemma line_left_append:
  "line_left len left (s @ t) = Option.bind (line_left len left s) (\<lambda>l. line_left len l t)"
  by (induction len left s rule: line_left.induct) simp_all

definition is_break :: "char \<Rightarrow> bool" where "is_break c \<longleftrightarrow> c = CR \<or> c = LF"

lemma wrp_loop_out: "wrp_loop len left out s = (fst (wrp_loop len left [] s), out @ snd (wrp_loop len left [] s))"
proof (induction s arbitrary: left out)
  case Nil
  then show ?case by simp
next
  case (Cons c s)
  have app: "wrp_loop len l (out @ x) s = (fst (wrp_loop len l x s), out @ snd (wrp_loop len l x s))" for l x
    using Cons.IH [of l "out @ x"] Cons.IH [of l x] by simp
  show ?case using Cons.IH [of left out] by (simp add: app)
qed

lemma wrp_loop_Cons:
  "wrp_loop len left [] (c # s) =
     (if c = CR then wrp_loop len left [] s
      else if c = LF then (let (l, w) = wrp_loop len len [] s in (l, CRLF @ w))
      else if left \<le> 0 then (let (l, w) = wrp_loop len (len - 1) [] s in (l, CRLF @ c # w))
      else (let (l, w) = wrp_loop len (left - 1) [] s in (l, c # w)))"
  by (simp add: wrp_loop_out [of len _ "_ # _"] wrp_loop_out [of len _ "CRLF"] wrp_loop_out [of len _ "CRLF @ _"]
      case_prod_beta)

lemma wrp_loop_lines:
  "0 < len \<Longrightarrow> line_left len left (snd (wrp_loop len left [] s)) = Some (fst (wrp_loop len left [] s))"
  by (induction s arbitrary: left) (auto simp: wrp_loop_Cons CRLF_def case_prod_beta simp del: wrp_loop.simps(2))

lemma wrp_loop_content:
  "filter (\<lambda>c. \<not> is_break c) (snd (wrp_loop len left [] s)) = filter (\<lambda>c. \<not> is_break c) s"
  by (induction s arbitrary: left)
    (auto simp: wrp_loop_Cons CRLF_def is_break_def case_prod_beta simp del: wrp_loop.simps(2))

lemma qpwrp_loop_out:
  "qpwrp_loop len left out s = (fst (qpwrp_loop len left [] s), out @ snd (qpwrp_loop len left [] s))"
proof (induction s arbitrary: left out)
  case Nil
  then show ?case by simp
next
  case (Cons c s)
  have app: "qpwrp_loop len l (out @ x) s = (fst (qpwrp_loop len l x s), out @ snd (qpwrp_loop len l x s))" for l x
    using Cons.IH [of l "out @ x"] Cons.IH [of l x] by simp
  show ?case using Cons.IH [of left out] by (simp add: app)
qed

lemma qpwrp_loop_Cons:
  "qpwrp_loop len left [] (c # s) =
     (if c = CR then qpwrp_loop len left [] s
      else if c = LF then (let (l, w) = qpwrp_loop len len [] s in (l, CRLF @ w))
      else if left \<le> (if c = CHR ''='' then 3 else 1)
        then (let (l, w) = qpwrp_loop len (len - 1) [] s in (l, EQCRLF @ c # w))
      else (let (l, w) = qpwrp_loop len (left - 1) [] s in (l, c # w)))"
  by (simp add: qpwrp_loop_out [of len _ "_ # _"] qpwrp_loop_out [of len _ "CRLF"]
      qpwrp_loop_out [of len _ "EQCRLF @ _"] case_prod_beta)

lemma qpwrp_loop_lines:
  assumes "4 \<le> len" and "1 \<le> left"
  shows "line_left len left (snd (qpwrp_loop len left [] s)) = Some (fst (qpwrp_loop len left [] s))"
  using assms(2)
proof (induction s arbitrary: left)
  case Nil
  then show ?case by simp
next
  case (Cons c s)
  show ?case
    using Cons.IH [of left] Cons.IH [of len] Cons.IH [of "len - 1"] Cons.IH [of "left - 1"] Cons.prems assms(1)
    by (auto simp: qpwrp_loop_Cons CRLF_def EQCRLF_def case_prod_beta simp del: qpwrp_loop.simps(2))
qed

text \<open>An escape is never broken: its three bytes are written together.\<close>

lemma qpwrp_escape:
  assumes "4 \<le> len" and "x \<notin> {CR, LF, CHR ''=''}" and "y \<notin> {CR, LF, CHR ''=''}"
  shows "\<exists>b l. (b = [] \<or> b = EQCRLF) \<and> qpwrp_loop len left [] (CHR ''='' # x # y # s) =
     (fst (qpwrp_loop len l [] s), b @ [CHR ''='', x, y] @ snd (qpwrp_loop len l [] s))"
proof -
  have "qpwrp_loop len left [] (CHR ''='' # x # y # s) =
     (fst (qpwrp_loop len ((if left \<le> 3 then len else left) - 3) [] s),
      (if left \<le> 3 then EQCRLF else []) @ [CHR ''='', x, y]
        @ snd (qpwrp_loop len ((if left \<le> 3 then len else left) - 3) [] s))"
    using assms by (simp add: qpwrp_loop_Cons case_prod_beta del: qpwrp_loop.simps(2))
  then show ?thesis by (cases "left \<le> 3") auto
qed

lemma qpwrp_text:
  assumes "4 \<le> len" and "qp_text e p"
  shows "qp_text (snd (qpwrp_loop len left [] e)) p"
  using assms(2)
proof (induction arbitrary: left rule: qp_text.induct)
  case empty
  show ?case by (simp add: qp_text.empty)
next
  case (plain c e p)
  then have "c \<noteq> CR" "c \<noteq> LF" "c \<noteq> CHR ''=''" by (auto simp: qpclass_def)
  with plain show ?case
    using qp_text.soft_break [OF qp_text.plain [OF plain.hyps(1) plain.IH [of "len - 1"]]]
    by (simp add: qpwrp_loop_Cons case_prod_beta qp_text.plain del: qpwrp_loop.simps(2))
next
  case (quote e p c)
  have hex: "hexdigit n \<notin> {CR, LF, CHR ''=''}" if "n < 16" for n
    using hexdigit_mem [OF that] by auto
  obtain b l where b: "b = [] \<or> b = EQCRLF"
    and w: "qpwrp_loop len left [] (qpquote c [] @ e) =
      (fst (qpwrp_loop len l [] e), b @ qpquote c [] @ snd (qpwrp_loop len l [] e))"
    using qpwrp_escape [OF assms(1) hex hex, of "uc c div 16" "uc c mod 16" left e]
    by (auto simp: qpquote_def drop_bit_eq_div mask4)
  have "qp_text (qpquote c [] @ snd (qpwrp_loop len l [] e)) (c # p)"
    by (rule qp_text.quote [OF quote.IH])
  with b show ?case unfolding w by (auto intro: qp_text.soft_break)
next
  case (hard_break e p)
  have "snd (qpwrp_loop len left [] (CRLF @ e)) = CRLF @ snd (qpwrp_loop len len [] e)"
    by (simp add: CRLF_def qpwrp_loop_Cons case_prod_beta del: qpwrp_loop.simps(2))
  then show ?case using qp_text.hard_break [OF hard_break.IH] by simp
next
  case (soft_break e p)
  have "snd (qpwrp_loop len left [] (EQCRLF @ e))
      = (if left \<le> 3 then EQCRLF else []) @ EQCRLF @ snd (qpwrp_loop len len [] e)"
    by (simp add: EQCRLF_def CRLF_def qpwrp_loop_Cons case_prod_beta del: qpwrp_loop.simps(2))
  then show ?case
    using qp_text.soft_break [OF soft_break.IH] qp_text.soft_break [OF qp_text.soft_break [OF soft_break.IH]]
    by simp
qed

text \<open>
  \<open>mime.wrp\<close> with a positive line length returns the text broken into lines of at most
  that many bytes, reports exactly the room left on its last line, and changes nothing but
  line breaks.
\<close>

theorem wrp_breaks_lines:
  assumes "0 < len"
    and "mime_global_wrp cv [LNum (of_int left), LStr s, LNum (of_int len)] = Inr [LStr out, LNum l]"
  shows "(\<exists>k. line_left len left out = Some k \<and> l = of_int k)
    \<and> filter (\<lambda>c. \<not> is_break c) out = filter (\<lambda>c. \<not> is_break c) s"
  using assms wrp_loop_lines [OF assms(1), of left s] wrp_loop_content [of len left s]
  by (auto simp: mime_global_wrp_def returns_def case_prod_beta)

theorem wrp_breaks_lines_witness:
  "line_left 3 2 (''ab'' @ CRLF @ ''cde'') \<noteq> None"
proof -
  have "mime_global_wrp plain_conv
      [LNum (of_int 2), LStr ''abcde'', LNum (of_int 3)] = Inr [LStr (''ab'' @ CRLF @ ''cde''), LNum 0]"
    by (simp add: mime_global_wrp_def returns_def)
  from wrp_breaks_lines [OF _ this] show ?thesis by auto
qed

text \<open>
  \<open>mime.qpwrp\<close> with a line length of at least 4 never exceeds it, the soft break's \<open>=\<close>
  included, provided one byte was left on the first line.
\<close>

theorem qpwrp_bounds_lines:
  assumes "4 \<le> len" and "1 \<le> left"
    and "mime_global_qpwrp cv [LNum (of_int left), LStr s, LNum (of_int len)] = Inr [LStr out, LNum l]"
  shows "\<exists>k. line_left len left out = Some k \<and> l = of_int k"
  using assms(3) qpwrp_loop_lines [OF assms(1,2), of s]
  by (auto simp: mime_global_qpwrp_def returns_def case_prod_beta)

theorem qpwrp_bounds_lines_witness:
  "line_left 4 4 (''=3D'' @ EQCRLF @ ''a'') \<noteq> None"
proof -
  have "mime_global_qpwrp plain_conv
      [LNum (of_int 4), LStr ''=3Da'', LNum (of_int 4)] = Inr [LStr (''=3D'' @ EQCRLF @ ''a''), LNum 3]"
    by (simp add: mime_global_qpwrp_def returns_def)
  from qpwrp_bounds_lines [OF _ _ this] show ?thesis by auto
qed

text \<open>
  C37. The whole quoted-printable path of a mail body that is not empty and does not begin with a zero byte:
  encoding with \<open>mime.qp\<close>, breaking the result into lines of at least 4 bytes with \<open>mime.qpwrp\<close> and
  decoding with \<open>mime.unqp\<close> gives the original back; the wrapping cuts no escape and adds nothing the
  decoder sees. (A result that begins with a zero byte is dropped by \<open>mime.unqp\<close>, and in shorter lines an
  escape does not fit.)
\<close>

theorem qp_wrapped_roundtrip:
  assumes "s \<noteq> []" and "hd s \<noteq> NUL" and "4 \<le> len"
    and "mime_global_qp cv [LStr s, LNil, LStr CRLF] = Inr [LStr e, LNil]"
    and "mime_global_qpwrp cv [LNum (of_int left), LStr e, LNum (of_int len)] = Inr [LStr w, LNum l]"
  shows "mime_global_unqp cv [LStr w] = Inr [LStr s, LNil]"
proof -
  have m: "qp_text CRLF CRLF" "NUL \<notin> set CRLF" "\<forall>x \<in> set CRLF. qp_safe x"
    using qp_text_CRLF qp_safe_breaks(1) by (auto simp: CRLF_def)
  from qp_last_call [OF assms(1) m, of cv] assms(4) have e: "qp_text e s" by auto
  from assms(5) have "w = snd (qpwrp_loop len left [] e)"
    by (auto simp: mime_global_qpwrp_def returns_def case_prod_beta)
  with qpwrp_text [OF assms(3) e, of left] have "decodes w s" by (auto dest: qp_text_decodes)
  then have r: "codec_run qpdecode [] [] w = ([], s)" by (simp add: decodes_def)
  have "cnth (no_pad [] s) 0 \<noteq> NUL" using assms(1,2) by (cases s) (auto simp: no_pad_def cnth_def)
  from qpd.filter_last [where pad = no_pad, OF r this]
  show ?thesis by (simp add: mime_global_unqp_def no_pad_def)
qed

theorem qp_wrapped_roundtrip_witness:
  "mime_global_unqp plain_conv [LStr (''a'' @ EQCRLF @ ''=3Db'')]
     = Inr [LStr ''a=b'', LNil]"
proof -
  let ?cv = "plain_conv"
  have "mime_global_qp ?cv [LStr ''a=b'', LNil, LStr CRLF] = Inr [LStr ''a=3Db'', LNil]"
    by (simp add: mime_global_qp_def mime_filter_def qppad_def qp_eval luaL_optstring_def returns_def)
  moreover have "mime_global_qpwrp ?cv [LNum (of_int 4), LStr ''a=3Db'', LNum (of_int 5)]
      = Inr [LStr (''a'' @ EQCRLF @ ''=3Db''), LNum 1]"
    by (simp add: mime_global_qpwrp_def returns_def)
  ultimately show ?thesis
    using qp_wrapped_roundtrip [of "''a=b''" 5 ?cv "''a=3Db''" 4 "''a'' @ EQCRLF @ ''=3Db''" 1] by simp
qed

end
