(* ===== verification/Mime_Eol.thy ===== *)
theory Mime_Eol
  imports Mime_Text
begin

text \<open>
  The end-of-line filter \<open>mime.eol\<close> and the SMTP dot stuffing \<open>mime.dot\<close> of
  \<open>lib/src/mime.c\<close>: two small state machines over the bytes of the text, whose state the
  script passes from one piece to the next.
\<close>

section \<open>End of line\<close>

text \<open>\<open>lastc\<close> (\<open>last\<close>) is the context: 0, or the code of the candidate just seen.\<close>

definition eolcandidate :: "int \<Rightarrow> bool" where
  "eolcandidate c \<longleftrightarrow> c = 13 \<or> c = 10"

abbreviation ichar :: "char \<Rightarrow> int" where "ichar c \<equiv> of_char c"

definition eolprocess :: "char \<Rightarrow> int \<Rightarrow> string \<Rightarrow> string \<Rightarrow> int \<times> string" where
  "eolprocess c lastc marker out =
     (if eolcandidate (ichar c) then
        (if eolcandidate lastc then
           (0, if ichar c = lastc then out @ marker else out)
         else (ichar c, out @ marker))
      else (0, out @ [c]))"

fun eol_loop :: "int \<Rightarrow> string \<Rightarrow> string \<Rightarrow> string \<Rightarrow> int \<times> string" where
  "eol_loop ctx marker out [] = (ctx, out)"
| "eol_loop ctx marker out (c # s) =
     (let (ctx', out') = eolprocess c ctx marker out in eol_loop ctx' marker out' s)"

definition mime_global_eol :: "lua_conv \<Rightarrow> lval list \<Rightarrow> lua_results" where
  "mime_global_eol cv args =
     bindE (luaL_checkinteger cv args 1) (\<lambda>ctx.
     bindE (luaL_optlstring cv args 2 None) (\<lambda>input.
     bindE (luaL_optstring cv args 3 (Some CRLF)) (\<lambda>marker.
       case input of
         None \<Rightarrow> Inr (returns 2 [LNil, LNum 0])
       | Some s \<Rightarrow>
           (let (ctx', out) = eol_loop ctx (the marker) [] s
            in Inr (returns 2 [LStr out, LNum (of_int ctx')])))))"

text \<open>
  The convention the comment above \<open>eolprocess\<close> describes, on whole strings: two adjacent
  candidates are one line break when they differ and two when they are equal; a single
  candidate is one.
\<close>

fun eol_spec :: "string \<Rightarrow> string \<Rightarrow> string" where
  "eol_spec marker [] = []"
| "eol_spec marker [c] = (if is_break c then marker else [c])"
| "eol_spec marker (c # d # s) =
     (if is_break c then
        (if is_break d then marker @ (if c = d then marker else []) @ eol_spec marker s
         else marker @ d # eol_spec marker s)
      else c # eol_spec marker (d # s))"

lemma eolcandidate_char: "eolcandidate (ichar c) \<longleftrightarrow> is_break c"
proof -
  have "ichar c = ichar d \<longleftrightarrow> c = d" for d by simp
  from this [of CR] this [of LF] show ?thesis by (simp add: eolcandidate_def is_break_def)
qed

lemma eolcandidate_0 [simp]: "\<not> eolcandidate 0"
  by (simp add: eolcandidate_def)

lemma eol_loop_out: "eol_loop ctx m out s = (fst (eol_loop ctx m [] s), out @ snd (eol_loop ctx m [] s))"
proof (induction s arbitrary: ctx out)
  case Nil
  then show ?case by simp
next
  case (Cons c s)
  have e: "eolprocess c ctx m out = (fst (eolprocess c ctx m []), out @ snd (eolprocess c ctx m []))"
    by (simp add: eolprocess_def)
  let ?c = "fst (eolprocess c ctx m [])" and ?o = "snd (eolprocess c ctx m [])"
  have l: "eol_loop ctx m out (c # s) = eol_loop ?c m (out @ ?o) s" by (simp add: e)
  have r: "eol_loop ctx m [] (c # s) = eol_loop ?c m ?o s" by (simp add: case_prod_beta)
  show ?case unfolding l r using Cons.IH [of ?c "out @ ?o"] Cons.IH [of ?c ?o] by simp
qed

lemma eol_loop_append:
  "eol_loop ctx m out (s @ t) = (let (ctx', out') = eol_loop ctx m out s in eol_loop ctx' m out' t)"
  by (induction s arbitrary: ctx out) (simp_all add: case_prod_beta)

lemma eol_loop_Cons:
  "eol_loop ctx m [] (c # s) = (let (ctx', o1) = eolprocess c ctx m []; (ctx'', o2) = eol_loop ctx' m [] s
     in (ctx'', o1 @ o2))"
  by (simp add: case_prod_beta eol_loop_out [of _ m "snd (eolprocess c ctx m [])" s])

lemma eol_loop_spec: "snd (eol_loop 0 m [] s) = eol_spec m s"
proof (induction m s rule: eol_spec.induct)
  case (1 m)
  then show ?case by simp
next
  case (2 m c)
  then show ?case by (simp add: eol_loop_Cons eolprocess_def eolcandidate_char del: eol_loop.simps(2))
next
  case (3 m c d s)
  have eq: "ichar d = ichar c \<longleftrightarrow> c = d" by auto
  show ?case
    using 3 by (auto simp: eol_loop_Cons eolprocess_def eolcandidate_char eq case_prod_beta
        simp del: eol_loop.simps(2) of_char_eq_iff)
qed

text \<open>Text in which every break is \<open>CR LF\<close>, and no other carriage return or line feed occurs.\<close>

fun uniform_crlf :: "string \<Rightarrow> bool" where
  "uniform_crlf [] = True"
| "uniform_crlf (c # s) =
     (if c = CR then (case s of d # s' \<Rightarrow> d = LF \<and> uniform_crlf s' | [] \<Rightarrow> False)
      else c \<noteq> LF \<and> uniform_crlf s)"

lemma uniform_crlf_break: "uniform_crlf s \<Longrightarrow> uniform_crlf (CRLF @ s)"
  by (simp add: CRLF_def)

lemma eol_spec_uniform: "uniform_crlf (eol_spec CRLF s)"
  by (induction CRLF s rule: eol_spec.induct) (auto simp: CRLF_def is_break_def)

lemma eol_spec_fixes_uniform: "uniform_crlf s \<Longrightarrow> eol_spec CRLF s = s"
proof (induction s rule: uniform_crlf.induct)
  case 1
  then show ?case by simp
next
  case (2 c s)
  show ?case
  proof (cases "c = CR")
    case True
    with "2.prems" obtain s' where "s = LF # s'" "uniform_crlf s'" by (auto split: list.splits)
    with True 2 show ?thesis by (simp add: is_break_def CRLF_def)
  next
    case False
    with 2 show ?thesis by (cases s) (auto simp: is_break_def)
  qed
qed

text \<open>
  C27. \<open>mime.eol\<close> started with context 0 implements the documented convention for every
  text and marker, and cutting the text in two and passing the context on gives the same
  output.
\<close>

theorem eol_implements_convention:
  assumes "mime_global_eol cv [LNum 0, LStr s, LStr m] = Inr [LStr o1, LNum k]"
    and "mime_global_eol cv [LNum k, LStr t, LStr m] = Inr [LStr o2, LNum k']"
  shows "o1 = eol_spec (cstr m) s \<and> o1 @ o2 = eol_spec (cstr m) (s @ t)"
proof -
  let ?r = "eol_loop 0 (cstr m) [] s"
  from assms(1) have o1: "o1 = snd ?r" "k = of_int (fst ?r)"
    by (auto simp: mime_global_eol_def luaL_checkinteger_def luaL_optstring_def returns_def case_prod_beta)
  with assms(2) have o2: "o2 = snd (eol_loop (fst ?r) (cstr m) [] t)"
    by (auto simp: mime_global_eol_def luaL_checkinteger_def luaL_optstring_def returns_def case_prod_beta)
  have "eol_loop 0 (cstr m) [] (s @ t) = eol_loop (fst ?r) (cstr m) (snd ?r) t"
    by (simp add: eol_loop_append case_prod_beta)
  with o1 o2 eol_loop_out [of "fst ?r" "cstr m" "snd ?r" t]
    eol_loop_spec [of "cstr m" "s @ t"] eol_loop_spec [of "cstr m" s]
  show ?thesis by simp
qed

theorem eol_implements_convention_witness: "eol_spec CRLF (''a'' @ [LF] @ ''b'') = ''a'' @ CRLF @ ''b''"
proof -
  let ?cv = "plain_conv"
  have c: "cstr CRLF = CRLF" by (rule cstr_id) (simp add: CRLF_def)
  have "mime_global_eol ?cv [LNum 0, LStr (''a'' @ [LF]), LStr CRLF] = Inr [LStr (''a'' @ CRLF), LNum 10]"
    "mime_global_eol ?cv [LNum 10, LStr ''b'', LStr CRLF] = Inr [LStr ''b'', LNum 0]"
    by (simp_all add: mime_global_eol_def luaL_checkinteger_def luaL_optstring_def returns_def
        eolprocess_def eolcandidate_def c)
  from eol_implements_convention [OF this] show ?thesis by (simp add: c)
qed

text \<open>
  With the default marker the result contains no line break other than \<open>CR LF\<close>, and
  text that already is in this form is returned unchanged, so the filter is idempotent.
\<close>

theorem eol_normalises:
  "uniform_crlf (snd (eol_loop 0 CRLF [] s))
   \<and> snd (eol_loop 0 CRLF [] (snd (eol_loop 0 CRLF [] s))) = snd (eol_loop 0 CRLF [] s)"
  unfolding eol_loop_spec using eol_spec_uniform eol_spec_fixes_uniform by blast

section \<open>SMTP dot stuffing\<close>

text \<open>
  \<open>dot\<close>: state 1 is "after CR", 2 is "at the start of a line", 0 is anywhere else. The case
  of \<open>'.'\<close> falls through to the default.
\<close>

definition dot :: "char \<Rightarrow> nat \<Rightarrow> string \<Rightarrow> nat \<times> string" where
  "dot c state out =
     (let out = out @ [c] in
      if c = CR then (1, out)
      else if c = LF then (if state = 1 then 2 else 0, out)
      else if c = CHR ''.'' then (0, if state = 2 then out @ ''.'' else out)
      else (0, out))"

fun dot_loop :: "nat \<Rightarrow> string \<Rightarrow> string \<Rightarrow> nat \<times> string" where
  "dot_loop state out [] = (state, out)"
| "dot_loop state out (c # s) = (let (state', out') = dot c state out in dot_loop state' out' s)"

text \<open>The cast of slot 1 to \<open>size_t\<close> is of a number the previous call returned.\<close>

definition mime_global_dot :: "lua_conv \<Rightarrow> lval list \<Rightarrow> lua_results" where
  "mime_global_dot cv args =
     bindE (luaL_checknumber cv args 1) (\<lambda>st.
     bindE (luaL_optlstring cv args 2 None) (\<lambda>input.
       case input of
         None \<Rightarrow> Inr (returns 2 [LNil, LNum 2])
       | Some s \<Rightarrow>
           (let (state, out) = dot_loop (nat (trunc_real st)) [] s
            in Inr (returns 2 [LStr out, LNum (real state)]))))"

text \<open>
  The receiver's side (RFC 5321, 4.5.2): the same position state, and at the start of a
  line one leading dot is dropped.
\<close>

definition line_state :: "char \<Rightarrow> nat \<Rightarrow> nat" where
  "line_state c st = (if c = CR then 1 else if c = LF then (if st = 1 then 2 else 0) else 0)"

fun undot :: "nat \<Rightarrow> string \<Rightarrow> string" where
  "undot st [] = []"
| "undot st (c # s) =
     (if st = 2 \<and> c = CHR ''.'' then
        (case s of [] \<Rightarrow> [] | d # s' \<Rightarrow> d # undot (line_state d 0) s')
      else c # undot (line_state c st) s)"

text \<open>Every dot that starts a line is followed by another dot.\<close>

fun dots_doubled :: "nat \<Rightarrow> string \<Rightarrow> bool" where
  "dots_doubled st [] = True"
| "dots_doubled st (c # s) =
     (if st = 2 \<and> c = CHR ''.'' then
        (case s of [] \<Rightarrow> False | d # s' \<Rightarrow> d = CHR ''.'' \<and> dots_doubled 0 s')
      else dots_doubled (line_state c st) s)"

lemma dot_loop_out: "dot_loop st out s = (fst (dot_loop st [] s), out @ snd (dot_loop st [] s))"
proof (induction s arbitrary: st out)
  case Nil
  then show ?case by simp
next
  case (Cons c s)
  have e: "dot c st out = (fst (dot c st []), out @ snd (dot c st []))"
    by (simp add: dot_def Let_def)
  let ?c = "fst (dot c st [])" and ?o = "snd (dot c st [])"
  have l: "dot_loop st out (c # s) = dot_loop ?c (out @ ?o) s" by (simp add: e)
  have r: "dot_loop st [] (c # s) = dot_loop ?c ?o s" by (simp add: case_prod_beta)
  show ?case unfolding l r using Cons.IH [of ?c "out @ ?o"] Cons.IH [of ?c ?o] by simp
qed

lemma dot_eq: "dot c st [] = (line_state c st, c # (if c = CHR ''.'' \<and> st = 2 then ''.'' else []))"
  by (simp add: dot_def Let_def line_state_def)

lemma dot_loop_Cons:
  "snd (dot_loop st [] (c # s)) =
     c # (if c = CHR ''.'' \<and> st = 2 then ''.'' else []) @ snd (dot_loop (line_state c st) [] s)"
  using dot_loop_out [of "line_state c st" "c # (if c = CHR ''.'' \<and> st = 2 then ''.'' else [])" s]
  by (simp only: dot_loop.simps dot_eq Let_def prod.case snd_conv append_Cons)

lemma undot_dot: "undot st (snd (dot_loop st [] s)) = s"
proof (induction s arbitrary: st)
  case Nil
  then show ?case by simp
next
  case (Cons c s)
  have "line_state (CHR ''.'') n = 0" for n by (simp add: line_state_def)
  then show ?case using Cons.IH [of "line_state c st"] by (auto simp: dot_loop_Cons simp del: dot_loop.simps(2))
qed

lemma dots_doubled_dot: "dots_doubled st (snd (dot_loop st [] s))"
proof (induction s arbitrary: st)
  case Nil
  then show ?case by simp
next
  case (Cons c s)
  have "line_state (CHR ''.'') n = 0" for n by (simp add: line_state_def)
  then show ?case using Cons.IH [of "line_state c st"] by (auto simp: dot_loop_Cons simp del: dot_loop.simps(2))
qed

lemma dots_doubled_no_terminator:
  "dots_doubled st (p @ CRLF @ ''.'' @ CRLF @ q) \<Longrightarrow> False"
proof (induction p arbitrary: st rule: length_induct)
  case (1 p)
  show False
  proof (cases p)
    case Nil
    with "1.prems" show False by (simp add: CRLF_def line_state_def)
  next
    case (Cons c p')
    show False
    proof (cases "st = 2 \<and> c = CHR ''.''")
      case True
      with "1.prems" Cons obtain p'' where "p' = CHR ''.'' # p''" "dots_doubled 0 (p'' @ CRLF @ ''.'' @ CRLF @ q)"
        by (cases p') (auto simp: CRLF_def)
      with Cons "1.IH" show False by auto
    next
      case False
      with "1.prems" Cons have "dots_doubled (line_state c st) (p' @ CRLF @ ''.'' @ CRLF @ q)" by auto
      with Cons "1.IH" show False by auto
    qed
  qed
qed

text \<open>
  C26. \<open>mime.dot\<close> started at the beginning of a message (state 2, the value a call without
  input returns) stuffs so that the receiver's unstuffing restores the text, and the text
  sent contains no \<open>CR LF . CR LF\<close>, so no line of the message ends it early.
\<close>

theorem dot_stuffing:
  assumes "mime_global_dot cv [LNum 2, LStr s] = Inr [LStr out, LNum k]"
  shows "undot 2 out = s \<and> (\<nexists>p q. CRLF @ out = p @ CRLF @ ''.'' @ CRLF @ q)"
proof -
  from assms have out: "out = snd (dot_loop 2 [] s)"
    by (auto simp: mime_global_dot_def returns_def case_prod_beta)
  have "dots_doubled 0 (CRLF @ out)"
    using dots_doubled_dot [of 2 s] by (simp add: CRLF_def line_state_def out)
  then have "\<nexists>p q. CRLF @ out = p @ CRLF @ ''.'' @ CRLF @ q"
    by (metis dots_doubled_no_terminator)
  then show ?thesis by (simp add: out undot_dot)
qed

theorem dot_stuffing_witness: "undot 2 (''..'' @ CRLF @ ''a'') = ''.'' @ CRLF @ ''a''"
proof -
  have "mime_global_dot plain_conv [LNum 2, LStr (''.'' @ CRLF @ ''a'')]
      = Inr [LStr (''..'' @ CRLF @ ''a''), LNum 0]"
    by (simp add: mime_global_dot_def returns_def dot_def CRLF_def)
  from dot_stuffing [OF this] show ?thesis by simp
qed

end
