(* ===== verification/Lua_Buffer.thy ===== *)
theory Lua_Buffer
  imports Prelude
begin

text \<open>
  The string buffer \<open>luaL_Buffer\<close> of \<open>src/host/lua-5.1.4/src/lauxlib.c\<close>, through which every
  encoder of the bundled libraries builds its result.

  A buffer is a fixed array of \<open>LUAL_BUFFERSIZE\<close> bytes (\<open>BUFSIZ\<close> of the C library, the
  parameter \<open>bufsiz\<close>) and the topmost \<open>lb_lvl\<close> strings of the Lua stack \<open>lb_L\<close>, which begins with its
  top. When the array is full it is pushed, and \<open>adjuststack\<close> concatenates strings so that at most
  \<open>LIMIT\<close> stack slots are in use. The lemmas show that this is a plain string append
  (\<open>lb_contents\<close>), that the rest of the stack (\<open>lb_below\<close>) is left alone and that the slots stay
  bounded; the components above therefore build their output with \<open>@\<close>.
\<close>

section \<open>The interface\<close>

text \<open>What a client may rely on: a byte sink whose contents grow by what is added.\<close>

locale byte_sink =
  fixes init :: "'b"
    and addchar :: "'b \<Rightarrow> char \<Rightarrow> 'b"
    and contents :: "'b \<Rightarrow> string"
    and invar :: "'b \<Rightarrow> bool"
  assumes invar_init: "invar init"
    and invar_addchar: "invar b \<Longrightarrow> invar (addchar b c)"
    and contents_init: "contents init = []"
    and contents_addchar: "invar b \<Longrightarrow> contents (addchar b c) = contents b @ [c]"
begin

lemma foldl_addchar: "invar b \<Longrightarrow> invar (foldl addchar b s) \<and> contents (foldl addchar b s) = contents b @ s"
proof (induction s arbitrary: b)
  case Nil
  then show ?case by simp
next
  case (Cons c s)
  from Cons.prems have "invar (addchar b c)" by (rule invar_addchar)
  from Cons.IH [OF this] show ?case by (simp add: contents_addchar [OF Cons.prems])
qed

lemma addstring_run: "contents (foldl (foldl addchar) init ss) = concat ss"
proof -
  have "invar b \<Longrightarrow> contents (foldl (foldl addchar) b ss) = contents b @ concat ss" for b
    by (induction ss arbitrary: b) (simp_all add: foldl_addchar)
  from this [OF invar_init] show ?thesis by (simp add: contents_init)
qed

end

section \<open>The code\<close>

record luaL_Buffer =
  lb_buffer :: string
  lb_lvl :: nat
  lb_L :: "string list"

definition LIMIT :: nat where "LIMIT = 10"   \<comment> \<open>\<open>LUA_MINSTACK/2\<close>\<close>

definition luaL_buffinit_on :: "string list \<Rightarrow> luaL_Buffer" where
  "luaL_buffinit_on L = \<lparr>lb_buffer = [], lb_lvl = 0, lb_L = L\<rparr>"

text \<open>For callers to which the stack below does not matter.\<close>

definition luaL_buffinit :: luaL_Buffer where
  "luaL_buffinit = luaL_buffinit_on []"

text \<open>\<open>lua_concat\<close> on the topmost \<open>n\<close> strings.\<close>

definition concat_top :: "nat \<Rightarrow> string list \<Rightarrow> string list" where
  "concat_top n L = concat (rev (take n L)) # drop n L"

text \<open>\<open>emptybuffer\<close>: pushes the array's bytes; false when there are none.\<close>

definition emptybuffer :: "luaL_Buffer \<Rightarrow> bool \<times> luaL_Buffer" where
  "emptybuffer B =
     (if length (lb_buffer B) = 0 then (False, B)
      else (True, \<lparr>lb_buffer = [], lb_lvl = lb_lvl B + 1, lb_L = lb_buffer B # lb_L B\<rparr>))"

text \<open>
  The \<open>do \<dots> while\<close> of \<open>adjuststack\<close>: \<open>toget\<close> strings of total length \<open>toplen\<close> have been
  taken; \<open>rest\<close> are the lengths of the ones below.
\<close>

fun adjust_loop :: "nat \<Rightarrow> nat \<Rightarrow> nat \<Rightarrow> nat list \<Rightarrow> nat" where
  "adjust_loop n toget toplen [] = toget"
| "adjust_loop n toget toplen (l # rest) =
     (if n - toget + 1 \<ge> LIMIT \<or> toplen > l
      then adjust_loop n (toget + 1) (toplen + l) rest
      else toget)"

definition adjuststack :: "luaL_Buffer \<Rightarrow> luaL_Buffer" where
  "adjuststack B =
     (if lb_lvl B > 1 then
        (let ls = map length (take (lb_lvl B) (lb_L B));
             toget = adjust_loop (lb_lvl B) 1 (hd ls) (tl ls)
         in B\<lparr>lb_L := concat_top toget (lb_L B), lb_lvl := lb_lvl B - toget + 1\<rparr>)
      else B)"

definition luaL_prepbuffer :: "luaL_Buffer \<Rightarrow> luaL_Buffer" where
  "luaL_prepbuffer B = (let (pushed, B') = emptybuffer B in if pushed then adjuststack B' else B')"

definition luaL_addchar :: "nat \<Rightarrow> luaL_Buffer \<Rightarrow> char \<Rightarrow> luaL_Buffer" where
  "luaL_addchar bufsiz B c =
     (let B' = (if length (lb_buffer B) < bufsiz then B else luaL_prepbuffer B)
      in B'\<lparr>lb_buffer := lb_buffer B' @ [c]\<rparr>)"

definition luaL_addlstring :: "nat \<Rightarrow> luaL_Buffer \<Rightarrow> string \<Rightarrow> luaL_Buffer" where
  "luaL_addlstring bufsiz B s = foldl (luaL_addchar bufsiz) B s"

definition luaL_addstring :: "nat \<Rightarrow> luaL_Buffer \<Rightarrow> string \<Rightarrow> luaL_Buffer" where
  "luaL_addstring bufsiz B s = luaL_addlstring bufsiz B (cstr s)"

text \<open>\<open>lua_insert (L, -2)\<close>.\<close>

fun insert_second :: "string list \<Rightarrow> string list" where
  "insert_second (b # s # L) = s # b # L"
| "insert_second L = L"

text \<open>\<open>luaL_addvalue\<close>: appends the string on top of the stack, which it takes from there.\<close>

definition addvalue_top :: "nat \<Rightarrow> luaL_Buffer \<Rightarrow> luaL_Buffer" where
  "addvalue_top bufsiz B =
     (let s = hd (lb_L B) in
      if length s \<le> bufsiz - length (lb_buffer B)
      then B\<lparr>lb_buffer := lb_buffer B @ s, lb_L := tl (lb_L B)\<rparr>
      else
        (let (pushed, B') = emptybuffer B;
             B' = (if pushed then B'\<lparr>lb_L := insert_second (lb_L B')\<rparr> else B')
         in adjuststack (B'\<lparr>lb_lvl := lb_lvl B' + 1\<rparr>)))"

text \<open>With the push of the value before it.\<close>

definition luaL_addvalue :: "nat \<Rightarrow> luaL_Buffer \<Rightarrow> string \<Rightarrow> luaL_Buffer" where
  "luaL_addvalue bufsiz B s = addvalue_top bufsiz (B\<lparr>lb_L := s # lb_L B\<rparr>)"

definition luaL_pushresult_on :: "luaL_Buffer \<Rightarrow> luaL_Buffer" where
  "luaL_pushresult_on B =
     (let (pushed, B') = emptybuffer B in B'\<lparr>lb_L := concat_top (lb_lvl B') (lb_L B'), lb_lvl := 1\<rparr>)"

text \<open>The string it leaves on top of the stack.\<close>

definition luaL_pushresult :: "luaL_Buffer \<Rightarrow> string" where
  "luaL_pushresult B = hd (lb_L (luaL_pushresult_on B))"

section \<open>What it computes\<close>

definition lb_contents :: "luaL_Buffer \<Rightarrow> string" where
  "lb_contents B = concat (rev (take (lb_lvl B) (lb_L B))) @ lb_buffer B"

definition lb_below :: "luaL_Buffer \<Rightarrow> string list" where
  "lb_below B = drop (lb_lvl B) (lb_L B)"

text \<open>Between two calls at most \<open>LIMIT - 1\<close> slots are in use and the array is not overrun.\<close>

definition lb_invar :: "nat \<Rightarrow> luaL_Buffer \<Rightarrow> bool" where
  "lb_invar bufsiz B \<longleftrightarrow> length (lb_buffer B) \<le> bufsiz \<and> lb_lvl B < LIMIT \<and> lb_lvl B \<le> length (lb_L B)"

lemma adjust_loop_ge: "toget \<le> adjust_loop n toget toplen rest"
  by (induction rest arbitrary: toget toplen) (auto intro: Suc_leD)

lemma adjust_loop_le: "adjust_loop n toget toplen rest \<le> toget + length rest"
proof (induction rest arbitrary: toget toplen)
  case Nil
  then show ?case by simp
next
  case (Cons l rest)
  from Cons.IH [of "toget + 1" "toplen + l"] show ?case by simp
qed

lemma adjust_loop_bound:
  "toget + length rest = n \<Longrightarrow> n - adjust_loop n toget toplen rest + 1 < LIMIT"
proof (induction rest arbitrary: toget toplen)
  case Nil
  then show ?case by (simp add: LIMIT_def)
next
  case (Cons l rest)
  then show ?case using Cons.IH [of "toget + 1" "toplen + l"] by auto
qed

lemma adjuststack_toget:
  assumes "lb_lvl B > 1"
  obtains toget where "1 \<le> toget" "toget \<le> lb_lvl B"
    "adjuststack B = B\<lparr>lb_L := concat_top toget (lb_L B), lb_lvl := lb_lvl B - toget + 1\<rparr>"
    "lb_lvl B \<le> length (lb_L B) \<Longrightarrow> lb_lvl B - toget + 1 < LIMIT"
proof -
  let ?ls = "map length (take (lb_lvl B) (lb_L B))"
  let ?t = "adjust_loop (lb_lvl B) 1 (hd ?ls) (tl ?ls)"
  have "?t \<le> lb_lvl B"
    using adjust_loop_le [of "lb_lvl B" 1 "hd ?ls" "tl ?ls"] assms by simp
  moreover have "lb_lvl B - ?t + 1 < LIMIT" if "lb_lvl B \<le> length (lb_L B)"
    by (rule adjust_loop_bound) (use that assms in simp)
  ultimately show ?thesis
    using that [OF adjust_loop_ge] assms by (simp add: adjuststack_def Let_def)
qed

lemma concat_top_split:
  assumes "1 \<le> t" "t \<le> n"
  shows "concat (rev (take (n - t + 1) (concat_top t L))) = concat (rev (take n L))"
    "drop (n - t + 1) (concat_top t L) = drop n L"
proof -
  have "take n L = take t L @ take (n - t) (drop t L)"
    using assms take_add [of t "n - t" L] by simp
  thus "concat (rev (take (n - t + 1) (concat_top t L))) = concat (rev (take n L))"
    by (simp add: concat_top_def)
  show "drop (n - t + 1) (concat_top t L) = drop n L"
    using assms by (simp add: concat_top_def)
qed

lemma adjuststack_keeps [simp]:
  "lb_contents (adjuststack B) = lb_contents B" "lb_below (adjuststack B) = lb_below B"
  "lb_buffer (adjuststack B) = lb_buffer B"
proof -
  have "lb_contents (adjuststack B) = lb_contents B \<and> lb_below (adjuststack B) = lb_below B \<and>
      lb_buffer (adjuststack B) = lb_buffer B"
  proof (cases "lb_lvl B > 1")
    case True
    obtain t where t: "1 \<le> t" "t \<le> lb_lvl B"
      and eq: "adjuststack B = B\<lparr>lb_L := concat_top t (lb_L B), lb_lvl := lb_lvl B - t + 1\<rparr>"
      using adjuststack_toget [OF True] by blast
    show ?thesis
      unfolding eq lb_contents_def lb_below_def using concat_top_split [OF t, of "lb_L B"] by simp
  qed (simp add: adjuststack_def)
  then show "lb_contents (adjuststack B) = lb_contents B" "lb_below (adjuststack B) = lb_below B"
    "lb_buffer (adjuststack B) = lb_buffer B"
    by blast+
qed

lemma adjuststack_bound:
  assumes "lb_lvl B \<le> length (lb_L B)"
  shows "lb_lvl (adjuststack B) < LIMIT" "lb_lvl (adjuststack B) \<le> length (lb_L (adjuststack B))"
proof -
  have "lb_lvl (adjuststack B) < LIMIT \<and> lb_lvl (adjuststack B) \<le> length (lb_L (adjuststack B))"
  proof (cases "lb_lvl B > 1")
    case True
    obtain t where "1 \<le> t" "t \<le> lb_lvl B" "lb_lvl B - t + 1 < LIMIT"
      "adjuststack B = B\<lparr>lb_L := concat_top t (lb_L B), lb_lvl := lb_lvl B - t + 1\<rparr>"
      using adjuststack_toget [OF True] assms by metis
    then show ?thesis
      using assms by (simp add: concat_top_def)
  qed (use assms in \<open>simp add: adjuststack_def LIMIT_def\<close>)
  then show "lb_lvl (adjuststack B) < LIMIT" "lb_lvl (adjuststack B) \<le> length (lb_L (adjuststack B))"
    by blast+
qed

lemma emptybuffer_keeps [simp]:
  "lb_contents (snd (emptybuffer B)) = lb_contents B" "lb_below (snd (emptybuffer B)) = lb_below B"
  "lb_buffer (snd (emptybuffer B)) = []"
  by (simp_all add: emptybuffer_def lb_contents_def lb_below_def)

lemma emptybuffer_room: "lb_lvl B \<le> length (lb_L B) \<Longrightarrow> lb_lvl (snd (emptybuffer B)) \<le> length (lb_L (snd (emptybuffer B)))"
  by (simp add: emptybuffer_def)

lemma prepbuffer_eq:
  "luaL_prepbuffer B = (if lb_buffer B = [] then B else adjuststack (snd (emptybuffer B)))"
  by (simp add: luaL_prepbuffer_def emptybuffer_def)

lemma prepbuffer:
  "lb_contents (luaL_prepbuffer B) = lb_contents B" "lb_below (luaL_prepbuffer B) = lb_below B"
  "lb_buffer (luaL_prepbuffer B) = []"
  by (simp_all add: prepbuffer_eq)

lemma invar_prepbuffer: "lb_invar bufsiz B \<Longrightarrow> lb_invar bufsiz (luaL_prepbuffer B)"
  using adjuststack_bound [OF emptybuffer_room] by (simp add: lb_invar_def prepbuffer_eq)

lemma buffer_update [simp]:
  "lb_contents (B\<lparr>lb_buffer := lb_buffer B @ s\<rparr>) = lb_contents B @ s"
  "lb_below (B\<lparr>lb_buffer := s\<rparr>) = lb_below B"
  by (simp_all add: lb_contents_def lb_below_def)

lemma contents_addchar: "lb_contents (luaL_addchar bufsiz B c) = lb_contents B @ [c]"
  using buffer_update(1) [of "luaL_prepbuffer B" "[c]"] by (simp add: luaL_addchar_def Let_def prepbuffer)

lemma below_addchar: "lb_below (luaL_addchar bufsiz B c) = lb_below B"
  by (simp add: luaL_addchar_def Let_def prepbuffer)

lemma invar_addchar:
  "0 < bufsiz \<Longrightarrow> lb_invar bufsiz B \<Longrightarrow> lb_invar bufsiz (luaL_addchar bufsiz B c)"
  using invar_prepbuffer [of bufsiz B] by (auto simp: luaL_addchar_def Let_def prepbuffer lb_invar_def)

lemma invar_buffinit_on: "lb_invar bufsiz (luaL_buffinit_on L)"
  by (simp add: lb_invar_def luaL_buffinit_on_def LIMIT_def)

lemma contents_buffinit_on: "lb_contents (luaL_buffinit_on L) = []" "lb_below (luaL_buffinit_on L) = L"
  by (simp_all add: luaL_buffinit_on_def lb_contents_def lb_below_def)

lemma contents_buffinit: "lb_contents luaL_buffinit = []"
  by (simp add: luaL_buffinit_def contents_buffinit_on)

lemma contents_addlstring: "lb_contents (luaL_addlstring bufsiz B s) = lb_contents B @ s"
  unfolding luaL_addlstring_def by (induction s arbitrary: B) (simp_all add: contents_addchar)

lemma below_addlstring: "lb_below (luaL_addlstring bufsiz B s) = lb_below B"
  unfolding luaL_addlstring_def by (induction s arbitrary: B) (simp_all add: below_addchar)

text \<open>The value ends up on top of what the buffer has on the stack.\<close>

lemma addvalue_eq:
  "luaL_addvalue bufsiz B s =
     (if length s \<le> bufsiz - length (lb_buffer B) then B\<lparr>lb_buffer := lb_buffer B @ s\<rparr>
      else (let B' = snd (emptybuffer B) in adjuststack (B'\<lparr>lb_L := s # lb_L B', lb_lvl := lb_lvl B' + 1\<rparr>)))"
  by (cases B) (simp add: luaL_addvalue_def addvalue_top_def emptybuffer_def Let_def)

lemma contents_pushpiece [simp]:
  "lb_buffer B = [] \<Longrightarrow> lb_contents (B\<lparr>lb_L := s # lb_L B, lb_lvl := lb_lvl B + 1\<rparr>) = lb_contents B @ s"
  "lb_below (B\<lparr>lb_L := s # lb_L B, lb_lvl := lb_lvl B + 1\<rparr>) = lb_below B"
  by (simp_all add: lb_contents_def lb_below_def)

lemma contents_addvalue: "lb_contents (luaL_addvalue bufsiz B s) = lb_contents B @ s"
  using contents_pushpiece(1) [of "snd (emptybuffer B)" s] by (simp add: addvalue_eq Let_def)

lemma below_addvalue: "lb_below (luaL_addvalue bufsiz B s) = lb_below B"
  using contents_pushpiece(2) [of "snd (emptybuffer B)" s] by (simp add: addvalue_eq Let_def)

lemma invar_addvalue: "lb_invar bufsiz B \<Longrightarrow> lb_invar bufsiz (luaL_addvalue bufsiz B s)"
  using adjuststack_bound [of "(snd (emptybuffer B))\<lparr>lb_L := s # lb_L (snd (emptybuffer B)), lb_lvl := lb_lvl (snd (emptybuffer B)) + 1\<rparr>"]
    emptybuffer_room [of B]
  by (auto simp: addvalue_eq lb_invar_def Let_def)

lemma pushresult_on: "lb_L (luaL_pushresult_on B) = lb_contents B # lb_below B"
  by (simp add: luaL_pushresult_on_def emptybuffer_def lb_contents_def lb_below_def concat_top_def)

lemma pushresult_contents: "luaL_pushresult B = lb_contents B"
  by (simp add: luaL_pushresult_def pushresult_on)

text \<open>
  The code's buffer is such a sink for every non-zero \<open>BUFSIZ\<close>; the interpretation is at
  \<open>Suc n\<close>, which is every one of them.
\<close>

interpretation lb: byte_sink "luaL_buffinit_on L" "luaL_addchar (Suc n)" lb_contents "lb_invar (Suc n)" for n L
  by unfold_locales (auto simp: invar_buffinit_on invar_addchar contents_addchar contents_buffinit_on)

section \<open>Properties\<close>

text \<open>What a client may call between \<open>luaL_buffinit\<close> and \<open>luaL_pushresult\<close>.\<close>

datatype buffer_op = AddChar char | AddLString string | AddString string | AddValue string | PrepBuffer

fun buffer_do :: "nat \<Rightarrow> buffer_op \<Rightarrow> luaL_Buffer \<Rightarrow> luaL_Buffer" where
  "buffer_do n (AddChar c) B = luaL_addchar n B c"
| "buffer_do n (AddLString s) B = luaL_addlstring n B s"
| "buffer_do n (AddString s) B = luaL_addstring n B s"
| "buffer_do n (AddValue s) B = addvalue_top n (B\<lparr>lb_L := s # lb_L B\<rparr>)"
| "buffer_do n PrepBuffer B = luaL_prepbuffer B"

fun op_text :: "buffer_op \<Rightarrow> string" where
  "op_text (AddChar c) = [c]"
| "op_text (AddLString s) = s"
| "op_text (AddString s) = cstr s"
| "op_text (AddValue s) = s"
| "op_text PrepBuffer = []"

lemma invar_addlstring: "lb_invar (Suc n) B \<Longrightarrow> lb_invar (Suc n) (luaL_addlstring (Suc n) B s)"
  using lb.foldl_addchar by (simp add: luaL_addlstring_def)

lemma buffer_do_step:
  assumes "lb_invar (Suc n) B"
  shows "lb_contents (buffer_do (Suc n) p B) = lb_contents B @ op_text p"
    "lb_below (buffer_do (Suc n) p B) = lb_below B" "lb_invar (Suc n) (buffer_do (Suc n) p B)"
  using assms
  by (cases p; simp add: contents_addchar contents_addlstring contents_addvalue [unfolded luaL_addvalue_def] prepbuffer
      luaL_addstring_def below_addchar below_addlstring below_addvalue [unfolded luaL_addvalue_def] invar_addchar
      invar_addlstring invar_addvalue [unfolded luaL_addvalue_def] invar_prepbuffer)+

lemma buffer_run:
  "lb_invar (Suc n) B \<Longrightarrow> lb_invar (Suc n) (fold (buffer_do (Suc n)) ops B) \<and>
     lb_contents (fold (buffer_do (Suc n)) ops B) = lb_contents B @ concat (map op_text ops) \<and>
     lb_below (fold (buffer_do (Suc n)) ops B) = lb_below B"
  by (induction ops arbitrary: B) (simp_all add: buffer_do_step)

text \<open>
  C31. Building a string through a \<open>luaL_Buffer\<close> of any size: after \<open>luaL_buffinit\<close> on any stack, any sequence
  of \<open>luaL_addchar\<close>, \<open>luaL_addlstring\<close>, \<open>luaL_addstring\<close>, \<open>luaL_addvalue\<close> (with its argument pushed before
  it) and \<open>luaL_prepbuffer\<close>, then \<open>luaL_pushresult\<close>, leaves on top of the stack the concatenation of the
  pieces added, and below it the stack as it was; and at every moment in between fewer than \<open>LIMIT\<close> (half of
  \<open>LUA_MINSTACK\<close>) slots are in use and the array is not overrun.
\<close>

theorem buffer_builds_concat:
  "lb_L (luaL_pushresult_on (fold (buffer_do (Suc n)) ops (luaL_buffinit_on L))) = concat (map op_text ops) # L
   \<and> lb_invar (Suc n) (fold (buffer_do (Suc n)) ops (luaL_buffinit_on L))"
  using buffer_run [OF invar_buffinit_on, of n ops L] by (simp add: pushresult_on contents_buffinit_on)

end
