(* ===== verification/Lua_Format.thy ===== *)
theory Lua_Format
  imports Lua_Api
begin

text \<open>
  The two ways the host's C code builds messages and paths: \<open>lua_pushfstring\<close>
  (\<open>luaO_pushvfstring\<close> of \<open>src/host/lua-5.1.4/src/lobject.c\<close>) and \<open>lua_concat\<close>
  (\<open>luaV_concat\<close> of \<open>lvm.c\<close>).

  A format with a conversion that does not match the argument the caller passed is undefined
  behaviour in C (\<open>va_arg\<close> with the wrong type, or past the last argument); the model
  returns \<open>None\<close> then. The operands of \<open>lua_concat\<close> here carry no metatables.
\<close>

section \<open>Formats\<close>

datatype vararg = VStr "string option" | VInt int | VNum real | VPtr "64 word"

text \<open>\<open>fmt_arg\<close>: what one conversion pushes and the arguments left; \<open>ptr2str\<close> is \<open>%p\<close>.\<close>

fun fmt_arg :: "lua_conv \<Rightarrow> (64 word \<Rightarrow> string) \<Rightarrow> char \<Rightarrow> vararg list \<Rightarrow> (string \<times> vararg list) option" where
  "fmt_arg cv p c args =
     (if c = CHR ''s'' then
        (case args of VStr s # r \<Rightarrow> Some (case s of None \<Rightarrow> ''(null)'' | Some s \<Rightarrow> cstr s, r) | _ \<Rightarrow> None)
      else if c = CHR ''c'' then
        (case args of VInt i # r \<Rightarrow> Some (cstr [char_of (nat (i mod 256))], r) | _ \<Rightarrow> None)
      else if c = CHR ''d'' then
        (case args of VInt i # r \<Rightarrow> Some (number2str cv (of_int i), r) | _ \<Rightarrow> None)
      else if c = CHR ''f'' then
        (case args of VNum x # r \<Rightarrow> Some (number2str cv x, r) | _ \<Rightarrow> None)
      else if c = CHR ''p'' then
        (case args of VPtr q # r \<Rightarrow> Some (cstr (p q), r) | _ \<Rightarrow> None)
      else if c = CHR ''%'' then Some (''%'', args)
      else Some ([CHR ''%'', c], args))"

text \<open>A format that ends in a lone \<open>%\<close> makes the scan run past its terminator: \<open>None\<close>.\<close>

function luaO_pushvfstring ::
    "lua_conv \<Rightarrow> (64 word \<Rightarrow> string) \<Rightarrow> string \<Rightarrow> vararg list \<Rightarrow> string option" where
  "luaO_pushvfstring cv p fmt args =
     (case strchr fmt (CHR ''%'') of
        None \<Rightarrow> Some fmt
      | Some e \<Rightarrow>
          if Suc e \<ge> length fmt then None
          else (case fmt_arg cv p (fmt ! Suc e) args of
                  None \<Rightarrow> None
                | Some (s, args') \<Rightarrow>
                    map_option (\<lambda>rest. take e fmt @ s @ rest)
                      (luaO_pushvfstring cv p (drop (e + 2) fmt) args')))"
  by pat_completeness auto
termination by (relation "measure (\<lambda>(cv, p, fmt, args). length fmt)") auto

declare luaO_pushvfstring.simps [simp del]

lemma pushvfstring_plain: "CHR ''%'' \<notin> set fmt \<Longrightarrow> luaO_pushvfstring cv p fmt args = Some fmt"
  by (subst luaO_pushvfstring.simps) (simp add: strchr_None [THEN iffD2])

lemma strchr_append: "c \<notin> set pre \<Longrightarrow> strchr (pre @ c # rest) c = Some (length pre)"
  by (induction pre) auto

lemma pushvfstring_conv:
  assumes "CHR ''%'' \<notin> set pre"
  shows "luaO_pushvfstring cv p (pre @ CHR ''%'' # c # rest) args =
     (case fmt_arg cv p c args of
        None \<Rightarrow> None
      | Some (s, args') \<Rightarrow> map_option (\<lambda>r. pre @ s @ r) (luaO_pushvfstring cv p rest args'))"
  by (subst luaO_pushvfstring.simps)
    (simp add: strchr_append [OF assms] nth_append split: option.splits)

text \<open>One string inserted between two literal pieces, the shape of most of the messages.\<close>

lemma pushvfstring_s:
  assumes "CHR ''%'' \<notin> set pre" and "CHR ''%'' \<notin> set post"
  shows "luaO_pushvfstring cv p (pre @ CHR ''%'' # CHR ''s'' # post) (VStr (Some s) # args)
    = Some (pre @ cstr s @ post)"
  by (simp add: pushvfstring_conv [OF assms(1)] pushvfstring_plain [OF assms(2)])

text \<open>
  \<open>fmt1 pre s post\<close> is \<open>lua_pushfstring (L, "<pre>%s<post>", s)\<close>, written with the literal
  pieces of the code's format.
\<close>

definition fmt1 :: "lua_conv \<Rightarrow> string \<Rightarrow> string \<Rightarrow> string \<Rightarrow> string" where
  "fmt1 cv pre s post =
     (case luaO_pushvfstring cv (\<lambda>_. []) (pre @ ''%s'' @ post) [VStr (Some s)] of
        Some r \<Rightarrow> r | None \<Rightarrow> [])"

lemma fmt1_eq:
  "CHR ''%'' \<notin> set pre \<Longrightarrow> CHR ''%'' \<notin> set post \<Longrightarrow> fmt1 cv pre s post = pre @ cstr s @ post"
  using pushvfstring_s [of pre post cv "\<lambda>_. []" s "[]"] by (simp add: fmt1_def)

section \<open>Concatenation\<close>

definition luaG_concaterror :: "lval \<Rightarrow> lval \<Rightarrow> lua_error + 'a" where
  "luaG_concaterror p1 p2 =
     (let culprit = (if lua_isstring (Some p1) then p2 else p1)
      in luaL_error (''attempt to concatenate a '' @ lua_typename (Some culprit) @ '' value''))"

text \<open>
  The operands, the top of the stack first. One pass joins the longest run of strings and
  numbers from the top; an empty top operand is dropped instead.
\<close>

abbreviation tostr :: "lua_conv \<Rightarrow> lval \<Rightarrow> string" where
  "tostr cv v \<equiv> the (lua_tolstring cv (Some v))"

function luaV_concat :: "lua_conv \<Rightarrow> lval list \<Rightarrow> lua_error + lval" where
  "luaV_concat cv [] = Inr (LStr [])"
| "luaV_concat cv [v] = Inr v"
| "luaV_concat cv (t1 # t2 # rest) =
     (if \<not> lua_isstring (Some t2) \<or> \<not> lua_isstring (Some t1) then luaG_concaterror t2 t1
      else if tostr cv t1 = [] then luaV_concat cv (LStr (tostr cv t2) # rest)
      else (let more = takeWhile (\<lambda>v. lua_isstring (Some v)) rest;
                joined = concat (map (tostr cv) (rev (t1 # t2 # more)))
            in luaV_concat cv (LStr joined # drop (length more) rest)))"
  by pat_completeness auto
termination by (relation "measure (\<lambda>(cv, vs). length vs)") auto

definition lua_concat :: "lua_conv \<Rightarrow> lval list \<Rightarrow> lua_error + lval" where
  "lua_concat cv vs = luaV_concat cv (rev vs)"

lemma takeWhile_all: "\<forall>x \<in> set xs. P x \<Longrightarrow> takeWhile P xs = xs"
  by (induction xs) auto

lemma luaV_concat_strings:
  "vs \<noteq> [] \<Longrightarrow> luaV_concat cv (map LStr vs) = Inr (LStr (concat (rev vs)))"
proof (induction "length vs" arbitrary: vs rule: less_induct)
  case less
  show ?case
  proof (cases vs)
    case (Cons a ws)
    show ?thesis
    proof (cases ws)
      case Nil
      with Cons show ?thesis by simp
    next
      case c: (Cons b rest)
      have tw: "takeWhile (\<lambda>v. lua_isstring (Some v)) (map LStr rest) = map LStr rest"
        by (rule takeWhile_all) auto
      have "luaV_concat cv (map LStr (b # rest)) = Inr (LStr (concat (rev (b # rest))))"
        by (rule less.hyps) (simp_all add: Cons c)
      then show ?thesis
        by (simp add: Cons c Let_def tw comp_def rev_map [symmetric])
    qed
  qed (use less.prems in simp)
qed

lemma lua_concat_strings:
  "vs \<noteq> [] \<Longrightarrow> lua_concat cv (map LStr vs) = Inr (LStr (concat vs))"
  using luaV_concat_strings [of "rev vs" cv] by (simp add: lua_concat_def rev_map)

end
