(* ===== verification/Host_String.thy ===== *)
theory Host_String
  imports Lua_Format
begin

text \<open>
  The string helpers of the host: \<open>src/host/string_endswith.c\<close> (prefix and suffix tests and
  the 64-bit hash behind \<open>string.createhash\<close>), \<open>path_isabsolute.c\<close> and \<open>os_uuid.c\<close>.
\<close>

section \<open>Platforms\<close>

text \<open>The \<open>PLATFORM_*\<close> macros of \<open>premake.h\<close>: exactly one is set.\<close>

datatype platform = LINUX | BSD | MACOSX | SOLARIS | HAIKU | CYGWIN | WINDOWS

fun PLATFORM_STRING :: "platform \<Rightarrow> string" where
  "PLATFORM_STRING LINUX = ''linux''"
| "PLATFORM_STRING BSD = ''bsd''"
| "PLATFORM_STRING MACOSX = ''macosx''"
| "PLATFORM_STRING SOLARIS = ''solaris''"
| "PLATFORM_STRING HAIKU = ''haiku''"
| "PLATFORM_STRING CYGWIN = ''cygwin''"
| "PLATFORM_STRING WINDOWS = ''windows''"

section \<open>Absolute paths\<close>

definition path_isabsolute :: "lua_conv \<Rightarrow> lval list \<Rightarrow> lua_results" where
  "path_isabsolute cv args =
     bindE (luaL_checkstring cv args 1) (\<lambda>path.
       if cnth path 0 = CHR ''/'' \<or> cnth path 0 = CHR 0x5C \<or> cnth path 0 = CHR ''$''
          \<or> (cnth path 0 = CHR 0x22 \<and> cnth path 1 = CHR ''$'')
          \<or> (cnth path 0 \<noteq> NUL \<and> cnth path 1 = CHR '':'')
       then Inr [LBool True] else Inr [])"

section \<open>Prefix and suffix\<close>

text \<open>\<open>strncmp (s, t, n) == 0\<close>: stops at the first difference or common terminator.\<close>

fun strncmp_eq :: "string \<Rightarrow> string \<Rightarrow> nat \<Rightarrow> bool" where
  "strncmp_eq s t 0 = True"
| "strncmp_eq s t (Suc n) =
     (cnth s 0 = cnth t 0 \<and> (cnth s 0 = NUL \<or> strncmp_eq (tl s) (tl t) n))"

definition string_startswith :: "lua_conv \<Rightarrow> lval list \<Rightarrow> lua_results" where
  "string_startswith cv args =
     bindE (luaL_optstring cv args 1 None) (\<lambda>haystack.
     bindE (luaL_optstring cv args 2 None) (\<lambda>needle.
       case (haystack, needle) of
         (Some h, Some n) \<Rightarrow> (let nlen = length n in Inr [LBool (strncmp_eq h n nlen)])
       | _ \<Rightarrow> Inr []))"

definition string_endswith :: "lua_conv \<Rightarrow> lval list \<Rightarrow> lua_results" where
  "string_endswith cv args =
     bindE (luaL_optstring cv args 1 None) (\<lambda>haystack.
     bindE (luaL_optstring cv args 2 None) (\<lambda>needle.
       case (haystack, needle) of
         (Some h, Some n) \<Rightarrow>
           (let hlen = length h; nlen = length n in
            if nlen \<le> hlen then Inr [LBool (drop (hlen - nlen) h = n)] else Inr [])
       | _ \<Rightarrow> Inr []))"

lemma strncmp_eq_prefix:
  "NUL \<notin> set s \<Longrightarrow> NUL \<notin> set t \<Longrightarrow> strncmp_eq s t (length t) \<longleftrightarrow> take (length t) s = t"
proof (induction t arbitrary: s)
  case Nil
  then show ?case by simp
next
  case (Cons c t)
  then show ?case by (cases s) (auto simp: cnth_def)
qed

section \<open>The hash\<close>

text \<open>\<open>(unsigned long long) str[i]\<close>: a plain \<open>char\<close> is sign-extended where it is signed.\<close>

definition hash_char :: "bool \<Rightarrow> char \<Rightarrow> 64 word" where
  "hash_char char_is_signed c =
     (if char_is_signed \<and> 128 \<le> uc c then word_of_int (int (uc c) - 256) else word_of_nat (uc c))"

definition hash_step :: "bool \<Rightarrow> 64 word \<Rightarrow> char \<Rightarrow> 64 word" where
  "hash_step char_is_signed hval0 c =
     (let hval = hval0 + (push_bit 1 hval0 + push_bit 4 hval0 + push_bit 5 hval0
                        + push_bit 7 hval0 + push_bit 8 hval0 + push_bit 40 hval0)
      in hval XOR hash_char char_is_signed c)"

definition hash_loop :: "bool \<Rightarrow> string \<Rightarrow> 64 word" where
  "hash_loop char_is_signed str = foldl (hash_step char_is_signed) 0 str"

definition string_createhashU :: "bool \<Rightarrow> lua_conv \<Rightarrow> lval list \<Rightarrow> lua_results" where
  "string_createhashU sg cv args =
     bindE (luaL_optstring cv args 1 None) (\<lambda>str.
       case str of Some s \<Rightarrow> Inr [LLight (hash_loop sg s)] | None \<Rightarrow> Inr [])"

text \<open>\<open>lua_pushinteger\<close> takes a \<open>ptrdiff_t\<close> and stores it as a number.\<close>

definition string_createhash :: "bool \<Rightarrow> lua_conv \<Rightarrow> lval list \<Rightarrow> lua_results" where
  "string_createhash sg cv args =
     bindE (luaL_optstring cv args 1 None) (\<lambda>str.
       case str of Some s \<Rightarrow> Inr [LNum (integer2number cv (sint (hash_loop sg s)))] | None \<Rightarrow> Inr [])"

fun hex_of :: "nat \<Rightarrow> string" where
  "hex_of n = (if n < 16 then [hexdigit n] else hex_of (n div 16) @ [hexdigit (n mod 16)])"

text \<open>\<open>sprintf (buf, "%020llX", h)\<close>\<close>

definition sprintf_020llX :: "64 word \<Rightarrow> string" where
  "sprintf_020llX h = (let s = hex_of (unat h) in replicate (20 - length s) (CHR ''0'') @ s)"

definition string_createhashS :: "bool \<Rightarrow> lua_conv \<Rightarrow> lval list \<Rightarrow> lua_results" where
  "string_createhashS sg cv args =
     bindE (luaL_optstring cv args 1 None) (\<lambda>str.
       case str of Some s \<Rightarrow> Inr [LStr (take 20 (sprintf_020llX (hash_loop sg s)))] | None \<Rightarrow> Inr [])"

declare hex_of.simps [simp del]

subsection \<open>FNV-1\<close>

definition fnv_prime :: "64 word" where "fnv_prime = 0x100000001b3"
definition fnv_inverse :: "64 word" where "fnv_inverse = 0xce965057aff6957b"

lemma fnv_unit: "fnv_prime * fnv_inverse = 1"
  by (simp add: fnv_prime_def fnv_inverse_def)

lemma hash_step_fnv: "hash_step sg h c = (fnv_prime * h) XOR hash_char sg c"
  by (simp add: hash_step_def fnv_prime_def push_bit_eq_mult)

lemma fnv_cancel: "fnv_prime * a = fnv_prime * b \<longleftrightarrow> a = b"
proof
  have u: "fnv_inverse * (fnv_prime * x) = x" for x
    using fnv_unit by (simp add: mult.assoc [symmetric] mult.commute [of fnv_inverse])
  assume "fnv_prime * a = fnv_prime * b"
  then have "fnv_inverse * (fnv_prime * a) = fnv_inverse * (fnv_prime * b)" by (rule arg_cong)
  then show "a = b" by (simp only: u)
qed simp

lemma xor_cancel_right: "(a XOR c = b XOR c) \<longleftrightarrow> a = (b :: 64 word)"
proof
  assume "a XOR c = b XOR c"
  then have "(a XOR c) XOR c = (b XOR c) XOR c" by (rule arg_cong)
  then show "a = b" by (simp add: xor.assoc)
qed simp

lemma hash_step_inj: "hash_step sg a c = hash_step sg b c \<longleftrightarrow> a = b"
  by (simp add: hash_step_fnv xor_cancel_right fnv_cancel)

lemma hash_loop_from_inj:
  "foldl (hash_step sg) a s = foldl (hash_step sg) b s \<longleftrightarrow> a = b"
  by (induction s arbitrary: a b) (auto simp: hash_step_inj)

lemma of_char_inj: "(uc c = uc d) = (c = d)"
  by (metis char_of_char)

lemma hash_char_inj: "hash_char sg c = hash_char sg d \<longleftrightarrow> c = d"
proof -
  define v where "v c = (if sg \<and> 128 \<le> uc c then int (uc c) - 256 else int (uc c))" for c
  have h: "hash_char sg c = word_of_int (v c)" for c
    by (simp add: hash_char_def v_def)
  have rng: "- 128 \<le> (if sg \<and> 128 \<le> n then int n - 256 else int n)
      \<and> (if sg \<and> 128 \<le> n then int n - 256 else int n) < 256" if "n < 256" for n :: nat
    using that by auto
  have b: "- 128 \<le> v c \<and> v c < 256" for c
    unfolding v_def by (rule rng [OF uc_less])
  have inj: "m = n" if "m < 256" "n < 256"
      "(if sg \<and> 128 \<le> m then int m - 256 else int m) = (if sg \<and> 128 \<le> n then int n - 256 else int n)"
    for m n :: nat
    using that by (auto split: if_splits)
  have mi: "v c = v d \<Longrightarrow> c = d" for c d
    using inj [OF uc_less uc_less] of_char_inj unfolding v_def by blast
  have "c = d" if e: "word_of_int (v c) = (word_of_int (v d) :: 64 word)"
  proof (rule mi)
    from e have "v c mod 2 ^ 64 = v d mod 2 ^ 64"
      by (simp add: word_of_int_eq_iff take_bit_eq_mod)
    then have "(2 ^ 64 :: int) dvd v c - v d" by (simp add: mod_eq_dvd_iff)
    from dvd_imp_le_int [OF _ this] have "2 ^ 64 \<le> \<bar>v c - v d\<bar>" if "v c - v d \<noteq> 0"
      using that by simp
    moreover have "\<bar>v c - v d\<bar> < 1000" using b [of c] b [of d] by linarith
    ultimately show "v c = v d" by fastforce
  qed
  then show ?thesis by (auto simp: h)
qed

subsection \<open>Hexadecimal text\<close>

definition hex_val :: "char \<Rightarrow> nat" where
  "hex_val c = (if uc c < 58 then uc c - 48 else uc c - 55)"

lemma hex_val_hexdigit: "n < 16 \<Longrightarrow> hex_val (hexdigit n) = n"
proof -
  have "\<forall>n < 16. hex_val (hexdigit n) = n"
    by (simp add: all_less_16 hex_val_def hexdigit_def)
  then show "n < 16 \<Longrightarrow> hex_val (hexdigit n) = n" by blast
qed

definition unhex :: "string \<Rightarrow> nat" where
  "unhex s = foldl (\<lambda>a c. 16 * a + hex_val c) 0 s"

lemma unhex_hex_of: "unhex (hex_of n) = n"
proof (induction n rule: hex_of.induct)
  case (1 n)
  then show ?case
    by (subst hex_of.simps) (auto simp: unhex_def hex_val_hexdigit)
qed

lemma unhex_pad: "unhex (replicate k (CHR ''0'') @ s) = unhex s"
  by (induction k) (simp_all add: unhex_def hex_val_def)

lemma length_hex_of: "n < 16 ^ Suc k \<Longrightarrow> length (hex_of n) \<le> Suc k"
proof (induction k arbitrary: n)
  case 0
  then show ?case by (subst hex_of.simps) simp
next
  case (Suc k)
  from Suc.prems have "n div 16 < 16 ^ Suc k" by (simp add: less_mult_imp_div_less)
  from Suc.IH [OF this] show ?case by (subst hex_of.simps) simp
qed

lemma hex_of_64: "length (hex_of (unat (h :: 64 word))) \<le> 16"
proof -
  have "unat h < 16 ^ Suc 15" using unsigned_less [of h, where 'a = nat] by simp
  from length_hex_of [OF this] show ?thesis by simp
qed

lemma length_020llX: "length (sprintf_020llX h) = 20"
  using hex_of_64 [of h] by (simp add: sprintf_020llX_def Let_def)

lemma unhex_020llX: "unhex (sprintf_020llX h) = unat h"
  by (simp add: sprintf_020llX_def Let_def unhex_pad unhex_hex_of)


section \<open>UUIDs\<close>

text \<open>\<open>sprintf ("%02X", b)\<close> of one byte.\<close>

definition sprintf_02X :: "char \<Rightarrow> string" where
  "sprintf_02X b = [hexdigit (uc b div 16), hexdigit (uc b mod 16)]"

text \<open>
  The random bytes: \<open>CoCreateGuid\<close> fills them on Windows; elsewhere they are read from
  \<open>/dev/urandom\<close>. \<open>urandom\<close> is \<open>None\<close> when the file cannot be opened (\<open>fread\<close> of a null
  \<open>FILE*\<close>, undefined behaviour, the result \<open>None\<close>), \<open>Some None\<close> when fewer than 16 bytes come.
\<close>

definition uuid_text :: "string \<Rightarrow> string" where
  "uuid_text bytes =
     (let h = (\<lambda>i. sprintf_02X (bytes ! i)); dash = ''-'' in
      concat [h 0, h 1, h 2, h 3, dash, h 4, h 5, dash, h 6, h 7, dash, h 8, h 9, dash,
              h 10, h 11, h 12, h 13, h 14, h 15])"

definition os_uuid ::
    "platform \<Rightarrow> string \<Rightarrow> string option option \<Rightarrow> lua_results option" where
  "os_uuid p guid urandom =
     (if p = WINDOWS then Some (Inr [lua_pushstring (Some (uuid_text guid))])
      else case urandom of
          None \<Rightarrow> None
        | Some None \<Rightarrow> Some (Inr [])
        | Some (Some bytes) \<Rightarrow> Some (Inr [lua_pushstring (Some (uuid_text bytes))]))"

lemma hexdigit_range: "n < 16 \<Longrightarrow> hexdigit n \<noteq> NUL \<and> hexdigit n \<noteq> CHR ''-''"
  using hexdigit_mem [of n] by auto

lemma sprintf_02X_chars: "NUL \<notin> set (sprintf_02X b) \<and> CHR ''-'' \<notin> set (sprintf_02X b)"
  using hexdigit_range [of "uc b div 16"] hexdigit_range [of "uc b mod 16"] uc_less [of b]
  by (auto simp: sprintf_02X_def less_mult_imp_div_less)

lemma sprintf_02X_inj: "sprintf_02X a = sprintf_02X b \<longleftrightarrow> a = b"
proof
  assume e: "sprintf_02X a = sprintf_02X b"
  have "uc a div 16 < 16" "uc b div 16 < 16"
    using uc_less [of a] uc_less [of b] by (simp_all add: less_mult_imp_div_less)
  with e have "uc a div 16 = uc b div 16" "uc a mod 16 = uc b mod 16"
    by (auto simp: sprintf_02X_def hexdigit_inj)
  then have "uc a = uc b" by (metis div_mult_mod_eq)
  then show "a = b" by (simp only: of_char_inj)
qed simp

lemma length_uuid: "length (uuid_text bytes) = 36"
  by (simp add: uuid_text_def sprintf_02X_def)

lemma uuid_dashes: "\<forall>i \<in> {8, 13, 18, 23}. uuid_text bytes ! i = CHR ''-''"
  by (simp add: uuid_text_def sprintf_02X_def)

lemma filter_02X: "filter (\<lambda>c. c \<noteq> CHR ''-'') (sprintf_02X b) = sprintf_02X b"
  using sprintf_02X_chars [of b] by (auto simp: filter_id_conv)

lemma list16:
  assumes "length xs = 16"
  shows "xs = map ((!) xs) [0, 1, 2, 3, 4, 5, 6, 7, 8, 9, 10, 11, 12, 13, 14, 15]"
proof -
  have "[0, 1, 2, 3, 4, 5, 6, 7, 8, 9, 10, 11, 12, 13, 14, 15] = [0..<16]" by (simp add: upt_rec)
  then show ?thesis using map_nth [of xs] assms by simp
qed

lemma uuid_digits:
  assumes "length bytes = 16"
  shows "filter (\<lambda>c. c \<noteq> CHR ''-'') (uuid_text bytes) = concat (map sprintf_02X bytes)"
proof -
  have "concat (map sprintf_02X bytes)
      = concat (map sprintf_02X (map ((!) bytes) [0, 1, 2, 3, 4, 5, 6, 7, 8, 9, 10, 11, 12, 13, 14, 15]))"
    using list16 [OF assms] by (rule arg_cong)
  then show ?thesis by (simp add: uuid_text_def filter_02X)
qed

lemma uuid_no_nul: "NUL \<notin> set (uuid_text bytes)"
  by (simp add: uuid_text_def Let_def sprintf_02X_chars)

lemma concat_02X_inj:
  "concat (map sprintf_02X xs) = concat (map sprintf_02X ys) \<Longrightarrow> xs = ys"
proof (induction xs arbitrary: ys)
  case Nil
  then show ?case by (cases ys) (auto simp: sprintf_02X_def)
next
  case (Cons x xs)
  show ?case
  proof (cases ys)
    case Nil
    with Cons.prems show ?thesis by (simp add: sprintf_02X_def)
  next
    case c: (Cons y ys')
    have l: "length (sprintf_02X x) = length (sprintf_02X y)" by (simp add: sprintf_02X_def)
    from Cons.prems c l have "sprintf_02X x = sprintf_02X y"
      "concat (map sprintf_02X xs) = concat (map sprintf_02X ys')" by auto
    with Cons.IH c show ?thesis by (simp add: sprintf_02X_inj)
  qed
qed

section \<open>Properties\<close>

text \<open>
  \<open>string.startswith\<close> decides the prefix relation of the two C strings; \<open>string.endswith\<close>
  decides the suffix relation when the needle is no longer than the haystack and returns no
  value at all (not \<open>false\<close>) otherwise.
\<close>

theorem affix_tests:
  "string_startswith cv [LStr h, LStr n] = Inr [LBool (\<exists>r. cstr h = cstr n @ r)]
   \<and> string_endswith cv [LStr h, LStr n]
      = Inr (if length (cstr h) < length (cstr n) then [] else [LBool (\<exists>r. cstr h = r @ cstr n)])"
proof
  have "take (length (cstr n)) (cstr h) = cstr n \<longleftrightarrow> (\<exists>r. cstr h = cstr n @ r)"
    by (metis append_eq_conv_conj append_take_drop_id)
  then show "string_startswith cv [LStr h, LStr n] = Inr [LBool (\<exists>r. cstr h = cstr n @ r)]"
    by (simp add: string_startswith_def luaL_optstring_def strncmp_eq_prefix cstr_no_nul)
  have "drop (length (cstr h) - length (cstr n)) (cstr h) = cstr n \<longleftrightarrow> (\<exists>r. cstr h = r @ cstr n)"
    if "length (cstr n) \<le> length (cstr h)"
    by (metis append_take_drop_id append_eq_append_conv length_drop diff_diff_cancel that)
  then show "string_endswith cv [LStr h, LStr n]
      = Inr (if length (cstr h) < length (cstr n) then [] else [LBool (\<exists>r. cstr h = r @ cstr n)])"
    by (simp add: string_endswith_def luaL_optstring_def Let_def not_le)
qed

text \<open>
  The shifts and additions of the three hash functions are the FNV-1 hash with the
  64-bit prime \<open>0x100000001b3\<close> and offset basis 0, and the text form of the hash has 20
  characters from which the 64-bit value is recovered.
\<close>

theorem hash_is_fnv1:
  "string_createhashU sg cv [LStr s]
     = Inr [LLight (foldl (\<lambda>h c. (0x100000001b3 * h) XOR hash_char sg c) 0 (cstr s))]
   \<and> (\<exists>t. string_createhashS sg cv [LStr s] = Inr [LStr t] \<and> length t = 20
        \<and> unhex t = unat (foldl (\<lambda>h c. (0x100000001b3 * h) XOR hash_char sg c) 0 (cstr s)))"
proof -
  have step: "hash_step sg = (\<lambda>h c. (0x100000001b3 * h) XOR hash_char sg c)"
    by (intro ext) (simp add: hash_step_fnv fnv_prime_def)
  show ?thesis
    by (simp add: string_createhashU_def string_createhashS_def luaL_optstring_def hash_loop_def
        step length_020llX unhex_020llX)
qed

text \<open>
  Two strings that differ in exactly one byte never have the same hash, in none of the
  three forms: every step of the hash is a bijection of the state, so a difference once made
  is never lost.
\<close>

theorem hash_separates_one_byte:
  assumes "a \<noteq> b" and "NUL \<notin> set (p @ [a] @ q)" and "NUL \<notin> set (p @ [b] @ q)"
  shows "string_createhashU sg cv [LStr (p @ [a] @ q)] \<noteq> string_createhashU sg cv [LStr (p @ [b] @ q)]
    \<and> string_createhashS sg cv [LStr (p @ [a] @ q)] \<noteq> string_createhashS sg cv [LStr (p @ [b] @ q)]"
proof -
  have "hash_loop sg (p @ [a] @ q) \<noteq> hash_loop sg (p @ [b] @ q)"
    using assms(1) hash_char_inj [of sg a b]
    by (simp add: hash_loop_def hash_loop_from_inj hash_step_fnv xor.commute [of _ "hash_char sg _"]
        xor_cancel_right)
  moreover from this have "sprintf_020llX (hash_loop sg (p @ [a] @ q)) \<noteq> sprintf_020llX (hash_loop sg (p @ [b] @ q))"
    by (metis unhex_020llX unsigned_word_eqI)
  ultimately show ?thesis
    using assms(2,3) by (simp add: string_createhashU_def string_createhashS_def luaL_optstring_def
        cstr_id length_020llX)
qed

text \<open>
  \<open>os.uuid\<close> returns the 36-character form: hyphens at offsets 8, 13, 18 and 23, and
  everything else the two hexadecimal digits of each of the 16 bytes in order, so distinct
  byte strings give distinct UUIDs.
\<close>

theorem uuid_wellformed:
  assumes "length bytes = 16" and "length bytes' = 16" and "p \<noteq> WINDOWS"
    and "os_uuid p g (Some (Some bytes)) = Some (Inr [LStr u])"
    and "os_uuid p g (Some (Some bytes')) = Some (Inr [LStr u'])"
  shows "length u = 36 \<and> (\<forall>i \<in> {8, 13, 18, 23}. u ! i = CHR ''-'')
    \<and> filter (\<lambda>c. c \<noteq> CHR ''-'') u = concat (map sprintf_02X bytes)
    \<and> (u = u' \<longleftrightarrow> bytes = bytes')"
proof -
  have ev: "os_uuid p g (Some (Some b)) = Some (Inr [LStr (uuid_text b)])" for b
    using assms(3) by (simp add: os_uuid_def cstr_id [OF uuid_no_nul])
  from assms(4) have u: "u = uuid_text bytes" unfolding ev by simp
  from assms(5) have u': "u' = uuid_text bytes'" unfolding ev by simp
  have d: "filter (\<lambda>c. c \<noteq> CHR ''-'') u = concat (map sprintf_02X bytes)"
    unfolding u by (rule uuid_digits [OF assms(1)])
  have d': "filter (\<lambda>c. c \<noteq> CHR ''-'') u' = concat (map sprintf_02X bytes')"
    unfolding u' by (rule uuid_digits [OF assms(2)])
  have "bytes = bytes'" if "u = u'"
    by (rule concat_02X_inj) (metis d d' that)
  then have "u = u' \<longleftrightarrow> bytes = bytes'" unfolding u u' by blast
  moreover have "length u = 36" unfolding u by (rule length_uuid)
  moreover have "\<forall>i \<in> {8, 13, 18, 23}. u ! i = CHR ''-''" unfolding u by (rule uuid_dashes)
  ultimately show ?thesis using d by (intro conjI)
qed

theorem uuid_wellformed_witness:
  "length ''41414141-4141-4141-4141-414141414141'' = 36"
proof -
  let ?b = "replicate 16 (CHR ''A'')"
  have "os_uuid LINUX [] (Some (Some ?b)) = Some (Inr [LStr ''41414141-4141-4141-4141-414141414141''])"
    by (simp add: os_uuid_def uuid_text_def sprintf_02X_def hexdigit_def cstr_def)
  from uuid_wellformed [OF _ _ _ this this] show ?thesis by simp
qed

end
