(* ===== verification/Host_Fs.thy ===== *)
theory Host_Fs
  imports Host_String
begin

text \<open>
  The file-system functions the host adds to Lua's \<open>os\<close> table: \<open>src/host/os_chdir.c\<close>,
  \<open>os_chmod.c\<close>, \<open>os_copyfile.c\<close>, \<open>os_getcwd.c\<close>, \<open>os_is64bit.c\<close>, \<open>os_isdir.c\<close>,
  \<open>os_isfile.c\<close>, \<open>os_mkdir.c\<close>, \<open>os_rmdir.c\<close>, \<open>os_stat.c\<close> and \<open>os_getversion.c\<close>.

  The operating system is the parameter \<open>'w osapi\<close>: one field per system call, over an
  arbitrary state \<open>'w\<close> of the system. \<open>'w host\<close> is the state the functions run in: the
  global variables of the Lua state and the system's state. A function returns its results
  (or error) and the state after it.
\<close>

section \<open>The system\<close>

record stat_buf =
  st_mode :: nat
  st_mtime :: int
  st_size :: int

definition S_IFMT :: nat where "S_IFMT = 0xF000"
definition S_IFDIR :: nat where "S_IFDIR = 0x4000"
definition S_IFREG :: nat where "S_IFREG = 0x8000"
definition EACCES :: int where "EACCES = 13"
definition ENOENT :: int where "ENOENT = 2"

text \<open>Calls return their C result; \<open>sys_stat\<close> fails with \<open>Inl errno\<close>.\<close>

record 'w osapi =
  sys_stat :: "'w \<Rightarrow> string \<Rightarrow> int + stat_buf"
  sys_chdir :: "string \<Rightarrow> 'w \<Rightarrow> int \<times> 'w"
  win_SetCurrentDirectory :: "string \<Rightarrow> 'w \<Rightarrow> int \<times> 'w"
  sys_getcwd :: "nat \<Rightarrow> 'w \<Rightarrow> string option"
  sys_mkdir :: "string \<Rightarrow> nat \<Rightarrow> 'w \<Rightarrow> int \<times> 'w"
  win_CreateDirectory :: "string \<Rightarrow> 'w \<Rightarrow> int \<times> 'w"
  sys_rmdir :: "string \<Rightarrow> 'w \<Rightarrow> int \<times> 'w"
  win_RemoveDirectory :: "string \<Rightarrow> 'w \<Rightarrow> int \<times> 'w"
  sys_chmod :: "string \<Rightarrow> int \<Rightarrow> 'w \<Rightarrow> int \<times> 'w"
  sys_errno :: "'w \<Rightarrow> int"
  sys_strerror :: "int \<Rightarrow> string"
  sys_system :: "string \<Rightarrow> 'w \<Rightarrow> int \<times> 'w"
  win_CopyFile :: "string \<Rightarrow> string \<Rightarrow> 'w \<Rightarrow> int \<times> 'w"
  sys_readlink :: "'w \<Rightarrow> string \<Rightarrow> nat \<Rightarrow> string option"
  win_IsWow64Process :: "'w \<Rightarrow> bool option"

record 'w host =
  globals :: "string \<Rightarrow> lval"
  world :: 'w

definition lua_setglobal :: "string \<Rightarrow> lval \<Rightarrow> 'w host \<Rightarrow> 'w host" where
  "lua_setglobal k v h = h\<lparr>globals := (globals h)(k := v)\<rparr>"

text \<open>Runs \<open>f\<close> on the checked arguments, or leaves the state and returns the error.\<close>

definition checked :: "lua_error + 'a \<Rightarrow> 'w host \<Rightarrow> ('a \<Rightarrow> lua_results \<times> 'w host) \<Rightarrow> lua_results \<times> 'w host" where
  "checked m h f = (case m of Inl e \<Rightarrow> (Inl e, h) | Inr a \<Rightarrow> f a)"

text \<open>A message with the path between single quotes, the format \<open>"<pre>'%s'<post>"\<close>.\<close>

definition fmtq :: "lua_conv \<Rightarrow> string \<Rightarrow> string \<Rightarrow> string \<Rightarrow> string" where
  "fmtq cv pre s post = fmt1 cv (pre @ [CHR 0x27]) s (CHR 0x27 # post)"

text \<open>The common ending: nil and a message, or true.\<close>

definition nil_or_true :: "bool \<Rightarrow> string \<Rightarrow> lua_results" where
  "nil_or_true z msg = (if \<not> z then Inr [LNil, LStr msg] else Inr [LBool True])"

section \<open>Files and directories\<close>

definition do_isfile :: "'w osapi \<Rightarrow> 'w \<Rightarrow> string \<Rightarrow> bool" where
  "do_isfile os w filename =
     (case sys_stat os w filename of
        Inr buf \<Rightarrow> st_mode buf AND S_IFDIR = 0
      | Inl _ \<Rightarrow> False)"

definition os_isfile :: "'w osapi \<Rightarrow> lua_conv \<Rightarrow> lval list \<Rightarrow> 'w host \<Rightarrow> lua_results \<times> 'w host" where
  "os_isfile os cv args h =
     checked (luaL_checkstring cv args 1) h (\<lambda>filename.
       (Inr [LBool (do_isfile os (world h) filename)], h))"

definition os_isdir :: "'w osapi \<Rightarrow> lua_conv \<Rightarrow> lval list \<Rightarrow> 'w host \<Rightarrow> lua_results \<times> 'w host" where
  "os_isdir os cv args h =
     checked (luaL_checkstring cv args 1) h (\<lambda>path.
       if length path = 0 then (Inr [LBool True], h)
       else case sys_stat os (world h) path of
           Inr buf \<Rightarrow> (Inr [LBool (st_mode buf AND S_IFDIR \<noteq> 0)], h)
         | Inl _ \<Rightarrow> (Inr [LBool False], h))"

text \<open>
  \<open>readlink\<close> places at most \<open>PATH_MAX - 1\<close> bytes (4096 where the system has no limit); the
  code terminates them itself. An empty target counts as failure (\<open>len > 0\<close>).
\<close>

definition PATH_MAX :: nat where "PATH_MAX = 4096"

definition os_get_symlink_target ::
    "platform \<Rightarrow> 'w osapi \<Rightarrow> lua_conv \<Rightarrow> lval list \<Rightarrow> 'w host \<Rightarrow> lua_results \<times> 'w host" where
  "os_get_symlink_target p os cv args h =
     (if p = LINUX \<or> p = BSD \<or> p = SOLARIS then
        checked (luaL_checkstring cv args 1) h (\<lambda>path.
          case sys_readlink os (world h) path (PATH_MAX - 1) of
            Some target \<Rightarrow>
              if length target > 0 then (Inr [lua_pushstring (Some target)], h) else (Inr [], h)
          | None \<Rightarrow> (Inr [], h))
      else (Inr [], h))"

text \<open>509 is \<open>S_IRWXU | S_IRWXG | S_IROTH | S_IXOTH\<close>.\<close>

definition os_mkdir ::
    "platform \<Rightarrow> 'w osapi \<Rightarrow> lua_conv \<Rightarrow> lval list \<Rightarrow> 'w host \<Rightarrow> lua_results \<times> 'w host" where
  "os_mkdir p os cv args h =
     checked (luaL_checkstring cv args 1) h (\<lambda>path.
       let (z, w) = (if p = WINDOWS
                     then (let (r, w) = win_CreateDirectory os path (world h) in (r \<noteq> 0, w))
                     else (let (r, w) = sys_mkdir os path 509 (world h) in (r = 0, w)))
       in (nil_or_true z (fmtq cv ''unable to create directory '' path []), h\<lparr>world := w\<rparr>))"

definition os_rmdir ::
    "platform \<Rightarrow> 'w osapi \<Rightarrow> lua_conv \<Rightarrow> lval list \<Rightarrow> 'w host \<Rightarrow> lua_results \<times> 'w host" where
  "os_rmdir p os cv args h =
     checked (luaL_checkstring cv args 1) h (\<lambda>path.
       let (z, w) = (if p = WINDOWS then win_RemoveDirectory os path (world h)
                     else sys_rmdir os path (world h))
       in (nil_or_true (z \<noteq> 0) (fmtq cv ''unable to remove directory '' path []), h\<lparr>world := w\<rparr>))"

text \<open>\<open>system\<close> of the shell command, unquoted; the message names the target only.\<close>

definition cp_command :: "lua_conv \<Rightarrow> string \<Rightarrow> string \<Rightarrow> string" where
  "cp_command cv src dst =
     (case luaO_pushvfstring cv (\<lambda>_. []) ''cp %s %s'' [VStr (Some src), VStr (Some dst)] of
        Some c \<Rightarrow> c | None \<Rightarrow> [])"

definition os_copyfile ::
    "platform \<Rightarrow> 'w osapi \<Rightarrow> lua_conv \<Rightarrow> lval list \<Rightarrow> 'w host \<Rightarrow> lua_results \<times> 'w host" where
  "os_copyfile p os cv args h =
     checked (luaL_checkstring cv args 1) h (\<lambda>src.
     checked (luaL_checkstring cv args 2) h (\<lambda>dst.
       let (z, w) = (if p = WINDOWS
                     then (let (r, w) = win_CopyFile os src dst (world h) in (r \<noteq> 0, w))
                     else (let (r, w) = sys_system os (cp_command cv src dst) (world h) in (r = 0, w)))
       in (nil_or_true z (fmtq cv ''unable to copy file to '' dst []), h\<lparr>world := w\<rparr>)))"

text \<open>
  \<open>os_chdir\<close> also keeps the global \<open>_CWD\<close>: replaced by an absolute path, otherwise extended
  by a slash and the path. \<open>lua_concat\<close> raises when \<open>_CWD\<close> is not a string; the directory
  has been changed by then.
\<close>

definition os_chdir ::
    "platform \<Rightarrow> 'w osapi \<Rightarrow> lua_conv \<Rightarrow> lval list \<Rightarrow> 'w host \<Rightarrow> lua_results \<times> 'w host" where
  "os_chdir p os cv args h =
     checked (luaL_checkstring cv args 1) h (\<lambda>path.
       let (z, w) = (if p = WINDOWS
                     then (let (r, w) = win_SetCurrentDirectory os path (world h) in (r \<noteq> 0, w))
                     else (let (r, w) = sys_chdir os path (world h) in (r = 0, w)));
           h' = h\<lparr>world := w\<rparr>
       in if \<not> z then (Inr [LNil, LStr (fmtq cv ''unable to switch to directory '' path [])], h')
          else if cnth path 0 \<noteq> CHR ''/'' then
            (case lua_concat cv [globals h' ''_CWD'', LStr ''/'', lua_pushstring (Some path)] of
               Inl e \<Rightarrow> (Inl e, h')
             | Inr cwd \<Rightarrow> (Inr [LBool True], lua_setglobal ''_CWD'' cwd h'))
          else (Inr [LBool True], lua_setglobal ''_CWD'' (lua_pushstring (Some path)) h'))"

definition os_getcwd :: "'w osapi \<Rightarrow> 'w host \<Rightarrow> lua_results \<times> 'w host" where
  "os_getcwd os h =
     (case sys_getcwd os 0x4000 (world h) of
        None \<Rightarrow> (Inr [], h)
      | Some buffer \<Rightarrow>
          (Inr [lua_pushstring (Some (map (\<lambda>ch. if ch = CHR 0x5C then CHR ''/'' else ch) (cstr buffer)))], h))"

definition os_is64bit :: "platform \<Rightarrow> 'w osapi \<Rightarrow> 'w host \<Rightarrow> lua_results \<times> 'w host" where
  "os_is64bit p os h =
     (if p = WINDOWS then
        (case win_IsWow64Process os (world h) of
           Some isWow \<Rightarrow> (Inr [LBool isWow], h)
         | None \<Rightarrow> (Inr [LBool False], h))
      else (Inr [LBool False], h))"

section \<open>stat and chmod\<close>

text \<open>The two functions whose message has several conversions: \<open>None\<close> is undefined behaviour.\<close>

definition stat_message :: "lua_conv \<Rightarrow> int \<Rightarrow> string \<Rightarrow> string option" where
  "stat_message cv errno filename =
     (if errno = EACCES then
        luaO_pushvfstring cv (\<lambda>_. []) ([CHR 0x27] @ ''%s'' @ [CHR 0x27] @ '' could not be accessed'')
          [VStr (Some filename)]
      else if errno = ENOENT then
        luaO_pushvfstring cv (\<lambda>_. []) ([CHR 0x27] @ ''%s'' @ [CHR 0x27] @ '' was not found'')
          [VStr (Some filename)]
      else
        luaO_pushvfstring cv (\<lambda>_. [])
          (''An  unknown error %d occured while accessing '' @ [CHR 0x27] @ ''%s'' @ [CHR 0x27])
          [VInt errno, VStr (Some filename)])"

definition os_stat ::
    "'w osapi \<Rightarrow> lua_conv \<Rightarrow> lval list \<Rightarrow> 'w host \<Rightarrow> (lua_results \<times> 'w host) option" where
  "os_stat os cv args h =
     (case luaL_checkstring cv args 1 of
        Inl e \<Rightarrow> Some (Inl e, h)
      | Inr filename \<Rightarrow>
          (case sys_stat os (world h) filename of
             Inl errno \<Rightarrow> map_option (\<lambda>msg. (Inr [LNil, LStr msg], h)) (stat_message cv errno filename)
           | Inr s \<Rightarrow>
               (let t = table_set [] (LStr ''mtime'') (LNum (integer2number cv (st_mtime s)));
                    t = table_set t (LStr ''size'') (LNum (integer2number cv (st_size s)))
                in Some (Inr [LTable t], h))))"

text \<open>\<open>strtol (s, &endptr, 8)\<close>, saturating at the limits of a 64-bit \<open>long\<close>, and the cast to \<open>int\<close>.\<close>

definition isspace :: "char \<Rightarrow> bool" where
  "isspace c \<longleftrightarrow> c \<in> {CHR '' '', TAB, LF, CHR 0x0B, CHR 0x0C, CR}"

definition octal_value :: "string \<Rightarrow> int" where
  "octal_value s =
     foldl (\<lambda>a c. 8 * a + (int (uc c) - 48)) 0 (takeWhile (\<lambda>c. 48 \<le> uc c \<and> uc c \<le> 55) s)"

definition strtol8 :: "string \<Rightarrow> int" where
  "strtol8 s =
     (let s = dropWhile isspace s;
          v = (if s \<noteq> [] \<and> hd s = CHR ''-'' then - octal_value (tl s)
               else if s \<noteq> [] \<and> hd s = CHR ''+'' then octal_value (tl s)
               else octal_value s)
      in max (- (2 ^ 63)) (min (2 ^ 63 - 1) v))"

definition int_of_long :: "int \<Rightarrow> int" where
  "int_of_long v = sint (word_of_int v :: 32 word)"

text \<open>
  \<open>os_chmod\<close> of the POSIX platforms (the Windows branch does not compile: it uses the
  undeclared \<open>mode\<close>). The message's format and arguments are those of the code.
\<close>

definition os_chmod ::
    "'w osapi \<Rightarrow> lua_conv \<Rightarrow> lval list \<Rightarrow> 'w host \<Rightarrow> (lua_results \<times> 'w host) option" where
  "os_chmod os cv args h =
     (case luaL_checkstring cv args 1 of
        Inl e \<Rightarrow> Some (Inl e, h)
      | Inr path \<Rightarrow>
     (case luaL_checkstring cv args 2 of
        Inl e \<Rightarrow> Some (Inl e, h)
      | Inr modeStr \<Rightarrow>
          (let mode = int_of_long (strtol8 modeStr);
               (rv, w) = sys_chmod os path mode (world h);
               h' = h\<lparr>world := w\<rparr>;
               errno = sys_errno os w
           in if rv \<noteq> 0 then
                map_option (\<lambda>msg. (Inr [LNil, LStr msg], h'))
                  (luaO_pushvfstring cv (\<lambda>_. [])
                     (''unable to set mode %o on '' @ [CHR 0x27] @ ''%s'' @ [CHR 0x27] @ '', errno %d : %s'')
                     [VInt mode, VStr (Some path), VInt errno, VStr (Some (sys_strerror os errno))])
              else Some (Inr [LBool True], h'))))"

section \<open>The version\<close>

record OsVersionInfo =
  majorversion :: int
  minorversion :: int
  revision :: int
  description :: string

text \<open>What the version functions of Windows and of macOS's \<open>Gestalt\<close> answer.\<close>

record version_source =
  dwMajorVersion :: int
  dwMinorVersion :: int
  wServicePackMajor :: int
  wProductType :: nat
  wSuiteMask :: nat
  wProcessorArchitecture :: nat
  SM_SERVERR2 :: int
  gestaltSystemVersionMajor :: int
  gestaltSystemVersionMinor :: int
  gestaltSystemVersionBugFix :: int

definition VER_NT_WORKSTATION :: nat where "VER_NT_WORKSTATION = 1"
definition VER_SUITE_WH_SERVER :: nat where "VER_SUITE_WH_SERVER = 0x8000"
definition PROCESSOR_ARCHITECTURE_AMD64 :: nat where "PROCESSOR_ARCHITECTURE_AMD64 = 9"

definition windows_description :: "version_source \<Rightarrow> string" where
  "windows_description v =
     (let major = dwMajorVersion v; minor = dwMinorVersion v in
      if major = 5 \<and> minor = 0 then ''Windows 2000''
      else if major = 5 \<and> minor = 1 then ''Windows XP''
      else if major = 5 \<and> minor = 2 then
        (if wProductType v = VER_NT_WORKSTATION \<and> wProcessorArchitecture v = PROCESSOR_ARCHITECTURE_AMD64
         then ''Windows XP Professional x64''
         else if wSuiteMask v AND VER_SUITE_WH_SERVER \<noteq> 0 then ''Windows Home Server''
         else if SM_SERVERR2 v = 0 then ''Windows Server 2003''
         else ''Windows Server 2003 R2'')
      else if major = 6 \<and> minor = 0 then
        (if wProductType v = VER_NT_WORKSTATION then ''Windows Vista'' else ''Windows Server 2008'')
      else if major = 6 \<and> minor = 1 then
        (if wProductType v \<noteq> VER_NT_WORKSTATION then ''Windows Server 2008 R2'' else ''Windows 7'')
      else ''Windows'')"

definition macosx_description :: "int \<Rightarrow> int \<Rightarrow> string" where
  "macosx_description major minor =
     (if major = 10 then
        (if minor = 4 then ''Mac OS X Tiger''
         else if minor = 5 then ''Mac OS X Leopard''
         else if minor = 6 then ''Mac OS X Snow Leopard''
         else if minor = 7 then ''Mac OS X Lion''
         else ''Mac OS X'')
      else ''Mac OS X'')"

definition getversion :: "platform \<Rightarrow> version_source \<Rightarrow> OsVersionInfo" where
  "getversion p v =
     (if p = WINDOWS then
        \<lparr>majorversion = dwMajorVersion v, minorversion = dwMinorVersion v,
         revision = wServicePackMajor v, description = windows_description v\<rparr>
      else if p = MACOSX then
        \<lparr>majorversion = gestaltSystemVersionMajor v, minorversion = gestaltSystemVersionMinor v,
         revision = gestaltSystemVersionBugFix v,
         description = macosx_description (gestaltSystemVersionMajor v) (gestaltSystemVersionMinor v)\<rparr>
      else \<lparr>majorversion = 0, minorversion = 0, revision = 0, description = PLATFORM_STRING p\<rparr>)"

definition os_getversion :: "platform \<Rightarrow> version_source \<Rightarrow> lua_results" where
  "os_getversion p v =
     (let info = getversion p v;
          t = table_set [] (LStr ''majorversion'') (LNum (of_int (majorversion info)));
          t = table_set t (LStr ''minorversion'') (LNum (of_int (minorversion info)));
          t = table_set t (LStr ''revision'') (LNum (of_int (revision info)));
          t = table_set t (LStr ''description'') (lua_pushstring (Some (description info)))
      in Inr [LTable t])"

text \<open>A system on which every call fails, for examples: they override the call they are about.\<close>

definition failing_os :: "nat osapi" where
  "failing_os = \<lparr>sys_stat = (\<lambda>_ _. Inl ENOENT), sys_chdir = (\<lambda>_ w. (- 1, w)),
     win_SetCurrentDirectory = (\<lambda>_ w. (0, w)), sys_getcwd = (\<lambda>_ _. None),
     sys_mkdir = (\<lambda>_ _ w. (- 1, w)), win_CreateDirectory = (\<lambda>_ w. (0, w)),
     sys_rmdir = (\<lambda>_ w. (- 1, w)), win_RemoveDirectory = (\<lambda>_ w. (0, w)),
     sys_chmod = (\<lambda>_ _ w. (- 1, w)), sys_errno = (\<lambda>_. ENOENT), sys_strerror = (\<lambda>_. ''error''),
     sys_system = (\<lambda>_ w. (1, w)), win_CopyFile = (\<lambda>_ _ w. (0, w)),
     sys_readlink = (\<lambda>_ _ _. None), win_IsWow64Process = (\<lambda>_. None)\<rparr>"

definition empty_host :: "nat host" where
  "empty_host = \<lparr>globals = (\<lambda>_. LNil), world = 0\<rparr>"

section \<open>Lemmas\<close>

lemma checked_Inr [simp]: "checked (Inr a) h f = f a"
  by (simp add: checked_def)

lemma checked_Inl [simp]: "checked (Inl e) h f = (Inl e, h)"
  by (simp add: checked_def)

lemma fmtq_eq:
  "CHR ''%'' \<notin> set pre \<Longrightarrow> CHR ''%'' \<notin> set post
    \<Longrightarrow> fmtq cv pre s post = pre @ quoted (cstr s) @ post"
  by (simp add: fmtq_def fmt1_eq quoted_def)

lemma cp_command_eq: "cp_command cv src dst = ''cp '' @ cstr src @ '' '' @ cstr dst"
proof -
  have f: "''cp %s %s'' = ''cp '' @ CHR ''%'' # CHR ''s'' # ('' '' @ CHR ''%'' # CHR ''s'' # [])" by simp
  show ?thesis
    unfolding cp_command_def f
    by (subst pushvfstring_conv, simp, subst fmt_arg.simps, simp,
        subst pushvfstring_conv [of "'' ''", simplified], simp add: pushvfstring_plain)
qed

text \<open>The messages of \<open>os.stat\<close> are well formed whatever the error number.\<close>

lemma stat_message_defined: "stat_message cv errno filename \<noteq> None"
proof -
  have f: "CHR 0x27 # ''%s'' @ CHR 0x27 # rest = [CHR 0x27] @ CHR ''%'' # CHR ''s'' # (CHR 0x27 # rest)"
    for rest by simp
  have g: "''An  unknown error %d occured while accessing '' @ [CHR 0x27] @ ''%s'' @ [CHR 0x27]
    = ''An  unknown error '' @ CHR ''%'' # CHR ''d'' #
      ('' occured while accessing '' @ [CHR 0x27]) @ CHR ''%'' # CHR ''s'' # [CHR 0x27]" by simp
  have i: "luaO_pushvfstring cv (\<lambda>_. []) (([CHR 0x27] @ ''%s'' @ [CHR 0x27] @ m)) [VStr (Some filename)] \<noteq> None"
    if "CHR ''%'' \<notin> set m" for m
    using pushvfstring_s [of "[CHR 0x27]" "CHR 0x27 # m" cv "\<lambda>_. []" filename "[]"] that by simp
  have j: "luaO_pushvfstring cv (\<lambda>_. []) (('' occured while accessing '' @ [CHR 0x27]) @ CHR ''%'' # CHR ''s'' # [CHR 0x27])
      [VStr (Some filename)] \<noteq> None"
    by (subst pushvfstring_s) simp_all
  have k: "luaO_pushvfstring cv (\<lambda>_. [])
      (''An  unknown error %d occured while accessing '' @ [CHR 0x27] @ ''%s'' @ [CHR 0x27])
      [VInt errno, VStr (Some filename)] \<noteq> None"
    unfolding g using j by (subst pushvfstring_conv) simp_all
  show ?thesis
    unfolding stat_message_def using i [of "'' could not be accessed''"] i [of "'' was not found''"] k
    by simp
qed

section \<open>Properties\<close>

text \<open>
  \<open>os.chdir\<close> keeps \<open>_CWD\<close> in step with the process: after a successful change \<open>_CWD\<close> is
  the path itself when it is absolute and the old \<open>_CWD\<close>, a slash and the path otherwise;
  after a failed one no global changes and nil with a message that names the path returns.
\<close>

theorem chdir_tracks_cwd:
  assumes "p \<noteq> WINDOWS" and "NUL \<notin> set path" and "globals h ''_CWD'' = LStr old"
    and "sys_chdir os path (world h) = (r, w)"
  shows "os_chdir p os cv [LStr path] h =
    (if r = 0 then
       (Inr [LBool True],
        h\<lparr>world := w, globals := (globals h)(''_CWD'' := LStr (if path \<noteq> [] \<and> hd path = CHR ''/'' then path
                                                                else old @ ''/'' @ path))\<rparr>)
     else (Inr [LNil, LStr (''unable to switch to directory '' @ quoted path)], h\<lparr>world := w\<rparr>))"
proof -
  have c: "lua_concat cv [LStr old, LStr ''/'', LStr path] = Inr (LStr (old @ ''/'' @ path))"
    using lua_concat_strings [of "[old, ''/'', path]" cv] by simp
  have m: "fmtq cv ''unable to switch to directory '' path [] = ''unable to switch to directory '' @ quoted path"
    using fmtq_eq [of "''unable to switch to directory ''" "[]" cv path] cstr_id [OF assms(2)] by simp
  have n: "cnth path 0 = CHR ''/'' \<longleftrightarrow> path \<noteq> [] \<and> hd path = CHR ''/''"
    by (cases path) (simp_all add: cnth_def)
  show ?thesis
    using assms(1,3,4)
    by (simp add: os_chdir_def cstr_id [OF assms(2)] c [unfolded append_Cons append_Nil] m n lua_setglobal_def)
qed

theorem chdir_tracks_cwd_witness:
  "snd (os_chdir LINUX (failing_os\<lparr>sys_chdir := \<lambda>_ _. (0, 7)\<rparr>) plain_conv [LStr ''src'']
      \<lparr>globals = (\<lambda>_. LStr ''/home''), world = 3\<rparr>)
    = \<lparr>globals = (\<lambda>_. LStr ''/home'')(''_CWD'' := LStr ''/home/src''), world = 7\<rparr>"
  by (subst chdir_tracks_cwd [where old = "''/home''" and r = 0 and w = 7]) simp_all

text \<open>
  \<open>os.isdir\<close> and \<open>os.isfile\<close> classify: for a non-empty path exactly one of them is true
  when the path exists and neither when it does not; both test one bit of the mode only, so a
  block device or a socket, whose modes contain the bit, counts as a directory.
\<close>

theorem isdir_isfile_partition:
  assumes "NUL \<notin> set path" and "path \<noteq> []"
  shows "\<exists>d f. os_isdir os cv [LStr path] h = (Inr [LBool d], h)
    \<and> os_isfile os cv [LStr path] h = (Inr [LBool f], h)
    \<and> (case sys_stat os (world h) path of
         Inr buf \<Rightarrow> d = (\<not> f) \<and> (st_mode buf div 0x1000 \<in> {0x6, 0xC} \<longrightarrow> d)
       | Inl _ \<Rightarrow> \<not> d \<and> \<not> f)"
proof -
  have b: "st_mode buf AND S_IFDIR \<noteq> 0" if "st_mode buf div 0x1000 \<in> {0x6, 0xC}" for buf
  proof -
    have "bit (st_mode buf) 14"
      using that by (auto simp: bit_iff_odd div_mult2_eq [of _ 4096 4, simplified])
    moreover have "bit S_IFDIR 14" by (simp add: S_IFDIR_def bit_iff_odd)
    ultimately have "bit (st_mode buf AND S_IFDIR) 14" by (simp only: bit_and_iff)
    then show ?thesis by (intro notI) (simp only: bit_0_eq bot_apply bot_bool_def)
  qed
  show ?thesis
    using assms(2) b
    by (auto simp: os_isdir_def os_isfile_def do_isfile_def cstr_id [OF assms(1)] split: sum.splits)
qed

text \<open>
  On the POSIX platforms \<open>os.rmdir\<close> reports the opposite of what happened: it returns
  nil and an error message exactly when \<open>rmdir\<close> removed the directory, and true when the
  removal failed, because \<open>rmdir\<close>'s 0 for success is tested as a boolean.
\<close>

theorem rmdir_result_inverted:
  assumes "p \<noteq> WINDOWS" and "NUL \<notin> set path"
  shows "fst (os_rmdir p os cv [LStr path] h) =
    (if fst (sys_rmdir os path (world h)) = 0
     then Inr [LNil, LStr (''unable to remove directory '' @ quoted path)] else Inr [LBool True])"
  using fmtq_eq [of "''unable to remove directory ''" "[]" cv path]
  by (simp add: os_rmdir_def cstr_id [OF assms(2)] assms(1) nil_or_true_def split: prod.splits)

text \<open>
  The error path of \<open>os.chmod\<close> is undefined behaviour: \<open>lua_pushfstring\<close> knows no \<open>%o\<close>,
  prints it literally and then takes the integer mode for the string of \<open>%s\<close>. A successful
  call returns true.
\<close>

theorem chmod_error_undefined:
  "os_chmod os cv [LStr path, LStr mode] h =
     (let (rv, w) = sys_chmod os (cstr path) (int_of_long (strtol8 (cstr mode))) (world h) in
      if rv \<noteq> 0 then None else Some (Inr [LBool True], h\<lparr>world := w\<rparr>))"
proof -
  have f: "''unable to set mode %o on '' @ [CHR 0x27] @ ''%s'' @ r
      = ''unable to set mode '' @ CHR ''%'' # CHR ''o'' # ('' on '' @ [CHR 0x27]) @ CHR ''%'' # CHR ''s'' # r" for r
    by simp
  have "luaO_pushvfstring cv q (''unable to set mode %o on '' @ [CHR 0x27] @ ''%s'' @ r) (VInt i # as) = None"
    for q r i as
    unfolding f
    by (subst pushvfstring_conv [of "''unable to set mode ''"], simp)
      (simp add: pushvfstring_conv [of "'' on '' @ [CHR 0x27]", simplified])
  then show ?thesis
    by (simp add: os_chmod_def Let_def split: prod.splits)
qed

end
