(* ===== verification/Host_Match.thy ===== *)
theory Host_Match
  imports Host_Fs
begin

text \<open>
  The directory iterator of \<open>src/host/os_match.c\<close>, in both of its versions: \<open>opendir\<close>,
  \<open>readdir\<close> and \<open>fnmatch\<close> on POSIX, \<open>FindFirstFile\<close> and \<open>FindNextFile\<close> on Windows.

  A \<open>MatchInfo\<close> is allocated by \<open>os.matchstart\<close> and handed to Lua as a light userdata; the
  other functions dereference whatever pointer the script passes. The memory is therefore explicit:
  the blocks that are allocated, by address, each a \<open>MatchInfo\<close> or an array of bytes, and the
  directory streams that are open. What is outside of it is undefined behaviour (\<open>None\<close>): a pointer
  to no block or to one of another kind, a write past the end of an array, a string without a
  terminator, freeing or closing twice, an entry that is NULL or not yet set, and the use of what
  \<open>malloc\<close> returns when it fails. The entries of a directory are listed when it is opened.
\<close>

section \<open>The interface of an iterator\<close>

text \<open>
  What the scripts rely on: \<open>nxt\<close> reports whether there is another entry, \<open>name\<close> reads it,
  and the entries come in the order of \<open>pending\<close>, each once.
\<close>

locale match_iterator =
  fixes nxt :: "'m \<Rightarrow> bool \<times> 'm"
    and name :: "'m \<Rightarrow> string option"
    and pending :: "'m \<Rightarrow> string list"
  assumes nxt_none: "pending m = [] \<Longrightarrow> \<not> fst (nxt m)"
    and nxt_some: "pending m = x # xs \<Longrightarrow>
          fst (nxt m) \<and> name (snd (nxt m)) = Some x \<and> pending (snd (nxt m)) = xs"

text \<open>The loop of the scripts, with fuel: the names in order and the iterator after it.\<close>

fun drain :: "('m \<Rightarrow> bool \<times> 'm) \<Rightarrow> ('m \<Rightarrow> string option) \<Rightarrow> nat \<Rightarrow> 'm \<Rightarrow> (string option list \<times> 'm) option" where
  "drain nxt name 0 m = None"
| "drain nxt name (Suc n) m =
     (let (more, m') = nxt m in
      if more then map_option (\<lambda>(xs, m''). (name m' # xs, m'')) (drain nxt name n m')
      else Some ([], m'))"

context match_iterator
begin

lemma drain_pending:
  "length (pending m) < n \<Longrightarrow> \<exists>m'. drain nxt name n m = Some (map Some (pending m), m')"
proof (induction n arbitrary: m)
  case 0
  then show ?case by simp
next
  case (Suc n)
  show ?case
  proof (cases "pending m")
    case Nil
    with nxt_none [OF this] show ?thesis by (cases "nxt m") simp
  next
    case (Cons x xs)
    from nxt_some [OF this] have f: "fst (nxt m)" and s: "name (snd (nxt m)) = Some x"
      "pending (snd (nxt m)) = xs" by simp_all
    from Suc.IH [of "snd (nxt m)"] Suc.prems Cons s obtain m' where
      "drain nxt name n (snd (nxt m)) = Some (map Some xs, m')" by auto
    then show ?thesis using f s Cons by (cases "nxt m") auto
  qed
qed

lemma drain_unique: "drain nxt name n m = Some (ys, m') \<Longrightarrow> ys = map Some (pending m)"
proof (induction n arbitrary: m ys)
  case 0
  then show ?case by simp
next
  case (Suc n)
  show ?case
  proof (cases "pending m")
    case Nil
    with nxt_none [OF this] Suc.prems show ?thesis by (auto split: prod.splits)
  next
    case (Cons x xs)
    with nxt_some [OF this] Suc show ?thesis by (fastforce split: prod.splits)
  qed
qed

end

section \<open>Memory\<close>

datatype 'm block = CChars string | CInfo 'm

record ('m, 'e) cmem =
  blocks :: "64 word \<Rightarrow> 'm block option"
  streams :: "64 word \<Rightarrow> 'e list option"

text \<open>Where \<open>malloc\<close> and the functions that open a stream put what they allocate.\<close>

record ('m, 'e) allocator =
  at_block :: "(64 word \<Rightarrow> 'm block option) \<Rightarrow> 64 word"
  at_stream :: "(64 word \<Rightarrow> 'e list option) \<Rightarrow> 64 word"

definition c_malloc :: "('m, 'e) allocator \<Rightarrow> 'm block \<Rightarrow> ('m, 'e) cmem \<Rightarrow> (64 word \<times> ('m, 'e) cmem) option" where
  "c_malloc al b c =
     (let p = at_block al (blocks c)
      in if p = 0 then None else Some (p, c\<lparr>blocks := (blocks c)(p \<mapsto> b)\<rparr>))"

text \<open>The bytes of a new array are no terminators before they are written.\<close>

definition fresh_chars :: "nat \<Rightarrow> 'm block" where
  "fresh_chars n = CChars (replicate n (CHR 0xCD))"

definition c_free :: "64 word \<Rightarrow> ('m, 'e) cmem \<Rightarrow> ('m, 'e) cmem option" where
  "c_free p c =
     (if p = 0 then Some c
      else if blocks c p = None then None
      else Some (c\<lparr>blocks := (blocks c)(p := None)\<rparr>))"

definition c_open :: "('m, 'e) allocator \<Rightarrow> 'e list \<Rightarrow> ('m, 'e) cmem \<Rightarrow> 64 word \<times> ('m, 'e) cmem" where
  "c_open al es c =
     (let h = at_stream al (streams c) in (h, c\<lparr>streams := (streams c)(h \<mapsto> es)\<rparr>))"

definition c_close :: "64 word \<Rightarrow> ('m, 'e) cmem \<Rightarrow> ('m, 'e) cmem option" where
  "c_close h c =
     (if streams c h = None then None else Some (c\<lparr>streams := (streams c)(h := None)\<rparr>))"

text \<open>Writing \<open>s\<close> from offset \<open>i\<close> of an array on, and the C string at an address.\<close>

definition poke :: "64 word \<Rightarrow> nat \<Rightarrow> string \<Rightarrow> ('m, 'e) cmem \<Rightarrow> ('m, 'e) cmem option" where
  "poke p i s c =
     (case blocks c p of
        Some (CChars b) \<Rightarrow>
          (if i + length s \<le> length b
           then Some (c\<lparr>blocks := (blocks c)(p \<mapsto> CChars (take i b @ s @ drop (i + length s) b))\<rparr>)
           else None)
      | _ \<Rightarrow> None)"

definition strcpy :: "64 word \<Rightarrow> string \<Rightarrow> ('m, 'e) cmem \<Rightarrow> ('m, 'e) cmem option" where
  "strcpy p s = poke p 0 (s @ [NUL])"

definition peek_string :: "64 word \<Rightarrow> ('m, 'e) cmem \<Rightarrow> string option" where
  "peek_string p c =
     (case blocks c p of Some (CChars b) \<Rightarrow> if NUL \<in> set b then Some (cstr b) else None | _ \<Rightarrow> None)"

text \<open>A full userdata is a block of another library, not a \<open>MatchInfo\<close>; anything else is NULL.\<close>

definition lua_touserdata :: "lval option \<Rightarrow> 64 word" where
  "lua_touserdata v = (case v of Some (LLight p) \<Rightarrow> p | _ \<Rightarrow> 0)"

definition deref :: "('m, 'e) cmem \<Rightarrow> lval list \<Rightarrow> (64 word \<times> 'm) option" where
  "deref c args =
     (let p = lua_touserdata (index2adr args 1) in
      if p = 0 then None else (case blocks c p of Some (CInfo m) \<Rightarrow> Some (p, m) | _ \<Rightarrow> None))"

section \<open>POSIX\<close>

text \<open>\<open>handle\<close>, \<open>path\<close> and \<open>mask\<close> are addresses, 0 is NULL.\<close>

record MatchInfo =
  mi_handle :: "64 word"
  mi_entry :: "string option"
  mi_path :: "64 word"
  mi_mask :: "64 word"

type_synonym posix_mem = "(MatchInfo, string) cmem"

text \<open>The directory and the file part of the mask, in two new arrays.\<close>

definition split_mask ::
    "(MatchInfo, string) allocator \<Rightarrow> string \<Rightarrow> posix_mem \<Rightarrow> (64 word \<times> 64 word \<times> posix_mem) option" where
  "split_mask al msk c =
     (case strrchr msk (CHR ''/'') of
        Some k \<Rightarrow>
          Option.bind (c_malloc al (fresh_chars (k + 1)) c) (\<lambda>(path, c).
          Option.bind (poke path 0 (take k msk) c) (\<lambda>c.
          Option.bind (poke path k [NUL] c) (\<lambda>c.
          Option.bind (c_malloc al (fresh_chars (length msk - k)) c) (\<lambda>(pat, c).
          Option.bind (strcpy pat (drop (k + 1) msk) c) (\<lambda>c. Some (path, pat, c))))))
      | None \<Rightarrow>
          Option.bind (c_malloc al (fresh_chars 2) c) (\<lambda>(path, c).
          Option.bind (strcpy path ''.'' c) (\<lambda>c.
          Option.bind (c_malloc al (fresh_chars (length msk + 1)) c) (\<lambda>(pat, c).
          Option.bind (strcpy pat msk c) (\<lambda>c. Some (path, pat, c))))))"

definition os_matchstart ::
    "(MatchInfo, string) allocator \<Rightarrow> (string \<Rightarrow> string list option) \<Rightarrow> lua_conv \<Rightarrow> lval list \<Rightarrow> posix_mem
      \<Rightarrow> (lua_results \<times> posix_mem) option" where
  "os_matchstart al opendir cv args c =
     (case luaL_checkstring cv args 1 of
        Inl e \<Rightarrow> Some (Inl e, c)
      | Inr msk \<Rightarrow>
          Option.bind (c_malloc al (CInfo \<lparr>mi_handle = 0, mi_entry = None, mi_path = 0, mi_mask = 0\<rparr>) c) (\<lambda>(m, c).
          Option.bind (split_mask al msk c) (\<lambda>(path, pat, c).
          Option.bind (peek_string path c) (\<lambda>dir.
            let (handle, c) = (case opendir dir of None \<Rightarrow> (0, c) | Some es \<Rightarrow> c_open al es c);
                info = \<lparr>mi_handle = handle, mi_entry = None, mi_path = path, mi_mask = pat\<rparr>
            in Some (Inr [LLight m], c\<lparr>blocks := (blocks c)(m \<mapsto> CInfo info)\<rparr>)))))"

definition os_matchdone :: "lval list \<Rightarrow> posix_mem \<Rightarrow> (lua_results \<times> posix_mem) option" where
  "os_matchdone args c =
     Option.bind (deref c args) (\<lambda>(p, m).
     Option.bind (if mi_handle m \<noteq> 0 then c_close (mi_handle m) c else Some c) (\<lambda>c.
     Option.bind (c_free (mi_path m) c) (\<lambda>c.
     Option.bind (c_free (mi_mask m) c) (\<lambda>c.
     Option.bind (c_free p c) (\<lambda>c. Some (Inr [], c))))))"

definition os_matchname :: "lval list \<Rightarrow> posix_mem \<Rightarrow> lua_results option" where
  "os_matchname args c =
     Option.bind (deref c args) (\<lambda>(p, m). map_option (\<lambda>d_name. Inr [lua_pushstring (Some d_name)]) (mi_entry m))"

definition os_matchisfile ::
    "(string \<Rightarrow> int + stat_buf) \<Rightarrow> lua_conv \<Rightarrow> lval list \<Rightarrow> posix_mem \<Rightarrow> lua_results option" where
  "os_matchisfile stat cv args c =
     Option.bind (deref c args) (\<lambda>(p, m).
     Option.bind (peek_string (mi_path m) c) (\<lambda>path.
     Option.bind (mi_entry m) (\<lambda>d_name.
     Option.bind (luaO_pushvfstring cv (\<lambda>_. []) ''%s/%s'' [VStr (Some path), VStr (Some d_name)]) (\<lambda>fname.
       case stat fname of
         Inr info \<Rightarrow> Some (Inr [LBool (st_mode info AND S_IFMT = S_IFREG)])
       | Inl _ \<Rightarrow> Some (Inr [])))))"

text \<open>
  \<open>match_read\<close> is the loop of \<open>os_matchnext\<close>: the entry found and the ones left. The mask is read for
  an entry that does not begin with a dot.
\<close>

fun match_read :: "(string \<Rightarrow> string \<Rightarrow> bool) \<Rightarrow> string option \<Rightarrow> string list \<Rightarrow> (string option \<times> string list) option" where
  "match_read fnmatch msk [] = Some (None, [])"
| "match_read fnmatch msk (nm # rest) =
     (if cnth nm 0 \<noteq> CHR ''.'' then
        (case msk of
           None \<Rightarrow> None
         | Some k \<Rightarrow> if fnmatch k nm then Some (Some nm, rest) else match_read fnmatch msk rest)
      else match_read fnmatch msk rest)"

definition os_matchnext ::
    "(string \<Rightarrow> string \<Rightarrow> bool) \<Rightarrow> lval list \<Rightarrow> posix_mem \<Rightarrow> (lua_results \<times> posix_mem) option" where
  "os_matchnext fnmatch args c =
     Option.bind (deref c args) (\<lambda>(p, m).
       if mi_handle m = 0 then Some (Inr [], c)
       else
         Option.bind (streams c (mi_handle m)) (\<lambda>es.
         Option.bind (match_read fnmatch (peek_string (mi_mask m) c) es) (\<lambda>(entry, rest).
           Some (if entry \<noteq> None then Inr [LBool True] else Inr [],
                 c\<lparr>blocks := (blocks c)(p \<mapsto> CInfo (m\<lparr>mi_entry := entry\<rparr>)),
                   streams := (streams c)(mi_handle m \<mapsto> rest)\<rparr>))))"

text \<open>The iterator behind it: the entry and what \<open>readdir\<close> has still to return.\<close>

definition match_next :: "(string \<Rightarrow> string \<Rightarrow> bool) \<Rightarrow> string \<Rightarrow> string option \<times> string list \<Rightarrow> bool \<times> string option \<times> string list" where
  "match_next fnmatch k it =
     (case match_read fnmatch (Some k) (snd it) of
        Some (entry, rest) \<Rightarrow> (entry \<noteq> None, entry, rest)
      | None \<Rightarrow> (False, it))"

definition visible :: "(string \<Rightarrow> string \<Rightarrow> bool) \<Rightarrow> string \<Rightarrow> string \<Rightarrow> bool" where
  "visible fnmatch msk nm \<longleftrightarrow> cnth nm 0 \<noteq> CHR ''.'' \<and> fnmatch msk nm"

definition match_pending :: "(string \<Rightarrow> string \<Rightarrow> bool) \<Rightarrow> string \<Rightarrow> string option \<times> string list \<Rightarrow> string list" where
  "match_pending fnmatch k it = filter (visible fnmatch k) (snd it)"

lemma match_read_none: "filter (visible f k) es = [] \<Longrightarrow> match_read f (Some k) es = Some (None, [])"
  by (induction es) (auto simp: visible_def split: if_splits)

lemma match_read_some:
  "filter (visible f k) es = x # xs \<Longrightarrow> \<exists>r. match_read f (Some k) es = Some (Some x, r) \<and> filter (visible f k) r = xs"
  by (induction es) (auto simp: visible_def split: if_splits)

lemma match_read_next:
  obtains entry rest where "match_read f (Some k) es = Some (entry, rest)" "match_next f k (en, es) = (entry \<noteq> None, entry, rest)"
proof (cases "filter (visible f k) es")
  case Nil
  then show ?thesis
    using that match_read_none by (simp add: match_next_def)
next
  case (Cons x xs)
  then show ?thesis
    using that match_read_some [OF Cons] by (auto simp: match_next_def)
qed

interpretation posix_match: match_iterator "match_next f k" fst "match_pending f k" for f k
proof
  fix m :: "string option \<times> string list"
  assume "match_pending f k m = []"
  then show "\<not> fst (match_next f k m)"
    by (simp add: match_next_def match_pending_def match_read_none)
next
  fix m :: "string option \<times> string list" and x xs
  assume "match_pending f k m = x # xs"
  then show "fst (match_next f k m) \<and> fst (snd (match_next f k m)) = Some x
      \<and> match_pending f k (snd (match_next f k m)) = xs"
    by (auto simp: match_next_def match_pending_def dest!: match_read_some)
qed

section \<open>Windows\<close>

record find_data =
  cFileName :: string
  dwFileAttributes :: nat

definition FILE_ATTRIBUTE_DIRECTORY :: nat where "FILE_ATTRIBUTE_DIRECTORY = 0x10"

definition INVALID_HANDLE_VALUE :: "64 word" where "INVALID_HANDLE_VALUE = - 1"

text \<open>\<open>wm_entry\<close> is \<open>None\<close> as long as it is not initialised.\<close>

record WinMatchInfo =
  wm_handle :: "64 word"
  wm_is_first :: bool
  wm_entry :: "find_data option"

type_synonym win_mem = "(WinMatchInfo, find_data) cmem"

text \<open>\<open>FindFirstFile\<close> fails when nothing matches, otherwise it returns the first entry.\<close>

definition win_matchstart ::
    "(WinMatchInfo, find_data) allocator \<Rightarrow> (string \<Rightarrow> find_data list) \<Rightarrow> lua_conv \<Rightarrow> lval list \<Rightarrow> win_mem
      \<Rightarrow> (lua_results \<times> win_mem) option" where
  "win_matchstart al FindFirstFile cv args c =
     (case luaL_checkstring cv args 1 of
        Inl e \<Rightarrow> Some (Inl e, c)
      | Inr msk \<Rightarrow>
          Option.bind (c_malloc al (CInfo \<lparr>wm_handle = 0, wm_is_first = False, wm_entry = None\<rparr>) c) (\<lambda>(m, c).
            let (handle, entry, c) =
                  (case FindFirstFile msk of
                     [] \<Rightarrow> (INVALID_HANDLE_VALUE, None, c)
                   | e # es \<Rightarrow> (case c_open al es c of (h, c) \<Rightarrow> (h, Some e, c)));
                info = \<lparr>wm_handle = handle, wm_is_first = True, wm_entry = entry\<rparr>
            in Some (Inr [LLight m], c\<lparr>blocks := (blocks c)(m \<mapsto> CInfo info)\<rparr>)))"

definition win_matchdone :: "lval list \<Rightarrow> win_mem \<Rightarrow> (lua_results \<times> win_mem) option" where
  "win_matchdone args c =
     Option.bind (deref c args) (\<lambda>(p, m).
     Option.bind (if wm_handle m \<noteq> INVALID_HANDLE_VALUE then c_close (wm_handle m) c else Some c) (\<lambda>c.
     Option.bind (c_free p c) (\<lambda>c. Some (Inr [], c))))"

definition win_matchname :: "lval list \<Rightarrow> win_mem \<Rightarrow> lua_results option" where
  "win_matchname args c =
     Option.bind (deref c args) (\<lambda>(p, m).
       map_option (\<lambda>e. Inr [lua_pushstring (Some (cFileName e))]) (wm_entry m))"

definition win_matchisfile :: "lval list \<Rightarrow> win_mem \<Rightarrow> lua_results option" where
  "win_matchisfile args c =
     Option.bind (deref c args) (\<lambda>(p, m).
       map_option (\<lambda>e. Inr [LBool (dwFileAttributes e AND FILE_ATTRIBUTE_DIRECTORY = 0)]) (wm_entry m))"

text \<open>The \<open>loop forever\<close> on the entries \<open>FindNextFile\<close> has left; the last entry stays in place.\<close>

fun win_read :: "find_data list \<Rightarrow> find_data \<Rightarrow> bool \<times> find_data list \<times> find_data" where
  "win_read [] entry = (False, [], entry)"
| "win_read (e # es) entry =
     (if cnth (cFileName e) 0 \<noteq> CHR ''.'' then (True, es, e) else win_read es e)"

text \<open>The loop as a whole: \<open>is_first\<close>, the entry and the entries left.\<close>

definition win_next :: "bool \<times> find_data \<times> find_data list \<Rightarrow> bool \<times> bool \<times> find_data \<times> find_data list" where
  "win_next it =
     (let (is_first, entry, es) = it in
      if is_first \<and> cnth (cFileName entry) 0 \<noteq> CHR ''.'' then (True, False, entry, es)
      else (let (more, es', entry') = win_read es entry in (more, False, entry', es')))"

definition win_matchnext :: "lval list \<Rightarrow> win_mem \<Rightarrow> (lua_results \<times> win_mem) option" where
  "win_matchnext args c =
     Option.bind (deref c args) (\<lambda>(p, m).
       if wm_handle m = INVALID_HANDLE_VALUE then Some (Inr [], c)
       else
         Option.bind (streams c (wm_handle m)) (\<lambda>es.
         Option.bind (wm_entry m) (\<lambda>entry.
           let (more, is_first, entry, es) = win_next (wm_is_first m, entry, es)
           in Some (if more then Inr [LBool True] else Inr [],
                    c\<lparr>blocks := (blocks c)(p \<mapsto> CInfo (m\<lparr>wm_is_first := is_first, wm_entry := Some entry\<rparr>)),
                      streams := (streams c)(wm_handle m \<mapsto> es)\<rparr>))))"

definition not_dot :: "string \<Rightarrow> bool" where
  "not_dot nm \<longleftrightarrow> cnth nm 0 \<noteq> CHR ''.''"

text \<open>The entry \<open>FindFirstFile\<close> returned is pending as long as it has not been delivered.\<close>

definition win_pending :: "bool \<times> find_data \<times> find_data list \<Rightarrow> string list" where
  "win_pending it =
     (let (is_first, entry, es) = it
      in filter not_dot (map cFileName ((if is_first then [entry] else []) @ es)))"

definition win_name :: "bool \<times> find_data \<times> find_data list \<Rightarrow> string option" where
  "win_name it = Some (cFileName (fst (snd it)))"

lemma win_read_none: "filter not_dot (map cFileName es) = [] \<Longrightarrow> \<not> fst (win_read es en)"
  by (induction es arbitrary: en) (auto simp: not_dot_def split: if_splits)

lemma win_read_some:
  "filter not_dot (map cFileName es) = x # xs \<Longrightarrow>
     \<exists>r e. win_read es en = (True, r, e) \<and> cFileName e = x \<and> filter not_dot (map cFileName r) = xs"
  by (induction es arbitrary: en) (auto simp: not_dot_def split: if_splits)

interpretation win_match: match_iterator win_next win_name win_pending
proof
  fix it assume p: "win_pending it = []"
  obtain b e es where it: "it = (b, e, es)"
    by (cases it) auto
  show "\<not> fst (win_next it)"
    using p win_read_none [of es e]
    by (cases b; auto simp: it win_next_def win_pending_def not_dot_def split: prod.split if_splits)
next
  fix it x xs assume p: "win_pending it = x # xs"
  obtain b e es where it: "it = (b, e, es)"
    by (cases it) auto
  show "fst (win_next it) \<and> win_name (snd (win_next it)) = Some x \<and> win_pending (snd (win_next it)) = xs"
  proof (cases "b \<and> not_dot (cFileName e)")
    case True
    then show ?thesis
      using p by (simp add: it win_next_def win_pending_def win_name_def not_dot_def)
  next
    case False
    then have "filter not_dot (map cFileName es) = x # xs"
      using p by (auto simp: it win_pending_def split: if_splits)
    from win_read_some [OF this, of e] obtain r e' where
      "win_read es e = (True, r, e')" "cFileName e' = x" "filter not_dot (map cFileName r) = xs"
      by blast
    then show ?thesis
      using False by (auto simp: it win_next_def win_pending_def win_name_def not_dot_def)
  qed
qed

section \<open>A whole enumeration\<close>

text \<open>
  The scripts' use of the POSIX functions: \<open>matchstart\<close>, then \<open>matchname\<close> after every
  \<open>matchnext\<close> that returns true, then \<open>matchdone\<close>. The fuel bounds the number of entries.
\<close>

fun match_loop ::
    "(string \<Rightarrow> string \<Rightarrow> bool) \<Rightarrow> nat \<Rightarrow> lval \<Rightarrow> posix_mem \<Rightarrow> (lval list \<times> posix_mem) option" where
  "match_loop f 0 ud c = None"
| "match_loop f (Suc n) ud c =
     Option.bind (os_matchnext f [ud] c) (\<lambda>(r, c').
       if r = Inr [LBool True] then
         Option.bind (os_matchname [ud] c') (\<lambda>nm.
           map_option (\<lambda>(rest, c''). ((case nm of Inr vs \<Rightarrow> vs | Inl _ \<Rightarrow> []) @ rest, c''))
             (match_loop f n ud c'))
       else Some ([], c'))"

definition match_session ::
    "(string \<Rightarrow> string \<Rightarrow> bool) \<Rightarrow> (MatchInfo, string) allocator \<Rightarrow> (string \<Rightarrow> string list option) \<Rightarrow> lua_conv
      \<Rightarrow> nat \<Rightarrow> string \<Rightarrow> posix_mem \<Rightarrow> (lval list \<times> posix_mem) option" where
  "match_session f al opendir cv n pattern c =
     Option.bind (os_matchstart al opendir cv [LStr pattern] c) (\<lambda>(r, c1).
      case r of
        Inr [ud] \<Rightarrow>
          Option.bind (match_loop f n ud c1) (\<lambda>(names, c2).
            map_option (\<lambda>(_, c3). (names, c3)) (os_matchdone [ud] c2))
      | _ \<Rightarrow> None)"

lemma match_loop_drain:
  assumes "p \<noteq> 0" and "blocks c p = Some (CInfo m)" and "mi_handle m \<noteq> 0" and "streams c (mi_handle m) = Some es"
    and "peek_string (mi_mask m) c = Some k"
    and "drain (match_next f k) fst n (mi_entry m, es) = Some (map Some names, (en, es'))"
  shows "match_loop f n (LLight p) c = Some (map (\<lambda>nm. LStr (cstr nm)) names,
    c\<lparr>blocks := (blocks c)(p \<mapsto> CInfo (m\<lparr>mi_entry := en\<rparr>)), streams := (streams c)(mi_handle m \<mapsto> es')\<rparr>)"
  using assms(2-)
proof (induction n arbitrary: c m es names)
  case 0
  then show ?case by simp
next
  case (Suc n)
  obtain entry rest where r: "match_read f (Some k) es = Some (entry, rest)"
      "match_next f k (mi_entry m, es) = (entry \<noteq> None, entry, rest)"
    by (rule match_read_next)
  define m1 where "m1 = m\<lparr>mi_entry := entry\<rparr>"
  define c1 where "c1 = c\<lparr>blocks := (blocks c)(p \<mapsto> CInfo m1), streams := (streams c)(mi_handle m \<mapsto> rest)\<rparr>"
  have step: "os_matchnext f [LLight p] c = Some (if entry \<noteq> None then Inr [LBool True] else Inr [], c1)"
    using Suc.prems(1-4) assms(1) r(1)
    by (simp add: os_matchnext_def deref_def lua_touserdata_def c1_def m1_def)
  show ?case
  proof (cases entry)
    case None
    then show ?thesis
      using Suc.prems(5) r(2) step by (simp add: c1_def m1_def fun_upd_def)
  next
    case (Some x)
    then obtain xs where x: "names = x # xs" and d: "drain (match_next f k) fst n (entry, rest) = Some (map Some xs, (en, es'))"
      using Suc.prems(5) r(2) by (cases names) auto
    have "mi_mask m \<noteq> p"
      using Suc.prems(1,4) by (auto simp: peek_string_def)
    then have "peek_string (mi_mask m1) c1 = Some k"
      using Suc.prems(4) by (simp add: peek_string_def c1_def m1_def)
    then have "match_loop f n (LLight p) c1 = Some (map (\<lambda>nm. LStr (cstr nm)) xs,
        c1\<lparr>blocks := (blocks c1)(p \<mapsto> CInfo (m1\<lparr>mi_entry := en\<rparr>)), streams := (streams c1)(mi_handle m1 \<mapsto> es')\<rparr>)"
      by (intro Suc.IH) (use Suc.prems(2) d in \<open>simp_all add: c1_def m1_def\<close>)
    then show ?thesis
      using x step Some assms(1)
      by (simp add: os_matchname_def deref_def lua_touserdata_def c1_def m1_def fun_upd_def cong: if_cong)
  qed
qed

text \<open>The allocator has room for \<open>n\<close> more blocks: it does not fail and does not reuse what is allocated.\<close>

primrec has_room :: "nat \<Rightarrow> ((64 word \<Rightarrow> 'm block option) \<Rightarrow> 64 word) \<Rightarrow> (64 word \<Rightarrow> 'm block option) \<Rightarrow> bool" where
  "has_room 0 al bs \<longleftrightarrow> True"
| "has_room (Suc n) al bs \<longleftrightarrow> al bs \<noteq> 0 \<and> bs (al bs) = None \<and> (\<forall>b. has_room n al (bs(al bs \<mapsto> b)))"

text \<open>The parts of a mask, as \<open>os.matchstart\<close> documents them.\<close>

definition mask_parts :: "string \<Rightarrow> string \<Rightarrow> string \<Rightarrow> bool" where
  "mask_parts msk dir pat \<longleftrightarrow> CHR ''/'' \<notin> set pat \<and> (msk = dir @ ''/'' @ pat \<or> dir = ''.'' \<and> msk = pat)"

lemma mask_parts_split:
  assumes "mask_parts msk dir pat"
  shows "strrchr msk (CHR ''/'') = Some (length dir) \<and> take (length dir) msk = dir \<and> drop (length dir + 1) msk = pat
      \<and> length msk - length dir = length pat + 1
    \<or> strrchr msk (CHR ''/'') = None \<and> dir = ''.'' \<and> msk = pat"
proof -
  have "strrchr (d @ CHR ''/'' # pat) (CHR ''/'') = Some (length d)" for d
    using assms by (induction d) (auto simp: mask_parts_def strrchr_None split: option.splits)
  then show ?thesis
    using assms by (auto simp: mask_parts_def strrchr_None)
qed

lemma new_string:
  assumes "at_block al (blocks c) = p" and "p \<noteq> 0"
  shows "Option.bind (c_malloc al (fresh_chars (length s + 1)) c) (\<lambda>(p, c). Option.bind (strcpy p s c) (F p))
    = F p (c\<lparr>blocks := (blocks c)(p \<mapsto> CChars (s @ [NUL]))\<rparr>)"
  using assms by (simp add: c_malloc_def strcpy_def poke_def fresh_chars_def)

lemma new_string_parts:
  assumes "at_block al (blocks c) = p" and "p \<noteq> 0" and "k \<le> length s"
  shows "Option.bind (c_malloc al (fresh_chars (k + 1)) c) (\<lambda>(p, c).
      Option.bind (poke p 0 (take k s) c) (\<lambda>c. Option.bind (poke p k [NUL] c) (F p)))
    = F p (c\<lparr>blocks := (blocks c)(p \<mapsto> CChars (take k s @ [NUL]))\<rparr>)"
  using assms by (simp add: c_malloc_def poke_def fresh_chars_def min_def)

lemma split_mask_parts:
  assumes "mask_parts msk dir pat" and "has_room 2 (at_block al) (blocks c)"
  obtains path pm where "path \<noteq> 0" "pm \<noteq> 0" "pm \<noteq> path" "blocks c path = None" "blocks c pm = None"
    "split_mask al msk c = Some (path, pm, c\<lparr>blocks := (blocks c)(path \<mapsto> CChars (dir @ [NUL]), pm \<mapsto> CChars (pat @ [NUL]))\<rparr>)"
proof -
  define path where "path = at_block al (blocks c)"
  define c1 where "c1 = c\<lparr>blocks := (blocks c)(path \<mapsto> CChars (dir @ [NUL]))\<rparr>"
  define pm where "pm = at_block al (blocks c1)"
  have room: "path \<noteq> 0" "blocks c path = None" "pm \<noteq> 0" "blocks c1 pm = None"
    using assms(2) by (simp_all add: numeral_2_eq_2 path_def c1_def pm_def)
  have "pm \<noteq> path"
    using room(4) by (auto simp: c1_def)
  moreover have "split_mask al msk c = Some (path, pm, c1\<lparr>blocks := (blocks c1)(pm \<mapsto> CChars (pat @ [NUL]))\<rparr>)"
    using mask_parts_split [OF assms(1)]
  proof
    assume a: "strrchr msk (CHR ''/'') = Some (length dir) \<and> take (length dir) msk = dir \<and> drop (length dir + 1) msk = pat
        \<and> length msk - length dir = length pat + 1"
    then have "length dir \<le> length msk"
      by linarith
    moreover have t: "take (length dir) msk = dir"
      using a by blast
    ultimately have 1: "Option.bind (c_malloc al (fresh_chars (length dir + 1)) c) (\<lambda>(p, c).
        Option.bind (poke p 0 dir c) (\<lambda>c. Option.bind (poke p (length dir) [NUL] c) (F p))) = F path c1" for F :: "_ \<Rightarrow> _ \<Rightarrow> 'd option"
      using new_string_parts [OF path_def [symmetric] room(1), of "length dir" msk F] by (simp add: c1_def)
    note 2 = new_string [OF pm_def [symmetric] room(3)]
    show ?thesis
      unfolding split_mask_def using a by (simp only: option.case 1 2)
  next
    assume a: "strrchr msk (CHR ''/'') = None \<and> dir = ''.'' \<and> msk = pat"
    then have e: "msk = pat" "dir = ''.''" and n: "strrchr pat (CHR ''/'') = None"
      by auto
    note 1 = new_string [OF path_def [symmetric] room(1), of dir] and 2 = new_string [OF pm_def [symmetric] room(3), of pat]
    have "split_mask al msk c = Option.bind (c_malloc al (fresh_chars (length dir + 1)) c) (\<lambda>(path, c).
        Option.bind (strcpy path dir c) (\<lambda>c.
          Option.bind (c_malloc al (fresh_chars (length pat + 1)) c) (\<lambda>(pm, c).
          Option.bind (strcpy pm pat c) (\<lambda>c. Some (path, pm, c)))))"
      unfolding split_mask_def e n by (simp add: numeral_2_eq_2)
    then show ?thesis
      by (simp only: 1 2 c1_def [symmetric])
  qed
  ultimately show ?thesis
    using that [of path pm] room by (simp add: c1_def)
qed

section \<open>Properties\<close>

text \<open>
  C35. Matching files on POSIX. With an allocator that has room for three blocks and a new stream, a whole
  enumeration for a mask of any form (\<open>dir\<close> and \<open>pat\<close> are its parts) never touches invalid memory, ends, and
  returns exactly the entries of the directory that do not begin with a dot and match the file part, in
  directory order, none when the directory cannot be opened; and the memory afterwards is what it was: the
  record, the two strings and the directory stream have all been released.
\<close>

theorem match_enumerates:
  assumes "mask_parts msk dir pat" and "NUL \<notin> set msk" and "has_room 3 (at_block al) (blocks c)"
    and "at_stream al (streams c) \<noteq> 0" and "streams c (at_stream al (streams c)) = None"
    and "es = (case opendir dir of Some es \<Rightarrow> es | None \<Rightarrow> [])" and "\<forall>e \<in> set es. NUL \<notin> set e" and "length es < n"
  shows "match_session f al opendir cv n msk c
    = Some (map LStr (filter (\<lambda>e. (e = [] \<or> hd e \<noteq> CHR ''.'') \<and> f pat e) es), c)"
proof -
  define p where "p = at_block al (blocks c)"
  define c1 where "c1 = c\<lparr>blocks := (blocks c)(p \<mapsto> CInfo \<lparr>mi_handle = 0, mi_entry = None, mi_path = 0, mi_mask = 0\<rparr>)\<rparr>"
  have p: "p \<noteq> 0" "blocks c p = None" and room: "has_room 2 (at_block al) (blocks c1)"
    using assms(3) by (simp_all add: numeral_3_eq_3 numeral_2_eq_2 p_def c1_def)
  obtain path pm where q: "path \<noteq> 0" "pm \<noteq> 0" "pm \<noteq> path" "blocks c1 path = None" "blocks c1 pm = None"
    and split: "split_mask al msk c1
      = Some (path, pm, c1\<lparr>blocks := (blocks c1)(path \<mapsto> CChars (dir @ [NUL]), pm \<mapsto> CChars (pat @ [NUL]))\<rparr>)"
    using split_mask_parts [OF assms(1) room] by metis
  have d: "p \<noteq> path" "p \<noteq> pm" "blocks c path = None" "blocks c pm = None"
    using q(4,5) by (auto simp: c1_def split: if_splits)
  have nul: "NUL \<notin> set dir" "NUL \<notin> set pat"
    using assms(1,2) by (auto simp: mask_parts_def)
  have cs: "cstr (s @ [NUL]) = s" if "NUL \<notin> set s" for s
    unfolding cstr_def by (subst takeWhile_append2) (use that in auto)
  define h where "h = (if opendir dir = None then 0 else at_stream al (streams c))"
  define m where "m = \<lparr>mi_handle = h, mi_entry = None, mi_path = path, mi_mask = pm\<rparr>"
  define bs where "bs = (blocks c)(path \<mapsto> CChars (dir @ [NUL]), pm \<mapsto> CChars (pat @ [NUL]), p \<mapsto> CInfo m)"
  define c2 where "c2 = \<lparr>blocks = bs, streams = (if opendir dir = None then streams c else (streams c)(h \<mapsto> es)), \<dots> = cmem.more c\<rparr>"
  have start: "os_matchstart al opendir cv [LStr msk] c = Some (Inr [LLight p], c2)"
    using p q d split assms(6)
    by (simp add: os_matchstart_def c_malloc_def p_def [symmetric] c1_def [symmetric] cstr_id assms(2) peek_string_def
        cs nul Let_def c_open_def c2_def bs_def m_def h_def fun_upd_twist split: option.split)
      (simp add: c1_def fun_upd_twist d)
  let ?names = "filter (visible f pat) es"
  have v: "visible f pat = (\<lambda>e. (e = [] \<or> hd e \<noteq> CHR ''.'') \<and> f pat e)"
  proof
    fix e show "visible f pat e = ((e = [] \<or> hd e \<noteq> CHR ''.'') \<and> f pat e)"
      by (cases e) (simp_all add: visible_def cnth_def)
  qed
  have names: "map (\<lambda>nm. LStr (cstr nm)) ?names = map LStr ?names"
    by (rule map_cong) (auto simp: cstr_id assms(7))
  have at: "blocks c2 p = Some (CInfo m)" "blocks c2 path = Some (CChars (dir @ [NUL]))"
    "blocks c2 pm = Some (CChars (pat @ [NUL]))"
    using d q(3) by (simp_all add: c2_def bs_def)
  define R where "R en es' = c2\<lparr>blocks := (blocks c2)(p \<mapsto> CInfo (m\<lparr>mi_entry := en\<rparr>)),
      streams := (if opendir dir = None then streams c else (streams c2)(h \<mapsto> es'))\<rparr>" for en es'
  have loop: "\<exists>en es'. match_loop f n (LLight p) c2 = Some (map LStr ?names, R en es')"
  proof (cases "opendir dir")
    case None
    obtain n' where n: "n = Suc n'"
      using assms(8) by (cases n) simp_all
    have "os_matchnext f [LLight p] c2 = Some (Inr [], c2)"
      using p(1) at(1) None by (simp add: os_matchnext_def deref_def lua_touserdata_def m_def h_def)
    moreover have "c2 = R None []"
      using None at(1) by (simp add: R_def c2_def m_def fun_upd_idem)
    ultimately show ?thesis
      using None assms(6) by (auto simp: n)
  next
    case (Some ds)
    then have ds: "ds = es" and h: "h \<noteq> 0"
      using assms(4,6) by (simp_all add: h_def)
    have "length (match_pending f pat (None, es)) < n"
      using le_less_trans [OF length_filter_le assms(8), of "visible f pat"] by (simp add: match_pending_def)
    from posix_match.drain_pending [OF this] obtain en es' where
      dr: "drain (match_next f pat) fst n (mi_entry m, es) = Some (map Some ?names, (en, es'))"
      by (auto simp: match_pending_def m_def)
    have "match_loop f n (LLight p) c2 = Some (map (\<lambda>nm. LStr (cstr nm)) ?names, R en es')"
      using match_loop_drain [OF p(1) at(1) _ _ _ dr] Some h at(3) nul(2)
      by (simp add: m_def peek_string_def cs R_def c2_def)
    then show ?thesis
      using names by auto
  qed
  have restore: "bs(p \<mapsto> b, path := None, pm := None, p := None) = blocks c" for b
    using d p(2) q(3) by (auto simp: bs_def fun_eq_iff)
  have "os_matchdone [LLight p] (R en es') = Some (Inr [], c)" for en es'
    using p q d at assms(4,5) restore [of "CInfo (m\<lparr>mi_entry := en\<rparr>)"]
    by (cases "opendir dir") (simp_all add: os_matchdone_def deref_def lua_touserdata_def c_close_def c_free_def R_def m_def
        h_def c2_def bs_def fun_upd_idem)
  then show ?thesis
    using loop start by (auto simp: match_session_def v)
qed

text \<open>An allocator of three addresses, and a directory with three entries.\<close>

definition three_blocks :: "(MatchInfo, string) allocator" where
  "three_blocks = \<lparr>at_block = (\<lambda>bs. if bs 8 = None then 8 else if bs 16 = None then 16 else 24), at_stream = (\<lambda>_. 1)\<rparr>"

theorem match_enumerates_witness:
  "match_session (\<lambda>_ _. True) three_blocks (\<lambda>d. Some [''.'', ''a.c'', ''b.c'']) plain_conv 4 ''src/*''
     \<lparr>blocks = (\<lambda>_. None), streams = (\<lambda>_. None)\<rparr>
    = Some ([LStr ''a.c'', LStr ''b.c''], \<lparr>blocks = (\<lambda>_. None), streams = (\<lambda>_. None)\<rparr>)"
  using match_enumerates [of "''src/*''" "''src''" "''*''" three_blocks "\<lparr>blocks = (\<lambda>_. None), streams = (\<lambda>_. None)\<rparr>"
      "[''.'', ''a.c'', ''b.c'']" "\<lambda>d. Some [''.'', ''a.c'', ''b.c'']" 4 "\<lambda>_ _. True" plain_conv]
  by (simp add: mask_parts_def three_blocks_def numeral_3_eq_3)

text \<open>
  The Windows iterator returns every entry that does not begin with a dot, once and in the order the system
  finds them, and then reports the end, also when the first entry found is one to skip.
\<close>

theorem win_match_enumerates:
  assumes "Suc (length es) < n"
  shows "\<exists>it. drain win_next win_name n (True, e, es) = Some (map Some (filter not_dot (map cFileName (e # es))), it)"
proof -
  have p: "win_pending (True, e, es) = filter not_dot (map cFileName (e # es))"
    by (simp add: win_pending_def)
  have "length (win_pending (True, e, es)) \<le> length (map cFileName (e # es))"
    unfolding p by (rule length_filter_le)
  with assms have "length (win_pending (True, e, es)) < n" by simp
  from win_match.drain_pending [OF this] show ?thesis unfolding p .
qed

end
