(* ===== verification/Host_Search.thy ===== *)
theory Host_Search
  imports Host_Fs
begin

text \<open>
  \<open>os.pathsearch\<close> of \<open>src/host/os_pathsearch.c\<close>: looks for a file in the directories of one
  or more search paths. \<open>search_path\<close> is the inner \<open>do \<dots> while\<close> over one path, \<open>search_args\<close>
  the loop over the arguments; \<open>split_on\<close> is the specification of the splitting.
\<close>

section \<open>The code\<close>

text \<open>The closest separator: \<open>;\<close> or, except on Windows, \<open>:\<close>.\<close>

definition path_split :: "platform \<Rightarrow> string \<Rightarrow> nat option" where
  "path_split p path =
     (let semi = strchr path (CHR '';'');
          full = (if p \<noteq> WINDOWS then strchr path (CHR '':'') else None)
      in case semi of
           None \<Rightarrow> full
         | Some i \<Rightarrow> (case full of None \<Rightarrow> semi | Some j \<Rightarrow> if i < j then semi else full))"

lemma path_split_bound: "path_split p path = Some i \<Longrightarrow> i < length path"
  by (auto simp: path_split_def Let_def strchr_Some split: option.splits if_splits)

function search_path ::
    "platform \<Rightarrow> lua_conv \<Rightarrow> (string \<Rightarrow> bool) \<Rightarrow> lval \<Rightarrow> string \<Rightarrow> lua_error + lval option" where
  "search_path p cv isfile filename path =
     (let split = path_split p path;
          piece = (case split of Some i \<Rightarrow> LStr (take i path) | None \<Rightarrow> lua_pushstring (Some path))
      in bindE (lua_concat cv [piece, LStr ''/'', filename]) (\<lambda>full.
           if isfile (cstr (the (lua_tolstring cv (Some full)))) then Inr (Some piece)
           else case split of
               Some i \<Rightarrow> search_path p cv isfile filename (drop (Suc i) path)
             | None \<Rightarrow> Inr None))"
  by pat_completeness auto
termination
  by (relation "measure (\<lambda>(p, cv, f, a, path). length path)") (auto dest!: path_split_bound [OF sym])

declare search_path.simps [simp del]

fun search_args ::
    "platform \<Rightarrow> lua_conv \<Rightarrow> (string \<Rightarrow> bool) \<Rightarrow> lval list \<Rightarrow> nat \<Rightarrow> lval list \<Rightarrow> lua_results" where
  "search_args p cv isfile args i [] = Inr []"
| "search_args p cv isfile args i (v # vs) =
     (if lua_isnil (Some v) then search_args p cv isfile args (Suc i) vs
      else bindE (luaL_checkstring cv args i) (\<lambda>path.
           bindE (search_path p cv isfile (case index2adr args 1 of Some a \<Rightarrow> a | None \<Rightarrow> LNil) path) (\<lambda>r.
             case r of
               Some piece \<Rightarrow> Inr [piece]
             | None \<Rightarrow> search_args p cv isfile args (Suc i) vs)))"

definition os_pathsearch ::
    "platform \<Rightarrow> 'w osapi \<Rightarrow> lua_conv \<Rightarrow> lval list \<Rightarrow> 'w host \<Rightarrow> lua_results" where
  "os_pathsearch p os cv args h = search_args p cv (do_isfile os (world h)) args 2 (drop 1 args)"

section \<open>The specification\<close>

definition path_sep :: "platform \<Rightarrow> char \<Rightarrow> bool" where
  "path_sep p c \<longleftrightarrow> c = CHR '';'' \<or> (p \<noteq> WINDOWS \<and> c = CHR '':'')"

fun split_on :: "(char \<Rightarrow> bool) \<Rightarrow> string \<Rightarrow> string list" where
  "split_on P [] = [[]]"
| "split_on P (c # cs) =
     (if P c then [] # split_on P cs
      else (c # hd (split_on P cs)) # tl (split_on P cs))"

lemma split_on_ne [simp]: "split_on P s \<noteq> []"
  by (cases s) auto

lemma split_on_none: "\<forall>c \<in> set s. \<not> P c \<Longrightarrow> split_on P s = [s]"
  by (induction s) auto

lemma split_on_first:
  "\<forall>c \<in> set s. \<not> P c \<Longrightarrow> P d \<Longrightarrow> split_on P (s @ d # r) = s # split_on P r"
  by (induction s) auto

lemma path_split_None: "path_split p s = None \<longleftrightarrow> (\<forall>c \<in> set s. \<not> path_sep p c)"
proof -
  have "path_split p s = None \<longleftrightarrow> strchr s (CHR '';'') = None \<and> (p = WINDOWS \<or> strchr s (CHR '':'') = None)"
    by (simp add: path_split_def Let_def split: option.split)
  then show ?thesis unfolding strchr_None path_sep_def by blast
qed

lemma strchr_prefix:
  assumes "strchr s c = None \<or> (\<exists>j. strchr s c = Some j \<and> i \<le> j)"
  shows "c \<notin> set (take i s)"
proof (cases "strchr s c")
  case None
  then show ?thesis by (auto simp: strchr_None dest: in_set_takeD)
next
  case (Some j)
  with assms have "i \<le> j" by simp
  from set_take_subset_set_take [OF this, of s] Some show ?thesis by (auto simp: strchr_Some)
qed

lemma path_split_Some:
  assumes "path_split p s = Some i"
  shows "i < length s \<and> path_sep p (s ! i) \<and> (\<forall>c \<in> set (take i s). \<not> path_sep p c)"
proof -
  have a: "strchr s (CHR '';'') = Some i \<or> (p \<noteq> WINDOWS \<and> strchr s (CHR '':'') = Some i)"
    and b: "strchr s (CHR '';'') = None \<or> (\<exists>j. strchr s (CHR '';'') = Some j \<and> i \<le> j)"
    and c: "p \<noteq> WINDOWS \<Longrightarrow> strchr s (CHR '':'') = None \<or> (\<exists>j. strchr s (CHR '':'') = Some j \<and> i \<le> j)"
    using assms by (auto simp: path_split_def Let_def split: option.splits if_splits)
  from a have "i < length s \<and> path_sep p (s ! i)" by (auto simp: strchr_Some path_sep_def)
  with strchr_prefix [OF b] strchr_prefix [OF c] show ?thesis
    by (auto simp: path_sep_def)
qed

lemma search_path_spec:
  assumes "NUL \<notin> set path" and "NUL \<notin> set name"
  shows "search_path p cv isfile (LStr name) path
    = Inr (map_option LStr (find (\<lambda>d. isfile (d @ ''/'' @ name)) (split_on (path_sep p) path)))"
  using assms(1)
proof (induction "length path" arbitrary: path rule: less_induct)
  case less
  have cat: "lua_concat cv [LStr d, LStr ''/'', LStr name] = Inr (LStr (d @ ''/'' @ name))" for d
    using lua_concat_strings [of "[d, ''/'', name]" cv] by simp
  show ?case
  proof (cases "path_split p path")
    case None
    then have "split_on (path_sep p) path = [path]" by (simp add: path_split_None split_on_none)
    with None show ?thesis
      using less.prems assms(2)
      by (subst search_path.simps)
        (simp add: cat [unfolded append_Cons append_Nil] cstr_id)
  next
    case (Some i)
    from path_split_Some [OF this] have i: "i < length path" and s: "path_sep p (path ! i)"
      and t: "\<forall>c \<in> set (take i path). \<not> path_sep p c" by auto
    have eq: "path = take i path @ path ! i # drop (Suc i) path" using i by (rule id_take_nth_drop)
    have sp: "split_on (path_sep p) path = take i path # split_on (path_sep p) (drop (Suc i) path)"
      by (subst eq) (rule split_on_first [OF t s])
    have nn: "NUL \<notin> set (drop (Suc i) path)" "NUL \<notin> set (take i path)"
      using less.prems by (auto dest: in_set_dropD in_set_takeD)
    have ih: "search_path p cv isfile (LStr name) (drop (Suc i) path)
      = Inr (map_option LStr (find (\<lambda>d. isfile (d @ ''/'' @ name)) (split_on (path_sep p) (drop (Suc i) path))))"
      by (rule less.hyps) (use i nn in simp_all)
    show ?thesis
      using nn(2) assms(2) unfolding sp
      by (subst search_path.simps)
        (simp add: Some cat [unfolded append_Cons append_Nil] cstr_id ih)
  qed
qed

text \<open>The directories of the arguments that are not nil, in order.\<close>

fun search_dirs :: "platform \<Rightarrow> lval list \<Rightarrow> string list" where
  "search_dirs p [] = []"
| "search_dirs p (LStr s # vs) = split_on (path_sep p) s @ search_dirs p vs"
| "search_dirs p (_ # vs) = search_dirs p vs"

definition path_arg :: "lval \<Rightarrow> bool" where
  "path_arg v \<longleftrightarrow> (case v of LNil \<Rightarrow> True | LStr s \<Rightarrow> NUL \<notin> set s | _ \<Rightarrow> False)"

lemma find_append: "find P (xs @ ys) = (case find P xs of Some x \<Rightarrow> Some x | None \<Rightarrow> find P ys)"
  by (induction xs) auto

lemma search_args_spec:
  assumes "NUL \<notin> set name"
  shows "args = LStr name # pre @ vs \<Longrightarrow> i = length pre + 2 \<Longrightarrow> list_all path_arg vs \<Longrightarrow>
    search_args p cv isfile args i vs
    = Inr (case find (\<lambda>d. isfile (d @ ''/'' @ name)) (search_dirs p vs) of Some d \<Rightarrow> [LStr d] | None \<Rightarrow> [])"
proof (induction vs arbitrary: pre i)
  case Nil
  then show ?case by simp
next
  case (Cons v vs)
  have ih: "search_args p cv isfile args (Suc i) vs
    = Inr (case find (\<lambda>d. isfile (d @ ''/'' @ name)) (search_dirs p vs) of Some d \<Rightarrow> [LStr d] | None \<Rightarrow> [])"
    by (rule Cons.IH [of "pre @ [v]"]) (use Cons.prems in simp_all)
  have at: "index2adr args i = Some v" "index2adr args 1 = Some (LStr name)"
    using Cons.prems(1,2) by (simp_all add: index2adr_def)
  show ?case
  proof (cases v)
    case (LStr s)
    with Cons.prems(3) have "NUL \<notin> set s" by (simp add: path_arg_def)
    then show ?thesis
      using at LStr ih search_path_spec [OF _ assms, of s p cv isfile]
      by (simp add: lua_isnil_def cstr_id find_append split: option.splits)
  qed (use Cons.prems(3) ih in \<open>simp_all add: lua_isnil_def path_arg_def\<close>)
qed

section \<open>Properties\<close>

text \<open>
  C36. \<open>os.pathsearch\<close> returns the first directory, over all its search paths in order, in
  which the file exists, and no value when there is none; paths are split at semicolons and,
  except on Windows where a colon follows the drive letter, at colons; nil arguments are
  skipped.
\<close>

theorem pathsearch_first_match:
  assumes "NUL \<notin> set name" and "list_all path_arg paths"
  shows "os_pathsearch p os cv (LStr name # paths) h
    = Inr (case find (\<lambda>d. do_isfile os (world h) (d @ ''/'' @ name)) (search_dirs p paths) of
             Some d \<Rightarrow> [LStr d] | None \<Rightarrow> [])"
  using search_args_spec [OF assms(1), of "LStr name # paths" "[]" paths 2] assms(2)
  by (simp add: os_pathsearch_def)

theorem pathsearch_first_match_witness:
  "os_pathsearch LINUX (failing_os\<lparr>sys_stat := \<lambda>_ f. if f = ''/opt/premake'' then Inr \<lparr>st_mode = 0x81FF, st_mtime = 0, st_size = 9\<rparr> else Inl ENOENT\<rparr>)
     plain_conv [LStr ''premake'', LNil, LStr ''/bin:/opt''] empty_host = Inr [LStr ''/opt'']"
  by (subst pathsearch_first_match)
    (simp_all add: path_arg_def path_sep_def do_isfile_def S_IFDIR_def)

end
