(* ===== verification/Host_Main.thy ===== *)
theory Host_Main
  imports Host_Search
begin

text \<open>
  The entry point \<open>src/host/premake.c\<close>: registration of the host's functions, the path of the
  executable, the command line, and the hand-over to the scripts.

  The Lua virtual machine is the parameter \<open>'w vm\<close>: running a chunk or a file, and calling a
  global function in protected mode, over the state of \<open>Host_Fs\<close>. An error raised outside a
  protected call ends the program through Lua's panic handler: \<open>Inl\<close>. Reading past the end of
  a C string or writing past \<open>key[512]\<close> is undefined behaviour: \<open>None\<close>.
\<close>

section \<open>Registered functions\<close>

type_synonym luaL_Reg = "(string \<times> string) list"   \<comment> \<open>Lua name and C function\<close>

definition path_functions :: luaL_Reg where
  "path_functions = [(''isabsolute'', ''path_isabsolute'')]"

definition os_functions :: luaL_Reg where
  "os_functions =
    [(''chdir'', ''os_chdir''), (''chmod'', ''os_chmod''), (''copyfile'', ''os_copyfile''),
     (''_is64bit'', ''os_is64bit''), (''isdir'', ''os_isdir''), (''getcwd'', ''os_getcwd''),
     (''getversion'', ''os_getversion''), (''isfile'', ''os_isfile''), (''matchdone'', ''os_matchdone''),
     (''matchisfile'', ''os_matchisfile''), (''matchname'', ''os_matchname''),
     (''matchnext'', ''os_matchnext''), (''matchstart'', ''os_matchstart''), (''mkdir'', ''os_mkdir''),
     (''pathsearch'', ''os_pathsearch''), (''getSymlinkTarget'', ''os_get_symlink_target''),
     (''rmdir'', ''os_rmdir''), (''stat'', ''os_stat''), (''uuid'', ''os_uuid'')]"

definition string_functions :: luaL_Reg where
  "string_functions =
    [(''startswith'', ''string_startswith''), (''endswith'', ''string_endswith''),
     (''createhash'', ''string_createhash''), (''createhashU'', ''string_createhashU''),
     (''createhashS'', ''string_createhashS'')]"

definition debug_functions :: "bool \<Rightarrow> luaL_Reg" where
  "debug_functions luajit = (if luajit then [] else [(''dotty'', ''lua_dotty'')])"

text \<open>
  \<open>luaL_register\<close>: adds to the library's table, or to a new one when there is none. The table
  is looked up in the globals; \<open>_LOADED\<close>, which the code asks first, holds the same tables
  for the libraries \<open>luaL_openlibs\<close> has opened.
\<close>

definition luaL_register :: "string \<Rightarrow> luaL_Reg \<Rightarrow> 'w host \<Rightarrow> lua_error + 'w host" where
  "luaL_register lib fs h =
     bindE (case globals h lib of
              LTable t \<Rightarrow> Inr t
            | LNil \<Rightarrow> Inr []
            | _ \<Rightarrow> luaL_error (''name conflict for module '' @ quoted lib))
       (\<lambda>t. Inr (lua_setglobal lib (LTable (foldl (\<lambda>t (n, f). table_set t (LStr n) (LFun f)) t fs)) h))"

section \<open>The executable's path\<close>

text \<open>
  What the systems answer: the module's file name on Windows, the bundle's path on macOS, and
  on the others the bytes \<open>readlink\<close> placed in the buffer, which it does not terminate;
  \<open>junk\<close> are the bytes that follow them in memory.
\<close>

record exe_answers =
  exe_module :: "string option"
  exe_bundle :: "string option"
  exe_link1 :: "string option"
  exe_link2 :: "string option"
  junk :: string

definition exe_path :: "platform \<Rightarrow> exe_answers \<Rightarrow> string option" where
  "exe_path p ans =
     (let linked = (\<lambda>l. case l of Some t \<Rightarrow> if length t > 0 then Some (cstr (t @ junk ans)) else None | None \<Rightarrow> None)
      in case p of
           WINDOWS \<Rightarrow> (case exe_module ans of Some t \<Rightarrow> if length t > 0 then Some t else None | None \<Rightarrow> None)
         | MACOSX \<Rightarrow> exe_bundle ans
         | LINUX \<Rightarrow> linked (exe_link1 ans)
         | BSD \<Rightarrow> (case exe_link1 ans of None \<Rightarrow> linked (exe_link2 ans) | Some t \<Rightarrow> linked (Some t))
         | SOLARIS \<Rightarrow> linked (exe_link1 ans)
         | _ \<Rightarrow> None)"

text \<open>\<open>env_path\<close> is \<open>getenv ("PATH")\<close>.\<close>

definition find_premake_executable ::
    "platform \<Rightarrow> 'w osapi \<Rightarrow> lua_conv \<Rightarrow> exe_answers \<Rightarrow> string option \<Rightarrow> string \<Rightarrow> 'w host
      \<Rightarrow> lua_error + lval" where
  "find_premake_executable p os cv ans env_path argv0 h =
     (case exe_path p ans of
        Some path \<Rightarrow> Inr (lua_pushstring (Some path))
      | None \<Rightarrow>
          (case os_pathsearch p os cv [lua_pushstring (Some argv0), lua_pushstring env_path] h of
             Inl e \<Rightarrow> Inr (lua_pushstring None)
           | Inr results \<Rightarrow>
               (let found = (case results of [] \<Rightarrow> LNil | v # _ \<Rightarrow> v) in
                bindE (lua_concat cv [found, LStr ''/'', lua_pushstring (Some argv0)])
                  (\<lambda>v. Inr (lua_pushstring (lua_tolstring cv (Some v)))))))"

section \<open>The command line\<close>

text \<open>\<open>luaL_getn\<close> of a table: the number of consecutive integer keys from 1.\<close>

definition luaL_getn :: "(lval \<times> lval) list \<Rightarrow> nat" where
  "luaL_getn t = length (takeWhile (\<lambda>i. table_get t (LNum (real i)) \<noteq> LNil) [1..<Suc (length t)])"

text \<open>The two tables being filled, the global \<open>_ACTION\<close> and the static \<open>scripts_path\<close>.\<close>

record cmdline =
  options :: "(lval \<times> lval) list"
  args :: "(lval \<times> lval) list"
  action :: "string option"
  scripts_path :: "string option"

text \<open>
  Memory: the buffer \<open>key\<close> is an array of 512 bytes, the argument an array that ends with its terminator.
  \<open>put_at\<close> writes bytes and \<open>string_at\<close> reads the C string from an offset on; outside of the array that
  is undefined.
\<close>

definition put_at :: "nat \<Rightarrow> string \<Rightarrow> string \<Rightarrow> string option" where
  "put_at i s buf =
     (if i + length s \<le> length buf then Some (take i buf @ s @ drop (i + length s) buf) else None)"

definition string_at :: "string \<Rightarrow> nat \<Rightarrow> string option" where
  "string_at mem i = (if NUL \<in> set (drop i mem) then Some (cstr (drop i mem)) else None)"

text \<open>
  The \<open>if\<close> of \<open>process_option\<close>: the buffer with the key, and \<open>value\<close>, an array and an offset into it. The
  bytes of \<open>key\<close> are no terminators before they are written.
\<close>

definition option_split :: "string \<Rightarrow> bool \<Rightarrow> (string \<times> string \<times> nat) option" where
  "option_split arg singleHyphen =
     (let mem = arg @ [NUL]; key = replicate 512 (CHR 0xCD) in
      case strchr arg (CHR ''='') of
        Some ptr \<Rightarrow>
          (let len = (if ptr > 511 then 511 else ptr) in
           Option.bind (put_at 0 (take len mem) key) (\<lambda>key.
           Option.bind (put_at len [NUL] key) (\<lambda>key. Some (key, mem, ptr + 1))))
      | None \<Rightarrow>
          if singleHyphen then
            Option.bind (put_at 0 [mem ! 0] key) (\<lambda>key.
            Option.bind (put_at 1 [NUL] key) (\<lambda>key. Some (key, mem, 1)))
          else
            Option.bind (put_at 0 mem key) (\<lambda>key. Some (key, [NUL], 0)))"

definition process_option :: "string \<Rightarrow> bool \<Rightarrow> cmdline \<Rightarrow> cmdline option" where
  "process_option arg singleHyphen c =
     Option.bind (option_split arg singleHyphen) (\<lambda>(key, mem, i).
     Option.bind (string_at mem i) (\<lambda>value.
     Option.bind (string_at key 0) (\<lambda>key.
       let c = c\<lparr>options := table_set (options c) (LStr key) (LStr value)\<rparr>
       in Some (if key = ''scripts'' \<and> length value > 0 then c\<lparr>scripts_path := Some value\<rparr> else c))))"

definition process_argument :: "string \<Rightarrow> cmdline \<Rightarrow> cmdline option" where
  "process_argument a c =
     (if cnth a 0 = CHR ''/'' then process_option (drop 1 a) False c
      else if cnth a 0 = CHR ''-'' then
        (if cnth a 1 = CHR ''-'' then process_option (drop 2 a) False c
         else process_option (drop 1 a) True c)
      else
        (let c = c\<lparr>args := table_set (args c) (LNum (real (luaL_getn (args c) + 1))) (LStr a)\<rparr>
         in Some (if action c = None then c\<lparr>action := Some a\<rparr> else c)))"

fun argument_loop :: "string list \<Rightarrow> cmdline \<Rightarrow> cmdline option" where
  "argument_loop [] c = Some c"
| "argument_loop (a # as) c = Option.bind (process_argument a c) (argument_loop as)"

text \<open>\<open>process_arguments\<close>: the globals set and the path given by the \<open>scripts\<close> option.\<close>

definition process_arguments :: "string list \<Rightarrow> 'w host \<Rightarrow> ('w host \<times> string option) option" where
  "process_arguments argv h =
     map_option (\<lambda>c.
         (let h = (case action c of Some a \<Rightarrow> lua_setglobal ''_ACTION'' (LStr a) h | None \<Rightarrow> h);
              h = lua_setglobal ''_ARGS'' (LTable (args c)) h
          in (lua_setglobal ''_OPTIONS'' (LTable (options c)) h, scripts_path c)))
       (argument_loop (drop 1 argv) \<lparr>options = [], args = [], action = None, scripts_path = None\<rparr>)"

section \<open>Running the scripts\<close>

text \<open>
  \<open>vm_dostring\<close> and \<open>vm_dofile\<close> return the error value, if any; \<open>vm_pcall\<close> the error value or
  the first result. \<open>vm_print\<close> is \<open>printf ("%s\n", s)\<close>, where \<open>s\<close> is NULL for an error value
  that is not a string. \<open>vm_close\<close> is \<open>lua_close\<close>, which runs the finalizers.
\<close>

record 'w vm =
  vm_dostring :: "string \<Rightarrow> 'w host \<Rightarrow> lval option \<times> 'w host"
  vm_dofile :: "string \<Rightarrow> 'w host \<Rightarrow> lval option \<times> 'w host"
  vm_pcall :: "lval \<Rightarrow> lval list \<Rightarrow> 'w host \<Rightarrow> (lval + lval) \<times> 'w host"
  vm_print :: "string option \<Rightarrow> 'w host \<Rightarrow> 'w host"
  vm_close :: "'w host \<Rightarrow> 'w host"

definition OKAY :: int where "OKAY = 0"

text \<open>
  \<open>(int) lua_tonumber (L, -1)\<close>: 0 when the result is not a number, undefined when it does not fit an \<open>int\<close>.
\<close>

definition exit_value :: "lua_conv \<Rightarrow> lval \<Rightarrow> int option" where
  "exit_value cv v =
     (case lua_tonumber cv (Some v) of
        Some n \<Rightarrow> if - (2 ^ 31) \<le> trunc_real n \<and> trunc_real n < 2 ^ 31 then Some (trunc_real n) else None
      | None \<Rightarrow> Some 0)"

definition report :: "'w vm \<Rightarrow> lua_conv \<Rightarrow> lval \<Rightarrow> 'w host \<Rightarrow> int \<times> 'w host" where
  "report vm cv err h = (1, vm_print vm (map_option cstr (lua_tolstring cv (Some err))) h)"

definition call_main :: "'w vm \<Rightarrow> lua_conv \<Rightarrow> lval list \<Rightarrow> 'w host \<Rightarrow> (int \<times> 'w host) option" where
  "call_main vm cv as h =
     (case vm_pcall vm (globals h ''_premake_main'') as h of
        (Inl err, h') \<Rightarrow> Some (report vm cv err h')
      | (Inr v, h') \<Rightarrow> map_option (\<lambda>z. (z, h')) (exit_value cv v))"

text \<open>The release build: the embedded scripts, in order, then \<open>_premake_main\<close>.\<close>

fun run_scripts :: "'w vm \<Rightarrow> lua_conv \<Rightarrow> string list \<Rightarrow> 'w host \<Rightarrow> (int \<times> 'w host) option" where
  "run_scripts vm cv [] h = call_main vm cv [] h"
| "run_scripts vm cv (s # ss) h =
     (case vm_dostring vm s h of
        (Some err, h') \<Rightarrow> Some (report vm cv err h')
      | (None, h') \<Rightarrow> run_scripts vm cv ss h')"

text \<open>
  The debug build: \<open>_premake_main.lua\<close> is looked up on disk. An error of \<open>os_pathsearch\<close> is
  raised outside a protected call.
\<close>

definition load_from_disk ::
    "platform \<Rightarrow> 'w osapi \<Rightarrow> 'w vm \<Rightarrow> lua_conv \<Rightarrow> string option \<Rightarrow> string option \<Rightarrow> 'w host
      \<Rightarrow> (lua_error + int \<times> 'w host) option" where
  "load_from_disk p os vm cv scripts env h =
     (case os_pathsearch p os cv [LStr ''_premake_main.lua'', lua_pushstring scripts, lua_pushstring env] h of
        Inl e \<Rightarrow> Some (Inl e)
      | Inr r \<Rightarrow>
       (let found = (case r of [] \<Rightarrow> LNil | v # _ \<Rightarrow> v) in
       if lua_isnil (Some found) then
         Some (Inr (1, vm_print vm (Some
           (''Unable to find _premake_main.lua; use /scripts option when in debug mode!'' @ [LF] @
            ''Please refer to the documentation (or build in release mode instead).'')) h))
       else
         (let path = cstr (the (lua_tolstring cv (Some found))) in
          case vm_dofile vm (fmt1 cv [] path ''/_premake_main.lua'') h of
            (Some err, h') \<Rightarrow> Some (Inr (report vm cv err h'))
          | (None, h') \<Rightarrow> map_option Inr (call_main vm cv [LStr path] h'))))"

text \<open>\<open>scripts\<close> is \<open>Some\<close> of the embedded scripts in a release build, \<open>None\<close> in a debug build.\<close>

record 'w program_env =
  pe_platform :: platform
  pe_os :: "'w osapi"
  pe_vm :: "'w vm"
  pe_conv :: lua_conv
  pe_luajit :: bool
  pe_exe :: exe_answers
  pe_getenv :: "string \<Rightarrow> string option"
  pe_builtin :: "string list option"
  pe_lua_copyright :: string

definition VERSION :: string where "VERSION = ''HEAD''"
definition COPYRIGHT :: string where
  "COPYRIGHT = ''Copyright (C) 2002-2012 Jason Perkins and the Premake Project''"

text \<open>The globals \<open>main\<close> sets before it looks at the command line.\<close>

definition program_setup :: "'w program_env \<Rightarrow> string \<Rightarrow> 'w host \<Rightarrow> lua_error + 'w host" where
  "program_setup e argv0 h0 =
     bindE (luaL_register ''path'' path_functions h0) (\<lambda>h.
     bindE (luaL_register ''os'' os_functions h) (\<lambda>h.
     bindE (luaL_register ''string'' string_functions h) (\<lambda>h.
     bindE (luaL_register ''debug'' (debug_functions (pe_luajit e)) h) (\<lambda>h.
     bindE (find_premake_executable (pe_platform e) (pe_os e) (pe_conv e) (pe_exe e) (pe_getenv e ''PATH'') argv0 h)
        (\<lambda>exe.
          let h = lua_setglobal ''_PREMAKE_COMMAND'' exe h;
              h = lua_setglobal ''_COPYRIGHT'' (LStr (pe_lua_copyright e)) h;
              h = lua_setglobal ''_PREMAKE_VERSION'' (LStr VERSION) h;
              h = lua_setglobal ''_PREMAKE_COPYRIGHT'' (LStr COPYRIGHT) h
          in Inr (lua_setglobal ''_OS'' (LStr (PLATFORM_STRING (pe_platform e))) h))))))"

definition main :: "'w program_env \<Rightarrow> string list \<Rightarrow> 'w host \<Rightarrow> (lua_error + (int \<times> 'w host)) option" where
  "main e argv h0 =
     (case program_setup e (hd argv) h0 of
        Inl err \<Rightarrow> Some (Inl err)
      | Inr h \<Rightarrow>
          Option.bind (process_arguments argv h) (\<lambda>(h, scripts).
          Option.bind
             (case pe_builtin e of
                Some ss \<Rightarrow> map_option Inr (run_scripts (pe_vm e) (pe_conv e) ss h)
              | None \<Rightarrow> load_from_disk (pe_platform e) (pe_os e) (pe_vm e) (pe_conv e) scripts (pe_getenv e ''PREMAKE_PATH'') h)
             (\<lambda>r. Some (case r of Inl err \<Rightarrow> Inl err | Inr (z, h) \<Rightarrow> Inr (z, vm_close (pe_vm e) h)))))"

section \<open>Command lines: specification\<close>

text \<open>The text of an option and whether it had a single hyphen; \<open>None\<close> for a plain argument.\<close>

fun arg_class :: "string \<Rightarrow> (string \<times> bool) option" where
  "arg_class [] = None"
| "arg_class (c # r) =
     (if c = CHR ''/'' then Some (r, False)
      else if c = CHR ''-'' then
        (case r of d # r' \<Rightarrow> if d = CHR ''-'' then Some (r', False) else Some (r, True) | [] \<Rightarrow> Some (r, True))
      else None)"

definition key_value :: "string \<times> bool \<Rightarrow> string \<times> string" where
  "key_value o1 =
     (let (r, single) = o1 in
      if CHR ''='' \<in> set r then (takeWhile (\<lambda>c. c \<noteq> CHR ''='') r, tl (dropWhile (\<lambda>c. c \<noteq> CHR ''='') r))
      else if single then ([hd r], tl r) else (r, []))"

text \<open>Arguments on which the C code is defined: shorter than the key buffer, not a lone hyphen.\<close>

definition good_arg :: "string \<Rightarrow> bool" where
  "good_arg a \<longleftrightarrow> length a < 512 \<and> a \<noteq> ''-'' \<and> NUL \<notin> set a"

definition option_values :: "string list \<Rightarrow> (string \<times> string) list" where
  "option_values as = map key_value (List.map_filter arg_class as)"

definition plain_args :: "string list \<Rightarrow> string list" where
  "plain_args as = filter (\<lambda>a. arg_class a = None) as"

definition enum_table :: "string list \<Rightarrow> (lval \<times> lval) list" where
  "enum_table xs = zip (map (\<lambda>i. LNum (real (Suc i))) [0..<length xs]) (map LStr xs)"

fun last_script :: "(string \<times> string) list \<Rightarrow> string option \<Rightarrow> string option" where
  "last_script [] d = d"
| "last_script ((k, v) # kvs) d = last_script kvs (if k = ''scripts'' \<and> v \<noteq> [] then Some v else d)"

definition apply_option :: "cmdline \<Rightarrow> string \<times> string \<Rightarrow> cmdline" where
  "apply_option c kv =
     (let c = c\<lparr>options := table_set (options c) (LStr (fst kv)) (LStr (snd kv))\<rparr>
      in if fst kv = ''scripts'' \<and> snd kv \<noteq> [] then c\<lparr>scripts_path := Some (snd kv)\<rparr> else c)"

lemma split_at:
  "strchr s c = Some n \<Longrightarrow> take n s = takeWhile (\<lambda>x. x \<noteq> c) s \<and> drop (Suc n) s = tl (dropWhile (\<lambda>x. x \<noteq> c) s)"
  by (induction s arbitrary: n) (auto split: if_splits)

lemma cstr_until: "NUL \<notin> set s \<Longrightarrow> cstr (s @ NUL # t) = s"
  unfolding cstr_def by (subst takeWhile_append2) auto

lemma string_at_start: "NUL \<notin> set s \<Longrightarrow> string_at (s @ NUL # t) 0 = Some s"
  by (simp add: string_at_def cstr_until)

lemma string_at_rest: "NUL \<notin> set s \<Longrightarrow> i \<le> length s \<Longrightarrow> string_at (s @ [NUL]) i = Some (drop i s)"
  using cstr_until [of "drop i s" "[]"] in_set_dropD [of NUL i s] by (auto simp: string_at_def)

text \<open>A string of at most 511 bytes put into the key buffer, then its terminator.\<close>

lemma put_key:
  assumes "length s \<le> 511"
  shows "Option.bind (put_at 0 s (replicate 512 (CHR 0xCD))) (\<lambda>key. Option.bind (put_at (length s) [NUL] key) F)
    = F (s @ NUL # replicate (511 - length s) (CHR 0xCD))"
  using assms by (simp add: put_at_def)

lemma key_value_le: "length (fst (key_value (r, single))) \<le> max 1 (length r)"
  using length_takeWhile_le [of _ r] by (auto simp: key_value_def le_max_iff_disj)

text \<open>The whole of \<open>process_option\<close>: when it is defined and what it stores.\<close>

lemma process_option_eq:
  assumes "NUL \<notin> set r"
  shows "process_option r single c =
    (if CHR ''='' \<notin> set r \<and> (if single then r = [] else 512 \<le> length r) then None
     else Some (apply_option c (take 511 (fst (key_value (r, single))), snd (key_value (r, single)))))"
proof (cases "strchr r (CHR ''='')")
  case None
  then have n: "CHR ''='' \<notin> set r" by (simp add: strchr_None)
  show ?thesis
  proof (cases single)
    case True
    show ?thesis
    proof (cases r)
      case Nil
      then show ?thesis
        using True by (simp add: process_option_def option_split_def put_at_def string_at_def)
    next
      case (Cons x xs)
      have "string_at (r @ [NUL]) 1 = Some xs" and x: "NUL \<notin> set [x]"
        using string_at_rest [OF assms, of 1] assms Cons by auto
      moreover have "option_split r single = Some ([x] @ NUL # replicate 510 (CHR 0xCD), r @ [NUL], 1)"
        using put_key [of "[x]" "\<lambda>key. Some (key, r @ [NUL], Suc 0)"] None True Cons by (simp add: option_split_def Let_def)
      ultimately show ?thesis
        using True n Cons string_at_start [OF x]
        by (simp add: process_option_def key_value_def apply_option_def Let_def)
    qed
  next
    case False
    show ?thesis
    proof (cases "length r < 512")
      case True
      then have "option_split r single = Some (r @ NUL # replicate (511 - length r) (CHR 0xCD), [NUL], 0)"
        using None False by (simp add: option_split_def put_at_def)
      moreover have "string_at [NUL] 0 = Some []"
        using string_at_start [of "[]" "[]"] by simp
      ultimately show ?thesis
        using True False n string_at_start [OF assms]
        by (simp add: process_option_def key_value_def apply_option_def Let_def)
    next
      case long: False
      then show ?thesis
        using None False n by (simp add: process_option_def option_split_def put_at_def)
    qed
  qed
next
  case (Some n)
  then have n: "n < length r" "CHR ''='' \<in> set r" by (auto simp: strchr_Some in_set_conv_nth)
  define len where "len = (if n > 511 then 511 else n)"
  have l: "len \<le> 511" "len \<le> length r" "length (take len r) = len" and t: "take len (r @ [NUL]) = take len r"
    using n(1) by (auto simp: len_def)
  have "option_split r single = Some (take len r @ NUL # replicate (511 - len) (CHR 0xCD), r @ [NUL], n + 1)"
    using put_key [of "take len r" "\<lambda>key. Some (key, r @ [NUL], n + 1)"] l Some t
    by (simp add: option_split_def Let_def len_def [symmetric])
  moreover have "string_at (r @ [NUL]) (n + 1) = Some (drop (n + 1) r)"
    by (rule string_at_rest [OF assms]) (use n(1) in simp)
  moreover have "NUL \<notin> set (take len r)"
    using assms by (meson in_set_takeD)
  moreover have "take len r = take 511 (takeWhile (\<lambda>c. c \<noteq> CHR ''='') r)"
    unfolding conjunct1 [OF split_at [OF Some], symmetric] by (simp add: len_def min_def)
  ultimately show ?thesis
    using n split_at [OF Some] string_at_start [of "take len r"]
    by (simp add: process_option_def key_value_def apply_option_def Let_def)
qed

lemma process_option_spec:
  assumes "length r < 512" and "single \<Longrightarrow> r \<noteq> []" and "NUL \<notin> set r"
  shows "process_option r single c = Some (apply_option c (key_value (r, single)))"
proof -
  have "take 511 (fst (key_value (r, single))) = fst (key_value (r, single))"
    using key_value_le [of r single] assms(1) by simp
  then show ?thesis
    using assms by (auto simp: process_option_eq)
qed

lemma process_argument_option:
  assumes "good_arg a" and "arg_class a = Some (r, single)"
  shows "process_argument a c = Some (apply_option c (key_value (r, single)))"
proof -
  from assms have l: "length r < 512" and s: "single \<Longrightarrow> r \<noteq> []" and u: "NUL \<notin> set r"
    by (cases a; auto simp: good_arg_def split: if_splits list.splits)+
  from assms(2) have "process_argument a c = process_option r single c"
    by (cases a) (auto simp: process_argument_def cnth_def split: if_splits list.splits)
  then show ?thesis using process_option_spec [OF l s u] by simp
qed

lemma arg_class_None:
  "arg_class a = None \<longleftrightarrow> cnth a 0 \<noteq> CHR ''/'' \<and> cnth a 0 \<noteq> CHR ''-''"
  by (cases a) (auto simp: cnth_def split: list.splits)

lemma table_set_new: "k \<notin> fst ` set t \<Longrightarrow> table_set t k v = t @ [(k, v)]"
  by (induction t k v rule: table_set.induct) auto

lemma enum_table_get:
  assumes "i < length xs"
  shows "table_get (enum_table xs) (LNum (real (Suc i))) = LStr (xs ! i)"
proof -
  let ?ks = "map (\<lambda>i. LNum (real (Suc i))) [0..<length xs]"
  have d: "distinct ?ks" by (simp add: distinct_map inj_on_def)
  have "map_of (zip ?ks (map LStr xs)) (?ks ! i) = Some (map LStr xs ! i)"
    by (intro map_of_zip_nth) (use d assms in simp_all)
  with assms show ?thesis by (simp add: enum_table_def table_get_def)
qed

lemma luaL_getn_enum: "luaL_getn (enum_table xs) = length xs"
proof -
  have l: "length (enum_table xs) = length xs" by (simp add: enum_table_def)
  have "table_get (enum_table xs) (LNum (real i)) \<noteq> LNil" if "i \<in> set [1..<Suc (length xs)]" for i
    using enum_table_get [of "i - 1" xs] that by (cases i) auto
  then have "takeWhile (\<lambda>i. table_get (enum_table xs) (LNum (real i)) \<noteq> LNil) [1..<Suc (length xs)] = [1..<Suc (length xs)]"
    by (intro takeWhile_all) blast
  then show ?thesis by (simp only: luaL_getn_def l length_upt)
qed

lemma enum_table_snoc:
  "table_set (enum_table xs) (LNum (real (luaL_getn (enum_table xs) + 1))) (LStr a) = enum_table (xs @ [a])"
proof -
  have "LNum (real (length xs + 1)) \<notin> fst ` set (enum_table xs)"
    by (auto simp: enum_table_def set_zip)
  from table_set_new [OF this] show ?thesis
    by (simp only: luaL_getn_enum) (simp add: enum_table_def)
qed

definition option_table :: "(string \<times> string) list \<Rightarrow> (lval \<times> lval) list \<Rightarrow> (lval \<times> lval) list" where
  "option_table kvs t = foldl (\<lambda>t kv. table_set t (LStr (fst kv)) (LStr (snd kv))) t kvs"

lemma option_table_Cons:
  "option_table (kv # kvs) t = option_table kvs (table_set t (LStr (fst kv)) (LStr (snd kv)))"
  by (simp add: option_table_def)

lemma option_table_get:
  "table_get (option_table kvs t) (LStr k)
    = (case map_of (rev kvs) k of Some v \<Rightarrow> LStr v | None \<Rightarrow> table_get t (LStr k))"
  by (induction kvs arbitrary: t)
    (auto simp: option_table_def table_get_set map_add_def split: option.splits)

lemma apply_option_options [simp]:
  "options (apply_option c kv) = table_set (options c) (LStr (fst kv)) (LStr (snd kv))"
  "scripts_path (apply_option c kv)
    = (if fst kv = ''scripts'' \<and> snd kv \<noteq> [] then Some (snd kv) else scripts_path c)"
  by (simp_all add: apply_option_def Let_def)

lemma apply_option_frame [simp]:
  "args (apply_option c kv) = args c" "action (apply_option c kv) = action c"
  by (simp_all add: apply_option_def Let_def)

lemma argument_loop_spec:
  "list_all good_arg as \<Longrightarrow> args c = enum_table xs \<Longrightarrow>
   \<exists>c'. argument_loop as c = Some c'
      \<and> options c' = option_table (option_values as) (options c)
      \<and> args c' = enum_table (xs @ plain_args as)
      \<and> action c' = (case action c of Some a \<Rightarrow> Some a
                     | None \<Rightarrow> (case plain_args as of [] \<Rightarrow> None | a # _ \<Rightarrow> Some a))
      \<and> scripts_path c' = last_script (option_values as) (scripts_path c)"
proof (induction as arbitrary: c xs)
  case Nil
  then show ?case by (simp add: option_values_def plain_args_def map_filter_simps option_table_def split: option.split)
next
  case (Cons a as)
  from Cons.prems have g: "good_arg a" "list_all good_arg as" by simp_all
  show ?case
  proof (cases "arg_class a")
    case (Some rs)
    then obtain r single where rs: "arg_class a = Some (r, single)" by (cases rs) auto
    have e: "option_values (a # as) = key_value (r, single) # option_values as"
      "plain_args (a # as) = plain_args as"
      using rs by (simp_all add: option_values_def plain_args_def map_filter_simps)
    have l: "last_script (kv # kvs) d = last_script kvs (if fst kv = ''scripts'' \<and> snd kv \<noteq> [] then Some (snd kv) else d)"
      for kv kvs d by (cases kv) simp
    from Cons.IH [of "apply_option c (key_value (r, single))" xs] g Cons.prems(2)
    show ?thesis
      using process_argument_option [OF g(1) rs, of c] unfolding e
      by (simp add: option_table_Cons l)
  next
    case None
    let ?c = "(if action c = None then c\<lparr>args := enum_table (xs @ [a]), action := Some a\<rparr>
               else c\<lparr>args := enum_table (xs @ [a])\<rparr>)"
    have p: "process_argument a c = Some ?c"
      using None enum_table_snoc [of xs a] Cons.prems(2)
      by (simp add: process_argument_def arg_class_None Let_def)
    have e: "option_values (a # as) = option_values as" "plain_args (a # as) = a # plain_args as"
      using None by (simp_all add: option_values_def plain_args_def map_filter_simps)
    from Cons.IH [of ?c "xs @ [a]"] g(2) p show ?thesis
      unfolding e by (cases "action c") simp_all
  qed
qed

section \<open>Properties\<close>

text \<open>
  C33. The command line: when every argument is shorter than 512 bytes and none is a lone
  hyphen, \<open>process_arguments\<close> is defined and sets \<open>_ARGS\<close> to the arguments that start with
  neither a slash nor a hyphen, numbered from 1 in order, \<open>_ACTION\<close> to the first of them (or
  leaves it alone), every entry of \<open>_OPTIONS\<close> to the last value given for its key, and the
  script path to the last non-empty \<open>scripts\<close> option; no other global changes.
\<close>

theorem arguments_parsed:
  assumes "list_all good_arg as"
  shows "\<exists>h' t. process_arguments (cmd # as) h = Some (h', last_script (option_values as) None)
    \<and> globals h' ''_ARGS'' = LTable (enum_table (plain_args as))
    \<and> globals h' ''_ACTION'' = (case plain_args as of [] \<Rightarrow> globals h ''_ACTION'' | a # _ \<Rightarrow> LStr a)
    \<and> globals h' ''_OPTIONS'' = LTable t
    \<and> (\<forall>k. table_get t (LStr k)
          = (case map_of (rev (option_values as)) k of Some v \<Rightarrow> LStr v | None \<Rightarrow> LNil))
    \<and> (\<forall>g. g \<notin> {''_ARGS'', ''_ACTION'', ''_OPTIONS''} \<longrightarrow> globals h' g = globals h g)
    \<and> world h' = world h"
proof -
  let ?c = "\<lparr>options = [], args = [], action = None, scripts_path = None\<rparr>"
  from argument_loop_spec [OF assms, of ?c "[]"] obtain c' where
    c: "argument_loop as ?c = Some c'" "options c' = option_table (option_values as) []"
      "args c' = enum_table (plain_args as)"
      "action c' = (case plain_args as of [] \<Rightarrow> None | a # _ \<Rightarrow> Some a)"
      "scripts_path c' = last_script (option_values as) None"
    by (auto simp: enum_table_def)
  have g: "table_get (options c') (LStr k)
      = (case map_of (rev (option_values as)) k of Some v \<Rightarrow> LStr v | None \<Rightarrow> LNil)" for k
    by (simp add: c(2) option_table_get) (simp add: table_get_def split: option.split)
  show ?thesis
    using c(1) by (simp add: process_arguments_def lua_setglobal_def g c(3-5) split: list.split option.split)
qed

theorem arguments_parsed_witness:
  "\<exists>h'. process_arguments [''premake4'', ''--os=linux'', ''gmake'', ''-v'', ''/scripts=src'', ''x''] empty_host
      = Some (h', Some ''src'')
    \<and> globals h' ''_ACTION'' = LStr ''gmake''"
  using arguments_parsed [of "[''--os=linux'', ''gmake'', ''-v'', ''/scripts=src'', ''x'']" "''premake4''" empty_host]
  by (auto simp: good_arg_def option_values_def plain_args_def map_filter_simps key_value_def)

text \<open>
  C38. Parsing one option in memory, for any argument string: the writes to the 512-byte key buffer and the
  reads of the argument are all inside their arrays exactly when there is an equals sign, or a single hyphen
  followed by something, or the option is shorter than the buffer; then the key, cut to 511 bytes, is stored
  with its value, and \<open>scripts\<close> sets the script path. In every other case the behaviour is undefined: the
  buffer is overrun or the terminator is passed.
\<close>

theorem option_memory_safety:
  assumes "NUL \<notin> set arg"
  shows "process_option arg single c =
    (if CHR ''='' \<notin> set arg \<and> (if single then arg = [] else 512 \<le> length arg) then None
     else Some (apply_option c (take 511 (fst (key_value (arg, single))), snd (key_value (arg, single)))))"
  by (rule process_option_eq [OF assms])

theorem option_memory_safety_witness:
  "process_option (replicate 512 (CHR ''a'')) False
     \<lparr>options = [], args = [], action = None, scripts_path = None\<rparr> = None"
  using option_memory_safety [of "replicate 512 (CHR ''a'')" False "\<lparr>options = [], args = [], action = None, scripts_path = None\<rparr>"]
  by (simp del: replicate.simps)

text \<open>The scripts \<open>ss\<close> all load, taking the state from \<open>h\<close> to \<open>h'\<close>.\<close>

inductive loads :: "'w vm \<Rightarrow> string list \<Rightarrow> 'w host \<Rightarrow> 'w host \<Rightarrow> bool" for vm where
  loads_Nil: "loads vm [] h h"
| loads_Cons: "vm_dostring vm s h = (None, h1) \<Longrightarrow> loads vm ss h1 h2 \<Longrightarrow> loads vm (s # ss) h h2"

lemma run_scripts_append:
  "loads vm pre h h1 \<Longrightarrow> run_scripts vm cv (pre @ post) h = run_scripts vm cv post h1"
  by (induction rule: loads.induct) simp_all

text \<open>
  C34. The exit status of a release build: once the globals are set up and the command line is
  processed, the embedded scripts run in order; the first one that fails ends the program with
  status 1 after its message is printed, and neither the later scripts nor \<open>_premake_main\<close>
  run; when all load, the status is the integer \<open>_premake_main\<close> returns (0 for no number; undefined
  when it does not fit an \<open>int\<close>), or 1 when it raises. Lua is closed in each case.
\<close>

theorem exit_status:
  assumes "program_setup e (hd argv) h0 = Inr h1" and "process_arguments argv h1 = Some (h2, sp)"
    and "pe_builtin e = Some (pre @ post)" and "loads (pe_vm e) pre h2 h3"
    and "post = [] \<or> (\<exists>s r. post = s # r \<and> vm_dostring (pe_vm e) s h3 = (Some err, h4))"
  shows "main e argv h0 = map_option (\<lambda>(z, h). Inr (z, vm_close (pe_vm e) h))
    (if post = [] then
       (case vm_pcall (pe_vm e) (globals h3 ''_premake_main'') [] h3 of
          (Inr v, h5) \<Rightarrow>
            (case lua_tonumber (pe_conv e) (Some v) of
               Some n \<Rightarrow> if trunc_real n \<in> {- (2 ^ 31)..<2 ^ 31} then Some (trunc_real n, h5) else None
             | None \<Rightarrow> Some (0, h5))
        | (Inl er, h5) \<Rightarrow> Some (1, vm_print (pe_vm e) (map_option cstr (lua_tolstring (pe_conv e) (Some er))) h5))
     else Some (1, vm_print (pe_vm e) (map_option cstr (lua_tolstring (pe_conv e) (Some err))) h4))"
  using assms(5)
  by (auto simp: main_def assms(1-3) run_scripts_append [OF assms(4)] call_main_def report_def exit_value_def
      split: sum.split prod.split option.split)

definition sample_env :: "nat program_env" where
  "sample_env = \<lparr>pe_platform = LINUX, pe_os = failing_os,
     pe_vm = \<lparr>vm_dostring = (\<lambda>_ h. (None, h)), vm_dofile = (\<lambda>_ h. (None, h)),
              vm_pcall = (\<lambda>_ _ h. (Inr (LNum 3), h)), vm_print = (\<lambda>_ h. h), vm_close = (\<lambda>h. h)\<rparr>,
     pe_conv = plain_conv, pe_luajit = False,
     pe_exe = \<lparr>exe_module = None, exe_bundle = None, exe_link1 = Some ''/bin/premake4'', exe_link2 = None, junk = [NUL]\<rparr>,
     pe_getenv = (\<lambda>_. None), pe_builtin = Some [''a'', ''b''], pe_lua_copyright = ''Lua''\<rparr>"

theorem exit_status_witness:
  "\<exists>h. main sample_env [''premake4'', ''gmake''] empty_host = Some (Inr (3, h))"
proof -
  obtain h1 where s: "program_setup sample_env ''premake4'' empty_host = Inr h1"
    by (simp add: program_setup_def luaL_register_def lua_setglobal_def empty_host_def
        find_premake_executable_def exe_path_def sample_env_def)
  obtain h2 sp where p: "process_arguments [''premake4'', ''gmake''] h1 = Some (h2, sp)"
    by (simp add: process_arguments_def process_argument_def cnth_def)
  have l: "loads (pe_vm sample_env) [''a'', ''b''] h2 h2"
  proof (intro loads_Cons)
    show "vm_dostring (pe_vm sample_env) s h2 = (None, h2)" for s by (simp add: sample_env_def)
    then show "vm_dostring (pe_vm sample_env) ''b'' h2 = (None, h2)" .
    show "loads (pe_vm sample_env) [] h2 h2" by (rule loads_Nil)
  qed
  from exit_status [OF _ p _ l, of empty_host "[]"] s show ?thesis
    by (simp add: sample_env_def)
qed

end
