(* ===== verification/Timeout.thy ===== *)
theory Timeout
  imports Lua_Api
begin

text \<open>
  Timeouts of the socket library, \<open>lib/src/timeout.c\<close>. A \<open>t_timeout\<close> limits one system call
  (\<open>block\<close>) and one whole operation (\<open>total\<close>, counted from \<open>start\<close>); a negative value is no
  limit. The clock is an argument: \<open>now\<close> is what \<open>timeout_gettime\<close> returns at that point.
\<close>

section \<open>The code\<close>

record t_timeout =
  block :: real
  total :: real
  start :: real

text \<open>The fields not given are those of freshly allocated memory.\<close>

definition timeout_init :: "real \<Rightarrow> real \<Rightarrow> t_timeout \<Rightarrow> t_timeout" where
  "timeout_init b t tm = tm\<lparr>block := b, total := t\<rparr>"

definition timeout_get :: "t_timeout \<Rightarrow> real \<Rightarrow> real" where
  "timeout_get tm now =
     (if block tm < 0 \<and> total tm < 0 then - 1
      else if block tm < 0 then (let t = total tm - now + start tm in max t 0)
      else if total tm < 0 then block tm
      else (let t = total tm - now + start tm in min (block tm) (max t 0)))"

definition timeout_getstart :: "t_timeout \<Rightarrow> real" where
  "timeout_getstart tm = start tm"

definition timeout_getretry :: "t_timeout \<Rightarrow> real \<Rightarrow> real" where
  "timeout_getretry tm now =
     (if block tm < 0 \<and> total tm < 0 then - 1
      else if block tm < 0 then (let t = total tm - now + start tm in max t 0)
      else if total tm < 0 then (let t = block tm - now + start tm in max t 0)
      else (let t = total tm - now + start tm in min (block tm) (max t 0)))"

definition timeout_markstart :: "real \<Rightarrow> t_timeout \<Rightarrow> t_timeout" where
  "timeout_markstart now tm = tm\<lparr>start := now\<rparr>"

definition timeout_iszero :: "t_timeout \<Rightarrow> bool" where
  "timeout_iszero tm \<longleftrightarrow> block tm = 0"

text \<open>\<open>timeout_gettime\<close> from \<open>gettimeofday\<close>, and from the two halves of a Windows file time.\<close>

definition timeout_gettime :: "int \<times> int \<Rightarrow> real" where
  "timeout_gettime v = (case v of (tv_sec, tv_usec) \<Rightarrow> of_int tv_sec + of_int tv_usec / 1000000)"

definition timeout_gettime_win :: "nat \<times> nat \<Rightarrow> real" where
  "timeout_gettime_win ft =
     (case ft of (dwLowDateTime, dwHighDateTime) \<Rightarrow>
        (let t = real dwLowDateTime / 10000000 + real dwHighDateTime * (4294967296 / 10000000)
         in t - 11644473600))"

definition timeout_lua_gettime :: "real \<Rightarrow> lua_results" where
  "timeout_lua_gettime now = Inr [LNum now]"

definition timeout_meth_settimeout :: "lua_conv \<Rightarrow> lval list \<Rightarrow> t_timeout \<Rightarrow> lua_results \<times> t_timeout" where
  "timeout_meth_settimeout cv args tm =
     (case bindE (luaL_optnumber cv args 2 (- 1)) (\<lambda>t.
           bindE (luaL_optstring cv args 3 (Some ''b'')) (\<lambda>m. Inr (t, the m))) of
        Inl e \<Rightarrow> (Inl e, tm)
      | Inr (t, mode) \<Rightarrow>
          (if cnth mode 0 = CHR ''b'' then (Inr [LNum 1], tm\<lparr>block := t\<rparr>)
           else if cnth mode 0 = CHR ''r'' \<or> cnth mode 0 = CHR ''t'' then (Inr [LNum 1], tm\<lparr>total := t\<rparr>)
           else (luaL_argerror 3 ''invalid timeout mode'', tm)))"

text \<open>
  \<open>timeout_lua_sleep\<close>: the requests made of \<open>nanosleep\<close>, in seconds and nanoseconds. A
  request that is interrupted leaves the remainder, which is requested next.
\<close>

fun nanosleep_loop :: "int \<times> int \<Rightarrow> (int \<times> int) list \<Rightarrow> (int \<times> int) list" where
  "nanosleep_loop t [] = [t]"
| "nanosleep_loop t (r # rs) = t # nanosleep_loop r rs"

definition timeout_lua_sleep ::
    "lua_conv \<Rightarrow> (int \<times> int) list \<Rightarrow> lval list \<Rightarrow> lua_error + (int \<times> int) list" where
  "timeout_lua_sleep cv interruptions args =
     bindE (luaL_checknumber cv args 1) (\<lambda>n.
       let tv_sec = trunc_real n;
           n = n - of_int tv_sec;
           tv_nsec = trunc_real (n * 1000000000);
           tv_nsec = (if 1000000000 \<le> tv_nsec then 999999999 else tv_nsec)
       in Inr (nanosleep_loop (tv_sec, tv_nsec) interruptions))"

section \<open>Properties\<close>

text \<open>
  The time a system call may still take: \<open>timeout_getretry\<close> is -1 exactly when neither
  limit is set; otherwise it is not negative, it never lets the operation pass its total
  deadline, it is at most the block limit (as soon as the clock has reached the start), and it
  never grows as time passes.
\<close>

theorem timeout_getretry_bounds:
  assumes "start tm \<le> now" and "now \<le> later"
  shows "(timeout_getretry tm now < 0 \<longleftrightarrow> block tm < 0 \<and> total tm < 0)
    \<and> (0 \<le> total tm \<longrightarrow> now + timeout_getretry tm now \<le> max now (start tm + total tm))
    \<and> (0 \<le> block tm \<longrightarrow> timeout_getretry tm now \<le> block tm)
    \<and> timeout_getretry tm later \<le> timeout_getretry tm now"
  using assms by (auto simp: timeout_getretry_def Let_def max_def min_def)

end
