(* ===== verification/Io.thy ===== *)
theory Io
  imports Timeout
begin

text \<open>
  The I/O abstraction of the socket library, \<open>lib/src/io.c\<close> and \<open>io.h\<close>: a driver is a pair of
  functions on a context plus an error message function. The context \<open>'c\<close> stands for whatever
  \<open>ctx\<close> points at, together with the state of the system; a driver function that has not
  returned is \<open>None\<close>. The locale \<open>io_driver\<close> is the contract the buffer relies on.
\<close>

section \<open>Drivers\<close>

abbreviation (input) IO_DONE :: int where "IO_DONE \<equiv> 0"
abbreviation (input) IO_TIMEOUT :: int where "IO_TIMEOUT \<equiv> - 1"
abbreviation (input) IO_CLOSED :: int where "IO_CLOSED \<equiv> - 2"
abbreviation (input) IO_UNKNOWN :: int where "IO_UNKNOWN \<equiv> - 3"

definition io_strerror :: "int \<Rightarrow> string option" where
  "io_strerror err =
     (if err = IO_DONE then None
      else if err = IO_CLOSED then Some ''closed''
      else if err = IO_TIMEOUT then Some ''timeout''
      else Some ''unknown error'')"

text \<open>\<open>io_send\<close> returns the error and \<open>*sent\<close>, \<open>io_recv\<close> the error and the bytes placed.\<close>

record 'c t_io =
  io_send :: "string \<Rightarrow> t_timeout \<Rightarrow> 'c \<Rightarrow> ((int \<times> nat) \<times> 'c) option"
  io_recv :: "nat \<Rightarrow> t_timeout \<Rightarrow> 'c \<Rightarrow> ((int \<times> string) \<times> 'c) option"
  io_error :: "int \<Rightarrow> 'c \<Rightarrow> string option"

definition io_init ::
    "(string \<Rightarrow> t_timeout \<Rightarrow> 'c \<Rightarrow> ((int \<times> nat) \<times> 'c) option) \<Rightarrow> (nat \<Rightarrow> t_timeout \<Rightarrow> 'c \<Rightarrow> ((int \<times> string) \<times> 'c) option)
      \<Rightarrow> (int \<Rightarrow> 'c \<Rightarrow> string option) \<Rightarrow> 'c t_io" where
  "io_init send recv error = \<lparr>io_send = send, io_recv = recv, io_error = error\<rparr>"

section \<open>The contract\<close>

text \<open>
  \<open>delivered\<close> and \<open>accepted\<close> are the bytes the driver has handed out and taken so far. A
  call moves bytes exactly when it reports success, and each success uses up some of the
  system's future (\<open>budget\<close>), so no loop over successful calls is endless.
\<close>

locale io_driver =
  fixes io :: "'c t_io"
    and delivered :: "'c \<Rightarrow> string"
    and accepted :: "'c \<Rightarrow> string"
    and budget :: "'c \<Rightarrow> nat"
  assumes recv_law: "io_recv io n tm c = Some ((err, d), c') \<Longrightarrow>
      delivered c' = delivered c @ d \<and> accepted c' = accepted c
      \<and> (if err = IO_DONE then d \<noteq> [] \<and> length d \<le> n \<and> budget c' < budget c else d = [])"
    and send_law: "io_send io s tm c = Some ((err, k), c') \<Longrightarrow>
      accepted c' = accepted c @ take k s \<and> delivered c' = delivered c
      \<and> (if err = IO_DONE then 0 < k \<and> k \<le> length s \<and> budget c' < budget c else k = 0)"

section \<open>Loops with fuel\<close>

text \<open>The body yields \<open>None\<close> to go on and \<open>Some a\<close> to stop with \<open>a\<close>.\<close>

fun repeatF :: "nat \<Rightarrow> ('s \<Rightarrow> ('a option \<times> 's) option) \<Rightarrow> 's \<Rightarrow> ('a \<times> 's) option" where
  "repeatF 0 body s = None"
| "repeatF (Suc n) body s =
     (case body s of
        None \<Rightarrow> None
      | Some (Some a, s') \<Rightarrow> Some (a, s')
      | Some (None, s') \<Rightarrow> repeatF n body s')"

lemma repeatF_numeral:
  "repeatF (numeral k) body s =
     (case body s of
        None \<Rightarrow> None
      | Some (Some a, s') \<Rightarrow> Some (a, s')
      | Some (None, s') \<Rightarrow> repeatF (pred_numeral k) body s')"
  by (simp add: numeral_eq_Suc)

lemma repeatF_rule:
  assumes "repeatF n body s = Some (a, s')" and "I s"
    and cont: "\<And>s s1. I s \<Longrightarrow> body s = Some (None, s1) \<Longrightarrow> I s1"
    and stop: "\<And>s s1 a. I s \<Longrightarrow> body s = Some (Some a, s1) \<Longrightarrow> Q a s1"
  shows "Q a s'"
  using assms(1,2)
proof (induction n arbitrary: s)
  case 0
  then show ?case by simp
next
  case (Suc n)
  then obtain r s1 where b: "body s = Some (r, s1)" by (auto split: option.splits)
  show ?case
  proof (cases r)
    case None
    with Suc b cont show ?thesis by simp
  next
    case (Some x)
    with Suc.prems b stop show ?thesis by auto
  qed
qed

text \<open>More fuel than the measure of the start makes no difference: the fuel is never what ends a loop.\<close>

lemma repeatF_enough:
  assumes dec: "\<And>s s1. I s \<Longrightarrow> body s = Some (None, s1) \<Longrightarrow> I s1 \<and> \<mu> s1 < (\<mu> s :: nat)"
  shows "I s \<Longrightarrow> \<mu> s < n \<Longrightarrow> n \<le> m \<Longrightarrow> repeatF m body s = repeatF n body s"
proof (induction n arbitrary: m s)
  case 0
  then show ?case by simp
next
  case (Suc n)
  then obtain m' where m: "m = Suc m'" by (cases m) auto
  have "repeatF m' body s1 = repeatF n body s1" if "body s = Some (None, s1)" for s1
    using Suc.IH [of s1 m'] dec [OF Suc.prems(1) that] Suc.prems m by simp
  then show ?case using m by (auto split: option.splits)
qed

end
