(* ===== verification/Buffer.thy ===== *)
theory Buffer
  imports Io
begin

text \<open>
  Buffered input and unbuffered output on a driver, \<open>lib/src/buffer.c\<close>: what \<open>send\<close>,
  \<open>receive\<close>, \<open>getstats\<close> and \<open>setstats\<close> of a connected socket do.

  The buffer keeps the bytes the driver delivered beyond what a pattern needed, in the array
  \<open>b_data\<close> of \<open>BUF_SIZE\<close> bytes between \<open>b_first\<close> and \<open>b_last\<close>. Results are collected in a
  \<open>luaL_Buffer\<close>, here the string appended to (see \<open>Lua_Buffer\<close>). The loops have fuel;
  \<open>recv_fuel_enough\<close> and \<open>send_fuel_enough\<close> show that fuel beyond the driver's budget never
  matters, so \<open>None\<close> only means that the driver has not returned.
\<close>

section \<open>The state\<close>

definition BUF_SIZE :: nat where "BUF_SIZE = 8192"
definition STEPSIZE :: nat where "STEPSIZE = 8192"

record t_buffer =
  birthday :: real
  b_sent :: int
  b_received :: int
  b_first :: nat
  b_last :: nat
  b_data :: string

text \<open>\<open>buffer_init\<close>; the array is the uninitialised memory \<open>mem\<close>.\<close>

definition buffer_init :: "real \<Rightarrow> string \<Rightarrow> t_buffer" where
  "buffer_init now mem =
     \<lparr>birthday = now, b_sent = 0, b_received = 0, b_first = 0, b_last = 0, b_data = mem\<rparr>"

definition buffer_isempty :: "t_buffer \<Rightarrow> bool" where
  "buffer_isempty buf \<longleftrightarrow> b_last buf \<le> b_first buf"

section \<open>The read buffer\<close>

definition buffer_skip :: "nat \<Rightarrow> t_buffer \<Rightarrow> t_buffer" where
  "buffer_skip count buf =
     (let buf = buf\<lparr>b_received := b_received buf + int count, b_first := b_first buf + count\<rparr>
      in if buffer_isempty buf then buf\<lparr>b_first := 0, b_last := 0\<rparr> else buf)"

text \<open>The error, and the bytes at \<open>*data\<close>, \<open>*count\<close> of them.\<close>

definition buffer_get ::
    "'c t_io \<Rightarrow> t_timeout \<Rightarrow> t_buffer \<Rightarrow> 'c \<Rightarrow> ((int \<times> string) \<times> t_buffer \<times> 'c) option" where
  "buffer_get io tm buf c =
     (let view = (\<lambda>b. take (b_last b - b_first b) (drop (b_first b) (b_data b))) in
      if buffer_isempty buf then
        (case io_recv io BUF_SIZE tm c of
           None \<Rightarrow> None
         | Some ((err, got), c') \<Rightarrow>
             (let buf = buf\<lparr>b_data := got @ drop (length got) (b_data buf), b_first := 0, b_last := length got\<rparr>
              in Some ((err, view buf), buf, c')))
      else Some ((IO_DONE, view buf), buf, c))"

type_synonym 'c recv_state = "string \<times> t_buffer \<times> 'c"   \<comment> \<open>result so far, buffer, context\<close>

section \<open>Patterns\<close>

text \<open>A fixed number of bytes: the result so far started at length \<open>base\<close>; \<open>tot\<close> is what was added.\<close>

definition recvraw_body ::
    "'c t_io \<Rightarrow> t_timeout \<Rightarrow> nat \<Rightarrow> nat \<Rightarrow> 'c recv_state \<Rightarrow> (int option \<times> 'c recv_state) option" where
  "recvraw_body io tm base wanted s =
     (case s of (acc, buf, c) \<Rightarrow>
        (case buffer_get io tm buf c of
           None \<Rightarrow> None
         | Some ((err, data), buf, c) \<Rightarrow>
             (let tot = length acc - base;
                  count = min (length data) (wanted - tot);
                  acc = acc @ take count data;
                  buf = buffer_skip count buf
              in Some (if wanted \<le> tot + count \<or> err \<noteq> IO_DONE then Some err else None, acc, buf, c))))"

definition recvraw :: "nat \<Rightarrow> 'c t_io \<Rightarrow> t_timeout \<Rightarrow> nat \<Rightarrow> 'c recv_state \<Rightarrow> (int \<times> 'c recv_state) option" where
  "recvraw fuel io tm wanted s = repeatF fuel (recvraw_body io tm (length (fst s)) wanted) s"

text \<open>Everything until the connection is closed.\<close>

definition recvall_body ::
    "'c t_io \<Rightarrow> t_timeout \<Rightarrow> 'c recv_state \<Rightarrow> (int option \<times> 'c recv_state) option" where
  "recvall_body io tm s =
     (case s of (acc, buf, c) \<Rightarrow>
        (case buffer_get io tm buf c of
           None \<Rightarrow> None
         | Some ((err, data), buf, c) \<Rightarrow>
             Some (if err \<noteq> IO_DONE then Some err else None,
                   acc @ data, buffer_skip (length data) buf, c)))"

definition recvall :: "nat \<Rightarrow> 'c t_io \<Rightarrow> t_timeout \<Rightarrow> 'c recv_state \<Rightarrow> (int \<times> 'c recv_state) option" where
  "recvall fuel io tm s =
     (case repeatF fuel (recvall_body io tm) s of
        None \<Rightarrow> None
      | Some (err, acc, buf, c) \<Rightarrow>
          (let tot = length acc - length (fst s) in
           Some (if err = IO_CLOSED then (if tot > 0 then IO_DONE else IO_CLOSED) else err, acc, buf, c)))"

text \<open>The scan of \<open>recvline\<close>: the position of the line feed (or the end) and the bytes kept.\<close>

fun scan_line :: "string \<Rightarrow> nat \<times> string" where
  "scan_line [] = (0, [])"
| "scan_line (ch # data) =
     (if ch = LF then (0, [])
      else (let (pos, kept) = scan_line data in (Suc pos, if ch = CR then kept else ch # kept)))"

definition recvline_body ::
    "'c t_io \<Rightarrow> t_timeout \<Rightarrow> 'c recv_state \<Rightarrow> (int option \<times> 'c recv_state) option" where
  "recvline_body io tm s =
     (case s of (acc, buf, c) \<Rightarrow>
        (case buffer_get io tm buf c of
           None \<Rightarrow> None
         | Some ((err, data), buf, c) \<Rightarrow>
             (let (pos, kept) = scan_line data; acc = acc @ kept in
              if pos < length data then Some (Some err, acc, buffer_skip (pos + 1) buf, c)
              else Some (if err \<noteq> IO_DONE then Some err else None, acc, buffer_skip pos buf, c))))"

definition recvline :: "nat \<Rightarrow> 'c t_io \<Rightarrow> t_timeout \<Rightarrow> 'c recv_state \<Rightarrow> (int \<times> 'c recv_state) option" where
  "recvline fuel io tm s = repeatF fuel (recvline_body io tm) s"

section \<open>Sending\<close>

definition sendraw_body ::
    "'c t_io \<Rightarrow> t_timeout \<Rightarrow> string \<Rightarrow> nat \<times> 'c \<Rightarrow> (int option \<times> nat \<times> 'c) option" where
  "sendraw_body io tm data s =
     (case s of (tot, c) \<Rightarrow>
        if tot < length data then
          (let step = (if length data - tot \<le> STEPSIZE then length data - tot else STEPSIZE) in
           case io_send io (take step (drop tot data)) tm c of
             None \<Rightarrow> None
           | Some ((err, k), c') \<Rightarrow> Some (if err \<noteq> IO_DONE then Some err else None, tot + k, c'))
        else Some (Some IO_DONE, tot, c))"

text \<open>The error, \<open>*sent\<close>, the buffer and the context.\<close>

definition sendraw ::
    "nat \<Rightarrow> 'c t_io \<Rightarrow> t_timeout \<Rightarrow> string \<Rightarrow> t_buffer \<Rightarrow> 'c \<Rightarrow> ((int \<times> nat) \<times> t_buffer \<times> 'c) option" where
  "sendraw fuel io tm data buf c =
     (case repeatF fuel (sendraw_body io tm data) (0, c) of
        None \<Rightarrow> None
      | Some (err, tot, c') \<Rightarrow> Some ((err, tot), buf\<lparr>b_sent := b_sent buf + int tot\<rparr>, c'))"

section \<open>The methods\<close>

type_synonym 'c method_result = "(lua_results \<times> t_buffer \<times> t_timeout \<times> 'c) option"

definition buffer_meth_getstats :: "real \<Rightarrow> t_buffer \<Rightarrow> lua_results" where
  "buffer_meth_getstats now buf =
     Inr [LNum (of_int (b_received buf)), LNum (of_int (b_sent buf)), LNum (now - birthday buf)]"

text \<open>The fields set before an argument error stay set.\<close>

definition buffer_meth_setstats ::
    "lua_conv \<Rightarrow> real \<Rightarrow> lval list \<Rightarrow> t_buffer \<Rightarrow> lua_results \<times> t_buffer" where
  "buffer_meth_setstats cv now args buf =
     (case luaL_optnumber cv args 2 (of_int (b_received buf)) of
        Inl e \<Rightarrow> (Inl e, buf)
      | Inr r \<Rightarrow>
          (let buf = buf\<lparr>b_received := trunc_real r\<rparr> in
           case luaL_optnumber cv args 3 (of_int (b_sent buf)) of
             Inl e \<Rightarrow> (Inl e, buf)
           | Inr s \<Rightarrow>
               (let buf = buf\<lparr>b_sent := trunc_real s\<rparr>;
                    buf = (case lua_tonumber cv (index2adr args 4) of
                             Some age \<Rightarrow> buf\<lparr>birthday := now - age\<rparr>
                           | None \<Rightarrow> buf)
                in (Inr [LNum 1], buf))))"

text \<open>The slice of \<open>send\<close>: negative positions count from the end; the result is clamped.\<close>

definition send_range :: "int \<Rightarrow> int \<Rightarrow> int \<Rightarrow> int \<times> int" where
  "send_range len st en =
     (let st = (if st < 0 then len + st + 1 else st);
          en = (if en < 0 then len + en + 1 else en);
          st = (if st < 1 then 1 else st);
          en = (if en > len then len else en)
      in (st, en))"

definition buffer_meth_send ::
    "nat \<Rightarrow> 'c t_io \<Rightarrow> ('c \<Rightarrow> real) \<Rightarrow> lua_conv \<Rightarrow> lval list \<Rightarrow> t_buffer \<Rightarrow> t_timeout \<Rightarrow> 'c \<Rightarrow> 'c method_result" where
  "buffer_meth_send fuel io now cv args buf tm c =
     (case bindE (luaL_checklstring cv args 2) (\<lambda>data.
           bindE (luaL_optnumber cv args 3 1) (\<lambda>st.
           bindE (luaL_optnumber cv args 4 (- 1)) (\<lambda>en. Inr (data, trunc_real st, trunc_real en)))) of
        Inl e \<Rightarrow> Some (Inl e, buf, tm, c)
      | Inr (data, st, en) \<Rightarrow>
          (let tm = timeout_markstart (now c) tm;
               (st, en) = send_range (int (length data)) st en
           in case (if st \<le> en
                    then sendraw fuel io tm (take (nat (en - st + 1)) (drop (nat (st - 1)) data)) buf c
                    else Some ((IO_DONE, 0), buf, c)) of
                None \<Rightarrow> None
              | Some ((err, k), buf, c) \<Rightarrow>
                  (let count = LNum (of_int (int k + st - 1)) in
                   Some (Inr (if err \<noteq> IO_DONE then [LNil, lua_pushstring (io_error io err c), count]
                              else [count, LNil, LNil]), buf, tm, c))))"

text \<open>\<open>wanted\<close> is computed in \<open>size_t\<close>: asking for less than the prefix already holds wraps around.\<close>

definition size_t :: "int \<Rightarrow> nat" where
  "size_t k = nat (k mod 2 ^ 64)"

definition buffer_meth_receive ::
    "nat \<Rightarrow> 'c t_io \<Rightarrow> ('c \<Rightarrow> real) \<Rightarrow> lua_conv \<Rightarrow> lval list \<Rightarrow> t_buffer \<Rightarrow> t_timeout \<Rightarrow> 'c \<Rightarrow> 'c method_result" where
  "buffer_meth_receive fuel io now cv args buf tm c =
     (case luaL_optlstring cv args 3 (Some []) of
        Inl e \<Rightarrow> Some (Inl e, buf, tm, c)
      | Inr part \<Rightarrow>
          (let tm = timeout_markstart (now c) tm; part = the part; s = (part, buf, c) in
           case (case lua_tonumber cv (index2adr args 2) of
                   None \<Rightarrow>
                     bindE (luaL_optstring cv args 2 (Some ''*l'')) (\<lambda>p.
                       if cnth (the p) 0 = CHR ''*'' \<and> cnth (the p) 1 = CHR ''l'' then Inr (recvline fuel io tm s)
                       else if cnth (the p) 0 = CHR ''*'' \<and> cnth (the p) 1 = CHR ''a'' then Inr (recvall fuel io tm s)
                       else luaL_argerror 2 ''invalid receive pattern'')
                 | Some n \<Rightarrow> Inr (recvraw fuel io tm (size_t (trunc_real n - int (length part))) s)) of
             Inl e \<Rightarrow> Some (Inl e, buf, tm, c)
           | Inr None \<Rightarrow> None
           | Inr (Some (err, acc, buf, c)) \<Rightarrow>
               Some (Inr (if err \<noteq> IO_DONE then [LNil, lua_pushstring (io_error io err c), LStr acc]
                          else [LStr acc, LNil, LNil]), buf, tm, c)))"

section \<open>Nothing is lost or reordered\<close>

text \<open>The bytes delivered by the driver and not yet returned.\<close>

definition pending :: "t_buffer \<Rightarrow> string" where
  "pending buf = take (b_last buf - b_first buf) (drop (b_first buf) (b_data buf))"

definition buf_ok :: "t_buffer \<Rightarrow> bool" where
  "buf_ok buf \<longleftrightarrow> b_last buf \<le> BUF_SIZE \<and> length (b_data buf) = BUF_SIZE \<and> b_first buf \<le> b_last buf"

lemma pending_length: "buf_ok buf \<Longrightarrow> length (pending buf) = b_last buf - b_first buf"
  by (auto simp: pending_def buf_ok_def)

lemma skip_ok:
  assumes "buf_ok buf" and "n \<le> length (pending buf)"
  shows "buf_ok (buffer_skip n buf) \<and> pending (buffer_skip n buf) = drop n (pending buf)"
proof -
  have l: "b_first buf + n \<le> b_last buf"
    using assms pending_length [OF assms(1)] by (auto simp: buf_ok_def)
  show ?thesis
  proof (cases "b_last buf = b_first buf + n")
    case True
    with assms pending_length [OF assms(1)] show ?thesis
      by (simp add: buffer_skip_def Let_def buffer_isempty_def buf_ok_def pending_def)
  next
    case False
    with l have "\<not> b_last buf \<le> b_first buf + n" by simp
    with assms(1) l show ?thesis
      by (simp add: buffer_skip_def Let_def buffer_isempty_def buf_ok_def pending_def drop_take ac_simps)
  qed
qed

lemma init_ok: "length m = BUF_SIZE \<Longrightarrow> buf_ok (buffer_init now m) \<and> pending (buffer_init now m) = []"
  by (simp add: buffer_init_def buf_ok_def pending_def)

lemma scan_line_spec:
  "scan_line data = (pos, kept) \<Longrightarrow>
     pos \<le> length data \<and> kept = filter (\<lambda>x. x \<noteq> CR) (take pos data) \<and> LF \<notin> set (take pos data)
     \<and> (pos < length data \<longrightarrow> data ! pos = LF)"
  by (induction data arbitrary: pos kept) (auto simp: Let_def split: if_splits prod.splits)

text \<open>From one state to another the bytes \<open>raw\<close> of the stream were consumed, and no others.\<close>

definition conserved ::
    "('c \<Rightarrow> string) \<Rightarrow> ('c \<Rightarrow> string) \<Rightarrow> 'c \<Rightarrow> t_buffer \<Rightarrow> string \<Rightarrow> 'c \<Rightarrow> t_buffer \<Rightarrow> bool" where
  "conserved delivered accepted c buf raw c' buf' \<longleftrightarrow> buf_ok buf' \<and> accepted c' = accepted c
    \<and> (\<exists>new. delivered c' = delivered c @ new \<and> pending buf @ new = raw @ pending buf')"

text \<open>What a round of a receive loop makes smaller.\<close>

definition recv_measure :: "('c \<Rightarrow> nat) \<Rightarrow> 'c recv_state \<Rightarrow> nat" where
  "recv_measure budget s = (case s of (acc, buf, c) \<Rightarrow> 2 * budget c + (if pending buf = [] then 0 else 1))"

context io_driver
begin

abbreviation consumed :: "'c \<Rightarrow> t_buffer \<Rightarrow> string \<Rightarrow> 'c \<Rightarrow> t_buffer \<Rightarrow> bool" where
  "consumed \<equiv> conserved delivered accepted"

text \<open>\<open>buffer_get\<close> returns what is pending afterwards, and adds to it what the driver delivers.\<close>

lemma get_spec:
  assumes "buf_ok buf" and "buffer_get io tm buf c = Some ((err, data), buf', c')"
  shows "buf_ok buf' \<and> data = pending buf' \<and> accepted c' = accepted c
    \<and> (\<exists>new. delivered c' = delivered c @ new \<and> pending buf' = pending buf @ new)
    \<and> (err \<noteq> IO_DONE \<longrightarrow> data = []) \<and> (err = IO_DONE \<longrightarrow> data \<noteq> [])
    \<and> (pending buf = [] \<and> err = IO_DONE \<longrightarrow> budget c' < budget c)
    \<and> (pending buf \<noteq> [] \<longrightarrow> c' = c)"
proof (cases "buffer_isempty buf")
  case False
  then have "b_first buf < b_last buf" by (simp add: buffer_isempty_def)
  moreover from this have "pending buf \<noteq> []"
    using pending_length [OF assms(1)] by auto
  ultimately show ?thesis
    using False assms by (auto simp: buffer_get_def pending_def Let_def)
next
  case True
  then have p: "pending buf = []"
    using assms(1) by (simp add: buffer_isempty_def pending_def)
  from True assms(2) obtain err1 got c1 where r1: "io_recv io BUF_SIZE tm c = Some ((err1, got), c1)"
    by (cases "io_recv io BUF_SIZE tm c") (auto simp: buffer_get_def Let_def)
  from True assms(2) have eqs: "err1 = err" "c1 = c'"
    and b: "buf' = buf\<lparr>b_data := got @ drop (length got) (b_data buf), b_first := 0, b_last := length got\<rparr>"
    and d: "data = take (b_last buf' - b_first buf') (drop (b_first buf') (b_data buf'))"
    unfolding buffer_get_def Let_def r1 by auto
  from r1 eqs have r: "io_recv io BUF_SIZE tm c = Some ((err, got), c')" by simp
  note rl = recv_law [OF r]
  have k: "delivered c' = delivered c @ got" "accepted c' = accepted c"
    using rl by blast+
  have e: "if err = IO_DONE then got \<noteq> [] \<and> length got \<le> BUF_SIZE \<and> budget c' < budget c else got = []"
    using rl by blast
  then have l: "length got \<le> BUF_SIZE" by (cases "err = IO_DONE") simp_all
  have g: "pending buf' = got" by (simp add: pending_def b)
  have "buf_ok buf'" using assms(1) l by (simp add: buf_ok_def b)
  moreover have "data = pending buf'" using d by (simp add: pending_def)
  ultimately show ?thesis using k p g e by (cases "err = IO_DONE") simp_all
qed

lemma conserved_refl: "buf_ok buf \<Longrightarrow> consumed c buf [] c buf"
  by (simp add: conserved_def)

lemma conserved_trans:
  assumes "consumed c buf raw c1 buf1" and "consumed c1 buf1 raw' c2 buf2"
  shows "consumed c buf (raw @ raw') c2 buf2"
proof -
  from assms(1) obtain n1 where 1: "delivered c1 = delivered c @ n1" "pending buf @ n1 = raw @ pending buf1"
    by (auto simp: conserved_def)
  from assms(2) obtain n2 where 2: "delivered c2 = delivered c1 @ n2" "pending buf1 @ n2 = raw' @ pending buf2"
    by (auto simp: conserved_def)
  have "pending buf @ (n1 @ n2) = (raw @ raw') @ pending buf2"
    using 1(2) 2(2) by (metis append_assoc)
  moreover have "delivered c2 = delivered c @ (n1 @ n2)" using 1(1) 2(1) by simp
  ultimately show ?thesis using assms by (auto simp: conserved_def)
qed

lemma get_skip:
  assumes "buf_ok buf" and "buffer_get io tm buf c = Some ((err, data), buf', c')" and "n \<le> length data"
  shows "consumed c buf (take n data) c' (buffer_skip n buf')"
proof -
  note g = get_spec [OF assms(1,2)]
  with assms(3) have s: "buf_ok (buffer_skip n buf') \<and> pending (buffer_skip n buf') = drop n data"
    using skip_ok [of buf' n] by auto
  from g obtain new where "delivered c' = delivered c @ new" "pending buf' = pending buf @ new" by blast
  then show ?thesis using g s by (auto simp: conserved_def)
qed

text \<open>\<open>*n\<close>: the bytes returned are the next ones of the stream, all of them when it succeeds.\<close>

lemma recvraw_spec:
  assumes "buf_ok buf" and "recvraw fuel io tm wanted (part, buf, c) = Some (err, acc, buf', c')"
  shows "\<exists>raw. acc = part @ raw \<and> consumed c buf raw c' buf' \<and> length raw \<le> wanted
    \<and> (err = IO_DONE \<longrightarrow> length raw = wanted)"
proof -
  let ?I = "\<lambda>(acc, b, v). \<exists>raw. acc = part @ raw \<and> consumed c buf raw v b \<and> length raw \<le> wanted"
  let ?body = "recvraw_body io tm (length part) wanted"
  have step: "\<exists>raw. acc1 = part @ raw \<and> consumed c buf raw v1 b1 \<and> length raw \<le> wanted
      \<and> (r = Some IO_DONE \<longrightarrow> length raw = wanted)"
    if I: "?I (acc, b, v)" and body: "?body (acc, b, v) = Some (r, acc1, b1, v1)" for acc b v r acc1 b1 v1
  proof -
    from I obtain raw where raw: "acc = part @ raw" "consumed c buf raw v b" "length raw \<le> wanted" by auto
    then have ok: "buf_ok b" by (simp add: conserved_def)
    from body obtain e d b2 v2 where g: "buffer_get io tm b v = Some ((e, d), b2, v2)"
      by (auto simp: recvraw_body_def split: option.splits)
    let ?n = "min (length d) (wanted - length raw)"
    from body have eqs: "acc1 = acc @ take ?n d" "b1 = buffer_skip ?n b2" "v1 = v2"
      "r = (if wanted \<le> length raw + ?n \<or> e \<noteq> IO_DONE then Some e else None)"
      by (simp_all add: recvraw_body_def g raw(1) Let_def)
    have "consumed c buf (raw @ take ?n d) v1 b1"
      unfolding eqs by (rule conserved_trans [OF raw(2) get_skip [OF ok g]]) simp
    moreover have "length (raw @ take ?n d) \<le> wanted" using raw(3) by simp
    moreover have "length (raw @ take ?n d) = wanted" if "r = Some IO_DONE"
      using that raw(3) eqs(4) by (auto split: if_splits)
    ultimately show ?thesis using eqs(1) raw(1) by auto
  qed
  from assms(2) have l: "repeatF fuel ?body (part, buf, c) = Some (err, acc, buf', c')"
    by (simp add: recvraw_def)
  have "(\<lambda>e (acc, b, v). \<exists>raw. acc = part @ raw \<and> consumed c buf raw v b \<and> length raw \<le> wanted
      \<and> (e = IO_DONE \<longrightarrow> length raw = wanted)) err (acc, buf', c')"
  proof (rule repeatF_rule [where I = ?I, OF l])
    show "?I (part, buf, c)" using conserved_refl [OF assms(1)] by auto
    show "?I s1" if "?I s" and "?body s = Some (None, s1)" for s s1
      using step [of "fst s" "fst (snd s)" "snd (snd s)"] that by (cases s; cases s1) fastforce
    show "case s1 of (acc, b, v) \<Rightarrow> \<exists>raw. acc = part @ raw \<and> consumed c buf raw v b
        \<and> length raw \<le> wanted \<and> (e = IO_DONE \<longrightarrow> length raw = wanted)"
      if "?I s" and "?body s = Some (Some e, s1)" for s s1 e
      using step [of "fst s" "fst (snd s)" "snd (snd s)" "Some e"] that by (cases s; cases s1) fastforce
  qed
  then show ?thesis by simp
qed

text \<open>\<open>*a\<close>: everything the stream delivers, nothing kept back.\<close>

lemma recvall_spec:
  assumes "buf_ok buf" and "recvall fuel io tm (part, buf, c) = Some (err, acc, buf', c')"
  shows "\<exists>raw. acc = part @ raw \<and> consumed c buf raw c' buf' \<and> pending buf' = []
    \<and> (err = IO_DONE \<longrightarrow> raw \<noteq> [])"
proof -
  let ?I = "\<lambda>(acc, b, v). \<exists>raw. acc = part @ raw \<and> consumed c buf raw v b"
  let ?Q = "\<lambda>e (acc, b, v). e \<noteq> IO_DONE \<and> (\<exists>raw. acc = part @ raw \<and> consumed c buf raw v b \<and> pending b = [])"
  let ?body = "recvall_body io tm"
  have step: "\<exists>raw. acc1 = part @ raw \<and> consumed c buf raw v1 b1 \<and> pending b1 = [] \<and> r \<noteq> Some IO_DONE"
    if I: "?I (acc, b, v)" and body: "?body (acc, b, v) = Some (r, acc1, b1, v1)" for acc b v r acc1 b1 v1
  proof -
    from I obtain raw where raw: "acc = part @ raw" "consumed c buf raw v b" by auto
    then have ok: "buf_ok b" by (simp add: conserved_def)
    from body obtain e d b2 v2 where g: "buffer_get io tm b v = Some ((e, d), b2, v2)"
      by (auto simp: recvall_body_def split: option.splits)
    from body have eqs: "acc1 = acc @ d" "b1 = buffer_skip (length d) b2" "v1 = v2"
      "r = (if e \<noteq> IO_DONE then Some e else None)"
      by (simp_all add: recvall_body_def g)
    have "consumed c buf (raw @ take (length d) d) v1 b1"
      unfolding eqs by (rule conserved_trans [OF raw(2) get_skip [OF ok g]]) simp
    moreover have "pending b1 = []"
      using get_spec [OF ok g] skip_ok [of b2 "length d"] eqs(2) by simp
    ultimately show ?thesis using eqs raw(1) by auto
  qed
  from assms(2) obtain e where l: "repeatF fuel ?body (part, buf, c) = Some (e, acc, buf', c')"
    and err: "err = (if e = IO_CLOSED then (if length acc - length part > 0 then IO_DONE else IO_CLOSED) else e)"
    by (auto simp: recvall_def Let_def split: option.splits)
  have "?Q e (acc, buf', c')"
  proof (rule repeatF_rule [where I = ?I, OF l])
    show "?I (part, buf, c)" using conserved_refl [OF assms(1)] by auto
    show "?I s1" if "?I s" and "?body s = Some (None, s1)" for s s1
      using step [of "fst s" "fst (snd s)" "snd (snd s)"] that by (cases s; cases s1) fastforce
    show "?Q e s1" if "?I s" and "?body s = Some (Some e, s1)" for s s1 e
      using step [of "fst s" "fst (snd s)" "snd (snd s)" "Some e"] that by (cases s; cases s1) fastforce
  qed
  then show ?thesis using err by (auto split: if_splits)
qed

text \<open>\<open>*l\<close>: the next line of the stream without its terminator and carriage returns.\<close>

lemma recvline_spec:
  assumes "buf_ok buf" and "recvline fuel io tm (part, buf, c) = Some (err, acc, buf', c')"
  shows "\<exists>line raw. acc = part @ filter (\<lambda>x. x \<noteq> CR) line \<and> LF \<notin> set line
    \<and> raw = line @ (if err = IO_DONE then [LF] else []) \<and> consumed c buf raw c' buf'"
proof -
  let ?I = "\<lambda>(acc, b, v). \<exists>line. acc = part @ filter (\<lambda>x. x \<noteq> CR) line \<and> LF \<notin> set line \<and> consumed c buf line v b"
  let ?Q = "\<lambda>e (acc, b, v). \<exists>line. acc = part @ filter (\<lambda>x. x \<noteq> CR) line \<and> LF \<notin> set line
      \<and> consumed c buf (line @ (if e = IO_DONE then [LF] else [])) v b"
  let ?body = "recvline_body io tm"
  have step: "(case r of None \<Rightarrow> ?I (acc1, b1, v1) | Some e \<Rightarrow> ?Q e (acc1, b1, v1))"
    if I: "?I (acc, b, v)" and body: "?body (acc, b, v) = Some (r, acc1, b1, v1)" for acc b v r acc1 b1 v1
  proof -
    from I obtain line where line: "acc = part @ filter (\<lambda>x. x \<noteq> CR) line" "LF \<notin> set line" "consumed c buf line v b"
      by auto
    then have ok: "buf_ok b" by (simp add: conserved_def)
    from body obtain e d b2 v2 where g: "buffer_get io tm b v = Some ((e, d), b2, v2)"
      by (auto simp: recvline_body_def split: option.splits)
    obtain pos kept where sl: "scan_line d = (pos, kept)" by fastforce
    note ss = scan_line_spec [OF sl]
    have acc1: "acc1 = part @ filter (\<lambda>x. x \<noteq> CR) (line @ take pos d)"
      using body ss by (auto simp: recvline_body_def g sl Let_def line(1) split: if_splits)
    have nolf: "LF \<notin> set (line @ take pos d)" using line(2) ss by simp
    show ?thesis
    proof (cases "pos < length d")
      case True
      with body have eqs: "b1 = buffer_skip (pos + 1) b2" "v1 = v2" "r = Some e"
        by (simp_all add: recvline_body_def g sl Let_def)
      have "e = IO_DONE" using get_spec [OF ok g] True by auto
      moreover have "take (pos + 1) d = take pos d @ [LF]" using True ss by (simp add: take_Suc_conv_app_nth)
      moreover have "consumed c buf (line @ take (pos + 1) d) v1 b1"
        unfolding eqs by (rule conserved_trans [OF line(3) get_skip [OF ok g]]) (use True in simp)
      ultimately show ?thesis using eqs(3) acc1 nolf
        by (auto intro!: exI [of _ "line @ take pos d"])
    next
      case False
      with body have eqs: "b1 = buffer_skip pos b2" "v1 = v2" "r = (if e \<noteq> IO_DONE then Some e else None)"
        by (simp_all add: recvline_body_def g sl Let_def)
      have "consumed c buf (line @ take pos d) v1 b1"
        unfolding eqs by (rule conserved_trans [OF line(3) get_skip [OF ok g]]) (use ss in simp)
      then show ?thesis using eqs(3) acc1 nolf
        by (auto intro!: exI [of _ "line @ take pos d"])
    qed
  qed
  from assms(2) have l: "repeatF fuel ?body (part, buf, c) = Some (err, acc, buf', c')"
    by (simp add: recvline_def)
  have "?Q err (acc, buf', c')"
  proof (rule repeatF_rule [where I = ?I, OF l])
    show "?I (part, buf, c)" using conserved_refl [OF assms(1)] by (auto intro!: exI [of _ "[]"])
    show "?I s1" if "?I s" and "?body s = Some (None, s1)" for s s1
      using step [of "fst s" "fst (snd s)" "snd (snd s)" None] that by (cases s; cases s1) fastforce
    show "?Q e s1" if "?I s" and "?body s = Some (Some e, s1)" for s s1 e
      using step [of "fst s" "fst (snd s)" "snd (snd s)" "Some e"] that by (cases s; cases s1) fastforce
  qed
  then show ?thesis by auto
qed

text \<open>The bytes sent are a prefix of the data, all of it on success.\<close>

lemma sendraw_spec:
  assumes "sendraw fuel io tm data buf c = Some ((err, k), buf', c')"
  shows "k \<le> length data \<and> accepted c' = accepted c @ take k data \<and> delivered c' = delivered c
    \<and> (err = IO_DONE \<longrightarrow> k = length data) \<and> buf' = buf\<lparr>b_sent := b_sent buf + int k\<rparr>"
proof -
  let ?I = "\<lambda>(k, v). k \<le> length data \<and> accepted v = accepted c @ take k data \<and> delivered v = delivered c"
  let ?body = "sendraw_body io tm data"
  have step: "?I (k1, v1) \<and> (r = Some IO_DONE \<longrightarrow> k1 = length data)"
    if I: "?I (k, v)" and body: "?body (k, v) = Some (r, k1, v1)" for k v r k1 v1
  proof (cases "k < length data")
    case False
    with I body show ?thesis by (simp add: sendraw_body_def)
  next
    case True
    let ?step = "if length data - k \<le> STEPSIZE then length data - k else STEPSIZE"
    let ?piece = "take ?step (drop k data)"
    from True body obtain e n where s: "io_send io ?piece tm v = Some ((e, n), v1)"
      and eqs: "k1 = k + n" "r = (if e \<noteq> IO_DONE then Some e else None)"
      by (auto simp: sendraw_body_def Let_def split: option.splits)
    note sl = send_law [OF s]
    have n: "n \<le> length ?piece" using sl by (cases "e = IO_DONE") simp_all
    have "length ?piece \<le> length data - k" by simp
    with n True have le: "k + n \<le> length data" by linarith
    from n have ns: "n \<le> ?step" unfolding length_take by (rule min.boundedE)
    have "take n ?piece = take n (drop k data)" unfolding take_take min_absorb1 [OF ns] ..
    moreover have "take (k + n) data = take k data @ take n (drop k data)" by (rule take_add)
    ultimately have "accepted v1 = accepted c @ take (k + n) data"
      using I sl by simp
    moreover have "delivered v1 = delivered c" using I sl by simp
    moreover have "r \<noteq> Some IO_DONE" using eqs by simp
    ultimately show ?thesis using le eqs(1) by simp
  qed
  from assms obtain v where l: "repeatF fuel ?body (0, c) = Some (err, k, c')"
    and b: "buf' = buf\<lparr>b_sent := b_sent buf + int k\<rparr>"
    by (auto simp: sendraw_def split: option.splits)
  have "(\<lambda>e (k, v). ?I (k, v) \<and> (e = IO_DONE \<longrightarrow> k = length data)) err (k, c')"
  proof (rule repeatF_rule [where I = ?I, OF l])
    show "?I (0, c)" by simp
    show "?I s1" if "?I s" and "?body s = Some (None, s1)" for s s1
      using step [of "fst s" "snd s" None "fst s1" "snd s1"] that by (simp add: split_def)
    show "case s1 of (k, v) \<Rightarrow> ?I (k, v) \<and> (e = IO_DONE \<longrightarrow> k = length data)"
      if "?I s" and "?body s = Some (Some e, s1)" for s s1 e
      using step [of "fst s" "snd s" "Some e" "fst s1" "snd s1"] that by (simp add: split_def)
  qed
  with b show ?thesis by simp
qed

section \<open>The fuel\<close>

lemma round_measure:
  assumes "buf_ok b" and "buffer_get io tm b v = Some ((IO_DONE, d), b2, v2)"
  shows "buf_ok (buffer_skip (length d) b2)
    \<and> recv_measure budget (acc', buffer_skip (length d) b2, v2) < recv_measure budget (acc, b, v)"
proof -
  note g = get_spec [OF assms]
  from g have s: "buf_ok (buffer_skip (length d) b2)" "pending (buffer_skip (length d) b2) = []"
    using skip_ok [of b2 "length d"] by auto
  from g have "(if pending b = [] then budget v2 < budget v else v2 = v)" by auto
  with s show ?thesis by (auto simp: recv_measure_def split: if_splits)
qed

lemma recv_fuel_enough:
  assumes "buf_ok buf" and "2 * budget c + 1 < n" and "n \<le> m"
  shows "recvraw m io tm wanted (part, buf, c) = recvraw n io tm wanted (part, buf, c)"
    and "recvall m io tm (part, buf, c) = recvall n io tm (part, buf, c)"
    and "recvline m io tm (part, buf, c) = recvline n io tm (part, buf, c)"
proof -
  have enough: "repeatF m body (part, buf, c) = repeatF n body (part, buf, c)"
    if cont: "\<And>acc b v s1. body (acc, b, v) = Some (None, s1) \<Longrightarrow>
        \<exists>d b2 v2 acc'. buffer_get io tm b v = Some ((IO_DONE, d), b2, v2)
          \<and> s1 = (acc', buffer_skip (length d) b2, v2)"
    for body :: "'c recv_state \<Rightarrow> (int option \<times> 'c recv_state) option"
  proof (rule repeatF_enough [where I = "\<lambda>(acc, b, v). buf_ok b" and \<mu> = "recv_measure budget"])
    fix s s1 assume I: "case s of (acc, b, v) \<Rightarrow> buf_ok b" and st: "body s = Some (None, s1)"
    obtain acc b v where s: "s = (acc, b, v)" by (cases s)
    from cont [of acc b v s1] st s obtain d b2 v2 acc' where
      g: "buffer_get io tm b v = Some ((IO_DONE, d), b2, v2)" and s1: "s1 = (acc', buffer_skip (length d) b2, v2)"
      by auto
    from round_measure [OF _ g, of acc' acc] I s s1
    show "(case s1 of (acc, b, v) \<Rightarrow> buf_ok b) \<and> recv_measure budget s1 < recv_measure budget s" by simp
  qed (use assms in \<open>simp_all add: recv_measure_def\<close>)
  show "recvraw m io tm wanted (part, buf, c) = recvraw n io tm wanted (part, buf, c)"
    unfolding recvraw_def
    by (rule enough) (fastforce simp: recvraw_body_def Let_def min_def split: option.splits prod.splits if_splits)
  have "repeatF m (recvall_body io tm) (part, buf, c) = repeatF n (recvall_body io tm) (part, buf, c)"
    by (rule enough) (fastforce simp: recvall_body_def split: option.splits prod.splits if_splits)
  then show "recvall m io tm (part, buf, c) = recvall n io tm (part, buf, c)"
    by (simp only: recvall_def)
  have pos: "scan_line d = (pos, kept) \<Longrightarrow> \<not> pos < length d \<Longrightarrow> pos = length d" for d pos kept
    using scan_line_spec [of d pos kept] by simp
  show "recvline m io tm (part, buf, c) = recvline n io tm (part, buf, c)"
    unfolding recvline_def
    by (rule enough) (fastforce simp: recvline_body_def Let_def dest: pos split: option.splits prod.splits if_splits)
qed

lemma send_fuel_enough:
  assumes "budget c < n" and "n \<le> m"
  shows "sendraw m io tm data buf c = sendraw n io tm data buf c"
proof -
  have "repeatF m (sendraw_body io tm data) (0, c) = repeatF n (sendraw_body io tm data) (0, c)"
  proof (rule repeatF_enough [where I = "\<lambda>_. True" and \<mu> = "\<lambda>(k, v). budget v"])
    fix s s1 assume st: "sendraw_body io tm data s = Some (None, s1)"
    obtain k v where s: "s = (k, v)" by (cases s)
    from st s obtain piece j v1 where "io_send io piece tm v = Some ((IO_DONE, j), v1)" and "s1 = (k + j, v1)"
      by (auto simp: sendraw_body_def Let_def split: option.splits prod.splits if_splits)
    with send_law [of piece tm v IO_DONE j v1] s
    show "True \<and> (case s1 of (k, v) \<Rightarrow> budget v) < (case s of (k, v) \<Rightarrow> budget v)" by simp
  qed (use assms in simp_all)
  then show ?thesis by (simp only: sendraw_def)
qed

end

end
