(* ===== verification/Usocket.thy ===== *)
theory Usocket
  imports Buffer
begin

text \<open>
  The Unix socket layer, \<open>lib/src/usocket.c\<close>.

  The kernel is the state \<open>world\<close>: the answers it will give, in order (\<open>w_script\<close>), each with
  the time at which the call returns, the value of \<open>errno\<close>, and the trace of the calls made
  with their answers. \<open>sys c\<close> performs the call \<open>c\<close>: it takes the next answer. A loop that
  waits for ever is one whose answers run out: the functions then return \<open>None\<close>, they have
  not returned yet. Answers respect the documented interface: a failing call sets \<open>errno\<close> to
  a positive value, and no call transfers more bytes than it was asked to (longer answers are
  cut); an answer of the wrong kind for the call is no answer (\<open>None\<close>).
\<close>

section \<open>Error codes\<close>

definition EINTR :: int where "EINTR = 4"
definition EAGAIN :: int where "EAGAIN = 11"
definition EACCES :: int where "EACCES = 13"
definition EPIPE :: int where "EPIPE = 32"
definition EADDRINUSE :: int where "EADDRINUSE = 98"
definition ECONNABORTED :: int where "ECONNABORTED = 103"
definition ECONNRESET :: int where "ECONNRESET = 104"
definition EISCONN :: int where "EISCONN = 106"
definition ETIMEDOUT :: int where "ETIMEDOUT = 110"
definition ECONNREFUSED :: int where "ECONNREFUSED = 111"
definition EINPROGRESS :: int where "EINPROGRESS = 115"
definition HOST_NOT_FOUND :: int where "HOST_NOT_FOUND = 1"
definition O_NONBLOCK :: int where "O_NONBLOCK = 2048"
definition SOCKET_INVALID :: int where "SOCKET_INVALID = - 1"

section \<open>The kernel\<close>

record sockaddr =
  sa_family :: nat
  sa_addr :: "32 word"
  sa_port :: "16 word"

text \<open>The result of a name lookup; the addresses in the order of \<open>h_addr_list\<close>.\<close>

record hostent =
  h_name :: string
  h_aliases :: "string list"
  h_addr_list :: "32 word list"

text \<open>Option values: an \<open>int\<close>, a \<open>struct linger\<close>, a \<open>struct ip_mreq\<close>.\<close>

datatype sockopt = OptInt int | OptLinger nat nat | OptMreq "32 word" "32 word"

datatype syscall =
    C_select int nat "(int \<times> int) option"           \<comment> \<open>descriptor, \<open>WAITFD\<close> bits, timeout\<close>
  | C_poll int nat int
  | C_selectset int "int list" "int list" "(int \<times> int) option"
  | C_fcntl_get int
  | C_fcntl_set int int
  | C_close int
  | C_socket nat nat nat
  | C_bind int sockaddr
  | C_listen int int
  | C_shutdown int nat
  | C_connect int sockaddr
  | C_accept int
  | C_send int string
  | C_sendto int string sockaddr
  | C_recv int nat
  | C_recvfrom int nat
  | C_signal
  | C_gethostbyaddr "32 word"
  | C_gethostbyname string
  | C_gethostname
  | C_getpeername int
  | C_getsockname int
  | C_setsockopt int nat nat sockopt

datatype sysret =
    Fail nat                       \<comment> \<open>-1 and \<open>errno\<close>\<close>
  | Done nat                       \<comment> \<open>a result that is not negative\<close>
  | Ready bool                     \<comment> \<open>\<open>select\<close> or \<open>poll\<close> found events; among them a readable one\<close>
  | ReadySet "int list" "int list" \<comment> \<open>the two descriptor sets \<open>select\<close> leaves\<close>
  | Bytes string "sockaddr"        \<comment> \<open>bytes received, and from where\<close>
  | Peer sockaddr
  | Host hostent
  | NoHost int int                 \<comment> \<open>\<open>h_errno\<close> and \<open>errno\<close>\<close>
  | Name string

record world =
  w_script :: "(sysret \<times> real) list"
  w_now :: real
  w_errno :: int
  w_trace :: "(syscall \<times> sysret) list"

definition sys :: "syscall \<Rightarrow> world \<Rightarrow> (sysret \<times> world) option" where
  "sys c w =
     (case w_script w of
        [] \<Rightarrow> None
      | (r, t) # rest \<Rightarrow>
          if r = Fail 0 then None
          else Some (r, w\<lparr>w_script := rest, w_now := t,
                          w_errno := (case r of Fail e \<Rightarrow> int e | NoHost _ e \<Rightarrow> e | _ \<Rightarrow> w_errno w),
                          w_trace := w_trace w @ [(c, r)]\<rparr>))"

type_synonym 'a io_act = "world \<Rightarrow> ('a \<times> world) option"

fun bindW :: "'a io_act \<Rightarrow> ('a \<Rightarrow> 'b io_act) \<Rightarrow> 'b io_act" where
  "bindW m f w = (case m w of None \<Rightarrow> None | Some (a, w') \<Rightarrow> f a w')"

definition returnW :: "'a \<Rightarrow> 'a io_act" where
  "returnW a w = Some (a, w)"

text \<open>A call of which only success matters, the returned value otherwise: -1 or the result.\<close>

definition syscall_int :: "syscall \<Rightarrow> int io_act" where
  "syscall_int c w =
     (case sys c w of
        Some (Done n, w') \<Rightarrow> Some (int n, w')
      | Some (Fail e, w') \<Rightarrow> Some (- 1, w')
      | _ \<Rightarrow> None)"

text \<open>
  \<open>for (;;)\<close>: the body runs again while it yields \<open>None\<close>. Every body below makes a call
  first, so the answers left decrease and the guard of the recursion holds.
\<close>

function loopW :: "'a option io_act \<Rightarrow> 'a io_act" where
  "loopW body w =
     (case body w of
        None \<Rightarrow> None
      | Some (Some a, w') \<Rightarrow> Some (a, w')
      | Some (None, w') \<Rightarrow> if length (w_script w') < length (w_script w) then loopW body w' else None)"
  by pat_completeness auto
termination
  by (relation "measure (\<lambda>(body, w). length (w_script w))") auto

declare loopW.simps [simp del]

lemma loopW_rule:
  assumes "loopW body w = Some (a, w')" and "I w"
    and cont: "\<And>w w1. I w \<Longrightarrow> body w = Some (None, w1) \<Longrightarrow> I w1"
    and stop: "\<And>w w1 a. I w \<Longrightarrow> body w = Some (Some a, w1) \<Longrightarrow> Q a w1"
  shows "Q a w'"
  using assms(1,2)
proof (induction "length (w_script w)" arbitrary: w rule: less_induct)
  case less
  obtain r w1 where b: "body w = Some (r, w1)"
    using less.prems(1) by (subst (asm) loopW.simps) (auto split: option.splits)
  show ?case
  proof (cases r)
    case None
    with b less.prems(1) have "length (w_script w1) < length (w_script w)" "loopW body w1 = Some (a, w')"
      by (subst (asm) loopW.simps; auto split: if_splits)+
    moreover have "I w1" using cont less.prems(2) b None by blast
    ultimately show ?thesis by (rule less.hyps)
  next
    case (Some x)
    with b less.prems(1) have "x = a" "w1 = w'" by (subst (asm) loopW.simps; simp)+
    with stop [OF less.prems(2)] b Some show ?thesis by blast
  qed
qed

section \<open>Waiting\<close>

definition WAITFD_R :: nat where "WAITFD_R = 1"
definition WAITFD_W :: nat where "WAITFD_W = 2"
definition WAITFD_C :: nat where "WAITFD_C = 3"

text \<open>\<open>tv\<close> of the \<open>select\<close> calls; \<open>None\<close> is NULL, wait without limit.\<close>

definition timeval :: "real \<Rightarrow> (int \<times> int) option" where
  "timeval t =
     (if 0 \<le> t then (let s = trunc_real t in Some (s, trunc_real ((t - of_int s) * 1000000))) else None)"

text \<open>What the two versions do with the answer of \<open>select\<close> and \<open>poll\<close>.\<close>

definition waited :: "nat \<Rightarrow> (sysret \<times> world) option \<Rightarrow> (int option \<times> world) option" where
  "waited sw answer =
     (case answer of
        Some (Fail e, w) \<Rightarrow> if int e = EINTR then Some (None, w) else Some (Some (int e), w)
      | Some (Done n, w) \<Rightarrow> if n = 0 then Some (Some IO_TIMEOUT, w) else None
      | Some (Ready readable, w) \<Rightarrow>
          Some (Some (if sw = WAITFD_C \<and> readable then IO_CLOSED else IO_DONE), w)
      | _ \<Rightarrow> None)"

definition socket_waitfd :: "int \<Rightarrow> nat \<Rightarrow> t_timeout \<Rightarrow> int io_act" where
  "socket_waitfd fd sw tm w =
     (if timeout_iszero tm then Some (IO_TIMEOUT, w)
      else loopW (\<lambda>w. waited sw (sys (C_select fd sw (timeval (timeout_getretry tm (w_now w)))) w)) w)"

text \<open>The version with \<open>poll\<close> (\<open>SOCKET_POLL\<close>).\<close>

definition socket_waitfd_poll :: "int \<Rightarrow> nat \<Rightarrow> t_timeout \<Rightarrow> int io_act" where
  "socket_waitfd_poll fd sw tm w =
     (if timeout_iszero tm then Some (IO_TIMEOUT, w)
      else loopW (\<lambda>w. let t = trunc_real (timeout_getretry tm (w_now w) * 1000)
                      in waited sw (sys (C_poll fd sw (if 0 \<le> t then t else - 1)) w)) w)"

section \<open>Blocking mode, creation and destruction\<close>

text \<open>\<open>flags\<close> is -1 when the first \<open>fcntl\<close> fails; the result of the second is ignored.\<close>

definition socket_setblocking :: "int \<Rightarrow> unit io_act" where
  "socket_setblocking fd =
     bindW (syscall_int (C_fcntl_get fd)) (\<lambda>flags.
     bindW (syscall_int (C_fcntl_set fd (flags AND NOT O_NONBLOCK))) (\<lambda>_. returnW ()))"

definition socket_setnonblocking :: "int \<Rightarrow> unit io_act" where
  "socket_setnonblocking fd =
     bindW (syscall_int (C_fcntl_get fd)) (\<lambda>flags.
     bindW (syscall_int (C_fcntl_set fd (flags OR O_NONBLOCK))) (\<lambda>_. returnW ()))"

definition socket_open :: "int io_act" where
  "socket_open = bindW (syscall_int C_signal) (\<lambda>_. returnW 1)"

definition socket_close :: "int io_act" where
  "socket_close = returnW 1"

text \<open>Functions that change \<open>*ps\<close> return the new descriptor.\<close>

definition socket_destroy :: "int \<Rightarrow> int io_act" where
  "socket_destroy fd =
     (if fd \<noteq> SOCKET_INVALID then
        bindW (socket_setblocking fd) (\<lambda>_.
        bindW (syscall_int (C_close fd)) (\<lambda>_. returnW SOCKET_INVALID))
      else returnW fd)"

definition socket_create :: "nat \<Rightarrow> nat \<Rightarrow> nat \<Rightarrow> (int \<times> int) io_act" where
  "socket_create domain type protocol =
     bindW (syscall_int (C_socket domain type protocol)) (\<lambda>fd w.
       if fd \<noteq> SOCKET_INVALID then Some ((IO_DONE, fd), w) else Some ((w_errno w, fd), w))"

definition socket_bind :: "int \<Rightarrow> sockaddr \<Rightarrow> int io_act" where
  "socket_bind fd addr =
     bindW (socket_setblocking fd) (\<lambda>_.
     bindW (\<lambda>w. case syscall_int (C_bind fd addr) w of
              None \<Rightarrow> None
            | Some (r, w') \<Rightarrow> Some (if r < 0 then w_errno w' else IO_DONE, w')) (\<lambda>err.
     bindW (socket_setnonblocking fd) (\<lambda>_. returnW err)))"

definition socket_listen :: "int \<Rightarrow> int \<Rightarrow> int io_act" where
  "socket_listen fd backlog =
     bindW (socket_setblocking fd) (\<lambda>_.
     bindW (\<lambda>w. case syscall_int (C_listen fd backlog) w of
              None \<Rightarrow> None
            | Some (r, w') \<Rightarrow> Some (if r \<noteq> 0 then w_errno w' else IO_DONE, w')) (\<lambda>err.
     bindW (socket_setnonblocking fd) (\<lambda>_. returnW err)))"

definition socket_shutdown :: "int \<Rightarrow> nat \<Rightarrow> unit io_act" where
  "socket_shutdown fd how =
     bindW (socket_setblocking fd) (\<lambda>_.
     bindW (syscall_int (C_shutdown fd how)) (\<lambda>_. socket_setnonblocking fd))"

section \<open>Connections\<close>

text \<open>\<open>do if (connect (\<dots>) == 0) return IO_DONE; while ((err = errno) == EINTR)\<close>\<close>

definition connect_call :: "int \<Rightarrow> sockaddr \<Rightarrow> int io_act" where
  "connect_call fd addr =
     loopW (\<lambda>w. case sys (C_connect fd addr) w of
         Some (Done _, w') \<Rightarrow> Some (Some IO_DONE, w')
       | Some (Fail e, w') \<Rightarrow> Some (if int e = EINTR then None else Some (int e), w')
       | _ \<Rightarrow> None)"

definition socket_connect :: "int \<Rightarrow> sockaddr \<Rightarrow> t_timeout \<Rightarrow> int io_act" where
  "socket_connect fd addr tm =
     (if fd = SOCKET_INVALID then returnW IO_CLOSED
      else bindW (connect_call fd addr) (\<lambda>err.
        if err \<noteq> EINPROGRESS \<and> err \<noteq> EAGAIN then returnW err
        else if timeout_iszero tm then returnW IO_TIMEOUT
        else bindW (socket_waitfd fd WAITFD_C tm) (\<lambda>err.
          if err = IO_CLOSED then
            (\<lambda>w. case sys (C_recv fd 0) w of
               Some (Bytes _ _, w') \<Rightarrow> Some (IO_DONE, w')
             | Some (Done 0, w') \<Rightarrow> Some (IO_DONE, w')
             | Some (Fail e, w') \<Rightarrow> Some (int e, w')
             | _ \<Rightarrow> None)
          else returnW err)))"

text \<open>The error, and the descriptor of the new connection (\<open>*pa\<close>).\<close>

definition socket_accept :: "int \<Rightarrow> t_timeout \<Rightarrow> (int \<times> int) io_act" where
  "socket_accept fd tm w =
     (if fd = SOCKET_INVALID then Some ((IO_CLOSED, SOCKET_INVALID), w)
      else loopW (\<lambda>w. case sys (C_accept fd) w of
          Some (Done n, w') \<Rightarrow> Some (Some (IO_DONE, int n), w')
        | Some (Fail e, w') \<Rightarrow>
            if int e = EINTR then Some (None, w')
            else if int e \<noteq> EAGAIN \<and> int e \<noteq> ECONNABORTED then Some (Some (int e, SOCKET_INVALID), w')
            else bindW (socket_waitfd fd WAITFD_R tm) (\<lambda>err.
              returnW (if err \<noteq> IO_DONE then Some (err, SOCKET_INVALID) else None)) w'
        | _ \<Rightarrow> None) w)"

section \<open>Sending\<close>

text \<open>
  The common body of the two send functions: the error and the number of bytes sent. After a
  result of 0, or \<open>EPIPE\<close>, the connection is closed.
\<close>

definition send_body :: "int \<Rightarrow> syscall \<Rightarrow> string \<Rightarrow> t_timeout \<Rightarrow> (int \<times> nat) option io_act" where
  "send_body fd call data tm w =
     (case sys call w of
        Some (Done n, w') \<Rightarrow>
          (let put = min n (length data) in
           if put > 0 then Some (Some (IO_DONE, put), w') else Some (Some (IO_CLOSED, 0), w'))
      | Some (Fail e, w') \<Rightarrow>
          if int e = EPIPE then Some (Some (IO_CLOSED, 0), w')
          else if int e = EINTR then Some (None, w')
          else if int e \<noteq> EAGAIN then Some (Some (int e, 0), w')
          else bindW (socket_waitfd fd WAITFD_W tm) (\<lambda>err.
            returnW (if err \<noteq> IO_DONE then Some (err, 0) else None)) w'
      | _ \<Rightarrow> None)"

definition socket_send :: "int \<Rightarrow> string \<Rightarrow> t_timeout \<Rightarrow> (int \<times> nat) io_act" where
  "socket_send fd data tm =
     (if fd = SOCKET_INVALID then returnW (IO_CLOSED, 0)
      else loopW (send_body fd (C_send fd data) data tm))"

definition socket_sendto :: "int \<Rightarrow> string \<Rightarrow> sockaddr \<Rightarrow> t_timeout \<Rightarrow> (int \<times> nat) io_act" where
  "socket_sendto fd data addr tm =
     (if fd = SOCKET_INVALID then returnW (IO_CLOSED, 0)
      else loopW (send_body fd (C_sendto fd data addr) data tm))"

section \<open>Receiving\<close>

text \<open>The error, the bytes and the sender. No bytes is the end of the stream.\<close>

definition recv_body ::
    "int \<Rightarrow> syscall \<Rightarrow> nat \<Rightarrow> t_timeout \<Rightarrow> (int \<times> string \<times> sockaddr option) option io_act" where
  "recv_body fd call count tm w =
     (case sys call w of
        Some (Bytes d a, w') \<Rightarrow>
          (let taken = take count d in
           if length taken > 0 then Some (Some (IO_DONE, taken, Some a), w')
           else Some (Some (IO_CLOSED, [], None), w'))
      | Some (Fail e, w') \<Rightarrow>
          if int e = EINTR then Some (None, w')
          else if int e \<noteq> EAGAIN then Some (Some (int e, [], None), w')
          else bindW (socket_waitfd fd WAITFD_R tm) (\<lambda>err.
            returnW (if err \<noteq> IO_DONE then Some (err, [], None) else None)) w'
      | _ \<Rightarrow> None)"

definition socket_recv :: "int \<Rightarrow> nat \<Rightarrow> t_timeout \<Rightarrow> (int \<times> string) io_act" where
  "socket_recv fd count tm =
     (if fd = SOCKET_INVALID then returnW (IO_CLOSED, [])
      else bindW (loopW (recv_body fd (C_recv fd count) count tm)) (\<lambda>(err, d, _). returnW (err, d)))"

definition socket_recvfrom :: "int \<Rightarrow> nat \<Rightarrow> t_timeout \<Rightarrow> (int \<times> string \<times> sockaddr option) io_act" where
  "socket_recvfrom fd count tm =
     (if fd = SOCKET_INVALID then returnW (IO_CLOSED, [], None)
      else loopW (recv_body fd (C_recvfrom fd count) count tm))"

section \<open>select, names and messages\<close>

text \<open>\<open>socket_select\<close> of \<open>global_select\<close>: the result and the two sets left.\<close>

definition socket_select :: "int \<Rightarrow> int list \<Rightarrow> int list \<Rightarrow> t_timeout \<Rightarrow> (int \<times> int list \<times> int list) io_act" where
  "socket_select n rfds wfds tm =
     loopW (\<lambda>w. case sys (C_selectset n rfds wfds (timeval (timeout_getretry tm (w_now w)))) w of
         Some (Fail e, w') \<Rightarrow> Some (if int e = EINTR then None else Some (- 1, rfds, wfds), w')
       | Some (Done k, w') \<Rightarrow> if k = 0 then Some (Some (0, [], []), w') else None
       | Some (ReadySet r s, w') \<Rightarrow>
           (let r = filter (\<lambda>fd. fd \<in> set rfds) r; s = filter (\<lambda>fd. fd \<in> set wfds) s
            in Some (Some (int (length r + length s), r, s), w'))
       | _ \<Rightarrow> None)"

definition name_lookup :: "syscall \<Rightarrow> (int \<times> hostent option) io_act" where
  "name_lookup c w =
     (case sys c w of
        Some (Host hp, w') \<Rightarrow> Some ((IO_DONE, Some hp), w')
      | Some (NoHost h_errno e, w') \<Rightarrow>
          Some ((if h_errno \<noteq> 0 then h_errno else if e \<noteq> 0 then e else IO_UNKNOWN, None), w')
      | _ \<Rightarrow> None)"

definition socket_gethostbyaddr :: "32 word \<Rightarrow> (int \<times> hostent option) io_act" where
  "socket_gethostbyaddr addr = name_lookup (C_gethostbyaddr addr)"

definition socket_gethostbyname :: "string \<Rightarrow> (int \<times> hostent option) io_act" where
  "socket_gethostbyname addr = name_lookup (C_gethostbyname addr)"

text \<open>\<open>strerror\<close> and \<open>hstrerror\<close> of the C library are arguments.\<close>

definition socket_hoststrerror :: "(int \<Rightarrow> string) \<Rightarrow> int \<Rightarrow> string option" where
  "socket_hoststrerror hstrerror err =
     (if err \<le> 0 then io_strerror err
      else if err = HOST_NOT_FOUND then Some ''host not found''
      else Some (hstrerror err))"

definition socket_strerror :: "(int \<Rightarrow> string) \<Rightarrow> int \<Rightarrow> int \<Rightarrow> string option" where
  "socket_strerror strerror errno err =
     (if err \<le> 0 then io_strerror err
      else if err = EADDRINUSE then Some ''address already in use''
      else if err = EISCONN then Some ''already connected''
      else if err = EACCES then Some ''permission denied''
      else if err = ECONNREFUSED then Some ''connection refused''
      else if err = ECONNABORTED then Some ''closed''
      else if err = ECONNRESET then Some ''closed''
      else if err = ETIMEDOUT then Some ''timeout''
      else Some (strerror errno))"

definition socket_ioerror :: "(int \<Rightarrow> string) \<Rightarrow> int \<Rightarrow> world \<Rightarrow> string option" where
  "socket_ioerror strerror err w = socket_strerror strerror (w_errno w) err"

section \<open>What the calls did\<close>

text \<open>The bytes delivered by, and handed to, a descriptor, read off the trace.\<close>

fun received_by :: "int \<Rightarrow> syscall \<times> sysret \<Rightarrow> string" where
  "received_by fd (C_recv fd' n, Bytes d a) = (if fd' = fd then take n d else [])"
| "received_by fd _ = []"

fun sent_by :: "int \<Rightarrow> syscall \<times> sysret \<Rightarrow> string" where
  "sent_by fd (C_send fd' data, Done n) = (if fd' = fd then take n data else [])"
| "sent_by fd _ = []"

definition received :: "int \<Rightarrow> world \<Rightarrow> string" where
  "received fd w = concat (map (received_by fd) (w_trace w))"

definition sent :: "int \<Rightarrow> world \<Rightarrow> string" where
  "sent fd w = concat (map (sent_by fd) (w_trace w))"

fun waits :: "syscall \<times> sysret \<Rightarrow> bool" where
  "waits (C_select _ _ _, _) = True"
| "waits (C_poll _ _ _, _) = True"
| "waits (C_selectset _ _ _ _, _) = True"
| "waits _ = False"

definition waiting_calls :: "world \<Rightarrow> nat" where
  "waiting_calls w = length (filter waits (w_trace w))"

lemma sys_less: "sys c w = Some (r, w') \<Longrightarrow> length (w_script w') < length (w_script w)"
  by (auto simp: sys_def split: list.splits if_splits prod.splits)

lemma sys_trace: "sys c w = Some (r, w') \<Longrightarrow> w_trace w' = w_trace w @ [(c, r)]"
  by (auto simp: sys_def split: list.splits if_splits prod.splits)

lemma sys_fail: "sys c w = Some (Fail e, w') \<Longrightarrow> 0 < e \<and> w_errno w' = int e"
  by (auto simp: sys_def split: list.splits if_splits prod.splits)

lemma sys_received:
  "sys c w = Some (r, w') \<Longrightarrow> received fd w' = received fd w @ received_by fd (c, r)"
  "sys c w = Some (r, w') \<Longrightarrow> sent fd w' = sent fd w @ sent_by fd (c, r)"
  by (simp_all add: received_def sent_def sys_trace)

lemma sys_waiting:
  "sys c w = Some (r, w') \<Longrightarrow> waiting_calls w' = waiting_calls w + (if waits (c, r) then 1 else 0)"
  by (simp add: waiting_calls_def sys_trace)

text \<open>Waiting transfers nothing; with a zero timeout it makes no call at all.\<close>

lemma waited_frame:
  assumes "waited sw (sys (C_select fd' sw tv) w) = Some (r, w')"
  shows "received fd w' = received fd w \<and> sent fd w' = sent fd w
    \<and> length (w_script w') < length (w_script w)"
proof -
  from assms obtain a where s: "sys (C_select fd' sw tv) w = Some (a, w')"
    by (auto simp: waited_def split: option.splits sysret.splits if_splits)
  from sys_received [OF s] sys_less [OF s] show ?thesis by simp
qed

lemma socket_waitfd_frame:
  assumes "socket_waitfd fd' sw tm w = Some (err, w')"
  shows "received fd w' = received fd w \<and> sent fd w' = sent fd w
    \<and> length (w_script w') \<le> length (w_script w)"
proof (cases "timeout_iszero tm")
  case True
  with assms show ?thesis by (simp add: socket_waitfd_def)
next
  case False
  with assms have l: "loopW (\<lambda>w. waited sw (sys (C_select fd' sw (timeval (timeout_getretry tm (w_now w)))) w)) w
      = Some (err, w')" by (simp add: socket_waitfd_def)
  show ?thesis
    by (rule loopW_rule [where Q = "\<lambda>_ v. received fd v = received fd w \<and> sent fd v = sent fd w
            \<and> length (w_script v) \<le> length (w_script w)"
          and I = "\<lambda>v. received fd v = received fd w \<and> sent fd v = sent fd w
            \<and> length (w_script v) \<le> length (w_script w)", OF l])
      (auto dest!: waited_frame [where fd = fd])
qed

lemma take_min: "take (min n (length xs)) xs = take n xs"
  by (simp add: min_def)

text \<open>One round of the send and receive loops.\<close>

definition sent_ok :: "int \<Rightarrow> string \<Rightarrow> world \<Rightarrow> int \<times> nat \<Rightarrow> world \<Rightarrow> bool" where
  "sent_ok fd data w res w' =
     (case res of (err, n) \<Rightarrow>
        received fd w' = received fd w
        \<and> (if err = IO_DONE then 0 < n \<and> n \<le> length data \<and> sent fd w' = sent fd w @ take n data
           else n = 0 \<and> sent fd w' = sent fd w))"

definition recv_ok :: "int \<Rightarrow> nat \<Rightarrow> world \<Rightarrow> int \<times> string \<Rightarrow> world \<Rightarrow> bool" where
  "recv_ok fd count w res w' =
     (case res of (err, d) \<Rightarrow>
        sent fd w' = sent fd w
        \<and> received fd w' = received fd w @ d
        \<and> (if err = IO_DONE then d \<noteq> [] \<and> length d \<le> count else d = []))"

lemma send_body_spec:
  assumes "send_body fd (C_send fd data) data tm w = Some (res, w')"
  shows "length (w_script w') < length (w_script w)
    \<and> (case res of None \<Rightarrow> received fd w' = received fd w \<and> sent fd w' = sent fd w
       | Some r \<Rightarrow> sent_ok fd data w r w')"
proof -
  from assms obtain a w1 where s: "sys (C_send fd data) w = Some (a, w1)"
    by (auto simp: send_body_def split: option.splits)
  note facts = sys_less [OF s] sys_received [OF s, where fd = fd]
  show ?thesis
  proof (cases a)
    case (Fail e)
    with s facts assms show ?thesis
      using sys_fail [of "C_send fd data" w e w1]
      by (auto simp: send_body_def sent_ok_def returnW_def split: if_splits option.splits
          dest!: socket_waitfd_frame [where fd = fd])
  next
    case (Done n)
    with s facts assms show ?thesis
      by (auto simp: send_body_def sent_ok_def Let_def take_min split: if_splits)
  qed (use s assms in \<open>simp_all add: send_body_def\<close>)
qed

lemma recv_body_spec:
  assumes "recv_body fd (C_recv fd count) count tm w = Some (res, w')"
  shows "length (w_script w') < length (w_script w)
    \<and> (case res of None \<Rightarrow> received fd w' = received fd w \<and> sent fd w' = sent fd w
       | Some (err, d, _) \<Rightarrow> recv_ok fd count w (err, d) w')"
proof -
  from assms obtain a w1 where s: "sys (C_recv fd count) w = Some (a, w1)"
    by (auto simp: recv_body_def split: option.splits)
  note facts = sys_less [OF s] sys_received [OF s, where fd = fd]
  show ?thesis
  proof (cases a)
    case (Fail e)
    with s facts assms show ?thesis
      using sys_fail [of "C_recv fd count" w e w1]
      by (auto simp: recv_body_def recv_ok_def returnW_def split: if_splits option.splits
          dest!: socket_waitfd_frame [where fd = fd])
  next
    case (Bytes d x)
    with s facts assms show ?thesis
      by (auto simp: recv_body_def recv_ok_def Let_def split: if_splits)
  qed (use s assms in \<open>simp_all add: recv_body_def\<close>)
qed

lemma socket_send_spec:
  assumes "socket_send fd data tm w = Some (res, w')"
  shows "sent_ok fd data w res w' \<and> (fst res = IO_DONE \<longrightarrow> length (w_script w') < length (w_script w))"
proof (cases "fd = SOCKET_INVALID")
  case True
  with assms show ?thesis by (auto simp: socket_send_def returnW_def sent_ok_def)
next
  case False
  let ?I = "\<lambda>v. received fd v = received fd w \<and> sent fd v = sent fd w \<and> length (w_script v) \<le> length (w_script w)"
  from False assms have l: "loopW (send_body fd (C_send fd data) data tm) w = Some (res, w')"
    by (simp add: socket_send_def)
  have "sent_ok fd data w res w' \<and> length (w_script w') < length (w_script w)"
  proof (rule loopW_rule [where I = ?I, OF l])
    show "?I w" by simp
    show "?I w1" if "?I v" and "send_body fd (C_send fd data) data tm v = Some (None, w1)" for v w1
      using send_body_spec [OF that(2)] that(1) by simp
    show "sent_ok fd data w r w1 \<and> length (w_script w1) < length (w_script w)"
      if "?I v" and "send_body fd (C_send fd data) data tm v = Some (Some r, w1)" for v w1 r
      using send_body_spec [OF that(2)] that(1) by (auto simp: sent_ok_def)
  qed
  then show ?thesis by blast
qed

lemma socket_recv_spec:
  assumes "socket_recv fd count tm w = Some (res, w')"
  shows "recv_ok fd count w res w' \<and> (fst res = IO_DONE \<longrightarrow> length (w_script w') < length (w_script w))"
proof (cases "fd = SOCKET_INVALID")
  case True
  with assms show ?thesis by (auto simp: socket_recv_def returnW_def recv_ok_def)
next
  case False
  let ?I = "\<lambda>v. received fd v = received fd w \<and> sent fd v = sent fd w \<and> length (w_script v) \<le> length (w_script w)"
  let ?body = "recv_body fd (C_recv fd count) count tm"
  from False assms obtain p where l: "loopW ?body w = Some ((fst res, snd res, p), w')"
    by (auto simp: socket_recv_def returnW_def split: option.splits)
  have "recv_ok fd count w (fst (fst res, snd res, p), fst (snd (fst res, snd res, p))) w'
      \<and> length (w_script w') < length (w_script w)"
  proof (rule loopW_rule [where I = ?I, OF l])
    show "?I w" by simp
    show "?I w1" if "?I v" and "?body v = Some (None, w1)" for v w1
      using recv_body_spec [OF that(2)] that(1) by simp
    show "recv_ok fd count w (fst r, fst (snd r)) w1 \<and> length (w_script w1) < length (w_script w)"
      if "?I v" and "?body v = Some (Some r, w1)" for v w1 r
      using recv_body_spec [OF that(2)] that(1) by (cases r) (auto simp: recv_ok_def)
  qed
  then show ?thesis by simp
qed

text \<open>With a zero block limit the two never wait: no \<open>select\<close> or \<open>poll\<close> is made.\<close>

lemma waitfd_zero: "timeout_iszero tm \<Longrightarrow> socket_waitfd fd sw tm w = Some (IO_TIMEOUT, w)"
  by (simp add: socket_waitfd_def)

lemma send_body_nowait:
  assumes "send_body fd call data tm w = Some (res, w')" and "timeout_iszero tm" and "\<And>r. \<not> waits (call, r)"
  shows "waiting_calls w' = waiting_calls w"
  using assms(1,3)
  by (auto simp: send_body_def waitfd_zero [OF assms(2)] returnW_def Let_def
      split: option.splits sysret.splits if_splits dest!: sys_waiting)

lemma recv_body_nowait:
  assumes "recv_body fd call count tm w = Some (res, w')" and "timeout_iszero tm" and "\<And>r. \<not> waits (call, r)"
  shows "waiting_calls w' = waiting_calls w"
  using assms(1,3)
  by (auto simp: recv_body_def waitfd_zero [OF assms(2)] returnW_def Let_def
      split: option.splits sysret.splits if_splits dest!: sys_waiting)

text \<open>One answer that settles the call, for evaluation.\<close>

lemma socket_recv_Bytes:
  assumes "fd \<noteq> SOCKET_INVALID" and "w_script w = (Bytes d a, tm') # rest" and "take n d \<noteq> []"
  shows "socket_recv fd n tm w = Some ((IO_DONE, take n d),
    w\<lparr>w_script := rest, w_now := tm', w_trace := w_trace w @ [(C_recv fd n, Bytes d a)]\<rparr>)"
  using assms by (simp add: socket_recv_def loopW.simps recv_body_def sys_def returnW_def)

lemma socket_send_Done:
  assumes "fd \<noteq> SOCKET_INVALID" and "w_script w = (Done k, tm') # rest" and "0 < min k (length d)"
  shows "socket_send fd d tm w = Some ((IO_DONE, min k (length d)),
    w\<lparr>w_script := rest, w_now := tm', w_trace := w_trace w @ [(C_send fd d, Done k)]\<rparr>)"
  using assms by (simp add: socket_send_def loopW.simps send_body_def sys_def Let_def)

section \<open>The driver\<close>

text \<open>The driver \<open>io_init\<close> builds for a socket: the three functions on its descriptor.\<close>

definition socket_io :: "(int \<Rightarrow> string) \<Rightarrow> int \<Rightarrow> world t_io" where
  "socket_io strerror fd = io_init (socket_send fd) (socket_recv fd) (socket_ioerror strerror)"

lemma socket_io_sel [simp]:
  "io_send (socket_io strerror fd) = socket_send fd"
  "io_recv (socket_io strerror fd) = socket_recv fd"
  "io_error (socket_io strerror fd) = socket_ioerror strerror"
  by (simp_all add: socket_io_def io_init_def)

interpretation socket_driver:
  io_driver "socket_io strerror fd" "received fd" "sent fd" "\<lambda>w. length (w_script w)" for strerror fd
proof
  fix n tm c err d c'
  assume "io_recv (socket_io strerror fd) n tm c = Some ((err, d), c')"
  then have "socket_recv fd n tm c = Some ((err, d), c')" by simp
  from socket_recv_spec [OF this]
  show "received fd c' = received fd c @ d \<and> sent fd c' = sent fd c
      \<and> (if err = IO_DONE then d \<noteq> [] \<and> length d \<le> n \<and> length (w_script c') < length (w_script c) else d = [])"
    by (auto simp: recv_ok_def)
next
  fix s tm c err k c'
  assume "io_send (socket_io strerror fd) s tm c = Some ((err, k), c')"
  then have "socket_send fd s tm c = Some ((err, k), c')" by simp
  from socket_send_spec [OF this]
  show "sent fd c' = sent fd c @ take k s \<and> received fd c' = received fd c
      \<and> (if err = IO_DONE then 0 < k \<and> k \<le> length s \<and> length (w_script c') < length (w_script c) else k = 0)"
    by (auto simp: sent_ok_def split: if_splits)
qed

section \<open>Properties\<close>

text \<open>
  C21. Sending and receiving account for every byte: \<open>socket_send\<close> and \<open>socket_recv\<close> report
  success exactly when at least one and at most the requested number of bytes was moved, the
  number reported is what the kernel took or delivered, and on any error, timeout or closed
  connection nothing was moved; interrupted and would-block calls are retried unseen.
\<close>

theorem socket_io_accounts:
  assumes "socket_send fd data tm w = Some ((err, n), w1)"
    and "socket_recv fd count tm v = Some ((err', d), v1)"
  shows "(if err = IO_DONE then 0 < n \<and> n \<le> length data else n = 0)
    \<and> sent fd w1 = sent fd w @ take n data \<and> received fd w1 = received fd w
    \<and> (if err' = IO_DONE then d \<noteq> [] \<and> length d \<le> count else d = [])
    \<and> received fd v1 = received fd v @ d \<and> sent fd v1 = sent fd v"
  using socket_send_spec [OF assms(1)] socket_recv_spec [OF assms(2)]
  by (auto simp: sent_ok_def recv_ok_def split: if_splits)

text \<open>
  Non-blocking mode: with a block limit of zero, sending and receiving never wait. They
  make no \<open>select\<close> or \<open>poll\<close> call, whatever the kernel answers; would-block is reported as
  a timeout.
\<close>

theorem zero_timeout_never_waits:
  assumes "block tm = 0" and "socket_send fd data tm w = Some (r, w1)"
    and "socket_recv fd count tm v = Some (r', v1)"
  shows "waiting_calls w1 = waiting_calls w \<and> waiting_calls v1 = waiting_calls v"
proof
  from assms(1) have z: "timeout_iszero tm" by (simp add: timeout_iszero_def)
  show "waiting_calls w1 = waiting_calls w"
  proof (cases "fd = SOCKET_INVALID")
    case False
    with assms(2) have "loopW (send_body fd (C_send fd data) data tm) w = Some (r, w1)"
      by (simp add: socket_send_def)
    then show ?thesis
      by (rule loopW_rule [where I = "\<lambda>u. waiting_calls u = waiting_calls w"])
        (simp_all add: send_body_nowait [OF _ z])
  qed (use assms(2) in \<open>simp add: socket_send_def returnW_def\<close>)
  show "waiting_calls v1 = waiting_calls v"
  proof (cases "fd = SOCKET_INVALID")
    case False
    with assms(3) obtain q where "loopW (recv_body fd (C_recv fd count) count tm) v = Some (q, v1)"
      by (auto simp: socket_recv_def returnW_def split: option.splits)
    then show ?thesis
      by (rule loopW_rule [where I = "\<lambda>u. waiting_calls u = waiting_calls v"])
        (simp_all add: recv_body_nowait [OF _ z])
  qed (use assms(3) in \<open>simp add: socket_recv_def returnW_def\<close>)
qed

definition sample_world :: "(sysret \<times> real) list \<Rightarrow> world" where
  "sample_world rs = \<lparr>w_script = rs, w_now = 0, w_errno = 0, w_trace = []\<rparr>"

lemmas run_simps = loopW.simps send_body_def recv_body_def socket_send_def socket_recv_def socket_waitfd_def
  sys_def sample_world_def SOCKET_INVALID_def EINTR_def EAGAIN_def EPIPE_def timeout_iszero_def returnW_def

theorem socket_io_accounts_witness:
  "\<exists>w1. socket_send 3 ''hello'' \<lparr>block = 0, total = - 1, start = 0\<rparr> (sample_world [(Fail 4, 1), (Done 2, 2)])
     = Some ((IO_DONE, 2), w1) \<and> sent 3 w1 = ''he''"
proof -
  let ?a = "\<lparr>sa_family = 2, sa_addr = 0, sa_port = 0\<rparr>"
  let ?t = "\<lparr>block = 0, total = - 1, start = 0\<rparr>"
  obtain w1 where w1: "socket_send 3 ''hello'' ?t (sample_world [(Fail 4, 1), (Done 2, 2)]) = Some ((IO_DONE, 2), w1)"
    by (simp add: run_simps)
  obtain v1 where v1: "socket_recv 3 9 ?t (sample_world [(Bytes ''ok'' ?a, 1)]) = Some ((IO_DONE, ''ok''), v1)"
    by (simp add: run_simps)
  have "sent 3 (sample_world rs) = []" for rs by (simp add: sent_def sample_world_def)
  with socket_io_accounts [OF w1 v1] w1 show ?thesis by simp
qed

theorem zero_timeout_never_waits_witness:
  "\<exists>w1. socket_send 3 ''hello'' \<lparr>block = 0, total = - 1, start = 0\<rparr> (sample_world [(Fail 11, 1)])
     = Some ((IO_TIMEOUT, 0), w1) \<and> waiting_calls w1 = 0"
proof -
  let ?a = "\<lparr>sa_family = 2, sa_addr = 0, sa_port = 0\<rparr>"
  let ?t = "\<lparr>block = 0, total = - 1, start = 0\<rparr>"
  obtain w1 where w1: "socket_send 3 ''hello'' ?t (sample_world [(Fail 11, 1)]) = Some ((IO_TIMEOUT, 0), w1)"
    by (simp add: run_simps)
  obtain v1 where v1: "socket_recv 3 9 ?t (sample_world [(Bytes ''ok'' ?a, 1)]) = Some ((IO_DONE, ''ok''), v1)"
    by (simp add: run_simps)
  have "waiting_calls (sample_world rs) = 0" for rs by (simp add: waiting_calls_def sample_world_def)
  with zero_timeout_never_waits [OF _ w1 v1] w1 show ?thesis by simp
qed

end
