(* ===== verification/Auxiliar.thy ===== *)
theory Auxiliar
  imports Usocket Lua_Format
begin

text \<open>
  Classes of socket objects, \<open>lib/src/auxiliar.c\<close>, and the state the methods of \<open>tcp.c\<close> and
  \<open>udp.c\<close> run in.

  A class is a metatable in Lua's registry; a group is a field of the class's metatable. An
  object is a full userdata \<open>LUser n\<close>: its metatable is named by its class, its block holds a
  \<open>t_tcp\<close> or a \<open>t_udp\<close>. \<open>lua_newuserdata\<close> takes the next number, so blocks never overlap.
\<close>

section \<open>Classes\<close>

text \<open>
  \<open>mt_meta\<close> are the fields of the metatable itself, \<open>mt_index\<close> those of its \<open>__index\<close> table,
  \<open>mt_class\<close> the class name stored there, \<open>mt_groups\<close> the groups.
\<close>

record metatable =
  mt_meta :: "(string \<times> string) list"
  mt_index :: "(string \<times> string) list"
  mt_class :: string
  mt_groups :: "string list"

type_synonym registry = "string \<Rightarrow> metatable option"

definition empty_metatable :: metatable where
  "empty_metatable = \<lparr>mt_meta = [], mt_index = [], mt_class = [], mt_groups = []\<rparr>"

text \<open>\<open>luaL_newmetatable\<close> keeps a metatable that exists; its \<open>__index\<close> is replaced by a new table.\<close>

definition auxiliar_newclass :: "string \<Rightarrow> (string \<times> string) list \<Rightarrow> registry \<Rightarrow> registry" where
  "auxiliar_newclass classname funcs reg =
     (let mt = (case reg classname of Some mt \<Rightarrow> mt | None \<Rightarrow> empty_metatable);
          private = (\<lambda>(nm, f). cnth nm 0 = CHR ''_'')
      in reg(classname \<mapsto> mt\<lparr>mt_class := classname,
                             mt_meta := filter private funcs @ mt_meta mt,
                             mt_index := filter (\<lambda>p. \<not> private p) funcs\<rparr>))"

definition auxiliar_add2group :: "string \<Rightarrow> string \<Rightarrow> registry \<Rightarrow> registry" where
  "auxiliar_add2group classname groupname reg =
     (case reg classname of
        Some mt \<Rightarrow> reg(classname \<mapsto> mt\<lparr>mt_groups := groupname # mt_groups mt\<rparr>)
      | None \<Rightarrow> reg)"

section \<open>The state\<close>

record t_tcp =
  t_sock :: int
  t_buf :: t_buffer
  t_tm :: t_timeout

record t_udp =
  u_sock :: int
  u_tm :: t_timeout

datatype block = TcpBlock t_tcp | UdpBlock t_udp

record sock_state =
  st_reg :: registry
  st_objs :: "nat \<Rightarrow> (string \<times> block) option"
  st_next :: nat
  st_world :: world

text \<open>
  What the C library answers for the network code: text forms of addresses, error messages,
  and the bytes of fresh memory.
\<close>

record net_conv =
  nc_lua :: lua_conv
  nc_aton :: "string \<Rightarrow> 32 word option"
  nc_ntoa :: "32 word \<Rightarrow> string"
  nc_strerror :: "int \<Rightarrow> string"
  nc_hstrerror :: "int \<Rightarrow> string"
  nc_memory :: string
  nc_tm :: t_timeout

type_synonym lua_method = "lval list \<Rightarrow> sock_state \<Rightarrow> (lua_results \<times> sock_state) option"

section \<open>Checking objects\<close>

definition object_at :: "sock_state \<Rightarrow> lval list \<Rightarrow> nat \<Rightarrow> (nat \<times> string \<times> block) option" where
  "object_at st args i =
     (case index2adr args i of
        Some (LUser n) \<Rightarrow> map_option (\<lambda>(cl, b). (n, cl, b)) (st_objs st n)
      | _ \<Rightarrow> None)"

text \<open>\<open>luaL_checkudata\<close> compares metatables and raises a type error itself.\<close>

definition auxiliar_checkclass :: "sock_state \<Rightarrow> string \<Rightarrow> lval list \<Rightarrow> nat \<Rightarrow> lua_error + (nat \<times> block)" where
  "auxiliar_checkclass st classname args i =
     (case object_at st args i of
        Some (n, cl, b) \<Rightarrow> if cl = classname then Inr (n, b) else luaL_typerror args i classname
      | None \<Rightarrow> luaL_typerror args i classname)"

text \<open>The message is cut to 35 characters of the group's name by \<open>sprintf\<close>.\<close>

definition auxiliar_checkgroup :: "sock_state \<Rightarrow> string \<Rightarrow> lval list \<Rightarrow> nat \<Rightarrow> lua_error + (nat \<times> block)" where
  "auxiliar_checkgroup st groupname args i =
     (case object_at st args i of
        Some (n, cl, b) \<Rightarrow>
          (case st_reg st cl of
             Some mt \<Rightarrow> if groupname \<in> set (mt_groups mt) then Inr (n, b)
                        else luaL_argerror i (take 35 groupname @ '' expected'')
           | None \<Rightarrow> luaL_argerror i (take 35 groupname @ '' expected''))
      | None \<Rightarrow> luaL_argerror i (take 35 groupname @ '' expected''))"

definition auxiliar_setclass :: "string \<Rightarrow> nat \<Rightarrow> sock_state \<Rightarrow> sock_state" where
  "auxiliar_setclass classname n st =
     (case st_objs st n of
        Some (_, b) \<Rightarrow> st\<lparr>st_objs := (st_objs st)(n \<mapsto> (classname, b))\<rparr>
      | None \<Rightarrow> st)"

definition auxiliar_checkboolean :: "lval list \<Rightarrow> nat \<Rightarrow> lua_error + bool" where
  "auxiliar_checkboolean args i =
     (case index2adr args i of Some (LBool b) \<Rightarrow> Inr b | _ \<Rightarrow> luaL_typerror args i ''boolean'')"

text \<open>\<open>ptr\<close> is \<open>sprintf ("%p", block)\<close>. Values other than socket objects have no class.\<close>

definition auxiliar_tostring :: "(nat \<Rightarrow> string) \<Rightarrow> lua_method" where
  "auxiliar_tostring ptr args st =
     Some ((case object_at st args 1 of
              Some (n, cl, b) \<Rightarrow>
                (case st_reg st cl of
                   Some mt \<Rightarrow> Inr [LStr (mt_class mt @ '': '' @ ptr n)]
                 | None \<Rightarrow> luaL_error (''invalid object passed to '' @ quoted ''auxiliar.c:__tostring''))
            | None \<Rightarrow> luaL_error (''invalid object passed to '' @ quoted ''auxiliar.c:__tostring'')), st)"

section \<open>Helpers for the methods\<close>

definition set_block :: "nat \<Rightarrow> block \<Rightarrow> sock_state \<Rightarrow> sock_state" where
  "set_block n b st =
     (case st_objs st n of
        Some (cl, _) \<Rightarrow> st\<lparr>st_objs := (st_objs st)(n \<mapsto> (cl, b))\<rparr>
      | None \<Rightarrow> st)"

definition new_object :: "string \<Rightarrow> block \<Rightarrow> sock_state \<Rightarrow> nat \<times> sock_state" where
  "new_object classname b st =
     (st_next st, st\<lparr>st_objs := (st_objs st)(st_next st \<mapsto> (classname, b)), st_next := Suc (st_next st)\<rparr>)"

text \<open>An error raised before anything changed, and a system call of the socket layer.\<close>

definition raising :: "lua_error + 'a \<Rightarrow> sock_state \<Rightarrow> ('a \<Rightarrow> (lua_results \<times> sock_state) option) \<Rightarrow> (lua_results \<times> sock_state) option" where
  "raising m st f = (case m of Inl e \<Rightarrow> Some (Inl e, st) | Inr a \<Rightarrow> f a)"

definition on_world :: "'a io_act \<Rightarrow> sock_state \<Rightarrow> ('a \<Rightarrow> sock_state \<Rightarrow> (lua_results \<times> sock_state) option)
    \<Rightarrow> (lua_results \<times> sock_state) option" where
  "on_world act st f =
     (case act (st_world st) of None \<Rightarrow> None | Some (a, w) \<Rightarrow> f a (st\<lparr>st_world := w\<rparr>))"

text \<open>\<open>nil, message\<close> for an error string, otherwise \<open>1\<close>.\<close>

definition err_or_one :: "string option \<Rightarrow> lua_results" where
  "err_or_one err = (case err of Some e \<Rightarrow> Inr [LNil, LStr (cstr e)] | None \<Rightarrow> Inr [LNum 1])"

lemma raising_Inr [simp]: "raising (Inr a) st f = f a"
  by (simp add: raising_def)

lemma raising_Inl [simp]: "raising (Inl e) st f = Some (Inl e, st)"
  by (simp add: raising_def)

lemma set_block_objs:
  "st_objs (set_block n b st) m =
     (if m = n then map_option (\<lambda>(cl, _). (cl, b)) (st_objs st n) else st_objs st m)"
  by (auto simp: set_block_def split: option.splits)

lemma set_block_frame [simp]:
  "st_world (set_block n b st) = st_world st" "st_reg (set_block n b st) = st_reg st"
  "st_next (set_block n b st) = st_next st"
  by (auto simp: set_block_def split: option.splits)

lemma setclass_objs:
  "st_objs (auxiliar_setclass cl n st) m =
     (if m = n then map_option (\<lambda>(_, b). (cl, b)) (st_objs st n) else st_objs st m)"
  by (auto simp: auxiliar_setclass_def split: option.splits)

lemma setclass_frame [simp]:
  "st_world (auxiliar_setclass cl n st) = st_world st" "st_reg (auxiliar_setclass cl n st) = st_reg st"
  "st_next (auxiliar_setclass cl n st) = st_next st"
  by (auto simp: auxiliar_setclass_def split: option.splits)

end
