(* ===== verification/Inet.thy ===== *)
theory Inet
  imports Auxiliar
begin

text \<open>
  Addresses and names, \<open>lib/src/inet.c\<close>, and socket options, \<open>lib/src/options.c\<close>.

  \<open>inet_aton\<close>, \<open>inet_ntoa\<close> and the error texts are those of the C library, fields of
  \<open>net_conv\<close>. Port numbers are kept in host order: \<open>htons\<close> and \<open>ntohs\<close> cancel.
\<close>

section \<open>Binding and connecting\<close>

definition AF_UNSPEC :: nat where "AF_UNSPEC = 0"
definition AF_INET :: nat where "AF_INET = 2"
definition SOCK_STREAM :: nat where "SOCK_STREAM = 1"
definition SOCK_DGRAM :: nat where "SOCK_DGRAM = 2"

text \<open>\<open>(unsigned short) luaL_checknumber (L, i)\<close>\<close>

definition u_short :: "real \<Rightarrow> 16 word" where
  "u_short r = word_of_int (trunc_real r)"

definition inet_gethost :: "net_conv \<Rightarrow> string \<Rightarrow> (int \<times> hostent option) io_act" where
  "inet_gethost nc address =
     (case nc_aton nc address of
        Some addr \<Rightarrow> socket_gethostbyaddr addr
      | None \<Rightarrow> socket_gethostbyname address)"

text \<open>The error text of the functions below, read when they return.\<close>

definition strerror_now :: "net_conv \<Rightarrow> int \<Rightarrow> string option io_act" where
  "strerror_now nc err w = Some (socket_strerror (nc_strerror nc) (w_errno w) err, w)"

definition inet_trycreate :: "net_conv \<Rightarrow> nat \<Rightarrow> (string option \<times> int) io_act" where
  "inet_trycreate nc type =
     bindW (socket_create AF_INET type 0) (\<lambda>(err, fd).
     bindW (strerror_now nc err) (\<lambda>msg. returnW (msg, fd)))"

text \<open>
  The first address of \<open>h_addr_list\<close>; an empty list is a null pointer dereference, which the
  model leaves without a result.
\<close>

definition lookup_addr :: "net_conv \<Rightarrow> string \<Rightarrow> (string option + 32 word) io_act" where
  "lookup_addr nc address =
     (case nc_aton nc address of
        Some addr \<Rightarrow> returnW (Inr addr)
      | None \<Rightarrow>
          bindW (socket_gethostbyname address) (\<lambda>(err, hp).
            if err \<noteq> IO_DONE then returnW (Inl (socket_hoststrerror (nc_hstrerror nc) err))
            else (case hp of
                Some h \<Rightarrow> (case h_addr_list h of a # _ \<Rightarrow> returnW (Inr a) | [] \<Rightarrow> (\<lambda>w. None))
              | None \<Rightarrow> (\<lambda>w. None))))"

definition inet_tryconnect :: "net_conv \<Rightarrow> int \<Rightarrow> string \<Rightarrow> 16 word \<Rightarrow> t_timeout \<Rightarrow> string option io_act" where
  "inet_tryconnect nc fd address port tm =
     bindW (if address \<noteq> ''*''
            then bindW (lookup_addr nc address) (\<lambda>r. returnW (map_sum id (Pair AF_INET) r))
            else returnW (Inr (AF_UNSPEC, 0))) (\<lambda>r.
       case r of
         Inl msg \<Rightarrow> returnW msg
       | Inr (family, addr) \<Rightarrow>
           bindW (socket_connect fd \<lparr>sa_family = family, sa_addr = addr, sa_port = port\<rparr> tm) (\<lambda>err.
             strerror_now nc err))"

text \<open>The message and the descriptor, which is destroyed when \<open>bind\<close> fails.\<close>

definition inet_trybind :: "net_conv \<Rightarrow> int \<Rightarrow> string \<Rightarrow> 16 word \<Rightarrow> (string option \<times> int) io_act" where
  "inet_trybind nc fd address port =
     bindW (if address \<noteq> ''*'' then lookup_addr nc address else returnW (Inr 0)) (\<lambda>r.
       case r of
         Inl msg \<Rightarrow> returnW (msg, fd)
       | Inr addr \<Rightarrow>
           bindW (socket_bind fd \<lparr>sa_family = AF_INET, sa_addr = addr, sa_port = port\<rparr>) (\<lambda>err.
           bindW (if err \<noteq> IO_DONE then socket_destroy fd else returnW fd) (\<lambda>fd.
           bindW (strerror_now nc err) (\<lambda>msg. returnW (msg, fd)))))"

section \<open>Names\<close>

definition string_array :: "string list \<Rightarrow> (lval \<times> lval) list" where
  "string_array xs =
     foldl (\<lambda>t (i, s). table_set t (LNum (real i)) (lua_pushstring (Some s))) [] (zip [1..<Suc (length xs)] xs)"

definition inet_pushresolved :: "net_conv \<Rightarrow> hostent \<Rightarrow> lval" where
  "inet_pushresolved nc hp =
     (let t = table_set [] (LStr ''name'') (lua_pushstring (Some (h_name hp)));
          t = table_set t (LStr ''alias'') (LTable (string_array (h_aliases hp)));
          t = table_set t (LStr ''ip'') (LTable (string_array (map (nc_ntoa nc) (h_addr_list hp))))
      in LTable t)"

definition inet_global_tohostname :: "net_conv \<Rightarrow> lua_method" where
  "inet_global_tohostname nc args st =
     raising (luaL_checkstring (nc_lua nc) args 1) st (\<lambda>address.
     on_world (inet_gethost nc address) st (\<lambda>(err, hp) st.
       case hp of
         Some h \<Rightarrow> Some (Inr [lua_pushstring (Some (h_name h)), inet_pushresolved nc h], st)
       | None \<Rightarrow> Some (Inr [LNil, lua_pushstring (socket_hoststrerror (nc_hstrerror nc) err)], st)))"

definition inet_global_toip :: "net_conv \<Rightarrow> lua_method" where
  "inet_global_toip nc args st =
     raising (luaL_checkstring (nc_lua nc) args 1) st (\<lambda>address.
     on_world (inet_gethost nc address) st (\<lambda>(err, hp) st.
       case hp of
         Some h \<Rightarrow>
           (case h_addr_list h of
              a # _ \<Rightarrow> Some (Inr [lua_pushstring (Some (nc_ntoa nc a)), inet_pushresolved nc h], st)
            | [] \<Rightarrow> None)
       | None \<Rightarrow> Some (Inr [LNil, lua_pushstring (socket_hoststrerror (nc_hstrerror nc) err)], st)))"

text \<open>\<open>name[256]\<close> is the terminator.\<close>

definition inet_global_gethostname :: "net_conv \<Rightarrow> lua_method" where
  "inet_global_gethostname nc args st =
     on_world (\<lambda>w. sys C_gethostname w) st (\<lambda>r st.
       case r of
         Fail _ \<Rightarrow> Some (Inr [LNil, LStr ''gethostname failed''], st)
       | Name nm \<Rightarrow> Some (Inr [lua_pushstring (Some (take 256 nm))], st)
       | _ \<Rightarrow> None)"

definition push_peer :: "net_conv \<Rightarrow> string \<Rightarrow> sysret \<Rightarrow> lval list option" where
  "push_peer nc failed r =
     (case r of
        Fail _ \<Rightarrow> Some [LNil, LStr failed]
      | Peer a \<Rightarrow> Some [lua_pushstring (Some (nc_ntoa nc (sa_addr a))), LNum (real (unat (sa_port a)))]
      | _ \<Rightarrow> None)"

definition inet_meth_getpeername :: "net_conv \<Rightarrow> int \<Rightarrow> lua_method" where
  "inet_meth_getpeername nc fd args st =
     on_world (sys (C_getpeername fd)) st (\<lambda>r st.
       map_option (\<lambda>vs. (Inr vs, st)) (push_peer nc ''getpeername failed'' r))"

definition inet_meth_getsockname :: "net_conv \<Rightarrow> int \<Rightarrow> lua_method" where
  "inet_meth_getsockname nc fd args st =
     on_world (sys (C_getsockname fd)) st (\<lambda>r st.
       map_option (\<lambda>vs. (Inr vs, st)) (push_peer nc ''getsockname failed'' r))"

section \<open>Options\<close>

definition SOL_SOCKET :: nat where "SOL_SOCKET = 1"
definition IPPROTO_IP :: nat where "IPPROTO_IP = 0"
definition IPPROTO_TCP :: nat where "IPPROTO_TCP = 6"
definition SO_REUSEADDR :: nat where "SO_REUSEADDR = 2"
definition SO_DONTROUTE :: nat where "SO_DONTROUTE = 5"
definition SO_BROADCAST :: nat where "SO_BROADCAST = 6"
definition SO_KEEPALIVE :: nat where "SO_KEEPALIVE = 9"
definition SO_LINGER :: nat where "SO_LINGER = 13"
definition TCP_NODELAY :: nat where "TCP_NODELAY = 1"
definition IP_MULTICAST_TTL :: nat where "IP_MULTICAST_TTL = 33"
definition IP_MULTICAST_LOOP :: nat where "IP_MULTICAST_LOOP = 34"
definition IP_ADD_MEMBERSHIP :: nat where "IP_ADD_MEMBERSHIP = 35"
definition IP_DROP_MEMBERSHIP :: nat where "IP_DROP_MEMBERSHIP = 36"

definition opt_set :: "int \<Rightarrow> nat \<Rightarrow> nat \<Rightarrow> sockopt \<Rightarrow> sock_state \<Rightarrow> (lua_results \<times> sock_state) option" where
  "opt_set fd level name val st =
     on_world (syscall_int (C_setsockopt fd level name val)) st (\<lambda>r st.
       if r < 0 then Some (Inr [LNil, LStr ''setsockopt failed''], st) else Some (Inr [LNum 1], st))"

definition opt_setboolean :: "nat \<Rightarrow> nat \<Rightarrow> int \<Rightarrow> lua_method" where
  "opt_setboolean level name fd args st =
     raising (auxiliar_checkboolean args 3) st (\<lambda>val.
       opt_set fd level name (OptInt (if val then 1 else 0)) st)"

definition checktable :: "lval list \<Rightarrow> nat \<Rightarrow> lua_error + (lval \<times> lval) list" where
  "checktable args i =
     (case index2adr args i of Some (LTable t) \<Rightarrow> Inr t | _ \<Rightarrow> luaL_typerror args i ''table'')"

definition opt_linger :: "net_conv \<Rightarrow> int \<Rightarrow> lua_method" where
  "opt_linger nc fd args st =
     raising (bindE (checktable args 3) (\<lambda>t.
       case table_get t (LStr ''on'') of
         LBool on \<Rightarrow>
           (case lua_tonumber (nc_lua nc) (Some (table_get t (LStr ''timeout''))) of
              Some n \<Rightarrow> Inr (OptLinger (if on then 1 else 0) (unat (u_short n)))
            | None \<Rightarrow> luaL_argerror 3 (''number '' @ quoted ''timeout'' @ '' field expected''))
       | _ \<Rightarrow> luaL_argerror 3 (''boolean '' @ quoted ''on'' @ '' field expected''))) st
       (\<lambda>val. opt_set fd SOL_SOCKET SO_LINGER val st)"

text \<open>As written: the option set is \<open>SO_LINGER\<close>, with the time to live as its value.\<close>

definition opt_ip_multicast_ttl :: "net_conv \<Rightarrow> int \<Rightarrow> lua_method" where
  "opt_ip_multicast_ttl nc fd args st =
     raising (luaL_checknumber (nc_lua nc) args 3) st (\<lambda>n.
       opt_set fd SOL_SOCKET SO_LINGER (OptInt (trunc_real n)) st)"

definition opt_setmembership :: "net_conv \<Rightarrow> nat \<Rightarrow> nat \<Rightarrow> int \<Rightarrow> lua_method" where
  "opt_setmembership nc level name fd args st =
     raising (bindE (checktable args 3) (\<lambda>t.
       case map_option cstr (lua_tolstring (nc_lua nc) (Some (table_get t (LStr ''multiaddr'')))) of
         None \<Rightarrow> luaL_argerror 3 (''string '' @ quoted ''multiaddr'' @ '' field expected'')
       | Some m \<Rightarrow>
           (case nc_aton nc m of
              None \<Rightarrow> luaL_argerror 3 (''invalid '' @ quoted ''multiaddr'' @ '' ip address'')
            | Some multi \<Rightarrow>
                (case map_option cstr (lua_tolstring (nc_lua nc) (Some (table_get t (LStr ''interface'')))) of
                   None \<Rightarrow> luaL_argerror 3 (''string '' @ quoted ''interface'' @ '' field expected'')
                 | Some i \<Rightarrow>
                     if i = ''*'' then Inr (OptMreq multi 0)
                     else (case nc_aton nc i of
                         Some iface \<Rightarrow> Inr (OptMreq multi iface)
                       | None \<Rightarrow> luaL_argerror 3 (''invalid '' @ quoted ''interface'' @ '' ip address'')))))) st
       (\<lambda>val. opt_set fd level name val st)"

definition opt_reuseaddr where "opt_reuseaddr = opt_setboolean SOL_SOCKET SO_REUSEADDR"
definition opt_tcp_nodelay where "opt_tcp_nodelay = opt_setboolean IPPROTO_TCP TCP_NODELAY"
definition opt_keepalive where "opt_keepalive = opt_setboolean SOL_SOCKET SO_KEEPALIVE"
definition opt_dontroute where "opt_dontroute = opt_setboolean SOL_SOCKET SO_DONTROUTE"
definition opt_broadcast where "opt_broadcast = opt_setboolean SOL_SOCKET SO_BROADCAST"
definition opt_ip_multicast_loop where "opt_ip_multicast_loop = opt_setboolean IPPROTO_IP IP_MULTICAST_LOOP"
definition opt_ip_add_membership where
  "opt_ip_add_membership nc = opt_setmembership nc IPPROTO_IP IP_ADD_MEMBERSHIP"
definition opt_ip_drop_membersip where
  "opt_ip_drop_membersip nc = opt_setmembership nc IPPROTO_IP IP_DROP_MEMBERSHIP"

text \<open>\<open>opt_meth_setoption\<close>: the table of the class decides; \<open>%.35s\<close> cuts the name in the message.\<close>

definition opt_meth_setoption :: "net_conv \<Rightarrow> (string \<times> (int \<Rightarrow> lua_method)) list \<Rightarrow> int \<Rightarrow> lua_method" where
  "opt_meth_setoption nc opts fd args st =
     raising (luaL_checkstring (nc_lua nc) args 2) st (\<lambda>name.
       case map_of opts name of
         Some func \<Rightarrow> func fd args st
       | None \<Rightarrow> Some (luaL_argerror 2 (''unsupported option `'' @ take 35 name @ [CHR 0x27]), st))"

end
