(* ===== verification/Tcp.thy ===== *)
theory Tcp
  imports Inet
begin

text \<open>
  TCP objects, \<open>lib/src/tcp.c\<close>. An object is created as \<open>tcp{master}\<close>; \<open>listen\<close> turns it into
  \<open>tcp{server}\<close>, \<open>connect\<close> into \<open>tcp{client}\<close>, and \<open>accept\<close> of a server makes new clients. Every
  lua_method checks the class or the group \<open>tcp{any}\<close> of its first argument.
\<close>

section \<open>The methods\<close>

abbreviation MASTER :: string where "MASTER \<equiv> ''tcp{master}''"
abbreviation CLIENT :: string where "CLIENT \<equiv> ''tcp{client}''"
abbreviation SERVER :: string where "SERVER \<equiv> ''tcp{server}''"
abbreviation TCP_ANY :: string where "TCP_ANY \<equiv> ''tcp{any}''"

definition tcp_methods :: "(string \<times> string) list" where
  "tcp_methods =
    [(''__gc'', ''meth_close''), (''__tostring'', ''auxiliar_tostring''), (''accept'', ''meth_accept''),
     (''bind'', ''meth_bind''), (''close'', ''meth_close''), (''connect'', ''meth_connect''),
     (''dirty'', ''meth_dirty''), (''getfd'', ''meth_getfd''), (''getpeername'', ''meth_getpeername''),
     (''getsockname'', ''meth_getsockname''), (''getstats'', ''meth_getstats''),
     (''setstats'', ''meth_setstats''), (''listen'', ''meth_listen''), (''receive'', ''meth_receive''),
     (''send'', ''meth_send''), (''setfd'', ''meth_setfd''), (''setoption'', ''meth_setoption''),
     (''setpeername'', ''meth_connect''), (''setsockname'', ''meth_bind''),
     (''settimeout'', ''meth_settimeout''), (''shutdown'', ''meth_shutdown'')]"

definition tcp_options :: "net_conv \<Rightarrow> (string \<times> (int \<Rightarrow> lua_method)) list" where
  "tcp_options nc =
    [(''keepalive'', opt_keepalive), (''reuseaddr'', opt_reuseaddr),
     (''tcp-nodelay'', opt_tcp_nodelay), (''linger'', opt_linger nc)]"

definition tcp_open :: "registry \<Rightarrow> registry" where
  "tcp_open reg =
     (let reg = auxiliar_newclass MASTER tcp_methods reg;
          reg = auxiliar_newclass CLIENT tcp_methods reg;
          reg = auxiliar_newclass SERVER tcp_methods reg;
          reg = auxiliar_add2group MASTER TCP_ANY reg;
          reg = auxiliar_add2group CLIENT TCP_ANY reg
      in auxiliar_add2group SERVER TCP_ANY reg)"

text \<open>The block of a checked object; a udp block under a tcp class would be a wild cast.\<close>

definition tcp_checkclass ::
    "string \<Rightarrow> lval list \<Rightarrow> sock_state \<Rightarrow> (nat \<Rightarrow> t_tcp \<Rightarrow> (lua_results \<times> sock_state) option) \<Rightarrow> (lua_results \<times> sock_state) option" where
  "tcp_checkclass cl args st f =
     raising (auxiliar_checkclass st cl args 1) st (\<lambda>(n, b). case b of TcpBlock t \<Rightarrow> f n t | _ \<Rightarrow> None)"

definition tcp_checkgroup ::
    "lval list \<Rightarrow> sock_state \<Rightarrow> (nat \<Rightarrow> t_tcp \<Rightarrow> (lua_results \<times> sock_state) option) \<Rightarrow> (lua_results \<times> sock_state) option" where
  "tcp_checkgroup args st f =
     raising (auxiliar_checkgroup st TCP_ANY args 1) st (\<lambda>(n, b). case b of TcpBlock t \<Rightarrow> f n t | _ \<Rightarrow> None)"

text \<open>Fuel for the buffer loops: see \<open>recv_fuel_enough\<close>.\<close>

definition io_fuel :: "world \<Rightarrow> nat" where
  "io_fuel w = 2 * length (w_script w) + 2"

definition store_result ::
    "nat \<Rightarrow> t_tcp \<Rightarrow> sock_state \<Rightarrow> world method_result \<Rightarrow> (lua_results \<times> sock_state) option" where
  "store_result n t st r =
     (case r of
        None \<Rightarrow> None
      | Some (res, buf, tm, w) \<Rightarrow>
          Some (res, set_block n (TcpBlock (t\<lparr>t_buf := buf, t_tm := tm\<rparr>)) (st\<lparr>st_world := w\<rparr>)))"

definition meth_send :: "net_conv \<Rightarrow> lua_method" where
  "meth_send nc args st =
     tcp_checkclass CLIENT args st (\<lambda>n t.
       store_result n t st
         (buffer_meth_send (io_fuel (st_world st)) (socket_io (nc_strerror nc) (t_sock t)) w_now
            (nc_lua nc) args (t_buf t) (t_tm t) (st_world st)))"

definition meth_receive :: "net_conv \<Rightarrow> lua_method" where
  "meth_receive nc args st =
     tcp_checkclass CLIENT args st (\<lambda>n t.
       store_result n t st
         (buffer_meth_receive (io_fuel (st_world st)) (socket_io (nc_strerror nc) (t_sock t)) w_now
            (nc_lua nc) args (t_buf t) (t_tm t) (st_world st)))"

definition meth_getstats :: lua_method where
  "meth_getstats args st =
     tcp_checkclass CLIENT args st (\<lambda>n t. Some (buffer_meth_getstats (w_now (st_world st)) (t_buf t), st))"

definition meth_setstats :: "net_conv \<Rightarrow> lua_method" where
  "meth_setstats nc args st =
     tcp_checkclass CLIENT args st (\<lambda>n t.
       let (r, buf) = buffer_meth_setstats (nc_lua nc) (w_now (st_world st)) args (t_buf t)
       in Some (r, set_block n (TcpBlock (t\<lparr>t_buf := buf\<rparr>)) st))"

definition meth_setoption :: "net_conv \<Rightarrow> lua_method" where
  "meth_setoption nc args st =
     tcp_checkgroup args st (\<lambda>n t. opt_meth_setoption nc (tcp_options nc) (t_sock t) args st)"

definition meth_getfd :: lua_method where
  "meth_getfd args st = tcp_checkgroup args st (\<lambda>n t. Some (Inr [LNum (of_int (t_sock t))], st))"

definition meth_setfd :: "net_conv \<Rightarrow> lua_method" where
  "meth_setfd nc args st =
     tcp_checkgroup args st (\<lambda>n t.
       raising (luaL_checknumber (nc_lua nc) args 2) st (\<lambda>d.
         Some (Inr [], set_block n (TcpBlock (t\<lparr>t_sock := trunc_real d\<rparr>)) st)))"

definition meth_dirty :: lua_method where
  "meth_dirty args st =
     tcp_checkgroup args st (\<lambda>n t. Some (Inr [LBool (\<not> buffer_isempty (t_buf t))], st))"

text \<open>The object around a new descriptor: a fresh block with its three parts initialised.\<close>

definition fresh_tcp :: "net_conv \<Rightarrow> int \<Rightarrow> world \<Rightarrow> t_tcp" where
  "fresh_tcp nc fd w =
     \<lparr>t_sock = fd, t_buf = buffer_init (w_now w) (nc_memory nc), t_tm = timeout_init (- 1) (- 1) (nc_tm nc)\<rparr>"

definition push_tcp :: "net_conv \<Rightarrow> string \<Rightarrow> int \<Rightarrow> sock_state \<Rightarrow> (lua_results \<times> sock_state) option" where
  "push_tcp nc cl fd st =
     on_world (socket_setnonblocking fd) st (\<lambda>_ st.
       let (n, st) = new_object cl (TcpBlock (fresh_tcp nc fd (st_world st))) st in Some (Inr [LUser n], st))"

definition meth_accept :: "net_conv \<Rightarrow> lua_method" where
  "meth_accept nc args st =
     tcp_checkclass SERVER args st (\<lambda>n t.
       let tm = timeout_markstart (w_now (st_world st)) (t_tm t);
           st = set_block n (TcpBlock (t\<lparr>t_tm := tm\<rparr>)) st
       in on_world (socket_accept (t_sock t) tm) st (\<lambda>(err, fd) st.
            if err = IO_DONE then push_tcp nc CLIENT fd st
            else Some (Inr [LNil, lua_pushstring (socket_strerror (nc_strerror nc) (w_errno (st_world st)) err)], st)))"

definition meth_bind :: "net_conv \<Rightarrow> lua_method" where
  "meth_bind nc args st =
     tcp_checkclass MASTER args st (\<lambda>n t.
       raising (bindE (luaL_checkstring (nc_lua nc) args 2) (\<lambda>a.
                bindE (luaL_checknumber (nc_lua nc) args 3) (\<lambda>p. Inr (a, u_short p)))) st (\<lambda>(address, port).
         on_world (inet_trybind nc (t_sock t) address port) st (\<lambda>(err, fd) st.
           Some (err_or_one err, set_block n (TcpBlock (t\<lparr>t_sock := fd\<rparr>)) st))))"

text \<open>The class changes even if the attempt failed.\<close>

definition meth_connect :: "net_conv \<Rightarrow> lua_method" where
  "meth_connect nc args st =
     tcp_checkgroup args st (\<lambda>n t.
       raising (bindE (luaL_checkstring (nc_lua nc) args 2) (\<lambda>a.
                bindE (luaL_checknumber (nc_lua nc) args 3) (\<lambda>p. Inr (a, u_short p)))) st (\<lambda>(address, port).
         let tm = timeout_markstart (w_now (st_world st)) (t_tm t);
             st = set_block n (TcpBlock (t\<lparr>t_tm := tm\<rparr>)) st
         in on_world (inet_tryconnect nc (t_sock t) address port tm) st (\<lambda>err st.
              Some (err_or_one err, auxiliar_setclass CLIENT n st))))"

definition meth_close :: lua_method where
  "meth_close args st =
     tcp_checkgroup args st (\<lambda>n t.
       on_world (socket_destroy (t_sock t)) st (\<lambda>fd st.
         Some (Inr [LNum 1], set_block n (TcpBlock (t\<lparr>t_sock := fd\<rparr>)) st)))"

definition meth_listen :: "net_conv \<Rightarrow> lua_method" where
  "meth_listen nc args st =
     tcp_checkclass MASTER args st (\<lambda>n t.
       raising (luaL_optnumber (nc_lua nc) args 2 32) st (\<lambda>b.
         on_world (socket_listen (t_sock t) (trunc_real b)) st (\<lambda>err st.
           if err \<noteq> IO_DONE then
             Some (Inr [LNil, lua_pushstring (socket_strerror (nc_strerror nc) (w_errno (st_world st)) err)], st)
           else Some (Inr [LNum 1], auxiliar_setclass SERVER n st))))"

text \<open>
  The switch looks at the first character; a word that begins with another letter shuts nothing
  down and still returns 1.
\<close>

definition shutdown_how :: "string \<Rightarrow> lua_error + nat option" where
  "shutdown_how how =
     (let bad = luaL_argerror 2 ''invalid shutdown lua_method'' in
      if cnth how 0 = CHR ''b'' then (if how \<noteq> ''both'' then bad else Inr (Some 2))
      else if cnth how 0 = CHR ''s'' then (if how \<noteq> ''send'' then bad else Inr (Some 1))
      else if cnth how 0 = CHR ''r'' then (if how \<noteq> ''receive'' then bad else Inr (Some 0))
      else Inr None)"

definition meth_shutdown :: "net_conv \<Rightarrow> lua_method" where
  "meth_shutdown nc args st =
     tcp_checkclass CLIENT args st (\<lambda>n t.
       raising (bindE (luaL_optstring (nc_lua nc) args 2 (Some ''both'')) (\<lambda>how. shutdown_how (the how))) st (\<lambda>how.
         case how of
           Some k \<Rightarrow> on_world (socket_shutdown (t_sock t) k) st (\<lambda>_ st. Some (Inr [LNum 1], st))
         | None \<Rightarrow> Some (Inr [LNum 1], st)))"

definition meth_getpeername :: "net_conv \<Rightarrow> lua_method" where
  "meth_getpeername nc args st = tcp_checkgroup args st (\<lambda>n t. inet_meth_getpeername nc (t_sock t) args st)"

definition meth_getsockname :: "net_conv \<Rightarrow> lua_method" where
  "meth_getsockname nc args st = tcp_checkgroup args st (\<lambda>n t. inet_meth_getsockname nc (t_sock t) args st)"

definition meth_settimeout :: "net_conv \<Rightarrow> lua_method" where
  "meth_settimeout nc args st =
     tcp_checkgroup args st (\<lambda>n t.
       let (r, tm) = timeout_meth_settimeout (nc_lua nc) args (t_tm t)
       in Some (r, set_block n (TcpBlock (t\<lparr>t_tm := tm\<rparr>)) st))"

definition tcp_create :: "net_conv \<Rightarrow> lua_method" where
  "tcp_create nc args st =
     on_world (inet_trycreate nc SOCK_STREAM) st (\<lambda>(err, fd) st.
       case err of
         None \<Rightarrow> push_tcp nc MASTER fd st
       | Some e \<Rightarrow> Some (Inr [LNil, LStr (cstr e)], st))"

section \<open>Receiving and sending\<close>

text \<open>A client object, and the errors of the driver as the methods report them.\<close>

definition client_at :: "sock_state \<Rightarrow> nat \<Rightarrow> t_tcp \<Rightarrow> bool" where
  "client_at st n t \<longleftrightarrow> st_objs st n = Some (CLIENT, TcpBlock t) \<and> buf_ok (t_buf t)"

lemma tcp_checkclass_client:
  "st_objs st n = Some (CLIENT, TcpBlock t) \<Longrightarrow> tcp_checkclass CLIENT (LUser n # args) st f = f n t"
  by (simp add: tcp_checkclass_def auxiliar_checkclass_def object_at_def)

lemma store_client:
  "client_at st n t \<Longrightarrow> buf_ok buf \<Longrightarrow>
     client_at (set_block n (TcpBlock (t\<lparr>t_buf := buf, t_tm := tm\<rparr>)) (st\<lparr>st_world := w\<rparr>)) n (t\<lparr>t_buf := buf, t_tm := tm\<rparr>)"
  by (simp add: client_at_def set_block_objs)

text \<open>
  C18. Receiving a line: whatever the kernel does, \<open>receive\<close> without a pattern consumes a prefix
  of the stream (the buffered bytes, then those the kernel delivers) and keeps the rest
  buffered. On success that prefix is one line with its line feed, returned without the line
  feed and without carriage returns; on an error it contains no line feed and is returned as
  the partial result, so a retry that passes it back loses nothing.
\<close>

theorem tcp_receive_line:
  assumes "client_at st n t" and "meth_receive nc [LUser n] st = Some (Inr res, st')"
  shows "\<exists>t' line new. client_at st' n t'
    \<and> received (t_sock t) (st_world st') = received (t_sock t) (st_world st) @ new
    \<and> LF \<notin> set line
    \<and> ((res = [LStr (filter (\<lambda>x. x \<noteq> CR) line), LNil, LNil]
          \<and> pending (t_buf t) @ new = line @ [LF] @ pending (t_buf t'))
       \<or> (\<exists>e. res = [LNil, e, LStr (filter (\<lambda>x. x \<noteq> CR) line)]
          \<and> pending (t_buf t) @ new = line @ pending (t_buf t')))"
proof -
  let ?io = "socket_io (nc_strerror nc) (t_sock t)"
  let ?w = "st_world st"
  let ?tm = "timeout_markstart (w_now ?w) (t_tm t)"
  from assms(1) have o: "st_objs st n = Some (CLIENT, TcpBlock t)" and b: "buf_ok (t_buf t)"
    by (simp_all add: client_at_def)
  from assms(2) obtain err acc buf' w' where r: "recvline (io_fuel ?w) ?io ?tm ([], t_buf t, ?w) = Some (err, acc, buf', w')"
    and res: "res = (if err \<noteq> IO_DONE then [LNil, lua_pushstring (io_error ?io err w'), LStr acc] else [LStr acc, LNil, LNil])"
    and st': "st' = set_block n (TcpBlock (t\<lparr>t_buf := buf', t_tm := ?tm\<rparr>)) (st\<lparr>st_world := w'\<rparr>)"
    by (auto simp: meth_receive_def tcp_checkclass_client [OF o] store_result_def buffer_meth_receive_def Let_def
        luaL_optstring_def cnth_def cstr_def split: option.splits)
  from socket_driver.recvline_spec [OF b r] obtain line where line: "acc = filter (\<lambda>x. x \<noteq> CR) line" "LF \<notin> set line"
    and c: "conserved (received (t_sock t)) (sent (t_sock t)) ?w (t_buf t) (line @ (if err = IO_DONE then [LF] else [])) w' buf'"
    by auto
  then obtain new where new: "received (t_sock t) w' = received (t_sock t) ?w @ new"
    "pending (t_buf t) @ new = (line @ (if err = IO_DONE then [LF] else [])) @ pending buf'" "buf_ok buf'"
    by (auto simp: conserved_def)
  have cl: "client_at st' n (t\<lparr>t_buf := buf', t_tm := ?tm\<rparr>)"
    unfolding st' by (rule store_client [OF assms(1) new(3)])
  have w: "st_world st' = w'" by (simp add: st')
  show ?thesis
    using cl new(1,2) line res w
    by (intro exI [of _ "t\<lparr>t_buf := buf', t_tm := ?tm\<rparr>"] exI [of _ line] exI [of _ new]) auto
qed

text \<open>
  C19. Receiving a number of bytes: \<open>receive (k)\<close> returns on success exactly the next \<open>k\<close>
  bytes of the stream and on an error at most \<open>k\<close>, as the partial result; in both cases what
  is returned plus what stays buffered is what was buffered plus what the kernel delivered.
\<close>

theorem tcp_receive_exact:
  assumes "client_at st n t" and "k < 2 ^ 64"
    and "meth_receive nc [LUser n, LNum (real k)] st = Some (Inr res, st')"
  shows "\<exists>t' raw new. client_at st' n t'
    \<and> received (t_sock t) (st_world st') = received (t_sock t) (st_world st) @ new
    \<and> pending (t_buf t) @ new = raw @ pending (t_buf t')
    \<and> ((res = [LStr raw, LNil, LNil] \<and> length raw = k)
       \<or> (\<exists>e. res = [LNil, e, LStr raw] \<and> length raw \<le> k))"
proof -
  let ?io = "socket_io (nc_strerror nc) (t_sock t)"
  let ?w = "st_world st"
  let ?tm = "timeout_markstart (w_now ?w) (t_tm t)"
  from assms(1) have o: "st_objs st n = Some (CLIENT, TcpBlock t)" and b: "buf_ok (t_buf t)"
    by (simp_all add: client_at_def)
  have k: "size_t (int k) = k" using assms(2) by (simp add: size_t_def)
  from assms(3) obtain err acc buf' w' where r: "recvraw (io_fuel ?w) ?io ?tm k ([], t_buf t, ?w) = Some (err, acc, buf', w')"
    and res: "res = (if err \<noteq> IO_DONE then [LNil, lua_pushstring (io_error ?io err w'), LStr acc] else [LStr acc, LNil, LNil])"
    and st': "st' = set_block n (TcpBlock (t\<lparr>t_buf := buf', t_tm := ?tm\<rparr>)) (st\<lparr>st_world := w'\<rparr>)"
    by (auto simp: meth_receive_def tcp_checkclass_client [OF o] store_result_def buffer_meth_receive_def Let_def k
        split: option.splits)
  from socket_driver.recvraw_spec [OF b r] obtain raw where raw: "acc = raw" "length raw \<le> k"
      "err = IO_DONE \<longrightarrow> length raw = k"
    and "conserved (received (t_sock t)) (sent (t_sock t)) ?w (t_buf t) raw w' buf'"
    by auto
  then obtain new where new: "received (t_sock t) w' = received (t_sock t) ?w @ new"
    "pending (t_buf t) @ new = raw @ pending buf'" "buf_ok buf'"
    by (auto simp: conserved_def)
  have cl: "client_at st' n (t\<lparr>t_buf := buf', t_tm := ?tm\<rparr>)"
    unfolding st' by (rule store_client [OF assms(1) new(3)])
  have w: "st_world st' = w'" by (simp add: st')
  show ?thesis
    using cl new(1,2) raw res w
    by (intro exI [of _ "t\<lparr>t_buf := buf', t_tm := ?tm\<rparr>"] exI [of _ raw] exI [of _ new]) auto
qed

text \<open>
  C20. Sending: \<open>send (data)\<close> returns on success the length of the data, all of which the
  kernel has taken in order; on an error its third result is exactly the number of bytes the
  kernel has taken, so a script can resume from there without loss or repetition.
\<close>

theorem tcp_send_accounts:
  assumes "client_at st n t" and "meth_send nc [LUser n, LStr data] st = Some (Inr res, st')"
  shows "\<exists>t' k. client_at st' n t' \<and> k \<le> length data
    \<and> sent (t_sock t) (st_world st') = sent (t_sock t) (st_world st) @ take k data
    \<and> ((res = [LNum (real k), LNil, LNil] \<and> k = length data) \<or> (\<exists>e. res = [LNil, e, LNum (real k)]))"
proof -
  let ?io = "socket_io (nc_strerror nc) (t_sock t)"
  let ?w = "st_world st"
  let ?tm = "timeout_markstart (w_now ?w) (t_tm t)"
  from assms(1) have o: "st_objs st n = Some (CLIENT, TcpBlock t)" and b: "buf_ok (t_buf t)"
    by (simp_all add: client_at_def)
  have rng: "send_range (int (length data)) 1 (- 1) = (1, int (length data))"
    by (simp add: send_range_def Let_def)
  define call where "call = (if 1 \<le> int (length data) then sendraw (io_fuel ?w) ?io ?tm
        (take (nat (int (length data) - 1 + 1)) (drop (nat (1 - 1)) data)) (t_buf t) ?w
      else Some ((IO_DONE, 0), t_buf t, ?w))"
  from assms(2) obtain err k buf' w' where r: "call = Some ((err, k), buf', w')"
    and res: "res = (if err \<noteq> IO_DONE then [LNil, lua_pushstring (io_error ?io err w'), LNum (real k)]
        else [LNum (real k), LNil, LNil])"
    and st': "st' = set_block n (TcpBlock (t\<lparr>t_buf := buf', t_tm := ?tm\<rparr>)) (st\<lparr>st_world := w'\<rparr>)"
    unfolding meth_send_def tcp_checkclass_client [OF o] store_result_def buffer_meth_send_def
    by (auto simp: luaL_checklstring_def Let_def rng call_def split: option.splits)
  have k: "k \<le> length data \<and> sent (t_sock t) w' = sent (t_sock t) ?w @ take k data
      \<and> (err = IO_DONE \<longrightarrow> k = length data) \<and> buf' = (t_buf t)\<lparr>b_sent := b_sent (t_buf t) + int k\<rparr>"
  proof (cases "1 \<le> int (length data)")
    case True
    with r have "sendraw (io_fuel ?w) ?io ?tm data (t_buf t) ?w = Some ((err, k), buf', w')" by (simp add: call_def)
    from socket_driver.sendraw_spec [OF this] show ?thesis by simp
  qed (use r in \<open>cases data; simp add: call_def\<close>)
  then have "buf_ok buf'" using b by (simp add: buf_ok_def)
  then have "client_at st' n (t\<lparr>t_buf := buf', t_tm := ?tm\<rparr>)"
    unfolding st' by (rule store_client [OF assms(1)])
  with k res show ?thesis
    by (intro exI [of _ "t\<lparr>t_buf := buf', t_tm := ?tm\<rparr>"] exI [of _ k]) (auto simp: st')
qed

text \<open>A sample client for the examples.\<close>

definition sample_tcp :: t_tcp where
  "sample_tcp = \<lparr>t_sock = 3, t_buf = buffer_init 0 (replicate BUF_SIZE NUL),
     t_tm = \<lparr>block = - 1, total = - 1, start = 0\<rparr>\<rparr>"

definition sample_state :: "string \<Rightarrow> (sysret \<times> real) list \<Rightarrow> sock_state" where
  "sample_state cl rs = \<lparr>st_reg = tcp_open (\<lambda>_. None), st_objs = (\<lambda>_. None)(0 \<mapsto> (cl, TcpBlock sample_tcp)),
     st_next = 1, st_world = sample_world rs\<rparr>"

definition sample_net :: net_conv where
  "sample_net = \<lparr>nc_lua = plain_conv, nc_aton = (\<lambda>_. Some 0), nc_ntoa = (\<lambda>_. ''0.0.0.0''),
     nc_strerror = (\<lambda>_. ''error''), nc_hstrerror = (\<lambda>_. ''error''), nc_memory = replicate BUF_SIZE NUL,
     nc_tm = \<lparr>block = 0, total = 0, start = 0\<rparr>\<rparr>"

abbreviation sample_peer :: sockaddr where
  "sample_peer \<equiv> \<lparr>sa_family = 2, sa_addr = 0, sa_port = 0\<rparr>"

lemma sample_client: "client_at (sample_state CLIENT rs) 0 sample_tcp"
  by (simp add: client_at_def sample_state_def sample_tcp_def buf_ok_def buffer_init_def BUF_SIZE_def)

lemmas sample_defs = sample_state_def sample_tcp_def sample_net_def sample_world_def plain_conv_def
  tcp_checkclass_def auxiliar_checkclass_def object_at_def store_result_def io_fuel_def
  timeout_markstart_def buffer_init_def

lemmas tcp_eval = sample_defs meth_receive_def meth_send_def buffer_meth_receive_def buffer_meth_send_def
  luaL_optstring_def luaL_checklstring_def cnth_def cstr_def recvline_def recvraw_def sendraw_def
  recvline_body_def recvraw_body_def sendraw_body_def repeatF_numeral buffer_get_def buffer_isempty_def
  socket_recv_Bytes socket_send_Done SOCKET_INVALID_def buffer_skip_def BUF_SIZE_def STEPSIZE_def
  size_t_def send_range_def

lemma result_Some: "map_option fst m = Some r \<Longrightarrow> \<exists>st'. m = Some (r, st')"
  by auto

theorem tcp_receive_line_witness:
  "\<exists>st' line. meth_receive sample_net [LUser 0] (sample_state CLIENT [(Bytes ''ok'' sample_peer, 1), (Bytes [CR, LF] sample_peer, 2)])
      = Some (Inr [LStr ''ok'', LNil, LNil], st') \<and> LF \<notin> set line \<and> filter (\<lambda>x. x \<noteq> CR) line = ''ok''"
proof -
  let ?st = "sample_state CLIENT [(Bytes ''ok'' sample_peer, 1), (Bytes [CR, LF] sample_peer, 2)]"
  have "map_option fst (meth_receive sample_net [LUser 0] ?st) = Some (Inr [LStr ''ok'', LNil, LNil])"
    by (simp add: tcp_eval del: replicate.simps)
  from result_Some [OF this] obtain st' where r: "meth_receive sample_net [LUser 0] ?st = Some (Inr [LStr ''ok'', LNil, LNil], st')" ..
  from tcp_receive_line [OF sample_client r] obtain line where
    "LF \<notin> set line" "filter (\<lambda>x. x \<noteq> CR) line = ''ok''" by auto
  with r show ?thesis by blast
qed

theorem tcp_receive_exact_witness:
  "\<exists>st' t'. meth_receive sample_net [LUser 0, LNum (real 3)] (sample_state CLIENT [(Bytes ''abcd'' sample_peer, 1)])
      = Some (Inr [LStr ''abc'', LNil, LNil], st') \<and> client_at st' 0 t'"
proof -
  let ?st = "sample_state CLIENT [(Bytes ''abcd'' sample_peer, 1)]"
  have "map_option fst (meth_receive sample_net [LUser 0, LNum (real 3)] ?st) = Some (Inr [LStr ''abc'', LNil, LNil])"
    by (simp add: tcp_eval del: replicate.simps)
  from result_Some [OF this] obtain st' where r: "meth_receive sample_net [LUser 0, LNum (real 3)] ?st = Some (Inr [LStr ''abc'', LNil, LNil], st')" ..
  have "(3::nat) < 2 ^ 64" by simp
  from tcp_receive_exact [OF sample_client this r] obtain t' where "client_at st' 0 t'" by blast
  with r show ?thesis by blast
qed

theorem tcp_send_accounts_witness:
  "\<exists>st' t'. meth_send sample_net [LUser 0, LStr ''abc''] (sample_state CLIENT [(Done 2, 1), (Done 1, 2)])
      = Some (Inr [LNum 3, LNil, LNil], st') \<and> client_at st' 0 t'"
proof -
  let ?st = "sample_state CLIENT [(Done 2, 1), (Done 1, 2)]"
  have "map_option fst (meth_send sample_net [LUser 0, LStr ''abc''] ?st) = Some (Inr [LNum 3, LNil, LNil])"
    by (simp add: tcp_eval del: replicate.simps)
  from result_Some [OF this] obtain st' where r: "meth_send sample_net [LUser 0, LStr ''abc''] ?st = Some (Inr [LNum 3, LNil, LNil], st')" ..
  from tcp_send_accounts [OF sample_client r] obtain t' where "client_at st' 0 t'" by blast
  with r show ?thesis by blast
qed

section \<open>The life of an object\<close>

text \<open>Every lua_method a script can call, and the constructor, by the names of the C functions.\<close>

definition tcp_calls :: "net_conv \<Rightarrow> lua_method list" where
  "tcp_calls nc =
    [meth_send nc, meth_receive nc, meth_getstats, meth_setstats nc, meth_setoption nc, meth_getfd,
     meth_setfd nc, meth_dirty, meth_accept nc, meth_bind nc, meth_connect nc, meth_close, meth_listen nc,
     meth_shutdown nc, meth_getpeername nc, meth_getsockname nc, meth_settimeout nc, tcp_create nc]"

inductive tcp_step :: "net_conv \<Rightarrow> sock_state \<Rightarrow> sock_state \<Rightarrow> bool" for nc where
  tcp_call: "m \<in> set (tcp_calls nc) \<Longrightarrow> m args st = Some (r, st') \<Longrightarrow> tcp_step nc st st'"

inductive_cases tcp_stepE: "tcp_step nc st st'"

text \<open>The classes an object may have after a step.\<close>

definition class_edge :: "string \<Rightarrow> string \<Rightarrow> bool" where
  "class_edge cl cl' \<longleftrightarrow> cl' = cl \<or> cl' = CLIENT \<or> (cl = MASTER \<and> cl' = SERVER)"

definition tcp_ok :: "sock_state \<Rightarrow> bool" where
  "tcp_ok st \<longleftrightarrow> (\<forall>n cl b. st_objs st n = Some (cl, b) \<longrightarrow>
     n < st_next st \<and> cl \<in> {MASTER, CLIENT, SERVER} \<and> (\<exists>t. b = TcpBlock t \<and> buf_ok (t_buf t)))"

text \<open>What a lua_method may do to the objects: \<open>evolves\<close>.\<close>

definition evolves :: "sock_state \<Rightarrow> sock_state \<Rightarrow> bool" where
  "evolves st st' \<longleftrightarrow> tcp_ok st' \<and> st_next st \<le> st_next st'
     \<and> (\<forall>n cl b. st_objs st n = Some (cl, b) \<longrightarrow> (\<exists>cl' b'. st_objs st' n = Some (cl', b') \<and> class_edge cl cl'))"

lemma evolves_refl: "tcp_ok st \<Longrightarrow> evolves st st"
  by (auto simp: evolves_def class_edge_def)

lemma evolves_world: "evolves st (st'\<lparr>st_world := w\<rparr>) \<longleftrightarrow> evolves st st'"
  by (simp add: evolves_def tcp_ok_def)

lemma evolves_from_world: "evolves (st\<lparr>st_world := w\<rparr>) st' \<longleftrightarrow> evolves st st'"
  by (simp add: evolves_def)

lemma evolves_block:
  assumes "evolves st st'" and "buf_ok (t_buf t)"
  shows "evolves st (set_block n (TcpBlock t) st')"
  using assms unfolding evolves_def tcp_ok_def set_block_objs set_block_frame
  by (auto split: if_splits)

lemma evolves_class:
  assumes "evolves st st'" and "\<forall>cl b. st_objs st n = Some (cl, b) \<longrightarrow> class_edge cl cl'"
    and "cl' = CLIENT \<or> cl' = SERVER"
  shows "evolves st (auxiliar_setclass cl' n st')"
  unfolding evolves_def
proof (intro conjI allI impI)
  show "tcp_ok (auxiliar_setclass cl' n st')"
    using assms(1,3) by (auto simp: evolves_def tcp_ok_def setclass_objs split: if_splits)
  show "st_next st \<le> st_next (auxiliar_setclass cl' n st')" using assms(1) by (simp add: evolves_def)
  fix m cl b assume m: "st_objs st m = Some (cl, b)"
  with assms(1) obtain cl1 b1 where "st_objs st' m = Some (cl1, b1)" "class_edge cl cl1"
    unfolding evolves_def by blast
  with m assms(2) show "\<exists>cl'' b'. st_objs (auxiliar_setclass cl' n st') m = Some (cl'', b') \<and> class_edge cl cl''"
    by (auto simp: setclass_objs)
qed

lemma evolves_new:
  assumes "evolves st st'" and "buf_ok (t_buf t)" and "cl \<in> {MASTER, CLIENT, SERVER}"
  shows "evolves st (snd (new_object cl (TcpBlock t) st'))"
  unfolding evolves_def
proof (intro conjI allI impI)
  show "tcp_ok (snd (new_object cl (TcpBlock t) st'))"
    using assms by (auto simp: evolves_def tcp_ok_def new_object_def less_Suc_eq split: if_splits)
  show "st_next st \<le> st_next (snd (new_object cl (TcpBlock t) st'))"
    using assms(1) by (simp add: evolves_def new_object_def)
  fix m cl0 b assume m: "st_objs st m = Some (cl0, b)"
  with assms(1) obtain cl1 b1 where "st_objs st' m = Some (cl1, b1)" "class_edge cl0 cl1"
    unfolding evolves_def by blast
  moreover have "m \<noteq> st_next st'" using calculation assms(1) by (auto simp: evolves_def tcp_ok_def)
  ultimately show "\<exists>cl' b'. st_objs (snd (new_object cl (TcpBlock t) st')) m = Some (cl', b') \<and> class_edge cl0 cl'"
    by (simp add: new_object_def)
qed

definition evolving :: "sock_state \<Rightarrow> ('a \<times> sock_state) option \<Rightarrow> bool" where
  "evolving st m \<longleftrightarrow> (\<forall>a st'. m = Some (a, st') \<longrightarrow> evolves st st')"

lemma evolving_simps [simp]: "evolving st None" "evolving st (Some (a, st')) \<longleftrightarrow> evolves st st'"
  by (auto simp: evolving_def)

lemma evolving_raising:
  "evolves st0 st \<Longrightarrow> (\<And>a. m = Inr a \<Longrightarrow> evolving st0 (f a)) \<Longrightarrow> evolving st0 (raising m st f)"
  by (cases m) auto

lemma evolving_on_world:
  "(\<And>a w. evolving st0 (f a (st\<lparr>st_world := w\<rparr>))) \<Longrightarrow> evolving st0 (on_world act st f)"
  by (auto simp: on_world_def split: option.splits)

lemma evolving_checkclass:
  assumes "tcp_ok st" and "\<And>n t. st_objs st n = Some (cl, TcpBlock t) \<Longrightarrow> buf_ok (t_buf t) \<Longrightarrow> evolving st (f n t)"
  shows "evolving st (tcp_checkclass cl args st f)"
  unfolding tcp_checkclass_def
proof (rule evolving_raising)
  show "evolves st st" by (rule evolves_refl [OF assms(1)])
  fix a assume "auxiliar_checkclass st cl args 1 = Inr a"
  then obtain n b where a: "a = (n, b)" "st_objs st n = Some (cl, b)"
    by (auto simp: auxiliar_checkclass_def object_at_def luaL_typerror_def luaL_argerror_def luaL_error_def
        split: option.splits lval.splits if_splits)
  with assms(1) obtain t where "b = TcpBlock t" "buf_ok (t_buf t)" unfolding tcp_ok_def by blast
  with a assms(2) show "evolving st (case a of (n, b) \<Rightarrow> case b of TcpBlock t \<Rightarrow> f n t | _ \<Rightarrow> None)" by simp
qed

lemma evolving_checkgroup:
  assumes "tcp_ok st" and "\<And>n cl t. st_objs st n = Some (cl, TcpBlock t) \<Longrightarrow> buf_ok (t_buf t) \<Longrightarrow> evolving st (f n t)"
  shows "evolving st (tcp_checkgroup args st f)"
  unfolding tcp_checkgroup_def
proof (rule evolving_raising)
  show "evolves st st" by (rule evolves_refl [OF assms(1)])
  fix a assume "auxiliar_checkgroup st TCP_ANY args 1 = Inr a"
  then obtain n b cl where a: "a = (n, b)" "st_objs st n = Some (cl, b)"
    by (auto simp: auxiliar_checkgroup_def object_at_def luaL_typerror_def luaL_argerror_def luaL_error_def
        split: option.splits lval.splits if_splits)
  with assms(1) obtain t where "b = TcpBlock t" "buf_ok (t_buf t)" unfolding tcp_ok_def by blast
  with a assms(2) show "evolving st (case a of (n, b) \<Rightarrow> case b of TcpBlock t \<Rightarrow> f n t | _ \<Rightarrow> None)" by simp
qed

text \<open>Each lua_method keeps the objects in order.\<close>

lemma evolves_now [simp]: "evolves st (st\<lparr>st_world := w\<rparr>) \<longleftrightarrow> evolves st st"
  by (rule evolves_world)

lemma evolves_block_same:
  "tcp_ok st \<Longrightarrow> buf_ok (t_buf t) \<Longrightarrow> evolves st (set_block n (TcpBlock t) (st\<lparr>st_world := w\<rparr>))"
  by (rule evolves_block) (simp_all add: evolves_refl)

lemma recv_ok:
  assumes "buf_ok buf"
  shows "recvraw fuel (socket_io se fd) tm k (part, buf, w) = Some (err, acc, buf', w') \<Longrightarrow> buf_ok buf'"
    and "recvall fuel (socket_io se fd) tm (part, buf, w) = Some (err, acc, buf', w') \<Longrightarrow> buf_ok buf'"
    and "recvline fuel (socket_io se fd) tm (part, buf, w) = Some (err, acc, buf', w') \<Longrightarrow> buf_ok buf'"
  using socket_driver.recvraw_spec [OF assms] socket_driver.recvall_spec [OF assms]
    socket_driver.recvline_spec [OF assms]
  by (fastforce simp: conserved_def)+

lemma buffer_receive_ok:
  assumes "buffer_meth_receive fuel (socket_io se fd) clock cv args buf tm w = Some (res, buf', tm', w')" and "buf_ok buf"
  shows "buf_ok buf'"
  using assms
  by (auto simp: buffer_meth_receive_def Let_def bindE_Inr_iff luaL_argerror_def
      split: option.splits sum.splits if_splits dest: recv_ok [OF assms(2)])

lemma buffer_send_ok:
  assumes "buffer_meth_send fuel (socket_io se fd) clock cv args buf tm w = Some (res, buf', tm', w')" and "buf_ok buf"
  shows "buf_ok buf'"
  using assms
  by (auto simp: buffer_meth_send_def Let_def buf_ok_def split: option.splits sum.splits if_splits prod.splits
      dest!: socket_driver.sendraw_spec)

lemma buffer_setstats_ok: "buf_ok buf \<Longrightarrow> buffer_meth_setstats cv now args buf = (r, buf') \<Longrightarrow> buf_ok buf'"
  by (auto simp: buffer_meth_setstats_def Let_def buf_ok_def split: sum.splits option.splits)

lemma evolving_store:
  assumes "tcp_ok st" and "\<And>res buf tm w. r = Some (res, buf, tm, w) \<Longrightarrow> buf_ok buf"
  shows "evolving st (store_result n t st r)"
  using assms by (auto simp: store_result_def evolves_block_same split: option.splits)

lemma evolving_push:
  assumes "evolves st0 st" and "length (nc_memory nc) = BUF_SIZE" and "cl \<in> {MASTER, CLIENT, SERVER}"
  shows "evolving st0 (push_tcp nc cl fd st)"
  unfolding push_tcp_def
proof (rule evolving_on_world)
  fix u w
  have "buf_ok (t_buf (fresh_tcp nc fd w))"
    using assms(2) by (simp add: fresh_tcp_def buffer_init_def buf_ok_def)
  from evolves_new [OF _ this assms(3), of st0 "st\<lparr>st_world := w\<rparr>"] assms(1)
  show "evolving st0 (let (n, st) = new_object cl (TcpBlock (fresh_tcp nc fd (st_world (st\<lparr>st_world := w\<rparr>)))) (st\<lparr>st_world := w\<rparr>)
      in Some (Inr [LUser n], st))"
    by (auto simp: evolves_world split: prod.splits)
qed

lemma evolving_option:
  "(m = None \<Longrightarrow> evolving st f) \<Longrightarrow> (\<And>a. m = Some a \<Longrightarrow> evolving st (g a)) \<Longrightarrow>
     evolving st (case m of None \<Rightarrow> f | Some a \<Rightarrow> g a)"
  by (cases m) auto

lemma evolving_prod: "(\<And>a b. x = (a, b) \<Longrightarrow> evolving st (f a b)) \<Longrightarrow> evolving st (case x of (a, b) \<Rightarrow> f a b)"
  and evolving_prod_app: "(\<And>a b. x = (a, b) \<Longrightarrow> evolving st (g a b s)) \<Longrightarrow> evolving st ((case x of (a, b) \<Rightarrow> g a b) s)"
  by (cases x; simp)+

lemma evolving_if: "(b \<Longrightarrow> evolving st m) \<Longrightarrow> (\<not> b \<Longrightarrow> evolving st m') \<Longrightarrow> evolving st (if b then m else m')"
  by simp

lemma evolving_opt_set: "tcp_ok st \<Longrightarrow> evolving st (opt_set fd level name val st)"
  unfolding opt_set_def by (rule evolving_on_world) (simp add: evolves_refl)

lemma evolving_options:
  assumes "tcp_ok st"
  shows "evolving st (opt_meth_setoption nc (tcp_options nc) fd args st)"
proof -
  have f: "evolving st (f fd args st)" if "(name, f) \<in> set (tcp_options nc)" for name f
    using that
    by (auto simp: tcp_options_def opt_keepalive_def opt_reuseaddr_def opt_tcp_nodelay_def opt_setboolean_def
        opt_linger_def intro!: evolving_raising evolving_opt_set evolves_refl assms)
  then show ?thesis
    unfolding opt_meth_setoption_def
    by (intro evolving_raising evolving_option evolves_refl assms)
      (auto simp: evolves_refl assms dest!: map_of_SomeD)
qed

lemma reading_methods_evolve:
  assumes "tcp_ok st"
  shows "evolving st (meth_send nc args st)" "evolving st (meth_receive nc args st)"
    "evolving st (meth_getstats args st)" "evolving st (meth_setoption nc args st)"
    "evolving st (meth_getfd args st)" "evolving st (meth_dirty args st)" "evolving st (meth_shutdown nc args st)"
    "evolving st (meth_getpeername nc args st)" "evolving st (meth_getsockname nc args st)"
proof -
  note intros = evolving_checkclass [OF assms] evolving_checkgroup [OF assms] evolving_raising evolving_on_world
    evolves_refl [OF assms] evolving_option
  show "evolving st (meth_send nc args st)" "evolving st (meth_receive nc args st)"
    unfolding meth_send_def meth_receive_def
    by (intro evolving_checkclass [OF assms] evolving_store [OF assms]; blast intro: buffer_send_ok buffer_receive_ok)+
  show "evolving st (meth_getstats args st)" "evolving st (meth_getfd args st)" "evolving st (meth_dirty args st)"
    unfolding meth_getstats_def meth_getfd_def meth_dirty_def by (intro intros; simp add: evolves_refl assms)+
  show "evolving st (meth_setoption nc args st)"
    unfolding meth_setoption_def by (intro intros evolving_options assms)
  show "evolving st (meth_shutdown nc args st)"
    unfolding meth_shutdown_def by (intro intros; simp add: evolves_refl assms)
  show "evolving st (meth_getpeername nc args st)" "evolving st (meth_getsockname nc args st)"
    unfolding meth_getpeername_def meth_getsockname_def inet_meth_getpeername_def inet_meth_getsockname_def
      map_option_case
    by (intro intros; simp add: evolves_refl assms)+
qed

lemma changing_methods_evolve:
  assumes "tcp_ok st" and "length (nc_memory nc) = BUF_SIZE"
  shows "evolving st (meth_setstats nc args st)" "evolving st (meth_setfd nc args st)"
    "evolving st (meth_accept nc args st)" "evolving st (meth_bind nc args st)"
    "evolving st (meth_connect nc args st)" "evolving st (meth_close args st)"
    "evolving st (meth_listen nc args st)" "evolving st (meth_settimeout nc args st)"
    "evolving st (tcp_create nc args st)"
proof -
  note intros = evolving_checkclass [OF assms(1)] evolving_checkgroup [OF assms(1)] evolving_raising evolving_on_world
    evolves_refl [OF assms(1)] evolving_option evolving_prod evolving_prod_app evolving_if
    evolving_push [OF _ assms(2)]
  note ok = evolves_refl [OF assms(1)] evolves_world evolves_block
  show "evolving st (meth_setstats nc args st)"
    unfolding meth_setstats_def
    by (intro intros; auto split: prod.split intro!: evolves_block evolves_refl assms(1) dest: buffer_setstats_ok)
  show "evolving st (meth_setfd nc args st)"
    unfolding meth_setfd_def by (intro intros; simp add: ok)
  show "evolving st (meth_settimeout nc args st)"
    unfolding meth_settimeout_def by (intro intros; simp add: ok split: prod.split)
  show "evolving st (meth_close args st)"
    unfolding meth_close_def by (intro intros; simp add: ok)
  show "evolving st (meth_bind nc args st)"
    unfolding meth_bind_def by (intro intros; simp add: ok)
  show "evolving st (meth_listen nc args st)"
    unfolding meth_listen_def by (intro intros; simp add: ok evolves_class class_edge_def)
  show "evolving st (meth_accept nc args st)"
    unfolding meth_accept_def Let_def by (intro intros; simp add: ok)
  show "evolving st (meth_connect nc args st)"
    unfolding meth_connect_def Let_def by (intro intros; simp add: ok evolves_class class_edge_def)
  show "evolving st (tcp_create nc args st)"
    unfolding tcp_create_def by (intro intros; simp add: ok)
qed

lemma tcp_step_evolves:
  assumes "tcp_step nc st st'" and "tcp_ok st" and "length (nc_memory nc) = BUF_SIZE"
  shows "evolves st st'"
proof -
  from assms(1) obtain m args r where m: "m \<in> set (tcp_calls nc)" and r: "m args st = Some (r, st')"
    by (auto elim: tcp_stepE)
  have "evolving st (m args st)"
    using m unfolding tcp_calls_def list.set insert_iff empty_iff
    by (elim disjE FalseE)
      (simp_all only: reading_methods_evolve [OF assms(2)] changing_methods_evolve [OF assms(2,3)])
  with r show ?thesis by simp
qed

lemma class_edge_trans: "class_edge a b \<Longrightarrow> class_edge b c \<Longrightarrow> class_edge a c"
  by (auto simp: class_edge_def)

lemma evolves_trans: "evolves a b \<Longrightarrow> evolves b c \<Longrightarrow> evolves a c"
  unfolding evolves_def using class_edge_trans by (meson order_trans)

text \<open>
  C9. The life of an object: from a state whose objects are well formed, any sequence of calls
  with any arguments and any behaviour of the kernel leaves all objects well formed (one of the
  three classes, a buffer within its bounds), and an object keeps its class except that it may
  become a client, or a master a server. So no object becomes a master again, and a client
  stays a client.
\<close>

theorem tcp_class_safety:
  assumes "(tcp_step nc)\<^sup>*\<^sup>* st st'" and "tcp_ok st" and "length (nc_memory nc) = BUF_SIZE"
    and "st_objs st n = Some (cl, b)"
  shows "tcp_ok st' \<and> (\<exists>cl' b'. st_objs st' n = Some (cl', b')
    \<and> (cl' = cl \<or> cl' = CLIENT \<or> cl = MASTER \<and> cl' = SERVER))"
proof -
  from assms(1,2) have "evolves st st'"
  proof (induction rule: rtranclp_induct)
    case base
    then show ?case by (rule evolves_refl)
  next
    case (step st1 st2)
    then have e: "evolves st st1" by simp
    then have "tcp_ok st1" by (simp add: evolves_def)
    from tcp_step_evolves [OF step.hyps(2) this assms(3)] e show ?case by (rule evolves_trans [rotated])
  qed
  with assms(4) show ?thesis by (auto simp: evolves_def class_edge_def)
qed

theorem tcp_class_safety_witness:
  "\<exists>st' b. tcp_step sample_net (sample_state MASTER [(Done 0, 1), (Done 0, 1), (Done 0, 1), (Done 0, 1), (Done 0, 1)]) st'
     \<and> st_objs st' 0 = Some (SERVER, b) \<and> tcp_ok st'"
proof -
  let ?st = "sample_state MASTER [(Done 0, 1), (Done 0, 1), (Done 0, 1), (Done 0, 1), (Done 0, 1)]"
  have "map_option fst (meth_listen sample_net [LUser 0] ?st) = Some (Inr [LNum 1])"
    and after: "map_option (\<lambda>(r, st'). map_option fst (st_objs st' 0)) (meth_listen sample_net [LUser 0] ?st) = Some (Some SERVER)"
    by (simp_all add: sample_defs meth_listen_def luaL_optnumber_def on_world_def socket_listen_def
        socket_setblocking_def socket_setnonblocking_def syscall_int_def sys_def returnW_def
        setclass_objs del: replicate.simps)
  from result_Some [OF this(1)] obtain st' where r: "meth_listen sample_net [LUser 0] ?st = Some (Inr [LNum 1], st')" ..
  then have step: "tcp_step sample_net ?st st'" by (intro tcp_call [of "meth_listen sample_net"]) (auto simp: tcp_calls_def)
  have ok: "tcp_ok ?st"
    by (simp add: tcp_ok_def sample_state_def sample_tcp_def buf_ok_def buffer_init_def)
  have mem: "length (nc_memory sample_net) = BUF_SIZE" by (simp add: sample_net_def)
  have "st_objs ?st 0 = Some (MASTER, TcpBlock sample_tcp)" by (simp add: sample_state_def)
  moreover have "(tcp_step sample_net)\<^sup>*\<^sup>* ?st st'" using step by (rule r_into_rtranclp)
  ultimately have "tcp_ok st'" using tcp_class_safety ok mem by blast
  with step after r show ?thesis by auto
qed

end
