(* ===== verification/Udp.thy ===== *)
theory Udp
  imports Inet
begin

text \<open>
  UDP objects, \<open>lib/src/udp.c\<close>. An object starts as \<open>udp{unconnected}\<close>; \<open>setpeername\<close> connects
  it, and disconnects it when the address is \<open>*\<close>. There is no buffer: each receive is one
  datagram. The C functions have the names of those of \<open>tcp.c\<close>; here they carry the prefix
  \<open>udp_\<close>.
\<close>

section \<open>The methods\<close>

abbreviation CONNECTED :: string where "CONNECTED \<equiv> ''udp{connected}''"
abbreviation UNCONNECTED :: string where "UNCONNECTED \<equiv> ''udp{unconnected}''"
abbreviation UDP_ANY :: string where "UDP_ANY \<equiv> ''udp{any}''"

definition UDP_DATAGRAMSIZE :: nat where "UDP_DATAGRAMSIZE = 8192"

definition udp_methods :: "(string \<times> string) list" where
  "udp_methods =
    [(''__gc'', ''meth_close''), (''__tostring'', ''auxiliar_tostring''), (''close'', ''meth_close''),
     (''dirty'', ''meth_dirty''), (''getfd'', ''meth_getfd''), (''getpeername'', ''meth_getpeername''),
     (''getsockname'', ''meth_getsockname''), (''receive'', ''meth_receive''),
     (''receivefrom'', ''meth_receivefrom''), (''send'', ''meth_send''), (''sendto'', ''meth_sendto''),
     (''setfd'', ''meth_setfd''), (''setoption'', ''meth_setoption''),
     (''setpeername'', ''meth_setpeername''), (''setsockname'', ''meth_setsockname''),
     (''settimeout'', ''meth_settimeout'')]"

definition udp_options :: "net_conv \<Rightarrow> (string \<times> (int \<Rightarrow> lua_method)) list" where
  "udp_options nc =
    [(''dontroute'', opt_dontroute), (''broadcast'', opt_broadcast), (''reuseaddr'', opt_reuseaddr),
     (''ip-multicast-ttl'', opt_ip_multicast_ttl nc), (''ip-multicast-loop'', opt_ip_multicast_loop),
     (''ip-add-membership'', opt_ip_add_membership nc), (''ip-drop-membership'', opt_ip_drop_membersip nc)]"

definition udp_open :: "registry \<Rightarrow> registry" where
  "udp_open reg =
     (let reg = auxiliar_newclass CONNECTED udp_methods reg;
          reg = auxiliar_newclass UNCONNECTED udp_methods reg;
          reg = auxiliar_add2group CONNECTED UDP_ANY reg;
          reg = auxiliar_add2group UNCONNECTED UDP_ANY reg;
          reg = auxiliar_add2group CONNECTED ''select{able}'' reg
      in auxiliar_add2group UNCONNECTED ''select{able}'' reg)"

definition udp_checkclass ::
    "string \<Rightarrow> lval list \<Rightarrow> sock_state \<Rightarrow> (nat \<Rightarrow> t_udp \<Rightarrow> (lua_results \<times> sock_state) option) \<Rightarrow> (lua_results \<times> sock_state) option" where
  "udp_checkclass cl args st f =
     raising (auxiliar_checkclass st cl args 1) st (\<lambda>(n, b). case b of UdpBlock u \<Rightarrow> f n u | _ \<Rightarrow> None)"

definition udp_checkgroup ::
    "lval list \<Rightarrow> sock_state \<Rightarrow> (nat \<Rightarrow> t_udp \<Rightarrow> (lua_results \<times> sock_state) option) \<Rightarrow> (lua_results \<times> sock_state) option" where
  "udp_checkgroup args st f =
     raising (auxiliar_checkgroup st UDP_ANY args 1) st (\<lambda>(n, b). case b of UdpBlock u \<Rightarrow> f n u | _ \<Rightarrow> None)"

text \<open>A closed error means that the transport layer did not accept the target address.\<close>

definition udp_strerror :: "net_conv \<Rightarrow> world \<Rightarrow> int \<Rightarrow> string option" where
  "udp_strerror nc w err =
     (if err = IO_CLOSED then Some ''refused'' else socket_strerror (nc_strerror nc) (w_errno w) err)"

definition udp_failed :: "net_conv \<Rightarrow> int \<Rightarrow> sock_state \<Rightarrow> (lua_results \<times> sock_state) option" where
  "udp_failed nc err st = Some (Inr [LNil, lua_pushstring (udp_strerror nc (st_world st) err)], st)"

text \<open>\<open>timeout_markstart\<close> on the object's own timeout.\<close>

definition udp_mark :: "nat \<Rightarrow> t_udp \<Rightarrow> sock_state \<Rightarrow> t_timeout \<times> sock_state" where
  "udp_mark n u st =
     (let tm = timeout_markstart (w_now (st_world st)) (u_tm u)
      in (tm, set_block n (UdpBlock (u\<lparr>u_tm := tm\<rparr>)) st))"

definition udp_meth_send :: "net_conv \<Rightarrow> lua_method" where
  "udp_meth_send nc args st =
     udp_checkclass CONNECTED args st (\<lambda>n u.
       raising (luaL_checklstring (nc_lua nc) args 2) st (\<lambda>data.
         let (tm, st) = udp_mark n u st
         in on_world (socket_send (u_sock u) data tm) st (\<lambda>(err, k) st.
              if err \<noteq> IO_DONE then udp_failed nc err st else Some (Inr [LNum (real k)], st))))"

definition udp_meth_sendto :: "net_conv \<Rightarrow> lua_method" where
  "udp_meth_sendto nc args st =
     udp_checkclass UNCONNECTED args st (\<lambda>n u.
       raising (bindE (luaL_checklstring (nc_lua nc) args 2) (\<lambda>data.
                bindE (luaL_checkstring (nc_lua nc) args 3) (\<lambda>ip.
                bindE (luaL_checknumber (nc_lua nc) args 4) (\<lambda>port.
                  case nc_aton nc ip of
                    None \<Rightarrow> luaL_argerror 3 ''invalid ip address''
                  | Some a \<Rightarrow> Inr (data, a, u_short port))))) st (\<lambda>(data, a, port).
         let (tm, st) = udp_mark n u st
         in on_world (socket_sendto (u_sock u) data \<lparr>sa_family = AF_INET, sa_addr = a, sa_port = port\<rparr> tm) st (\<lambda>(err, k) st.
              if err \<noteq> IO_DONE then udp_failed nc err st else Some (Inr [LNum (real k)], st))))"

definition datagram_count :: "real \<Rightarrow> nat" where
  "datagram_count r = min (size_t (trunc_real r)) UDP_DATAGRAMSIZE"

definition udp_meth_receive :: "net_conv \<Rightarrow> lua_method" where
  "udp_meth_receive nc args st =
     udp_checkgroup args st (\<lambda>n u.
       raising (luaL_optnumber (nc_lua nc) args 2 (real UDP_DATAGRAMSIZE)) st (\<lambda>r.
         let (tm, st) = udp_mark n u st
         in on_world (socket_recv (u_sock u) (datagram_count r) tm) st (\<lambda>(err, d) st.
              if err \<noteq> IO_DONE then udp_failed nc err st else Some (Inr [LStr d], st))))"

definition udp_meth_receivefrom :: "net_conv \<Rightarrow> lua_method" where
  "udp_meth_receivefrom nc args st =
     udp_checkclass UNCONNECTED args st (\<lambda>n u.
       raising (luaL_optnumber (nc_lua nc) args 2 (real UDP_DATAGRAMSIZE)) st (\<lambda>r.
         let (tm, st) = udp_mark n u st
         in on_world (socket_recvfrom (u_sock u) (datagram_count r) tm) st (\<lambda>(err, d, src) st.
              if err = IO_DONE then
                (case src of
                   Some a \<Rightarrow> Some (Inr [LStr d, lua_pushstring (Some (nc_ntoa nc (sa_addr a))), LNum (real (unat (sa_port a)))], st)
                 | None \<Rightarrow> None)
              else udp_failed nc err st)))"

definition udp_meth_getfd :: lua_method where
  "udp_meth_getfd args st = udp_checkgroup args st (\<lambda>n u. Some (Inr [LNum (of_int (u_sock u))], st))"

definition udp_meth_setfd :: "net_conv \<Rightarrow> lua_method" where
  "udp_meth_setfd nc args st =
     udp_checkgroup args st (\<lambda>n u.
       raising (luaL_checknumber (nc_lua nc) args 2) st (\<lambda>d.
         Some (Inr [], set_block n (UdpBlock (u\<lparr>u_sock := trunc_real d\<rparr>)) st)))"

definition udp_meth_dirty :: lua_method where
  "udp_meth_dirty args st = udp_checkgroup args st (\<lambda>n u. Some (Inr [LBool False], st))"

definition udp_meth_getpeername :: "net_conv \<Rightarrow> lua_method" where
  "udp_meth_getpeername nc args st = udp_checkclass CONNECTED args st (\<lambda>n u. inet_meth_getpeername nc (u_sock u) args st)"

definition udp_meth_getsockname :: "net_conv \<Rightarrow> lua_method" where
  "udp_meth_getsockname nc args st = udp_checkgroup args st (\<lambda>n u. inet_meth_getsockname nc (u_sock u) args st)"

definition udp_meth_setoption :: "net_conv \<Rightarrow> lua_method" where
  "udp_meth_setoption nc args st =
     udp_checkgroup args st (\<lambda>n u. opt_meth_setoption nc (udp_options nc) (u_sock u) args st)"

definition udp_meth_settimeout :: "net_conv \<Rightarrow> lua_method" where
  "udp_meth_settimeout nc args st =
     udp_checkgroup args st (\<lambda>n u.
       let (r, tm) = timeout_meth_settimeout (nc_lua nc) args (u_tm u)
       in Some (r, set_block n (UdpBlock (u\<lparr>u_tm := tm\<rparr>)) st))"

text \<open>The start of the timeout is the one of the previous operation: it is not marked here.\<close>

definition udp_meth_setpeername :: "net_conv \<Rightarrow> lua_method" where
  "udp_meth_setpeername nc args st =
     udp_checkgroup args st (\<lambda>n u.
       raising (bindE (luaL_checkstring (nc_lua nc) args 2) (\<lambda>address.
                bindE (if address \<noteq> ''*'' then luaL_checknumber (nc_lua nc) args 3
                       else luaL_optnumber (nc_lua nc) args 3 0) (\<lambda>p. Inr (address, u_short p)))) st (\<lambda>(address, port).
         on_world (inet_tryconnect nc (u_sock u) address port (u_tm u)) st (\<lambda>err st.
           case err of
             Some e \<Rightarrow> Some (Inr [LNil, LStr (cstr e)], st)
           | None \<Rightarrow>
               Some (Inr [LNum 1], if address \<noteq> ''*'' then auxiliar_setclass CONNECTED n st
                                   else auxiliar_setclass UNCONNECTED n st))))"

definition udp_meth_close :: lua_method where
  "udp_meth_close args st =
     udp_checkgroup args st (\<lambda>n u.
       on_world (socket_destroy (u_sock u)) st (\<lambda>fd st.
         Some (Inr [LNum 1], set_block n (UdpBlock (u\<lparr>u_sock := fd\<rparr>)) st)))"

definition udp_meth_setsockname :: "net_conv \<Rightarrow> lua_method" where
  "udp_meth_setsockname nc args st =
     udp_checkclass UNCONNECTED args st (\<lambda>n u.
       raising (bindE (luaL_checkstring (nc_lua nc) args 2) (\<lambda>a.
                bindE (luaL_checknumber (nc_lua nc) args 3) (\<lambda>p. Inr (a, u_short p)))) st (\<lambda>(address, port).
         on_world (inet_trybind nc (u_sock u) address port) st (\<lambda>(err, fd) st.
           Some (err_or_one err, set_block n (UdpBlock (u\<lparr>u_sock := fd\<rparr>)) st))))"

definition udp_create :: "net_conv \<Rightarrow> lua_method" where
  "udp_create nc args st =
     on_world (inet_trycreate nc SOCK_DGRAM) st (\<lambda>(err, fd) st.
       case err of
         None \<Rightarrow>
           on_world (socket_setnonblocking fd) st (\<lambda>_ st.
             let (n, st) = new_object UNCONNECTED
                   (UdpBlock \<lparr>u_sock = fd, u_tm = timeout_init (- 1) (- 1) (nc_tm nc)\<rparr>) st
             in Some (Inr [LUser n], st))
       | Some e \<Rightarrow> Some (Inr [LNil, LStr (cstr e)], st))"

section \<open>Datagrams\<close>

text \<open>The datagrams a descriptor has delivered with \<open>recvfrom\<close>, cut to the size asked for; empty ones left out.\<close>

fun datagram_of :: "int \<Rightarrow> syscall \<times> sysret \<Rightarrow> (string \<times> sockaddr) list" where
  "datagram_of fd (C_recvfrom fd' k, Bytes d a) = (if fd' = fd \<and> take k d \<noteq> [] then [(take k d, a)] else [])"
| "datagram_of fd _ = []"

definition datagrams :: "int \<Rightarrow> world \<Rightarrow> (string \<times> sockaddr) list" where
  "datagrams fd w = concat (map (datagram_of fd) (w_trace w))"

lemma sys_datagrams: "sys c w = Some (r, w') \<Longrightarrow> datagrams fd w' = datagrams fd w @ datagram_of fd (c, r)"
  by (simp add: datagrams_def sys_trace)

lemma sys_fail_datagrams: "sys c w = Some (Fail e, w') \<Longrightarrow> 0 < e \<and> datagrams fd w' = datagrams fd w"
  using sys_datagrams [of c w "Fail e" w' fd] sys_fail by (cases c) auto

lemma waitfd_datagrams:
  assumes "socket_waitfd fd' sw tm w = Some (err, w')"
  shows "datagrams fd w' = datagrams fd w"
proof (cases "timeout_iszero tm")
  case False
  have step: "datagrams fd w2 = datagrams fd w1" if "waited sw (sys (C_select fd' sw tv) w1) = Some (r, w2)" for w1 w2 tv r
  proof -
    from that obtain a where "sys (C_select fd' sw tv) w1 = Some (a, w2)"
      by (auto simp: waited_def split: option.splits sysret.splits if_splits)
    from sys_datagrams [OF this] show ?thesis by simp
  qed
  from False assms have "loopW (\<lambda>w. waited sw (sys (C_select fd' sw (timeval (timeout_getretry tm (w_now w)))) w)) w = Some (err, w')"
    by (simp add: socket_waitfd_def)
  then show ?thesis
    by (rule loopW_rule [where I = "\<lambda>u. datagrams fd u = datagrams fd w"]) (simp_all add: step)
qed (use assms in \<open>simp add: socket_waitfd_def\<close>)

lemma recvfrom_body_datagrams:
  assumes "recv_body fd (C_recvfrom fd count) count tm w = Some (r, w')"
  shows "(case r of
       Some (err, d, src) \<Rightarrow>
         (if err = IO_DONE then \<exists>a. src = Some a \<and> d \<noteq> [] \<and> length d \<le> count \<and> datagrams fd w' = datagrams fd w @ [(d, a)]
          else datagrams fd w' = datagrams fd w)
     | None \<Rightarrow> datagrams fd w' = datagrams fd w)"
proof -
  from assms obtain a w1 where a: "sys (C_recvfrom fd count) w = Some (a, w1)"
    by (auto simp: recv_body_def split: option.splits)
  note d = sys_datagrams [OF a, of fd]
  show ?thesis
  proof (cases a)
    case (Fail e)
    with a sys_fail [of _ w e w1] have "0 < e" by blast
    with assms a d Fail show ?thesis
      by (auto simp: recv_body_def returnW_def split: option.splits if_splits dest!: waitfd_datagrams [where fd = fd])
  qed (use assms a d in \<open>auto simp: recv_body_def Let_def split: if_splits\<close>)
qed

lemma socket_recvfrom_datagrams:
  assumes "socket_recvfrom fd count tm w = Some ((err, d, src), w')"
  shows "if err = IO_DONE then \<exists>a. src = Some a \<and> d \<noteq> [] \<and> length d \<le> count \<and> datagrams fd w' = datagrams fd w @ [(d, a)]
         else datagrams fd w' = datagrams fd w"
proof (cases "fd = SOCKET_INVALID")
  case False
  with assms have "loopW (recv_body fd (C_recvfrom fd count) count tm) w = Some ((err, d, src), w')"
    by (simp add: socket_recvfrom_def)
  then have "case (err, d, src) of (err, d, src) \<Rightarrow>
      if err = IO_DONE then \<exists>a. src = Some a \<and> d \<noteq> [] \<and> length d \<le> count \<and> datagrams fd w' = datagrams fd w @ [(d, a)]
      else datagrams fd w' = datagrams fd w"
    by (rule loopW_rule [where I = "\<lambda>u. datagrams fd u = datagrams fd w"])
      (auto dest!: recvfrom_body_datagrams)
  then show ?thesis by simp
qed (use assms in \<open>simp add: socket_recvfrom_def returnW_def\<close>)

lemma udp_checkclass_object:
  "st_objs st n = Some (cl, UdpBlock u) \<Longrightarrow> udp_checkclass cl (LUser n # args) st f = f n u"
  by (simp add: udp_checkclass_def auxiliar_checkclass_def object_at_def index2adr_def)

text \<open>
  Receiving a datagram: \<open>receivefrom\<close> returns the data of exactly one datagram, not empty
  and at most 8192 bytes, with the address and port it came from; or an error, and then no
  datagram has been taken from the socket (other than an empty one, which is reported as
  \<open>refused\<close>). The object keeps its class and its descriptor.
\<close>

theorem udp_receivefrom_datagram:
  assumes "st_objs st n = Some (UNCONNECTED, UdpBlock u)"
    and "udp_meth_receivefrom nc (LUser n # rest) st = Some (Inr res, st')"
  shows "(\<exists>d a. res = [LStr d, lua_pushstring (Some (nc_ntoa nc (sa_addr a))), LNum (real (unat (sa_port a)))]
          \<and> d \<noteq> [] \<and> length d \<le> UDP_DATAGRAMSIZE
          \<and> datagrams (u_sock u) (st_world st') = datagrams (u_sock u) (st_world st) @ [(d, a)]
       \<or> (\<exists>e. res = [LNil, e] \<and> datagrams (u_sock u) (st_world st') = datagrams (u_sock u) (st_world st)))
    \<and> (\<exists>tm. st_objs st' n = Some (UNCONNECTED, UdpBlock (u\<lparr>u_tm := tm\<rparr>)))"
proof -
  let ?tm = "timeout_markstart (w_now (st_world st)) (u_tm u)"
  let ?st = "set_block n (UdpBlock (u\<lparr>u_tm := ?tm\<rparr>)) st"
  from assms(2) obtain r where r: "luaL_optnumber (nc_lua nc) (LUser n # rest) 2 (real UDP_DATAGRAMSIZE) = Inr r"
    by (auto simp: udp_meth_receivefrom_def udp_checkclass_object [OF assms(1)] raising_def split: sum.splits)
  with assms(2) obtain err d src w' where s: "socket_recvfrom (u_sock u) (datagram_count r) ?tm (st_world st) = Some ((err, d, src), w')"
    and out: "(if err = IO_DONE then
                (case src of
                   Some a \<Rightarrow> Some (Inr [LStr d, lua_pushstring (Some (nc_ntoa nc (sa_addr a))), LNum (real (unat (sa_port a)))], ?st\<lparr>st_world := w'\<rparr>)
                 | None \<Rightarrow> None)
              else udp_failed nc err (?st\<lparr>st_world := w'\<rparr>)) = Some (Inr res, st')"
    by (auto simp: udp_meth_receivefrom_def udp_checkclass_object [OF assms(1)] udp_mark_def Let_def on_world_def
        split: option.splits)
  have "datagram_count r \<le> UDP_DATAGRAMSIZE" by (simp add: datagram_count_def)
  moreover have "st_objs st' n = Some (UNCONNECTED, UdpBlock (u\<lparr>u_tm := ?tm\<rparr>)) \<and> st_world st' = w'"
    using out assms(1) by (auto simp: udp_failed_def set_block_objs split: if_splits option.splits)
  ultimately show ?thesis
    using socket_recvfrom_datagrams [OF s] out
    by (cases "err = IO_DONE") (auto simp: udp_failed_def)
qed

definition sample_udp :: "string \<Rightarrow> (sysret \<times> real) list \<Rightarrow> sock_state" where
  "sample_udp cl rs = \<lparr>st_reg = udp_open (\<lambda>_. None),
     st_objs = (\<lambda>_. None)(0 \<mapsto> (cl, UdpBlock \<lparr>u_sock = 3, u_tm = \<lparr>block = - 1, total = - 1, start = 0\<rparr>\<rparr>)),
     st_next = 1, st_world = sample_world rs\<rparr>"

definition sample_udp_net :: net_conv where
  "sample_udp_net = \<lparr>nc_lua = plain_conv, nc_aton = (\<lambda>_. Some 0), nc_ntoa = (\<lambda>_. ''127.0.0.1''),
     nc_strerror = (\<lambda>_. ''error''), nc_hstrerror = (\<lambda>_. ''error''), nc_memory = [],
     nc_tm = \<lparr>block = 0, total = 0, start = 0\<rparr>\<rparr>"

theorem udp_receivefrom_datagram_witness:
  "\<exists>st' a. udp_meth_receivefrom sample_udp_net [LUser 0, LNum 2]
       (sample_udp UNCONNECTED [(Fail 11, 1), (Ready True, 2), (Bytes ''abc'' \<lparr>sa_family = 2, sa_addr = 7, sa_port = 53\<rparr>, 3)])
     = Some (Inr [LStr ''ab'', LStr ''127.0.0.1'', LNum 53], st')
     \<and> datagrams 3 (st_world st') = [(''ab'', a)]"
proof -
  let ?a = "\<lparr>sa_family = 2, sa_addr = 7, sa_port = 53\<rparr>"
  let ?st = "sample_udp UNCONNECTED [(Fail 11, 1), (Ready True, 2), (Bytes ''abc'' ?a, 3)]"
  let ?call = "udp_meth_receivefrom sample_udp_net [LUser 0, LNum 2] ?st"
  have "map_option fst ?call = Some (Inr [LStr ''ab'', LStr ''127.0.0.1'', LNum 53])"
    by (simp add: udp_meth_receivefrom_def udp_checkclass_def auxiliar_checkclass_def object_at_def index2adr_def
        sample_udp_def sample_udp_net_def luaL_optnumber_def luaL_checknumber_def plain_conv_def udp_mark_def Let_def
        timeout_markstart_def on_world_def socket_recvfrom_def datagram_count_def size_t_def UDP_DATAGRAMSIZE_def
        trunc_real_def waited_def cstr_def
        WAITFD_R_def WAITFD_C_def run_simps)
  then obtain st' where r: "?call = Some (Inr [LStr ''ab'', LStr ''127.0.0.1'', LNum 53], st')" by auto
  have o: "st_objs ?st 0 = Some (UNCONNECTED, UdpBlock \<lparr>u_sock = 3, u_tm = \<lparr>block = - 1, total = - 1, start = 0\<rparr>\<rparr>)"
    by (simp add: sample_udp_def)
  have "datagrams 3 (st_world ?st) = []" by (simp add: sample_udp_def datagrams_def sample_world_def)
  with udp_receivefrom_datagram [OF o r] r show ?thesis by auto
qed

end
