(* ===== verification/Select.thy ===== *)
theory Select
  imports Tcp Udp
begin

text \<open>
  \<open>lib/src/select.c\<close>. The two methods \<open>getfd\<close> and \<open>dirty\<close> that \<open>select\<close> calls on the members
  of its argument tables are those of any Lua object: they are arguments of the functions
  below, and \<open>object_fd\<close>, \<open>object_dirty\<close> are what they are for the objects of \<open>tcp.c\<close> and \<open>udp.c\<close>.
  Descriptor sets are lists without order or repetition of significance. \<open>FD_SET\<close>, \<open>FD_CLR\<close>
  and \<open>FD_ISSET\<close> outside \<open>0 \<dots> FD_SETSIZE - 1\<close> are undefined behaviour: no result.
\<close>

section \<open>The code\<close>

definition FD_SETSIZE :: int where "FD_SETSIZE = 1024"

definition fd_ok :: "int \<Rightarrow> bool" where
  "fd_ok fd \<longleftrightarrow> 0 \<le> fd \<and> fd < FD_SETSIZE"

text \<open>
  The members 1, 2, \<dots> of a table up to the first nil. A table with \<open>k\<close> entries has at most
  \<open>k\<close> of them (\<open>array_items_complete\<close>). A string or an object has none; anything else cannot
  be indexed.
\<close>

definition array_items :: "(lval \<times> lval) list \<Rightarrow> lval list" where
  "array_items t = takeWhile (\<lambda>v. v \<noteq> LNil) (map (\<lambda>i. table_get t (LNum (real i))) [1..<length t + 2])"

fun indexed_items :: "lval option \<Rightarrow> lua_error + lval list" where
  "indexed_items (Some (LTable t)) = Inr (array_items t)"
| "indexed_items (Some (LStr s)) = Inr []"
| "indexed_items (Some (LUser n)) = Inr []"
| "indexed_items v = luaL_error (''attempt to index a '' @ lua_typename v @ '' value'')"

text \<open>One step of each loop; a raised error ends it, \<open>None\<close> is undefined behaviour.\<close>

fun collect_items ::
    "(lval \<Rightarrow> lua_error + int) \<Rightarrow> lval list \<Rightarrow> int \<times> (lval \<times> lval) list \<times> int list
      \<Rightarrow> (lua_error + int \<times> (lval \<times> lval) list \<times> int list) option" where
  "collect_items getfd [] s = Some (Inr s)"
| "collect_items getfd (v # vs) (max_fd, itab, fds) =
     (case getfd v of
        Inl e \<Rightarrow> Some (Inl e)
      | Inr fd \<Rightarrow>
          if fd = SOCKET_INVALID then collect_items getfd vs (max_fd, itab, fds)
          else if \<not> fd_ok fd then None
          else collect_items getfd vs
                 (if max_fd = SOCKET_INVALID \<or> max_fd < fd then fd else max_fd,
                  table_set itab (LNum (of_int fd)) v, List.insert fd fds))"

definition collect_fd ::
    "(lval \<Rightarrow> lua_error + int) \<Rightarrow> lval option \<Rightarrow> int \<Rightarrow> (lval \<times> lval) list
      \<Rightarrow> (lua_error + int \<times> (lval \<times> lval) list \<times> int list) option" where
  "collect_fd getfd tab max_fd itab =
     (if tab = Some LNil then Some (Inr (max_fd, itab, []))
      else case indexed_items tab of
        Inl e \<Rightarrow> Some (Inl e)
      | Inr vs \<Rightarrow> collect_items getfd vs (max_fd, itab, []))"

fun dirty_items ::
    "(lval \<Rightarrow> lua_error + int) \<Rightarrow> (lval \<Rightarrow> lua_error + bool) \<Rightarrow> lval list \<Rightarrow> nat \<times> (lval \<times> lval) list \<times> int list
      \<Rightarrow> lua_error + nat \<times> (lval \<times> lval) list \<times> int list" where
  "dirty_items getfd dirty [] s = Inr s"
| "dirty_items getfd dirty (v # vs) (ndirty, dtab, fds) =
     bindE (getfd v) (\<lambda>fd.
       if fd = SOCKET_INVALID then dirty_items getfd dirty vs (ndirty, dtab, fds)
       else bindE (dirty v) (\<lambda>d.
         if d then dirty_items getfd dirty vs
                     (ndirty + 1, table_set dtab (LNum (real (ndirty + 1))) v, removeAll fd fds)
         else dirty_items getfd dirty vs (ndirty, dtab, fds)))"

definition check_dirty ::
    "(lval \<Rightarrow> lua_error + int) \<Rightarrow> (lval \<Rightarrow> lua_error + bool) \<Rightarrow> lval option \<Rightarrow> int list
      \<Rightarrow> lua_error + nat \<times> (lval \<times> lval) list \<times> int list" where
  "check_dirty getfd dirty tab fds =
     (if tab = Some LNil then Inr (0, [], fds)
      else bindE (indexed_items tab) (\<lambda>vs. dirty_items getfd dirty vs (0, [], fds)))"

definition return_fd :: "int list \<Rightarrow> int \<Rightarrow> (lval \<times> lval) list \<Rightarrow> (lval \<times> lval) list \<Rightarrow> nat \<Rightarrow> (lval \<times> lval) list" where
  "return_fd fds max_fd itab tab start0 =
     fst (foldl (\<lambda>(tab, k) fd.
            if fd \<in> set fds then (table_set tab (LNum (real (k + 1))) (table_get itab (LNum (of_int fd))), k + 1)
            else (tab, k)) (tab, start0) [0..max_fd - 1])"

text \<open>The table handed out: each member under its position, and its position under the member.\<close>

definition make_assoc :: "(lval \<times> lval) list \<Rightarrow> (lval \<times> lval) list" where
  "make_assoc tab =
     fst (foldl (\<lambda>(atab, i) v.
            (table_set (table_set atab (LNum (real i)) v) v (LNum (real i)), i + 1)) ([], 1 :: nat) (array_items tab))"

definition global_select ::
    "(lval \<Rightarrow> lua_error + int) \<Rightarrow> (lval \<Rightarrow> lua_error + bool) \<Rightarrow> lua_conv \<Rightarrow> t_timeout \<Rightarrow> lval list \<Rightarrow> lua_results io_act" where
  "global_select getfd dirty cv memory args w =
     (case luaL_optnumber cv args 3 (- 1) of
        Inl e \<Rightarrow> Some (Inl e, w)
      | Inr t \<Rightarrow>
         (let arg = (\<lambda>i. case index2adr args i of None \<Rightarrow> Some LNil | v \<Rightarrow> v) in
          case collect_fd getfd (arg 1) SOCKET_INVALID [] of
            None \<Rightarrow> None
          | Some (Inl e) \<Rightarrow> Some (Inl e, w)
          | Some (Inr (max_fd, itab, rset)) \<Rightarrow>
         (case check_dirty getfd dirty (arg 1) rset of
            Inl e \<Rightarrow> Some (Inl e, w)
          | Inr (ndirty, rtab, rset) \<Rightarrow>
         (let t = (if ndirty > 0 then 0 else t);
              tm = timeout_markstart (w_now w) (timeout_init t (- 1) memory) in
          case collect_fd getfd (arg 2) max_fd itab of
            None \<Rightarrow> None
          | Some (Inl e) \<Rightarrow> Some (Inl e, w)
          | Some (Inr (max_fd, itab, wset)) \<Rightarrow>
         (case socket_select (max_fd + 1) rset wset tm w of
            None \<Rightarrow> None
          | Some ((ret, rset, wset), w) \<Rightarrow>
              if ret > 0 \<or> ndirty > 0 then
                (let rtab = return_fd rset (max_fd + 1) itab rtab ndirty;
                     wtab = return_fd wset (max_fd + 1) itab [] 0
                 in Some (Inr [LTable (make_assoc rtab), LTable (make_assoc wtab)], w))
              else if ret = 0 then Some (Inr [LTable rtab, LTable [], LStr ''timeout''], w)
              else Some (Inr [LTable rtab, LTable [], LStr ''error''], w))))))"

text \<open>The methods of the socket objects, reached through the \<open>__index\<close> table of their class.\<close>

fun object_fd :: "sock_state \<Rightarrow> lval \<Rightarrow> lua_error + int" where
  "object_fd st (LUser n) =
     (case st_objs st n of
        Some (_, TcpBlock t) \<Rightarrow> Inr (t_sock t)
      | Some (_, UdpBlock u) \<Rightarrow> Inr (u_sock u)
      | None \<Rightarrow> luaL_error ''attempt to index a userdata value'')"
| "object_fd st (LStr s) = Inr SOCKET_INVALID"
| "object_fd st v = luaL_error (''attempt to index a '' @ lua_typename (Some v) @ '' value'')"

fun object_dirty :: "sock_state \<Rightarrow> lval \<Rightarrow> lua_error + bool" where
  "object_dirty st (LUser n) =
     (case st_objs st n of
        Some (_, TcpBlock t) \<Rightarrow> Inr (\<not> buffer_isempty (t_buf t))
      | Some (_, UdpBlock u) \<Rightarrow> Inr False
      | None \<Rightarrow> luaL_error ''attempt to index a userdata value'')"
| "object_dirty st (LStr s) = Inr False"
| "object_dirty st v = luaL_error (''attempt to index a '' @ lua_typename (Some v) @ '' value'')"

section \<open>Arrays in tables\<close>

text \<open>\<open>arr_tab t xs\<close>: the members of \<open>t\<close> are exactly \<open>xs\<close>.\<close>

definition arr_tab :: "(lval \<times> lval) list \<Rightarrow> lval list \<Rightarrow> bool" where
  "arr_tab t xs \<longleftrightarrow> LNil \<notin> set xs \<and> LNil \<notin> snd ` set t \<and> length xs \<le> length t
     \<and> (\<forall>i. table_get t (LNum (real i)) = (if 1 \<le> i \<and> i \<le> length xs then xs ! (i - 1) else LNil))"

lemma arr_tab_Nil [simp]: "arr_tab [] []"
  by (simp add: arr_tab_def table_get_def)

lemma length_table_set: "length (table_set t k v) = (if k \<in> fst ` set t then length t else Suc (length t))"
  by (induction t k v rule: table_set.induct) auto

lemma values_table_set: "snd ` set (table_set t k v) \<subseteq> insert v (snd ` set t)"
  by (induction t k v rule: table_set.induct) auto

lemma table_get_nil: "LNil \<notin> snd ` set t \<Longrightarrow> table_get t k = LNil \<Longrightarrow> k \<notin> fst ` set t"
  by (force simp: table_get_def map_of_eq_None_iff split: option.splits dest: map_of_SomeD)

lemma arr_tab_push:
  assumes "arr_tab t xs" and "v \<noteq> LNil"
  shows "arr_tab (table_set t (LNum (real (length xs + 1))) v) (xs @ [v])"
proof -
  have "table_get t (LNum (real (length xs + 1))) = LNil"
    using assms(1) by (simp add: arr_tab_def del: of_nat_add of_nat_Suc)
  with assms(1) have "LNum (real (length xs + 1)) \<notin> fst ` set t" by (intro table_get_nil) (simp_all add: arr_tab_def)
  with assms values_table_set [of t "LNum (real (length xs + 1))" v] show ?thesis
    by (auto simp: arr_tab_def length_table_set table_get_set nth_append simp del: of_nat_add of_nat_Suc)
qed

lemma arr_tab_other:
  assumes "arr_tab t xs" and "\<forall>r. k \<noteq> LNum r" and "v \<noteq> LNil"
  shows "arr_tab (table_set t k v) xs"
  using assms values_table_set [of t k v]
  by (auto simp: arr_tab_def length_table_set table_get_set)

lemma arr_tab_items:
  assumes "arr_tab t xs"
  shows "array_items t = xs"
proof -
  let ?g = "\<lambda>i. table_get t (LNum (real i))"
  have "[1..<length t + 2] = [1..<length xs + 1] @ [length xs + 1..<length t + 2]"
    using assms upt_add_eq_append [of 1 "length xs + 1" "length t + 1 - length xs"] by (simp add: arr_tab_def del: upt_Suc)
  moreover have "map ?g [1..<length xs + 1] = xs"
    using assms by (intro nth_equalityI) (simp_all add: arr_tab_def del: upt_Suc)
  moreover have "map ?g [length xs + 1..<length t + 2] = LNil # map ?g [length xs + 2..<length t + 2]"
    using assms by (simp add: arr_tab_def upt_conv_Cons del: upt_Suc)
  moreover have "\<forall>x \<in> set xs. x \<noteq> LNil" using assms by (auto simp: arr_tab_def)
  ultimately show ?thesis by (simp add: array_items_def takeWhile_append2)
qed

text \<open>A table with \<open>k\<close> entries has a nil among its first \<open>k + 1\<close> members: the scan sees them all.\<close>

lemma array_items_complete: "\<exists>i \<in> {1..length t + 1}. table_get t (LNum (real i)) = LNil"
proof (rule ccontr)
  assume "\<not> ?thesis"
  then have "(\<lambda>i. LNum (real i)) ` {1..length t + 1} \<subseteq> fst ` set t"
    by (force simp: table_get_def split: option.splits dest: map_of_SomeD)
  then have "card ((\<lambda>i. LNum (real i)) ` {1..length t + 1}) \<le> card (fst ` set t)"
    by (intro card_mono) auto
  also have "\<dots> \<le> length t" by (metis card_length length_map list.set_map)
  finally show False by (subst (asm) card_image) (auto simp: inj_on_def)
qed

definition is_object :: "lval \<Rightarrow> bool" where
  "is_object v \<longleftrightarrow> (\<exists>n. v = LUser n)"

lemma make_assoc_items:
  assumes "arr_tab t xs" and "list_all is_object xs"
  shows "array_items (make_assoc t) = xs"
proof -
  have "arr_tab (fst (foldl (\<lambda>(atab, i) v. (table_set (table_set atab (LNum (real i)) v) v (LNum (real i)), i + 1)) (a, i) ys))
      (ps @ ys)"
    if "arr_tab a ps" "i = length ps + 1" "list_all is_object ys" for a i ps ys
    using that
  proof (induction ys arbitrary: a i ps)
    case (Cons y ys)
    then obtain n where y: "y = LUser n" by (auto simp: is_object_def)
    from Cons.prems(1) have "arr_tab (table_set (table_set a (LNum (real i)) y) y (LNum (real i))) (ps @ [y])"
      unfolding Cons.prems(2) using y by (intro arr_tab_other arr_tab_push) auto
    from Cons.IH [OF this] Cons.prems(2,3) show ?case by simp
  qed simp
  from this [of "[]" "[]" 1 xs] assms(2) show ?thesis
    unfolding make_assoc_def arr_tab_items [OF assms(1)] by (intro arr_tab_items) simp
qed

section \<open>What \<open>select\<close> reports\<close>

lemma object_fd_object: "object_fd st v = Inr fd \<Longrightarrow> fd \<noteq> SOCKET_INVALID \<Longrightarrow> is_object v"
  by (cases v) (auto simp: is_object_def luaL_error_def)

definition fds_known :: "(lval \<times> lval) list \<Rightarrow> int list \<Rightarrow> bool" where
  "fds_known itab fds \<longleftrightarrow> (\<forall>fd \<in> set fds. is_object (table_get itab (LNum (of_int fd))))"

lemma collect_items_known:
  assumes "collect_items (object_fd st) vs (m, itab, fds) = Some (Inr (m', itab', fds'))"
    and "fds_known itab (fds @ other)"
  shows "fds_known itab' (fds' @ other)"
  using assms
proof (induction vs arbitrary: m itab fds)
  case (Cons v vs)
  then obtain fd where fd: "object_fd st v = Inr fd" by (auto split: sum.splits)
  show ?case
  proof (cases "fd = SOCKET_INVALID")
    case True
    with Cons fd show ?thesis by simp
  next
    case False
    from object_fd_object [OF fd False] Cons.prems(2)
    have "fds_known (table_set itab (LNum (of_int fd)) v) (List.insert fd fds @ other)"
      by (auto simp: fds_known_def table_get_set)
    with Cons False fd show ?thesis by (auto split: if_splits)
  qed
qed simp

lemma collect_fd_known:
  assumes "collect_fd (object_fd st) tab m itab = Some (Inr (m', itab', fds'))" and "fds_known itab other"
  shows "fds_known itab' (fds' @ other)"
  using assms collect_items_known [of st _ m itab "[]" m' itab' fds' other]
  by (auto simp: collect_fd_def split: if_splits sum.splits)

definition dirty_object :: "sock_state \<Rightarrow> lval \<Rightarrow> bool" where
  "dirty_object st v \<longleftrightarrow> object_fd st v \<noteq> Inr SOCKET_INVALID \<and> object_dirty st v = Inr True"

lemma dirty_items_spec:
  assumes "dirty_items (object_fd st) (object_dirty st) vs (k, dtab, fds) = Inr (k', dtab', fds')"
    and "arr_tab dtab ds" and "k = length ds" and "list_all is_object ds"
  shows "arr_tab dtab' (ds @ filter (dirty_object st) vs) \<and> k' = length (ds @ filter (dirty_object st) vs)
    \<and> list_all is_object (ds @ filter (dirty_object st) vs) \<and> set fds' \<subseteq> set fds"
  using assms
proof (induction vs arbitrary: k dtab fds ds)
  case (Cons v vs)
  then obtain fd where fd: "object_fd st v = Inr fd" by (auto simp: bindE_Inr_iff)
  show ?case
  proof (cases "fd \<noteq> SOCKET_INVALID \<and> dirty_object st v")
    case True
    with object_fd_object fd have o: "is_object v" by blast
    then have "arr_tab (table_set dtab (LNum (real (k + 1))) v) (ds @ [v])"
      unfolding Cons.prems(3) by (intro arr_tab_push Cons.prems) (auto simp: is_object_def)
    from Cons.IH [OF _ this, of "k + 1" "removeAll fd fds"] Cons.prems fd True o show ?thesis
      by (auto simp: dirty_object_def bindE_Inr_iff)
  next
    case False
    with Cons.prems fd have "dirty_items (object_fd st) (object_dirty st) vs (k, dtab, fds) = Inr (k', dtab', fds')"
      and "\<not> dirty_object st v"
      by (auto simp: dirty_object_def bindE_Inr_iff split: if_splits)
    with Cons show ?thesis by simp
  qed
qed simp

lemma return_fd_spec:
  assumes "arr_tab tab xs" and "list_all is_object xs" and "fds_known itab fds"
  shows "\<exists>ys. arr_tab (return_fd fds m itab tab (length xs)) (xs @ ys) \<and> list_all is_object (xs @ ys)"
proof -
  have "\<exists>ys. arr_tab (fst (foldl (\<lambda>(tab, k) fd.
            if fd \<in> set fds then (table_set tab (LNum (real (k + 1))) (table_get itab (LNum (of_int fd))), k + 1)
            else (tab, k)) (tab, length xs) js)) (xs @ ys) \<and> list_all is_object (xs @ ys)" for js
    using assms(1,2)
  proof (induction js arbitrary: tab xs)
    case Nil
    then show ?case by (intro exI [of _ "[]"]) simp
  next
    case (Cons i js)
    show ?case
    proof (cases "i \<in> set fds")
      case True
      let ?v = "table_get itab (LNum (of_int i))"
      from True assms(3) have v: "is_object ?v" by (simp add: fds_known_def)
      then have "arr_tab (table_set tab (LNum (real (length xs + 1))) ?v) (xs @ [?v])"
        by (intro arr_tab_push Cons.prems) (auto simp: is_object_def)
      from Cons.IH [OF this] v Cons.prems(2) obtain ys where
        "arr_tab (fst (foldl (\<lambda>(tab, k) fd.
            if fd \<in> set fds then (table_set tab (LNum (real (k + 1))) (table_get itab (LNum (of_int fd))), k + 1)
            else (tab, k)) (table_set tab (LNum (real (length xs + 1))) ?v, length (xs @ [?v])) js)) ((xs @ [?v]) @ ys)
          \<and> list_all is_object ((xs @ [?v]) @ ys)" by auto
      with True show ?thesis by (intro exI [of _ "?v # ys"]) simp
    next
      case False
      with Cons show ?thesis by simp
    qed
  qed
  then show ?thesis by (simp add: return_fd_def)
qed

lemma socket_select_subset:
  assumes "socket_select n r s tm w = Some ((ret, r', s'), w')"
  shows "set r' \<subseteq> set r \<and> set s' \<subseteq> set s"
proof -
  have "case (ret, r', s') of (ret, r', s') \<Rightarrow> set r' \<subseteq> set r \<and> set s' \<subseteq> set s"
    using assms unfolding socket_select_def
    by (rule loopW_rule [where I = "\<lambda>_. True"])
      (auto simp: Let_def split: option.splits sysret.splits if_splits)
  then show ?thesis by simp
qed

text \<open>A \<open>select\<close> call that does not wait.\<close>

fun polling :: "syscall \<times> sysret \<Rightarrow> bool" where
  "polling (C_selectset n r s tv, _) \<longleftrightarrow> tv = Some (0, 0)"
| "polling _ \<longleftrightarrow> False"

definition clock_ok :: "world \<Rightarrow> bool" where
  "clock_ok w \<longleftrightarrow> sorted (w_now w # map snd (w_script w))"

lemma socket_select_polls:
  assumes "socket_select n r s \<lparr>block = 0, total = - 1, start = w_now w\<rparr> w = Some (res, w')" and "clock_ok w"
  shows "\<exists>tr. w_trace w' = w_trace w @ tr \<and> list_all polling tr"
proof -
  let ?I = "\<lambda>u. (\<exists>tr. w_trace u = w_trace w @ tr \<and> list_all polling tr) \<and> w_now w \<le> w_now u \<and> clock_ok u"
  let ?tm = "\<lparr>block = 0, total = - 1, start = w_now w\<rparr>"
  have step: "?I u1" if I: "?I u" and c: "sys (C_selectset n r s (timeval (timeout_getretry ?tm (w_now u)))) u = Some (a, u1)"
    for u u1 a
  proof -
    from I have "timeout_getretry ?tm (w_now u) = 0" by (simp add: timeout_getretry_def Let_def)
    then have tv: "timeval (timeout_getretry ?tm (w_now u)) = Some (0, 0)" by (simp add: timeval_def trunc_real_def)
    from I obtain tr where "w_trace u = w_trace w @ tr" "list_all polling tr" by blast
    with sys_trace [OF c] tv have "w_trace u1 = w_trace w @ (tr @ [(C_selectset n r s (Some (0, 0)), a)])"
      "list_all polling (tr @ [(C_selectset n r s (Some (0, 0)), a)])" by simp_all
    moreover have "w_now u \<le> w_now u1 \<and> clock_ok u1"
      using I c by (force simp: sys_def clock_ok_def split: list.splits if_splits)
    ultimately show ?thesis using I by (meson order_trans)
  qed
  from assms(1) show ?thesis unfolding socket_select_def
  proof (rule loopW_rule [where I = ?I])
    show "?I w" using assms(2) by auto
  next
    fix u u1
    assume I: "?I u" and b: "(case sys (C_selectset n r s (timeval (timeout_getretry ?tm (w_now u)))) u of
         Some (Fail e, w') \<Rightarrow> Some (if int e = EINTR then None else Some (- 1, r, s), w')
       | Some (Done k, w') \<Rightarrow> if k = 0 then Some (Some (0, [], []), w') else None
       | Some (ReadySet ra sa, w') \<Rightarrow>
           (let ra = filter (\<lambda>fd. fd \<in> set r) ra; sa = filter (\<lambda>fd. fd \<in> set s) sa
            in Some (Some (int (length ra + length sa), ra, sa), w'))
       | _ \<Rightarrow> None) = Some (None, u1)"
    then obtain a where "sys (C_selectset n r s (timeval (timeout_getretry ?tm (w_now u)))) u = Some (a, u1)"
      by (auto simp: Let_def split: option.splits sysret.splits if_splits)
    from step [OF I this] show "?I u1" .
  next
    fix u u1 q
    assume I: "?I u" and b: "(case sys (C_selectset n r s (timeval (timeout_getretry ?tm (w_now u)))) u of
         Some (Fail e, w') \<Rightarrow> Some (if int e = EINTR then None else Some (- 1, r, s), w')
       | Some (Done k, w') \<Rightarrow> if k = 0 then Some (Some (0, [], []), w') else None
       | Some (ReadySet ra sa, w') \<Rightarrow>
           (let ra = filter (\<lambda>fd. fd \<in> set r) ra; sa = filter (\<lambda>fd. fd \<in> set s) sa
            in Some (Some (int (length ra + length sa), ra, sa), w'))
       | _ \<Rightarrow> None) = Some (Some q, u1)"
    then obtain a where "sys (C_selectset n r s (timeval (timeout_getretry ?tm (w_now u)))) u = Some (a, u1)"
      by (auto simp: Let_def split: option.splits sysret.splits if_splits)
    from step [OF I this] show "\<exists>tr. w_trace u1 = w_trace w @ tr \<and> list_all polling tr" by blast
  qed
qed

text \<open>
  C22. Buffered data is never missed: when some sockets of the read list hold data in their
  buffers, \<open>select\<close> returns them, all of them and in the order of the list, before any other,
  and it only polls the kernel: every \<open>select\<close> call it makes has a zero timeout, whatever
  timeout the script asked for and however often the call is interrupted, as long as the clock
  does not run backwards.
\<close>

theorem select_never_misses_buffered:
  assumes "index2adr args 1 = Some (LTable t)" and "filter (dirty_object st) (array_items t) \<noteq> []"
    and "global_select (object_fd st) (object_dirty st) cv memory args w = Some (Inr res, w')"
    and "clock_ok w"
  shows "\<exists>r s. res = [LTable r, LTable s]
    \<and> take (length (filter (dirty_object st) (array_items t))) (array_items r) = filter (dirty_object st) (array_items t)
    \<and> (\<exists>tr. w_trace w' = w_trace w @ tr \<and> list_all polling tr)"
proof -
  let ?ds = "filter (dirty_object st) (array_items t)"
  let ?tm = "\<lparr>block = 0, total = - 1, start = w_now w\<rparr>"
  define arg2 where "arg2 = (case index2adr args 2 of None \<Rightarrow> Some LNil | v \<Rightarrow> v)"
  from assms(1,3) obtain m itab rset k rtab rset' where
    c: "collect_fd (object_fd st) (Some (LTable t)) SOCKET_INVALID [] = Some (Inr (m, itab, rset))"
    and d: "check_dirty (object_fd st) (object_dirty st) (Some (LTable t)) rset = Inr (k, rtab, rset')"
    by (auto simp: global_select_def Let_def split: option.splits sum.splits prod.splits)
  from d have "dirty_items (object_fd st) (object_dirty st) (array_items t) (0, [], rset) = Inr (k, rtab, rset')"
    by (simp add: check_dirty_def)
  from dirty_items_spec [OF this, of "[]"]
  have rtab: "arr_tab rtab ?ds" "k = length ?ds" "list_all is_object ?ds" "set rset' \<subseteq> set rset" by simp_all
  with assms(2) have k: "0 < k" by simp
  have tm: "memory\<lparr>block := 0, total := - 1, start := w_now w\<rparr> = ?tm" by (cases memory) simp
  from assms(1,3) c d k obtain m' itab' wset ret r s where
    c2: "collect_fd (object_fd st) arg2 m itab = Some (Inr (m', itab', wset))"
    and sel: "socket_select (m' + 1) rset' wset ?tm w = Some ((ret, r, s), w')"
    and res: "res = [LTable (make_assoc (return_fd r (m' + 1) itab' rtab k)),
                     LTable (make_assoc (return_fd s (m' + 1) itab' [] 0))]"
    by (auto simp: global_select_def Let_def arg2_def timeout_markstart_def timeout_init_def tm
        split: option.splits sum.splits prod.splits)
  have "fds_known itab rset" using collect_fd_known [OF c, of "[]"] by (simp add: fds_known_def)
  from collect_fd_known [OF c2 this] have known: "fds_known itab' (wset @ rset)" .
  have "fds_known itab' r" using known socket_select_subset [OF sel] rtab(4) by (auto simp: fds_known_def)
  from return_fd_spec [OF rtab(1,3) this] obtain ys where
    ys: "arr_tab (return_fd r (m' + 1) itab' rtab k) (?ds @ ys)" "list_all is_object (?ds @ ys)"
    unfolding rtab(2) by blast
  have "array_items (make_assoc (return_fd r (m' + 1) itab' rtab k)) = ?ds @ ys" by (rule make_assoc_items [OF ys])
  with res socket_select_polls [OF sel assms(4)] show ?thesis by simp
qed

text \<open>One client with a byte in its buffer; the kernel reports nothing.\<close>

definition buffered_state :: sock_state where
  "buffered_state = set_block 0 (TcpBlock (sample_tcp\<lparr>t_buf := (t_buf sample_tcp)\<lparr>b_last := 1\<rparr>\<rparr>)) (sample_state CLIENT [])"

lemma buffered_state_objs: "st_objs buffered_state 0 = Some (CLIENT, TcpBlock (sample_tcp\<lparr>t_buf := (t_buf sample_tcp)\<lparr>b_last := 1\<rparr>\<rparr>))"
  by (simp add: buffered_state_def set_block_objs sample_state_def)

lemma buffered_state_client:
  "object_fd buffered_state (LUser 0) = Inr 3" "object_dirty buffered_state (LUser 0) = Inr True"
  by (simp_all add: buffered_state_objs sample_tcp_def buffer_isempty_def buffer_init_def)

theorem select_never_misses_buffered_witness:
  "\<exists>w' r s. global_select (object_fd buffered_state) (object_dirty buffered_state) plain_conv
       \<lparr>block = 0, total = 0, start = 0\<rparr> [LTable [(LNum 1, LUser 0)], LNil, LNum 60] (sample_world [(Fail 4, 1), (Done 0, 1)])
     = Some (Inr [LTable r, LTable s], w') \<and> take 1 (array_items r) = [LUser 0]"
proof -
  let ?args = "[LTable [(LNum 1, LUser 0)], LNil, LNum 60]"
  let ?call = "global_select (object_fd buffered_state) (object_dirty buffered_state) plain_conv
      \<lparr>block = 0, total = 0, start = 0\<rparr> ?args (sample_world [(Fail 4, 1), (Done 0, 1)])"
  have items: "array_items [(LNum 1, LUser 0)] = [LUser 0]"
    by (simp add: array_items_def table_get_def upt_rec)
  obtain res w' where r: "?call = Some (Inr res, w')"
    by (simp add: global_select_def Let_def index2adr_def luaL_optnumber_def luaL_checknumber_def plain_conv_def
        collect_fd_def check_dirty_def items buffered_state_client fd_ok_def FD_SETSIZE_def socket_select_def run_simps
        del: object_fd.simps object_dirty.simps)
  have a: "index2adr ?args 1 = Some (LTable [(LNum 1, LUser 0)])" by (simp add: index2adr_def)
  have d: "filter (dirty_object buffered_state) (array_items [(LNum 1, LUser 0)]) = [LUser 0]"
    by (simp add: items dirty_object_def buffered_state_client SOCKET_INVALID_def del: object_fd.simps object_dirty.simps)
  have "clock_ok (sample_world [(Fail 4, 1), (Done 0, 1)])" by (simp add: clock_ok_def sample_world_def)
  from select_never_misses_buffered [OF a _ r this] d obtain r s where
    "res = [LTable r, LTable s]" "take 1 (array_items r) = [LUser 0]" by auto
  with r show ?thesis by blast
qed

end
