(* ===== verification/Lua_Object.thy ===== *)
theory Lua_Object
  imports Lua_Api
begin

text \<open>
  Values of the virtual machine and the small routines of \<open>lobject.c\<close> (Lua 5.1.4): raw
  equality, base-two logarithm, floating point bytes and chunk names.

  A \<open>tvalue\<close> is a \<open>TValue\<close>: strings are interned (\<open>Lua_String\<close>), so that equal strings are one
  object; tables, functions, full userdata and threads are known by their address.
  An \<open>unsigned int\<close> is a natural number below \<open>2 ^ 32\<close>.
\<close>

section \<open>Values\<close>

datatype tvalue =
    TNil
  | TBool bool
  | TLight nat
  | TNumber real
  | TString string
  | TObject nat

definition luaO_rawequalObj :: "tvalue \<Rightarrow> tvalue \<Rightarrow> bool" where
  "luaO_rawequalObj t1 t2 =
     (case (t1, t2) of
        (TNil, TNil) \<Rightarrow> True
      | (TNumber a, TNumber b) \<Rightarrow> a = b
      | (TBool a, TBool b) \<Rightarrow> a = b
      | (TLight a, TLight b) \<Rightarrow> a = b
      | (TString a, TString b) \<Rightarrow> a = b
      | (TObject a, TObject b) \<Rightarrow> a = b
      | _ \<Rightarrow> False)"

lemma luaO_rawequalObj_eq [simp]: "luaO_rawequalObj a b \<longleftrightarrow> a = b"
  by (cases a; cases b) (auto simp: luaO_rawequalObj_def)

section \<open>Logarithm\<close>

definition log_2 :: "nat list" where
  "log_2 = [0, 1] @ replicate 2 2 @ replicate 4 3 @ replicate 8 4 @ replicate 16 5
     @ replicate 32 6 @ replicate 64 7 @ replicate 128 8"

fun log2_loop :: "int \<Rightarrow> nat \<Rightarrow> int \<times> nat" where
  "log2_loop l x = (if 256 \<le> x then log2_loop (l + 8) (x div 256) else (l, x))"

declare log2_loop.simps [simp del]

definition luaO_log2 :: "nat \<Rightarrow> int" where
  "luaO_log2 x = (case log2_loop (- 1) x of (l, x) \<Rightarrow> l + int (log_2 ! x))"

definition ceillog2 :: "nat \<Rightarrow> nat" where
  "ceillog2 x = nat (luaO_log2 (x - 1) + 1)"

text \<open>The table: the number of binary digits.\<close>

lemma log_2_digits:
  assumes "x < 2 ^ k" and "x = 0 \<or> 2 ^ (k - 1) \<le> x" and "k \<le> 8" and "x = 0 \<longrightarrow> k = 0"
  shows "log_2 ! x = k"
proof (cases "x = 0")
  case True
  with assms(4) show ?thesis by (simp add: log_2_def)
next
  case False
  then have "k \<noteq> 0" using assms(1) by (intro notI) simp
  with assms(3) have "k \<in> {1, 2, 3, 4, 5, 6, 7, 8}" by auto
  then show ?thesis
    using assms(1,2) False by (auto simp: log_2_def nth_append nth_Cons')
qed

lemma log2_loop_spec:
  assumes "0 < x"
  shows "\<exists>j y. log2_loop l x = (l + 8 * int j, y) \<and> 0 < y \<and> y < 256 \<and> y * 256 ^ j \<le> x \<and> x < (y + 1) * 256 ^ j"
  using assms
proof (induction l x rule: log2_loop.induct)
  case (1 l x)
  show ?case
  proof (cases "256 \<le> x")
    case True
    then have "0 < x div 256" by (simp add: div_greater_zero_iff)
    from "1.IH" [OF True this] obtain j y where j: "log2_loop (l + 8) (x div 256) = (l + 8 + 8 * int j, y)"
      "0 < y" "y < 256" "y * 256 ^ j \<le> x div 256" "x div 256 < (y + 1) * 256 ^ j" by blast
    have "y * 256 ^ Suc j \<le> x" using j(4) by (simp add: less_eq_div_iff_mult_less_eq)
    moreover have "x < (y + 1) * 256 ^ Suc j"
      using j(5) by (simp add: div_less_iff_less_mult)
    ultimately show ?thesis
      using True j by (intro exI [of _ "Suc j"] exI [of _ y]) (simp add: log2_loop.simps [of l x])
  next
    case False
    with 1 show ?thesis
      by (intro exI [of _ 0] exI [of _ x]) (simp add: log2_loop.simps [of l x])
  qed
qed

lemma binary_digits: "\<exists>k. x < (2::nat) ^ k \<and> (x = 0 \<or> 2 ^ (k - 1) \<le> x) \<and> (x = 0 \<longrightarrow> k = 0)"
proof (cases "x = 0")
  case False
  then obtain k where k: "2 ^ k \<le> x" "x < 2 ^ (k + 1)" using ex_power_ivl1 [of 2 x] by auto
  then show ?thesis by (intro exI [of _ "k + 1"]) simp
qed (auto intro: exI [of _ 0])

lemma luaO_log2_floor:
  assumes "0 < x"
  shows "\<exists>k. luaO_log2 x = int k \<and> 2 ^ k \<le> x \<and> x < 2 ^ (k + 1)"
proof -
  obtain j y where j: "log2_loop (- 1) x = (- 1 + 8 * int j, y)"
    "0 < y" "y < 256" "y * 256 ^ j \<le> x" "x < (y + 1) * 256 ^ j" using log2_loop_spec [OF assms] by blast
  from binary_digits [of y] j(2) obtain k where k: "y < 2 ^ k" "2 ^ (k - 1) \<le> y" by auto
  then have "k \<noteq> 0" using j(2) by (intro notI) simp
  have "2 ^ (k - 1) < (2::nat) ^ 8" using k j(3) by simp
  then have "k - 1 < 8" by (rule power_less_imp_less_exp [rotated]) simp
  then have log: "log_2 ! y = k" using k j(2) by (intro log_2_digits) auto
  have e: "(256::nat) ^ j = 2 ^ (8 * j)" by (simp add: power_mult)
  have "2 ^ (k - 1 + 8 * j) \<le> x"
    using order_trans [OF mult_le_mono1 [OF k(2), of "2 ^ (8 * j)"]] j(4) by (simp add: e power_add)
  moreover have "x < 2 ^ (k + 8 * j)"
  proof -
    have "(y + 1) * 2 ^ (8 * j) \<le> 2 ^ k * (2::nat) ^ (8 * j)" using k(1) by (intro mult_le_mono1) simp
    with j(5) show ?thesis by (simp add: e power_add)
  qed
  ultimately show ?thesis
    using \<open>k \<noteq> 0\<close> log j(1)
    by (intro exI [of _ "k - 1 + 8 * j"]) (simp add: luaO_log2_def of_nat_diff)
qed

text \<open>\<open>ceillog2 x\<close> is the least exponent of a power of two that reaches \<open>x\<close>.\<close>

lemma ceillog2_1 [simp]: "ceillog2 (Suc 0) = 0"
  by (simp add: ceillog2_def luaO_log2_def log2_loop.simps [of _ 0] log_2_def)

lemma ceillog2_bounds:
  assumes "1 < x"
  shows "2 ^ (ceillog2 x - 1) < x \<and> x \<le> 2 ^ ceillog2 x \<and> 0 < ceillog2 x"
proof -
  from assms obtain k where "luaO_log2 (x - 1) = int k" "2 ^ k \<le> x - 1" "x - 1 < 2 ^ (k + 1)"
    using luaO_log2_floor [of "x - 1"] by auto
  then have "ceillog2 x = k + 1" by (simp add: ceillog2_def)
  then show ?thesis using assms \<open>2 ^ k \<le> x - 1\<close> \<open>x - 1 < 2 ^ (k + 1)\<close> by auto
qed

lemma ceillog2_le:
  assumes "1 \<le> x" and "x \<le> 2 ^ k"
  shows "ceillog2 x \<le> k"
proof (cases "x = 1")
  case False
  with assms(1) have b: "2 ^ (ceillog2 x - 1) < x" "0 < ceillog2 x" using ceillog2_bounds [of x] by simp_all
  from less_le_trans [OF b(1) assms(2)] have "ceillog2 x - 1 < k" by (rule power_less_imp_less_exp [rotated]) simp
  with b(2) show ?thesis by linarith
qed simp

lemma ceillog2_upper: "1 \<le> x \<Longrightarrow> x \<le> 2 ^ ceillog2 x"
  using ceillog2_bounds [of x] by (cases "x = 1") auto

lemma ceillog2_unique:
  assumes "1 \<le> x" and "x \<le> 2 ^ k" and "k = 0 \<or> 2 ^ (k - 1) < x"
  shows "ceillog2 x = k"
proof (rule ccontr)
  assume "ceillog2 x \<noteq> k"
  with ceillog2_le [OF assms(1,2)] have "ceillog2 x \<le> k - 1" "0 < k" by simp_all
  then have "(2::nat) ^ ceillog2 x \<le> 2 ^ (k - 1)" by (intro power_increasing) simp_all
  with ceillog2_upper [OF assms(1)] assms(3) \<open>0 < k\<close> show False by linarith
qed

section \<open>Floating point bytes\<close>

fun int2fb_loop :: "nat \<Rightarrow> nat \<Rightarrow> nat \<times> nat" where
  "int2fb_loop x e = (if 16 \<le> x then int2fb_loop ((x + 1) div 2) (e + 1) else (x, e))"

declare int2fb_loop.simps [simp del]

definition luaO_int2fb :: "nat \<Rightarrow> nat" where
  "luaO_int2fb x =
     (case int2fb_loop x 0 of (x, e) \<Rightarrow> if x < 8 then x else push_bit 3 (e + 1) OR (x - 8))"

definition luaO_fb2int :: "nat \<Rightarrow> nat" where
  "luaO_fb2int x =
     (let e = drop_bit 3 x AND 31
      in if e = 0 then x else push_bit (e - 1) ((x AND 7) + 8))"

lemma int2fb_loop_spec:
  "\<exists>y e'. int2fb_loop x e = (y, e + e') \<and> y < 16 \<and> (e' = 0 \<longrightarrow> y = x) \<and> (0 < e' \<longrightarrow> 8 \<le> y)
     \<and> x \<le> y * 2 ^ e' \<and> y * 2 ^ e' + 1 \<le> x + 2 ^ e'"
proof (induction x e rule: int2fb_loop.induct)
  case (1 x e)
  show ?case
  proof (cases "16 \<le> x")
    case True
    let ?h = "(x + 1) div 2"
    from "1.IH" [OF True] obtain y e' where y: "int2fb_loop ?h (e + 1) = (y, e + 1 + e')" "y < 16"
      "e' = 0 \<longrightarrow> y = ?h" "0 < e' \<longrightarrow> 8 \<le> y" "?h \<le> y * 2 ^ e'" "y * 2 ^ e' + 1 \<le> ?h + 2 ^ e'" by blast
    have "8 \<le> y" using y(3,4) True by (cases e') auto
    moreover have "x \<le> y * 2 ^ Suc e'" using y(5) by simp
    moreover have "y * 2 ^ Suc e' + 1 \<le> x + 2 ^ Suc e'" using y(6) by simp
    ultimately show ?thesis
      using True y(1,2) by (intro exI [of _ y] exI [of _ "Suc e'"]) (simp add: int2fb_loop.simps [of x e])
  next
    case False
    then show ?thesis by (intro exI [of _ x] exI [of _ 0]) (simp add: int2fb_loop.simps [of x e])
  qed
qed

lemma fb_value: "m < 8 \<Longrightarrow> e + 1 < 32 \<Longrightarrow> luaO_fb2int (push_bit 3 (e + 1) OR m) = (m + 8) * 2 ^ e"
proof -
  assume m: "m < 8" and e: "e + 1 < 32"
  have v: "push_bit 3 (e + 1) OR m = (e + 1) * 8 + m" using push_or [of m 3 "e + 1"] m by simp
  have "drop_bit 3 ((e + 1) * 8 + m) = e + 1" using m by (simp add: drop_bit_eq_div)
  moreover have "(e + 1) AND 31 = e + 1" using and_mask_nat [of "e + 1" 5] e by simp
  moreover have "((e + 1) * 8 + m) mod 8 = m" using m by presburger
  then have "((e + 1) * 8 + m) AND 7 = m" using and_mask_nat [of "(e + 1) * 8 + m" 3] by simp
  ultimately show ?thesis unfolding v luaO_fb2int_def by (simp add: push_bit_eq_mult)
qed

text \<open>
  The sizes of table constructors (\<open>OP_NEWTABLE\<close>) go through floating point bytes: the
  decoded size is never too small, and too large by less than a seventh.
\<close>

lemma fb_rounds_up:
  assumes "x < 2 ^ 32"
  shows "x \<le> luaO_fb2int (luaO_int2fb x) \<and> 7 * (luaO_fb2int (luaO_int2fb x) - x) \<le> x"
proof -
  obtain y e where y: "int2fb_loop x 0 = (y, e)" "y < 16" "e = 0 \<longrightarrow> y = x" "0 < e \<longrightarrow> 8 \<le> y"
    "x \<le> y * 2 ^ e" "y * 2 ^ e + 1 \<le> x + 2 ^ e" using int2fb_loop_spec [of x 0] by auto
  show ?thesis
  proof (cases "y < 8")
    case True
    with y(4) have "e = 0" by (cases e) auto
    with y(3) have "luaO_int2fb x = x" "x < 8" using y(1) True by (simp_all add: luaO_int2fb_def)
    then show ?thesis by (simp add: luaO_fb2int_def drop_bit_eq_div Let_def)
  next
    case False
    have big: "7 * 2 ^ e < x"
    proof -
      have "8 * 2 ^ e \<le> y * 2 ^ e" using False by simp
      with y(6) show ?thesis by linarith
    qed
    have "e + 1 < 32"
    proof (rule ccontr)
      assume "\<not> e + 1 < 32"
      then have "(2::nat) ^ 31 \<le> 2 ^ e" by (intro power_increasing) simp_all
      with big assms show False by simp
    qed
    then have "luaO_fb2int (luaO_int2fb x) = y * 2 ^ e"
      using y(1,2) False fb_value [of "y - 8" e] by (simp add: luaO_int2fb_def)
    then show ?thesis using y(5,6) big by linarith
  qed
qed

lemma int2fb_loop_shift: "8 \<le> m \<Longrightarrow> m < 16 \<Longrightarrow> int2fb_loop (m * 2 ^ k) e = (m, e + k)"
proof (induction k arbitrary: e)
  case 0
  then show ?case by (simp add: int2fb_loop.simps [of m])
next
  case (Suc k)
  have "1 \<le> (2::nat) ^ k" by simp
  then have "8 * 1 \<le> m * 2 ^ k" using Suc.prems(1) by (rule mult_le_mono [rotated])
  then have "16 \<le> m * 2 ^ Suc k" by simp
  moreover have "(m * 2 ^ Suc k + 1) div 2 = m * 2 ^ k" by simp
  ultimately show ?case
    using Suc by (subst int2fb_loop.simps) simp
qed

lemma fb_roundtrip:
  assumes "b < 256"
  shows "luaO_int2fb (luaO_fb2int b) = b"
proof (cases "b < 8")
  case True
  then show ?thesis
    by (simp add: luaO_fb2int_def luaO_int2fb_def drop_bit_eq_div Let_def int2fb_loop.simps)
next
  case False
  define e m where "e = b div 8 - 1" and "m = b mod 8"
  have b: "b = (e + 1) * 8 + m" "m < 8" "e + 1 < 32"
    using False assms by (simp_all add: e_def m_def)
  then have bit: "b = push_bit 3 (e + 1) OR m" using push_or [of m 3 "e + 1"] by simp
  have "luaO_fb2int b = (m + 8) * 2 ^ e" unfolding bit by (rule fb_value) (use b in simp_all)
  moreover have "int2fb_loop ((m + 8) * 2 ^ e) 0 = (m + 8, 0 + e)" by (rule int2fb_loop_shift) (use b in simp_all)
  ultimately show ?thesis using bit by (simp add: luaO_int2fb_def)
qed

section \<open>Chunk names\<close>

text \<open>
  \<open>luaO_chunkid\<close>: the bytes written before the terminator. \<open>strncpy\<close> and \<open>strncat\<close> cut, \<open>strcpy\<close>
  and \<open>strcat\<close> do not; \<open>sizeof\<close> of the two literals is 8 and 17. The subtraction is that of
  \<open>size_t\<close>, so \<open>bufflen\<close> below those sizes would wrap around.
\<close>

definition luaO_chunkid :: "string \<Rightarrow> nat \<Rightarrow> string" where
  "luaO_chunkid source bufflen =
     (if cnth source 0 = CHR ''='' then take (bufflen - 1) (tl source)
      else if cnth source 0 = CHR ''@'' then
        (let source = tl source;
             bufflen = nat ((int bufflen - 8) mod 2 ^ 64);
             l = length source
         in (if l > bufflen then ''...'' @ drop (l - bufflen) source else source))
      else
        (let len = length (takeWhile (\<lambda>c. c \<noteq> LF \<and> c \<noteq> CR) source);
             bufflen = nat ((int bufflen - 17) mod 2 ^ 64);
             len = (if len > bufflen then bufflen else len)
         in ''[string '' @ [CHR 0x22]
              @ (if cnth source len \<noteq> NUL then take len source @ ''...'' else source)
              @ [CHR 0x22] @ '']''))"

lemma chunkid_fits:
  assumes "17 \<le> bufflen" and "bufflen < 2 ^ 64" and "NUL \<notin> set source"
  shows "length (luaO_chunkid source bufflen) < bufflen"
proof -
  have n: "nat ((int bufflen - 8) mod 2 ^ 64) = bufflen - 8" "nat ((int bufflen - 17) mod 2 ^ 64) = bufflen - 17"
    using assms(1,2) by (simp_all add: mod_pos_pos_trivial nat_diff_distrib)
  have nth: "cnth source k = NUL \<longleftrightarrow> length source \<le> k" for k
    using assms(3) by (auto simp: cnth_def in_set_conv_nth)
  have w: "length (takeWhile P source) \<le> length source" for P by (rule length_takeWhile_le)
  show ?thesis
    using assms(1) unfolding luaO_chunkid_def Let_def n nth by auto
qed

end
