(* ===== verification/Lua_String.thy ===== *)
theory Lua_String
  imports Lua_Object
begin

text \<open>
  The string table of the interpreter, \<open>lstring.c\<close>. A \<open>TString\<close> is an address whose contents are
  its bytes and its hash; the chains of the table are the lists of the addresses on them,
  new entries in front. Colours are those of the garbage collector and not modelled, except
  that the table is not resized while strings are swept (\<open>sweeping\<close>).
\<close>

section \<open>The table\<close>

record stringtable =
  st_hash :: "nat list list"
  st_nuse :: nat
  st_heap :: "nat \<Rightarrow> (string \<times> 32 word) option"
  st_fresh :: nat

definition MAX_INT :: nat where "MAX_INT = 2 ^ 31 - 3"

definition lmod :: "32 word \<Rightarrow> nat \<Rightarrow> nat" where
  "lmod s sz = unat s AND (sz - 1)"

definition hash_of :: "stringtable \<Rightarrow> nat \<Rightarrow> 32 word" where
  "hash_of tb p = snd (the (st_heap tb p))"

definition chain_in :: "nat \<Rightarrow> nat \<Rightarrow> nat list list \<Rightarrow> nat list list" where
  "chain_in p h hash = hash[h := p # hash ! h]"

definition luaS_resize :: "bool \<Rightarrow> nat \<Rightarrow> stringtable \<Rightarrow> stringtable" where
  "luaS_resize sweeping newsize tb =
     (if sweeping then tb
      else tb\<lparr>st_hash := foldl (\<lambda>newhash p. chain_in p (lmod (hash_of tb p) newsize) newhash)
                               (replicate newsize []) (concat (st_hash tb))\<rparr>)"

text \<open>\<open>h ^ ((h<<5)+(h>>2)+c)\<close>, over every \<open>step\<close>-th byte from the end.\<close>

function luaS_hash_loop :: "string \<Rightarrow> nat \<Rightarrow> nat \<Rightarrow> 32 word \<Rightarrow> 32 word" where
  "luaS_hash_loop str step l1 h =
     (if step \<le> l1 \<and> 0 < step then
        luaS_hash_loop str step (l1 - step)
          (h XOR (push_bit 5 h + drop_bit 2 h + word_of_nat (uc (str ! (l1 - 1)))))
      else h)"
  by pat_completeness auto
termination
  by (relation "measure (\<lambda>(str, step, l1, h). l1)") auto

declare luaS_hash_loop.simps [simp del]

definition luaS_hash :: "string \<Rightarrow> 32 word" where
  "luaS_hash str =
     (let l = length str in luaS_hash_loop str (drop_bit 5 l + 1) l (word_of_nat l))"

definition newlstr :: "bool \<Rightarrow> string \<Rightarrow> 32 word \<Rightarrow> stringtable \<Rightarrow> lua_error + nat \<times> stringtable" where
  "newlstr sweeping str h tb =
     (if length str + 1 > 2 ^ 64 - 3 - 24 then luaL_error ''memory allocation error: block too big''
      else
        (let ts = st_fresh tb;
             sz = length (st_hash tb);
             tb = tb\<lparr>st_heap := (st_heap tb)(ts \<mapsto> (str, h)), st_fresh := ts + 1,
                     st_hash := chain_in ts (lmod h sz) (st_hash tb), st_nuse := st_nuse tb + 1\<rparr>
         in Inr (ts, if st_nuse tb > sz \<and> sz \<le> MAX_INT div 2 then luaS_resize sweeping (sz * 2) tb else tb)))"

definition luaS_newlstr :: "bool \<Rightarrow> string \<Rightarrow> stringtable \<Rightarrow> lua_error + nat \<times> stringtable" where
  "luaS_newlstr sweeping str tb =
     (let h = luaS_hash str in
      case find (\<lambda>o'. fst (the (st_heap tb o')) = str) (st_hash tb ! lmod h (length (st_hash tb))) of
        Some ts \<Rightarrow> Inr (ts, tb)
      | None \<Rightarrow> newlstr sweeping str h tb)"

text \<open>The table of a new state: \<open>MINSTRTABSIZE\<close> chains.\<close>

definition empty_strings :: stringtable where
  "empty_strings = \<lparr>st_hash = replicate 32 [], st_nuse = 0, st_heap = (\<lambda>_. None), st_fresh = 0\<rparr>"

section \<open>The invariant\<close>

text \<open>
  Each string is on the one chain its hash selects, and every string with the same bytes is
  the same string.
\<close>

definition strings_ok :: "stringtable \<Rightarrow> bool" where
  "strings_ok tb \<longleftrightarrow>
     (\<exists>k. length (st_hash tb) = 2 ^ k)
   \<and> (\<forall>p. p \<in> set (concat (st_hash tb)) \<longleftrightarrow> st_heap tb p \<noteq> None)
   \<and> (\<forall>i < length (st_hash tb). \<forall>p \<in> set (st_hash tb ! i). lmod (hash_of tb p) (length (st_hash tb)) = i)
   \<and> (\<forall>p s h. st_heap tb p = Some (s, h) \<longrightarrow> h = luaS_hash s \<and> p < st_fresh tb)
   \<and> (\<forall>p q s h h'. st_heap tb p = Some (s, h) \<longrightarrow> st_heap tb q = Some (s, h') \<longrightarrow> p = q)"

lemma strings_okD:
  assumes "strings_ok tb"
  shows "\<exists>k. length (st_hash tb) = 2 ^ k"
    and "p \<in> set (concat (st_hash tb)) \<longleftrightarrow> st_heap tb p \<noteq> None"
    and "i < length (st_hash tb) \<Longrightarrow> p \<in> set (st_hash tb ! i) \<Longrightarrow> lmod (hash_of tb p) (length (st_hash tb)) = i"
    and "st_heap tb p = Some (s, h) \<Longrightarrow> h = luaS_hash s \<and> p < st_fresh tb"
    and "st_heap tb p = Some (s, h) \<Longrightarrow> st_heap tb q = Some (s, h') \<Longrightarrow> p = q"
  using assms unfolding strings_ok_def by blast+

lemma lmod_less: "lmod h (2 ^ k) < 2 ^ k"
  unfolding lmod_def and_mask_nat by simp

lemma on_chain: "p \<in> set (concat xss) \<longleftrightarrow> (\<exists>i < length xss. p \<in> set (xss ! i))"
  unfolding set_concat by (metis UN_iff in_set_conv_nth)

lemma length_chain_in [simp]: "length (chain_in p h hash) = length hash"
  by (simp add: chain_in_def)

lemma chain_in_nth: "i < length hash \<Longrightarrow> chain_in p h hash ! i = (if i = h then p # hash ! i else hash ! i)"
  by (auto simp: chain_in_def nth_list_update)

lemma chain_in_set:
  "h < length hash \<Longrightarrow> set (concat (chain_in p h hash)) = insert p (set (concat hash))"
  by (auto simp: set_eq_iff on_chain chain_in_nth simp del: set_concat split: if_splits)

lemma rechain:
  assumes "\<And>p. f p < n"
  shows "length (foldl (\<lambda>hash p. chain_in p (f p) hash) hash ps) = length hash"
    and "length hash = n \<Longrightarrow>
      set (concat (foldl (\<lambda>hash p. chain_in p (f p) hash) hash ps)) = set ps \<union> set (concat hash)"
    and "length hash = n \<Longrightarrow> \<forall>i < n. \<forall>p \<in> set (hash ! i). f p = i \<Longrightarrow>
      \<forall>i < n. \<forall>p \<in> set (foldl (\<lambda>hash p. chain_in p (f p) hash) hash ps ! i). f p = i"
proof -
  show "length (foldl (\<lambda>hash p. chain_in p (f p) hash) hash ps) = length hash"
    by (induction ps arbitrary: hash) auto
  show "length hash = n \<Longrightarrow> set (concat (foldl (\<lambda>hash p. chain_in p (f p) hash) hash ps)) = set ps \<union> set (concat hash)"
  proof (induction ps arbitrary: hash)
    case (Cons p ps)
    then have "set (concat (chain_in p (f p) hash)) = insert p (set (concat hash))"
      using assms by (intro chain_in_set) simp
    with Cons show ?case by (simp del: set_concat)
  qed simp
  show "length hash = n \<Longrightarrow> \<forall>i < n. \<forall>p \<in> set (hash ! i). f p = i \<Longrightarrow>
      \<forall>i < n. \<forall>p \<in> set (foldl (\<lambda>hash p. chain_in p (f p) hash) hash ps ! i). f p = i"
  proof (induction ps arbitrary: hash)
    case (Cons p ps)
    have l: "length (chain_in p (f p) hash) = n" using Cons.prems(1) by simp
    have "\<forall>i < n. \<forall>q \<in> set (chain_in p (f p) hash ! i). f q = i"
      using Cons.prems by (auto simp: chain_in_nth)
    from Cons.IH [OF l this] show ?case by (simp only: foldl.simps)
  qed simp
qed

lemma resize_ok:
  assumes "strings_ok tb" and "newsize = 2 ^ k"
  shows "strings_ok (luaS_resize sweeping newsize tb)"
proof (cases sweeping)
  case False
  let ?f = "\<lambda>p. lmod (hash_of tb p) newsize"
  have f: "?f p < newsize" for p by (simp add: assms(2) lmod_less)
  note r = rechain [of ?f newsize "replicate newsize []", OF f]
  have "set (concat (replicate newsize [])) = ({} :: nat set)" by auto
  with r(2) have "set (concat (st_hash (luaS_resize sweeping newsize tb))) = set (concat (st_hash tb))"
    using False by (simp add: luaS_resize_def del: set_concat)
  then have "p \<in> set (concat (st_hash (luaS_resize sweeping newsize tb))) \<longleftrightarrow> st_heap tb p \<noteq> None" for p
    using strings_okD(2) [OF assms(1)] by simp
  moreover have "hash_of (luaS_resize sweeping newsize tb) p = hash_of tb p" for p
    by (simp add: luaS_resize_def hash_of_def)
  moreover have "\<forall>i < newsize. \<forall>p \<in> set (st_hash (luaS_resize sweeping newsize tb) ! i). ?f p = i"
    using r(3) False by (simp add: luaS_resize_def)
  moreover have "length (st_hash (luaS_resize sweeping newsize tb)) = newsize"
    using r(1) False by (simp add: luaS_resize_def)
  ultimately show ?thesis
    using assms(2) strings_okD(4,5) [OF assms(1)] unfolding strings_ok_def by (simp add: luaS_resize_def) blast
qed (use assms in \<open>simp add: luaS_resize_def\<close>)

lemma resize_heap [simp]: "st_heap (luaS_resize sweeping n tb) = st_heap tb"
  by (simp add: luaS_resize_def)

lemma newlstr_ok:
  assumes "strings_ok tb" and "\<forall>p s h. st_heap tb p = Some (s, h) \<longrightarrow> s \<noteq> str"
    and "newlstr sweeping str (luaS_hash str) tb = Inr (ts, tb')"
  shows "strings_ok tb' \<and> st_heap tb ts = None \<and> st_heap tb' = (st_heap tb)(ts \<mapsto> (str, luaS_hash str))"
proof -
  let ?h = "luaS_hash str"
  let ?sz = "length (st_hash tb)"
  let ?tb1 = "tb\<lparr>st_heap := (st_heap tb)(st_fresh tb \<mapsto> (str, ?h)), st_fresh := st_fresh tb + 1,
     st_hash := chain_in (st_fresh tb) (lmod ?h ?sz) (st_hash tb), st_nuse := st_nuse tb + 1\<rparr>"
  from assms(1) obtain k where k: "?sz = 2 ^ k" by (auto simp: strings_ok_def)
  have less: "lmod ?h ?sz < ?sz" unfolding k by (rule lmod_less)
  have new: "st_heap tb (st_fresh tb) = None"
    using strings_okD(4) [OF assms(1)] by (cases "st_heap tb (st_fresh tb)") auto
  then have notin: "\<forall>i < length (st_hash tb). st_fresh tb \<notin> set (st_hash tb ! i)"
    using strings_okD(2) [OF assms(1), of "st_fresh tb"] unfolding on_chain by blast
  have "strings_ok ?tb1"
    unfolding strings_ok_def
  proof (intro conjI)
    show "\<exists>k. length (st_hash ?tb1) = 2 ^ k" using k by simp
    show "\<forall>p. p \<in> set (concat (st_hash ?tb1)) \<longleftrightarrow> st_heap ?tb1 p \<noteq> None"
      using chain_in_set [OF less, of "st_fresh tb"] strings_okD(2) [OF assms(1)] by (simp del: set_concat)
    show "\<forall>i < length (st_hash ?tb1). \<forall>p \<in> set (st_hash ?tb1 ! i). lmod (hash_of ?tb1 p) (length (st_hash ?tb1)) = i"
    proof (intro allI impI ballI)
      fix i p
      assume i: "i < length (st_hash ?tb1)" and p: "p \<in> set (st_hash ?tb1 ! i)"
      show "lmod (hash_of ?tb1 p) (length (st_hash ?tb1)) = i"
      proof (cases "p = st_fresh tb")
        case True
        with i p notin show ?thesis by (simp add: chain_in_nth hash_of_def split: if_splits)
      next
        case False
        with i p have "p \<in> set (st_hash tb ! i)" by (simp add: chain_in_nth split: if_splits)
        with i False strings_okD(3) [OF assms(1)] show ?thesis by (simp add: hash_of_def)
      qed
    qed
    show "\<forall>p s h. st_heap ?tb1 p = Some (s, h) \<longrightarrow> h = luaS_hash s \<and> p < st_fresh ?tb1"
      using strings_okD(4) [OF assms(1)] by (auto simp: less_Suc_eq)
    show "\<forall>p q s h h'. st_heap ?tb1 p = Some (s, h) \<longrightarrow> st_heap ?tb1 q = Some (s, h') \<longrightarrow> p = q"
      using strings_okD(5) [OF assms(1)] assms(2) by (auto split: if_splits) blast+
  qed
  moreover have "ts = st_fresh tb"
    "tb' = (if st_nuse ?tb1 > ?sz \<and> ?sz \<le> MAX_INT div 2 then luaS_resize sweeping (?sz * 2) ?tb1 else ?tb1)"
    using assms(3) by (auto simp: newlstr_def Let_def luaL_error_def split: if_splits)
  moreover have "?sz * 2 = 2 ^ Suc k" by (simp add: k)
  ultimately show ?thesis using new resize_ok [of ?tb1 "?sz * 2" "Suc k" sweeping] by simp
qed

text \<open>
  Interning: afterwards the bytes are stored under the returned address; a string that was
  there keeps its address and nothing else changes.
\<close>

lemma intern_spec:
  assumes "strings_ok tb" and "luaS_newlstr sweeping str tb = Inr (ts, tb')"
  shows "strings_ok tb' \<and> st_heap tb' ts = Some (str, luaS_hash str) \<and> st_heap tb \<subseteq>\<^sub>m st_heap tb'"
proof -
  let ?h = "luaS_hash str"
  let ?i = "lmod ?h (length (st_hash tb))"
  from assms(1) obtain k where k: "length (st_hash tb) = 2 ^ k" by (auto simp: strings_ok_def)
  have less: "?i < length (st_hash tb)" unfolding k by (rule lmod_less)
  have mem: "p \<in> set (st_hash tb ! ?i)" if p: "st_heap tb p = Some (str, h)" for p h
  proof -
    have "h = ?h" using strings_okD(4) [OF assms(1) p] by simp
    moreover obtain j where j: "j < length (st_hash tb)" "p \<in> set (st_hash tb ! j)"
      using strings_okD(2) [OF assms(1), of p] p unfolding on_chain by auto
    moreover have "lmod (hash_of tb p) (length (st_hash tb)) = j" by (rule strings_okD(3) [OF assms(1) j])
    ultimately show ?thesis using p by (simp add: hash_of_def)
  qed
  show ?thesis
  proof (cases "find (\<lambda>o'. fst (the (st_heap tb o')) = str) (st_hash tb ! ?i)")
    case (Some p)
    then have p: "ts = p" "tb' = tb" using assms(2) by (simp_all add: luaS_newlstr_def Let_def)
    from Some have p3: "p \<in> set (st_hash tb ! ?i)" "fst (the (st_heap tb p)) = str"
      by (auto simp: find_Some_iff)
    from p3(1) less have "st_heap tb p \<noteq> None"
      using strings_okD(2) [OF assms(1), of p] unfolding on_chain by blast
    then obtain h where "st_heap tb p = Some (str, h)" using p3(2) by (cases "st_heap tb p") auto
    with p(1,2) assms(1) strings_okD(4) [OF assms(1) this] show ?thesis by simp
  next
    case None
    then have "\<forall>p s h. st_heap tb p = Some (s, h) \<longrightarrow> s \<noteq> str"
      using mem by (fastforce simp: find_None_iff)
    with newlstr_ok [OF assms(1) this, of sweeping ts tb'] assms(2) None show ?thesis
      by (auto simp: luaS_newlstr_def Let_def map_le_def)
  qed
qed

lemma empty_strings_ok: "strings_ok empty_strings"
  by (auto simp: strings_ok_def empty_strings_def intro: exI [of _ 5])

text \<open>Interning a sequence of strings.\<close>

fun intern_all :: "bool \<Rightarrow> string list \<Rightarrow> stringtable \<Rightarrow> lua_error + nat list \<times> stringtable" where
  "intern_all sweeping [] tb = Inr ([], tb)"
| "intern_all sweeping (s # ss) tb =
     bindE (luaS_newlstr sweeping s tb) (\<lambda>(ts, tb).
     bindE (intern_all sweeping ss tb) (\<lambda>(tss, tb). Inr (ts # tss, tb)))"

lemma intern_all_spec:
  assumes "strings_ok tb" and "intern_all sweeping ss tb = Inr (tss, tb')"
  shows "strings_ok tb' \<and> st_heap tb \<subseteq>\<^sub>m st_heap tb'
    \<and> list_all2 (\<lambda>s ts. st_heap tb' ts = Some (s, luaS_hash s)) ss tss"
  using assms
proof (induction ss arbitrary: tb tss)
  case Nil
  then show ?case by simp
next
  case (Cons s ss)
  then obtain ts tb1 tss1 where 1: "luaS_newlstr sweeping s tb = Inr (ts, tb1)"
    and 2: "intern_all sweeping ss tb1 = Inr (tss1, tb')" and t: "tss = ts # tss1"
    by (auto simp: bindE_Inr_iff)
  from intern_spec [OF Cons.prems(1) 1] Cons.IH [OF _ 2] t show ?case
    by (auto intro: map_le_trans simp: map_le_def dom_def)
qed

text \<open>
  C30. Interning: however many strings the interpreter has created, in any order, with the table
  growing as it goes, two of them are the same object exactly when they have the same bytes. So
  the pointer comparison of string keys in \<open>ltable.c\<close> and \<open>luaO_rawequalObj\<close> is comparison
  of contents.
\<close>

theorem interning_is_equality:
  assumes "strings_ok tb" and "intern_all sweeping ss tb = Inr (tss, tb')"
    and "i < length ss" and "j < length ss"
  shows "tss ! i = tss ! j \<longleftrightarrow> ss ! i = ss ! j"
proof -
  from intern_all_spec [OF assms(1,2)] have ok: "strings_ok tb'"
    and l: "list_all2 (\<lambda>s ts. st_heap tb' ts = Some (s, luaS_hash s)) ss tss" by simp_all
  have "st_heap tb' (tss ! i) = Some (ss ! i, luaS_hash (ss ! i))"
    "st_heap tb' (tss ! j) = Some (ss ! j, luaS_hash (ss ! j))"
    using list_all2_nthD [OF l assms(3)] list_all2_nthD [OF l assms(4)] by simp_all
  with strings_okD(5) [OF ok] show ?thesis by (metis option.inject prod.inject)
qed

theorem interning_is_equality_witness:
  "\<exists>tss tb'. intern_all False [''do'', ''end'', ''do''] empty_strings = Inr (tss, tb') \<and> tss ! 0 = tss ! 2 \<and> tss ! 0 \<noteq> tss ! 1"
proof -
  obtain tss tb' where r: "intern_all False [''do'', ''end'', ''do''] empty_strings = Inr (tss, tb')"
    by (simp add: luaS_newlstr_def newlstr_def empty_strings_def luaS_hash_def luaS_hash_loop.simps lmod_def
        chain_in_def MAX_INT_def luaS_resize_def luaL_error_def Let_def split: option.splits)
  have "tss ! 0 = tss ! 2" "tss ! 0 \<noteq> tss ! 1"
    using interning_is_equality [OF empty_strings_ok r, of 0 2] interning_is_equality [OF empty_strings_ok r, of 0 1]
    by simp_all
  with r show ?thesis by blast
qed

end
