(* ===== verification/Lua_Table.thy ===== *)
theory Lua_Table
  imports Lua_String
begin

text \<open>
  Tables, \<open>ltable.c\<close>: an array part and a hash part, a chained scatter table with Brent's
  variation. This theory holds the code; \<open>Lua_Chain\<close> the invariant of the hash part and
  insertion into it, \<open>Lua_Rehash\<close> the rehash, \<open>Lua_Table_Spec\<close> the contract with its clients.

  A node is its index in the node vector, \<open>next\<close> an index, and the pointer to a value that
  \<open>luaH_get\<close> and \<open>luaH_set\<close> return is a \<open>slot\<close>; \<open>None\<close> is \<open>luaO_nilobject\<close>. The bytes of a
  \<open>double\<close>, from which numbers are hashed, are the parameter \<open>bits\<close>; an address is its own
  \<open>IntPoint\<close>. The metatable, its \<open>flags\<close> cache and the marks of the collector are not part of
  the model, and neither is the failure of an allocation.
  Numbers are reals, so NaN, which \<open>luaH_set\<close> rejects as a key, does not occur.
\<close>

section \<open>The data\<close>

record node =
  i_val :: tvalue
  i_key :: tvalue
  i_next :: "nat option"

record ltable =
  t_array :: "tvalue list"
  t_node :: "node list"
  lsizenode :: nat
  lastfree :: nat
  t_dummy :: bool    \<comment> \<open>\<open>node == dummynode\<close>\<close>

datatype slot = ArraySlot nat | NodeSlot nat

type_synonym 'a tres = "(lua_error + 'a) option"   \<comment> \<open>\<open>None\<close>: no result (out of fuel, or a wild pointer)\<close>

type_synonym bits = "real \<Rightarrow> 32 word list"

definition MAXBITS :: nat where "MAXBITS = 26"
definition MAXASIZE :: nat where "MAXASIZE = 2 ^ MAXBITS"

definition empty_node :: node where
  "empty_node = \<lparr>i_val = TNil, i_key = TNil, i_next = None\<rparr>"

abbreviation sizearray :: "ltable \<Rightarrow> nat" where "sizearray t \<equiv> length (t_array t)"
abbreviation sizenode :: "ltable \<Rightarrow> nat" where "sizenode t \<equiv> 2 ^ lsizenode t"

fun slot_get :: "ltable \<Rightarrow> slot \<Rightarrow> tvalue" where
  "slot_get t (ArraySlot i) = t_array t ! i"
| "slot_get t (NodeSlot i) = i_val (t_node t ! i)"

fun slot_put :: "slot \<Rightarrow> tvalue \<Rightarrow> ltable \<Rightarrow> ltable" where
  "slot_put (ArraySlot i) v t = t\<lparr>t_array := (t_array t)[i := v]\<rparr>"
| "slot_put (NodeSlot i) v t = t\<lparr>t_node := (t_node t)[i := (t_node t ! i)\<lparr>i_val := v\<rparr>]\<rparr>"

text \<open>The value \<open>lua_rawget\<close> reads through the pointer.\<close>

definition value_at :: "ltable \<Rightarrow> slot option \<Rightarrow> tvalue" where
  "value_at t p = (case p of None \<Rightarrow> TNil | Some s \<Rightarrow> slot_get t s)"

section \<open>Hashing\<close>

definition hashpow2 :: "ltable \<Rightarrow> nat \<Rightarrow> nat" where
  "hashpow2 t n = n AND (sizenode t - 1)"

definition hashmod :: "ltable \<Rightarrow> nat \<Rightarrow> nat" where
  "hashmod t n = n mod ((sizenode t - 1) OR 1)"

definition hashnum :: "bits \<Rightarrow> ltable \<Rightarrow> real \<Rightarrow> nat" where
  "hashnum bits t n = (if n = 0 then 0 else hashmod t (unat (sum_list (bits n))))"

definition IntPoint :: "nat \<Rightarrow> nat" where
  "IntPoint p = p mod 2 ^ 32"

fun mainposition :: "bits \<Rightarrow> ltable \<Rightarrow> tvalue \<Rightarrow> nat" where
  "mainposition bits t (TNumber n) = hashnum bits t n"
| "mainposition bits t (TString s) = hashpow2 t (unat (luaS_hash s))"
| "mainposition bits t (TBool b) = hashpow2 t (if b then 1 else 0)"
| "mainposition bits t (TLight p) = hashmod t (IntPoint p)"
| "mainposition bits t (TObject p) = hashmod t (IntPoint p)"
| "mainposition bits t TNil = hashmod t 0"

text \<open>\<open>lua_number2int\<close> followed by the comparison with the number.\<close>

definition number_int :: "real \<Rightarrow> int option" where
  "number_int n = (if of_int \<lfloor>n\<rfloor> = n \<and> - (2 ^ 31) \<le> \<lfloor>n\<rfloor> \<and> \<lfloor>n\<rfloor> < 2 ^ 31 then Some \<lfloor>n\<rfloor> else None)"

fun arrayindex :: "tvalue \<Rightarrow> int" where
  "arrayindex (TNumber n) = (case number_int n of Some k \<Rightarrow> k | None \<Rightarrow> - 1)"
| "arrayindex _ = - 1"

section \<open>Searching\<close>

text \<open>
  \<open>do if (P (n)) return; else n = gnext (n); while (n)\<close>, with as much fuel as there are nodes:
  a chain visits none twice (\<open>chain_find_node\<close>).
\<close>

fun chain_find :: "(node \<Rightarrow> bool) \<Rightarrow> node list \<Rightarrow> nat \<Rightarrow> nat \<Rightarrow> nat option" where
  "chain_find P ns 0 n = None"
| "chain_find P ns (Suc f) n =
     (if P (ns ! n) then Some n
      else (case i_next (ns ! n) of None \<Rightarrow> None | Some m \<Rightarrow> chain_find P ns f m))"

definition luaH_getnum :: "bits \<Rightarrow> ltable \<Rightarrow> int \<Rightarrow> slot option" where
  "luaH_getnum bits t key =
     (if (key - 1) mod 2 ^ 32 < int (sizearray t) then Some (ArraySlot (nat ((key - 1) mod 2 ^ 32)))
      else map_option NodeSlot
             (chain_find (\<lambda>n. i_key n = TNumber (of_int key)) (t_node t) (sizenode t)
                (hashnum bits t (of_int key))))"

definition luaH_getstr :: "bits \<Rightarrow> ltable \<Rightarrow> string \<Rightarrow> slot option" where
  "luaH_getstr bits t key =
     map_option NodeSlot
       (chain_find (\<lambda>n. i_key n = TString key) (t_node t) (sizenode t) (hashpow2 t (unat (luaS_hash key))))"

definition luaH_getany :: "bits \<Rightarrow> ltable \<Rightarrow> tvalue \<Rightarrow> slot option" where
  "luaH_getany bits t key =
     map_option NodeSlot
       (chain_find (\<lambda>n. luaO_rawequalObj (i_key n) key) (t_node t) (sizenode t) (mainposition bits t key))"

fun luaH_get :: "bits \<Rightarrow> ltable \<Rightarrow> tvalue \<Rightarrow> slot option" where
  "luaH_get bits t TNil = None"
| "luaH_get bits t (TString s) = luaH_getstr bits t s"
| "luaH_get bits t (TNumber n) =
     (case number_int n of Some k \<Rightarrow> luaH_getnum bits t k | None \<Rightarrow> luaH_getany bits t (TNumber n))"
| "luaH_get bits t key = luaH_getany bits t key"

section \<open>Traversal\<close>

definition findindex :: "bits \<Rightarrow> ltable \<Rightarrow> tvalue \<Rightarrow> lua_error + int" where
  "findindex bits t key =
     (if key = TNil then Inr (- 1)
      else
        (let i = arrayindex key in
         if 0 < i \<and> i \<le> int (sizearray t) then Inr (i - 1)
         else (case chain_find (\<lambda>n. luaO_rawequalObj (i_key n) key) (t_node t) (sizenode t) (mainposition bits t key) of
             Some n \<Rightarrow> Inr (int n + int (sizearray t))
           | None \<Rightarrow> luaL_error (''invalid key to '' @ [CHR 0x27] @ ''next'' @ [CHR 0x27]))))"

text \<open>The next key and value, from position \<open>i\<close> on: first the array part, then the nodes.\<close>

fun next_array :: "tvalue list \<Rightarrow> nat \<Rightarrow> (tvalue \<times> tvalue) option" where
  "next_array [] i = None"
| "next_array (v # vs) i = (if v \<noteq> TNil then Some (TNumber (real (i + 1)), v) else next_array vs (i + 1))"

fun next_node :: "node list \<Rightarrow> (tvalue \<times> tvalue) option" where
  "next_node [] = None"
| "next_node (n # ns) = (if i_val n \<noteq> TNil then Some (i_key n, i_val n) else next_node ns)"

definition luaH_next :: "bits \<Rightarrow> ltable \<Rightarrow> tvalue \<Rightarrow> lua_error + (tvalue \<times> tvalue) option" where
  "luaH_next bits t key =
     bindE (findindex bits t key) (\<lambda>i.
       let i = nat (i + 1) in
       case next_array (drop i (t_array t)) i of
         Some kv \<Rightarrow> Inr (Some kv)
       | None \<Rightarrow> Inr (next_node (drop (i - sizearray t) (t_node t))))"

section \<open>Sizes\<close>

text \<open>\<open>nums\<close> counts the integer keys of each slice between two powers of two.\<close>

function computesizes_loop :: "nat list \<Rightarrow> nat \<Rightarrow> nat \<Rightarrow> nat \<Rightarrow> nat \<Rightarrow> nat \<Rightarrow> nat \<times> nat" where
  "computesizes_loop nums narray i a na n =
     (if 2 ^ i div 2 < narray then
        (let (a, na, n) =
               (if nums ! i > 0 then
                  (let a = a + nums ! i in if a > 2 ^ i div 2 then (a, a, 2 ^ i) else (a, na, n))
                else (a, na, n))
         in if a = narray then (na, n) else computesizes_loop nums narray (i + 1) a na n)
      else (na, n))"
  by pat_completeness auto
termination
proof (relation "measure (\<lambda>(nums, narray, i, a, na, n). 2 * narray + 1 - i)", goal_cases)
  case (2 nums narray i)
  have "i < 2 ^ i" by (rule less_exp)
  with 2 have "i < 2 * narray + 1" by linarith
  then show ?case by simp
qed simp

declare computesizes_loop.simps [simp del]

text \<open>The result and the new \<open>*narray\<close>.\<close>

definition computesizes :: "nat list \<Rightarrow> nat \<Rightarrow> nat \<times> nat" where
  "computesizes nums narray = computesizes_loop nums narray 0 0 0 0"

definition countint :: "tvalue \<Rightarrow> nat list \<Rightarrow> nat \<times> nat list" where
  "countint key nums =
     (let k = arrayindex key in
      if 0 < k \<and> k \<le> int MAXASIZE then (1, nums[ceillog2 (nat k) := nums ! ceillog2 (nat k) + 1]) else (0, nums))"

text \<open>One slice after the other; \<open>i\<close> is the next index to count.\<close>

function numusearray_loop :: "tvalue list \<Rightarrow> nat \<Rightarrow> nat \<Rightarrow> nat \<Rightarrow> nat list \<Rightarrow> nat \<times> nat list" where
  "numusearray_loop arr lg i ause nums =
     (if lg \<le> MAXBITS then
        (let lim = (if 2 ^ lg > length arr then length arr else 2 ^ lg) in
         if 2 ^ lg > length arr \<and> i > lim then (ause, nums)
         else (let lc = length (filter (\<lambda>v. v \<noteq> TNil) (take (lim + 1 - i) (drop (i - 1) arr)))
               in numusearray_loop arr (lg + 1) (max i (lim + 1)) (ause + lc) (nums[lg := nums ! lg + lc])))
      else (ause, nums))"
  by pat_completeness auto
termination
  by (relation "measure (\<lambda>(arr, lg, i, ause, nums). MAXBITS + 1 - lg)") auto

declare numusearray_loop.simps [simp del]

definition numusearray :: "ltable \<Rightarrow> nat list \<Rightarrow> nat \<times> nat list" where
  "numusearray t nums = numusearray_loop (t_array t) 0 1 0 nums"

text \<open>The nodes from the last to the first: total use, integer keys, counts.\<close>

fun numusehash_loop :: "node list \<Rightarrow> nat \<times> nat \<times> nat list \<Rightarrow> nat \<times> nat \<times> nat list" where
  "numusehash_loop [] s = s"
| "numusehash_loop (n # ns) (totaluse, ause, nums) =
     (if i_val n \<noteq> TNil then
        (let (c, nums) = countint (i_key n) nums in numusehash_loop ns (totaluse + 1, ause + c, nums))
      else numusehash_loop ns (totaluse, ause, nums))"

definition numusehash :: "ltable \<Rightarrow> nat list \<Rightarrow> nat \<Rightarrow> nat \<times> nat \<times> nat list" where
  "numusehash t nums nasize =
     (let (totaluse, ause, nums) = numusehash_loop (rev (t_node t)) (0, 0, nums)
      in (totaluse, nasize + ause, nums))"

text \<open>The sizes of \<open>rehash\<close>: of the array part and of the hash part.\<close>

definition rehash_sizes :: "tvalue \<Rightarrow> ltable \<Rightarrow> nat \<times> nat" where
  "rehash_sizes ek t =
     (let (arrayuse, nums) = numusearray t (replicate (MAXBITS + 1) 0);
          (hashuse, nasize, nums) = numusehash t nums arrayuse;
          totaluse = arrayuse + hashuse;
          (c, nums) = countint ek nums;
          nasize = nasize + c;
          totaluse = totaluse + 1;
          (na, nasize) = computesizes nums nasize
      in (nasize, totaluse - na))"

section \<open>Resizing\<close>

definition setarrayvector :: "nat \<Rightarrow> ltable \<Rightarrow> ltable" where
  "setarrayvector n t = t\<lparr>t_array := take n (t_array t) @ replicate (n - sizearray t) TNil\<rparr>"

definition setnodevector :: "nat \<Rightarrow> ltable \<Rightarrow> lua_error + ltable" where
  "setnodevector n t =
     (if n = 0 then Inr (t\<lparr>t_node := [empty_node], lsizenode := 0, lastfree := 0, t_dummy := True\<rparr>)
      else if ceillog2 n > MAXBITS then luaL_error ''table overflow''
      else Inr (t\<lparr>t_node := replicate (2 ^ ceillog2 n) empty_node, lsizenode := ceillog2 n,
                  lastfree := 2 ^ ceillog2 n, t_dummy := False\<rparr>))"

definition luaH_new :: "nat \<Rightarrow> nat \<Rightarrow> lua_error + ltable" where
  "luaH_new narray nhash =
     setnodevector nhash (setarrayvector narray
       \<lparr>t_array = [], t_node = [empty_node], lsizenode = 0, lastfree = 0, t_dummy = True\<rparr>)"

text \<open>
  \<open>getfreepos\<close> moves \<open>lastfree\<close> down to a node without a key. When there is none the pointer
  ends one below the vector and only a rehash sets it again; here it stays at 0.
\<close>

fun getfreepos :: "node list \<Rightarrow> nat \<Rightarrow> nat option \<times> nat" where
  "getfreepos ns 0 = (None, 0)"
| "getfreepos ns (Suc k) = (if i_key (ns ! k) = TNil then (Some k, k) else getfreepos ns k)"

text \<open>\<open>while (gnext (othern) != mp) othern = gnext (othern)\<close>\<close>

fun find_prev :: "node list \<Rightarrow> nat \<Rightarrow> nat \<Rightarrow> nat \<Rightarrow> nat option" where
  "find_prev ns 0 n mp = None"
| "find_prev ns (Suc f) n mp =
     (case i_next (ns ! n) of
        None \<Rightarrow> None
      | Some m \<Rightarrow> if m = mp then Some n else find_prev ns f m mp)"

text \<open>
  \<open>newkey\<close>, \<open>rehash\<close> and \<open>resize\<close> call one another through \<open>luaH_set\<close>. Each takes the
  function that stands for the inner \<open>newkey\<close> as its first argument; \<open>newkey\<close> closes the
  recursion below.
\<close>

type_synonym newkey_fun = "tvalue \<Rightarrow> ltable \<Rightarrow> (slot \<times> ltable) tres"

definition luaH_set_with :: "newkey_fun \<Rightarrow> bits \<Rightarrow> tvalue \<Rightarrow> ltable \<Rightarrow> (slot \<times> ltable) tres" where
  "luaH_set_with nk bits key t =
     (case luaH_get bits t key of
        Some p \<Rightarrow> Some (Inr (p, t))
      | None \<Rightarrow> if key = TNil then Some (luaL_error ''table index is nil'') else nk key t)"

definition luaH_setnum_with :: "newkey_fun \<Rightarrow> bits \<Rightarrow> int \<Rightarrow> ltable \<Rightarrow> (slot \<times> ltable) tres" where
  "luaH_setnum_with nk bits key t =
     (case luaH_getnum bits t key of
        Some p \<Rightarrow> Some (Inr (p, t))
      | None \<Rightarrow> nk (TNumber (of_int key)) t)"

definition luaH_setstr_with :: "newkey_fun \<Rightarrow> bits \<Rightarrow> string \<Rightarrow> ltable \<Rightarrow> (slot \<times> ltable) tres" where
  "luaH_setstr_with nk bits key t =
     (case luaH_getstr bits t key of
        Some p \<Rightarrow> Some (Inr (p, t))
      | None \<Rightarrow> nk (TString key) t)"

text \<open>\<open>setobjt2t (L, luaH_set (\<dots>), v)\<close> for the old entries, those that are nil left out.\<close>

fun reinsert :: "('k \<Rightarrow> ltable \<Rightarrow> (slot \<times> ltable) tres) \<Rightarrow> ('k \<times> tvalue) list \<Rightarrow> ltable \<Rightarrow> ltable tres" where
  "reinsert setk [] t = Some (Inr t)"
| "reinsert setk ((k, v) # kvs) t =
     (if v = TNil then reinsert setk kvs t
      else (case setk k t of
          None \<Rightarrow> None
        | Some (Inl e) \<Rightarrow> Some (Inl e)
        | Some (Inr (p, t)) \<Rightarrow> reinsert setk kvs (slot_put p v t)))"

definition resize_with :: "newkey_fun \<Rightarrow> bits \<Rightarrow> nat \<Rightarrow> nat \<Rightarrow> ltable \<Rightarrow> ltable tres" where
  "resize_with nk bits nasize nhsize t =
     (let old = t;
          t = (if nasize > sizearray t then setarrayvector nasize t else t) in
      case setnodevector nhsize t of
        Inl e \<Rightarrow> Some (Inl e)
      | Inr t \<Rightarrow>
         (let vanishing = zip [int nasize + 1..int (sizearray old)] (drop nasize (t_array old)) in
          case (if nasize < sizearray old
                then reinsert (luaH_setnum_with nk bits) vanishing (t\<lparr>t_array := take nasize (t_array t)\<rparr>)
                else Some (Inr t)) of
            None \<Rightarrow> None
          | Some (Inl e) \<Rightarrow> Some (Inl e)
          | Some (Inr t) \<Rightarrow>
              reinsert (luaH_set_with nk bits) (map (\<lambda>n. (i_key n, i_val n)) (rev (t_node old))) t))"

definition rehash_with :: "newkey_fun \<Rightarrow> bits \<Rightarrow> tvalue \<Rightarrow> ltable \<Rightarrow> ltable tres" where
  "rehash_with nk bits ek t =
     (let (nasize, nhsize) = rehash_sizes ek t in resize_with nk bits nasize nhsize t)"

text \<open>\<open>gkey (mp) = key\<close>, and the two ways to make room at a main position that is taken.\<close>

definition store_key :: "nat \<Rightarrow> tvalue \<Rightarrow> ltable \<Rightarrow> ltable" where
  "store_key mp key t = t\<lparr>t_node := (t_node t)[mp := (t_node t ! mp)\<lparr>i_key := key\<rparr>]\<rparr>"

definition move_colliding :: "nat \<Rightarrow> nat \<Rightarrow> nat \<Rightarrow> ltable \<Rightarrow> ltable" where
  "move_colliding prev n mp t =
     (let ns = t_node t;
          ns = ns[prev := (ns ! prev)\<lparr>i_next := Some n\<rparr>];
          ns = ns[n := ns ! mp];
          ns = ns[mp := (ns ! mp)\<lparr>i_next := None, i_val := TNil\<rparr>]
      in t\<lparr>t_node := ns\<rparr>)"

definition chain_after :: "nat \<Rightarrow> nat \<Rightarrow> ltable \<Rightarrow> ltable" where
  "chain_after n mp t =
     (let ns = t_node t;
          ns = ns[n := (ns ! n)\<lparr>i_next := i_next (ns ! mp)\<rparr>];
          ns = ns[mp := (ns ! mp)\<lparr>i_next := Some n\<rparr>]
      in t\<lparr>t_node := ns\<rparr>)"

definition newkey_with :: "newkey_fun \<Rightarrow> bits \<Rightarrow> newkey_fun" where
  "newkey_with nk bits key t =
     (let mp = mainposition bits t key in
      if i_val (t_node t ! mp) \<noteq> TNil \<or> t_dummy t then
        (case getfreepos (t_node t) (lastfree t) of
           (None, k) \<Rightarrow>
             (case rehash_with nk bits key (t\<lparr>lastfree := k\<rparr>) of
                None \<Rightarrow> None
              | Some (Inl e) \<Rightarrow> Some (Inl e)
              | Some (Inr t) \<Rightarrow> luaH_set_with nk bits key t)
         | (Some n, k) \<Rightarrow>
             (let t = t\<lparr>lastfree := k\<rparr>;
                  othern = mainposition bits t (i_key (t_node t ! mp)) in
              if othern \<noteq> mp then
                (case find_prev (t_node t) (sizenode t) othern mp of
                   None \<Rightarrow> None
                 | Some prev \<Rightarrow> Some (Inr (NodeSlot mp, store_key mp key (move_colliding prev n mp t))))
              else Some (Inr (NodeSlot n, store_key n key (chain_after n mp t)))))
      else Some (Inr (NodeSlot mp, store_key mp key t)))"

text \<open>
  The recursion. One level is enough: inside a rehash no insertion ever finds the new vector
  full (\<open>newkey_total\<close>).
\<close>

primrec newkey :: "nat \<Rightarrow> bits \<Rightarrow> newkey_fun" where
  "newkey 0 bits = newkey_with (\<lambda>key t. None) bits"
| "newkey (Suc f) bits = newkey_with (newkey f bits) bits"

definition luaH_set :: "nat \<Rightarrow> bits \<Rightarrow> tvalue \<Rightarrow> ltable \<Rightarrow> (slot \<times> ltable) tres" where
  "luaH_set f bits = luaH_set_with (newkey f bits) bits"

definition luaH_setnum :: "nat \<Rightarrow> bits \<Rightarrow> int \<Rightarrow> ltable \<Rightarrow> (slot \<times> ltable) tres" where
  "luaH_setnum f bits = luaH_setnum_with (newkey f bits) bits"

definition luaH_setstr :: "nat \<Rightarrow> bits \<Rightarrow> string \<Rightarrow> ltable \<Rightarrow> (slot \<times> ltable) tres" where
  "luaH_setstr f bits = luaH_setstr_with (newkey f bits) bits"

definition resize :: "nat \<Rightarrow> bits \<Rightarrow> nat \<Rightarrow> nat \<Rightarrow> ltable \<Rightarrow> ltable tres" where
  "resize f bits = resize_with (newkey f bits) bits"

definition luaH_resizearray :: "nat \<Rightarrow> bits \<Rightarrow> nat \<Rightarrow> ltable \<Rightarrow> ltable tres" where
  "luaH_resizearray f bits nasize t = resize f bits nasize (if t_dummy t then 0 else sizenode t) t"

section \<open>Boundaries\<close>

text \<open>The two binary searches: \<open>i\<close> is zero or present, \<open>j\<close> absent.\<close>

function binsearch :: "(nat \<Rightarrow> bool) \<Rightarrow> nat \<Rightarrow> nat \<Rightarrow> nat" where
  "binsearch absent i j =
     (if j - i > 1 then
        (let m = (i + j) div 2 in if absent m then binsearch absent i m else binsearch absent m j)
      else i)"
  by pat_completeness auto
termination
  by (relation "measure (\<lambda>(absent, i, j). j - i)") auto

declare binsearch.simps [simp del]

definition absent :: "bits \<Rightarrow> ltable \<Rightarrow> nat \<Rightarrow> bool" where
  "absent bits t j = (value_at t (luaH_getnum bits t (int j)) = TNil)"

text \<open>The linear search: as many steps as the table has places for values, and one more.\<close>

fun linsearch :: "(nat \<Rightarrow> bool) \<Rightarrow> nat \<Rightarrow> nat \<Rightarrow> nat option" where
  "linsearch ab 0 i = None"
| "linsearch ab (Suc f) i = (if \<not> ab i then linsearch ab f (i + 1) else Some (i - 1))"

function doubling :: "(nat \<Rightarrow> bool) \<Rightarrow> nat \<Rightarrow> nat \<Rightarrow> (nat \<times> nat) option" where
  "doubling ab i j =
     (if \<not> ab j \<and> 0 < j then
        (if j * 2 > MAX_INT then None else doubling ab j (j * 2))
      else Some (i, j))"
  by pat_completeness auto
termination
  by (relation "measure (\<lambda>(ab, i, j). MAX_INT + 1 - j)") auto

declare doubling.simps [simp del]

definition unbound_search :: "bits \<Rightarrow> ltable \<Rightarrow> nat \<Rightarrow> nat option" where
  "unbound_search bits t j =
     (case doubling (absent bits t) j (j + 1) of
        None \<Rightarrow> linsearch (absent bits t) (sizearray t + sizenode t + 1) 1
      | Some (i, j) \<Rightarrow> Some (binsearch (absent bits t) i j))"

definition luaH_getn :: "bits \<Rightarrow> ltable \<Rightarrow> nat option" where
  "luaH_getn bits t =
     (let j = sizearray t in
      if j > 0 \<and> t_array t ! (j - 1) = TNil
      then Some (binsearch (\<lambda>m. t_array t ! (m - 1) = TNil) 0 j)
      else if t_dummy t then Some j
      else unbound_search bits t j)"

end
