(* ===== verification/Lua_Chain.thy ===== *)
theory Lua_Chain
  imports Lua_Table
begin

text \<open>
  The hash part of a table: the invariant of its chains, search, and insertion without a rehash.
  The invariant is on the vector of nodes alone, \<open>mp\<close> being the main position of each key.
\<close>

section \<open>Chains\<close>

abbreviation key_at :: "node list \<Rightarrow> nat \<Rightarrow> tvalue" where "key_at ns i \<equiv> i_key (ns ! i)"
abbreviation val_at :: "node list \<Rightarrow> nat \<Rightarrow> tvalue" where "val_at ns i \<equiv> i_val (ns ! i)"
abbreviation next_at :: "node list \<Rightarrow> nat \<Rightarrow> nat option" where "next_at ns i \<equiv> i_next (ns ! i)"

definition edge :: "node list \<Rightarrow> nat \<Rightarrow> nat \<Rightarrow> bool" where
  "edge ns i j \<longleftrightarrow> i < length ns \<and> next_at ns i = Some j"

abbreviation reach :: "node list \<Rightarrow> nat \<Rightarrow> nat \<Rightarrow> bool" where "reach ns \<equiv> (edge ns)\<^sup>*\<^sup>*"

text \<open>
  A chain only links nodes with keys; no two nodes have the same successor; there is no cycle;
  every key is on the chain that starts at its main position, and the key found there is at
  home (Brent's variation); keys are distinct; only a node with a key has a value.
\<close>

definition nodes_ok :: "(tvalue \<Rightarrow> nat) \<Rightarrow> node list \<Rightarrow> bool" where
  "nodes_ok mp ns \<longleftrightarrow>
     (\<forall>k. mp k < length ns)
   \<and> (\<forall>i j. edge ns i j \<longrightarrow> j < length ns \<and> key_at ns i \<noteq> TNil \<and> key_at ns j \<noteq> TNil)
   \<and> (\<forall>i j k. edge ns i k \<longrightarrow> edge ns j k \<longrightarrow> i = j)
   \<and> (\<exists>rank :: nat \<Rightarrow> nat. \<forall>i j. edge ns i j \<longrightarrow> rank j < rank i)
   \<and> (\<forall>i < length ns. key_at ns i \<noteq> TNil \<longrightarrow> reach ns (mp (key_at ns i)) i)
   \<and> (\<forall>i < length ns. key_at ns i \<noteq> TNil \<longrightarrow>
        key_at ns (mp (key_at ns i)) \<noteq> TNil \<and> mp (key_at ns (mp (key_at ns i))) = mp (key_at ns i))
   \<and> (\<forall>i < length ns. \<forall>j < length ns. key_at ns i = key_at ns j \<longrightarrow> key_at ns i \<noteq> TNil \<longrightarrow> i = j)
   \<and> (\<forall>i < length ns. val_at ns i \<noteq> TNil \<longrightarrow> key_at ns i \<noteq> TNil)"

lemma nodes_okD:
  assumes "nodes_ok mp ns"
  shows "mp k < length ns"
    and "edge ns i j \<Longrightarrow> j < length ns \<and> key_at ns i \<noteq> TNil \<and> key_at ns j \<noteq> TNil"
    and "edge ns i k' \<Longrightarrow> edge ns j k' \<Longrightarrow> i = j"
    and "\<exists>rank :: nat \<Rightarrow> nat. \<forall>i j. edge ns i j \<longrightarrow> rank j < rank i"
    and "i < length ns \<Longrightarrow> key_at ns i \<noteq> TNil \<Longrightarrow> reach ns (mp (key_at ns i)) i"
    and "i < length ns \<Longrightarrow> key_at ns i \<noteq> TNil \<Longrightarrow>
      key_at ns (mp (key_at ns i)) \<noteq> TNil \<and> mp (key_at ns (mp (key_at ns i))) = mp (key_at ns i)"
    and "i < length ns \<Longrightarrow> j < length ns \<Longrightarrow> key_at ns i = key_at ns j \<Longrightarrow> key_at ns i \<noteq> TNil \<Longrightarrow> i = j"
    and "i < length ns \<Longrightarrow> val_at ns i \<noteq> TNil \<Longrightarrow> key_at ns i \<noteq> TNil"
  using assms unfolding nodes_ok_def by blast+

section \<open>Search\<close>

lemma chain_find_sound:
  assumes "nodes_ok mp ns" and "chain_find P ns f s = Some i" and "s < length ns"
  shows "i < length ns \<and> P (ns ! i)"
  using assms(2,3)
proof (induction f arbitrary: s)
  case (Suc f)
  show ?case
  proof (cases "P (ns ! s)")
    case True
    with Suc.prems show ?thesis by simp
  next
    case False
    with Suc.prems(1) obtain m where m: "next_at ns s = Some m" "chain_find P ns f m = Some i"
      by (simp split: option.splits)
    with Suc.prems(2) have "edge ns s m" by (simp add: edge_def)
    with nodes_okD(2) [OF assms(1)] have "m < length ns" by blast
    with Suc.IH [OF m(2)] show ?thesis by simp
  qed
qed simp

text \<open>The nodes a walk can still visit: those of at most the rank of the current one.\<close>

definition below :: "(nat \<Rightarrow> nat) \<Rightarrow> node list \<Rightarrow> nat \<Rightarrow> nat set" where
  "below rank ns s = {k. k < length ns \<and> rank k \<le> rank s}"

lemma below_fuel:
  assumes "edge ns s m" and "m < length ns" and "rank m < rank s"
  shows "card (below rank ns m) < card (below rank ns s)"
proof (rule psubset_card_mono)
  show "finite (below rank ns s)" by (simp add: below_def)
  show "below rank ns m \<subset> below rank ns s"
  proof (rule psubsetI)
    show "below rank ns m \<subseteq> below rank ns s" using assms(3) by (auto simp: below_def)
    have "s \<in> below rank ns s" "s \<notin> below rank ns m" using assms(1,3) by (simp_all add: below_def edge_def)
    then show "below rank ns m \<noteq> below rank ns s" by blast
  qed
qed

lemma below_length: "card (below rank ns s) \<le> length ns"
proof -
  have "below rank ns s \<subseteq> {..<length ns}" by (auto simp: below_def)
  from card_mono [OF _ this] show ?thesis by simp
qed

lemma below_pos: "s < length ns \<Longrightarrow> 0 < card (below rank ns s)"
  by (auto simp: below_def card_gt_0_iff)

lemma chain_find_complete:
  assumes "nodes_ok mp ns" and rank: "\<forall>i j. edge ns i j \<longrightarrow> rank j < rank i"
    and "reach ns s i" and "P (ns ! i)" and "s < length ns" and "card (below rank ns s) \<le> f"
  shows "\<exists>j. chain_find P ns f s = Some j"
  using assms(3,5,6)
proof (induction arbitrary: f rule: converse_rtranclp_induct)
  case base
  then obtain f' where "f = Suc f'" using below_pos [of i ns rank] by (cases f) auto
  with assms(4) show ?case by simp
next
  case (step s m)
  then have m: "m < length ns" "rank m < rank s" using nodes_okD(2) [OF assms(1)] rank by blast+
  from below_fuel [OF step.hyps(1) m] step.prems(2) have f: "card (below rank ns m) < f" by simp
  then obtain f' where f': "f = Suc f'" by (cases f) auto
  with f have "card (below rank ns m) \<le> f'" by simp
  from step.IH [OF m(1) this] f' step.hyps(1) show ?case by (auto simp: edge_def)
qed

text \<open>The search from the main position of a key finds the node of that key, if there is one.\<close>

lemma chain_find_node:
  assumes "nodes_ok mp ns" and "k \<noteq> TNil" and "\<And>n. P n \<longleftrightarrow> i_key n = k"
  shows "chain_find P ns (length ns) (mp k) = Some i \<longleftrightarrow> i < length ns \<and> key_at ns i = k"
proof
  assume "chain_find P ns (length ns) (mp k) = Some i"
  from chain_find_sound [OF assms(1) this] nodes_okD(1) [OF assms(1)] show "i < length ns \<and> key_at ns i = k"
    by (simp add: assms(3))
next
  assume i: "i < length ns \<and> key_at ns i = k"
  obtain rank :: "nat \<Rightarrow> nat" where rank: "\<forall>i j. edge ns i j \<longrightarrow> rank j < rank i"
    using nodes_okD(4) [OF assms(1)] by blast
  have "reach ns (mp k) i" using nodes_okD(5) [OF assms(1), of i] i assms(2) by simp
  from chain_find_complete [OF assms(1) rank this, of P "length ns"] i nodes_okD(1) [OF assms(1)]
  obtain j where j: "chain_find P ns (length ns) (mp k) = Some j" by (auto simp: assms(3) below_length)
  from chain_find_sound [OF assms(1) j] nodes_okD(1) [OF assms(1)] have "j < length ns \<and> key_at ns j = k"
    by (simp add: assms(3))
  with i j nodes_okD(7) [OF assms(1), of i j] assms(2) show "chain_find P ns (length ns) (mp k) = Some i" by simp
qed

lemma chain_find_absent:
  assumes "nodes_ok mp ns" and "k \<noteq> TNil" and "\<And>n. P n \<longleftrightarrow> i_key n = k"
  shows "chain_find P ns (length ns) (mp k) = None \<longleftrightarrow> (\<forall>i < length ns. key_at ns i \<noteq> k)"
  using chain_find_node [OF assms] by (cases "chain_find P ns (length ns) (mp k)") auto

lemma find_prev_complete:
  assumes "nodes_ok mp ns" and rank: "\<forall>i j. edge ns i j \<longrightarrow> rank j < rank i"
    and "reach ns s q" and "s \<noteq> q" and "s < length ns" and "card (below rank ns s) \<le> f"
  shows "\<exists>p. find_prev ns f s q = Some p \<and> edge ns p q \<and> reach ns s p"
  using assms(3-6)
proof (induction arbitrary: f rule: converse_rtranclp_induct)
  case base
  then show ?case by simp
next
  case (step s m)
  then have m: "m < length ns" "rank m < rank s" using nodes_okD(2) [OF assms(1)] rank by blast+
  from below_fuel [OF step.hyps(1) m] step.prems(3) have f: "card (below rank ns m) < f" by simp
  then obtain f' where f': "f = Suc f'" by (cases f) auto
  show ?case
  proof (cases "m = q")
    case True
    with f' step.hyps(1) show ?thesis by (auto simp: edge_def)
  next
    case False
    from f f' have "card (below rank ns m) \<le> f'" by simp
    from step.IH [OF False m(1) this] f' step.hyps(1) False show ?thesis
      by (auto simp: edge_def intro: converse_rtranclp_into_rtranclp)
  qed
qed


section \<open>Insertion\<close>

text \<open>The entries of a vector of nodes: the keys with a value that is not nil.\<close>

definition ent :: "node list \<Rightarrow> (tvalue \<times> tvalue) set" where
  "ent ns = {(key_at ns i, val_at ns i) |i. i < length ns \<and> val_at ns i \<noteq> TNil}"

text \<open>The nodes with a key; a vector has room for the others.\<close>

definition keyed :: "node list \<Rightarrow> nat set" where
  "keyed ns = {i. i < length ns \<and> key_at ns i \<noteq> TNil}"

lemma nth_update_if: "xs[i := x] ! j = (if i = j \<and> j < length xs then x else xs ! j)"
  by (induction xs arbitrary: i j) (auto simp: nth_Cons split: nat.splits)

lemma edge_key: "edge (ns[i := (ns ! i)\<lparr>i_key := k\<rparr>]) = edge ns"
  by (rule ext)+ (auto simp: edge_def nth_update_if)

lemma nodes_ok_put_key:
  assumes "nodes_ok mp ns" and "k \<noteq> TNil" and "\<And>i. i < length ns \<Longrightarrow> key_at ns i \<noteq> k"
    and "val_at ns (mp k) = TNil"
  shows "nodes_ok mp (ns[mp k := (ns ! mp k)\<lparr>i_key := k\<rparr>])" (is "nodes_ok mp ?ns")
proof -
  note ok = nodes_okD [OF assms(1)]
  have key: "key_at ?ns i = (if i = mp k then k else key_at ns i)" for i
    using ok(1) [of k] by (simp add: nth_list_update)
  have val: "val_at ?ns i = val_at ns i" for i
    using ok(1) [of k] by (simp add: nth_list_update)
  show ?thesis
    unfolding nodes_ok_def edge_key length_list_update
  proof (intro conjI allI impI)
    show "mp k' < length ns" for k' by (rule ok(1))
    show "\<exists>rank :: nat \<Rightarrow> nat. \<forall>i j. edge ns i j \<longrightarrow> rank j < rank i" by (rule ok(4))
  next
    fix i j assume e: "edge ns i j"
    show "j < length ns" using ok(2) [OF e] by blast
    show "key_at ?ns i \<noteq> TNil" "key_at ?ns j \<noteq> TNil" using ok(2) [OF e] assms(2) by (simp_all add: key)
  next
    fix i j j' assume "edge ns i j'" "edge ns j j'"
    then show "i = j" by (rule ok(3))
  next
    fix i assume i: "i < length ns" "key_at ?ns i \<noteq> TNil"
    show "reach ns (mp (key_at ?ns i)) i" using ok(5) [of i] i by (simp add: key split: if_splits)
    show "key_at ?ns (mp (key_at ?ns i)) \<noteq> TNil" using ok(6) [of i] i assms(2) by (simp add: key split: if_splits)
    show "mp (key_at ?ns (mp (key_at ?ns i))) = mp (key_at ?ns i)"
      using ok(6) [of i] i by (simp add: key split: if_splits)
  next
    fix i j assume "i < length ns" "j < length ns" "key_at ?ns i = key_at ?ns j" "key_at ?ns i \<noteq> TNil"
    then show "i = j" using ok(7) [of i j] assms(3) [of i] assms(3) [of j] by (auto simp: key split: if_splits)
  next
    fix i assume "i < length ns" "val_at ?ns i \<noteq> TNil"
    then show "key_at ?ns i \<noteq> TNil" using ok(8) [of i] assms(2) by (simp add: key val)
  qed
qed

text \<open>The occupant is out of its main position and moves: the nodes \<open>n\<close> and \<open>m\<close> change places.\<close>

definition moved :: "nat \<Rightarrow> nat \<Rightarrow> nat \<Rightarrow> tvalue \<Rightarrow> node list \<Rightarrow> node list" where
  "moved prev n m k ns =
     ns[prev := (ns ! prev)\<lparr>i_next := Some n\<rparr>, n := ns ! m, m := \<lparr>i_val = TNil, i_key = k, i_next = None\<rparr>]"

lemma moved_props:
  assumes "nodes_ok mp ns" and "n < length ns" and "key_at ns n = TNil" and "key_at ns m \<noteq> TNil"
    and "edge ns prev m" and "m < length ns"
  shows "length (moved prev n m k ns) = length ns"
    and "key_at (moved prev n m k ns) i = (if i = m then k else if i = n then key_at ns m else key_at ns i)"
    and "val_at (moved prev n m k ns) i = (if i = m then TNil else if i = n then val_at ns m else val_at ns i)"
    and "edge (moved prev n m k ns) i j =
      edge ns (if i = m then n else if i = n then m else i) (if j = m then n else if j = n then m else j)"
proof -
  note ok = nodes_okD [OF assms(1)]
  obtain rank :: "nat \<Rightarrow> nat" where rank: "\<forall>i j. edge ns i j \<longrightarrow> rank j < rank i" using ok(4) by blast
  have nm: "n \<noteq> m" "prev \<noteq> m" "prev \<noteq> n" "prev < length ns"
    using assms ok(2) [OF assms(5)] rank by (auto simp: edge_def)
  show "length (moved prev n m k ns) = length ns" by (simp add: moved_def)
  show "key_at (moved prev n m k ns) i = (if i = m then k else if i = n then key_at ns m else key_at ns i)"
    "val_at (moved prev n m k ns) i = (if i = m then TNil else if i = n then val_at ns m else val_at ns i)"
    using nm assms(2,6) by (auto simp: moved_def nth_update_if)
  have no: "\<not> edge ns n x" "\<not> edge ns x n" for x using ok(2) assms(3) by blast+
  have prev: "edge ns x m \<longleftrightarrow> x = prev" for x using ok(3) assms(5) by blast
  have "next_at (moved prev n m k ns) i =
      (if i = m then None else if i = n then next_at ns m else if i = prev then Some n else next_at ns i)"
    using nm assms(2,6) by (auto simp: moved_def nth_update_if)
  then have "edge (moved prev n m k ns) i j \<longleftrightarrow> i < length ns \<and> i \<noteq> m \<and>
      (if i = n then edge ns m j else if i = prev then j = n else edge ns i j)"
    using assms(6) by (auto simp: edge_def moved_def)
  also have "\<dots> \<longleftrightarrow> edge ns (if i = m then n else if i = n then m else i) (if j = m then n else if j = n then m else j)"
  proof -
    have "\<not> edge ns m m" using rank by blast
    moreover have "edge ns prev x \<longleftrightarrow> x = m" for x using assms(5) by (auto simp: edge_def)
    moreover have "(i < length ns \<and> edge ns i j) = edge ns i j" by (auto simp: edge_def)
    ultimately show ?thesis using no [of j] no [of i] no [of m] no [of n] prev [of i] nm assms(2)
      by (cases "i = n"; cases "i = m"; cases "j = n"; cases "j = m"; cases "i = prev") simp_all
  qed
  finally show "edge (moved prev n m k ns) i j =
      edge ns (if i = m then n else if i = n then m else i) (if j = m then n else if j = n then m else j)" .
qed

lemma nodes_ok_moved:
  assumes "nodes_ok mp ns" and "k \<noteq> TNil" and "\<And>i. i < length ns \<Longrightarrow> key_at ns i \<noteq> k"
    and "n < length ns" and "key_at ns n = TNil" and "key_at ns (mp k) \<noteq> TNil"
    and "mp (key_at ns (mp k)) \<noteq> mp k" and "edge ns prev (mp k)"
  shows "nodes_ok mp (moved prev n (mp k) k ns)" (is "nodes_ok mp ?ns")
proof -
  note ok = nodes_okD [OF assms(1)]
  define m where "m = mp k"
  have m: "m < length ns" "key_at ns m \<noteq> TNil" "mp (key_at ns m) \<noteq> m" "n \<noteq> m"
    using ok(1) assms(5-7) by (auto simp: m_def)
  note props = moved_props [OF assms(1,4,5) m(2) assms(8) [folded m_def] m(1), of k, unfolded m_def]
  note props = props [folded m_def]
  let ?s = "\<lambda>i. if i = m then n else if i = n then m else i"
  have away: "mp (key_at ns i) \<noteq> m" "mp (key_at ns i) \<noteq> n" if "i < length ns" "key_at ns i \<noteq> TNil" for i
    using ok(6) [OF that] m(3) assms(5) by auto
  have reach: "reach ns a b \<Longrightarrow> reach (moved prev n m k ns) (?s a) (?s b)" for a b
  proof (induction rule: rtranclp_induct)
    case (step b c)
    have "edge (moved prev n m k ns) (?s b) (?s c)"
      unfolding props(4) using step.hyps(2) m(4) by (cases "b = m"; cases "b = n"; cases "c = m"; cases "c = n") simp_all
    with step.IH show ?case by (rule rtranclp.rtrancl_into_rtrancl)
  qed simp
  obtain rank :: "nat \<Rightarrow> nat" where rank: "\<forall>i j. edge ns i j \<longrightarrow> rank j < rank i" using ok(4) by blast
  show ?thesis
    unfolding nodes_ok_def props(1) m_def [symmetric]
  proof (intro conjI allI impI)
    show "mp k' < length ns" for k' by (rule ok(1))
    have "\<forall>i j. edge (moved prev n m k ns) i j \<longrightarrow> rank (?s j) < rank (?s i)" using rank unfolding props(4) by blast
    then show "\<exists>rank :: nat \<Rightarrow> nat. \<forall>i j. edge (moved prev n m k ns) i j \<longrightarrow> rank j < rank i"
      by (intro exI [of _ "\<lambda>i. rank (?s i)"])
  next
    fix i j assume "edge (moved prev n m k ns) i j"
    then have e: "edge ns (?s i) (?s j)" unfolding props(4) .
    from ok(2) [OF e] m(1) assms(4) show "j < length ns" by (simp split: if_splits)
    from ok(2) [OF e] m(2) assms(2,5) show "key_at (moved prev n m k ns) i \<noteq> TNil" "key_at (moved prev n m k ns) j \<noteq> TNil"
      unfolding props(2) by (simp_all split: if_splits)
  next
    fix i j j' assume "edge (moved prev n m k ns) i j'" "edge (moved prev n m k ns) j j'"
    then have "?s i = ?s j" unfolding props(4) by (rule ok(3))
    with m(4) show "i = j" by (simp split: if_splits)
  next
    fix i assume i: "i < length ns" "key_at (moved prev n m k ns) i \<noteq> TNil"
    show "reach (moved prev n m k ns) (mp (key_at (moved prev n m k ns) i)) i"
    proof (cases "i = m")
      case True
      then show ?thesis by (simp add: props(2) m_def [symmetric])
    next
      case False
      let ?i = "if i = n then m else i"
      have k: "key_at (moved prev n m k ns) i = key_at ns ?i" "?i < length ns" "key_at ns ?i \<noteq> TNil"
        using False i m(1) by (cases "i = n"; simp add: props(2))+
      with reach [OF ok(5) [OF k(2,3)]] away [OF k(2,3)] False m(4) show ?thesis by (simp split: if_splits)
    qed
    show "key_at (moved prev n m k ns) (mp (key_at (moved prev n m k ns) i)) \<noteq> TNil"
      "mp (key_at (moved prev n m k ns) (mp (key_at (moved prev n m k ns) i))) = mp (key_at (moved prev n m k ns) i)"
      using ok(6) [of i] ok(6) [of m] away [of i] away [of m] i m assms(2)
      by (auto simp: props(2) m_def [symmetric] split: if_splits)
  next
    fix i j assume "i < length ns" "j < length ns" "key_at (moved prev n m k ns) i = key_at (moved prev n m k ns) j"
      "key_at (moved prev n m k ns) i \<noteq> TNil"
    then show "i = j"
      using ok(7) [of "?s i" "?s j"] assms(3) [of "?s i"] assms(3) [of "?s j"] m(1,4)
      by (auto simp: props(2) split: if_splits)
  next
    fix i assume "i < length ns" "val_at (moved prev n m k ns) i \<noteq> TNil"
    then show "key_at (moved prev n m k ns) i \<noteq> TNil"
      using ok(8) [of i] m(2) by (simp add: props(2,3) split: if_splits)
  qed
qed

text \<open>The occupant is at home: the new key goes to \<open>n\<close>, which is chained after it.\<close>

definition chained :: "nat \<Rightarrow> nat \<Rightarrow> tvalue \<Rightarrow> node list \<Rightarrow> node list" where
  "chained n m k ns =
     ns[n := \<lparr>i_val = val_at ns n, i_key = k, i_next = next_at ns m\<rparr>, m := (ns ! m)\<lparr>i_next := Some n\<rparr>]"

lemma chained_props:
  assumes "n < length ns" and "n \<noteq> m" and "m < length ns"
  shows "length (chained n m k ns) = length ns"
    and "key_at (chained n m k ns) i = (if i = n then k else key_at ns i)"
    and "val_at (chained n m k ns) i = val_at ns i"
    and "edge (chained n m k ns) i j \<longleftrightarrow> (if i = m then j = n else if i = n then edge ns m j else edge ns i j)"
  using assms by (auto simp: chained_def nth_update_if edge_def)

lemma nodes_ok_chained:
  assumes "nodes_ok mp ns" and "k \<noteq> TNil" and "\<And>i. i < length ns \<Longrightarrow> key_at ns i \<noteq> k"
    and "n < length ns" and "key_at ns n = TNil" and "key_at ns (mp k) \<noteq> TNil"
    and "mp (key_at ns (mp k)) = mp k"
  shows "nodes_ok mp (chained n (mp k) k ns)"
proof -
  note ok = nodes_okD [OF assms(1)]
  define m where "m = mp k"
  have m: "m < length ns" "key_at ns m \<noteq> TNil" "mp (key_at ns m) = m" "n \<noteq> m"
    using ok(1) assms(5-7) by (auto simp: m_def)
  note props = chained_props [OF assms(4) m(4,1), of k]
  have no: "\<not> edge ns n x" "\<not> edge ns x n" for x using ok(2) assms(5) by blast+
  have step: "reach (chained n m k ns) a b" if "edge ns a b" for a b
  proof (cases "a = m")
    case True
    have "edge (chained n m k ns) a n" "edge (chained n m k ns) n b"
      using that m(4) True by (simp_all add: props(4))
    then show ?thesis by (meson converse_rtranclp_into_rtranclp r_into_rtranclp)
  next
    case False
    with that no have "edge (chained n m k ns) a b" by (auto simp: props(4))
    then show ?thesis by simp
  qed
  have reach: "reach ns a b \<Longrightarrow> reach (chained n m k ns) a b" for a b
    by (induction rule: rtranclp_induct) (auto dest: step intro: rtranclp_trans)
  obtain rank :: "nat \<Rightarrow> nat" where rank: "\<forall>i j. edge ns i j \<longrightarrow> rank j < rank i" using ok(4) by blast
  show ?thesis
    unfolding nodes_ok_def props(1) m_def [symmetric]
  proof (intro conjI allI impI)
    show "mp k' < length ns" for k' by (rule ok(1))
    let ?r = "\<lambda>i. if i = n then 2 * rank m else 2 * rank i + 1"
    have "?r j < ?r i" if "edge (chained n m k ns) i j" for i j
    proof -
      have r: "edge ns a b \<Longrightarrow> rank b < rank a" for a b using rank by blast
      from that show ?thesis
        using r [of m j] r [of i j] no(2) [of m] no(2) [of i] m(4) unfolding props(4)
        by (cases "i = m"; cases "i = n"; cases "j = n") simp_all
    qed
    then show "\<exists>rank :: nat \<Rightarrow> nat. \<forall>i j. edge (chained n m k ns) i j \<longrightarrow> rank j < rank i"
      by (intro exI [of _ ?r]) blast
  next
    fix i j assume e: "edge (chained n m k ns) i j"
    then show "j < length ns" using ok(2) assms(4) unfolding props(4) by (metis (full_types))
    from e show "key_at (chained n m k ns) i \<noteq> TNil" "key_at (chained n m k ns) j \<noteq> TNil"
      using ok(2) m(2) assms(2) unfolding props(2,4) by (metis (full_types))+
  next
    fix i j j' assume "edge (chained n m k ns) i j'" "edge (chained n m k ns) j j'"
    then show "i = j" using ok(3) no unfolding props(4) by (metis (full_types))
  next
    fix i assume i: "i < length ns" "key_at (chained n m k ns) i \<noteq> TNil"
    show "reach (chained n m k ns) (mp (key_at (chained n m k ns) i)) i"
    proof (cases "i = n")
      case True
      have "edge (chained n m k ns) m n" by (simp add: props(4))
      moreover have "key_at (chained n m k ns) i = k" using True by (simp add: props(2))
      ultimately show ?thesis using True by (simp add: m_def [symmetric] r_into_rtranclp)
    next
      case False
      with i reach [OF ok(5) [of i]] show ?thesis by (simp add: props(2))
    qed
    show "key_at (chained n m k ns) (mp (key_at (chained n m k ns) i)) \<noteq> TNil"
      "mp (key_at (chained n m k ns) (mp (key_at (chained n m k ns) i))) = mp (key_at (chained n m k ns) i)"
      using ok(6) [of i] i m assms(2,5) by (auto simp: props(2) m_def [symmetric] split: if_splits)
  next
    fix i j assume "i < length ns" "j < length ns" "key_at (chained n m k ns) i = key_at (chained n m k ns) j"
      "key_at (chained n m k ns) i \<noteq> TNil"
    then show "i = j"
      using ok(7) [of i j] assms(3) [of i] assms(3) [of j] by (auto simp: props(2) split: if_splits)
  next
    fix i assume "i < length ns" "val_at (chained n m k ns) i \<noteq> TNil"
    then show "key_at (chained n m k ns) i \<noteq> TNil" using ok(8) [of i] assms(2) by (simp add: props(2,3))
  qed
qed

section \<open>Entries and room\<close>

lemma finite_keyed [simp, intro]: "finite (keyed ns)"
  by (simp add: keyed_def)

lemma keyed_le: "card (keyed ns) \<le> length ns"
proof -
  have "keyed ns \<subseteq> {..<length ns}" by (auto simp: keyed_def)
  from card_mono [OF _ this] show ?thesis by simp
qed

lemma ent_unique:
  assumes "nodes_ok mp ns" and "(k, v) \<in> ent ns" and "(k, w) \<in> ent ns"
  shows "v = w"
proof -
  from assms(2) obtain i where i: "i < length ns" "k = key_at ns i" "v = val_at ns i" "v \<noteq> TNil"
    unfolding ent_def by blast
  from assms(3) obtain j where j: "j < length ns" "k = key_at ns j" "w = val_at ns j" unfolding ent_def by blast
  have "key_at ns i \<noteq> TNil" using nodes_okD(8) [OF assms(1) i(1)] i(3,4) by simp
  from nodes_okD(7) [OF assms(1) i(1) j(1) _ this] i(2) j(2) have "i = j" by simp
  with i(3) j(3) show ?thesis by simp
qed

lemma ent_key: "nodes_ok mp ns \<Longrightarrow> (k, v) \<in> ent ns \<Longrightarrow> k \<noteq> TNil"
  by (auto simp: ent_def dest: nodes_okD(8))

lemma ent_at:
  assumes "nodes_ok mp ns" and "i < length ns" and "key_at ns i \<noteq> TNil"
  shows "(key_at ns i, v) \<in> ent ns \<longleftrightarrow> v = val_at ns i \<and> v \<noteq> TNil"
proof -
  have eq: "j = i" if "j < length ns" "key_at ns i = key_at ns j" for j
    using nodes_okD(7) [OF assms(1,2) that(1) that(2) assms(3)] by (rule sym)
  show ?thesis
  proof
    assume "(key_at ns i, v) \<in> ent ns"
    then obtain j where "j < length ns" "key_at ns i = key_at ns j" "v = val_at ns j" "v \<noteq> TNil"
      unfolding ent_def by blast
    with eq [of j] show "v = val_at ns i \<and> v \<noteq> TNil" by simp
  next
    assume "v = val_at ns i \<and> v \<noteq> TNil"
    with assms(2) show "(key_at ns i, v) \<in> ent ns" unfolding ent_def by blast
  qed
qed

lemma ent_cong:
  assumes "length ns' = length ns" and "\<And>i. i < length ns \<Longrightarrow> val_at ns' i = val_at ns i"
    and "\<And>i. i < length ns \<Longrightarrow> val_at ns i \<noteq> TNil \<Longrightarrow> key_at ns' i = key_at ns i"
  shows "ent ns' = ent ns"
  unfolding ent_def using assms by (intro Collect_cong) metis

lemma ent_put_key:
  assumes "m < length ns" and "val_at ns m = TNil"
  shows "ent (ns[m := (ns ! m)\<lparr>i_key := k\<rparr>]) = ent ns"
    and "k \<noteq> TNil \<Longrightarrow> keyed (ns[m := (ns ! m)\<lparr>i_key := k\<rparr>]) = insert m (keyed ns)"
proof -
  show "ent (ns[m := (ns ! m)\<lparr>i_key := k\<rparr>]) = ent ns"
    by (rule ent_cong) (use assms(2) in \<open>auto simp: nth_update_if\<close>)
  show "k \<noteq> TNil \<Longrightarrow> keyed (ns[m := (ns ! m)\<lparr>i_key := k\<rparr>]) = insert m (keyed ns)"
    using assms(1) by (auto simp: keyed_def nth_update_if)
qed

lemma ent_moved:
  assumes "nodes_ok mp ns" and "n < length ns" and "key_at ns n = TNil" and "key_at ns m \<noteq> TNil"
    and "edge ns prev m" and "m < length ns"
  shows "ent (moved prev n m k ns) = ent ns"
    and "k \<noteq> TNil \<Longrightarrow> keyed (moved prev n m k ns) = insert n (keyed ns)"
proof -
  note props = moved_props [OF assms, of k]
  have n: "val_at ns n = TNil" "n \<noteq> m" using nodes_okD(8) [OF assms(1,2)] assms(3,4) by auto
  show "ent (moved prev n m k ns) = ent ns"
  proof (intro set_eqI iffI)
    fix e assume "e \<in> ent (moved prev n m k ns)"
    then obtain i where i: "i < length ns" "e = (key_at (moved prev n m k ns) i, val_at (moved prev n m k ns) i)"
      "val_at (moved prev n m k ns) i \<noteq> TNil" by (auto simp: ent_def props(1))
    then have "e = (key_at ns (if i = n then m else i), val_at ns (if i = n then m else i))"
      "val_at ns (if i = n then m else i) \<noteq> TNil" "i \<noteq> m" by (simp_all add: props(2,3) split: if_splits)
    with i(1) assms(6) show "e \<in> ent ns" unfolding ent_def by (auto split: if_splits)
  next
    fix e assume "e \<in> ent ns"
    then obtain i where i: "i < length ns" "e = (key_at ns i, val_at ns i)" "val_at ns i \<noteq> TNil"
      by (auto simp: ent_def)
    let ?i = "if i = m then n else i"
    from i n have "?i < length ns" "e = (key_at (moved prev n m k ns) ?i, val_at (moved prev n m k ns) ?i)"
      "val_at (moved prev n m k ns) ?i \<noteq> TNil" using assms(2) by (auto simp: props(2,3))
    then show "e \<in> ent (moved prev n m k ns)" unfolding ent_def props(1) by blast
  qed
  show "k \<noteq> TNil \<Longrightarrow> keyed (moved prev n m k ns) = insert n (keyed ns)"
    using assms(2,4,6) by (auto simp: keyed_def props split: if_splits)
qed

lemma ent_chained:
  assumes "n < length ns" and "n \<noteq> m" and "m < length ns" and "val_at ns n = TNil"
  shows "ent (chained n m k ns) = ent ns"
    and "k \<noteq> TNil \<Longrightarrow> keyed (chained n m k ns) = insert n (keyed ns)"
proof -
  note props = chained_props [OF assms(1-3), of k]
  show "ent (chained n m k ns) = ent ns"
    by (rule ent_cong) (use assms(4) in \<open>auto simp: props\<close>)
  show "k \<noteq> TNil \<Longrightarrow> keyed (chained n m k ns) = insert n (keyed ns)"
    using assms(1) by (auto simp: keyed_def props split: if_splits)
qed

text \<open>\<open>getfreepos\<close> finds a free node as long as there is one.\<close>

lemma getfreepos_Some:
  "getfreepos ns l = (Some n, l') \<Longrightarrow>
     n < l \<and> l' = n \<and> key_at ns n = TNil \<and> (\<forall>i. n < i \<and> i < l \<longrightarrow> key_at ns i \<noteq> TNil)"
proof (induction l)
  case (Suc l)
  then show ?case by (cases "key_at ns l = TNil") (auto simp: less_Suc_eq)
qed simp

lemma getfreepos_None: "getfreepos ns l = (None, l') \<Longrightarrow> l' = 0 \<and> (\<forall>i < l. key_at ns i \<noteq> TNil)"
  by (induction l) (auto simp: less_Suc_eq split: if_splits)

end
