(* ===== verification/Lua_Newkey.thy ===== *)
theory Lua_Newkey
  imports Lua_Chain
begin

text \<open>
  The invariant of a table, what a table maps a key to, and \<open>newkey\<close> and \<open>luaH_set\<close> on a table
  with room in its hash part. \<open>Lua_Rehash\<close> adds the rehash.
\<close>

section \<open>Hashing stays within the vector\<close>

lemma hashpow2_less: "hashpow2 t n < sizenode t"
  unfolding hashpow2_def and_mask_nat by simp

lemma pred_or_1: "(2 ^ l - 1) OR 1 = (if l = 0 then 1 else 2 ^ l - 1 :: nat)"
proof (cases l)
  case (Suc m)
  have "odd (2 ^ l - 1 :: nat)" using Suc by simp
  then have "(2 ^ l - 1) OR 1 = (2 ^ l - 1 :: nat)" unfolding or_one_eq by simp
  with Suc show ?thesis by simp
qed simp

lemma hashmod_less: "hashmod t n < sizenode t"
proof (cases "lsizenode t = 0")
  case False
  then have "1 < sizenode t" by (metis One_nat_def one_less_numeral_iff one_less_power semiring_norm(76) zero_less_iff_neq_zero)
  then have "n mod (sizenode t - 1) < sizenode t - 1" by simp
  with False show ?thesis by (simp add: hashmod_def pred_or_1 [unfolded One_nat_def])
qed (simp add: hashmod_def)

lemma hashnum_less: "hashnum bits t n < sizenode t"
  by (simp add: hashnum_def hashmod_less)

lemma mainposition_less: "mainposition bits t k < sizenode t"
  by (cases k) (simp_all add: hashnum_less hashpow2_less hashmod_less)

lemma mainposition_cong: "lsizenode t = lsizenode t' \<Longrightarrow> mainposition bits t = mainposition bits t'"
proof (rule ext)
  fix k assume "lsizenode t = lsizenode t'"
  then show "mainposition bits t k = mainposition bits t' k"
    by (cases k) (simp_all add: hashnum_def hashmod_def hashpow2_def)
qed

section \<open>The invariant\<close>

definition in_array :: "nat \<Rightarrow> tvalue \<Rightarrow> bool" where
  "in_array n k \<longleftrightarrow> 0 < arrayindex k \<and> arrayindex k \<le> int n"

text \<open>
  The hash part is a proper scatter table; every node from \<open>lastfree\<close> on has a key (the shared
  \<open>dummynode\<close> is one empty node with no free position); no key that belongs to the array part is
  a key of the hash part; the two parts are at most as large as \<open>rehash\<close> makes them.
\<close>

definition table_ok :: "bits \<Rightarrow> ltable \<Rightarrow> bool" where
  "table_ok bits t \<longleftrightarrow>
     length (t_node t) = sizenode t
   \<and> nodes_ok (mainposition bits t) (t_node t)
   \<and> (t_dummy t \<longrightarrow> t_node t = [empty_node] \<and> lastfree t = 0)
   \<and> (\<not> t_dummy t \<longrightarrow> lastfree t \<le> sizenode t \<and> (\<forall>i. lastfree t \<le> i \<and> i < sizenode t \<longrightarrow> key_at (t_node t) i \<noteq> TNil))
   \<and> (\<forall>i < sizenode t. \<not> in_array (sizearray t) (key_at (t_node t) i))
   \<and> sizearray t \<le> MAXASIZE
   \<and> lsizenode t \<le> MAXBITS"

lemma table_okD:
  assumes "table_ok bits t"
  shows "length (t_node t) = sizenode t"
    and "nodes_ok (mainposition bits t) (t_node t)"
    and "t_dummy t \<Longrightarrow> t_node t = [empty_node] \<and> lastfree t = 0"
    and "\<not> t_dummy t \<Longrightarrow> lastfree t \<le> sizenode t"
    and "\<not> t_dummy t \<Longrightarrow> lastfree t \<le> i \<Longrightarrow> i < sizenode t \<Longrightarrow> key_at (t_node t) i \<noteq> TNil"
    and "i < sizenode t \<Longrightarrow> \<not> in_array (sizearray t) (key_at (t_node t) i)"
    and "sizearray t \<le> MAXASIZE"
    and "lsizenode t \<le> MAXBITS"
  using assms unfolding table_ok_def by blast+

text \<open>What a table maps a key to.\<close>

definition lookup :: "bits \<Rightarrow> ltable \<Rightarrow> tvalue \<Rightarrow> tvalue" where
  "lookup bits t k = value_at t (luaH_get bits t k)"

lemma number_int_Some: "number_int n = Some k \<longleftrightarrow> n = of_int k \<and> - (2 ^ 31) \<le> k \<and> k < 2 ^ 31"
  by (auto simp: number_int_def)

lemma arrayindex_pos: "0 < arrayindex k \<longleftrightarrow> (\<exists>i. k = TNumber (of_int i) \<and> arrayindex k = i \<and> 0 < i \<and> i < 2 ^ 31)"
proof (cases k)
  case (TNumber n)
  show ?thesis
  proof (cases "number_int n")
    case (Some i)
    with number_int_Some [of n i] TNumber show ?thesis by auto
  next
    case None
    have "n \<noteq> of_int i" if "0 < i" "i < 2 ^ 31" for i
      using that None number_int_Some [of n i] by auto
    with None TNumber show ?thesis by auto
  qed
qed auto

lemma arrayindex_int: "0 < i \<Longrightarrow> i < 2 ^ 31 \<Longrightarrow> arrayindex (TNumber (of_int i)) = i"
proof -
  assume "0 < i" "i < 2 ^ 31"
  then have "number_int (of_int i) = Some i" by (simp add: number_int_Some)
  then show ?thesis by simp
qed

lemma in_array_nat: "n \<le> MAXASIZE \<Longrightarrow> in_array n (TNumber (real i)) \<longleftrightarrow> 0 < i \<and> i \<le> n"
proof
  assume n: "n \<le> MAXASIZE" and "0 < i \<and> i \<le> n"
  then have "0 < int i" "int i < 2 ^ 31" by (simp_all add: MAXASIZE_def MAXBITS_def)
  from arrayindex_int [OF this] \<open>0 < i \<and> i \<le> n\<close> show "in_array n (TNumber (real i))" by (simp add: in_array_def)
next
  assume "in_array n (TNumber (real i))"
  then have "0 < arrayindex (TNumber (real i))" "arrayindex (TNumber (real i)) \<le> int n" by (simp_all add: in_array_def)
  with iffD1 [OF arrayindex_pos] obtain j where "real i = of_int j" "j \<le> int n" "0 < j" by fastforce
  then show "0 < i \<and> i \<le> n" by auto
qed

lemma wrap_index:
  fixes k :: int
  assumes "- (2 ^ 31) \<le> k" "k < 2 ^ 31" "n \<le> MAXASIZE"
  shows "(k - 1) mod 2 ^ 32 < int n \<longleftrightarrow> 0 < k \<and> k \<le> int n"
    and "0 < k \<Longrightarrow> (k - 1) mod 2 ^ 32 = k - 1"
proof -
  show pos: "0 < k \<Longrightarrow> (k - 1) mod 2 ^ 32 = k - 1" using assms(2) by simp
  show "(k - 1) mod 2 ^ 32 < int n \<longleftrightarrow> 0 < k \<and> k \<le> int n"
  proof (cases "0 < k")
    case False
    have "(k - 1) mod 2 ^ 32 = (k - 1 + 2 ^ 32) mod 2 ^ 32" by (rule mod_add_self2 [symmetric])
    also have "\<dots> = k - 1 + 2 ^ 32" using False assms(1) by (intro mod_pos_pos_trivial) auto
    finally have "(k - 1) mod 2 ^ 32 = k - 1 + 2 ^ 32" .
    with assms(1,3) False show ?thesis by (simp add: MAXASIZE_def MAXBITS_def)
  qed (use pos in auto)
qed

text \<open>The searches, put together: the array part for its keys, the chain for the others.\<close>

lemma luaH_getnum_eq:
  assumes "sizearray t \<le> MAXASIZE" and "- (2 ^ 31) \<le> k" "k < 2 ^ 31" and "length (t_node t) = sizenode t"
  shows "luaH_getnum bits t k =
    (if in_array (sizearray t) (TNumber (of_int k)) then Some (ArraySlot (nat (k - 1)))
     else map_option NodeSlot (chain_find (\<lambda>n. i_key n = TNumber (of_int k)) (t_node t) (length (t_node t))
       (mainposition bits t (TNumber (of_int k)))))"
proof -
  have "in_array (sizearray t) (TNumber (of_int k)) \<longleftrightarrow> 0 < k \<and> k \<le> int (sizearray t)"
    using in_array_nat [OF assms(1), of "nat k"] number_int_Some [of "of_int k" k] assms(2,3)
    by (cases "0 < k") (auto simp: in_array_def)
  then show ?thesis
    using wrap_index [OF assms(2,3,1)] assms(4) by (auto simp: luaH_getnum_def)
qed

lemma luaH_get_eq:
  assumes "table_ok bits t" and "k \<noteq> TNil"
  shows "luaH_get bits t k =
    (if in_array (sizearray t) k then Some (ArraySlot (nat (arrayindex k - 1)))
     else map_option NodeSlot (chain_find (\<lambda>n. i_key n = k) (t_node t) (length (t_node t)) (mainposition bits t k)))"
proof (cases k)
  case (TNumber n)
  show ?thesis
  proof (cases "number_int n")
    case (Some i)
    then have i: "n = of_int i" "- (2 ^ 31) \<le> i" "i < 2 ^ 31" by (simp_all add: number_int_Some)
    from luaH_getnum_eq [OF table_okD(7) [OF assms(1)] i(2,3) table_okD(1) [OF assms(1)], of bits] Some TNumber i(1)
    show ?thesis by simp
  next
    case None
    with TNumber show ?thesis using table_okD(1) [OF assms(1)] by (simp add: in_array_def luaH_getany_def)
  qed
qed (use assms table_okD(1) [OF assms(1)] in \<open>auto simp: in_array_def luaH_getstr_def luaH_getany_def\<close>)

lemma in_arrayD:
  assumes "in_array n k" and "n \<le> MAXASIZE"
  obtains i where "i < n" "k = TNumber (real (Suc i))" "arrayindex k = int (Suc i)"
proof -
  from assms(1) have pos: "0 < arrayindex k" and le: "arrayindex k \<le> int n" by (simp_all add: in_array_def)
  from iffD1 [OF arrayindex_pos pos] obtain j where j: "k = TNumber (of_int j)" "arrayindex k = j" "0 < j" by blast
  have j4: "j \<le> int n" using le j(2) by simp
  define i where "i = nat (j - 1)"
  with j(3) have i: "j = int (Suc i)" by simp
  show thesis
  proof (rule that)
    show "i < n" using j4 i by simp
    show "k = TNumber (real (Suc i))" using j(1) i by simp
    show "arrayindex k = int (Suc i)" using j(2) i by simp
  qed
qed

text \<open>A key has one place; \<open>luaH_get\<close> finds it exactly when the key is there.\<close>

lemma luaH_get_array:
  assumes "table_ok bits t" and "i < sizearray t"
  shows "luaH_get bits t (TNumber (real (Suc i))) = Some (ArraySlot i)"
proof -
  have "in_array (sizearray t) (TNumber (real (Suc i)))"
    using in_array_nat [OF table_okD(7) [OF assms(1)], of "Suc i"] assms(2) by simp
  moreover have "arrayindex (TNumber (of_int (int (Suc i)))) = int (Suc i)"
    using assms(2) table_okD(7) [OF assms(1)] by (intro arrayindex_int) (auto simp: MAXASIZE_def MAXBITS_def)
  then have "arrayindex (TNumber (real (Suc i))) = int (Suc i)" by simp
  ultimately show ?thesis by (subst luaH_get_eq [OF assms(1)]) (simp_all del: arrayindex.simps)
qed

lemma luaH_get_node:
  assumes "table_ok bits t" and "k \<noteq> TNil"
  shows "luaH_get bits t k = Some (NodeSlot i) \<longleftrightarrow>
    i < sizenode t \<and> key_at (t_node t) i = k"
proof (cases "in_array (sizearray t) k")
  case True
  with table_okD(6) [OF assms(1), of i] show ?thesis using luaH_get_eq [OF assms] by auto
next
  case False
  then show ?thesis
    using luaH_get_eq [OF assms] chain_find_node [OF table_okD(2) [OF assms(1)] assms(2), of "\<lambda>n. i_key n = k" i]
      table_okD(1) [OF assms(1)] by simp
qed

lemma luaH_get_cases [consumes 2, case_names array node]:
  assumes "table_ok bits t" and "luaH_get bits t k = Some p"
  obtains (array) i where "p = ArraySlot i" "i < sizearray t" "k = TNumber (real (Suc i))"
  | (node) i where "p = NodeSlot i" "i < sizenode t" "key_at (t_node t) i = k" "k \<noteq> TNil"
proof -
  have k: "k \<noteq> TNil" using assms(2) by auto
  show thesis
  proof (cases p)
    case (ArraySlot i)
    with assms(2) luaH_get_eq [OF assms(1) k]
    have "in_array (sizearray t) k" "i = nat (arrayindex k - 1)" by (auto split: if_splits)
    with table_okD(7) [OF assms(1)] ArraySlot show thesis by (auto elim!: in_arrayD intro: array)
  next
    case (NodeSlot i)
    with assms(2) luaH_get_node [OF assms(1) k] k show thesis by (auto intro: node)
  qed
qed

lemma luaH_get_place:
  assumes "table_ok bits t" and "luaH_get bits t k = Some p"
  shows "p = ArraySlot i \<Longrightarrow> i < sizearray t \<and> k = TNumber (real (Suc i))"
    and "p = NodeSlot i \<Longrightarrow> i < sizenode t \<and> key_at (t_node t) i = k \<and> k \<noteq> TNil"
  using assms by (cases rule: luaH_get_cases; simp)+

lemma luaH_get_inj:
  assumes "table_ok bits t" and "luaH_get bits t k = Some p" and "luaH_get bits t k' = Some p"
  shows "k' = k"
  using luaH_get_place [OF assms(1,2)] luaH_get_place [OF assms(1,3)] by (cases p) simp_all

lemma luaH_get_None:
  assumes "table_ok bits t" and "k \<noteq> TNil"
  shows "luaH_get bits t k = None \<longleftrightarrow> \<not> in_array (sizearray t) k \<and> (\<forall>i < sizenode t. key_at (t_node t) i \<noteq> k)"
  using luaH_get_eq [OF assms] chain_find_absent [OF table_okD(2) [OF assms(1)] assms(2), of "\<lambda>n. i_key n = k"]
    table_okD(1) [OF assms(1)] by simp

section \<open>What a table maps its keys to\<close>

lemma lookup_TNil [simp]: "lookup bits t TNil = TNil"
  by (simp add: lookup_def value_at_def)

lemma lookup_array:
  assumes "table_ok bits t" and "in_array (sizearray t) k"
  shows "lookup bits t k = t_array t ! nat (arrayindex k - 1)"
proof -
  have "k \<noteq> TNil" using assms(2) by (auto simp: in_array_def)
  with luaH_get_eq [OF assms(1) this] assms(2) show ?thesis by (simp add: lookup_def value_at_def)
qed

lemma lookup_ent:
  assumes "table_ok bits t" and "\<not> in_array (sizearray t) k" and "v \<noteq> TNil"
  shows "lookup bits t k = v \<longleftrightarrow> (k, v) \<in> ent (t_node t)"
proof
  assume v: "lookup bits t k = v"
  with assms(3) obtain p where p: "luaH_get bits t k = Some p" "slot_get t p = v"
    by (auto simp: lookup_def value_at_def split: option.splits)
  from assms(1) p(1) show "(k, v) \<in> ent (t_node t)"
  proof (cases rule: luaH_get_cases)
    case (array i)
    with assms(2) in_array_nat [OF table_okD(7) [OF assms(1)], of "Suc i"] show ?thesis by simp
  next
    case (node i)
    with p(2) assms(3) table_okD(1) [OF assms(1)] show ?thesis unfolding ent_def by auto
  qed
next
  assume "(k, v) \<in> ent (t_node t)"
  then obtain i where i: "i < sizenode t" "key_at (t_node t) i = k" "val_at (t_node t) i = v"
    using table_okD(1) [OF assms(1)] unfolding ent_def by auto
  have "k \<noteq> TNil" using nodes_okD(8) [OF table_okD(2) [OF assms(1)], of i] i assms(3) table_okD(1) [OF assms(1)] by auto
  from luaH_get_node [OF assms(1) this, of i] i show "lookup bits t k = v"
    by (simp add: lookup_def value_at_def)
qed

lemma lookup_cong:
  assumes "table_ok bits t" and "table_ok bits t'" and "t_array t' = t_array t" and "ent (t_node t') = ent (t_node t)"
  shows "lookup bits t' = lookup bits t"
proof (rule ext)
  fix k
  show "lookup bits t' k = lookup bits t k"
  proof (cases "in_array (sizearray t) k")
    case True
    then show ?thesis using lookup_array [OF assms(1), of k] lookup_array [OF assms(2), of k] assms(3) by simp
  next
    case False
    have "lookup bits t' k = v \<longleftrightarrow> lookup bits t k = v" if "v \<noteq> TNil" for v
      using lookup_ent [OF assms(1) False that] lookup_ent [OF assms(2), of k v] False that assms(3,4) by simp
    then show ?thesis by metis
  qed
qed

lemma luaH_get_cong:
  assumes "table_ok bits t" and "table_ok bits t'" and "sizearray t' = sizearray t" and "lsizenode t' = lsizenode t"
    and "\<And>i. key_at (t_node t') i = key_at (t_node t) i"
  shows "luaH_get bits t' k = luaH_get bits t k"
proof (cases "k = TNil \<or> in_array (sizearray t) k")
  case True
  then show ?thesis using luaH_get_eq [OF assms(1), of k] luaH_get_eq [OF assms(2), of k] assms(3)
    by (cases "k = TNil") simp_all
next
  case False
  have eqI: "a = b" if "\<And>p. a = Some p \<longleftrightarrow> b = Some p" for a b :: "slot option"
    using that by (cases a) (simp, metis option.exhaust)+
  show ?thesis
  proof (rule eqI)
    fix p
    show "luaH_get bits t' k = Some p \<longleftrightarrow> luaH_get bits t k = Some p"
    proof (cases p)
      case (ArraySlot i)
      with False show ?thesis using luaH_get_eq [OF assms(1), of k] luaH_get_eq [OF assms(2), of k] assms(3) by auto
    next
      case (NodeSlot i)
      with False show ?thesis
        using luaH_get_node [OF assms(1), of k i] luaH_get_node [OF assms(2), of k i] assms(4,5) by simp
    qed
  qed
qed

section \<open>Writing through a slot\<close>

lemma nodes_ok_put_val:
  assumes "nodes_ok mp ns" and "key_at ns i \<noteq> TNil"
  shows "nodes_ok mp (ns[i := (ns ! i)\<lparr>i_val := v\<rparr>])"
proof -
  have key: "key_at (ns[i := (ns ! i)\<lparr>i_val := v\<rparr>]) j = key_at ns j" for j by (simp add: nth_update_if)
  have edge: "edge (ns[i := (ns ! i)\<lparr>i_val := v\<rparr>]) = edge ns"
    by (rule ext)+ (auto simp: edge_def nth_update_if)
  have val: "val_at (ns[i := (ns ! i)\<lparr>i_val := v\<rparr>]) j \<noteq> TNil \<Longrightarrow> key_at ns j \<noteq> TNil" if "j < length ns" for j
    using that assms nodes_okD(8) [OF assms(1) that] by (auto simp: nth_update_if split: if_splits)
  show ?thesis
    using assms(1) val unfolding nodes_ok_def key edge length_list_update by blast
qed

lemma slot_put_ok:
  assumes "table_ok bits t" and "luaH_get bits t k = Some p"
  shows "table_ok bits (slot_put p v t)"
    and "lookup bits (slot_put p v t) = (lookup bits t)(k := v)"
    and "luaH_get bits (slot_put p v t) = luaH_get bits t"
    and "keyed (t_node (slot_put p v t)) = keyed (t_node t)"
proof -
  let ?t = "slot_put p v t"
  have len: "sizearray ?t = sizearray t" "lsizenode ?t = lsizenode t" "t_dummy ?t = t_dummy t"
    "lastfree ?t = lastfree t" "length (t_node ?t) = length (t_node t)"
    by (cases p; simp)+
  have key: "key_at (t_node ?t) i = key_at (t_node t) i" for i by (cases p) (simp_all add: nth_update_if)
  note place = luaH_get_place [OF assms]
  have nodes: "nodes_ok (mainposition bits t) (t_node ?t)"
    using place nodes_ok_put_val [OF table_okD(2) [OF assms(1)]] table_okD(2) [OF assms(1)] by (cases p) simp_all
  have dummy: "t_node ?t = [empty_node]" if "t_dummy t"
  proof (cases p)
    case (ArraySlot i)
    with table_okD(3) [OF assms(1) that] show ?thesis by simp
  next
    case (NodeSlot i)
    have one: "t_node t = [empty_node]" using table_okD(3) [OF assms(1) that] by simp
    then have "sizenode t = 1" using table_okD(1) [OF assms(1)] by simp
    with place(2) [OF NodeSlot] one have False by (auto simp: empty_node_def)
    then show ?thesis ..
  qed
  show ok: "table_ok bits ?t"
    unfolding table_ok_def len key mainposition_cong [OF len(2)]
    using table_okD [OF assms(1)] nodes dummy by blast
  show get: "luaH_get bits ?t = luaH_get bits t"
    by (rule ext, rule luaH_get_cong [OF assms(1) ok len(1,2) key])
  show "keyed (t_node ?t) = keyed (t_node t)" by (simp add: keyed_def key len)
  have k: "k \<noteq> TNil" using assms(2) by auto
  show "lookup bits ?t = (lookup bits t)(k := v)"
  proof (rule ext)
    fix k'
    show "lookup bits ?t k' = ((lookup bits t)(k := v)) k'"
    proof (cases "luaH_get bits t k'")
      case None
      with assms(2) show ?thesis by (auto simp: lookup_def value_at_def get)
    next
      case (Some q)
      have same: "q = p \<longleftrightarrow> k' = k" using luaH_get_inj [OF assms(1)] assms(2) Some by auto
      have "slot_get ?t q = (if q = p then v else slot_get t q)"
        using place luaH_get_place [OF assms(1) Some] table_okD(1) [OF assms(1)]
        by (cases p; cases q) (simp_all add: nth_update_if)
      with same Some show ?thesis by (auto simp: lookup_def value_at_def get)
    qed
  qed
qed

section \<open>Inserting a key where there is room\<close>

text \<open>What \<open>newkey\<close> promises: the key has a place, with nil in it, and nothing else changed.\<close>

definition inserted :: "bits \<Rightarrow> tvalue \<Rightarrow> ltable \<Rightarrow> slot \<Rightarrow> ltable \<Rightarrow> bool" where
  "inserted bits k t p t' \<longleftrightarrow>
     table_ok bits t' \<and> luaH_get bits t' k = Some p \<and> lookup bits t' = lookup bits t
   \<and> t_array t' = t_array t \<and> t_dummy t' = t_dummy t \<and> lsizenode t' = lsizenode t
   \<and> card (keyed (t_node t')) \<le> card (keyed (t_node t)) + 1"

lemma inserted_nodes:
  assumes "table_ok bits t" and "luaH_get bits t k = None" and "k \<noteq> TNil" and "\<not> t_dummy t"
    and "nodes_ok (mainposition bits t) ns" and "length ns = sizenode t" and "ent ns = ent (t_node t)"
    and "keyed ns = insert n (keyed (t_node t))" and "i < sizenode t" and "key_at ns i = k"
    and "\<And>j. j < sizenode t \<Longrightarrow> key_at ns j = k \<or> key_at ns j = TNil \<or> (\<exists>j' < sizenode t. key_at ns j = key_at (t_node t) j')"
    and "l \<le> sizenode t" and "\<And>j. l \<le> j \<Longrightarrow> j < sizenode t \<Longrightarrow> j \<in> keyed ns"
  shows "inserted bits k t (NodeSlot i) (t\<lparr>lastfree := l, t_node := ns\<rparr>)"
proof -
  let ?t = "t\<lparr>lastfree := l, t_node := ns\<rparr>"
  note ok = table_okD [OF assms(1)]
  have mp: "mainposition bits ?t = mainposition bits t" by (rule mainposition_cong) simp
  have nil: "\<not> in_array (sizearray t) TNil" by (simp add: in_array_def)
  have k: "\<not> in_array (sizearray t) k" using luaH_get_None [OF assms(1,3)] assms(2) by simp
  have "\<not> in_array (sizearray t) (key_at ns j)" if "j < sizenode t" for j
    using assms(11) [OF that] k nil ok(6) by metis
  then have t: "table_ok bits ?t"
    unfolding table_ok_def mp using assms(4-6,12,13) ok(7,8) by (simp add: keyed_def)
  moreover have "luaH_get bits ?t k = Some (NodeSlot i)"
    using luaH_get_node [OF t assms(3), of i] assms(9,10) by simp
  moreover have "lookup bits ?t = lookup bits t" by (rule lookup_cong [OF assms(1) t]) (simp_all add: assms(7))
  moreover have "card (keyed ns) \<le> card (keyed (t_node t)) + 1"
    by (simp add: assms(8) card_insert_if)
  ultimately show ?thesis by (simp add: inserted_def)
qed

lemma room_found:
  assumes "table_ok bits t" and "\<not> t_dummy t" and "card (keyed (t_node t)) < sizenode t"
  obtains n where "getfreepos (t_node t) (lastfree t) = (Some n, n)" "n < sizenode t" "key_at (t_node t) n = TNil"
    "\<And>i. n < i \<Longrightarrow> i < sizenode t \<Longrightarrow> i \<in> keyed (t_node t)"
proof -
  note ok = table_okD [OF assms(1)]
  obtain p l where g: "getfreepos (t_node t) (lastfree t) = (p, l)" by (cases "getfreepos (t_node t) (lastfree t)")
  show thesis
  proof (cases p)
    case None
    with getfreepos_None g have "\<forall>i < lastfree t. key_at (t_node t) i \<noteq> TNil" by blast
    then have "key_at (t_node t) i \<noteq> TNil" if "i < sizenode t" for i
      using ok(5) [OF assms(2) _ that] by (cases "i < lastfree t") simp_all
    then have "{..<sizenode t} \<subseteq> keyed (t_node t)" using ok(1) by (simp add: keyed_def subset_eq)
    from card_mono [OF finite_keyed this] have "sizenode t \<le> card (keyed (t_node t))" by simp
    with assms(3) show thesis by simp
  next
    case (Some n)
    note f = getfreepos_Some [OF g [unfolded Some]]
    show thesis
    proof (rule that)
      show "getfreepos (t_node t) (lastfree t) = (Some n, n)" using g Some f by simp
      show "n < sizenode t" "key_at (t_node t) n = TNil" using f ok(4) [OF assms(2)] by simp_all
      show "i \<in> keyed (t_node t)" if "n < i" "i < sizenode t" for i
      proof (cases "i < lastfree t")
        case True
        then show ?thesis using f that ok(1) by (simp add: keyed_def)
      next
        case False
        then have "key_at (t_node t) i \<noteq> TNil" using ok(5) [OF assms(2) _ that(2)] by simp
        then show ?thesis using that(2) ok(1) by (simp add: keyed_def)
      qed
    qed
  qed
qed

lemma node_update:
  "(n :: node)\<lparr>i_next := a, i_val := v, i_key := k\<rparr> = \<lparr>i_val = v, i_key = k, i_next = a\<rparr>"
  "n\<lparr>i_next := a, i_key := k\<rparr> = \<lparr>i_val = i_val n, i_key = k, i_next = a\<rparr>"
  by (cases n; simp)+

lemma move_store:
  assumes "n \<noteq> m" and "prev \<noteq> m" and "m < length (t_node t)" and "n < length (t_node t)"
  shows "store_key m k (move_colliding prev n m t) = t\<lparr>t_node := moved prev n m k (t_node t)\<rparr>"
  using assms by (simp add: store_key_def move_colliding_def moved_def Let_def node_update)

lemma chain_store:
  assumes "n \<noteq> m" and "m < length (t_node t)" and "n < length (t_node t)"
  shows "store_key n k (chain_after n m t) = t\<lparr>t_node := chained n m k (t_node t)\<rparr>"
proof -
  have "(t_node t)[n := a, m := b, n := c] = (t_node t)[n := c, m := b]" for a b c
    using assms(1) by (simp add: list_update_swap [of n m])
  with assms show ?thesis by (simp add: store_key_def chain_after_def chained_def Let_def node_update)
qed

text \<open>The three ways to insert, on a table \<open>t\<close> that is proper, has no \<open>k\<close> yet and is not the dummy.\<close>

definition insertable :: "bits \<Rightarrow> tvalue \<Rightarrow> ltable \<Rightarrow> bool" where
  "insertable bits k t \<longleftrightarrow> table_ok bits t \<and> luaH_get bits t k = None \<and> k \<noteq> TNil \<and> \<not> t_dummy t"

lemma insertableD:
  assumes "insertable bits k t"
  shows "table_ok bits t" and "luaH_get bits t k = None" and "k \<noteq> TNil" and "\<not> t_dummy t"
    and "\<And>i. i < length (t_node t) \<Longrightarrow> key_at (t_node t) i \<noteq> k"
    and "mainposition bits t k < length (t_node t)"
proof -
  show *: "table_ok bits t" "luaH_get bits t k = None" "k \<noteq> TNil" "\<not> t_dummy t"
    using assms by (simp_all add: insertable_def)
  show "i < length (t_node t) \<Longrightarrow> key_at (t_node t) i \<noteq> k" for i
    using luaH_get_None [OF *(1,3)] *(2) table_okD(1) [OF *(1)] by simp
  show "mainposition bits t k < length (t_node t)" by (rule nodes_okD(1) [OF table_okD(2) [OF *(1)]])
qed

lemma newkey_free:
  assumes "insertable bits k t" and "val_at (t_node t) (mainposition bits t k) = TNil"
  shows "\<exists>p t'. newkey_with nk bits k t = Some (Inr (p, t')) \<and> inserted bits k t p t'"
proof -
  note ins = insertableD [OF assms(1)]
  note ok = table_okD [OF ins(1)]
  define m where "m = mainposition bits t k"
  let ?ns = "(t_node t)[m := (t_node t ! m)\<lparr>i_key := k\<rparr>]"
  have m: "m < length (t_node t)" using ins(6) by (simp add: m_def)
  have "inserted bits k t (NodeSlot m) (t\<lparr>lastfree := lastfree t, t_node := ?ns\<rparr>)"
  proof (rule inserted_nodes [OF ins(1-4)])
    show "nodes_ok (mainposition bits t) ?ns"
      unfolding m_def by (rule nodes_ok_put_key [OF ok(2) ins(3,5) assms(2)])
    show "ent ?ns = ent (t_node t)" "keyed ?ns = insert m (keyed (t_node t))"
      using ent_put_key [OF m] assms(2) ins(3) by (simp_all add: m_def)
    show "key_at ?ns j = k \<or> key_at ?ns j = TNil \<or> (\<exists>j' < sizenode t. key_at ?ns j = key_at (t_node t) j')"
      if "j < sizenode t" for j
      using that m by (auto simp: nth_update_if)
    show "j \<in> keyed ?ns" if "lastfree t \<le> j" "j < sizenode t" for j
      using ok(5) [OF ins(4) that] that(2) ins(3) m ok(1) by (simp add: keyed_def nth_update_if)
  qed (use m ok(1) ok(4) [OF ins(4)] in simp_all)
  moreover have "newkey_with nk bits k t = Some (Inr (NodeSlot m, t\<lparr>lastfree := lastfree t, t_node := ?ns\<rparr>))"
    using assms(2) ins(4) by (simp add: newkey_with_def Let_def store_key_def m_def)
  ultimately show ?thesis by blast
qed

lemma newkey_chain:
  assumes "insertable bits k t" and "val_at (t_node t) (mainposition bits t k) \<noteq> TNil"
    and "getfreepos (t_node t) (lastfree t) = (Some n, n)" and "n < sizenode t" and "key_at (t_node t) n = TNil"
    and "\<And>i. n < i \<Longrightarrow> i < sizenode t \<Longrightarrow> i \<in> keyed (t_node t)"
    and "mainposition bits t (key_at (t_node t) (mainposition bits t k)) = mainposition bits t k"
  shows "\<exists>p t'. newkey_with nk bits k t = Some (Inr (p, t')) \<and> inserted bits k t p t'"
proof -
  note ins = insertableD [OF assms(1)]
  note ok = table_okD [OF ins(1)]
  define m where "m = mainposition bits t k"
  let ?ns = "chained n m k (t_node t)"
  have m: "m < length (t_node t)" using ins(6) by (simp add: m_def)
  have n: "n < length (t_node t)" using assms(4) ok(1) by simp
  have km: "key_at (t_node t) m \<noteq> TNil" using nodes_okD(8) [OF ok(2) m] assms(2) by (simp add: m_def)
  then have nm: "n \<noteq> m" using assms(5) by blast
  note props = chained_props [OF n nm m, of k]
  have "inserted bits k t (NodeSlot n) (t\<lparr>lastfree := n, t_node := ?ns\<rparr>)"
  proof (rule inserted_nodes [OF ins(1-4)])
    show "nodes_ok (mainposition bits t) ?ns"
      unfolding m_def by (rule nodes_ok_chained [OF ok(2) ins(3,5) n assms(5) km [unfolded m_def] assms(7)])
    show "ent ?ns = ent (t_node t)" "keyed ?ns = insert n (keyed (t_node t))"
      using ent_chained [OF n nm m] nodes_okD(8) [OF ok(2) n] assms(5) ins(3) by blast+
    then show "j \<in> keyed ?ns" if "n \<le> j" "j < sizenode t" for j
      using assms(6) [of j] that by (cases "j = n") simp_all
    show "key_at ?ns j = k \<or> key_at ?ns j = TNil \<or> (\<exists>j' < sizenode t. key_at ?ns j = key_at (t_node t) j')"
      if "j < sizenode t" for j
      using that by (auto simp: props)
  qed (use props ok(1) assms(4) in simp_all)
  moreover have mp: "mainposition bits (t\<lparr>lastfree := n\<rparr>) = mainposition bits t" by (rule mainposition_cong) simp
  have "newkey_with nk bits k t = Some (Inr (NodeSlot n, store_key n k (chain_after n m (t\<lparr>lastfree := n\<rparr>))))"
    using assms(2,3,7) by (simp add: newkey_with_def Let_def m_def mp)
  ultimately show ?thesis using chain_store [of n m "t\<lparr>lastfree := n\<rparr>" k] nm m n by simp
qed

lemma newkey_move:
  assumes "insertable bits k t" and "val_at (t_node t) (mainposition bits t k) \<noteq> TNil"
    and "getfreepos (t_node t) (lastfree t) = (Some n, n)" and "n < sizenode t" and "key_at (t_node t) n = TNil"
    and "\<And>i. n < i \<Longrightarrow> i < sizenode t \<Longrightarrow> i \<in> keyed (t_node t)"
    and "mainposition bits t (key_at (t_node t) (mainposition bits t k)) \<noteq> mainposition bits t k"
  shows "\<exists>p t'. newkey_with nk bits k t = Some (Inr (p, t')) \<and> inserted bits k t p t'"
proof -
  note ins = insertableD [OF assms(1)]
  note ok = table_okD [OF ins(1)]
  define m where "m = mainposition bits t k"
  define o' where "o' = mainposition bits t (key_at (t_node t) m)"
  have m: "m < length (t_node t)" using ins(6) by (simp add: m_def)
  have n: "n < length (t_node t)" using assms(4) ok(1) by simp
  have km: "key_at (t_node t) m \<noteq> TNil" using nodes_okD(8) [OF ok(2) m] assms(2) by (simp add: m_def)
  then have nm: "n \<noteq> m" using assms(5) by blast
  obtain rank :: "nat \<Rightarrow> nat" where rank: "\<forall>i j. edge (t_node t) i j \<longrightarrow> rank j < rank i"
    using nodes_okD(4) [OF ok(2)] by blast
  have r: "reach (t_node t) o' m" "o' \<noteq> m" "o' < length (t_node t)"
    using nodes_okD(5) [OF ok(2) m km] assms(7) nodes_okD(1) [OF ok(2)] by (simp_all add: o'_def m_def)
  from find_prev_complete [OF ok(2) rank r below_length]
  obtain prev where prev: "find_prev (t_node t) (length (t_node t)) o' m = Some prev" "edge (t_node t) prev m" by blast
  have pm: "prev \<noteq> m" using prev(2) rank by blast
  let ?ns = "moved prev n m k (t_node t)"
  note props = moved_props [OF ok(2) n assms(5) km prev(2) m, of k]
  have "inserted bits k t (NodeSlot m) (t\<lparr>lastfree := n, t_node := ?ns\<rparr>)"
  proof (rule inserted_nodes [OF ins(1-4)])
    show "nodes_ok (mainposition bits t) ?ns"
      unfolding m_def by (rule nodes_ok_moved [OF ok(2) ins(3,5) n assms(5) km [unfolded m_def] assms(7) prev(2) [unfolded m_def]])
    show "ent ?ns = ent (t_node t)" "keyed ?ns = insert n (keyed (t_node t))"
      using ent_moved [OF ok(2) n assms(5) km prev(2) m, of k] ins(3) by blast+
    then show "j \<in> keyed ?ns" if "n \<le> j" "j < sizenode t" for j
      using assms(6) [of j] that by (cases "j = n") simp_all
    show "key_at ?ns j = k \<or> key_at ?ns j = TNil \<or> (\<exists>j' < sizenode t. key_at ?ns j = key_at (t_node t) j')"
      if "j < sizenode t" for j
      using that m ok(1) by (auto simp: props)
  qed (use props ok(1) assms(4) m in simp_all)
  moreover have mp: "mainposition bits (t\<lparr>lastfree := n\<rparr>) = mainposition bits t" by (rule mainposition_cong) simp
  have "newkey_with nk bits k t = Some (Inr (NodeSlot m, store_key m k (move_colliding prev n m (t\<lparr>lastfree := n\<rparr>))))"
    using assms(2,3,7) prev(1) ok(1) by (simp add: newkey_with_def Let_def m_def [symmetric] o'_def mp)
  ultimately show ?thesis using move_store [of n m prev "t\<lparr>lastfree := n\<rparr>" k] nm pm m n by simp
qed

lemma newkey_room:
  assumes "insertable bits k t" and "card (keyed (t_node t)) < sizenode t"
  shows "\<exists>p t'. newkey_with nk bits k t = Some (Inr (p, t')) \<and> inserted bits k t p t'"
proof (cases "val_at (t_node t) (mainposition bits t k) = TNil")
  case True
  then show ?thesis by (rule newkey_free [OF assms(1)])
next
  case False
  from room_found [OF insertableD(1,4) [OF assms(1)] assms(2)]
  obtain n where n: "getfreepos (t_node t) (lastfree t) = (Some n, n)" "n < sizenode t" "key_at (t_node t) n = TNil"
    "\<And>i. n < i \<Longrightarrow> i < sizenode t \<Longrightarrow> i \<in> keyed (t_node t)" by blast
  show ?thesis
    using newkey_chain [OF assms(1) False n] newkey_move [OF assms(1) False n] by blast
qed

end
