(* ===== verification/Lua_Rehash.thy ===== *)
theory Lua_Rehash
  imports Lua_Newkey
begin

text \<open>
  The rehash: the sizes it chooses, the room they leave, and that \<open>newkey\<close> and \<open>luaH_set\<close> on
  any proper table give a proper table with the same contents, one level of recursion being enough.
\<close>

section \<open>Slices of integer keys\<close>

text \<open>Slice \<open>l\<close> holds the keys in \<open>(2 ^ (l - 1), 2 ^ l]\<close>, slice 0 the key 1.\<close>

definition slice_lo :: "nat \<Rightarrow> nat" where
  "slice_lo l = (if l = 0 then 0 else 2 ^ (l - 1))"

lemma slice_lo_Suc [simp]: "slice_lo (Suc l) = 2 ^ l"
  by (simp add: slice_lo_def)

lemma slice_lo_0 [simp]: "slice_lo 0 = 0"
  by (simp add: slice_lo_def)

lemma slice_lo_half: "slice_lo l = 2 ^ l div 2"
  by (cases l) simp_all

lemma slice_lo_less: "slice_lo l < 2 ^ l"
  by (simp add: slice_lo_half)

definition in_slice :: "nat \<Rightarrow> tvalue \<Rightarrow> bool" where
  "in_slice l k \<longleftrightarrow> int (slice_lo l) < arrayindex k \<and> arrayindex k \<le> int (2 ^ l)"

definition tally :: "tvalue list \<Rightarrow> nat \<Rightarrow> nat" where
  "tally ks l = length (filter (in_slice l) ks)"

definition tallied :: "tvalue list \<Rightarrow> nat list \<Rightarrow> bool" where
  "tallied ks nums \<longleftrightarrow> length nums = MAXBITS + 1 \<and> (\<forall>l \<le> MAXBITS. nums ! l = tally ks l)"

lemma in_slice_ceillog2:
  assumes "0 < n"
  shows "slice_lo l < n \<and> n \<le> 2 ^ l \<longleftrightarrow> ceillog2 n = l"
proof
  assume "ceillog2 n = l"
  moreover have "n = 1 \<or> 1 < n" using assms by linarith
  ultimately show "slice_lo l < n \<and> n \<le> 2 ^ l" using ceillog2_bounds [of n] by (auto simp: slice_lo_def)
next
  assume "slice_lo l < n \<and> n \<le> 2 ^ l"
  with assms show "ceillog2 n = l" by (intro ceillog2_unique) (cases "l = 0"; simp add: slice_lo_def)+
qed

lemma filter_slices: "length (filter (in_array (2 ^ j)) ks) = (\<Sum>l \<le> j. tally ks l)"
proof (induction j)
  case 0
  have "in_array (2 ^ 0) = in_slice 0" by (rule ext) (simp add: in_array_def in_slice_def)
  then show ?case by (simp add: tally_def)
next
  case (Suc j)
  have "length (filter (in_array (2 ^ Suc j)) ks) = length (filter (in_array (2 ^ j)) ks) + tally ks (Suc j)"
  proof (induction ks)
    case (Cons k ks)
    have "(2::int) ^ j \<le> 2 ^ Suc j" by simp
    with Cons show ?case by (auto simp: tally_def in_array_def in_slice_def)
  qed (simp add: tally_def)
  with Suc show ?case by simp
qed

lemma tally_append: "tally (ks @ ks') l = tally ks l + tally ks' l"
  by (simp add: tally_def)

lemma tallied_sum:
  assumes "tallied ks nums" and "j \<le> MAXBITS"
  shows "sum_list (take (Suc j) nums) = length (filter (in_array (2 ^ j)) ks)"
proof -
  have "sum_list (take (Suc j) nums) = (\<Sum>l < Suc j. nums ! l)"
    using assms by (simp add: sum_list_sum_nth tallied_def atLeast0LessThan)
  also have "\<dots> = (\<Sum>l \<le> j. tally ks l)"
    using assms by (intro sum.cong) (auto simp: tallied_def)
  finally show ?thesis by (simp add: filter_slices)
qed

lemma countint_spec:
  assumes "tallied ks nums"
  shows "fst (countint k nums) = length (filter (in_array MAXASIZE) [k])"
    and "tallied (ks @ [k]) (snd (countint k nums))"
proof -
  show "fst (countint k nums) = length (filter (in_array MAXASIZE) [k])"
    by (simp add: countint_def in_array_def Let_def)
  show "tallied (ks @ [k]) (snd (countint k nums))"
  proof (cases "0 < arrayindex k \<and> arrayindex k \<le> int MAXASIZE")
    case True
    then have pos: "0 < nat (arrayindex k)" by simp
    have "in_slice l k \<longleftrightarrow> ceillog2 (nat (arrayindex k)) = l" for l
      unfolding in_slice_ceillog2 [OF pos, symmetric] using True by (auto simp: in_slice_def nat_le_iff zless_nat_eq_int_zless)
    moreover have "nat (arrayindex k) \<le> 2 ^ MAXBITS" using True by (simp add: MAXASIZE_def)
    with pos have "ceillog2 (nat (arrayindex k)) \<le> MAXBITS" by (intro ceillog2_le) simp_all
    ultimately show ?thesis
      using assms True by (auto simp: tallied_def tally_def countint_def Let_def nth_list_update)
  next
    case False
    have "\<not> in_slice l k" if "l \<le> MAXBITS" for l
    proof
      assume s: "in_slice l k"
      have "(2::nat) ^ l \<le> 2 ^ MAXBITS" using that by (intro power_increasing) simp_all
      then have "int (2 ^ l) \<le> int MAXASIZE" unfolding MAXASIZE_def by (rule iffD2 [OF of_nat_le_iff])
      moreover from s have "int (slice_lo l) < arrayindex k" "arrayindex k \<le> int (2 ^ l)"
        unfolding in_slice_def by blast+
      ultimately show False using False by linarith
    qed
    with assms False show ?thesis by (auto simp: tallied_def tally_def countint_def)
  qed
qed

section \<open>Counting the keys of a table\<close>

text \<open>The keys of the array part that have a value, and those of the nodes.\<close>

definition present :: "tvalue list \<Rightarrow> nat \<Rightarrow> nat list" where
  "present arr n = filter (\<lambda>i. arr ! i \<noteq> TNil) [n..<length arr]"

definition array_keys :: "tvalue list \<Rightarrow> tvalue list" where
  "array_keys arr = map (\<lambda>i. TNumber (real (Suc i))) (present arr 0)"

definition node_keys :: "node list \<Rightarrow> tvalue list" where
  "node_keys ns = map i_key (filter (\<lambda>n. i_val n \<noteq> TNil) ns)"

lemma array_keys_slice:
  assumes "length arr \<le> MAXASIZE" and "l \<le> MAXBITS"
  shows "tally (array_keys arr) l = length (filter (\<lambda>v. v \<noteq> TNil) (take (min (2 ^ l) (length arr) - slice_lo l) (drop (slice_lo l) arr)))"
proof -
  let ?m = "min (2 ^ l) (length arr)"
  have slice: "in_slice l (TNumber (real (Suc i))) \<longleftrightarrow> slice_lo l \<le> i \<and> i < 2 ^ l" if "i < length arr" for i
  proof -
    have "arrayindex (TNumber (of_int (int (Suc i)))) = int (Suc i)"
      using that assms(1) by (intro arrayindex_int) (auto simp: MAXASIZE_def MAXBITS_def)
    then have "arrayindex (TNumber (real (Suc i))) = int (Suc i)" by simp
    then show ?thesis unfolding in_slice_def by (simp only: of_nat_less_iff of_nat_le_iff less_Suc_eq_le Suc_le_eq)
  qed
  have "tally (array_keys arr) l = length (filter (\<lambda>i. (slice_lo l \<le> i \<and> i < 2 ^ l) \<and> arr ! i \<noteq> TNil) [0..<length arr])"
    unfolding tally_def array_keys_def present_def filter_map length_map filter_filter o_def
    by (rule arg_cong [of _ _ length], rule filter_cong) (use slice in auto)
  also have "\<dots> = card {i. i < length arr \<and> (slice_lo l \<le> i \<and> i < 2 ^ l) \<and> arr ! i \<noteq> TNil}"
    by (subst length_filter_conv_card) (intro arg_cong [of _ _ card] Collect_cong; auto)
  also have "\<dots> = card ((+) (slice_lo l) ` {i. i < ?m - slice_lo l \<and> drop (slice_lo l) arr ! i \<noteq> TNil})"
  proof (intro arg_cong [of _ _ card] set_eqI iffI)
    fix i assume i: "i \<in> {i. i < length arr \<and> (slice_lo l \<le> i \<and> i < 2 ^ l) \<and> arr ! i \<noteq> TNil}"
    then have "i = slice_lo l + (i - slice_lo l)" "i - slice_lo l < ?m - slice_lo l" by auto
    with i show "i \<in> (+) (slice_lo l) ` {i. i < ?m - slice_lo l \<and> drop (slice_lo l) arr ! i \<noteq> TNil}"
      by (intro image_eqI [of _ _ "i - slice_lo l"]) auto
  qed auto
  also have "\<dots> = card {i. i < ?m - slice_lo l \<and> drop (slice_lo l) arr ! i \<noteq> TNil}"
    by (rule card_image) simp
  also have "\<dots> = length (filter (\<lambda>v. v \<noteq> TNil) (take (?m - slice_lo l) (drop (slice_lo l) arr)))"
    unfolding length_filter_conv_card by (intro arg_cong [of _ _ card] Collect_cong) auto
  finally show ?thesis .
qed

lemma numusearray_loop_spec:
  assumes "length arr \<le> MAXASIZE" and "length nums = MAXBITS + 1" and "lg \<le> MAXBITS + 1"
    and "i = min (slice_lo lg) (length arr) + 1" and "\<forall>l \<le> MAXBITS. nums ! l = (if l < lg then tally (array_keys arr) l else 0)"
    and "a = (\<Sum>l < lg. tally (array_keys arr) l)"
  shows "fst (numusearray_loop arr lg i a nums) = (\<Sum>l < MAXBITS + 1. tally (array_keys arr) l)
    \<and> tallied (array_keys arr) (snd (numusearray_loop arr lg i a nums))"
  using assms(2-)
proof (induction "MAXBITS + 1 - lg" arbitrary: lg i a nums)
  case 0
  then have "lg = Suc MAXBITS" by simp
  with 0 show ?case by (simp add: numusearray_loop.simps [of _ "Suc MAXBITS"] tallied_def)
next
  case (Suc d)
  then have lg: "lg \<le> MAXBITS" by simp
  let ?lim = "if 2 ^ lg > length arr then length arr else 2 ^ lg"
  show ?case
  proof (cases "2 ^ lg > length arr \<and> i > ?lim")
    case True
    then have "length arr \<le> slice_lo lg" using Suc.prems(3) by (auto split: if_splits)
    have "tally (array_keys arr) l = 0" if "lg \<le> l" "l \<le> MAXBITS" for l
    proof -
      have "slice_lo lg \<le> slice_lo l" using that(1) unfolding slice_lo_half by (intro div_le_mono power_increasing) simp_all
      with \<open>length arr \<le> slice_lo lg\<close> show ?thesis using array_keys_slice [OF assms(1) that(2)] by simp
    qed
    moreover have "(\<Sum>l < MAXBITS + 1. tally (array_keys arr) l) =
        (\<Sum>l < lg. tally (array_keys arr) l) + (\<Sum>l = lg..<MAXBITS + 1. tally (array_keys arr) l)"
      using sum.atLeastLessThan_concat [of 0 lg "MAXBITS + 1" "tally (array_keys arr)"] lg by (simp only: lessThan_atLeast0)
    moreover have "numusearray_loop arr lg i a nums = (a, nums)"
      using True lg by (auto simp: numusearray_loop.simps [of _ lg] Let_def split: if_splits)
    ultimately show ?thesis
      using lg Suc.prems by (auto simp: tallied_def not_less)
  next
    case False
    have lim: "?lim = min (2 ^ lg) (length arr)" by simp
    have lo: "slice_lo lg < 2 ^ lg" by (rule slice_lo_less)
    have count: "length (filter (\<lambda>v. v \<noteq> TNil) (take (?lim + 1 - i) (drop (i - 1) arr))) = tally (array_keys arr) lg"
    proof (cases "slice_lo lg \<le> length arr")
      case True
      then show ?thesis unfolding array_keys_slice [OF assms(1) lg] Suc.prems(3) lim by (simp add: min_def)
    next
      case False
      then show ?thesis unfolding array_keys_slice [OF assms(1) lg] Suc.prems(3) lim by (simp add: min_def)
    qed
    have next_i: "max i (?lim + 1) = min (slice_lo (Suc lg)) (length arr) + 1"
      using lo Suc.prems(3) by (auto simp: min_def max_def)
    show ?thesis
      unfolding numusearray_loop.simps [of arr lg] Let_def count next_i if_P [OF lg] if_not_P [OF False]
      by (rule Suc.hyps(1)) (use Suc lg in \<open>auto simp: nth_update_if less_Suc_eq le_imp_less_Suc\<close>)
  qed
qed

lemma filter_in_array_all:
  assumes "length arr \<le> MAXASIZE"
  shows "filter (in_array MAXASIZE) (array_keys arr) = array_keys arr"
proof (rule filter_True, rule ballI)
  fix k assume "k \<in> set (array_keys arr)"
  then obtain i where "k = TNumber (real (Suc i))" "i < length arr" by (auto simp: array_keys_def present_def)
  with in_array_nat [of MAXASIZE "Suc i"] assms show "in_array MAXASIZE k" by simp
qed

lemma numusearray_spec:
  assumes "sizearray t \<le> MAXASIZE"
  shows "fst (numusearray t (replicate (MAXBITS + 1) 0)) = length (array_keys (t_array t))
    \<and> tallied (array_keys (t_array t)) (snd (numusearray t (replicate (MAXBITS + 1) 0)))"
proof -
  have "(\<Sum>l < MAXBITS + 1. tally (array_keys (t_array t)) l) = length (filter (in_array (2 ^ MAXBITS)) (array_keys (t_array t)))"
    unfolding filter_slices by (intro sum.cong) auto
  also have "\<dots> = length (array_keys (t_array t))"
    using filter_in_array_all [OF assms] by (simp add: MAXASIZE_def)
  finally have total: "(\<Sum>l < MAXBITS + 1. tally (array_keys (t_array t)) l) = length (array_keys (t_array t))" .
  have "replicate (MAXBITS + 1) 0 ! l = (0 :: nat)" if "l \<le> MAXBITS" for l using that by (intro nth_replicate) simp
  with numusearray_loop_spec [OF assms, of "replicate (MAXBITS + 1) 0" 0 1 0] show ?thesis
    unfolding numusearray_def total [symmetric] by simp
qed

lemma numusehash_loop_spec:
  assumes "tallied ks nums" and "tu = length hs" and "au = length (filter (in_array MAXASIZE) hs)"
  shows "\<exists>nums'. numusehash_loop ns (tu, au, nums) =
      (length hs + length (node_keys ns), length (filter (in_array MAXASIZE) (hs @ node_keys ns)), nums')
    \<and> tallied (ks @ node_keys ns) nums'"
  using assms
proof (induction ns arbitrary: tu au nums ks hs)
  case (Cons n ns)
  show ?case
  proof (cases "i_val n = TNil")
    case True
    with Cons.IH [OF Cons.prems] show ?thesis by (simp add: node_keys_def)
  next
    case False
    obtain c nums1 where c: "countint (i_key n) nums = (c, nums1)" by (cases "countint (i_key n) nums")
    from countint_spec [OF Cons.prems(1), of "i_key n"] c
    have n1: "c = length (filter (in_array MAXASIZE) [i_key n])" "tallied (ks @ [i_key n]) nums1" by simp_all
    from Cons.IH [OF n1(2), of "tu + 1" "hs @ [i_key n]" "au + c"] Cons.prems(2,3) n1(1) False c
    show ?thesis by (simp add: node_keys_def)
  qed
qed (simp add: node_keys_def)

lemma numusehash_spec:
  assumes "tallied ks nums"
  shows "\<exists>nums'. numusehash t nums na =
      (length (node_keys (t_node t)), na + length (filter (in_array MAXASIZE) (node_keys (t_node t))), nums')
    \<and> tallied (ks @ node_keys (rev (t_node t))) nums'"
proof -
  have len: "length (filter P (node_keys (rev ns))) = length (filter P (node_keys ns))" for P ns
    by (simp add: node_keys_def filter_map rev_filter [symmetric] rev_map [symmetric])
  have len': "length (node_keys (rev ns)) = length (node_keys ns)" for ns
    using len [of "\<lambda>_. True"] by simp
  from numusehash_loop_spec [OF assms, of 0 "[]" 0 "rev (t_node t)"] show ?thesis
    by (auto simp: numusehash_def len len')
qed

section \<open>Choosing the sizes\<close>

text \<open>
  \<open>computesizes\<close> returns a power of two, or zero, and the number of integer keys up to it, which
  is more than half of it. No larger power of two is more than half full (\<open>computesizes_largest\<close>).
\<close>

definition upto_sum :: "nat list \<Rightarrow> nat \<Rightarrow> nat" where
  "upto_sum nums j = sum_list (take (Suc j) nums)"

lemma upto_sum_step: "i < length nums \<Longrightarrow> sum_list (take i nums) + nums ! i = upto_sum nums i"
  by (simp add: upto_sum_def take_Suc_conv_app_nth)

definition half_full :: "nat list \<Rightarrow> nat \<Rightarrow> bool" where
  "half_full nums j \<longleftrightarrow> 2 ^ j div 2 < upto_sum nums j"

definition sizes_inv :: "nat list \<Rightarrow> nat \<Rightarrow> nat \<Rightarrow> nat \<Rightarrow> bool" where
  "sizes_inv nums i na n \<longleftrightarrow>
     (na = 0 \<and> n = 0 \<or> (\<exists>j < i. n = 2 ^ j \<and> na = upto_sum nums j \<and> half_full nums j))
   \<and> ((\<forall>j. upto_sum nums j \<le> 2 ^ j) \<longrightarrow> (\<forall>j < i. half_full nums j \<longrightarrow> 2 ^ j \<le> n))"

lemma upto_sum_le: "upto_sum nums j \<le> sum_list nums"
proof -
  have "sum_list nums = upto_sum nums j + sum_list (drop (Suc j) nums)"
    unfolding upto_sum_def sum_list_append [symmetric] by simp
  then show ?thesis by simp
qed

text \<open>Where the loop ends, no larger power of two is more than half full.\<close>

lemma sizes_inv_end:
  assumes "sizes_inv nums i na n" and "sum_list nums \<le> 2 ^ i div 2" and "i \<le> MAXBITS + 1 \<or> sum_list nums = 0"
  shows "sizes_inv nums (MAXBITS + 1) na n"
proof -
  have small: "\<not> half_full nums j" if "i \<le> j" for j
  proof -
    have "(2::nat) ^ i div 2 \<le> 2 ^ j div 2" using that by (intro div_le_mono power_increasing) simp_all
    with assms(2) upto_sum_le [of nums j] show ?thesis by (simp add: half_full_def)
  qed
  have none: "\<not> half_full nums j" if "sum_list nums = 0" for j
    using upto_sum_le [of nums j] that by (simp add: half_full_def)
  have less: "j < i \<and> j < MAXBITS + 1" if "half_full nums j" "j < i \<or> j < MAXBITS + 1" for j
    using that small [of j] none [of j] assms(3) by linarith
  show ?thesis
    using assms(1) less unfolding sizes_inv_def by blast
qed

lemma sizes_inv_step:
  assumes "sizes_inv nums i na n"
  shows "half_full nums i \<Longrightarrow> sizes_inv nums (Suc i) (upto_sum nums i) (2 ^ i)"
    and "\<not> half_full nums i \<Longrightarrow> sizes_inv nums (Suc i) na n"
    and "nums ! i = 0 \<Longrightarrow> i < length nums \<Longrightarrow> sizes_inv nums (Suc i) na n"
proof -
  show "half_full nums i \<Longrightarrow> sizes_inv nums (Suc i) (upto_sum nums i) (2 ^ i)"
    unfolding sizes_inv_def by (auto simp: less_Suc_eq_le intro: power_increasing)
  show full: "\<not> half_full nums i \<Longrightarrow> sizes_inv nums (Suc i) na n"
    using assms unfolding sizes_inv_def less_Suc_eq by blast
  show "sizes_inv nums (Suc i) na n" if z: "nums ! i = 0" "i < length nums"
  proof (cases "\<forall>j. upto_sum nums j \<le> 2 ^ j")
    case True
    have "upto_sum nums i \<le> 2 ^ i div 2"
    proof (cases i)
      case 0
      with z show ?thesis by (simp add: upto_sum_def take_Suc_conv_app_nth)
    next
      case (Suc m)
      have "upto_sum nums i = upto_sum nums m"
        using upto_sum_step [OF z(2)] z(1) Suc by (simp add: upto_sum_def)
      with True Suc show ?thesis by simp
    qed
    then show ?thesis by (intro full) (simp add: half_full_def)
  next
    case False
    with assms show ?thesis unfolding sizes_inv_def less_Suc_eq by blast
  qed
qed

lemma computesizes_loop_spec:
  assumes "length nums = MAXBITS + 1" and "a = sum_list (take i nums)"
    and "a < sum_list nums \<or> sum_list nums = 0" and "sizes_inv nums i na n"
  shows "case computesizes_loop nums (sum_list nums) i a na n of (na', n') \<Rightarrow> sizes_inv nums (MAXBITS + 1) na' n'"
  using assms(2-)
proof (induction "2 * sum_list nums + 1 - i" arbitrary: i a na n rule: less_induct)
  case less
  note IH = less.hyps
  show ?case
  proof (cases "2 ^ i div 2 < sum_list nums")
    case False
    have "i \<le> MAXBITS + 1 \<or> sum_list nums = 0"
      using less.prems(1,2) assms(1) by (cases "i \<le> MAXBITS + 1") simp_all
    from sizes_inv_end [OF less.prems(3) _ this] False show ?thesis by (simp add: computesizes_loop.simps [of _ _ i])
  next
    case True
    have "\<not> MAXBITS + 1 \<le> i"
    proof
      assume "MAXBITS + 1 \<le> i"
      then have "take i nums = nums" using assms(1) by simp
      then have "a = sum_list nums" using less.prems(1) by simp
      with less.prems(2) True show False by linarith
    qed
    then have i: "i < length nums" "i \<le> MAXBITS" using assms(1) by simp_all
    note sum = upto_sum_step [OF i(1), folded less.prems(1)]
    obtain na' n' where body: "(if nums ! i > 0 then
          (let a = a + nums ! i in if a > 2 ^ i div 2 then (a, a, 2 ^ i) else (a, na, n)) else (a, na, n)) =
        (upto_sum nums i, na', n')" "sizes_inv nums (Suc i) na' n'"
      using sizes_inv_step [OF less.prems(3)] sum i(1)
      by (cases "nums ! i = 0"; cases "half_full nums i") (auto simp: half_full_def Let_def)
    show ?thesis
    proof (cases "upto_sum nums i = sum_list nums")
      case all: True
      have "sizes_inv nums (MAXBITS + 1) na' n'"
      proof (cases "\<forall>j. upto_sum nums j \<le> 2 ^ j")
        case True
        then have "sum_list nums \<le> 2 ^ Suc i div 2" using all by (metis nonzero_mult_div_cancel_left power_Suc zero_neq_numeral)
        from sizes_inv_end [OF body(2) this] i(2) show ?thesis by simp
      next
        case False
        with body(2) i(2) show ?thesis unfolding sizes_inv_def by (metis Suc_eq_plus1 Suc_le_mono less_le_trans)
      qed
      with all True body(1) show ?thesis by (simp add: computesizes_loop.simps [of _ _ i])
    next
      case False
      have "2 * sum_list nums + 1 - Suc i < 2 * sum_list nums + 1 - i" using True less_exp [of i] by linarith
      moreover have "upto_sum nums i = sum_list (take (Suc i) nums)" by (simp add: upto_sum_def)
      moreover have "upto_sum nums i < sum_list nums \<or> sum_list nums = 0"
        using False upto_sum_le [of nums i] by linarith
      ultimately show ?thesis
        using IH [OF _ _ _ body(2)] True body(1) False by (simp add: computesizes_loop.simps [of _ _ i])
    qed
  qed
qed

text \<open>
  The sizes of \<open>rehash\<close>: the array part takes the integer keys up to \<open>nasize\<close>, the hash part is
  exactly as large as the other keys need.
\<close>

definition all_keys :: "ltable \<Rightarrow> tvalue list" where
  "all_keys t = array_keys (t_array t) @ node_keys (t_node t)"

definition count_upto :: "tvalue list \<Rightarrow> nat \<Rightarrow> nat" where
  "count_upto ks n = length (filter (in_array n) ks)"

lemma count_upto_capacity:
  assumes "distinct ks" and "n \<le> MAXASIZE"
  shows "count_upto ks n \<le> n"
proof -
  let ?F = "filter (in_array n) ks"
  have key: "\<exists>i < n. k = TNumber (real (Suc i))" if "k \<in> set ?F" for k
    using that assms(2) by (auto elim!: in_arrayD)
  then have "set ?F \<subseteq> (\<lambda>i. TNumber (real (Suc i))) ` {..<n}" by blast
  then have "card (set ?F) \<le> card ((\<lambda>i. TNumber (real (Suc i))) ` {..<n})" by (rule card_mono [rotated]) simp
  also have "\<dots> \<le> n" using card_image_le [of "{..<n}"] by fastforce
  finally show ?thesis using distinct_card [OF distinct_filter [OF assms(1)], of "in_array n"] by (simp add: count_upto_def)
qed

lemma rehash_sizes_spec:
  assumes "sizearray t \<le> MAXASIZE" and "rehash_sizes ek t = (nasize, nhsize)"
  shows "nasize \<le> MAXASIZE"
    and "nhsize = length (filter (\<lambda>k. \<not> in_array nasize k) (all_keys t @ [ek]))"
    and "nasize = 0 \<or> (\<exists>j. nasize = 2 ^ j) \<and> nasize div 2 < count_upto (all_keys t @ [ek]) nasize"
    and "distinct (all_keys t @ [ek]) \<Longrightarrow> j \<le> MAXBITS \<Longrightarrow> 2 ^ j div 2 < count_upto (all_keys t @ [ek]) (2 ^ j) \<Longrightarrow> 2 ^ j \<le> nasize"
proof -
  let ?A = "array_keys (t_array t)" and ?H = "node_keys (t_node t)" and ?R = "node_keys (rev (t_node t))"
  obtain nums1 where 1: "numusearray t (replicate (MAXBITS + 1) 0) = (length ?A, nums1)" "tallied ?A nums1"
    using numusearray_spec [OF assms(1)] by (metis prod.collapse)
  obtain nums2 where 2: "numusehash t nums1 (length ?A) =
      (length ?H, length ?A + length (filter (in_array MAXASIZE) ?H), nums2)" "tallied (?A @ ?R) nums2"
    using numusehash_spec [OF 1(2)] by blast
  obtain c nums3 where c: "countint ek nums2 = (c, nums3)" by (cases "countint ek nums2")
  from countint_spec [OF 2(2), of ek] c
  have 3: "c = length (filter (in_array MAXASIZE) [ek])" "tallied ((?A @ ?R) @ [ek]) nums3" by simp_all
  let ?K = "(?A @ ?R) @ [ek]"
  have len: "length (filter P ?K) = length (filter P (all_keys t @ [ek]))" for P
    by (simp add: all_keys_def node_keys_def filter_map rev_filter [symmetric] rev_map [symmetric])
  let ?n = "length ?A + length (filter (in_array MAXASIZE) ?H) + c"
  have total: "sum_list nums3 = ?n"
  proof -
    have "sum_list nums3 = length (filter (in_array (2 ^ MAXBITS)) ?K)"
      using tallied_sum [OF 3(2), of MAXBITS] 3(2) by (simp add: tallied_def)
    also have "\<dots> = ?n"
      unfolding len using filter_in_array_all [OF assms(1)] 3(1) by (simp add: all_keys_def MAXASIZE_def)
    finally show ?thesis .
  qed
  obtain na n where cs: "computesizes nums3 ?n = (na, n)" by (cases "computesizes nums3 ?n")
  have inv0: "sizes_inv nums3 0 0 0" by (simp add: sizes_inv_def)
  have "sum_list (take 0 nums3) < sum_list nums3 \<or> sum_list nums3 = 0" by auto
  from computesizes_loop_spec [OF _ refl this inv0] 3(2) total cs
  have inv: "sizes_inv nums3 (MAXBITS + 1) na n" by (simp add: tallied_def computesizes_def)
  have res: "nasize = n" "nhsize = length ?A + length ?H + 1 - na"
    using assms(2) 1(1) 2(1) c cs by (simp_all add: rehash_sizes_def Let_def)
  have n: "na = length (filter (in_array n) ?K) \<and> n \<le> MAXASIZE"
  proof (cases "n = 0")
    case True
    with inv have "na = 0" by (auto simp: sizes_inv_def)
    moreover have "\<not> in_array 0 k" for k by (simp add: in_array_def)
    ultimately show ?thesis using True by simp
  next
    case False
    with inv obtain j where j: "j < MAXBITS + 1" "n = 2 ^ j" "na = upto_sum nums3 j" by (auto simp: sizes_inv_def)
    then have "(2::nat) ^ j \<le> 2 ^ MAXBITS" by (intro power_increasing) simp_all
    with j tallied_sum [OF 3(2), of j] show ?thesis by (simp add: upto_sum_def MAXASIZE_def)
  qed
  show "nasize \<le> MAXASIZE" using n res by simp
  have upto: "upto_sum nums3 j = count_upto (all_keys t @ [ek]) (2 ^ j)" if "j \<le> MAXBITS" for j
    using tallied_sum [OF 3(2) that] len [of "in_array (2 ^ j)"] by (simp add: upto_sum_def count_upto_def)
  show "nasize = 0 \<or> (\<exists>j. nasize = 2 ^ j) \<and> nasize div 2 < count_upto (all_keys t @ [ek]) nasize"
    using inv upto by (auto simp: sizes_inv_def half_full_def res)
  show "2 ^ j \<le> nasize" if d: "distinct (all_keys t @ [ek])" and j: "j \<le> MAXBITS"
    and more: "2 ^ j div 2 < count_upto (all_keys t @ [ek]) (2 ^ j)" for j
  proof -
    have small: "upto_sum nums3 i \<le> 2 ^ i" if "i \<le> MAXBITS" for i
      unfolding upto [OF that] by (rule count_upto_capacity [OF d]) (use that in \<open>simp add: MAXASIZE_def\<close>)
    have "upto_sum nums3 i \<le> 2 ^ i" for i
    proof (cases "i \<le> MAXBITS")
      case False
      then have "upto_sum nums3 i = upto_sum nums3 MAXBITS" using 3(2) by (simp add: upto_sum_def tallied_def)
      also have "\<dots> \<le> 2 ^ MAXBITS" by (rule small) simp
      also have "(2::nat) ^ MAXBITS \<le> 2 ^ i" using False by (intro power_increasing) simp_all
      finally show ?thesis .
    qed (rule small)
    with inv j more upto [OF j] show ?thesis by (simp add: sizes_inv_def half_full_def res)
  qed
  have "length (filter (in_array n) ?K) + length (filter (\<lambda>k. \<not> in_array n k) ?K) = length ?K"
    by (rule sum_length_filter_compl)
  moreover have "length ?K = length ?A + length ?H + 1" using len [of "\<lambda>_. True"] by (simp add: all_keys_def)
  ultimately show "nhsize = length (filter (\<lambda>k. \<not> in_array nasize k) (all_keys t @ [ek]))"
    using n res len [of "\<lambda>k. \<not> in_array n k"] by simp
qed

section \<open>Inserting many entries\<close>

text \<open>One \<open>luaH_set\<close> where the array part or a free node takes the key.\<close>

lemma luaH_set_room:
  assumes "table_ok bits t" and "k \<noteq> TNil"
    and "in_array (sizearray t) k \<or> \<not> t_dummy t \<and> card (keyed (t_node t)) < sizenode t"
  shows "\<exists>p t'. luaH_set_with (newkey_with nk bits) bits k t = Some (Inr (p, t')) \<and> inserted bits k t p t'
    \<and> card (keyed (t_node t')) \<le> card (keyed (t_node t)) + (if in_array (sizearray t) k then 0 else 1)"
proof (cases "luaH_get bits t k")
  case (Some p)
  with assms(1) show ?thesis by (auto simp: luaH_set_with_def inserted_def)
next
  case None
  then have out: "\<not> in_array (sizearray t) k" using luaH_get_None [OF assms(1,2)] by simp
  with assms None have "insertable bits k t" "card (keyed (t_node t)) < sizenode t" by (simp_all add: insertable_def)
  from newkey_room [OF this, of nk] out None assms(2) show ?thesis
    by (auto simp: luaH_set_with_def inserted_def)
qed

text \<open>The entries among a list, and what they need of the hash part.\<close>

definition needs :: "nat \<Rightarrow> (tvalue \<times> tvalue) list \<Rightarrow> nat" where
  "needs n kvs = length (filter (\<lambda>(k, v). v \<noteq> TNil \<and> \<not> in_array n k) kvs)"

definition override :: "(tvalue \<times> tvalue) list \<Rightarrow> (tvalue \<Rightarrow> tvalue) \<Rightarrow> tvalue \<Rightarrow> tvalue" where
  "override kvs f = foldl (\<lambda>f (k, v). if v = TNil then f else f(k := v)) f kvs"

lemma reinsert_spec:
  assumes "table_ok bits t" and "\<And>k v. (k, v) \<in> set kvs \<Longrightarrow> v \<noteq> TNil \<Longrightarrow> k \<noteq> TNil"
    and "needs (sizearray t) kvs = 0 \<or> \<not> t_dummy t \<and> card (keyed (t_node t)) + needs (sizearray t) kvs \<le> sizenode t"
  shows "\<exists>t'. reinsert (luaH_set_with (newkey_with nk bits) bits) kvs t = Some (Inr t')
    \<and> table_ok bits t' \<and> lookup bits t' = override kvs (lookup bits t)
    \<and> sizearray t' = sizearray t \<and> t_dummy t' = t_dummy t \<and> lsizenode t' = lsizenode t
    \<and> card (keyed (t_node t')) \<le> card (keyed (t_node t)) + needs (sizearray t) kvs"
  using assms
proof (induction kvs arbitrary: t)
  case (Cons kv kvs)
  obtain k v where kv: "kv = (k, v)" by (cases kv)
  show ?case
  proof (cases "v = TNil")
    case True
    with Cons.IH [OF Cons.prems(1)] Cons.prems(2,3) kv show ?thesis by (simp add: needs_def override_def)
  next
    case False
    have k: "k \<noteq> TNil" using Cons.prems(2) [of k v] kv False by simp
    have need: "needs (sizearray t) (kv # kvs) = (if in_array (sizearray t) k then 0 else 1) + needs (sizearray t) kvs"
      using False kv by (simp add: needs_def)
    have "in_array (sizearray t) k \<or> \<not> t_dummy t \<and> card (keyed (t_node t)) < sizenode t"
      using Cons.prems(3) need by (auto split: if_splits)
    from luaH_set_room [OF Cons.prems(1) k this, of nk]
    obtain p t1 where t1: "luaH_set_with (newkey_with nk bits) bits k t = Some (Inr (p, t1))" "inserted bits k t p t1"
      "card (keyed (t_node t1)) \<le> card (keyed (t_node t)) + (if in_array (sizearray t) k then 0 else 1)" by blast
    then have i: "table_ok bits t1" "luaH_get bits t1 k = Some p" "lookup bits t1 = lookup bits t"
      "t_array t1 = t_array t" "t_dummy t1 = t_dummy t" "lsizenode t1 = lsizenode t" by (simp_all add: inserted_def)
    note put = slot_put_ok [OF i(1,2), of v]
    have sizes: "sizearray (slot_put p v t1) = sizearray t" "t_dummy (slot_put p v t1) = t_dummy t"
      "lsizenode (slot_put p v t1) = lsizenode t"
      using i by (cases p; simp)+
    have "needs (sizearray (slot_put p v t1)) kvs = 0 \<or> \<not> t_dummy (slot_put p v t1) \<and>
        card (keyed (t_node (slot_put p v t1))) + needs (sizearray (slot_put p v t1)) kvs \<le> sizenode (slot_put p v t1)"
      using Cons.prems(3) need t1(3) unfolding sizes put(4) by (auto split: if_splits)
    from Cons.IH [OF put(1) _ this] Cons.prems(2)
    obtain t' where t': "reinsert (luaH_set_with (newkey_with nk bits) bits) kvs (slot_put p v t1) = Some (Inr t')"
      "table_ok bits t'" "lookup bits t' = override kvs (lookup bits (slot_put p v t1))"
      "sizearray t' = sizearray t" "t_dummy t' = t_dummy t" "lsizenode t' = lsizenode t"
      "card (keyed (t_node t')) \<le> card (keyed (t_node t1)) + needs (sizearray t) kvs"
      unfolding sizes put(4) by auto
    have "lookup bits t' = override (kv # kvs) (lookup bits t)"
      using t'(3) put(2) i(3) kv False by (simp add: override_def)
    moreover have "card (keyed (t_node t')) \<le> card (keyed (t_node t)) + needs (sizearray t) (kv # kvs)"
      using t'(7) t1(3) need by linarith
    moreover have "reinsert (luaH_set_with (newkey_with nk bits) bits) (kv # kvs) t = Some (Inr t')"
      using t1(1) t'(1) kv False by simp
    ultimately show ?thesis using t' by blast
  qed
qed (simp add: needs_def override_def)

lemma override_consistent:
  assumes "\<And>k v. (k, v) \<in> set kvs \<Longrightarrow> v \<noteq> TNil \<Longrightarrow> g k = v"
  shows "override kvs f k = (if \<exists>v. (k, v) \<in> set kvs \<and> v \<noteq> TNil then g k else f k)"
  using assms
proof (induction kvs arbitrary: f)
  case (Cons kv kvs)
  obtain k' v' where kv: "kv = (k', v')" by (cases kv)
  have IH: "override kvs f k = (if \<exists>v. (k, v) \<in> set kvs \<and> v \<noteq> TNil then g k else f k)" for f
    by (rule Cons.IH) (use Cons.prems in auto)
  have "override (kv # kvs) f = override kvs (if v' = TNil then f else f(k' := v'))"
    by (simp add: override_def kv)
  with IH [of "if v' = TNil then f else f(k' := v')"] Cons.prems [of k' v'] show ?case by (auto simp: kv)
qed (simp add: override_def)

lemma override_append: "override (kvs @ kvs') f = override kvs' (override kvs f)"
  by (simp add: override_def)

lemma needs_append: "needs n (kvs @ kvs') = needs n kvs + needs n kvs'"
  by (simp add: needs_def)

text \<open>\<open>luaH_setnum\<close> is \<open>luaH_set\<close> on a number.\<close>

lemma setnum_set:
  assumes "- (2 ^ 31) \<le> k" and "k < 2 ^ 31"
  shows "luaH_setnum_with nk bits k t = luaH_set_with nk bits (TNumber (of_int k)) t"
proof -
  have "number_int (of_int k) = Some k" using assms by (simp add: number_int_Some)
  then show ?thesis by (simp add: luaH_setnum_with_def luaH_set_with_def)
qed

lemma reinsert_setnum:
  assumes "\<And>k v. (k, v) \<in> set kvs \<Longrightarrow> - (2 ^ 31) \<le> k \<and> k < 2 ^ 31"
  shows "reinsert (luaH_setnum_with nk bits) kvs t =
    reinsert (luaH_set_with nk bits) (map (\<lambda>(k, v). (TNumber (of_int k), v)) kvs) t"
  using assms
proof (induction kvs arbitrary: t)
  case (Cons kv kvs)
  obtain k v where kv: "kv = (k, v)" by (cases kv)
  have "luaH_setnum_with nk bits k t = luaH_set_with nk bits (TNumber (of_int k)) t"
    using Cons.prems [of k v] kv by (intro setnum_set) auto
  moreover have "reinsert (luaH_setnum_with nk bits) kvs t =
      reinsert (luaH_set_with nk bits) (map (\<lambda>(k, v). (TNumber (of_int k), v)) kvs) t" for t
    by (rule Cons.IH) (use Cons.prems in auto)
  ultimately show ?case by (simp add: kv split: option.split sum.split)
qed simp

end
