(* ===== verification/Lua_Table_Spec.thy ===== *)
theory Lua_Table_Spec
  imports Lua_Rehash
begin

text \<open>
  What a table promises: resizing keeps the contents, \<open>luaH_set\<close> gives a place for the key and
  changes nothing else, \<open>luaH_next\<close> visits every entry once, \<open>luaH_getn\<close> is a border.
  The locale \<open>finite_map\<close> is the contract, interpreted on \<open>luaH_get\<close> and \<open>luaH_set\<close>.
\<close>

section \<open>Resizing\<close>

definition items :: "nat \<Rightarrow> ltable \<Rightarrow> (tvalue \<times> tvalue) list" where
  "items nasize t = map (\<lambda>i. (TNumber (real (Suc i)), t_array t ! i)) [nasize..<sizearray t]
     @ map (\<lambda>n. (i_key n, i_val n)) (rev (t_node t))"

definition new_array :: "nat \<Rightarrow> tvalue list \<Rightarrow> tvalue list" where
  "new_array n arr = take n arr @ replicate (n - length arr) TNil"

lemma length_new_array [simp]: "length (new_array n arr) = n"
  by (simp add: new_array_def)

lemma new_array_nth: "i < n \<Longrightarrow> new_array n arr ! i = (if i < length arr then arr ! i else TNil)"
  by (auto simp: new_array_def nth_append)

lemma reinsert_append:
  "reinsert f (xs @ ys) t = (case reinsert f xs t of
     None \<Rightarrow> None | Some (Inl e) \<Rightarrow> Some (Inl e) | Some (Inr t) \<Rightarrow> reinsert f ys t)"
proof (induction xs arbitrary: t)
  case (Cons kv xs)
  obtain k v where kv: "kv = (k, v)" by (cases kv)
  show ?case
  proof (cases "v = TNil")
    case False
    then show ?thesis by (simp add: kv Cons.IH split: option.split sum.split)
  qed (simp add: kv Cons.IH)
qed simp

lemma vanishing_zip:
  "zip [int n + 1..int (length arr)] (drop n arr) = map (\<lambda>i. (int (Suc i), arr ! i)) [n..<length arr]"
  by (rule nth_equalityI) auto

lemma setnodevector_array:
  "setnodevector m (t\<lparr>t_array := a\<rparr>) = map_sum id (\<lambda>t. t\<lparr>t_array := a\<rparr>) (setnodevector m t)"
  by (simp add: setnodevector_def luaL_error_def)

lemma resize_eq:
  assumes "sizearray t \<le> MAXASIZE"
  shows "resize_with nk bits nasize nhsize t =
    (case setnodevector nhsize (t\<lparr>t_array := new_array nasize (t_array t)\<rparr>) of
       Inl e \<Rightarrow> Some (Inl e)
     | Inr t0 \<Rightarrow> reinsert (luaH_set_with nk bits) (items nasize t) t0)"
proof -
  let ?V = "map (\<lambda>i. (int (Suc i), t_array t ! i)) [nasize..<sizearray t]"
  have V: "reinsert (luaH_setnum_with nk bits) ?V t0 =
      reinsert (luaH_set_with nk bits) (map (\<lambda>i. (TNumber (real (Suc i)), t_array t ! i)) [nasize..<sizearray t]) t0" for t0
    using assms by (subst reinsert_setnum) (auto simp: MAXASIZE_def MAXBITS_def o_def)
  have grow: "(if nasize > sizearray t then setarrayvector nasize t else t) =
      t\<lparr>t_array := take (max nasize (sizearray t)) (t_array t) @ replicate (nasize - sizearray t) TNil\<rparr>"
    by (simp add: setarrayvector_def)
  show ?thesis
  proof (cases "setnodevector nhsize t")
    case (Inl e)
    then show ?thesis unfolding resize_with_def Let_def grow by (simp add: setnodevector_array)
  next
    case (Inr t0)
    then show ?thesis
      unfolding resize_with_def Let_def grow vanishing_zip V items_def reinsert_append
      by (simp add: setnodevector_array new_array_def max_def)
  qed
qed

text \<open>The new table before the entries go back: its array part, and no nodes with keys.\<close>

lemma nodes_ok_empty:
  assumes "\<And>k. mp k < n"
  shows "nodes_ok mp (replicate n empty_node)"
proof -
  have no: "\<not> edge (replicate n empty_node) i j" for i j by (simp add: edge_def empty_node_def)
  have "key_at (replicate n empty_node) i = TNil" "val_at (replicate n empty_node) i = TNil" if "i < n" for i
    using that by (simp_all add: empty_node_def)
  with no assms show ?thesis unfolding nodes_ok_def length_replicate by blast
qed

lemma ent_empty [simp]: "ent (replicate n empty_node) = {}"
  by (auto simp: ent_def empty_node_def)

lemma keyed_empty [simp]: "keyed (replicate n empty_node) = {}"
  by (auto simp: keyed_def empty_node_def)

lemma fresh_table:
  assumes "setnodevector n t = Inr t0" and "sizearray t \<le> MAXASIZE"
  shows "table_ok bits t0" and "t_array t0 = t_array t" and "keyed (t_node t0) = {}"
    and "t_dummy t0 \<longleftrightarrow> n = 0" and "n \<le> sizenode t0"
    and "lookup bits t0 k = (if in_array (sizearray t) k then t_array t ! nat (arrayindex k - 1) else TNil)"
proof -
  have eq: "t0 = (if n = 0 then t\<lparr>t_node := replicate 1 empty_node, lsizenode := 0, lastfree := 0, t_dummy := True\<rparr>
     else t\<lparr>t_node := replicate (2 ^ ceillog2 n) empty_node, lsizenode := ceillog2 n, lastfree := 2 ^ ceillog2 n, t_dummy := False\<rparr>)"
    using assms(1) by (auto simp: setnodevector_def luaL_error_def split: if_splits)
  then have nodes: "t_node t0 = replicate (sizenode t0) empty_node" by simp
  show "t_array t0 = t_array t" "t_dummy t0 \<longleftrightarrow> n = 0" using eq by simp_all
  show "keyed (t_node t0) = {}" unfolding nodes by simp
  show "n \<le> sizenode t0" using eq ceillog2_upper [of n] by (cases "n = 0") simp_all
  have "\<not> in_array m TNil" for m by (simp add: in_array_def)
  moreover have "n \<noteq> 0 \<Longrightarrow> ceillog2 n \<le> MAXBITS"
    using assms(1) by (auto simp: setnodevector_def luaL_error_def split: if_splits)
  ultimately show ok: "table_ok bits t0"
    unfolding table_ok_def using nodes_ok_empty [of "mainposition bits t0", OF mainposition_less] eq assms(2)
    by (auto simp: nodes empty_node_def)
  show "lookup bits t0 k = (if in_array (sizearray t) k then t_array t ! nat (arrayindex k - 1) else TNil)"
    using lookup_array [OF ok, of k] lookup_ent [OF ok, of k "lookup bits t0 k"] \<open>t_array t0 = t_array t\<close>
    by (auto simp: nodes)
qed

lemma items_lookup:
  assumes "table_ok bits t" and "(k, v) \<in> set (items n t)" and "v \<noteq> TNil"
  shows "k \<noteq> TNil \<and> lookup bits t k = v"
proof -
  from assms(2) consider (array) i where "i < sizearray t" "k = TNumber (real (Suc i))" "v = t_array t ! i"
    | (node) i where "i < sizenode t" "k = key_at (t_node t) i" "v = val_at (t_node t) i"
    using table_okD(1) [OF assms(1)] by (fastforce simp: items_def in_set_conv_nth)
  then show ?thesis
  proof cases
    case array
    then show ?thesis using luaH_get_array [OF assms(1) array(1)] by (simp add: lookup_def value_at_def)
  next
    case node
    then have "k \<noteq> TNil" using nodes_okD(8) [OF table_okD(2) [OF assms(1)], of i] assms(3) table_okD(1) [OF assms(1)] by simp
    then show ?thesis using luaH_get_node [OF assms(1), of k i] node by (simp add: lookup_def value_at_def)
  qed
qed

lemma lookup_items:
  assumes "table_ok bits t" and "lookup bits t k \<noteq> TNil" and "\<not> (in_array (sizearray t) k \<and> in_array n k)" and "n \<le> MAXASIZE"
  shows "\<exists>v. (k, v) \<in> set (items n t) \<and> v \<noteq> TNil"
proof (cases "in_array (sizearray t) k")
  case True
  then obtain i where i: "i < sizearray t" "k = TNumber (real (Suc i))" "arrayindex k = int (Suc i)"
    using table_okD(7) [OF assms(1)] by (rule in_arrayD)
  have "n \<le> i" using assms(3,4) True i in_array_nat [of n "Suc i"] by auto
  moreover have "t_array t ! i \<noteq> TNil" using assms(2) lookup_array [OF assms(1) True] i(3) by simp
  moreover have "(k, t_array t ! i) \<in> (\<lambda>i. (TNumber (real (Suc i)), t_array t ! i)) ` {n..<sizearray t}"
    using i \<open>n \<le> i\<close> by (intro image_eqI [of _ _ i]) simp_all
  ultimately show ?thesis unfolding items_def set_append set_map set_upt by blast
next
  case False
  from lookup_ent [OF assms(1) False assms(2)] have "(k, lookup bits t k) \<in> ent (t_node t)" by simp
  then obtain i where "i < length (t_node t)" "k = key_at (t_node t) i" "lookup bits t k = val_at (t_node t) i"
    unfolding ent_def by blast
  then have "(k, lookup bits t k) \<in> (\<lambda>n. (i_key n, i_val n)) ` set (rev (t_node t))"
    by (intro image_eqI [of _ _ "t_node t ! i"]) simp_all
  with assms(2) show ?thesis unfolding items_def set_append set_map by blast
qed

text \<open>The keys the new hash part has to take are among those that \<open>rehash\<close> counted.\<close>

lemma needs_items: "needs n (items n t) \<le> length (filter (\<lambda>k. \<not> in_array n k) (all_keys t))"
proof -
  let ?key = "\<lambda>i. TNumber (real (Suc i))"
  have len: "length (filter P [n..<m]) \<le> length (filter P [0..<m])" for P and m :: nat
  proof (cases "n \<le> m")
    case True
    then have "[0..<m] = [0..<n] @ [n..<m]" using upt_add_eq_append [of 0 n "m - n"] by simp
    then show ?thesis by simp
  qed simp
  have "needs n (map (\<lambda>i. (?key i, t_array t ! i)) [n..<sizearray t])
      = length (filter (\<lambda>i. t_array t ! i \<noteq> TNil \<and> \<not> in_array n (?key i)) [n..<sizearray t])"
    by (simp add: needs_def filter_map o_def)
  also have "\<dots> \<le> length (filter (\<lambda>i. t_array t ! i \<noteq> TNil \<and> \<not> in_array n (?key i)) [0..<sizearray t])" by (rule len)
  also have "\<dots> = length (filter (\<lambda>k. \<not> in_array n k) (array_keys (t_array t)))"
    by (simp add: array_keys_def present_def filter_map o_def conj_commute)
  finally have array: "needs n (map (\<lambda>i. (?key i, t_array t ! i)) [n..<sizearray t])
      \<le> length (filter (\<lambda>k. \<not> in_array n k) (array_keys (t_array t)))" .
  have "needs n (map (\<lambda>x. (i_key x, i_val x)) (rev (t_node t))) = length (filter (\<lambda>k. \<not> in_array n k) (node_keys (t_node t)))"
    by (simp add: needs_def node_keys_def filter_map rev_map [symmetric] rev_filter [symmetric] o_def conj_commute)
  with array show ?thesis by (simp add: items_def needs_append all_keys_def)
qed

lemma resize_spec:
  assumes "table_ok bits t" and "nasize \<le> MAXASIZE" and "needs nasize (items nasize t) \<le> nhsize"
  shows "ceillog2 nhsize > MAXBITS \<and> nhsize \<noteq> 0
      \<and> resize_with (newkey_with nk bits) bits nasize nhsize t = Some (luaL_error ''table overflow'')
    \<or> (\<exists>t'. resize_with (newkey_with nk bits) bits nasize nhsize t = Some (Inr t')
      \<and> table_ok bits t' \<and> lookup bits t' = lookup bits t \<and> sizearray t' = nasize
      \<and> (t_dummy t' \<longleftrightarrow> nhsize = 0) \<and> nhsize \<le> sizenode t'
      \<and> card (keyed (t_node t')) \<le> needs nasize (items nasize t))"
proof (cases "setnodevector nhsize (t\<lparr>t_array := new_array nasize (t_array t)\<rparr>)")
  case (Inl e)
  then have "ceillog2 nhsize > MAXBITS \<and> nhsize \<noteq> 0 \<and> Inl e = (luaL_error ''table overflow'' :: lua_error + ltable)"
    by (auto simp: setnodevector_def split: if_splits)
  then show ?thesis unfolding resize_eq [OF table_okD(7) [OF assms(1)]] Inl by (simp add: luaL_error_def)
next
  case (Inr t0)
  have array: "sizearray (t\<lparr>t_array := new_array nasize (t_array t)\<rparr>) \<le> MAXASIZE" using assms(2) by simp
  note fresh = fresh_table [OF Inr array]
  have size: "sizearray t0 = nasize" using fresh(2) by simp
  have "needs (sizearray t0) (items nasize t) = 0 \<or>
      \<not> t_dummy t0 \<and> card (keyed (t_node t0)) + needs (sizearray t0) (items nasize t) \<le> sizenode t0"
    using assms(3) fresh(3-5) by (auto simp: size)
  from reinsert_spec [OF fresh(1) [of bits] _ this, of nk] items_lookup [OF assms(1)]
  obtain t' where t': "reinsert (luaH_set_with (newkey_with nk bits) bits) (items nasize t) t0 = Some (Inr t')"
    "table_ok bits t'" "lookup bits t' = override (items nasize t) (lookup bits t0)"
    "sizearray t' = sizearray t0" "t_dummy t' = t_dummy t0" "lsizenode t' = lsizenode t0"
    "card (keyed (t_node t')) \<le> needs nasize (items nasize t)"
    using fresh(3) size by auto
  have "lookup bits t' k = lookup bits t k" for k
  proof -
    have o: "override (items nasize t) (lookup bits t0) k =
        (if \<exists>v. (k, v) \<in> set (items nasize t) \<and> v \<noteq> TNil then lookup bits t k else lookup bits t0 k)"
      by (rule override_consistent) (use items_lookup [OF assms(1)] in blast)
    show ?thesis
    proof (cases "\<exists>v. (k, v) \<in> set (items nasize t) \<and> v \<noteq> TNil")
      case False
      then have none: "lookup bits t k = TNil \<or> in_array (sizearray t) k \<and> in_array nasize k"
        using lookup_items [OF assms(1) _ _ assms(2)] by blast
      have "lookup bits t0 k = lookup bits t k"
      proof (cases "in_array nasize k")
        case True
        then obtain i where i: "i < nasize" "arrayindex k = int (Suc i)" using assms(2) by (rule in_arrayD)
        then have "in_array (sizearray t) k \<longleftrightarrow> i < sizearray t" by (auto simp: in_array_def)
        with fresh(6) [of bits k] True none i lookup_array [OF assms(1), of k] show ?thesis
          by (auto simp: new_array_nth)
      next
        case False
        with fresh(6) [of bits k] none show ?thesis by simp
      qed
      with False o t'(3) show ?thesis by simp
    qed (simp add: o t'(3))
  qed
  with t' fresh(4,5) show ?thesis
    unfolding resize_eq [OF table_okD(7) [OF assms(1)]] Inr by (auto simp: size)
qed

section \<open>Inserting a key\<close>

text \<open>\<open>newkey\<close> succeeds, or the table has too many entries for a larger vector.\<close>

definition overflows :: "ltable \<Rightarrow> 'a tres \<Rightarrow> bool" where
  "overflows t r \<longleftrightarrow> r = Some (luaL_error ''table overflow'') \<and> 2 ^ MAXBITS \<le> length (all_keys t)"

definition placed :: "bits \<Rightarrow> tvalue \<Rightarrow> ltable \<Rightarrow> (slot \<times> ltable) tres \<Rightarrow> bool" where
  "placed bits k t r \<longleftrightarrow> (\<exists>p t'. r = Some (Inr (p, t')) \<and> table_ok bits t' \<and> luaH_get bits t' k = Some p
     \<and> lookup bits t' = lookup bits t)"

lemma inserted_placed: "inserted bits k t p t' \<Longrightarrow> placed bits k t (Some (Inr (p, t')))"
  by (simp add: inserted_def placed_def)

lemma table_ok_lastfree:
  assumes "table_ok bits t" and "t_dummy t \<or> (\<forall>i < sizenode t. key_at (t_node t) i \<noteq> TNil)"
  shows "table_ok bits (t\<lparr>lastfree := 0\<rparr>)" and "lookup bits (t\<lparr>lastfree := 0\<rparr>) = lookup bits t"
proof -
  have mp: "mainposition bits (t\<lparr>lastfree := 0\<rparr>) = mainposition bits t" by (rule mainposition_cong) simp
  show ok: "table_ok bits (t\<lparr>lastfree := 0\<rparr>)"
    using assms(2) table_okD [OF assms(1)] unfolding table_ok_def mp by auto
  show "lookup bits (t\<lparr>lastfree := 0\<rparr>) = lookup bits t"
    by (rule lookup_cong [OF assms(1) ok]) simp_all
qed

lemma rehash_insert:
  assumes "table_ok bits t" and "k \<noteq> TNil"
  shows "(case rehash_with (newkey_with nk bits) bits k t of
       None \<Rightarrow> False
     | Some (Inl e) \<Rightarrow> Inl e = (luaL_error ''table overflow'' :: lua_error + ltable) \<and> 2 ^ MAXBITS \<le> length (all_keys t)
     | Some (Inr t') \<Rightarrow> placed bits k t (luaH_set_with (newkey_with nk bits) bits k t'))"
proof -
  obtain na nh where sizes: "rehash_sizes k t = (na, nh)" by (cases "rehash_sizes k t")
  note spec = rehash_sizes_spec [OF table_okD(7) [OF assms(1)] sizes]
  have "length (filter (\<lambda>k. \<not> in_array na k) (all_keys t)) \<le> nh" unfolding spec(2) by simp
  with needs_items [of na t] have needs: "needs na (items na t) \<le> nh" by linarith
  from resize_spec [OF assms(1) spec(1) needs, of nk] show ?thesis
  proof (elim disjE exE conjE)
    assume "ceillog2 nh > MAXBITS" "nh \<noteq> 0"
      and r: "resize_with (newkey_with nk bits) bits na nh t = Some (luaL_error ''table overflow'')"
    then have "2 ^ MAXBITS < nh" using ceillog2_le [of nh MAXBITS] by linarith
    moreover have "nh \<le> length (all_keys t @ [k])" unfolding spec(2) by (rule length_filter_le)
    ultimately show ?thesis using r by (simp add: rehash_with_def sizes luaL_error_def)
  next
    fix t'
    assume r: "resize_with (newkey_with nk bits) bits na nh t = Some (Inr t')" and t': "table_ok bits t'"
      "lookup bits t' = lookup bits t" "sizearray t' = na" "t_dummy t' \<longleftrightarrow> nh = 0" "nh \<le> sizenode t'"
      "card (keyed (t_node t')) \<le> needs na (items na t)"
    have "in_array (sizearray t') k \<or> \<not> t_dummy t' \<and> card (keyed (t_node t')) < sizenode t'"
      using t'(3-6) needs_items [of na t] by (auto simp: spec(2))
    from luaH_set_room [OF t'(1) assms(2) this, of nk]
    obtain p t'' where "luaH_set_with (newkey_with nk bits) bits k t' = Some (Inr (p, t''))" "inserted bits k t' p t''" by blast
    with inserted_placed [of bits k t' p t''] t'(2) r show ?thesis by (simp add: rehash_with_def sizes placed_def)
  qed
qed

lemma newkey_total:
  assumes "table_ok bits t" and "luaH_get bits t k = None" and "k \<noteq> TNil"
  shows "overflows t (newkey_with (newkey_with nk bits) bits k t) \<or> placed bits k t (newkey_with (newkey_with nk bits) bits k t)"
proof (cases "t_dummy t \<or> sizenode t \<le> card (keyed (t_node t))")
  case False
  with assms have "insertable bits k t" "card (keyed (t_node t)) < sizenode t" by (simp_all add: insertable_def)
  from newkey_room [OF this, of "newkey_with nk bits"] show ?thesis by (auto dest: inserted_placed)
next
  case True
  note ok = table_okD [OF assms(1)]
  show ?thesis
  proof (cases "i_val (t_node t ! mainposition bits t k) \<noteq> TNil \<or> t_dummy t")
    case False
    with assms have "insertable bits k t" by (simp add: insertable_def)
    from newkey_free [OF this, of "newkey_with nk bits"] False show ?thesis by (auto dest: inserted_placed)
  next
    case taken: True
    have full: "t_dummy t \<or> (\<forall>i < sizenode t. key_at (t_node t) i \<noteq> TNil)"
    proof (cases "t_dummy t")
      case False
      then have "card {..<sizenode t} \<le> card (keyed (t_node t))" using True by simp
      moreover have "keyed (t_node t) \<subseteq> {..<sizenode t}" using ok(1) by (auto simp: keyed_def)
      ultimately have "keyed (t_node t) = {..<sizenode t}" by (intro card_seteq) simp_all
      then show ?thesis by (auto simp: keyed_def)
    qed simp
    obtain q l where g: "getfreepos (t_node t) (lastfree t) = (q, l)" by (cases "getfreepos (t_node t) (lastfree t)")
    have "q = None \<and> l = 0"
    proof (cases q)
      case None
      with g getfreepos_None show ?thesis by blast
    next
      case (Some n)
      with getfreepos_Some g have "n < lastfree t" "key_at (t_node t) n = TNil" by blast+
      with full ok(3,4) show ?thesis by (cases "t_dummy t") auto
    qed
    with g have g0: "getfreepos (t_node t) (lastfree t) = (None, 0)" by simp
    note free = table_ok_lastfree [OF assms(1) full]
    have "newkey_with (newkey_with nk bits) bits k t =
        (case rehash_with (newkey_with nk bits) bits k (t\<lparr>lastfree := 0\<rparr>) of
           None \<Rightarrow> None | Some (Inl e) \<Rightarrow> Some (Inl e)
         | Some (Inr t) \<Rightarrow> luaH_set_with (newkey_with nk bits) bits k t)"
      using taken by (simp add: newkey_with_def [of "newkey_with nk bits"] Let_def g0)
    with rehash_insert [OF free(1) assms(3), of nk] free(2) show ?thesis
      by (auto simp: overflows_def placed_def all_keys_def luaL_error_def split: option.splits sum.splits)
  qed
qed

lemma newkey_cases: "\<exists>nk. newkey f bits = newkey_with nk bits"
  by (cases f) auto

lemma luaH_set_total:
  assumes "table_ok bits t" and "k \<noteq> TNil"
  shows "overflows t (luaH_set (Suc f) bits k t) \<or> placed bits k t (luaH_set (Suc f) bits k t)"
proof (cases "luaH_get bits t k")
  case None
  obtain nk where nk: "newkey f bits = newkey_with nk bits" using newkey_cases by blast
  from newkey_total [OF assms(1) None assms(2), of nk] None assms(2) show ?thesis
    by (simp add: luaH_set_def luaH_set_with_def nk)
next
  case (Some p)
  with assms(1) show ?thesis by (auto simp: luaH_set_def luaH_set_with_def placed_def)
qed

end
