(* ===== verification/Lua_Traverse.thy ===== *)
theory Lua_Traverse
  imports Lua_Table_Spec
begin

text \<open>
  The properties of \<open>ltable.c\<close> its callers rely on: creation, reading after writing, traversal
  with \<open>luaH_next\<close>, and the border that \<open>luaH_getn\<close> returns.
\<close>

section \<open>Creation\<close>

lemma luaH_new_ok:
  assumes "luaH_new narray nhash = Inr t" and "narray \<le> MAXASIZE"
  shows "table_ok bits t" and "lookup bits t = (\<lambda>_. TNil)"
proof -
  let ?t = "setarrayvector narray \<lparr>t_array = [], t_node = [empty_node], lsizenode = 0, lastfree = 0, t_dummy = True\<rparr>"
  have new: "setnodevector nhash ?t = Inr t" using assms(1) by (simp add: luaH_new_def)
  have array: "t_array ?t = replicate narray TNil" by (simp add: setarrayvector_def)
  then have "sizearray ?t \<le> MAXASIZE" using assms(2) by simp
  note fresh = fresh_table [OF new this]
  show "table_ok bits t" by (rule fresh(1))
  show "lookup bits t = (\<lambda>_. TNil)"
  proof (rule ext)
    fix k
    show "lookup bits t k = TNil"
    proof (cases "in_array (sizearray ?t) k")
      case True
      then obtain i where "i < sizearray ?t" "arrayindex k = int (Suc i)"
        using \<open>sizearray ?t \<le> MAXASIZE\<close> by (rule in_arrayD)
      with fresh(6) [of bits k] True show ?thesis by (simp add: array)
    next
      case False
      with fresh(6) [of bits k] show ?thesis by simp
    qed
  qed
qed

section \<open>Traversal\<close>

text \<open>The entries in the order of \<open>luaH_next\<close>; those with value nil are skipped.\<close>

definition places :: "ltable \<Rightarrow> (tvalue \<times> tvalue) list" where
  "places t = map (\<lambda>i. (TNumber (real (Suc i)), t_array t ! i)) [0..<sizearray t]
     @ map (\<lambda>n. (i_key n, i_val n)) (t_node t)"

definition live :: "(tvalue \<times> tvalue) list \<Rightarrow> (tvalue \<times> tvalue) list" where
  "live kvs = filter (\<lambda>(k, v). v \<noteq> TNil) kvs"

definition first_live :: "(tvalue \<times> tvalue) list \<Rightarrow> (tvalue \<times> tvalue) option" where
  "first_live kvs = (case live kvs of [] \<Rightarrow> None | kv # _ \<Rightarrow> Some kv)"

lemma first_live_append: "first_live (xs @ ys) = (case first_live xs of None \<Rightarrow> first_live ys | Some kv \<Rightarrow> Some kv)"
  by (auto simp: first_live_def live_def split: list.splits)

lemma next_array_live: "next_array vs i = first_live (map (\<lambda>j. (TNumber (real (Suc (i + j))), vs ! j)) [0..<length vs])"
proof (induction vs arbitrary: i)
  case (Cons v vs)
  have "map (\<lambda>j. (TNumber (real (Suc (i + j))), (v # vs) ! j)) [0..<length (v # vs)] =
      (TNumber (real (Suc i)), v) # map (\<lambda>j. (TNumber (real (Suc (i + 1 + j))), vs ! j)) [0..<length vs]"
    unfolding map_upt_Suc [of _ "length vs", folded length_Cons [of v vs]] by simp
  with Cons.IH [of "i + 1"] show ?case by (simp add: first_live_def live_def)
qed (simp add: first_live_def live_def)

lemma next_node_live: "next_node ns = first_live (map (\<lambda>n. (i_key n, i_val n)) ns)"
  by (induction ns) (auto simp: first_live_def live_def)

lemma next_from:
  "(case next_array (drop i (t_array t)) i of Some kv \<Rightarrow> Some kv
    | None \<Rightarrow> next_node (drop (i - sizearray t) (t_node t))) = first_live (drop i (places t))"
proof -
  have "drop i (map (\<lambda>i. (TNumber (real (Suc i)), t_array t ! i)) [0..<sizearray t]) =
      map (\<lambda>j. (TNumber (real (Suc (i + j))), drop i (t_array t) ! j)) [0..<length (drop i (t_array t))]"
    by (rule nth_equalityI) auto
  moreover have "length (map (\<lambda>i. (TNumber (real (Suc i)), t_array t ! i)) [0..<sizearray t]) = sizearray t" by simp
  ultimately show ?thesis
    unfolding places_def drop_append first_live_append next_array_live next_node_live by (simp only: drop_map)
qed

text \<open>\<open>findindex\<close> of a key is the place after which the traversal goes on.\<close>

lemma findindex_place:
  assumes "table_ok bits t" and "p < length (places t)" and "places t ! p = (k, v)" and "v \<noteq> TNil"
  shows "findindex bits t k = Inr (int p)"
proof (cases "p < sizearray t")
  case True
  then have k: "k = TNumber (real (Suc p))" using assms(3) by (simp add: places_def nth_append)
  have "in_array (sizearray t) k" using True in_array_nat [OF table_okD(7) [OF assms(1)], of "Suc p"] k by simp
  then obtain i where "i < sizearray t" "k = TNumber (real (Suc i))" "arrayindex k = int (Suc i)"
    using table_okD(7) [OF assms(1)] by (rule in_arrayD)
  with k have "arrayindex k = int (Suc p)" by simp
  moreover have "k \<noteq> TNil" using k by simp
  ultimately show ?thesis using True by (simp add: findindex_def Let_def)
next
  case False
  define i where "i = p - sizearray t"
  have i: "i < sizenode t" "key_at (t_node t) i = k" "val_at (t_node t) i = v"
    using assms(2,3) False table_okD(1) [OF assms(1)] by (auto simp: places_def nth_append i_def)
  have nk: "k \<noteq> TNil" using nodes_okD(8) [OF table_okD(2) [OF assms(1)], of i] i assms(4) table_okD(1) [OF assms(1)] by simp
  have out: "\<not> in_array (sizearray t) k" using table_okD(6) [OF assms(1) i(1)] i(2) by simp
  have "chain_find (\<lambda>n. i_key n = k) (t_node t) (sizenode t) (mainposition bits t k) = Some i"
    using chain_find_node [OF table_okD(2) [OF assms(1)] nk, of "\<lambda>n. i_key n = k" i] i table_okD(1) [OF assms(1)] by simp
  with nk out show ?thesis using False by (simp add: findindex_def Let_def in_array_def i_def)
qed

lemma luaH_next_place:
  assumes "table_ok bits t" and "p < length (places t)" and "places t ! p = (k, v)" and "v \<noteq> TNil"
  shows "luaH_next bits t k = Inr (first_live (drop (Suc p) (places t)))"
proof -
  have "luaH_next bits t k = Inr (case next_array (drop (Suc p) (t_array t)) (Suc p) of Some kv \<Rightarrow> Some kv
      | None \<Rightarrow> next_node (drop (Suc p - sizearray t) (t_node t)))"
    by (simp add: luaH_next_def findindex_place [OF assms] nat_add_distrib split: option.split)
  then show ?thesis by (simp add: next_from)
qed

lemma luaH_next_start: "luaH_next bits t TNil = Inr (first_live (places t))"
proof -
  have "luaH_next bits t TNil = Inr (case next_array (drop 0 (t_array t)) 0 of Some kv \<Rightarrow> Some kv
      | None \<Rightarrow> next_node (drop (0 - sizearray t) (t_node t)))"
    by (simp add: luaH_next_def findindex_def split: option.split)
  then show ?thesis using next_from [of 0 t] by (simp only: drop_0)
qed

text \<open>
  The loop \<open>lua_pushnil (L); while (lua_next (L, 1)) \<dots>\<close> of \<open>foreach\<close> and \<open>maxn\<close>: the pairs it sees,
  with as much fuel as the table has places, and one.
\<close>

fun next_loop :: "bits \<Rightarrow> nat \<Rightarrow> ltable \<Rightarrow> tvalue \<Rightarrow> (lua_error + (tvalue \<times> tvalue) list) option" where
  "next_loop bits 0 t key = None"
| "next_loop bits (Suc f) t key =
     (case luaH_next bits t key of
        Inl e \<Rightarrow> Some (Inl e)
      | Inr None \<Rightarrow> Some (Inr [])
      | Inr (Some (k, v)) \<Rightarrow>
          (case next_loop bits f t k of
             None \<Rightarrow> None
           | Some (Inl e) \<Rightarrow> Some (Inl e)
           | Some (Inr kvs) \<Rightarrow> Some (Inr ((k, v) # kvs))))"

lemma first_live_split:
  assumes "first_live kvs = Some (k, v)"
  shows "\<exists>p < length kvs. kvs ! p = (k, v) \<and> v \<noteq> TNil \<and> live kvs = (k, v) # live (drop (Suc p) kvs)"
  using assms
proof (induction kvs)
  case (Cons kv kvs)
  show ?case
  proof (cases "snd kv = TNil")
    case True
    with Cons show ?thesis by (force simp: first_live_def live_def split_def)
  next
    case False
    with Cons.prems show ?thesis by (intro exI [of _ 0]) (auto simp: first_live_def live_def split_def)
  qed
qed (simp add: first_live_def live_def)

lemma next_loop_live:
  assumes "table_ok bits t" and "luaH_next bits t key = Inr (first_live (drop i (places t)))"
    and "length (places t) - i < f"
  shows "next_loop bits f t key = Some (Inr (live (drop i (places t))))"
  using assms(2,3)
proof (induction f arbitrary: i key)
  case (Suc f)
  show ?case
  proof (cases "first_live (drop i (places t))")
    case None
    then have "live (drop i (places t)) = []" by (auto simp: first_live_def split: list.splits)
    with Suc.prems(1) None show ?thesis by simp
  next
    case (Some kv)
    then obtain k v where kv: "first_live (drop i (places t)) = Some (k, v)" by (cases kv) simp
    from first_live_split [OF this] obtain p where p: "p < length (drop i (places t))" "drop i (places t) ! p = (k, v)"
      "v \<noteq> TNil" "live (drop i (places t)) = (k, v) # live (drop (Suc p) (drop i (places t)))" by blast
    then have place: "i + p < length (places t)" "places t ! (i + p) = (k, v)" by simp_all
    have "next_loop bits f t k = Some (Inr (live (drop (Suc (i + p)) (places t))))"
      by (rule Suc.IH) (use luaH_next_place [OF assms(1) place p(3)] Suc.prems(2) place in auto)
    with Suc.prems(1) kv p(4) show ?thesis by (simp add: add.commute)
  qed
qed simp

lemma places_live:
  assumes "table_ok bits t"
  shows "(k, v) \<in> set (live (places t)) \<longleftrightarrow> v \<noteq> TNil \<and> lookup bits t k = v"
    and "distinct (map fst (live (places t)))"
proof -
  have set: "set (places t) = set (items 0 t)" by (simp add: places_def items_def)
  have "(k, v) \<in> set (live (places t)) \<longleftrightarrow> (k, v) \<in> set (items 0 t) \<and> v \<noteq> TNil"
    by (auto simp: live_def set)
  moreover have "(k, v) \<in> set (items 0 t)" if "lookup bits t k = v" "v \<noteq> TNil"
  proof -
    have "\<not> in_array 0 k" by (simp add: in_array_def)
    with lookup_items [OF assms, of k 0] that obtain w where "(k, w) \<in> set (items 0 t)" "w \<noteq> TNil" by auto
    with items_lookup [OF assms this] that show ?thesis by simp
  qed
  ultimately show "(k, v) \<in> set (live (places t)) \<longleftrightarrow> v \<noteq> TNil \<and> lookup bits t k = v"
    using items_lookup [OF assms, of k v 0] by blast
  let ?A = "map (\<lambda>i. (TNumber (real (Suc i)), t_array t ! i)) [0..<sizearray t]"
  let ?H = "map (\<lambda>n. (i_key n, i_val n)) (t_node t)"
  have nodes: "distinct (map fst (live ?H))"
  proof -
    have "distinct (map (\<lambda>i. key_at (t_node t) i) (filter (\<lambda>i. val_at (t_node t) i \<noteq> TNil) [0..<length (t_node t)]))"
      using nodes_okD(7,8) [OF table_okD(2) [OF assms]] by (auto simp: distinct_map inj_on_def)
    moreover have "?H = map (\<lambda>i. (key_at (t_node t) i, val_at (t_node t) i)) [0..<length (t_node t)]"
      by (rule nth_equalityI) simp_all
    ultimately show ?thesis by (simp add: live_def filter_map o_def)
  qed
  have array: "distinct (map fst (live ?A))"
    by (auto simp: live_def filter_map o_def distinct_map inj_on_def)
  have "fst ` set (live ?A) \<inter> fst ` set (live ?H) = {}"
  proof -
    have "in_array (sizearray t) (fst kv)" if kv: "kv \<in> set ?A" for kv
    proof -
      from kv obtain i where "i < sizearray t" "fst kv = TNumber (real (Suc i))" by auto
      with in_array_nat [OF table_okD(7) [OF assms], of "Suc i"] show ?thesis by simp
    qed
    moreover have "\<not> in_array (sizearray t) (fst kv)" if kv: "kv \<in> set ?H" for kv
    proof -
      from kv obtain i where "i < length (t_node t)" "fst kv = key_at (t_node t) i" by (auto simp: in_set_conv_nth)
      with table_okD(6) [OF assms, of i] table_okD(1) [OF assms] show ?thesis by simp
    qed
    ultimately show ?thesis by (force simp: live_def)
  qed
  with nodes array show "distinct (map fst (live (places t)))"
    unfolding places_def live_def filter_append map_append distinct_append set_map by blast
qed

section \<open>Borders\<close>

text \<open>The value of an integer key; a border is a key \<open>n\<close> that is zero or present, with \<open>n + 1\<close> absent.\<close>

definition geti :: "bits \<Rightarrow> ltable \<Rightarrow> nat \<Rightarrow> tvalue" where
  "geti bits t n = lookup bits t (TNumber (real n))"

definition border :: "bits \<Rightarrow> ltable \<Rightarrow> nat \<Rightarrow> bool" where
  "border bits t n \<longleftrightarrow> (n = 0 \<or> geti bits t n \<noteq> TNil) \<and> geti bits t (Suc n) = TNil"

lemma getnum_get:
  assumes "- (2 ^ 31) \<le> k" and "k < 2 ^ 31"
  shows "luaH_getnum bits t k = luaH_get bits t (TNumber (of_int k))"
proof -
  have "number_int (of_int k) = Some k" using assms by (simp add: number_int_Some)
  then show ?thesis by simp
qed

lemma absent_geti: "n \<le> MAX_INT \<Longrightarrow> absent bits t n \<longleftrightarrow> geti bits t n = TNil"
  by (simp add: absent_def geti_def lookup_def getnum_get MAX_INT_def)

lemma geti_array:
  assumes "table_ok bits t" and "0 < n" and "n \<le> sizearray t"
  shows "geti bits t n = t_array t ! (n - 1)"
  using luaH_get_array [OF assms(1), of "n - 1"] assms(2,3) by (simp add: geti_def lookup_def value_at_def)

text \<open>Binary search between a place that is zero or present and one that is absent.\<close>

lemma binsearch_spec:
  assumes "i < j" and "ab j" and "i = 0 \<or> \<not> ab i"
  shows "(binsearch ab i j = 0 \<or> \<not> ab (binsearch ab i j)) \<and> ab (Suc (binsearch ab i j)) \<and> binsearch ab i j < j"
  using assms
proof (induction ab i j rule: binsearch.induct)
  case (1 ab i j)
  show ?case
  proof (cases "j - i > 1")
    case True
    define m where "m = (i + j) div 2"
    have m: "i < m" "m < j" using True by (auto simp: m_def)
    show ?thesis
    proof (cases "ab m")
      case ab: True
      from 1(1) [OF True m_def ab m(1) ab 1(5)] m(2) True ab show ?thesis
        by (simp add: binsearch.simps [of ab i j] m_def [symmetric])
    next
      case False
      from 1(2) [OF True m_def False m(2) 1(4)] True False show ?thesis
        by (simp add: binsearch.simps [of ab i j] m_def [symmetric])
    qed
  next
    case False
    with 1(3) have "j = Suc i" by simp
    with 1(4,5) show ?thesis by (simp add: binsearch.simps [of ab i "Suc i"])
  qed
qed

lemma doubling_spec:
  assumes "doubling ab i j = Some (i', j')" and "i < j" and "i = 0 \<or> \<not> ab i" and "j \<le> MAX_INT"
  shows "i' < j' \<and> j' \<le> MAX_INT \<and> ab j' \<and> (i' = 0 \<or> \<not> ab i')"
  using assms
proof (induction ab i j rule: doubling.induct)
  case (1 ab i j)
  show ?case
  proof (cases "\<not> ab j \<and> 0 < j")
    case True
    with 1(2) have small: "\<not> j * 2 > MAX_INT" "doubling ab j (j * 2) = Some (i', j')"
      by (auto simp: doubling.simps [of ab i j] split: if_splits)
    from 1(1) [OF True small] True small(1) show ?thesis by simp
  next
    case False
    with 1(2-5) show ?thesis by (auto simp: doubling.simps [of ab i j])
  qed
qed

lemma linsearch_spec:
  assumes "linsearch ab f i = Some n" and "0 < i" and "i = 1 \<or> \<not> ab (i - 1)"
  shows "(n = 0 \<or> \<not> ab n) \<and> ab (Suc n) \<and> n < i + f"
  using assms
proof (induction f arbitrary: i)
  case (Suc f)
  show ?case
  proof (cases "ab i")
    case True
    with Suc.prems show ?thesis by auto
  next
    case False
    with Suc.prems(1) have l: "linsearch ab f (i + 1) = Some n" by simp
    have "0 < i + 1" "i + 1 = 1 \<or> \<not> ab (i + 1 - 1)" using False by simp_all
    from Suc.IH [OF l this] show ?thesis by simp
  qed
qed simp

lemma linsearch_None: "linsearch ab f i = None \<Longrightarrow> \<forall>j. i \<le> j \<and> j < i + f \<longrightarrow> \<not> ab j"
proof (induction f arbitrary: i)
  case (Suc f)
  then have "\<not> ab i" "linsearch ab f (i + 1) = None" by (auto split: if_splits)
  with Suc.IH [of "i + 1"] show ?case
    by (metis Suc_eq_plus1 add_Suc_shift le_antisym not_less_eq_eq)
qed auto

text \<open>Among more numbers than a table has places one is absent.\<close>

lemma some_absent:
  assumes "table_ok bits t"
  shows "\<exists>n. 1 \<le> n \<and> n \<le> sizearray t + sizenode t + 1 \<and> geti bits t n = TNil"
proof (rule ccontr)
  assume "\<nexists>n. 1 \<le> n \<and> n \<le> sizearray t + sizenode t + 1 \<and> geti bits t n = TNil"
  then have all: "geti bits t n \<noteq> TNil" if "1 \<le> n" "n \<le> sizearray t + sizenode t + 1" for n using that by blast
  let ?K = "(\<lambda>n. TNumber (real n)) ` {1..sizearray t + sizenode t + 1}"
  have "?K \<subseteq> fst ` set (live (places t))"
  proof
    fix k assume "k \<in> ?K"
    then obtain n where n: "k = TNumber (real n)" "1 \<le> n" "n \<le> sizearray t + sizenode t + 1" by auto
    with all [of n] places_live(1) [OF assms, of k "geti bits t n"] show "k \<in> fst ` set (live (places t))"
      by (force simp: geti_def)
  qed
  then have "card ?K \<le> card (fst ` set (live (places t)))" by (intro card_mono) simp_all
  also have "\<dots> \<le> length (live (places t))" using card_image_le [of "set (live (places t))" fst] card_length [of "live (places t)"] by simp
  also have "\<dots> \<le> sizearray t + sizenode t"
    unfolding live_def using length_filter_le [of _ "places t"] table_okD(1) [OF assms] by (simp add: places_def)
  moreover have "card ?K = sizearray t + sizenode t + 1" by (subst card_image) (auto simp: inj_on_def)
  ultimately show False by simp
qed

lemma unbound_search_spec:
  assumes "table_ok bits t" and "j \<le> MAXASIZE" and "j = 0 \<or> geti bits t j \<noteq> TNil"
  shows "\<exists>n. unbound_search bits t j = Some n \<and> border bits t n \<and> n < MAX_INT"
proof (cases "doubling (absent bits t) j (j + 1)")
  case (Some ij)
  then obtain i' j' where ij: "doubling (absent bits t) j (j + 1) = Some (i', j')" by (cases ij) simp
  have j: "j < j + 1" "j + 1 \<le> MAX_INT" using assms(2) by (simp_all add: MAX_INT_def MAXASIZE_def MAXBITS_def)
  have "j = 0 \<or> \<not> absent bits t j" using assms(3) j absent_geti by simp
  from doubling_spec [OF ij j(1) this j(2)]
  have d: "i' < j'" "j' \<le> MAX_INT" "absent bits t j'" "i' = 0 \<or> \<not> absent bits t i'" by simp_all
  from binsearch_spec [OF d(1,3,4)] d(2) absent_geti [of "binsearch (absent bits t) i' j'"]
    absent_geti [of "Suc (binsearch (absent bits t) i' j')"]
  show ?thesis unfolding unbound_search_def ij border_def by simp
next
  case None
  let ?f = "sizearray t + sizenode t + 1"
  have "(2::nat) ^ lsizenode t \<le> 2 ^ MAXBITS" using table_okD(8) [OF assms(1)] by (intro power_increasing) simp_all
  then have f: "Suc ?f \<le> MAX_INT" using table_okD(7) [OF assms(1)] by (simp add: MAX_INT_def MAXASIZE_def MAXBITS_def)
  have "linsearch (absent bits t) ?f 1 \<noteq> None"
  proof
    assume "linsearch (absent bits t) ?f 1 = None"
    from linsearch_None [OF this] some_absent [OF assms(1)] absent_geti f show False by force
  qed
  then obtain n where n: "linsearch (absent bits t) ?f 1 = Some n" by blast
  from linsearch_spec [OF n] f absent_geti [of n bits t] absent_geti [of "Suc n" bits t]
  show ?thesis unfolding unbound_search_def None border_def by (simp add: n [simplified])
qed

lemma luaH_getn_spec:
  assumes "table_ok bits t"
  shows "\<exists>n. luaH_getn bits t = Some n \<and> border bits t n \<and> n < MAX_INT"
proof -
  have small: "sizearray t < MAX_INT"
    using table_okD(7) [OF assms] by (simp add: MAX_INT_def MAXASIZE_def MAXBITS_def)
  show ?thesis
  proof (cases "sizearray t > 0 \<and> t_array t ! (sizearray t - 1) = TNil")
    case True
    let ?ab = "\<lambda>m. t_array t ! (m - 1) = TNil"
    have s: "0 < sizearray t" "?ab (sizearray t)" using True by simp_all
    from binsearch_spec [of 0 "sizearray t" ?ab, OF s] geti_array [OF assms, of "binsearch ?ab 0 (sizearray t)"]
      geti_array [OF assms, of "Suc (binsearch ?ab 0 (sizearray t))"]
    have "border bits t (binsearch ?ab 0 (sizearray t))" by (auto simp: border_def)
    moreover have "binsearch ?ab 0 (sizearray t) < MAX_INT"
      using binsearch_spec [of 0 "sizearray t" ?ab, OF s] small by simp
    ultimately show ?thesis using True by (simp add: luaH_getn_def Let_def)
  next
    case False
    have j: "sizearray t = 0 \<or> geti bits t (sizearray t) \<noteq> TNil"
      using False geti_array [OF assms, of "sizearray t"] by auto
    show ?thesis
    proof (cases "t_dummy t")
      case True
      have "\<not> in_array (sizearray t) (TNumber (real (Suc (sizearray t))))"
        using in_array_nat [OF table_okD(7) [OF assms], of "Suc (sizearray t)"] by simp
      moreover have "ent (t_node t) = {}" using table_okD(3) [OF assms True] ent_empty [of 1] by simp
      ultimately have "geti bits t (Suc (sizearray t)) = TNil"
        using lookup_ent [OF assms, of "TNumber (real (Suc (sizearray t)))" "geti bits t (Suc (sizearray t))"]
        by (auto simp: geti_def)
      with j True False small show ?thesis by (auto simp: luaH_getn_def Let_def border_def)
    next
      case no: False
      from unbound_search_spec [OF assms table_okD(7) [OF assms] j] no False show ?thesis
        by (auto simp: luaH_getn_def Let_def)
    qed
  qed
qed

end
