(* ===== verification/Lua_Rawtable.thy ===== *)
theory Lua_Rawtable
  imports Lua_Traverse
begin

text \<open>
  Raw access to tables as \<open>lapi.c\<close> offers it to the libraries (\<open>lua_rawget\<close>, \<open>lua_rawset\<close>,
  \<open>lua_rawgeti\<close>, \<open>lua_rawseti\<close>, \<open>lua_objlen\<close>), and the contract \<open>raw_array\<close> that the table library
  relies on. The key and the value are arguments where the C code takes them off the stack.
\<close>

section \<open>Results of operations that may fail\<close>

fun bindT :: "'a tres \<Rightarrow> ('a \<Rightarrow> 'b tres) \<Rightarrow> 'b tres" where
  "bindT None f = None"
| "bindT (Some (Inl e)) f = Some (Inl e)"
| "bindT (Some (Inr a)) f = f a"

lemma bindT_cong [fundef_cong]:
  "m = m' \<Longrightarrow> (\<And>a. m' = Some (Inr a) \<Longrightarrow> f a = g a) \<Longrightarrow> bindT m f = bindT m' g"
  by (cases m'; simp) (rename_tac r, case_tac r, auto)

section \<open>The operations\<close>

definition lua_rawget :: "bits \<Rightarrow> tvalue \<Rightarrow> ltable \<Rightarrow> tvalue" where
  "lua_rawget bits k t = value_at t (luaH_get bits t k)"

definition lua_rawset :: "bits \<Rightarrow> tvalue \<Rightarrow> tvalue \<Rightarrow> ltable \<Rightarrow> ltable tres" where
  "lua_rawset bits k v t = bindT (luaH_set 1 bits k t) (\<lambda>(p, t). Some (Inr (slot_put p v t)))"

definition lua_rawgeti :: "bits \<Rightarrow> ltable \<Rightarrow> int \<Rightarrow> tvalue" where
  "lua_rawgeti bits t n = value_at t (luaH_getnum bits t n)"

definition lua_rawseti :: "bits \<Rightarrow> int \<Rightarrow> tvalue \<Rightarrow> ltable \<Rightarrow> ltable tres" where
  "lua_rawseti bits n v t = bindT (luaH_setnum 1 bits n t) (\<lambda>(p, t). Some (Inr (slot_put p v t)))"

section \<open>Reading after writing\<close>

lemma rawset_spec:
  assumes "table_ok bits t" and "k \<noteq> TNil"
  shows "overflows t (lua_rawset bits k v t)
    \<or> (\<exists>t'. lua_rawset bits k v t = Some (Inr t') \<and> table_ok bits t' \<and> lookup bits t' = (lookup bits t)(k := v))"
proof -
  from luaH_set_total [OF assms, of 0]
  consider "overflows t (luaH_set 1 bits k t)" | "placed bits k t (luaH_set 1 bits k t)" by auto
  then show ?thesis
  proof cases
    case 1
    then show ?thesis by (simp add: overflows_def lua_rawset_def luaL_error_def)
  next
    case 2
    then obtain p t1 where t1: "luaH_set 1 bits k t = Some (Inr (p, t1))" "table_ok bits t1"
      "luaH_get bits t1 k = Some p" "lookup bits t1 = lookup bits t" by (auto simp: placed_def)
    from slot_put_ok [OF t1(2,3), of v] t1(1,4) show ?thesis by (simp add: lua_rawset_def)
  qed
qed

lemma rawseti_rawset:
  assumes "- (2 ^ 31) \<le> n" and "n < 2 ^ 31"
  shows "lua_rawseti bits n v t = lua_rawset bits (TNumber (of_int n)) v t"
  using setnum_set [OF assms, of "newkey 1 bits" bits t]
  by (simp add: lua_rawseti_def lua_rawset_def luaH_setnum_def luaH_set_def)

lemma rawgeti_lookup:
  assumes "- (2 ^ 31) \<le> n" and "n < 2 ^ 31"
  shows "lua_rawgeti bits t n = lookup bits t (TNumber (of_int n))"
  by (simp add: lua_rawgeti_def lookup_def getnum_get [OF assms])

section \<open>The contract of the table library\<close>

text \<open>Indices are C integers.\<close>

definition c_int :: "int \<Rightarrow> bool" where
  "c_int i \<longleftrightarrow> - (2 ^ 31) \<le> i \<and> i < 2 ^ 31"

definition overflow :: "'a tres" where
  "overflow = Some (luaL_error ''table overflow'')"

locale raw_array =
  fixes ok :: "'t \<Rightarrow> bool" and geti :: "'t \<Rightarrow> int \<Rightarrow> tvalue" and seti :: "int \<Rightarrow> tvalue \<Rightarrow> 't \<Rightarrow> 't tres"
  assumes seti_total: "ok t \<Longrightarrow> c_int i \<Longrightarrow> seti i v t = overflow \<or> (\<exists>t'. seti i v t = Some (Inr t'))"
    and seti_ok: "ok t \<Longrightarrow> c_int i \<Longrightarrow> seti i v t = Some (Inr t') \<Longrightarrow> ok t'"
    and seti_geti: "ok t \<Longrightarrow> c_int i \<Longrightarrow> c_int j \<Longrightarrow> seti i v t = Some (Inr t') \<Longrightarrow>
      geti t' j = (if j = i then v else geti t j)"
begin

lemma seti_cases:
  assumes "ok t" and "c_int i"
  obtains "seti i v t = overflow"
  | t' where "seti i v t = Some (Inr t')" "ok t'" "\<And>j. c_int j \<Longrightarrow> geti t' j = (if j = i then v else geti t j)"
  using seti_total [OF assms, of v] seti_ok [OF assms] seti_geti [OF assms] by blast

end

interpretation lua_array: raw_array "table_ok bits" "lua_rawgeti bits" "lua_rawseti bits" for bits
proof
  fix t i v
  assume t: "table_ok bits t" and i: "c_int i"
  then have set: "lua_rawseti bits i v t = lua_rawset bits (TNumber (of_int i)) v t"
    by (simp add: rawseti_rawset c_int_def)
  note spec = rawset_spec [OF t, of "TNumber (of_int i)" v]
  show "lua_rawseti bits i v t = overflow \<or> (\<exists>t'. lua_rawseti bits i v t = Some (Inr t'))"
    using spec by (auto simp: set overflows_def overflow_def)
  show "table_ok bits t'" if "lua_rawseti bits i v t = Some (Inr t')" for t'
    using spec that by (auto simp: set overflows_def luaL_error_def)
  show "lua_rawgeti bits t' j = (if j = i then v else lua_rawgeti bits t j)"
    if j: "c_int j" and t': "lua_rawseti bits i v t = Some (Inr t')" for t' j
    using spec t' j by (auto simp: set overflows_def luaL_error_def rawgeti_lookup c_int_def)
qed

section \<open>The properties of tables\<close>

text \<open>
  C1. \<open>lua_rawset\<close> (through \<open>luaH_set\<close>, \<open>newkey\<close>, \<open>rehash\<close> and \<open>resize\<close>) on a proper table either
  stores the value, leaving a proper table that maps the key to the value and every other key to
  what it did, or raises \<open>table overflow\<close>, and that only on a table with at least \<open>2 ^ 26\<close> entries.
\<close>

theorem table_set_refines_update:
  assumes "table_ok bits t" and "k \<noteq> TNil"
  shows "(lua_rawset bits k v t = Some (luaL_error ''table overflow'') \<and> 2 ^ MAXBITS \<le> length (all_keys t))
    \<or> (\<exists>t'. lua_rawset bits k v t = Some (Inr t') \<and> table_ok bits t'
         \<and> (\<forall>k'. lua_rawget bits k' t' = (if k' = k then v else lua_rawget bits k' t)))"
  using rawset_spec [OF assms, of v] by (auto simp: overflows_def lookup_def lua_rawget_def fun_eq_iff)

text \<open>Tables to apply the properties to: a new one, and one with an array part only.\<close>

definition array_table :: "tvalue list \<Rightarrow> ltable" where
  "array_table vs = \<lparr>t_array = vs, t_node = [empty_node], lsizenode = 0, lastfree = 0, t_dummy = True\<rparr>"

lemma array_table_ok:
  assumes "length vs \<le> MAXASIZE"
  shows "table_ok bits (array_table vs)"
proof -
  have "setnodevector 0 (array_table vs) = Inr (array_table vs)" by (simp add: setnodevector_def array_table_def)
  from fresh_table(1) [OF this] assms show ?thesis by (simp add: array_table_def)
qed

lemma array_table_geti:
  assumes "1 \<le> k" and "k \<le> int (length vs)" and "length vs \<le> MAXASIZE"
  shows "lua_rawgeti bits (array_table vs) k = vs ! nat (k - 1)"
  using assms by (simp add: lua_rawgeti_def luaH_getnum_def array_table_def value_at_def MAXASIZE_def MAXBITS_def)

lemma array_table_getn: "vs \<noteq> [] \<Longrightarrow> last vs \<noteq> TNil \<Longrightarrow> luaH_getn bits (array_table vs) = Some (length vs)"
  by (simp add: luaH_getn_def array_table_def last_conv_nth)

definition new_table :: ltable where
  "new_table = \<lparr>t_array = [TNil, TNil], t_node = [empty_node], lsizenode = 0, lastfree = 0, t_dummy = True\<rparr>"

lemma new_table_ok: "luaH_new 2 0 = Inr new_table" "table_ok bits new_table"
proof -
  show new: "luaH_new 2 0 = Inr new_table"
    by (simp add: luaH_new_def setarrayvector_def setnodevector_def new_table_def numeral_2_eq_2)
  show "table_ok bits new_table"
    by (rule luaH_new_ok(1) [OF new]) (simp add: MAXASIZE_def MAXBITS_def)
qed

lemma new_table_keys: "all_keys new_table = []"
  by (simp add: all_keys_def array_keys_def present_def node_keys_def new_table_def empty_node_def numeral_2_eq_2)

theorem table_set_refines_update_witness:
  "\<exists>t'. lua_rawset (\<lambda>_. []) (TBool True) (TNumber 7) new_table = Some (Inr t') \<and> table_ok (\<lambda>_. []) t'
     \<and> lua_rawget (\<lambda>_. []) (TBool True) t' = TNumber 7"
  using table_set_refines_update [OF new_table_ok(2), of "TBool True" "\<lambda>_. []" "TNumber 7"]
  by (auto simp: new_table_keys MAXBITS_def)

text \<open>
  \<open>luaH_set\<close> terminates on every proper table and every key: one level of the recursion
  \<open>newkey\<close> -- \<open>rehash\<close> -- \<open>resize\<close> -- \<open>luaH_set\<close> -- \<open>newkey\<close> is enough (the entries that are put back
  never find the new vector full), and the search for the previous node of a chain finds it.
\<close>

theorem newkey_terminates:
  assumes "table_ok bits t"
  shows "\<exists>r. luaH_set 1 bits k t = Some r"
proof (cases "k = TNil")
  case True
  then show ?thesis by (simp add: luaH_set_def luaH_set_with_def)
next
  case False
  from luaH_set_total [OF assms False, of 0] show ?thesis by (auto simp: overflows_def placed_def)
qed

theorem newkey_terminates_witness: "\<exists>r. luaH_set 1 (\<lambda>_. []) (TNumber 7) new_table = Some r"
  by (rule newkey_terminates [OF new_table_ok(2)])

text \<open>
  C13. The loop \<open>lua_pushnil (L); while (lua_next (L, idx))\<close> over a proper table ends, and sees every
  key with a value that is not nil, with its value, exactly once.
\<close>

theorem next_enumerates:
  assumes "table_ok bits t"
  shows "\<exists>kvs. next_loop bits (sizearray t + sizenode t + 1) t TNil = Some (Inr kvs)
    \<and> distinct (map fst kvs) \<and> (\<forall>k v. (k, v) \<in> set kvs \<longleftrightarrow> v \<noteq> TNil \<and> lua_rawget bits k t = v)"
proof -
  have "length (places t) - 0 < sizearray t + sizenode t + 1"
    using table_okD(1) [OF assms] by (simp add: places_def)
  from next_loop_live [OF assms _ this, of TNil] luaH_next_start [of bits t]
  have "next_loop bits (sizearray t + sizenode t + 1) t TNil = Some (Inr (live (places t)))" by simp
  with places_live [OF assms] show ?thesis by (simp add: lookup_def lua_rawget_def)
qed

theorem next_enumerates_witness: "\<exists>kvs. next_loop (\<lambda>_. []) (sizearray new_table + sizenode new_table + 1) new_table TNil = Some (Inr kvs)"
  using next_enumerates [OF new_table_ok(2)] by blast

text \<open>
  C29. \<open>luaH_getn\<close> (the length operator) ends, and returns a border of the table: zero or an index
  with a value, such that the next index has none.
\<close>

theorem getn_is_a_border:
  assumes "table_ok bits t"
  shows "\<exists>n. luaH_getn bits t = Some n \<and> (n = 0 \<or> lua_rawget bits (TNumber (real n)) t \<noteq> TNil)
    \<and> lua_rawget bits (TNumber (real (n + 1))) t = TNil"
  using luaH_getn_spec [OF assms] by (auto simp: border_def geti_def lookup_def lua_rawget_def)

theorem getn_is_a_border_witness:
  "luaH_getn (\<lambda>_. []) new_table = Some 0 \<and> lua_rawget (\<lambda>_. []) (TNumber 1) new_table = TNil"
proof -
  have "luaH_getn (\<lambda>_. []) new_table = Some 0"
    by (simp add: luaH_getn_def new_table_def binsearch.simps)
  with getn_is_a_border [OF new_table_ok(2), of "\<lambda>_. []"] show ?thesis by simp
qed

lemma all_keys_places: "all_keys t = map fst (live (places t))"
  by (simp add: all_keys_def array_keys_def present_def node_keys_def places_def live_def filter_map o_def)

text \<open>
  C28. The sizes \<open>rehash\<close> chooses: the array part is empty or a power of two of which more than half
  will be in use, it is the largest such power (up to \<open>2 ^ MAXBITS\<close>), and the hash part gets exactly
  as many nodes as there are keys left, the new one included.
\<close>

theorem rehash_sizes_optimal:
  assumes "table_ok bits t" and "luaH_get bits t k = None" and "rehash_sizes k t = (nasize, nhsize)"
  shows "(nasize = 0 \<or> (\<exists>j. nasize = 2 ^ j) \<and> nasize div 2 < count_upto (all_keys t @ [k]) nasize)
    \<and> (\<forall>j. j \<le> MAXBITS \<and> 2 ^ j div 2 < count_upto (all_keys t @ [k]) (2 ^ j) \<longrightarrow> 2 ^ j \<le> nasize)
    \<and> nhsize + count_upto (all_keys t @ [k]) nasize = length (all_keys t) + 1"
proof -
  note spec = rehash_sizes_spec [OF table_okD(7) [OF assms(1)] assms(3)]
  have "lookup bits t k = TNil" by (simp add: lookup_def assms(2) value_at_def)
  then have "(k, v) \<notin> set (live (places t))" for v using places_live(1) [OF assms(1), of k v] by auto
  then have "k \<notin> set (all_keys t)" by (force simp: all_keys_places)
  then have d: "distinct (all_keys t @ [k])" using places_live(2) [OF assms(1)] by (simp add: all_keys_places)
  have total: "count_upto (all_keys t @ [k]) nasize + nhsize = length (all_keys t @ [k])"
    unfolding count_upto_def spec(2) by (rule sum_length_filter_compl)
  show ?thesis
  proof (intro conjI allI impI)
    show "nasize = 0 \<or> (\<exists>j. nasize = 2 ^ j) \<and> nasize div 2 < count_upto (all_keys t @ [k]) nasize" by (rule spec(3))
    show "2 ^ j \<le> nasize" if "j \<le> MAXBITS \<and> 2 ^ j div 2 < count_upto (all_keys t @ [k]) (2 ^ j)" for j
      using spec(4) [OF d] that by blast
    show "nhsize + count_upto (all_keys t @ [k]) nasize = length (all_keys t) + 1" using total by simp
  qed
qed

theorem rehash_sizes_optimal_witness:
  "snd (rehash_sizes (TBool True) new_table) = 1 \<and> fst (rehash_sizes (TBool True) new_table) = 0"
proof -
  have none: "luaH_get (\<lambda>_. []) new_table (TBool True) = None"
    using luaH_get_None [OF new_table_ok(2), of "TBool True" "\<lambda>_. []"]
    by (simp add: in_array_def new_table_def empty_node_def)
  have count: "count_upto [TBool True] n = 0" for n by (simp add: count_upto_def in_array_def)
  from rehash_sizes_optimal [OF new_table_ok(2) none prod.collapse [symmetric]] count show ?thesis
    by (simp add: new_table_keys)
qed

end
