(* ===== verification/Lua_Sort.thy ===== *)
theory Lua_Sort
  imports Lua_Rawtable "HOL-Library.Multiset"
begin

text \<open>
  The quicksort of \<open>ltablib.c\<close>. It works on any raw array: \<open>g\<close> is \<open>lua_rawgeti\<close> and \<open>s\<close>
  is \<open>lua_rawseti\<close>. The comparison is the parameter \<open>cmp\<close>: a Lua function, or \<open>lua_lessthan\<close>; it may
  raise an error, and does not change the table.
\<close>

section \<open>The code\<close>

type_synonym comparison = "tvalue \<Rightarrow> tvalue \<Rightarrow> lua_error + bool"

type_synonym 't getter = "'t \<Rightarrow> int \<Rightarrow> tvalue"
type_synonym 't setter = "int \<Rightarrow> tvalue \<Rightarrow> 't \<Rightarrow> 't tres"

text \<open>The value \<open>w\<close> on top of the stack goes to \<open>i\<close>, the one below it, \<open>v\<close>, to \<open>j\<close>.\<close>

definition set2 :: "'t setter \<Rightarrow> int \<Rightarrow> int \<Rightarrow> tvalue \<Rightarrow> tvalue \<Rightarrow> 't \<Rightarrow> 't tres" where
  "set2 s i j v w t = bindT (s i w t) (\<lambda>t. s j v t)"

definition sort_ends :: "'t getter \<Rightarrow> 't setter \<Rightarrow> comparison \<Rightarrow> int \<Rightarrow> int \<Rightarrow> 't \<Rightarrow> 't tres" where
  "sort_ends g s cmp l u t =
     bindT (Some (cmp (g t u) (g t l))) (\<lambda>lt.
       if lt then set2 s l u (g t l) (g t u) t else Some (Inr t))"

definition sort_middle :: "'t getter \<Rightarrow> 't setter \<Rightarrow> comparison \<Rightarrow> int \<Rightarrow> int \<Rightarrow> int \<Rightarrow> 't \<Rightarrow> 't tres" where
  "sort_middle g s cmp l i u t =
     bindT (Some (cmp (g t i) (g t l))) (\<lambda>lt.
       if lt then set2 s i l (g t i) (g t l) t
       else bindT (Some (cmp (g t u) (g t i))) (\<lambda>lt.
         if lt then set2 s i u (g t i) (g t u) t else Some (Inr t)))"

definition invalid_order :: "lua_error + 'a" where
  "invalid_order = luaL_error ''invalid order function for sorting''"

text \<open>\<open>while (lua_rawgeti (L, 1, ++i), sort_comp (L, -1, -2))\<close>, and the same downwards.\<close>

function scan_up :: "(int \<Rightarrow> tvalue) \<Rightarrow> comparison \<Rightarrow> tvalue \<Rightarrow> int \<Rightarrow> int \<Rightarrow> lua_error + int" where
  "scan_up a cmp P u i =
     (case cmp (a (i + 1)) P of
        Inl e \<Rightarrow> Inl e
      | Inr lt \<Rightarrow>
          if lt then (if i + 1 > u then invalid_order else scan_up a cmp P u (i + 1)) else Inr (i + 1))"
  by pat_completeness auto
termination
  by (relation "measure (\<lambda>(a, cmp, P, u, i). nat (u + 1 - i))") auto

function scan_down :: "(int \<Rightarrow> tvalue) \<Rightarrow> comparison \<Rightarrow> tvalue \<Rightarrow> int \<Rightarrow> int \<Rightarrow> lua_error + int" where
  "scan_down a cmp P l j =
     (case cmp P (a (j - 1)) of
        Inl e \<Rightarrow> Inl e
      | Inr lt \<Rightarrow>
          if lt then (if j - 1 < l then invalid_order else scan_down a cmp P l (j - 1)) else Inr (j - 1))"
  by pat_completeness auto
termination
  by (relation "measure (\<lambda>(a, cmp, P, l, j). nat (j + 1 - l))") auto

declare scan_up.simps [simp del] scan_down.simps [simp del]

lemma scan_up_step:
  "scan_up a cmp P u i = Inr i' \<longleftrightarrow>
     cmp (a (i + 1)) P = Inr False \<and> i' = i + 1
   \<or> cmp (a (i + 1)) P = Inr True \<and> i + 1 \<le> u \<and> scan_up a cmp P u (i + 1) = Inr i'"
  by (subst scan_up.simps) (auto simp: invalid_order_def luaL_error_def split: sum.split)

lemma scan_down_step:
  "scan_down a cmp P l j = Inr j' \<longleftrightarrow>
     cmp P (a (j - 1)) = Inr False \<and> j' = j - 1
   \<or> cmp P (a (j - 1)) = Inr True \<and> l \<le> j - 1 \<and> scan_down a cmp P l (j - 1) = Inr j'"
  by (subst scan_down.simps) (auto simp: invalid_order_def luaL_error_def split: sum.split)

lemma scan_up_gt: "scan_up a cmp P u i = Inr i' \<Longrightarrow> i < i'"
proof (induction a cmp P u i rule: scan_up.induct)
  case (1 a cmp P u i)
  from iffD1 [OF scan_up_step 1(2)] show ?case
  proof (elim disjE conjE)
    assume "cmp (a (i + 1)) P = Inr True" "i + 1 \<le> u" "scan_up a cmp P u (i + 1) = Inr i'"
    from 1(1) [OF this(1) _ _ this(3)] this(2) show ?thesis by simp
  qed simp
qed

lemma scan_down_less: "scan_down a cmp P l j = Inr j' \<Longrightarrow> j' < j"
proof (induction a cmp P l j rule: scan_down.induct)
  case (1 a cmp P l j)
  from iffD1 [OF scan_down_step 1(2)] show ?case
  proof (elim disjE conjE)
    assume "cmp P (a (j - 1)) = Inr True" "l \<le> j - 1" "scan_down a cmp P l (j - 1) = Inr j'"
    from 1(1) [OF this(1) _ _ this(3)] this(2) show ?thesis by simp
  qed simp
qed

text \<open>The loop \<open>for (;;)\<close> of the partition; the result is \<open>i\<close> where it breaks.\<close>

function partition_loop :: "'t getter \<Rightarrow> 't setter \<Rightarrow> comparison \<Rightarrow> tvalue \<Rightarrow> int \<Rightarrow> int \<Rightarrow> int \<Rightarrow> int \<Rightarrow> 't \<Rightarrow> (int \<times> 't) tres" where
  "partition_loop g s cmp P l u i j t =
     bindT (Some (scan_up (g t) cmp P u i)) (\<lambda>i'.
     bindT (Some (scan_down (g t) cmp P l j)) (\<lambda>j'.
       if j' < i' then Some (Inr (i', t))
       else bindT (set2 s i' j' (g t i') (g t j') t) (\<lambda>t. partition_loop g s cmp P l u i' j' t)))"
  by pat_completeness auto
termination
proof (relation "measure (\<lambda>(g, s, cmp, P, l, u, i, j, t). nat (j - i))", goal_cases)
  case (2 g s cmp P l u i j t i' j' t')
  from 2(1,2) have "i < i'" "j' < j" by (auto dest: scan_up_gt scan_down_less)
  with 2(3) show ?case by simp
qed simp

declare partition_loop.simps [simp del]

fun auxsort :: "nat \<Rightarrow> 't getter \<Rightarrow> 't setter \<Rightarrow> comparison \<Rightarrow> int \<Rightarrow> int \<Rightarrow> 't \<Rightarrow> 't tres" where
  "auxsort 0 g s cmp l u t = None"
| "auxsort (Suc f) g s cmp l u t =
     (if l < u then
        bindT (sort_ends g s cmp l u t) (\<lambda>t.
        if u - l = 1 then Some (Inr t)
        else let i = (l + u) div 2 in
        bindT (sort_middle g s cmp l i u t) (\<lambda>t.
        if u - l = 2 then Some (Inr t)
        else let P = g t i in
        bindT (set2 s i (u - 1) P (g t (u - 1)) t) (\<lambda>t.
        bindT (partition_loop g s cmp P l u l (u - 1) t) (\<lambda>(i, t).
        bindT (set2 s (u - 1) i (g t (u - 1)) (g t i) t) (\<lambda>t.
        if i - l < u - i
        then bindT (auxsort f g s cmp l (i - 1) t) (\<lambda>t. auxsort f g s cmp (i + 1) u t)
        else bindT (auxsort f g s cmp (i + 1) u t) (\<lambda>t. auxsort f g s cmp l (i - 1) t))))))
      else Some (Inr t))"

text \<open>\<open>table.sort\<close>: the whole array, up to the border that \<open>aux_getn (L, 1)\<close> finds.\<close>

definition table_sort :: "bits \<Rightarrow> comparison \<Rightarrow> ltable \<Rightarrow> ltable tres" where
  "table_sort bits cmp t =
     (case luaH_getn bits t of
        None \<Rightarrow> None
      | Some n \<Rightarrow> auxsort (n + 1) (lua_rawgeti bits) (lua_rawseti bits) cmp 1 (int n) t)"

section \<open>Ranges\<close>

text \<open>Two arrays that agree outside a range and have the same values in it.\<close>

definition permuted :: "int \<Rightarrow> int \<Rightarrow> (int \<Rightarrow> tvalue) \<Rightarrow> (int \<Rightarrow> tvalue) \<Rightarrow> bool" where
  "permuted l u a b \<longleftrightarrow> (\<forall>k. c_int k \<longrightarrow> k \<notin> {l..u} \<longrightarrow> b k = a k)
     \<and> image_mset b (mset_set {l..u}) = image_mset a (mset_set {l..u})"

lemma permuted_refl [simp]: "permuted l u a a"
  by (simp add: permuted_def)

lemma permuted_trans: "permuted l u a b \<Longrightarrow> permuted l u b c \<Longrightarrow> permuted l u a c"
  by (simp add: permuted_def)

lemma permuted_set: "permuted l u a b \<Longrightarrow> b ` {l..u} = a ` {l..u}"
proof -
  assume "permuted l u a b"
  then have "set_mset (image_mset b (mset_set {l..u})) = set_mset (image_mset a (mset_set {l..u}))"
    by (simp add: permuted_def)
  then show ?thesis by simp
qed

lemma permuted_sub:
  assumes "permuted l' u' a b" and "l \<le> l'" and "u' \<le> u" and "\<And>k. k \<in> {l..u} \<Longrightarrow> c_int k"
  shows "permuted l u a b"
proof (cases "l' \<le> u'")
  case True
  have split: "mset_set {l..u} = mset_set {l'..u'} + mset_set ({l..u} - {l'..u'})"
    using mset_set_Union [of "{l'..u'}" "{l..u} - {l'..u'}"] assms(2,3) by (simp add: Un_absorb1 Int_absorb1)
  have "b k = a k" if "k \<in> {l..u} - {l'..u'}" for k using that assms(1,4) by (auto simp: permuted_def)
  then have "image_mset b (mset_set ({l..u} - {l'..u'})) = image_mset a (mset_set ({l..u} - {l'..u'}))"
    by (intro image_mset_cong) simp
  with assms show ?thesis by (auto simp: permuted_def split)
next
  case False
  then have "b k = a k" if "c_int k" for k using assms(1) that by (auto simp: permuted_def)
  moreover have "image_mset b (mset_set {l..u}) = image_mset a (mset_set {l..u})"
    using calculation assms(4) by (intro image_mset_cong) simp
  ultimately show ?thesis by (simp add: permuted_def)
qed

lemma permuted_swap:
  assumes "i \<in> {l..u}" and "j \<in> {l..u}" and "\<And>k. k \<in> {l..u} \<Longrightarrow> c_int k"
    and "\<And>k. c_int k \<Longrightarrow> b k = (if k = j then a i else if k = i then a j else a k)"
  shows "permuted l u a b"
proof -
  let ?p = "\<lambda>k. if k = j then i else if k = i then j else k"
  have "image_mset b (mset_set {l..u}) = image_mset (a \<circ> ?p) (mset_set {l..u})"
    by (rule image_mset_cong) (use assms(3,4) in auto)
  also have "\<dots> = image_mset a (image_mset ?p (mset_set {l..u}))" by (simp add: multiset.map_comp)
  also have "image_mset ?p (mset_set {l..u}) = mset_set (?p ` {l..u})"
    by (rule image_mset_mset_set) (auto simp: inj_on_def split: if_splits)
  also have "?p ` {l..u} = {l..u}"
    using assms(1,2) by (auto simp: image_iff split: if_splits)
  finally show ?thesis using assms(1,2,4) by (auto simp: permuted_def)
qed

section \<open>Orders\<close>

definition lt_of :: "comparison \<Rightarrow> tvalue \<Rightarrow> tvalue \<Rightarrow> bool" where
  "lt_of cmp a b \<longleftrightarrow> cmp a b = Inr True"

abbreviation le_of :: "comparison \<Rightarrow> tvalue \<Rightarrow> tvalue \<Rightarrow> bool" where
  "le_of cmp a b \<equiv> \<not> lt_of cmp b a"

text \<open>A comparison that raises no error on the values of \<open>S\<close> and is a strict weak order there.\<close>

definition orders :: "comparison \<Rightarrow> tvalue set \<Rightarrow> bool" where
  "orders cmp S \<longleftrightarrow>
     (\<forall>a \<in> S. \<forall>b \<in> S. cmp a b = Inr (lt_of cmp a b))
   \<and> (\<forall>a \<in> S. \<forall>b \<in> S. lt_of cmp a b \<longrightarrow> le_of cmp a b)
   \<and> (\<forall>a \<in> S. \<forall>b \<in> S. \<forall>c \<in> S. le_of cmp a b \<longrightarrow> le_of cmp b c \<longrightarrow> le_of cmp a c)"

lemma ordersD:
  assumes "orders cmp S" and "a \<in> S" and "b \<in> S"
  shows "cmp a b = Inr (lt_of cmp a b)"
    and "lt_of cmp a b \<Longrightarrow> le_of cmp a b"
    and "c \<in> S \<Longrightarrow> le_of cmp a b \<Longrightarrow> le_of cmp b c \<Longrightarrow> le_of cmp a c"
    and "le_of cmp a a"
  using assms unfolding orders_def by blast+

lemma orders_mono: "orders cmp S \<Longrightarrow> T \<subseteq> S \<Longrightarrow> orders cmp T"
  unfolding orders_def by blast

definition sorted_range :: "comparison \<Rightarrow> (int \<Rightarrow> tvalue) \<Rightarrow> int \<Rightarrow> int \<Rightarrow> bool" where
  "sorted_range cmp a l u \<longleftrightarrow> (\<forall>i j. l \<le> i \<and> i \<le> j \<and> j \<le> u \<longrightarrow> le_of cmp (a i) (a j))"

lemma sorted_join:
  assumes "orders cmp (a ` {l..u})" and "l \<le> i" and "i \<le> u"
    and "sorted_range cmp a l (i - 1)" and "sorted_range cmp a (i + 1) u"
    and left: "\<forall>x \<in> a ` {l..i - 1}. le_of cmp x (a i)" and right: "\<forall>x \<in> a ` {i + 1..u}. le_of cmp (a i) x"
  shows "sorted_range cmp a l u"
  unfolding sorted_range_def
proof (intro allI impI)
  fix m n assume mn: "l \<le> m \<and> m \<le> n \<and> n \<le> u"
  have S: "a m \<in> a ` {l..u}" "a n \<in> a ` {l..u}" "a i \<in> a ` {l..u}" using mn assms(2,3) by auto
  consider "n < i" | "i < m" | "m = i" "n = i" | "m < i" "n = i" | "m = i" "i < n" | "m < i" "i < n" using mn by linarith
  then show "le_of cmp (a m) (a n)"
  proof cases
    case 1
    with assms(4) mn show ?thesis by (simp add: sorted_range_def)
  next
    case 2
    with assms(5) mn show ?thesis by (simp add: sorted_range_def)
  next
    case 3
    then show ?thesis using ordersD(4) [OF assms(1) S(3,3)] by simp
  next
    case 4
    with left mn show ?thesis by auto
  next
    case 5
    with right mn show ?thesis by auto
  next
    case 6
    then have "le_of cmp (a m) (a i)" "le_of cmp (a i) (a n)" using left right mn by auto
    with ordersD(3) [OF assms(1) S(1,3,2)] show ?thesis by blast
  qed
qed

lemma sorted_range_short: "orders cmp (a ` {l..u}) \<Longrightarrow> u \<le> l \<Longrightarrow> sorted_range cmp a l u"
  unfolding sorted_range_def
proof (intro allI impI)
  fix i j assume o: "orders cmp (a ` {l..u})" and "u \<le> l" "l \<le> i \<and> i \<le> j \<and> j \<le> u"
  then have "i = j" "a i \<in> a ` {l..u}" by auto
  with ordersD(4) [OF o this(2) this(2)] show "le_of cmp (a i) (a j)" by simp
qed

section \<open>The scans\<close>

lemma scan_up_spec:
  assumes "orders cmp S" and "\<And>k. i < k \<Longrightarrow> k \<le> m \<Longrightarrow> a k \<in> S" and "P \<in> S"
    and "i < m" and "m \<le> u" and "le_of cmp P (a m)"
  shows "\<exists>i'. scan_up a cmp P u i = Inr i' \<and> i < i' \<and> i' \<le> m \<and> le_of cmp P (a i')
    \<and> (\<forall>k. i < k \<and> k < i' \<longrightarrow> le_of cmp (a k) P)"
  using assms(2,4)
proof (induction "nat (m - i)" arbitrary: i rule: less_induct)
  case less
  have S: "a (i + 1) \<in> S" using less.prems by simp
  note c = ordersD(1,2) [OF assms(1) S assms(3)]
  show ?case
  proof (cases "lt_of cmp (a (i + 1)) P")
    case False
    then have "scan_up a cmp P u i = Inr (i + 1)" using c(1) by (subst scan_up_step) simp
    with False less.prems(2) show ?thesis by (intro exI [of _ "i + 1"]) auto
  next
    case True
    with assms(6) have m: "i + 1 < m" using less.prems(2) by (cases "i + 1 = m") auto
    from less.hyps [of "i + 1"] m less.prems obtain i' where i': "scan_up a cmp P u (i + 1) = Inr i'" "i + 1 < i'" "i' \<le> m"
      "le_of cmp P (a i')" "\<forall>k. i + 1 < k \<and> k < i' \<longrightarrow> le_of cmp (a k) P" by auto
    have "scan_up a cmp P u i = Inr i'" using True c(1) i'(1) m assms(5) by (subst scan_up_step) simp
    moreover have "le_of cmp (a k) P" if "i < k" "k < i'" for k
      using that i'(5) c(2) True by (cases "k = i + 1") auto
    ultimately show ?thesis using i' by (intro exI [of _ i']) auto
  qed
qed

lemma scan_down_spec:
  assumes "orders cmp S" and "\<And>k. m \<le> k \<Longrightarrow> k < j \<Longrightarrow> a k \<in> S" and "P \<in> S"
    and "m < j" and "l \<le> m" and "le_of cmp (a m) P"
  shows "\<exists>j'. scan_down a cmp P l j = Inr j' \<and> j' < j \<and> m \<le> j' \<and> le_of cmp (a j') P
    \<and> (\<forall>k. j' < k \<and> k < j \<longrightarrow> le_of cmp P (a k))"
  using assms(2,4)
proof (induction "nat (j - m)" arbitrary: j rule: less_induct)
  case less
  have S: "a (j - 1) \<in> S" using less.prems by simp
  note c = ordersD(1,2) [OF assms(1) assms(3) S]
  show ?case
  proof (cases "lt_of cmp P (a (j - 1))")
    case False
    then have "scan_down a cmp P l j = Inr (j - 1)" using c(1) by (subst scan_down_step) simp
    with False less.prems(2) show ?thesis by (intro exI [of _ "j - 1"]) auto
  next
    case True
    with assms(6) have m: "m < j - 1" using less.prems(2) by (cases "j - 1 = m") auto
    from less.hyps [of "j - 1"] m less.prems obtain j' where j': "scan_down a cmp P l (j - 1) = Inr j'" "j' < j - 1" "m \<le> j'"
      "le_of cmp (a j') P" "\<forall>k. j' < k \<and> k < j - 1 \<longrightarrow> le_of cmp P (a k)" by auto
    have "scan_down a cmp P l j = Inr j'" using True c(1) j'(1) m assms(5) by (subst scan_down_step) simp
    moreover have "le_of cmp P (a k)" if "j' < k" "k < j" for k
      using that j'(5) c(2) True by (cases "k = j - 1") auto
    ultimately show ?thesis using j' by (intro exI [of _ j']) auto
  qed
qed

section \<open>The sort on a raw array\<close>

text \<open>The operation succeeds with a result that satisfies \<open>Q\<close>, or the table overflows.\<close>

definition outcome :: "'a tres \<Rightarrow> ('a \<Rightarrow> bool) \<Rightarrow> bool" where
  "outcome r Q \<longleftrightarrow> r = overflow \<or> (\<exists>a. r = Some (Inr a) \<and> Q a)"

lemma outcome_ret [intro]: "Q a \<Longrightarrow> outcome (Some (Inr a)) Q"
  by (simp add: outcome_def)

lemma bindT_overflow [simp]: "bindT overflow f = overflow"
  by (simp add: overflow_def luaL_error_def)

lemma outcome_bind: "outcome m Q \<Longrightarrow> (\<And>a. Q a \<Longrightarrow> outcome (f a) R) \<Longrightarrow> outcome (bindT m f) R"
  unfolding outcome_def by (elim disjE exE conjE) simp_all

lemma bindT_assoc: "bindT (bindT m f) g = bindT m (\<lambda>x. bindT (f x) g)"
  by (cases m; simp) (rename_tac r, case_tac r, auto)

lemma outcome_mono: "outcome m Q \<Longrightarrow> (\<And>a. Q a \<Longrightarrow> R a) \<Longrightarrow> outcome m R"
  unfolding outcome_def by blast

definition c_range :: "int \<Rightarrow> int \<Rightarrow> bool" where
  "c_range l u \<longleftrightarrow> (\<forall>k \<in> {l..u}. c_int k)"

lemma c_rangeD: "c_range l u \<Longrightarrow> l \<le> k \<Longrightarrow> k \<le> u \<Longrightarrow> c_int k"
  by (simp add: c_range_def)

lemma c_range_sub: "c_range l u \<Longrightarrow> l \<le> l' \<Longrightarrow> u' \<le> u \<Longrightarrow> c_range l' u'"
  by (simp add: c_range_def)

text \<open>What holds around the partition at \<open>i\<close> and \<open>j\<close>.\<close>

definition split_at :: "comparison \<Rightarrow> tvalue \<Rightarrow> int \<Rightarrow> int \<Rightarrow> int \<Rightarrow> int \<Rightarrow> (int \<Rightarrow> tvalue) \<Rightarrow> bool" where
  "split_at cmp P l u i j a \<longleftrightarrow> (\<forall>k \<in> {l..i}. le_of cmp (a k) P) \<and> (\<forall>k \<in> {j..u}. le_of cmp P (a k)) \<and> a (u - 1) = P"

context raw_array
begin

lemma seti_outcome:
  assumes "ok t" and "c_int i"
  shows "outcome (seti i v t) (\<lambda>t'. ok t' \<and> (\<forall>k. c_int k \<longrightarrow> geti t' k = (if k = i then v else geti t k)))"
proof (rule seti_cases [OF assms, of v])
  assume "seti i v t = overflow"
  then show ?thesis by (simp add: outcome_def)
next
  fix t' assume "seti i v t = Some (Inr t')" "ok t'" "\<And>j. c_int j \<Longrightarrow> geti t' j = (if j = i then v else geti t j)"
  then show ?thesis unfolding outcome_def by blast
qed

lemma set2_spec:
  assumes "ok t" and "c_int i" and "c_int j"
  shows "outcome (set2 seti i j v w t)
    (\<lambda>t'. ok t' \<and> (\<forall>k. c_int k \<longrightarrow> geti t' k = (if k = j then v else if k = i then w else geti t k)))"
  unfolding set2_def
proof (rule outcome_bind [OF seti_outcome [OF assms(1,2)]])
  fix t' assume t': "ok t' \<and> (\<forall>k. c_int k \<longrightarrow> geti t' k = (if k = i then w else geti t k))"
  show "outcome (seti j v t') (\<lambda>t'. ok t' \<and> (\<forall>k. c_int k \<longrightarrow> geti t' k = (if k = j then v else if k = i then w else geti t k)))"
    by (rule outcome_mono [OF seti_outcome]) (use t' assms(3) in simp_all)
qed

lemma swap_spec:
  assumes "ok t" and "c_range l u" and "i \<in> {l..u}" and "j \<in> {l..u}"
  shows "outcome (set2 seti i j (geti t i) (geti t j) t)
    (\<lambda>t'. ok t' \<and> permuted l u (geti t) (geti t')
      \<and> (\<forall>k. c_int k \<longrightarrow> geti t' k = (if k = j then geti t i else if k = i then geti t j else geti t k)))"
proof (rule outcome_mono [OF set2_spec])
  show "ok t" "c_int i" "c_int j" using assms by (auto simp: c_range_def)
  fix t' assume "ok t' \<and> (\<forall>k. c_int k \<longrightarrow> geti t' k = (if k = j then geti t i else if k = i then geti t j else geti t k))"
  moreover from this have "permuted l u (geti t) (geti t')"
    by (intro permuted_swap [OF assms(3,4)]) (use assms(2) in \<open>auto simp: c_range_def\<close>)
  ultimately show "ok t' \<and> permuted l u (geti t) (geti t')
      \<and> (\<forall>k. c_int k \<longrightarrow> geti t' k = (if k = j then geti t i else if k = i then geti t j else geti t k))" by blast
qed

lemma partition_spec:
  assumes "ok t" and "c_range l u" and "orders cmp (geti t ` {l..u})"
    and "l \<le> i" and "i \<le> j" and "j \<le> u - 1" and "i = j \<longrightarrow> l < i \<and> j < u - 1" and "split_at cmp P l u i j (geti t)"
  shows "outcome (partition_loop geti seti cmp P l u i j t)
    (\<lambda>(i', t'). ok t' \<and> permuted l u (geti t) (geti t') \<and> l < i' \<and> i' \<le> u - 1 \<and> split_at cmp P l u (i' - 1) i' (geti t'))"
  using assms(1,3-)
proof (induction "nat (j - i)" arbitrary: i j t rule: less_induct)
  case less
  note ok = less.prems(1) and ord = less.prems(2)
  have split: "\<And>k. l \<le> k \<Longrightarrow> k \<le> i \<Longrightarrow> le_of cmp (geti t k) P" "\<And>k. j \<le> k \<Longrightarrow> k \<le> u \<Longrightarrow> le_of cmp P (geti t k)"
    "geti t (u - 1) = P" using less.prems(7) by (auto simp: split_at_def)
  have S: "geti t k \<in> geti t ` {l..u}" if "l \<le> k" "k \<le> u" for k using that by simp
  have P: "P \<in> geti t ` {l..u}" using S [of "u - 1"] split(3) less.prems(3-5) by simp
  obtain i' where i': "scan_up (geti t) cmp P u i = Inr i'" "i < i'" "i' \<le> u - 1" "le_of cmp P (geti t i')"
    "\<forall>k. i < k \<and> k < i' \<longrightarrow> le_of cmp (geti t k) P"
    using scan_up_spec [OF ord _ P, of i "u - 1" "geti t" u] S split(2) [of "u - 1"] less.prems(3-6) by auto
  obtain j' where j': "scan_down (geti t) cmp P l j = Inr j'" "j' < j" "l \<le> j'" "le_of cmp (geti t j') P"
    "\<forall>k. j' < k \<and> k < j \<longrightarrow> le_of cmp P (geti t k)"
    using scan_down_spec [OF ord _ P, of l j "geti t" l] S split(1) [of l] less.prems(3-6) by auto
  show ?case
  proof (cases "j' < i'")
    case True
    have "le_of cmp (geti t k) P" if "l \<le> k" "k < i'" for k
      using that split(1) [of k] i'(5) by (cases "k \<le> i") auto
    moreover have "le_of cmp P (geti t k)" if "i' \<le> k" "k \<le> u" for k
      using that split(2) [of k] j'(5) True by (cases "j \<le> k") auto
    ultimately have "split_at cmp P l u (i' - 1) i' (geti t)" using split(3) by (simp add: split_at_def)
    then show ?thesis
      using True ok i'(2,3) less.prems(3)
      by (subst partition_loop.simps) (simp add: i'(1) j'(1) outcome_ret)
  next
    case False
    then have ij: "i' \<le> j'" "i' \<in> {l..u}" "j' \<in> {l..u}" "l < i'" "j' < u - 1"
      using i'(2,3) j'(2,3) less.prems(3-5) by auto
    have "outcome (bindT (set2 seti i' j' (geti t i') (geti t j') t) (\<lambda>t. partition_loop geti seti cmp P l u i' j' t))
      (\<lambda>(i', t'). ok t' \<and> permuted l u (geti t) (geti t') \<and> l < i' \<and> i' \<le> u - 1 \<and> split_at cmp P l u (i' - 1) i' (geti t'))"
    proof (rule outcome_bind [OF swap_spec [OF ok assms(2) ij(2,3)]], elim conjE)
      fix t1
      assume t1: "ok t1" "permuted l u (geti t) (geti t1)"
        "\<forall>k. c_int k \<longrightarrow> geti t1 k = (if k = j' then geti t i' else if k = i' then geti t j' else geti t k)"
      have val: "geti t1 k = (if k = j' then geti t i' else if k = i' then geti t j' else geti t k)" if "l \<le> k" "k \<le> u" for k
        using t1(3) c_rangeD [OF assms(2) that] by blast
      have "le_of cmp (geti t1 k) P" if "l \<le> k" "k \<le> i'" for k
        using that ij val [of k] split(1) [of k] i'(5) j'(4) by (cases "k \<le> i"; cases "k = j'"; cases "k = i'") auto
      moreover have "le_of cmp P (geti t1 k)" if "j' \<le> k" "k \<le> u" for k
        using that ij val [of k] split(2) [of k] i'(4) j'(5) by (cases "j \<le> k"; cases "k = j'"; cases "k = i'") auto
      moreover have "geti t1 (u - 1) = P" using val [of "u - 1"] split(3) ij by auto
      ultimately have sp: "split_at cmp P l u i' j' (geti t1)" by (simp add: split_at_def)
      have ord1: "orders cmp (geti t1 ` {l..u})" using ord permuted_set [OF t1(2)] by simp
      have "nat (j' - i') < nat (j - i)" using i'(2) j'(2) ij(1) by simp
      from less.hyps [OF this t1(1) ord1 _ ij(1) _ _ sp] ij
      have "outcome (partition_loop geti seti cmp P l u i' j' t1)
        (\<lambda>(i', t'). ok t' \<and> permuted l u (geti t1) (geti t') \<and> l < i' \<and> i' \<le> u - 1 \<and> split_at cmp P l u (i' - 1) i' (geti t'))"
        by simp
      then show "outcome (partition_loop geti seti cmp P l u i' j' t1)
        (\<lambda>(i', t'). ok t' \<and> permuted l u (geti t) (geti t') \<and> l < i' \<and> i' \<le> u - 1 \<and> split_at cmp P l u (i' - 1) i' (geti t'))"
        by (rule outcome_mono) (use permuted_trans [OF t1(2)] in auto)
    qed
    with False show ?thesis by (subst partition_loop.simps) (simp add: i'(1) j'(1))
  qed
qed

lemma sort_ends_spec:
  assumes "ok t" and "c_range l u" and "orders cmp (geti t ` {l..u})" and "l < u"
  shows "outcome (sort_ends geti seti cmp l u t)
    (\<lambda>t'. ok t' \<and> permuted l u (geti t) (geti t') \<and> le_of cmp (geti t' l) (geti t' u))"
proof -
  have r: "l \<in> {l..u}" "u \<in> {l..u}" "c_int l" "c_int u" using assms(2,4) by (simp_all add: c_range_def)
  note c = ordersD(1,2) [OF assms(3) imageI [OF r(2)] imageI [OF r(1)]]
  show ?thesis
  proof (cases "lt_of cmp (geti t u) (geti t l)")
    case True
    have "outcome (set2 seti l u (geti t l) (geti t u) t)
        (\<lambda>t'. ok t' \<and> permuted l u (geti t) (geti t') \<and> le_of cmp (geti t' l) (geti t' u))"
      by (rule outcome_mono [OF swap_spec [OF assms(1,2) r(1,2)]]) (use r c True assms(4) in auto)
    with True c(1) show ?thesis by (simp add: sort_ends_def)
  next
    case False
    with c(1) assms(1) show ?thesis by (simp add: sort_ends_def outcome_ret)
  qed
qed

lemma sort_middle_spec:
  assumes "ok t" and "c_range l u" and "orders cmp (geti t ` {l..u})" and "l < i" and "i < u"
    and "le_of cmp (geti t l) (geti t u)"
  shows "outcome (sort_middle geti seti cmp l i u t)
    (\<lambda>t'. ok t' \<and> permuted l u (geti t) (geti t') \<and> le_of cmp (geti t' l) (geti t' i) \<and> le_of cmp (geti t' i) (geti t' u))"
    (is "outcome _ ?Q")
proof -
  have r: "l \<in> {l..u}" "i \<in> {l..u}" "u \<in> {l..u}" "c_int l" "c_int i" "c_int u"
    using assms(2,4,5) by (simp_all add: c_range_def)
  note cil = ordersD(1,2) [OF assms(3) imageI [OF r(2)] imageI [OF r(1)]]
  note cui = ordersD(1,2) [OF assms(3) imageI [OF r(3)] imageI [OF r(2)]]
  show ?thesis
  proof (cases "lt_of cmp (geti t i) (geti t l)")
    case True
    have "outcome (set2 seti i l (geti t i) (geti t l) t) ?Q"
      by (rule outcome_mono [OF swap_spec [OF assms(1,2) r(2,1)]]) (use r cil True assms(4-6) in auto)
    with True cil(1) show ?thesis by (simp add: sort_middle_def)
  next
    case li: False
    show ?thesis
    proof (cases "lt_of cmp (geti t u) (geti t i)")
      case True
      have "outcome (set2 seti i u (geti t i) (geti t u) t) ?Q"
        by (rule outcome_mono [OF swap_spec [OF assms(1,2) r(2,3)]]) (use r cui True assms(4-6) in auto)
      with True li cil(1) cui(1) show ?thesis by (simp add: sort_middle_def)
    next
      case False
      with li cil(1) cui(1) assms(1) show ?thesis by (simp add: sort_middle_def outcome_ret)
    qed
  qed
qed

text \<open>The pivot in its place: what the two halves have to be sorted around.\<close>

lemma pivot_spec:
  assumes "ok t" and "c_range l u" and "orders cmp (geti t ` {l..u})" and "l < i" and "i < u - 1"
    and "le_of cmp (geti t l) (geti t i)" and "le_of cmp (geti t i) (geti t u)"
  shows "outcome (bindT (set2 seti i (u - 1) (geti t i) (geti t (u - 1)) t) (\<lambda>t'.
      bindT (partition_loop geti seti cmp (geti t i) l u l (u - 1) t') (\<lambda>(i, t).
      bindT (set2 seti (u - 1) i (geti t (u - 1)) (geti t i) t) (\<lambda>t. Some (Inr (i, t))))))
    (\<lambda>(m, t'). ok t' \<and> permuted l u (geti t) (geti t') \<and> l < m \<and> m \<le> u - 1
      \<and> (\<forall>x \<in> geti t' ` {l..m - 1}. le_of cmp x (geti t' m)) \<and> (\<forall>x \<in> geti t' ` {m + 1..u}. le_of cmp (geti t' m) x))"
proof -
  have r: "i \<in> {l..u}" "u - 1 \<in> {l..u}" using assms(4,5) by auto
  note at = c_rangeD [OF assms(2)]
  let ?P = "geti t i"
  show ?thesis
  proof (rule outcome_bind [OF swap_spec [OF assms(1,2) r]], elim conjE)
    fix t1 assume t1: "ok t1" "permuted l u (geti t) (geti t1)"
      "\<forall>k. c_int k \<longrightarrow> geti t1 k = (if k = u - 1 then geti t i else if k = i then geti t (u - 1) else geti t k)"
    have ord1: "orders cmp (geti t1 ` {l..u})" using assms(3) permuted_set [OF t1(2)] by simp
    have S: "?P \<in> geti t ` {l..u}" using r by simp
    have v1: "geti t1 l = geti t l" "geti t1 (u - 1) = ?P" "geti t1 u = geti t u"
      using t1(3) at [of l] at [of "u - 1"] at [of u] assms(4,5) by auto
    have "le_of cmp ?P (geti t1 k)" if "k \<in> {u - 1..u}" for k
    proof -
      have "k = u - 1 \<or> k = u" using that by auto
      with v1 assms(7) ordersD(4) [OF assms(3) S S] show ?thesis by auto
    qed
    with v1 assms(6) have sp: "split_at cmp ?P l u l (u - 1) (geti t1)" by (simp add: split_at_def)
    show "outcome (bindT (partition_loop geti seti cmp ?P l u l (u - 1) t1) (\<lambda>(i, t).
        bindT (set2 seti (u - 1) i (geti t (u - 1)) (geti t i) t) (\<lambda>t. Some (Inr (i, t)))))
      (\<lambda>(m, t'). ok t' \<and> permuted l u (geti t) (geti t') \<and> l < m \<and> m \<le> u - 1
        \<and> (\<forall>x \<in> geti t' ` {l..m - 1}. le_of cmp x (geti t' m)) \<and> (\<forall>x \<in> geti t' ` {m + 1..u}. le_of cmp (geti t' m) x))"
    proof (rule outcome_bind [OF partition_spec [OF t1(1) assms(2) ord1 _ _ _ _ sp]], goal_cases)
      case (5 mt)
      obtain m t2 where mt: "mt = (m, t2)" by (cases mt)
      with 5 have t2: "ok t2" "permuted l u (geti t1) (geti t2)" "l < m" "m \<le> u - 1" "split_at cmp ?P l u (m - 1) m (geti t2)"
        by simp_all
      have m: "u - 1 \<in> {l..u}" "m \<in> {l..u}" using r t2(3,4) by auto
      have "outcome (bindT (set2 seti (u - 1) m (geti t2 (u - 1)) (geti t2 m) t2) (\<lambda>t. Some (Inr (m, t))))
        (\<lambda>(m, t'). ok t' \<and> permuted l u (geti t) (geti t') \<and> l < m \<and> m \<le> u - 1
          \<and> (\<forall>x \<in> geti t' ` {l..m - 1}. le_of cmp x (geti t' m)) \<and> (\<forall>x \<in> geti t' ` {m + 1..u}. le_of cmp (geti t' m) x))"
      proof (rule outcome_bind [OF swap_spec [OF t2(1) assms(2) m]], elim conjE)
        fix t3 assume t3: "ok t3" "permuted l u (geti t2) (geti t3)"
          "\<forall>k. c_int k \<longrightarrow> geti t3 k = (if k = m then geti t2 (u - 1) else if k = u - 1 then geti t2 m else geti t2 k)"
        have val: "geti t3 k = (if k = m then ?P else if k = u - 1 then geti t2 m else geti t2 k)" if "l \<le> k" "k \<le> u" for k
          using t3(3) at [OF that] t2(5) by (auto simp: split_at_def)
        have "le_of cmp (geti t3 k) (geti t3 m)" if "l \<le> k" "k \<le> m - 1" for k
          using that val [of k] val [of m] m t2(3-5) by (auto simp: split_at_def)
        moreover have "le_of cmp (geti t3 m) (geti t3 k)" if "m + 1 \<le> k" "k \<le> u" for k
          using that val [of k] val [of m] m t2(3-5) by (auto simp: split_at_def)
        ultimately show "outcome (Some (Inr (m, t3)))
          (\<lambda>(m, t'). ok t' \<and> permuted l u (geti t) (geti t') \<and> l < m \<and> m \<le> u - 1
            \<and> (\<forall>x \<in> geti t' ` {l..m - 1}. le_of cmp x (geti t' m)) \<and> (\<forall>x \<in> geti t' ` {m + 1..u}. le_of cmp (geti t' m) x))"
          using t3(1) t2(3,4) permuted_trans [OF permuted_trans [OF t1(2) t2(2)] t3(2)] by (intro outcome_ret) auto
      qed
      then show ?case by (simp add: mt)
    qed (use assms(4,5) in simp_all)
  qed
qed

definition sorts :: "comparison \<Rightarrow> int \<Rightarrow> int \<Rightarrow> 't \<Rightarrow> 't \<Rightarrow> bool" where
  "sorts cmp l u t t' \<longleftrightarrow> ok t' \<and> permuted l u (geti t) (geti t') \<and> sorted_range cmp (geti t') l u"

text \<open>Two ranges apart from one another, sorted one after the other.\<close>

lemma two_ranges:
  assumes "c_range l u" and "orders cmp (geti t ` {l..u})" and "ok t"
    and sub: "l \<le> p" "q \<le> u" "l \<le> r" "s \<le> u" and apart: "{p..q} \<inter> {r..s} = {}" and "q - p < u - l" and "s - r < u - l"
    and rec: "\<And>t l' u'. ok t \<Longrightarrow> orders cmp (geti t ` {l'..u'}) \<Longrightarrow> c_range l' u' \<Longrightarrow> u' - l' < u - l \<Longrightarrow>
      outcome (f l' u' t) (sorts cmp l' u' t)"
  shows "outcome (bindT (f p q t) (\<lambda>t. f r s t))
    (\<lambda>t'. ok t' \<and> permuted l u (geti t) (geti t') \<and> sorted_range cmp (geti t') p q \<and> sorted_range cmp (geti t') r s
       \<and> geti t' ` {p..q} = geti t ` {p..q} \<and> geti t' ` {r..s} = geti t ` {r..s}
       \<and> (\<forall>k \<in> {l..u} - {p..q} - {r..s}. geti t' k = geti t k))"
proof (rule outcome_bind [OF rec])
  show "ok t" "q - p < u - l" by fact+
  show "c_range p q" by (rule c_range_sub [OF assms(1) sub(1,2)])
  show "orders cmp (geti t ` {p..q})" by (rule orders_mono [OF assms(2)]) (use sub in auto)
next
  have all: "k \<in> {l..u} \<Longrightarrow> c_int k" for k using assms(1) by (simp add: c_range_def)
  have keep: "b k = a k" if "permuted l' u' a b" "k \<in> {l..u}" "k \<notin> {l'..u'}" for a b k l' u'
    using that all by (auto simp: permuted_def)
  fix t1 assume "sorts cmp p q t t1"
  then have t1: "ok t1" "permuted p q (geti t) (geti t1)" "sorted_range cmp (geti t1) p q" by (simp_all add: sorts_def)
  have p1: "permuted l u (geti t) (geti t1)" by (rule permuted_sub [OF t1(2) sub(1,2) all])
  have eq1: "geti t1 k = geti t k" if "k \<in> {r..s}" for k
    by (rule keep [OF t1(2)]) (use that apart sub in auto)
  show "outcome (f r s t1)
    (\<lambda>t'. ok t' \<and> permuted l u (geti t) (geti t') \<and> sorted_range cmp (geti t') p q \<and> sorted_range cmp (geti t') r s
       \<and> geti t' ` {p..q} = geti t ` {p..q} \<and> geti t' ` {r..s} = geti t ` {r..s}
       \<and> (\<forall>k \<in> {l..u} - {p..q} - {r..s}. geti t' k = geti t k))"
  proof (rule outcome_mono [OF rec])
    show "ok t1" "s - r < u - l" by fact+
    show "c_range r s" by (rule c_range_sub [OF assms(1) sub(3,4)])
    show "orders cmp (geti t1 ` {r..s})" by (rule orders_mono [OF assms(2)]) (use sub eq1 in auto)
  next
    fix t2 assume "sorts cmp r s t1 t2"
    then have t2: "ok t2" "permuted r s (geti t1) (geti t2)" "sorted_range cmp (geti t2) r s" by (simp_all add: sorts_def)
    have p2: "permuted l u (geti t1) (geti t2)" by (rule permuted_sub [OF t2(2) sub(3,4) all])
    have eq2: "geti t2 k = geti t1 k" if "k \<in> {p..q}" for k
      by (rule keep [OF t2(2)]) (use that apart sub in auto)
    have "geti t2 ` {p..q} = geti t1 ` {p..q}" "geti t1 ` {r..s} = geti t ` {r..s}"
      by (rule image_cong [OF refl], erule eq2, rule image_cong [OF refl], erule eq1)
    then have img: "geti t2 ` {p..q} = geti t ` {p..q}" "geti t2 ` {r..s} = geti t ` {r..s}"
      using permuted_set [OF t1(2)] permuted_set [OF t2(2)] by simp_all
    have rest: "geti t2 k = geti t k" if "k \<in> {l..u} - {p..q} - {r..s}" for k
      using keep [OF t1(2), of k] keep [OF t2(2), of k] that by simp
    have "sorted_range cmp (geti t2) p q" using t1(3) eq2 by (simp add: sorted_range_def)
    with t2(1,3) img rest permuted_trans [OF p1 p2]
    show "ok t2 \<and> permuted l u (geti t) (geti t2) \<and> sorted_range cmp (geti t2) p q \<and> sorted_range cmp (geti t2) r s
       \<and> geti t2 ` {p..q} = geti t ` {p..q} \<and> geti t2 ` {r..s} = geti t ` {r..s}
       \<and> (\<forall>k \<in> {l..u} - {p..q} - {r..s}. geti t2 k = geti t k)" by blast
  qed
qed

lemma halves_spec:
  assumes "c_range l u" and "orders cmp (geti t ` {l..u})" and "ok t" and "l < m" and "m \<le> u - 1"
    and left: "\<forall>x \<in> geti t ` {l..m - 1}. le_of cmp x (geti t m)"
    and right: "\<forall>x \<in> geti t ` {m + 1..u}. le_of cmp (geti t m) x"
    and rec: "\<And>t l' u'. ok t \<Longrightarrow> orders cmp (geti t ` {l'..u'}) \<Longrightarrow> c_range l' u' \<Longrightarrow> u' - l' < u - l \<Longrightarrow>
      outcome (f l' u' t) (sorts cmp l' u' t)"
  shows "outcome (bindT (f l (m - 1) t) (\<lambda>t. f (m + 1) u t)) (sorts cmp l u t)"
    and "outcome (bindT (f (m + 1) u t) (\<lambda>t. f l (m - 1) t)) (sorts cmp l u t)"
proof -
  have join: "sorts cmp l u t t2" if "ok t2" "permuted l u (geti t) (geti t2)"
    "sorted_range cmp (geti t2) l (m - 1)" "sorted_range cmp (geti t2) (m + 1) u"
    "geti t2 ` {l..m - 1} = geti t ` {l..m - 1}" "geti t2 ` {m + 1..u} = geti t ` {m + 1..u}" "geti t2 m = geti t m" for t2
  proof -
    have "orders cmp (geti t2 ` {l..u})" using assms(2) permuted_set [OF that(2)] by simp
    from sorted_join [OF this _ _ that(3,4)] assms(4,5) left right that(5-7) have "sorted_range cmp (geti t2) l u" by simp
    with that(1,2) show ?thesis by (simp add: sorts_def)
  qed
  have m: "m \<in> {l..u} - {l..m - 1} - {m + 1..u}" "m \<in> {l..u} - {m + 1..u} - {l..m - 1}" using assms(4,5) by auto
  show "outcome (bindT (f l (m - 1) t) (\<lambda>t. f (m + 1) u t)) (sorts cmp l u t)"
    by (rule outcome_mono [OF two_ranges [OF assms(1-3) _ _ _ _ _ _ _ rec]]) (use assms(4,5) m join in auto)
  show "outcome (bindT (f (m + 1) u t) (\<lambda>t. f l (m - 1) t)) (sorts cmp l u t)"
    by (rule outcome_mono [OF two_ranges [OF assms(1-3) _ _ _ _ _ _ _ rec]]) (use assms(4,5) m join in auto)
qed

lemma sorts_trans: "permuted l u (geti t) (geti t1) \<Longrightarrow> sorts cmp l u t1 t' \<Longrightarrow> sorts cmp l u t t'"
  by (auto simp: sorts_def intro: permuted_trans)

lemma sort_rest_spec:
  assumes "ok t" and cr: "c_range l u" and "orders cmp (geti t ` {l..u})" and "l < i" and "i < u - 1"
    and "le_of cmp (geti t l) (geti t i)" and "le_of cmp (geti t i) (geti t u)"
    and rec: "\<And>t l' u'. ok t \<Longrightarrow> orders cmp (geti t ` {l'..u'}) \<Longrightarrow> c_range l' u' \<Longrightarrow> u' - l' < u - l \<Longrightarrow>
      outcome (f l' u' t) (sorts cmp l' u' t)"
  shows "outcome (bindT (set2 seti i (u - 1) (geti t i) (geti t (u - 1)) t) (\<lambda>t'.
      bindT (partition_loop geti seti cmp (geti t i) l u l (u - 1) t') (\<lambda>(i, t).
      bindT (set2 seti (u - 1) i (geti t (u - 1)) (geti t i) t) (\<lambda>t.
      if i - l < u - i then bindT (f l (i - 1) t) (\<lambda>t. f (i + 1) u t)
      else bindT (f (i + 1) u t) (\<lambda>t. f l (i - 1) t))))) (sorts cmp l u t)"
proof -
  let ?pivot = "bindT (set2 seti i (u - 1) (geti t i) (geti t (u - 1)) t) (\<lambda>t'.
      bindT (partition_loop geti seti cmp (geti t i) l u l (u - 1) t') (\<lambda>(i, t).
      bindT (set2 seti (u - 1) i (geti t (u - 1)) (geti t i) t) (\<lambda>t. Some (Inr (i, t)))))"
  let ?halves = "\<lambda>i t. if i - l < u - i then bindT (f l (i - 1) t) (\<lambda>t. f (i + 1) u t)
      else bindT (f (i + 1) u t) (\<lambda>t. f l (i - 1) t)"
  have "outcome (bindT ?pivot (\<lambda>(i, t). ?halves i t)) (sorts cmp l u t)"
  proof (rule outcome_bind [OF pivot_spec [OF assms(1-7)]], clarify)
    fix m t3 assume t3: "ok t3" "permuted l u (geti t) (geti t3)" "l < m" "m \<le> u - 1"
      "\<forall>x \<in> geti t3 ` {l..m - 1}. le_of cmp x (geti t3 m)" "\<forall>x \<in> geti t3 ` {m + 1..u}. le_of cmp (geti t3 m) x"
    have ord3: "orders cmp (geti t3 ` {l..u})" using assms(3) permuted_set [OF t3(2)] by simp
    from halves_spec [OF cr ord3 t3(1,3-6) rec]
    have "outcome (?halves m t3) (sorts cmp l u t3)" by simp
    then show "outcome (?halves m t3) (sorts cmp l u t)" by (rule outcome_mono) (rule sorts_trans [OF t3(2)])
  qed
  then show ?thesis by (simp only: bindT_assoc split_def bindT.simps fst_conv snd_conv)
qed

text \<open>\<open>auxsort\<close> sorts the range, with as much fuel as it is long.\<close>

lemma auxsort_spec:
  assumes "ok t" and "c_range l u" and "orders cmp (geti t ` {l..u})" and "nat (u - l) < f"
  shows "outcome (auxsort f geti seti cmp l u t) (sorts cmp l u t)"
  using assms
proof (induction f arbitrary: l u t)
  case (Suc f)
  note ok = Suc.prems(1) and cr = Suc.prems(2) and ord = Suc.prems(3)
  show ?case
  proof (cases "l < u")
    case False
    then show ?thesis using ok sorted_range_short [OF ord] by (simp add: sorts_def outcome_ret)
  next
    case lu: True
    have rec: "outcome (auxsort f geti seti cmp l' u' t') (sorts cmp l' u' t')"
      if "ok t'" "orders cmp (geti t' ` {l'..u'})" "c_range l' u'" "u' - l' < u - l" for t' l' u'
      using Suc.IH [OF that(1,3,2)] that(4) lu Suc.prems(4) by linarith
    let ?i = "(l + u) div 2"
    have sorted: "sorted_range cmp (geti t') l u"
      if o: "orders cmp (geti t' ` {l..u})" and i: "l \<le> i" "i \<le> u" "i - 1 \<le> l" "u \<le> i + 1"
        "le_of cmp (geti t' l) (geti t' i)" "le_of cmp (geti t' i) (geti t' u)" for t' i
    proof -
      have "\<forall>x \<in> {l..i - 1}. x = l" "\<forall>x \<in> {i + 1..u}. x = u" using i by auto
      then show ?thesis
        using sorted_join [OF o i(1,2) sorted_range_short [OF orders_mono [OF o]] sorted_range_short [OF orders_mono [OF o]]] i
        by fastforce
    qed
    show ?thesis
      unfolding auxsort.simps Let_def if_P [OF lu]
    proof (rule outcome_bind [OF sort_ends_spec [OF ok cr ord lu]], elim conjE, goal_cases)
      case (1 t1)
      note t1 = 1
      have ord1: "orders cmp (geti t1 ` {l..u})" using ord permuted_set [OF t1(2)] by simp
      show ?case
      proof (cases "u - l = 1")
        case True
        have "le_of cmp (geti t1 l) (geti t1 l)" by (rule ordersD(4) [OF ord1, of _ "geti t1 l"]) (use lu in simp_all)
        with True sorted [OF ord1, of l] t1 have "sorts cmp l u t t1" by (simp add: sorts_def)
        with True show ?thesis by (simp add: outcome_ret)
      next
        case False
        then have i: "l < ?i" "?i < u" using lu by linarith+
        show ?thesis
          unfolding if_not_P [OF False]
        proof (rule outcome_bind [OF sort_middle_spec [OF t1(1) cr ord1 i t1(3)]], elim conjE, goal_cases)
          case (1 t2)
          note t2 = 1
          have p2: "permuted l u (geti t) (geti t2)" by (rule permuted_trans [OF t1(2) t2(2)])
          then have ord2: "orders cmp (geti t2 ` {l..u})" using ord permuted_set [OF p2] by simp
          show ?case
          proof (cases "u - l = 2")
            case True
            then have "?i - 1 \<le> l" "u \<le> ?i + 1" using i by linarith+
            with True t2 sorted [OF ord2, of ?i] i p2 show ?thesis by (simp add: sorts_def outcome_ret)
          next
            case no: False
            with False have iu: "?i < u - 1" using lu by linarith
            show ?thesis
              unfolding if_not_P [OF no]
            proof (rule outcome_mono [OF sort_rest_spec [OF t2(1) cr ord2 i(1) iu t2(3,4)]], goal_cases)
              case (1 t' l' u')
              then show ?case by (rule rec)
            next
              case (2 t')
              then show ?case by (rule sorts_trans [OF p2])
            qed
          qed
        qed
      qed
    qed
  qed
qed simp

end

section \<open>The property of the sort\<close>

text \<open>
  C7. \<open>table.sort\<close> on a proper table, with a comparison that raises no error on the values of the
  array and is a strict weak order on them: it terminates, and (unless an assignment to an absent
  index overflows the table) leaves a proper table whose array is a sorted permutation of the old
  one, every index outside the array unchanged.
\<close>

theorem sort_sorts:
  assumes "table_ok bits t" and "luaH_getn bits t = Some n" and "orders cmp (lua_rawgeti bits t ` {1..int n})"
  shows "table_sort bits cmp t = Some (luaL_error ''table overflow'')
    \<or> (\<exists>t'. table_sort bits cmp t = Some (Inr t') \<and> table_ok bits t'
         \<and> mset (map (lua_rawgeti bits t') [1..int n]) = mset (map (lua_rawgeti bits t) [1..int n])
         \<and> (\<forall>i j. 1 \<le> i \<and> i \<le> j \<and> j \<le> int n \<longrightarrow> cmp (lua_rawgeti bits t' j) (lua_rawgeti bits t' i) = Inr False)
         \<and> (\<forall>k. c_int k \<and> (k < 1 \<or> int n < k) \<longrightarrow> lua_rawgeti bits t' k = lua_rawgeti bits t k))"
proof -
  have "n < MAX_INT" using luaH_getn_spec [OF assms(1)] assms(2) by simp
  then have cr: "c_range 1 (int n)" by (auto simp: c_range_def c_int_def MAX_INT_def)
  have "nat (int n - 1) < n + 1" by simp
  from lua_array.auxsort_spec [OF assms(1) cr assms(3) this]
  consider "table_sort bits cmp t = overflow"
    | t' where "table_sort bits cmp t = Some (Inr t')" "lua_array.sorts bits cmp 1 (int n) t t'"
    by (auto simp: outcome_def table_sort_def assms(2))
  then show ?thesis
  proof cases
    case 1
    then show ?thesis by (simp add: overflow_def)
  next
    case 2
    then have t': "table_ok bits t'" "permuted 1 (int n) (lua_rawgeti bits t) (lua_rawgeti bits t')"
      "sorted_range cmp (lua_rawgeti bits t') 1 (int n)" by (simp_all add: lua_array.sorts_def)
    have img: "lua_rawgeti bits t' ` {1..int n} = lua_rawgeti bits t ` {1..int n}" by (rule permuted_set [OF t'(2)])
    have upto: "mset [1..int n] = mset_set {1..int n}" using mset_set_set [of "[1..int n]"] by simp
    have "cmp (lua_rawgeti bits t' j) (lua_rawgeti bits t' i) = Inr False" if "1 \<le> i \<and> i \<le> j \<and> j \<le> int n" for i j
    proof -
      have "lua_rawgeti bits t' i \<in> lua_rawgeti bits t ` {1..int n}" "lua_rawgeti bits t' j \<in> lua_rawgeti bits t ` {1..int n}"
        using that img by auto
      with ordersD(1) [OF assms(3) this(2,1)] t'(3) that show ?thesis by (simp add: sorted_range_def)
    qed
    with 2(1) t' show ?thesis by (auto simp: upto permuted_def)
  qed
qed

text \<open>\<open>lua_lessthan\<close> on numbers; it raises an error on other values.\<close>

definition number_less :: comparison where
  "number_less a b =
     (case (a, b) of
        (TNumber x, TNumber y) \<Rightarrow> Inr (x < y)
      | _ \<Rightarrow> luaL_error ''attempt to compare two values'')"

theorem sort_sorts_witness:
  "table_sort (\<lambda>_. []) number_less (array_table [TNumber 2, TNumber 1]) = Some (luaL_error ''table overflow'')
    \<or> (\<exists>t'. table_sort (\<lambda>_. []) number_less (array_table [TNumber 2, TNumber 1]) = Some (Inr t')
         \<and> mset (map (lua_rawgeti (\<lambda>_. []) t') [1..2]) = {#TNumber 1, TNumber 2#})"
proof -
  let ?t = "array_table [TNumber 2, TNumber 1]"
  have len: "length [TNumber 2, TNumber 1] \<le> MAXASIZE" by (simp add: MAXASIZE_def MAXBITS_def)
  have two: "[1..2] = [1, 2 :: int]" "{1..2} = {1, 2 :: int}" by (auto simp: upto.simps)
  have "lua_rawgeti (\<lambda>_. []) ?t 1 = TNumber 2" "lua_rawgeti (\<lambda>_. []) ?t 2 = TNumber 1"
    using array_table_geti [OF _ _ len, of 1] array_table_geti [OF _ _ len, of 2] by simp_all
  note get = this
  have n: "luaH_getn (\<lambda>_. []) ?t = Some 2" using array_table_getn [of "[TNumber 2, TNumber 1]"] by simp
  have "orders number_less (lua_rawgeti (\<lambda>_. []) ?t ` {1..int 2})"
    by (auto simp: two get orders_def lt_of_def number_less_def)
  from sort_sorts [OF array_table_ok [OF len] n this] show ?thesis
    by (auto simp: two get add_mset_commute)
qed

end
