(* ===== verification/Lua_Tablib.thy ===== *)
theory Lua_Tablib
  imports Lua_Sort Lua_Format Lua_Buffer
begin

text \<open>
  The rest of the table library, \<open>ltablib.c\<close>: \<open>insert\<close>, \<open>remove\<close>, \<open>concat\<close>, \<open>maxn\<close>, \<open>foreachi\<close>,
  \<open>foreach\<close>, \<open>getn\<close>. The table is the first argument of each; the others are arguments of the
  definitions, numbers as \<open>luaL_checkint\<close> converts them. \<open>luaL_setn\<close> does nothing in this build.
\<close>

section \<open>The code\<close>

definition aux_getn :: "bits \<Rightarrow> ltable \<Rightarrow> int tres" where
  "aux_getn bits t = map_option (\<lambda>n. Inr (int n)) (luaH_getn bits t)"

text \<open>\<open>for (i = e; i > pos; i--) t[i] = t[i-1]\<close>\<close>

function move_up :: "'t getter \<Rightarrow> 't setter \<Rightarrow> int \<Rightarrow> int \<Rightarrow> 't \<Rightarrow> 't tres" where
  "move_up g s i pos t =
     (if i > pos then bindT (s i (g t (i - 1)) t) (\<lambda>t. move_up g s (i - 1) pos t) else Some (Inr t))"
  by pat_completeness auto
termination
  by (relation "measure (\<lambda>(g, s, i, pos, t). nat (i - pos))") auto

declare move_up.simps [simp del]

datatype insert_args = Append tvalue | Insert_At int tvalue | Wrong_Number

definition tinsert :: "bits \<Rightarrow> insert_args \<Rightarrow> ltable \<Rightarrow> ltable tres" where
  "tinsert bits args t =
     bindT (aux_getn bits t) (\<lambda>n.
       let e = n + 1 in
       case args of
         Append v \<Rightarrow> lua_rawseti bits e v t
       | Insert_At pos v \<Rightarrow>
           (let e = (if pos > e then pos else e) in
            bindT (move_up (lua_rawgeti bits) (lua_rawseti bits) e pos t) (\<lambda>t. lua_rawseti bits pos v t))
       | Wrong_Number \<Rightarrow> Some (luaL_error (''wrong number of arguments to '' @ [CHR 0x27] @ ''insert'' @ [CHR 0x27])))"

text \<open>\<open>for ( ; pos < e; pos++) t[pos] = t[pos+1]\<close>\<close>

function move_down :: "'t getter \<Rightarrow> 't setter \<Rightarrow> int \<Rightarrow> int \<Rightarrow> 't \<Rightarrow> 't tres" where
  "move_down g s pos e t =
     (if pos < e then bindT (s pos (g t (pos + 1)) t) (\<lambda>t. move_down g s (pos + 1) e t) else Some (Inr t))"
  by pat_completeness auto
termination
  by (relation "measure (\<lambda>(g, s, pos, e, t). nat (e - pos))") auto

declare move_down.simps [simp del]

text \<open>The result list, empty or with the removed value, and the table.\<close>

definition tremove :: "bits \<Rightarrow> int option \<Rightarrow> ltable \<Rightarrow> (tvalue list \<times> ltable) tres" where
  "tremove bits arg t =
     bindT (aux_getn bits t) (\<lambda>e.
       let pos = (case arg of None \<Rightarrow> e | Some p \<Rightarrow> p) in
       if \<not> (1 \<le> pos \<and> pos \<le> e) then Some (Inr ([], t))
       else (let result = lua_rawgeti bits t pos in
             bindT (move_down (lua_rawgeti bits) (lua_rawseti bits) pos e t) (\<lambda>t.
             bindT (lua_rawseti bits e TNil t) (\<lambda>t. Some (Inr ([result], t))))))"

text \<open>\<open>addfield\<close>: a string, or a number as \<open>lua_tolstring\<close> formats it; \<open>tname\<close> is \<open>luaL_typename\<close>.\<close>

definition addfield :: "bits \<Rightarrow> lua_conv \<Rightarrow> (tvalue \<Rightarrow> string) \<Rightarrow> nat \<Rightarrow> ltable \<Rightarrow> luaL_Buffer \<Rightarrow> int \<Rightarrow> lua_error + luaL_Buffer" where
  "addfield bits cv tname bufsiz t B i =
     (case lua_rawgeti bits t i of
        TString s \<Rightarrow> Inr (luaL_addvalue bufsiz B s)
      | TNumber n \<Rightarrow> Inr (luaL_addvalue bufsiz B (number2str cv n))
      | v \<Rightarrow> luaL_error (the (luaO_pushvfstring cv (\<lambda>_. [])
          (''invalid value (%s) at index %d in table for '' @ [CHR 0x27] @ ''concat'' @ [CHR 0x27])
          [VStr (Some (tname v)), VInt i])))"

function concat_loop :: "bits \<Rightarrow> lua_conv \<Rightarrow> (tvalue \<Rightarrow> string) \<Rightarrow> nat \<Rightarrow> string \<Rightarrow> ltable \<Rightarrow> luaL_Buffer \<Rightarrow> int \<Rightarrow> int \<Rightarrow> lua_error + luaL_Buffer" where
  "concat_loop bits cv tname bufsiz sep t B i n =
     (if i < n then
        bindE (addfield bits cv tname bufsiz t B i) (\<lambda>B.
          concat_loop bits cv tname bufsiz sep t (luaL_addlstring bufsiz B sep) (i + 1) n)
      else if i = n then addfield bits cv tname bufsiz t B i
      else Inr B)"
  by pat_completeness auto
termination
  by (relation "measure (\<lambda>(bits, cv, tname, bufsiz, sep, t, B, i, n). nat (n - i))") auto

declare concat_loop.simps [simp del]

definition tconcat :: "bits \<Rightarrow> lua_conv \<Rightarrow> (tvalue \<Rightarrow> string) \<Rightarrow> nat \<Rightarrow> string option \<Rightarrow> int option \<Rightarrow> int option \<Rightarrow> ltable \<Rightarrow> string tres" where
  "tconcat bits cv tname bufsiz sep i j t =
     (let sep = (case sep of None \<Rightarrow> [] | Some s \<Rightarrow> s);
          i = (case i of None \<Rightarrow> 1 | Some i \<Rightarrow> i) in
      bindT (case j of None \<Rightarrow> aux_getn bits t | Some l \<Rightarrow> Some (Inr l)) (\<lambda>n.
        Some (bindE (concat_loop bits cv tname bufsiz sep t luaL_buffinit i n) (\<lambda>B. Inr (luaL_pushresult B)))))"

definition maxn :: "bits \<Rightarrow> ltable \<Rightarrow> real tres" where
  "maxn bits t =
     bindT (next_loop bits (sizearray t + sizenode t + 1) t TNil) (\<lambda>kvs.
       Some (Inr (foldl (\<lambda>max (k, v). case k of TNumber v \<Rightarrow> if v > max then v else max | _ \<Rightarrow> max) 0 kvs)))"

text \<open>The function that \<open>foreachi\<close> calls, \<open>call\<close>, may change the table; the first result that is not nil ends the loop.\<close>

type_synonym 'a callback = "'a \<Rightarrow> tvalue \<Rightarrow> ltable \<Rightarrow> (tvalue \<times> ltable) tres"

function foreachi_loop :: "bits \<Rightarrow> int callback \<Rightarrow> int \<Rightarrow> int \<Rightarrow> ltable \<Rightarrow> (tvalue \<times> ltable) tres" where
  "foreachi_loop bits call i n t =
     (if i \<le> n then
        bindT (call i (lua_rawgeti bits t i) t) (\<lambda>(r, t).
          if r \<noteq> TNil then Some (Inr (r, t)) else foreachi_loop bits call (i + 1) n t)
      else Some (Inr (TNil, t)))"
  by pat_completeness auto
termination
  by (relation "measure (\<lambda>(bits, call, i, n, t). nat (n + 1 - i))") auto

declare foreachi_loop.simps [simp del]

definition foreachi :: "bits \<Rightarrow> int callback \<Rightarrow> ltable \<Rightarrow> (tvalue \<times> ltable) tres" where
  "foreachi bits call t = bindT (aux_getn bits t) (\<lambda>n. foreachi_loop bits call 1 n t)"

section \<open>What they compute\<close>

context raw_array
begin

lemma move_up_spec:
  assumes "ok t" and "\<And>k. pos \<le> k \<Longrightarrow> k \<le> i \<Longrightarrow> c_int k"
  shows "outcome (move_up geti seti i pos t)
    (\<lambda>t'. ok t' \<and> (\<forall>k. c_int k \<longrightarrow> geti t' k = (if pos < k \<and> k \<le> i then geti t (k - 1) else geti t k)))"
  using assms
proof (induction "nat (i - pos)" arbitrary: i t rule: less_induct)
  case less
  show ?case
  proof (cases "i > pos")
    case False
    with less.prems(1) show ?thesis by (subst move_up.simps) (auto intro: outcome_ret)
  next
    case True
    have ci: "c_int i" "c_int (i - 1)" using less.prems(2) True by simp_all
    have "outcome (bindT (seti i (geti t (i - 1)) t) (\<lambda>t. move_up geti seti (i - 1) pos t))
      (\<lambda>t'. ok t' \<and> (\<forall>k. c_int k \<longrightarrow> geti t' k = (if pos < k \<and> k \<le> i then geti t (k - 1) else geti t k)))"
    proof (rule outcome_bind [OF seti_outcome [OF less.prems(1) ci(1)]], elim conjE)
      fix t1 assume t1: "ok t1" "\<forall>k. c_int k \<longrightarrow> geti t1 k = (if k = i then geti t (i - 1) else geti t k)"
      have "nat (i - 1 - pos) < nat (i - pos)" using True by simp
      from less.hyps [OF this t1(1)] less.prems(2)
      have "outcome (move_up geti seti (i - 1) pos t1)
        (\<lambda>t'. ok t' \<and> (\<forall>k. c_int k \<longrightarrow> geti t' k = (if pos < k \<and> k \<le> i - 1 then geti t1 (k - 1) else geti t1 k)))" by simp
      then show "outcome (move_up geti seti (i - 1) pos t1)
        (\<lambda>t'. ok t' \<and> (\<forall>k. c_int k \<longrightarrow> geti t' k = (if pos < k \<and> k \<le> i then geti t (k - 1) else geti t k)))"
      proof (rule outcome_mono, elim conjE, intro conjI allI impI)
        fix t' k assume t': "\<forall>k. c_int k \<longrightarrow> geti t' k = (if pos < k \<and> k \<le> i - 1 then geti t1 (k - 1) else geti t1 k)"
          and k: "c_int k"
        have "geti t1 (k - 1) = geti t (k - 1)" if "pos < k" "k \<le> i - 1"
          using t1(2) less.prems(2) [of "k - 1"] that by auto
        then show "geti t' k = (if pos < k \<and> k \<le> i then geti t (k - 1) else geti t k)"
          using t' t1(2) k True by auto
      qed
    qed
    with True show ?thesis by (subst move_up.simps) simp
  qed
qed

lemma move_down_spec:
  assumes "ok t" and "\<And>k. pos \<le> k \<Longrightarrow> k \<le> e \<Longrightarrow> c_int k"
  shows "outcome (move_down geti seti pos e t)
    (\<lambda>t'. ok t' \<and> (\<forall>k. c_int k \<longrightarrow> geti t' k = (if pos \<le> k \<and> k < e then geti t (k + 1) else geti t k)))"
  using assms
proof (induction "nat (e - pos)" arbitrary: pos t rule: less_induct)
  case less
  show ?case
  proof (cases "pos < e")
    case False
    with less.prems(1) show ?thesis by (subst move_down.simps) (auto intro: outcome_ret)
  next
    case True
    have ci: "c_int pos" "c_int (pos + 1)" using less.prems(2) True by simp_all
    have "outcome (bindT (seti pos (geti t (pos + 1)) t) (\<lambda>t. move_down geti seti (pos + 1) e t))
      (\<lambda>t'. ok t' \<and> (\<forall>k. c_int k \<longrightarrow> geti t' k = (if pos \<le> k \<and> k < e then geti t (k + 1) else geti t k)))"
    proof (rule outcome_bind [OF seti_outcome [OF less.prems(1) ci(1)]], elim conjE)
      fix t1 assume t1: "ok t1" "\<forall>k. c_int k \<longrightarrow> geti t1 k = (if k = pos then geti t (pos + 1) else geti t k)"
      have "nat (e - (pos + 1)) < nat (e - pos)" using True by simp
      from less.hyps [OF this t1(1)] less.prems(2)
      have "outcome (move_down geti seti (pos + 1) e t1)
        (\<lambda>t'. ok t' \<and> (\<forall>k. c_int k \<longrightarrow> geti t' k = (if pos + 1 \<le> k \<and> k < e then geti t1 (k + 1) else geti t1 k)))" by simp
      then show "outcome (move_down geti seti (pos + 1) e t1)
        (\<lambda>t'. ok t' \<and> (\<forall>k. c_int k \<longrightarrow> geti t' k = (if pos \<le> k \<and> k < e then geti t (k + 1) else geti t k)))"
      proof (rule outcome_mono, elim conjE, intro conjI allI impI)
        fix t' k assume t': "\<forall>k. c_int k \<longrightarrow> geti t' k = (if pos + 1 \<le> k \<and> k < e then geti t1 (k + 1) else geti t1 k)"
          and k: "c_int k"
        have "geti t1 (k + 1) = geti t (k + 1)" if "pos + 1 \<le> k" "k < e"
          using t1(2) less.prems(2) [of "k + 1"] that by auto
        then show "geti t' k = (if pos \<le> k \<and> k < e then geti t (k + 1) else geti t k)"
          using t' t1(2) k True by auto
      qed
    qed
    with True show ?thesis by (subst move_down.simps) simp
  qed
qed

end

section \<open>The array as a list\<close>

definition array_list :: "bits \<Rightarrow> ltable \<Rightarrow> nat \<Rightarrow> tvalue list" where
  "array_list bits t n = map (\<lambda>i. lua_rawgeti bits t (int (Suc i))) [0..<n]"

lemma length_array_list [simp]: "length (array_list bits t n) = n"
  by (simp add: array_list_def)

lemma array_list_nth: "i < n \<Longrightarrow> array_list bits t n ! i = lua_rawgeti bits t (int (Suc i))"
  by (simp add: array_list_def)

lemma c_int_upto: "n < MAX_INT \<Longrightarrow> - 1 \<le> k \<Longrightarrow> k \<le> int n + 1 \<Longrightarrow> c_int k"
  by (simp add: c_int_def MAX_INT_def)

text \<open>
  C32. \<open>table.insert\<close> at a position of the array or just behind it (where it also inserts without a
  position) puts the value there, moves the elements from there on one up, and changes no other
  index; or it overflows the table.
\<close>

theorem insert_shifts_up:
  assumes "table_ok bits t" and "luaH_getn bits t = Some n"
    and "args = Insert_At pos v \<and> 1 \<le> pos \<and> pos \<le> int n + 1 \<or> args = Append v \<and> pos = int n + 1"
  shows "tinsert bits args t = Some (luaL_error ''table overflow'')
    \<or> (\<exists>t'. tinsert bits args t = Some (Inr t') \<and> table_ok bits t'
         \<and> array_list bits t' (n + 1) = take (nat pos - 1) (array_list bits t n) @ v # drop (nat pos - 1) (array_list bits t n)
         \<and> (\<forall>k. c_int k \<and> (k < 1 \<or> int n + 1 < k) \<longrightarrow> lua_rawgeti bits t' k = lua_rawgeti bits t k))"
proof -
  have n: "n < MAX_INT" using luaH_getn_spec [OF assms(1)] assms(2) by simp
  have pos: "1 \<le> pos" "pos \<le> int n + 1" using assms(3) by auto
  let ?Q = "\<lambda>t'. table_ok bits t' \<and> (\<forall>k. c_int k \<longrightarrow> lua_rawgeti bits t' k =
    (if k = pos then v else if pos < k \<and> k \<le> int n + 1 then lua_rawgeti bits t (k - 1) else lua_rawgeti bits t k))"
  have cpos: "c_int pos" using c_int_upto [OF n] pos by simp
  have "outcome (tinsert bits args t) ?Q"
  proof (cases "args = Append v \<and> pos = int n + 1")
    case True
    have "outcome (lua_rawseti bits pos v t) ?Q"
      by (rule outcome_mono [OF lua_array.seti_outcome [OF assms(1) cpos]]) (use True in auto)
    with True show ?thesis by (simp add: tinsert_def aux_getn_def assms(2) Let_def)
  next
    case False
    with assms(3) have args: "args = Insert_At pos v" by blast
    have "outcome (bindT (move_up (lua_rawgeti bits) (lua_rawseti bits) (int n + 1) pos t) (\<lambda>t. lua_rawseti bits pos v t)) ?Q"
    proof (rule outcome_bind [OF lua_array.move_up_spec [OF assms(1)]], goal_cases)
      case (1 k)
      then show ?case using c_int_upto [OF n] pos by simp
    next
      case (2 t1)
      then show ?case
        by (intro outcome_mono [OF lua_array.seti_outcome [OF _ cpos]]) auto
    qed
    moreover have "(if pos > int n + 1 then pos else int n + 1) = int n + 1" using pos by simp
    ultimately show ?thesis by (simp add: tinsert_def aux_getn_def assms(2) args Let_def)
  qed
  then consider "tinsert bits args t = overflow" | t' where "tinsert bits args t = Some (Inr t')" "?Q t'"
    by (auto simp: outcome_def)
  then show ?thesis
  proof cases
    case 1
    then show ?thesis by (simp add: overflow_def)
  next
    case 2
    have "array_list bits t' (n + 1) = take (nat pos - 1) (array_list bits t n) @ v # drop (nat pos - 1) (array_list bits t n)"
      (is "?a = ?b")
    proof (rule nth_equalityI)
      show "length ?a = length ?b" using pos by simp
      fix i assume "i < length ?a"
      then have i: "i < n + 1" by simp
      have "c_int (int (Suc i))" using c_int_upto [OF n] i by simp
      with 2 have a: "?a ! i = (if int (Suc i) = pos then v else if pos < int (Suc i) then lua_rawgeti bits t (int i)
          else lua_rawgeti bits t (int (Suc i)))"
        using i by (simp add: array_list_nth del: of_nat_Suc) (simp add: algebra_simps)
      consider "int (Suc i) < pos" | "int (Suc i) = pos" | "pos < int (Suc i)" by linarith
      then show "?a ! i = ?b ! i"
      proof cases
        case 1
        then have "i < nat pos - 1" "i < n" using pos by linarith+
        with a 1 show ?thesis by (simp add: nth_append array_list_nth del: of_nat_Suc)
      next
        case 2
        then have "i = nat pos - 1" by linarith
        with a 2 i show ?thesis by (simp add: nth_append)
      next
        case 3
        define j where "j = i - nat pos"
        from 3 pos have j: "i - (nat pos - 1) = Suc j" "\<not> i < nat pos - 1" "nat pos - 1 + j = i - 1" "0 < i" "i - 1 < n"
          using i by (auto simp: j_def)
        have "?b ! i = array_list bits t n ! (i - 1)"
          using j by (simp add: nth_append)
        also have "\<dots> = lua_rawgeti bits t (int i)" using j by (simp add: array_list_nth)
        finally show ?thesis using a 3 by simp
      qed
    qed
    with 2 pos show ?thesis by auto
  qed
qed

theorem insert_shifts_up_witness:
  "tinsert (\<lambda>_. []) (Insert_At 1 (TBool True)) (array_table [TNumber 2, TNumber 1]) = Some (luaL_error ''table overflow'')
    \<or> (\<exists>t'. tinsert (\<lambda>_. []) (Insert_At 1 (TBool True)) (array_table [TNumber 2, TNumber 1]) = Some (Inr t')
         \<and> array_list (\<lambda>_. []) t' 3 = [TBool True, TNumber 2, TNumber 1])"
proof -
  have len: "length [TNumber 2, TNumber 1] \<le> MAXASIZE" by (simp add: MAXASIZE_def MAXBITS_def)
  have n: "luaH_getn (\<lambda>_. []) (array_table [TNumber 2, TNumber 1]) = Some 2"
    using array_table_getn [of "[TNumber 2, TNumber 1]"] by simp
  have "array_list (\<lambda>_. []) (array_table [TNumber 2, TNumber 1]) 2 = [TNumber 2, TNumber 1]"
    using array_table_geti [OF _ _ len, of 1] array_table_geti [OF _ _ len, of 2]
    by (simp add: array_list_def numeral_2_eq_2)
  with insert_shifts_up [OF array_table_ok [OF len] n, of "Insert_At 1 (TBool True)" 1 "TBool True"] show ?thesis
    by (auto simp: numeral_3_eq_3)
qed

text \<open>
  \<open>table.remove\<close> at a position of the array (by default the last) returns the value there, moves
  the elements behind it one down, clears the last index, and changes no other; outside the array it
  returns nothing and changes nothing.
\<close>

theorem remove_shifts_down:
  assumes "table_ok bits t" and "luaH_getn bits t = Some n"
  shows "tremove bits arg t = Some (luaL_error ''table overflow'')
    \<or> (\<exists>r t'. tremove bits arg t = Some (Inr (r, t')) \<and> table_ok bits t'
         \<and> (let pos = (case arg of None \<Rightarrow> int n | Some p \<Rightarrow> p) in
            if 1 \<le> pos \<and> pos \<le> int n
            then r = [array_list bits t n ! nat (pos - 1)]
              \<and> array_list bits t' n = take (nat pos - 1) (array_list bits t n) @ drop (nat pos) (array_list bits t n) @ [TNil]
              \<and> (\<forall>k. c_int k \<and> (k < 1 \<or> int n < k) \<longrightarrow> lua_rawgeti bits t' k = lua_rawgeti bits t k)
            else r = [] \<and> t' = t))"
proof -
  have n: "n < MAX_INT" using luaH_getn_spec [OF assms(1)] assms(2) by simp
  define pos where "pos = (case arg of None \<Rightarrow> int n | Some p \<Rightarrow> p)"
  show ?thesis
  proof (cases "1 \<le> pos \<and> pos \<le> int n")
    case False
    then have "tremove bits arg t = Some (Inr ([], t))"
      by (simp add: tremove_def aux_getn_def assms(2) Let_def pos_def [symmetric])
    with False assms(1) show ?thesis by (auto simp: pos_def [symmetric])
  next
    case pos: True
    let ?Q = "\<lambda>t'. table_ok bits t' \<and> (\<forall>k. c_int k \<longrightarrow> lua_rawgeti bits t' k =
      (if k = int n then TNil else if pos \<le> k \<and> k < int n then lua_rawgeti bits t (k + 1) else lua_rawgeti bits t k))"
    have cn: "c_int (int n)" using c_int_upto [OF n] by simp
    have "outcome (bindT (move_down (lua_rawgeti bits) (lua_rawseti bits) pos (int n) t) (\<lambda>t. lua_rawseti bits (int n) TNil t)) ?Q"
    proof (rule outcome_bind [OF lua_array.move_down_spec [OF assms(1)]], goal_cases)
      case (1 k)
      then show ?case using c_int_upto [OF n] pos by simp
    next
      case (2 t1)
      then show ?case by (intro outcome_mono [OF lua_array.seti_outcome [OF _ cn]]) auto
    qed
    then have "outcome (bindT (bindT (move_down (lua_rawgeti bits) (lua_rawseti bits) pos (int n) t) (\<lambda>t. lua_rawseti bits (int n) TNil t))
        (\<lambda>t'. Some (Inr ([lua_rawgeti bits t pos], t')))) (\<lambda>(r, t'). r = [lua_rawgeti bits t pos] \<and> ?Q t')"
      by (rule outcome_bind) (auto intro: outcome_ret)
    then have "outcome (tremove bits arg t) (\<lambda>(r, t'). r = [lua_rawgeti bits t pos] \<and> ?Q t')"
      using pos by (simp add: tremove_def aux_getn_def assms(2) Let_def pos_def [symmetric] bindT_assoc)
    then consider "tremove bits arg t = overflow"
      | t' where "tremove bits arg t = Some (Inr ([lua_rawgeti bits t pos], t'))" "?Q t'"
      by (auto simp: outcome_def)
    then show ?thesis
    proof cases
      case 1
      then show ?thesis by (simp add: overflow_def)
    next
      case 2
      have "array_list bits t' n = take (nat pos - 1) (array_list bits t n) @ drop (nat pos) (array_list bits t n) @ [TNil]"
        (is "?a = ?b")
      proof (rule nth_equalityI)
        show "length ?a = length ?b" using pos by auto
        fix i assume "i < length ?a"
        then have i: "i < n" by simp
        have "c_int (int (Suc i))" using c_int_upto [OF n] i by simp
        with 2 have a: "?a ! i = (if Suc i = n then TNil else if pos \<le> int (Suc i) then lua_rawgeti bits t (int (Suc (Suc i)))
            else lua_rawgeti bits t (int (Suc i)))"
          using i by (simp add: array_list_nth del: of_nat_Suc) (simp add: algebra_simps)
        show "?a ! i = ?b ! i"
        proof (cases "int (Suc i) < pos")
          case True
          then have "i < nat pos - 1" using pos by linarith
          with a True pos i show ?thesis by (simp add: nth_append array_list_nth del: of_nat_Suc)
        next
          case False
          have j: "\<not> i < nat pos - 1" "i - (nat pos - 1) + nat pos = Suc i" using False pos by linarith+
          show ?thesis
          proof (cases "Suc i = n")
            case True
            with a j pos show ?thesis by (simp add: nth_append)
          next
            case no: False
            then have "i - (nat pos - 1) < n - nat pos" using i j pos by linarith
            with a j no False i pos show ?thesis
              by (simp add: nth_append array_list_nth add.commute [of "nat pos"] del: of_nat_Suc)
          qed
        qed
      qed
      moreover have "lua_rawgeti bits t pos = array_list bits t n ! nat (pos - 1)"
        using pos array_list_nth [of "nat (pos - 1)" n bits t] by (simp add: nat_less_iff)
      ultimately show ?thesis using 2 pos by (auto simp: pos_def [symmetric])
    qed
  qed
qed

theorem remove_shifts_down_witness:
  "tremove (\<lambda>_. []) (Some 1) (array_table [TNumber 2, TNumber 1]) = Some (luaL_error ''table overflow'')
    \<or> (\<exists>t'. tremove (\<lambda>_. []) (Some 1) (array_table [TNumber 2, TNumber 1]) = Some (Inr ([TNumber 2], t'))
         \<and> array_list (\<lambda>_. []) t' 2 = [TNumber 1, TNil])"
proof -
  have len: "length [TNumber 2, TNumber 1] \<le> MAXASIZE" by (simp add: MAXASIZE_def MAXBITS_def)
  have n: "luaH_getn (\<lambda>_. []) (array_table [TNumber 2, TNumber 1]) = Some 2"
    using array_table_getn [of "[TNumber 2, TNumber 1]"] by simp
  have "array_list (\<lambda>_. []) (array_table [TNumber 2, TNumber 1]) 2 = [TNumber 2, TNumber 1]"
    using array_table_geti [OF _ _ len, of 1] array_table_geti [OF _ _ len, of 2]
    by (simp add: array_list_def numeral_2_eq_2)
  with remove_shifts_down [OF array_table_ok [OF len] n, of "Some 1"] show ?thesis
    by (auto simp: Let_def)
qed

section \<open>Concatenation\<close>

fun concat_text :: "lua_conv \<Rightarrow> tvalue \<Rightarrow> string option" where
  "concat_text cv (TString s) = Some s"
| "concat_text cv (TNumber n) = Some (number2str cv n)"
| "concat_text cv _ = None"

fun join :: "string \<Rightarrow> string list \<Rightarrow> string" where
  "join sep [] = []"
| "join sep [s] = s"
| "join sep (s # s' # ss) = s @ sep @ join sep (s' # ss)"

lemma addfield_text:
  "addfield bits cv tname bufsiz t B i =
     (case concat_text cv (lua_rawgeti bits t i) of
        Some s \<Rightarrow> Inr (luaL_addvalue bufsiz B s)
      | None \<Rightarrow> addfield bits cv tname bufsiz t B i)"
  "concat_text cv (lua_rawgeti bits t i) = None \<Longrightarrow> addfield bits cv tname bufsiz t B i = addfield bits cv tname bufsiz t B' i
     \<and> (\<exists>e. addfield bits cv tname bufsiz t B i = Inl e)"
  by (cases "lua_rawgeti bits t i"; simp add: addfield_def luaL_error_def)+

lemma concat_loop_join:
  assumes "\<And>k. i \<le> k \<Longrightarrow> k \<le> n \<Longrightarrow> concat_text cv (lua_rawgeti bits t k) = Some (f k)"
  shows "\<exists>B'. concat_loop bits cv tname bufsiz sep t B i n = Inr B' \<and> lb_contents B' = lb_contents B @ join sep (map f [i..n])"
  using assms
proof (induction "nat (n - i)" arbitrary: i B rule: less_induct)
  case less
  have field: "addfield bits cv tname bufsiz t B i = Inr (luaL_addvalue bufsiz B (f i))" if "i \<le> n" for B
    using less.prems [of i] that by (subst addfield_text(1)) simp
  consider "i < n" | "i = n" | "n < i" by linarith
  then show ?case
  proof cases
    case 1
    let ?B = "luaL_addlstring bufsiz (luaL_addvalue bufsiz B (f i)) sep"
    from less.hyps [of "i + 1" ?B] less.prems 1 obtain B' where
      B': "concat_loop bits cv tname bufsiz sep t ?B (i + 1) n = Inr B'"
        "lb_contents B' = lb_contents ?B @ join sep (map f [i + 1..n])" by auto
    have "[i..n] = i # [i + 1..n]" "[i + 1..n] = (i + 1) # [i + 1 + 1..n]" using 1 by (simp_all add: upto_rec1)
    then have "join sep (map f [i..n]) = f i @ sep @ join sep (map f [i + 1..n])" by simp
    with B' field 1 show ?thesis
      by (subst concat_loop.simps) (simp add: contents_addlstring contents_addvalue)
  next
    case 2
    with field show ?thesis by (subst concat_loop.simps) (simp add: contents_addvalue)
  next
    case 3
    then show ?thesis by (subst concat_loop.simps) simp
  qed
qed

lemma concat_loop_error:
  assumes "i \<le> m" and "m \<le> n" and "concat_text cv (lua_rawgeti bits t m) = None"
    and "\<And>k. i \<le> k \<Longrightarrow> k < m \<Longrightarrow> concat_text cv (lua_rawgeti bits t k) \<noteq> None"
  shows "\<exists>e. concat_loop bits cv tname bufsiz sep t B i n = Inl e \<and> addfield bits cv tname bufsiz t luaL_buffinit m = Inl e"
  using assms(1,4)
proof (induction "nat (m - i)" arbitrary: i B rule: less_induct)
  case less
  obtain e where e: "addfield bits cv tname bufsiz t B m = Inl e" "addfield bits cv tname bufsiz t luaL_buffinit m = Inl e" for B
    using addfield_text(2) [OF assms(3)] by metis
  show ?case
  proof (cases "i = m")
    case True
    with e assms(2) show ?thesis by (subst concat_loop.simps) (cases "m < n"; simp)
  next
    case False
    with less.prems(1) have im: "i < m" by simp
    then obtain s where s: "concat_text cv (lua_rawgeti bits t i) = Some s" using less.prems(2) [of i] by auto
    then have field: "addfield bits cv tname bufsiz t B i = Inr (luaL_addvalue bufsiz B s)"
      by (subst addfield_text(1)) simp
    from less.hyps [of "i + 1" "luaL_addlstring bufsiz (luaL_addvalue bufsiz B s) sep"] im less.prems
    show ?thesis using field im assms(2) by (subst concat_loop.simps) simp
  qed
qed

text \<open>
  \<open>table.concat\<close> joins the strings and numbers of the index range with the separator, whatever
  the size of the buffer; if an index holds anything else it raises the error of the first such index.
\<close>

theorem concat_joins:
  "((\<forall>k. i \<le> k \<and> k \<le> n \<longrightarrow> concat_text cv (lua_rawgeti bits t k) \<noteq> None) \<longrightarrow>
      tconcat bits cv tname bufsiz (Some sep) (Some i) (Some n) t
        = Some (Inr (join sep (map (\<lambda>k. the (concat_text cv (lua_rawgeti bits t k))) [i..n]))))
   \<and> (\<forall>m. i \<le> m \<and> m \<le> n \<and> concat_text cv (lua_rawgeti bits t m) = None
        \<and> (\<forall>k. i \<le> k \<and> k < m \<longrightarrow> concat_text cv (lua_rawgeti bits t k) \<noteq> None) \<longrightarrow>
      (\<exists>e. tconcat bits cv tname bufsiz (Some sep) (Some i) (Some n) t = Some (Inl e)
         \<and> addfield bits cv tname bufsiz t luaL_buffinit m = Inl e))"
proof (intro conjI impI allI)
  assume all: "\<forall>k. i \<le> k \<and> k \<le> n \<longrightarrow> concat_text cv (lua_rawgeti bits t k) \<noteq> None"
  obtain B where "concat_loop bits cv tname bufsiz sep t luaL_buffinit i n = Inr B"
    "lb_contents B = lb_contents luaL_buffinit @ join sep (map (\<lambda>k. the (concat_text cv (lua_rawgeti bits t k))) [i..n])"
    using concat_loop_join [of i n cv bits t "\<lambda>k. the (concat_text cv (lua_rawgeti bits t k))"] all by force
  then show "tconcat bits cv tname bufsiz (Some sep) (Some i) (Some n) t
        = Some (Inr (join sep (map (\<lambda>k. the (concat_text cv (lua_rawgeti bits t k))) [i..n])))"
    by (simp add: tconcat_def pushresult_contents contents_buffinit)
next
  fix m assume m: "i \<le> m \<and> m \<le> n \<and> concat_text cv (lua_rawgeti bits t m) = None
    \<and> (\<forall>k. i \<le> k \<and> k < m \<longrightarrow> concat_text cv (lua_rawgeti bits t k) \<noteq> None)"
  with concat_loop_error [of i m n cv bits t]
  obtain e where "concat_loop bits cv tname bufsiz sep t luaL_buffinit i n = Inl e"
    "addfield bits cv tname bufsiz t luaL_buffinit m = Inl e" by blast
  then show "\<exists>e. tconcat bits cv tname bufsiz (Some sep) (Some i) (Some n) t = Some (Inl e)
         \<and> addfield bits cv tname bufsiz t luaL_buffinit m = Inl e"
    by (simp add: tconcat_def)
qed

theorem concat_joins_witness:
  "tconcat (\<lambda>_. []) plain_conv (\<lambda>_. []) 512 (Some '', '') (Some 1) (Some 2) (array_table [TString ''a'', TString ''b''])
     = Some (Inr ''a, b'')"
proof -
  have len: "length [TString ''a'', TString ''b''] \<le> MAXASIZE" by (simp add: MAXASIZE_def MAXBITS_def)
  have two: "[1..2] = [1, 2 :: int]" by (simp add: upto.simps)
  have get: "lua_rawgeti (\<lambda>_. []) (array_table [TString ''a'', TString ''b'']) 1 = TString ''a''"
    "lua_rawgeti (\<lambda>_. []) (array_table [TString ''a'', TString ''b'']) 2 = TString ''b''"
    using array_table_geti [OF _ _ len, of 1] array_table_geti [OF _ _ len, of 2] by simp_all
  have "concat_text plain_conv (lua_rawgeti (\<lambda>_. []) (array_table [TString ''a'', TString ''b'']) k) \<noteq> None"
    if "1 \<le> k \<and> k \<le> 2" for k
  proof -
    have "k = 1 \<or> k = 2" using that by auto
    with get show ?thesis by auto
  qed
  with concat_joins [of 1 2 plain_conv "\<lambda>_. []" "array_table [TString ''a'', TString ''b'']" "\<lambda>_. []" 512 "'', ''"]
  show ?thesis by (simp add: two get)
qed

end
