(* ===== verification/Lua_Pattern.thy ===== *)
theory Lua_Pattern
  imports Lua_Api
begin

text \<open>
  Pattern matching of \<open>lstrlib.c\<close>. A position in the subject or in the pattern is an offset; the
  pattern ends at its first NUL, which \<open>cnth\<close> also reads at its end. The captures in use
  (\<open>capture[0 .. level - 1]\<close>) are a list, and \<open>level\<close> its length. The functions that try a
  continuation of the match (\<open>max_expand\<close> and so on) take it as an argument: \<open>k s caps\<close> is
  \<open>match (ms, s, \<dots>)\<close>. The character classes are those of the C locale.
\<close>

section \<open>Character classes\<close>

definition islower :: "char \<Rightarrow> bool" where "islower c \<longleftrightarrow> 97 \<le> uc c \<and> uc c \<le> 122"
definition isupper :: "char \<Rightarrow> bool" where "isupper c \<longleftrightarrow> 65 \<le> uc c \<and> uc c \<le> 90"
definition isalpha :: "char \<Rightarrow> bool" where "isalpha c \<longleftrightarrow> islower c \<or> isupper c"
definition isdigit :: "char \<Rightarrow> bool" where "isdigit c \<longleftrightarrow> 48 \<le> uc c \<and> uc c \<le> 57"
definition isalnum :: "char \<Rightarrow> bool" where "isalnum c \<longleftrightarrow> isalpha c \<or> isdigit c"
definition iscntrl :: "char \<Rightarrow> bool" where "iscntrl c \<longleftrightarrow> uc c < 32 \<or> uc c = 127"
definition ispunct :: "char \<Rightarrow> bool" where "ispunct c \<longleftrightarrow> 33 \<le> uc c \<and> uc c \<le> 126 \<and> \<not> isalnum c"
definition isspace_c :: "char \<Rightarrow> bool" where "isspace_c c \<longleftrightarrow> uc c = 32 \<or> 9 \<le> uc c \<and> uc c \<le> 13"
definition isxdigit :: "char \<Rightarrow> bool" where
  "isxdigit c \<longleftrightarrow> isdigit c \<or> 65 \<le> uc c \<and> uc c \<le> 70 \<or> 97 \<le> uc c \<and> uc c \<le> 102"
definition tolower :: "char \<Rightarrow> char" where "tolower c = (if isupper c then char_of (uc c + 32) else c)"
definition toupper :: "char \<Rightarrow> char" where "toupper c = (if islower c then char_of (uc c - 32) else c)"

section \<open>The data\<close>

datatype caplen = Cap_Unfinished | Cap_Position | Cap_Len nat

type_synonym captures = "(nat \<times> caplen) list"

type_synonym match_result = "lua_error + nat option \<times> captures"

abbreviation L_ESC :: char where "L_ESC \<equiv> CHR ''%''"

definition LUA_MAXCAPTURES :: nat where "LUA_MAXCAPTURES = 32"

section \<open>Captures\<close>

definition check_capture :: "captures \<Rightarrow> char \<Rightarrow> lua_error + nat" where
  "check_capture caps l =
     (if uc l < 49 \<or> length caps \<le> uc l - 49 \<or> snd (caps ! (uc l - 49)) = Cap_Unfinished
      then luaL_error ''invalid capture index'' else Inr (uc l - 49))"

fun close_from :: "captures \<Rightarrow> nat \<Rightarrow> lua_error + nat" where
  "close_from caps 0 = luaL_error ''invalid pattern capture''"
| "close_from caps (Suc l) = (if snd (caps ! l) = Cap_Unfinished then Inr l else close_from caps l)"

definition capture_to_close :: "captures \<Rightarrow> lua_error + nat" where
  "capture_to_close caps = close_from caps (length caps)"

section \<open>Single characters\<close>

text \<open>The loop that looks for the bracket that closes a set.\<close>

function set_end :: "string \<Rightarrow> nat \<Rightarrow> lua_error + nat" where
  "set_end pat i =
     (if cnth pat i = NUL then luaL_error (''malformed pattern (missing '' @ quoted '']'' @ '')'')
      else (let j = (if cnth pat i = L_ESC \<and> cnth pat (i + 1) \<noteq> NUL then i + 2 else i + 1)
            in if cnth pat j \<noteq> CHR '']'' then set_end pat j else Inr (j + 1)))"
  by pat_completeness auto
termination
  by (relation "measure (\<lambda>(pat, i). length pat - i)") (auto simp: cnth_def split: if_splits)

declare set_end.simps [simp del]

definition classend :: "string \<Rightarrow> nat \<Rightarrow> lua_error + nat" where
  "classend pat i =
     (if cnth pat i = L_ESC then
        (if cnth pat (i + 1) = NUL then luaL_error (''malformed pattern (ends with '' @ quoted ''%'' @ '')'')
         else Inr (i + 2))
      else if cnth pat i = CHR ''['' then set_end pat (if cnth pat (i + 1) = CHR ''^'' then i + 2 else i + 1)
      else Inr (i + 1))"

definition match_class :: "char \<Rightarrow> char \<Rightarrow> bool" where
  "match_class c cl =
     (let res = (case tolower cl of
          CHR ''a'' \<Rightarrow> Some (isalpha c)
        | CHR ''c'' \<Rightarrow> Some (iscntrl c)
        | CHR ''d'' \<Rightarrow> Some (isdigit c)
        | CHR ''l'' \<Rightarrow> Some (islower c)
        | CHR ''p'' \<Rightarrow> Some (ispunct c)
        | CHR ''s'' \<Rightarrow> Some (isspace_c c)
        | CHR ''u'' \<Rightarrow> Some (isupper c)
        | CHR ''w'' \<Rightarrow> Some (isalnum c)
        | CHR ''x'' \<Rightarrow> Some (isxdigit c)
        | CHR ''z'' \<Rightarrow> Some (c = NUL)
        | _ \<Rightarrow> None)
      in case res of None \<Rightarrow> cl = c | Some r \<Rightarrow> if islower cl then r else \<not> r)"

text \<open>The loop of \<open>matchbracketclass\<close>; \<open>i\<close> is before the next element, \<open>ec\<close> at the closing bracket.\<close>

function bracket_loop :: "char \<Rightarrow> string \<Rightarrow> nat \<Rightarrow> nat \<Rightarrow> bool \<Rightarrow> bool" where
  "bracket_loop c pat i ec sig =
     (let p = i + 1 in
      if p < ec then
        (if cnth pat p = L_ESC then
           (if match_class c (cnth pat (p + 1)) then sig else bracket_loop c pat (p + 1) ec sig)
         else if cnth pat (p + 1) = CHR ''-'' \<and> p + 2 < ec then
           (if uc (cnth pat p) \<le> uc c \<and> uc c \<le> uc (cnth pat (p + 2)) then sig
            else bracket_loop c pat (p + 2) ec sig)
         else if cnth pat p = c then sig
         else bracket_loop c pat p ec sig)
      else \<not> sig)"
  by pat_completeness auto
termination
  by (relation "measure (\<lambda>(c, pat, i, ec, sig). ec - i)") auto

declare bracket_loop.simps [simp del]

definition matchbracketclass :: "char \<Rightarrow> string \<Rightarrow> nat \<Rightarrow> nat \<Rightarrow> bool" where
  "matchbracketclass c pat p ec =
     (if cnth pat (p + 1) = CHR ''^'' then bracket_loop c pat (p + 1) ec False
      else bracket_loop c pat p ec True)"

definition singlematch :: "char \<Rightarrow> string \<Rightarrow> nat \<Rightarrow> nat \<Rightarrow> bool" where
  "singlematch c pat p ep =
     (if cnth pat p = CHR ''.'' then True
      else if cnth pat p = L_ESC then match_class c (cnth pat (p + 1))
      else if cnth pat p = CHR ''['' then matchbracketclass c pat p (ep - 1)
      else cnth pat p = c)"

text \<open>\<open>s < ms->src_end && singlematch (uchar (*s), p, ep)\<close>\<close>

definition single_at :: "string \<Rightarrow> string \<Rightarrow> nat \<Rightarrow> nat \<Rightarrow> nat \<Rightarrow> bool" where
  "single_at src pat p ep s \<longleftrightarrow> s < length src \<and> singlematch (src ! s) pat p ep"

section \<open>Balanced strings and back references\<close>

function balance_loop :: "string \<Rightarrow> char \<Rightarrow> char \<Rightarrow> nat \<Rightarrow> nat \<Rightarrow> nat option" where
  "balance_loop src b e cont s =
     (if s + 1 < length src then
        (if src ! (s + 1) = e then
           (if cont - 1 = 0 then Some (s + 2) else balance_loop src b e (cont - 1) (s + 1))
         else if src ! (s + 1) = b then balance_loop src b e (cont + 1) (s + 1)
         else balance_loop src b e cont (s + 1))
      else None)"
  by pat_completeness auto
termination
  by (relation "measure (\<lambda>(src, b, e, cont, s). length src - s)") auto

declare balance_loop.simps [simp del]

definition matchbalance :: "string \<Rightarrow> nat \<Rightarrow> string \<Rightarrow> nat \<Rightarrow> lua_error + nat option" where
  "matchbalance src s pat p =
     (if cnth pat p = NUL \<or> cnth pat (p + 1) = NUL then luaL_error ''unbalanced pattern''
      else if cnth src s \<noteq> cnth pat p then Inr None
      else Inr (balance_loop src (cnth pat p) (cnth pat (p + 1)) 1 s))"

definition match_capture :: "string \<Rightarrow> nat \<Rightarrow> captures \<Rightarrow> char \<Rightarrow> lua_error + nat option" where
  "match_capture src s caps l =
     bindE (check_capture caps l) (\<lambda>l.
       case snd (caps ! l) of
         Cap_Len len \<Rightarrow>
           if len \<le> length src - s \<and> take len (drop (fst (caps ! l)) src) = take len (drop s src)
           then Inr (Some (s + len)) else Inr None
       | _ \<Rightarrow> Inr None)"

section \<open>Repetitions and captures\<close>

text \<open>How many characters from \<open>s\<close> on match the item.\<close>

function max_run :: "string \<Rightarrow> string \<Rightarrow> nat \<Rightarrow> nat \<Rightarrow> nat \<Rightarrow> nat" where
  "max_run src pat p ep s = (if single_at src pat p ep s then Suc (max_run src pat p ep (s + 1)) else 0)"
  by pat_completeness auto
termination
  by (relation "measure (\<lambda>(src, pat, p, ep, s). length src - s)") (auto simp: single_at_def)

declare max_run.simps [simp del]

type_synonym continuation = "nat \<Rightarrow> captures \<Rightarrow> match_result"

fun try_down :: "continuation \<Rightarrow> nat \<Rightarrow> nat \<Rightarrow> captures \<Rightarrow> match_result" where
  "try_down k s n caps =
     bindE (k (s + n) caps) (\<lambda>(r, caps).
       case r of
         Some e \<Rightarrow> Inr (Some e, caps)
       | None \<Rightarrow> (case n of 0 \<Rightarrow> Inr (None, caps) | Suc n \<Rightarrow> try_down k s n caps))"

declare try_down.simps [simp del]

definition max_expand :: "continuation \<Rightarrow> string \<Rightarrow> string \<Rightarrow> nat \<Rightarrow> nat \<Rightarrow> nat \<Rightarrow> captures \<Rightarrow> match_result" where
  "max_expand k src pat p ep s caps = try_down k s (max_run src pat p ep s) caps"

function min_expand :: "continuation \<Rightarrow> string \<Rightarrow> string \<Rightarrow> nat \<Rightarrow> nat \<Rightarrow> nat \<Rightarrow> captures \<Rightarrow> match_result" where
  "min_expand k src pat p ep s caps =
     bindE (k s caps) (\<lambda>(r, caps).
       case r of
         Some e \<Rightarrow> Inr (Some e, caps)
       | None \<Rightarrow> if single_at src pat p ep s then min_expand k src pat p ep (s + 1) caps else Inr (None, caps))"
  by pat_completeness auto
termination
  by (relation "measure (\<lambda>(k, src, pat, p, ep, s, caps). length src - s)") (auto simp: single_at_def)

declare min_expand.simps [simp del]

definition start_capture :: "continuation \<Rightarrow> nat \<Rightarrow> caplen \<Rightarrow> captures \<Rightarrow> match_result" where
  "start_capture k s what caps =
     (if LUA_MAXCAPTURES \<le> length caps then luaL_error ''too many captures''
      else bindE (k s (caps @ [(s, what)])) (\<lambda>(r, caps).
        Inr (r, if r = None then butlast caps else caps)))"

definition set_caplen :: "nat \<Rightarrow> caplen \<Rightarrow> captures \<Rightarrow> captures" where
  "set_caplen l c caps = caps[l := (fst (caps ! l), c)]"

definition end_capture :: "continuation \<Rightarrow> nat \<Rightarrow> captures \<Rightarrow> match_result" where
  "end_capture k s caps =
     bindE (capture_to_close caps) (\<lambda>l.
     bindE (k s (set_caplen l (Cap_Len (s - fst (caps ! l))) caps)) (\<lambda>(r, caps).
       Inr (r, if r = None then set_caplen l Cap_Unfinished caps else caps)))"

section \<open>The matcher\<close>

text \<open>\<open>default: dflt:\<close> -- the item is a single character, perhaps with a suffix.\<close>

definition plain_item :: "string \<Rightarrow> nat \<Rightarrow> bool" where
  "plain_item pat i \<longleftrightarrow>
     cnth pat i \<notin> {CHR ''('', CHR '')'', NUL}
   \<and> \<not> (cnth pat i = L_ESC \<and> (cnth pat (i + 1) \<in> {CHR ''b'', CHR ''f''} \<or> isdigit (cnth pat (i + 1))))
   \<and> \<not> (cnth pat i = CHR ''$'' \<and> cnth pat (i + 1) = NUL)"

definition frontier :: "string \<Rightarrow> string \<Rightarrow> nat \<Rightarrow> nat \<Rightarrow> nat \<Rightarrow> bool" where
  "frontier src pat p ep s \<longleftrightarrow>
     \<not> matchbracketclass (if s = 0 then NUL else src ! (s - 1)) pat p (ep - 1)
   \<and> matchbracketclass (cnth src s) pat p (ep - 1)"

lemma set_end_gt: "set_end pat i = Inr ep \<Longrightarrow> i < ep \<and> ep \<le> length pat"
proof (induction pat i rule: set_end.induct)
  case (1 pat i)
  let ?j = "if cnth pat i = L_ESC \<and> cnth pat (i + 1) \<noteq> NUL then i + 2 else i + 1"
  have n: "cnth pat i \<noteq> NUL" using 1(2) by (auto simp: set_end.simps [of pat i] luaL_error_def)
  show ?case
  proof (cases "cnth pat ?j = CHR '']''")
    case True
    then have "?j < length pat" by (auto simp: cnth_def split: if_splits)
    with True n 1(2) show ?thesis by (auto simp: set_end.simps [of pat i] Let_def split: if_splits)
  next
    case False
    with n 1(2) have "set_end pat ?j = Inr ep" by (simp add: set_end.simps [of pat i] Let_def)
    from 1(1) [OF n refl False this] show ?thesis by (auto split: if_splits)
  qed
qed

lemma classend_gt: "classend pat i = Inr ep \<Longrightarrow> cnth pat i \<noteq> NUL \<Longrightarrow> i < ep \<and> ep \<le> length pat"
  by (auto simp: classend_def luaL_error_def cnth_def dest!: set_end_gt split: if_splits)

lemma cnth_less: "cnth pat i \<noteq> NUL \<Longrightarrow> i < length pat"
  by (auto simp: cnth_def split: if_splits)

lemma item_step: "cnth pat i \<noteq> NUL \<Longrightarrow> i < j \<Longrightarrow> length pat + 1 - j < length pat + 1 - i"
  using cnth_less [of pat i] by simp

function do_match :: "string \<Rightarrow> string \<Rightarrow> nat \<Rightarrow> nat \<Rightarrow> captures \<Rightarrow> match_result" where
  "do_match src pat i s caps =
     (if cnth pat i = CHR ''('' then
        (if cnth pat (i + 1) = CHR '')'' then start_capture (\<lambda>s caps. do_match src pat (i + 2) s caps) s Cap_Position caps
         else start_capture (\<lambda>s caps. do_match src pat (i + 1) s caps) s Cap_Unfinished caps)
      else if cnth pat i = CHR '')'' then end_capture (\<lambda>s caps. do_match src pat (i + 1) s caps) s caps
      else if cnth pat i = L_ESC \<and> cnth pat (i + 1) = CHR ''b'' then
        bindE (matchbalance src s pat (i + 2)) (\<lambda>r.
          case r of None \<Rightarrow> Inr (None, caps) | Some s \<Rightarrow> do_match src pat (i + 4) s caps)
      else if cnth pat i = L_ESC \<and> cnth pat (i + 1) = CHR ''f'' then
        (if cnth pat (i + 2) \<noteq> CHR ''['' then
           luaL_error (''missing '' @ quoted ''['' @ '' after '' @ quoted ''%f'' @ '' in pattern'')
         else bindE (classend pat (i + 2)) (\<lambda>ep.
           if \<not> frontier src pat (i + 2) ep s then Inr (None, caps) else do_match src pat ep s caps))
      else if cnth pat i = L_ESC \<and> isdigit (cnth pat (i + 1)) then
        bindE (match_capture src s caps (cnth pat (i + 1))) (\<lambda>r.
          case r of None \<Rightarrow> Inr (None, caps) | Some s \<Rightarrow> do_match src pat (i + 2) s caps)
      else if cnth pat i = NUL then Inr (Some s, caps)
      else if cnth pat i = CHR ''$'' \<and> cnth pat (i + 1) = NUL then
        Inr (if s = length src then Some s else None, caps)
      else bindE (classend pat i) (\<lambda>ep.
        let m = single_at src pat i ep s in
        if cnth pat ep = CHR ''?'' then
          (if m then
             bindE (do_match src pat (ep + 1) (s + 1) caps) (\<lambda>(r, caps).
               case r of Some e \<Rightarrow> Inr (Some e, caps) | None \<Rightarrow> do_match src pat (ep + 1) s caps)
           else do_match src pat (ep + 1) s caps)
        else if cnth pat ep = CHR ''*'' then
          max_expand (\<lambda>s caps. do_match src pat (ep + 1) s caps) src pat i ep s caps
        else if cnth pat ep = CHR ''+'' then
          (if m then max_expand (\<lambda>s caps. do_match src pat (ep + 1) s caps) src pat i ep (s + 1) caps
           else Inr (None, caps))
        else if cnth pat ep = CHR ''-'' then
          min_expand (\<lambda>s caps. do_match src pat (ep + 1) s caps) src pat i ep s caps
        else if m then do_match src pat ep (s + 1) caps else Inr (None, caps)))"
  by pat_completeness auto
termination
  by (relation "measure (\<lambda>(src, pat, i, s, caps). length pat + 1 - i)")
    (simp_all only: in_measure wf_measure prod.case, (rule item_step, simp, force dest: classend_gt)+)

declare do_match.simps [simp del]

end
