(* ===== verification/Lua_Lex.thy ===== *)
theory Lua_Lex
  imports Lua_Pattern Lua_String
begin

text \<open>
  The lexical analyzer, \<open>llex.c\<close>. The input stream is the string of the bytes that are left, the
  current character first; the empty string is the end of the stream (\<open>EOZ\<close>), where \<open>next\<close> stays.
  \<open>LUA_COMPAT_LSTR\<close> is 1, as \<open>luaconf.h\<close> has it. An error carries the line, the message and the
  text it is near, the pieces \<open>luaX_lexerror\<close> prints. The buffer's growth is not modelled.
  The conversion of numerals (\<open>luaO_str2d\<close>, which calls \<open>strtod\<close>) is the parameter
  \<open>str2number\<close> of the API model and the locale's decimal point the parameter \<open>dp\<close>.
\<close>

section \<open>Tokens\<close>

text \<open>\<open>Single c\<close> is the token number \<open>c\<close>, \<open>Reserved i\<close> is \<open>FIRST_RESERVED + i\<close>.\<close>

datatype token =
    Single char
  | Reserved nat
  | TK_CONCAT | TK_DOTS | TK_EQ | TK_GE | TK_LE | TK_NE
  | TK_NUMBER real
  | TK_NAME string
  | TK_STRING string
  | TK_EOS

definition reserved_words :: "string list" where
  "reserved_words =
     [''and'', ''break'', ''do'', ''else'', ''elseif'', ''end'', ''false'', ''for'', ''function'', ''if'',
      ''in'', ''local'', ''nil'', ''not'', ''or'', ''repeat'', ''return'', ''then'', ''true'', ''until'', ''while'']"

fun word_index :: "string \<Rightarrow> string list \<Rightarrow> nat option" where
  "word_index w [] = None"
| "word_index w (x # xs) = (if x = w then Some 0 else map_option Suc (word_index w xs))"

definition luaX_token2str :: "lua_conv \<Rightarrow> token \<Rightarrow> string" where
  "luaX_token2str cv t =
     (case t of
        Single c \<Rightarrow> if iscntrl c then ''char('' @ number2str cv (real (uc c)) @ '')'' else [c]
      | Reserved i \<Rightarrow> reserved_words ! i
      | TK_CONCAT \<Rightarrow> ''..'' | TK_DOTS \<Rightarrow> ''...'' | TK_EQ \<Rightarrow> ''=='' | TK_GE \<Rightarrow> ''>='' | TK_LE \<Rightarrow> ''<='' | TK_NE \<Rightarrow> ''~=''
      | TK_NUMBER _ \<Rightarrow> ''<number>'' | TK_NAME _ \<Rightarrow> ''<name>'' | TK_STRING _ \<Rightarrow> ''<string>'' | TK_EOS \<Rightarrow> ''<eof>'')"

section \<open>The state\<close>

record lexstate =
  ls_rest :: string
  ls_buff :: string
  ls_line :: nat
  ls_lastline :: nat
  ls_t :: token
  ls_lookahead :: token
  ls_decpoint :: char

record lex_error =
  le_line :: nat
  le_msg :: string
  le_near :: "string option"

text \<open>\<open>luaX_setinput\<close>; the caller's \<open>LexState\<close> has no current token yet.\<close>

definition luaX_setinput :: "string \<Rightarrow> lexstate" where
  "luaX_setinput z = \<lparr>ls_rest = z, ls_buff = [], ls_line = 1, ls_lastline = 1, ls_t = TK_EOS,
     ls_lookahead = TK_EOS, ls_decpoint = CHR ''.''\<rparr>"

definition current :: "lexstate \<Rightarrow> char option" where
  "current ls = (case ls_rest ls of [] \<Rightarrow> None | c # _ \<Rightarrow> Some c)"

definition cur_is :: "(char \<Rightarrow> bool) \<Rightarrow> lexstate \<Rightarrow> bool" where
  "cur_is P ls \<longleftrightarrow> (case current ls of None \<Rightarrow> False | Some c \<Rightarrow> P c)"

definition next_char :: "lexstate \<Rightarrow> lexstate" where
  "next_char ls = ls\<lparr>ls_rest := tl (ls_rest ls)\<rparr>"

definition save :: "char \<Rightarrow> lexstate \<Rightarrow> lexstate" where
  "save c ls = ls\<lparr>ls_buff := ls_buff ls @ [c]\<rparr>"

definition resetbuffer :: "lexstate \<Rightarrow> lexstate" where
  "resetbuffer ls = ls\<lparr>ls_buff := []\<rparr>"

text \<open>The character that \<open>save\<close> stores for \<open>EOZ\<close> is \<open>(char) -1\<close>.\<close>

definition save_and_next :: "lexstate \<Rightarrow> lexstate" where
  "save_and_next ls = next_char (save (case current ls of None \<Rightarrow> CHR 0xFF | Some c \<Rightarrow> c) ls)"

definition currIsNewline :: "lexstate \<Rightarrow> bool" where
  "currIsNewline ls = cur_is (\<lambda>c. c = LF \<or> c = CR) ls"

section \<open>Errors\<close>

definition txtToken :: "lua_conv \<Rightarrow> lexstate \<Rightarrow> token \<Rightarrow> string" where
  "txtToken cv ls t =
     (case t of TK_NAME _ \<Rightarrow> cstr (ls_buff ls) | TK_STRING _ \<Rightarrow> cstr (ls_buff ls) | TK_NUMBER _ \<Rightarrow> cstr (ls_buff ls)
      | _ \<Rightarrow> luaX_token2str cv t)"

definition luaX_lexerror :: "lua_conv \<Rightarrow> lexstate \<Rightarrow> string \<Rightarrow> token option \<Rightarrow> lex_error + 'a" where
  "luaX_lexerror cv ls msg t =
     Inl \<lparr>le_line = ls_line ls, le_msg = msg, le_near = map_option (txtToken cv ls) t\<rparr>"

definition luaX_syntaxerror :: "lua_conv \<Rightarrow> lexstate \<Rightarrow> string \<Rightarrow> lex_error + 'a" where
  "luaX_syntaxerror cv ls msg = luaX_lexerror cv ls msg (Some (ls_t ls))"

definition inclinenumber :: "lua_conv \<Rightarrow> lexstate \<Rightarrow> lex_error + lexstate" where
  "inclinenumber cv ls =
     (let old = current ls; ls = next_char ls;
          ls = (if currIsNewline ls \<and> current ls \<noteq> old then next_char ls else ls);
          ls = ls\<lparr>ls_line := ls_line ls + 1\<rparr>
      in if MAX_INT \<le> ls_line ls then luaX_syntaxerror cv ls ''chunk has too many lines'' else Inr ls)"

section \<open>Numerals\<close>

text \<open>\<open>strchr\<close> also finds the terminator of \<open>set\<close>.\<close>

definition check_next :: "lexstate \<Rightarrow> string \<Rightarrow> bool \<times> lexstate" where
  "check_next ls set' = (if cur_is (\<lambda>c. c \<in> set set' \<or> c = NUL) ls then (True, save_and_next ls) else (False, ls))"

function save_while :: "(char \<Rightarrow> bool) \<Rightarrow> lexstate \<Rightarrow> lexstate" where
  "save_while P ls = (if cur_is P ls then save_while P (save_and_next ls) else ls)"
  by pat_completeness auto
termination
  by (relation "measure (\<lambda>(P, ls). length (ls_rest ls))")
    (auto simp: cur_is_def current_def save_and_next_def next_char_def save_def split: list.splits)

declare save_while.simps [simp del]

definition buffreplace :: "char \<Rightarrow> char \<Rightarrow> lexstate \<Rightarrow> lexstate" where
  "buffreplace x y ls = ls\<lparr>ls_buff := map (\<lambda>c. if c = x then y else c) (ls_buff ls)\<rparr>"

definition trydecpoint :: "lua_conv \<Rightarrow> char \<Rightarrow> lexstate \<Rightarrow> lex_error + token \<times> lexstate" where
  "trydecpoint cv dp ls =
     (let old = ls_decpoint ls; ls = buffreplace old dp (ls\<lparr>ls_decpoint := dp\<rparr>) in
      case str2number cv (cstr (ls_buff ls)) of
        Some r \<Rightarrow> Inr (TK_NUMBER r, ls)
      | None \<Rightarrow> luaX_lexerror cv (buffreplace dp (CHR ''.'') ls) ''malformed number'' (Some (TK_NUMBER 0)))"

definition read_numeral :: "lua_conv \<Rightarrow> char \<Rightarrow> lexstate \<Rightarrow> lex_error + token \<times> lexstate" where
  "read_numeral cv dp ls =
     (let ls = save_while (\<lambda>c. isdigit c \<or> c = CHR ''.'') (save_and_next ls);
          (exponent, ls) = check_next ls ''Ee'';
          ls = (if exponent then snd (check_next ls ''+-'') else ls);
          ls = save_while (\<lambda>c. isalnum c \<or> c = CHR ''_'') ls;
          ls = buffreplace (CHR ''.'') (ls_decpoint ls) (save NUL ls)
      in case str2number cv (cstr (ls_buff ls)) of
           Some r \<Rightarrow> Inr (TK_NUMBER r, ls)
         | None \<Rightarrow> trydecpoint cv dp ls)"

section \<open>Long strings\<close>

text \<open>\<open>skip_sep\<close>: the level of a bracket, or \<open>-count - 1\<close> when the second one is missing.\<close>

function sep_loop :: "lexstate \<Rightarrow> nat \<Rightarrow> nat \<times> lexstate" where
  "sep_loop ls count =
     (if current ls = Some (CHR ''='') then sep_loop (save_and_next ls) (count + 1) else (count, ls))"
  by pat_completeness auto
termination
  by (relation "measure (\<lambda>(ls, count). length (ls_rest ls))")
    (auto simp: current_def save_and_next_def next_char_def save_def split: list.splits)

declare sep_loop.simps [simp del]

definition skip_sep :: "lexstate \<Rightarrow> int \<times> lexstate" where
  "skip_sep ls =
     (let s = current ls; (count, ls) = sep_loop (save_and_next ls) 0
      in (if current ls = s then int count else - int count - 1, ls))"

text \<open>How much input is left.\<close>

abbreviation left :: "lexstate \<Rightarrow> nat" where "left ls \<equiv> length (ls_rest ls)"

lemma left_next [simp]: "left (next_char ls) = left ls - 1"
  by (simp add: next_char_def)

lemma rest_save [simp]: "ls_rest (save c ls) = ls_rest ls" "ls_rest (resetbuffer ls) = ls_rest ls"
  by (simp_all add: save_def resetbuffer_def)

lemma left_save_and_next [simp]: "left (save_and_next ls) = left ls - 1"
  by (simp add: save_and_next_def)

lemma current_left: "current ls = Some c \<Longrightarrow> 0 < left ls"
  by (auto simp: current_def split: list.splits)

lemma current_end [simp]: "ls_rest ls = [] \<Longrightarrow> current ls = None"
  by (simp add: current_def)

lemma left_pred [simp]: "current ls = Some c \<Longrightarrow> left ls - Suc 0 < left ls"
  by (cases "ls_rest ls") auto

lemma left_pred2: "n \<le> left ls - Suc (Suc 0) \<Longrightarrow> current ls = Some c \<Longrightarrow> n < left ls"
  by (cases "ls_rest ls") auto

lemma cur_is_left: "cur_is P ls \<Longrightarrow> 0 < left ls"
  by (auto simp: cur_is_def split: option.splits)

lemma sep_loop_left: "left (snd (sep_loop ls n)) \<le> left ls"
  by (induction ls n rule: sep_loop.induct) (subst sep_loop.simps, force)

lemma skip_sep_left: "skip_sep ls = (n, ls') \<Longrightarrow> 0 < left ls \<Longrightarrow> left ls' < left ls"
  using sep_loop_left [of "save_and_next ls" 0]
  by (cases "ls_rest ls") (auto simp: skip_sep_def split: prod.splits)

lemma inclinenumber_left: "inclinenumber cv ls = Inr ls' \<Longrightarrow> 0 < left ls \<Longrightarrow> left ls' < left ls"
  by (auto simp: inclinenumber_def Let_def luaX_syntaxerror_def luaX_lexerror_def split: if_splits)

function long_loop :: "lua_conv \<Rightarrow> bool \<Rightarrow> int \<Rightarrow> lexstate \<Rightarrow> lex_error + lexstate" where
  "long_loop cv seminfo sep ls =
     (case current ls of
        None \<Rightarrow>
          luaX_lexerror cv ls (if seminfo then ''unfinished long string'' else ''unfinished long comment'') (Some TK_EOS)
      | Some c \<Rightarrow>
          if c = CHR ''['' then
            (case skip_sep ls of (n, ls) \<Rightarrow>
               if n = sep then
                 (let ls = save_and_next ls in
                  if sep = 0 then luaX_lexerror cv ls ''nesting of [[...]] is deprecated'' (Some (Single (CHR ''['')))
                  else long_loop cv seminfo sep ls)
               else long_loop cv seminfo sep ls)
          else if c = CHR '']'' then
            (case skip_sep ls of (n, ls) \<Rightarrow>
               if n = sep then Inr (save_and_next ls) else long_loop cv seminfo sep ls)
          else if c = LF \<or> c = CR then
            bindE (inclinenumber cv (save LF ls)) (\<lambda>ls.
              long_loop cv seminfo sep (if seminfo then ls else resetbuffer ls))
          else long_loop cv seminfo sep (if seminfo then save_and_next ls else next_char ls))"
  by pat_completeness auto
termination
  by (relation "measure (\<lambda>(cv, seminfo, sep, ls). left ls)")
    (auto dest!: skip_sep_left [OF sym] inclinenumber_left simp: current_left less_imp_diff_less split: prod.splits)

declare long_loop.simps [simp del]

definition read_long_string :: "lua_conv \<Rightarrow> bool \<Rightarrow> int \<Rightarrow> lexstate \<Rightarrow> lex_error + token \<times> lexstate" where
  "read_long_string cv seminfo sep ls =
     (let ls = save_and_next ls in
      bindE (if currIsNewline ls then inclinenumber cv ls else Inr ls) (\<lambda>ls.
      bindE (long_loop cv seminfo sep ls) (\<lambda>ls.
        let k = nat (2 + sep) in
        Inr (TK_STRING (take (length (ls_buff ls) - 2 * k) (drop k (ls_buff ls))), ls))))"

section \<open>Quoted strings\<close>

definition escape_char :: "char \<Rightarrow> char option" where
  "escape_char c = map_of
     [(CHR ''a'', CHR 0x07), (CHR ''b'', CHR 0x08), (CHR ''f'', CHR 0x0C), (CHR ''n'', LF), (CHR ''r'', CR),
      (CHR ''t'', TAB), (CHR ''v'', CHR 0x0B)] c"

text \<open>\<open>\ddd\<close>: at most three digits.\<close>

fun dec_loop :: "nat \<Rightarrow> nat \<Rightarrow> lexstate \<Rightarrow> nat \<times> lexstate" where
  "dec_loop 0 c ls = (c, ls)"
| "dec_loop (Suc i) c ls =
     (case current ls of
        Some d \<Rightarrow> if isdigit d then dec_loop i (10 * c + (uc d - 48)) (next_char ls) else (c, ls)
      | None \<Rightarrow> (c, ls))"

lemma dec_loop_left: "left (snd (dec_loop i c ls)) \<le> left ls"
  by (induction i c ls rule: dec_loop.induct) (force split: option.splits)+

lemma dec_loop_less: "current ls = Some d \<Longrightarrow> isdigit d \<Longrightarrow> dec_loop 3 0 ls = (n, ls') \<Longrightarrow> left ls' < left ls"
  using dec_loop_left [of 2 "uc d - 48" "next_char ls"] current_left [of ls d]
  by (cases "ls_rest ls") (auto simp: numeral_3_eq_3 numeral_2_eq_2)

text \<open>The inner \<open>switch\<close> of \<open>read_string\<close>, after the backslash.\<close>

definition read_escape :: "lua_conv \<Rightarrow> lexstate \<Rightarrow> lex_error + lexstate" where
  "read_escape cv ls =
     (case current ls of
        None \<Rightarrow> Inr ls
      | Some e \<Rightarrow>
          (case escape_char e of
             Some x \<Rightarrow> Inr (next_char (save x ls))
           | None \<Rightarrow>
               if e = LF \<or> e = CR then inclinenumber cv (save LF ls)
               else if \<not> isdigit e then Inr (save_and_next ls)
               else (let (n, ls) = dec_loop 3 0 ls in
                     if 255 < n then luaX_lexerror cv ls ''escape sequence too large'' (Some (TK_STRING []))
                     else Inr (save (char_of n) ls))))"

lemma read_escape_left: "read_escape cv ls = Inr ls' \<Longrightarrow> left ls' \<le> left ls"
  using dec_loop_left [of 3 0 ls] inclinenumber_left [of cv "save LF ls" ls']
  by (cases "ls_rest ls")
    (auto simp: read_escape_def luaX_lexerror_def Let_def split: option.splits if_splits prod.splits)

function string_loop :: "lua_conv \<Rightarrow> char \<Rightarrow> lexstate \<Rightarrow> lex_error + lexstate" where
  "string_loop cv del ls =
     (case current ls of
        None \<Rightarrow> luaX_lexerror cv ls ''unfinished string'' (Some TK_EOS)
      | Some c \<Rightarrow>
          if c = del then Inr ls
          else if c = LF \<or> c = CR then luaX_lexerror cv ls ''unfinished string'' (Some (TK_STRING []))
          else if c = CHR 0x5C then bindE (read_escape cv (next_char ls)) (string_loop cv del)
          else string_loop cv del (save_and_next ls))"
  by pat_completeness auto
termination
  by (relation "measure (\<lambda>(cv, del, ls). left ls)") (auto dest!: read_escape_left intro: le_less_trans)

declare string_loop.simps [simp del]

definition read_string :: "lua_conv \<Rightarrow> char \<Rightarrow> lexstate \<Rightarrow> lex_error + token \<times> lexstate" where
  "read_string cv del ls =
     bindE (string_loop cv del (save_and_next ls)) (\<lambda>ls.
       let ls = save_and_next ls in
       Inr (TK_STRING (take (length (ls_buff ls) - 2) (drop 1 (ls_buff ls))), ls))"

section \<open>Comments\<close>

function skip_line :: "lexstate \<Rightarrow> lexstate" where
  "skip_line ls = (if current ls \<noteq> None \<and> \<not> currIsNewline ls then skip_line (next_char ls) else ls)"
  by pat_completeness auto
termination by (relation "measure left") auto

declare skip_line.simps [simp del]

text \<open>What follows \<open>--\<close>.\<close>

definition skip_comment :: "lua_conv \<Rightarrow> lexstate \<Rightarrow> lex_error + lexstate" where
  "skip_comment cv ls =
     (let (sep, ls) = (if current ls = Some (CHR ''['') then (case skip_sep ls of (sep, ls) \<Rightarrow> (sep, resetbuffer ls))
                       else (- 1, ls))
      in if 0 \<le> sep then bindE (read_long_string cv False sep ls) (\<lambda>(_, ls). Inr (resetbuffer ls))
         else Inr (skip_line ls))"

lemma skip_line_left: "left (skip_line ls) \<le> left ls"
  by (induction ls rule: skip_line.induct) (subst skip_line.simps, force)

lemma long_loop_left: "long_loop cv seminfo sep ls = Inr ls' \<Longrightarrow> left ls' \<le> left ls"
proof (induction "left ls" arbitrary: ls rule: less_induct)
  case less
  note eq = less.prems [unfolded long_loop.simps [of cv seminfo sep ls]]
  then obtain c where c: "current ls = Some c" by (auto simp: luaX_lexerror_def split: option.splits)
  then have pos: "0 < left ls" by (rule current_left)
  have go: "left ls' \<le> left ls" if "long_loop cv seminfo sep ls1 = Inr ls'" "left ls1 < left ls" for ls1
    using less.hyps [OF that(2,1)] that(2) by simp
  show ?case
  proof (cases "c = CHR ''['' \<or> c = CHR '']''")
    case True
    obtain n ls1 where s: "skip_sep ls = (n, ls1)" by (cases "skip_sep ls")
    with True eq c go [of "save_and_next ls1"] go [of ls1] skip_sep_left [OF s pos] show ?thesis
      by (auto simp: luaX_lexerror_def Let_def split: if_splits)
  next
    case False
    show ?thesis
    proof (cases "c = LF \<or> c = CR")
      case True
      with False eq c obtain ls1 where i: "inclinenumber cv (save LF ls) = Inr ls1"
          "long_loop cv seminfo sep (if seminfo then ls1 else resetbuffer ls1) = Inr ls'"
        by (auto simp: bindE_Inr_iff)
      with inclinenumber_left [OF i(1)] pos show ?thesis by (intro go [OF i(2)]) auto
    next
      case False': False
      with False eq c have "long_loop cv seminfo sep (if seminfo then save_and_next ls else next_char ls) = Inr ls'"
        by simp
      then show ?thesis by (rule go) (use c in auto)
    qed
  qed
qed

lemma read_long_string_left: "read_long_string cv seminfo sep ls = Inr (t, ls') \<Longrightarrow> left ls' \<le> left ls"
  by (auto simp: read_long_string_def bindE_Inr_iff Let_def split: if_splits
      dest!: long_loop_left inclinenumber_left intro: order_trans dest: cur_is_left simp: currIsNewline_def)

lemma skip_comment_left: "skip_comment cv ls = Inr ls' \<Longrightarrow> left ls' \<le> left ls"
  by (auto simp: skip_comment_def bindE_Inr_iff skip_line_left current_left Let_def
      dest!: read_long_string_left skip_sep_left split: if_splits prod.splits intro: order_trans [OF skip_line_left])

section \<open>The scanner\<close>

definition with_eq :: "token \<Rightarrow> token \<Rightarrow> lexstate \<Rightarrow> token \<times> lexstate" where
  "with_eq one two ls =
     (let ls = next_char ls in if current ls \<noteq> Some (CHR ''='') then (one, ls) else (two, next_char ls))"

definition read_name :: "lexstate \<Rightarrow> token \<times> lexstate" where
  "read_name ls =
     (let ls = save_while (\<lambda>c. isalnum c \<or> c = CHR ''_'') (save_and_next ls) in
      case word_index (ls_buff ls) reserved_words of
        Some i \<Rightarrow> (Reserved i, ls)
      | None \<Rightarrow> (TK_NAME (ls_buff ls), ls))"

definition read_dots :: "lua_conv \<Rightarrow> char \<Rightarrow> lexstate \<Rightarrow> lex_error + token \<times> lexstate" where
  "read_dots cv dp ls =
     (let (two, ls) = check_next (save_and_next ls) ''.'' in
      if two then (let (three, ls) = check_next ls ''.'' in Inr (if three then TK_DOTS else TK_CONCAT, ls))
      else if \<not> cur_is isdigit ls then Inr (Single (CHR ''.''), ls)
      else read_numeral cv dp ls)"

function llex_loop :: "lua_conv \<Rightarrow> char \<Rightarrow> lexstate \<Rightarrow> lex_error + token \<times> lexstate" where
  "llex_loop cv dp ls =
     (case current ls of
        None \<Rightarrow> Inr (TK_EOS, ls)
      | Some c \<Rightarrow>
          if c = LF \<or> c = CR then bindE (inclinenumber cv ls) (llex_loop cv dp)
          else if c = CHR ''-'' then
            (if current (next_char ls) \<noteq> Some (CHR ''-'') then Inr (Single (CHR ''-''), next_char ls)
             else bindE (skip_comment cv (next_char (next_char ls))) (llex_loop cv dp))
          else if c = CHR ''['' then
            (case skip_sep ls of (sep, ls) \<Rightarrow>
               if 0 \<le> sep then read_long_string cv True sep ls
               else if sep = - 1 then Inr (Single (CHR ''[''), ls)
               else luaX_lexerror cv ls ''invalid long string delimiter'' (Some (TK_STRING [])))
          else if c = CHR ''='' then Inr (with_eq (Single c) TK_EQ ls)
          else if c = CHR ''<'' then Inr (with_eq (Single c) TK_LE ls)
          else if c = CHR ''>'' then Inr (with_eq (Single c) TK_GE ls)
          else if c = CHR ''~'' then Inr (with_eq (Single c) TK_NE ls)
          else if c = CHR 0x22 \<or> c = CHR 0x27 then read_string cv c ls
          else if c = CHR ''.'' then read_dots cv dp ls
          else if isspace_c c then llex_loop cv dp (next_char ls)
          else if isdigit c then read_numeral cv dp ls
          else if isalpha c \<or> c = CHR ''_'' then Inr (read_name ls)
          else Inr (Single c, next_char ls))"
  by pat_completeness auto
termination
  by (relation "measure (\<lambda>(cv, dp, ls). left ls)")
    (auto dest!: skip_comment_left inclinenumber_left intro: left_pred2 simp: current_left)

declare llex_loop.simps [simp del]

definition llex :: "lua_conv \<Rightarrow> char \<Rightarrow> lexstate \<Rightarrow> lex_error + token \<times> lexstate" where
  "llex cv dp ls = llex_loop cv dp (resetbuffer ls)"

definition luaX_next :: "lua_conv \<Rightarrow> char \<Rightarrow> lexstate \<Rightarrow> lex_error + lexstate" where
  "luaX_next cv dp ls =
     (let ls = ls\<lparr>ls_lastline := ls_line ls\<rparr> in
      if ls_lookahead ls \<noteq> TK_EOS then Inr (ls\<lparr>ls_t := ls_lookahead ls, ls_lookahead := TK_EOS\<rparr>)
      else bindE (llex cv dp ls) (\<lambda>(t, ls). Inr (ls\<lparr>ls_t := t\<rparr>)))"

definition luaX_lookahead :: "lua_conv \<Rightarrow> char \<Rightarrow> lexstate \<Rightarrow> lex_error + lexstate" where
  "luaX_lookahead cv dp ls = bindE (llex cv dp ls) (\<lambda>(t, ls). Inr (ls\<lparr>ls_lookahead := t\<rparr>))"

text \<open>
  A NUL byte passes \<open>check_next\<close> for every set, so a dot and a NUL make the token of two dots.
\<close>

lemma dot_nul_is_concat:
  assumes "ls_rest ls = CHR ''.'' # NUL # c # r" and "c \<noteq> CHR ''.''" and "c \<noteq> NUL"
  shows "\<exists>ls'. llex cv dp ls = Inr (TK_CONCAT, ls') \<and> ls_rest ls' = c # r"
  using assms unfolding llex_def llex_loop.simps [of cv dp "resetbuffer ls"]
  by (simp add: current_def isspace_c_def read_dots_def check_next_def cur_is_def save_and_next_def next_char_def save_def)

end
