(* ===== verification/Lua_Match.thy ===== *)
theory Lua_Match
  imports Lua_Pattern
begin

text \<open>
  What the matcher of \<open>Lua_Pattern\<close> decides. The relation \<open>matches\<close> says, without an order of
  attempts and without undoing anything, when a pattern matches at a position; \<open>do_match\<close> finds a
  match whenever there is one (\<open>match_decides\<close>) and keeps every capture inside the subject
  (\<open>match_captures_inside\<close>).
\<close>

section \<open>The relation\<close>

text \<open>How often the item before the suffix \<open>c\<close> may be repeated, and where the pattern goes on.\<close>

definition repetitions :: "char \<Rightarrow> nat \<Rightarrow> bool" where
  "repetitions c n \<longleftrightarrow>
     (if c = CHR ''?'' then n \<le> 1 else if c = CHR ''*'' \<or> c = CHR ''-'' then True
      else if c = CHR ''+'' then 1 \<le> n else n = 1)"

definition after_suffix :: "string \<Rightarrow> nat \<Rightarrow> nat" where
  "after_suffix pat ep = (if cnth pat ep \<in> {CHR ''?'', CHR ''*'', CHR ''-'', CHR ''+''} then ep + 1 else ep)"

definition run_of :: "string \<Rightarrow> string \<Rightarrow> nat \<Rightarrow> nat \<Rightarrow> nat \<Rightarrow> nat \<Rightarrow> bool" where
  "run_of src pat i ep s n \<longleftrightarrow> (\<forall>j < n. single_at src pat i ep (s + j))"

inductive matches :: "string \<Rightarrow> string \<Rightarrow> nat \<Rightarrow> nat \<Rightarrow> captures \<Rightarrow> nat \<Rightarrow> captures \<Rightarrow> bool"
  for src pat where
  m_end: "cnth pat i = NUL \<Longrightarrow> matches src pat i s caps s caps"
| m_eos: "\<lbrakk>cnth pat i = CHR ''$''; cnth pat (i + 1) = NUL\<rbrakk>
    \<Longrightarrow> matches src pat i (length src) caps (length src) caps"
| m_position: "\<lbrakk>cnth pat i = CHR ''(''; cnth pat (i + 1) = CHR '')''; length caps < LUA_MAXCAPTURES;
     matches src pat (i + 2) s (caps @ [(s, Cap_Position)]) e caps'\<rbrakk>
    \<Longrightarrow> matches src pat i s caps e caps'"
| m_open: "\<lbrakk>cnth pat i = CHR ''(''; cnth pat (i + 1) \<noteq> CHR '')''; length caps < LUA_MAXCAPTURES;
     matches src pat (i + 1) s (caps @ [(s, Cap_Unfinished)]) e caps'\<rbrakk>
    \<Longrightarrow> matches src pat i s caps e caps'"
| m_close: "\<lbrakk>cnth pat i = CHR '')''; capture_to_close caps = Inr l;
     matches src pat (i + 1) s (set_caplen l (Cap_Len (s - fst (caps ! l))) caps) e caps'\<rbrakk>
    \<Longrightarrow> matches src pat i s caps e caps'"
| m_balance: "\<lbrakk>cnth pat i = L_ESC; cnth pat (i + 1) = CHR ''b'';
     matchbalance src s pat (i + 2) = Inr (Some s'); matches src pat (i + 4) s' caps e caps'\<rbrakk>
    \<Longrightarrow> matches src pat i s caps e caps'"
| m_frontier: "\<lbrakk>cnth pat i = L_ESC; cnth pat (i + 1) = CHR ''f''; cnth pat (i + 2) = CHR ''['';
     classend pat (i + 2) = Inr ep; frontier src pat (i + 2) ep s; matches src pat ep s caps e caps'\<rbrakk>
    \<Longrightarrow> matches src pat i s caps e caps'"
| m_back: "\<lbrakk>cnth pat i = L_ESC; isdigit (cnth pat (i + 1));
     match_capture src s caps (cnth pat (i + 1)) = Inr (Some s'); matches src pat (i + 2) s' caps e caps'\<rbrakk>
    \<Longrightarrow> matches src pat i s caps e caps'"
| m_item: "\<lbrakk>plain_item pat i; classend pat i = Inr ep; repetitions (cnth pat ep) n; run_of src pat i ep s n;
     matches src pat (after_suffix pat ep) (s + n) caps e caps'\<rbrakk>
    \<Longrightarrow> matches src pat i s caps e caps'"

inductive_simps matches_iff: "matches src pat i s caps e caps'"

section \<open>What a continuation decides\<close>

definition decides :: "continuation \<Rightarrow> (nat \<Rightarrow> captures \<Rightarrow> nat \<Rightarrow> captures \<Rightarrow> bool) \<Rightarrow> bool" where
  "decides k P \<longleftrightarrow>
     (\<forall>s caps r caps'. k s caps = Inr (r, caps') \<longrightarrow>
        (case r of Some e \<Rightarrow> P s caps e caps' | None \<Rightarrow> caps' = caps \<and> (\<nexists>e c. P s caps e c)))"

lemma decidesI:
  assumes "\<And>s caps e caps'. k s caps = Inr (Some e, caps') \<Longrightarrow> P s caps e caps'"
    and "\<And>s caps caps'. k s caps = Inr (None, caps') \<Longrightarrow> caps' = caps \<and> (\<nexists>e c. P s caps e c)"
  shows "decides k P"
  using assms by (auto simp: decides_def split: option.splits)

lemma decides_Some: "decides k P \<Longrightarrow> k s caps = Inr (Some e, caps') \<Longrightarrow> P s caps e caps'"
  by (fastforce simp: decides_def)

lemma decides_None: "decides k P \<Longrightarrow> k s caps = Inr (None, caps') \<Longrightarrow> caps' = caps \<and> \<not> P s caps e c"
  by (fastforce simp: decides_def)

lemma decides_none: "decides k P \<Longrightarrow> k s caps = Inr (None, caps') \<Longrightarrow> caps' = caps \<and> (\<nexists>e c. P s caps e c)"
  by (fastforce simp: decides_def)

lemma run_of_0 [simp]: "run_of src pat i ep s 0"
  by (simp add: run_of_def)

lemma run_of_1 [simp]: "run_of src pat i ep s (Suc 0) = single_at src pat i ep s"
  by (simp add: run_of_def)

lemma run_of_Suc: "run_of src pat i ep s (Suc n) \<longleftrightarrow> single_at src pat i ep s \<and> run_of src pat i ep (s + 1) n"
  unfolding run_of_def by (auto simp: All_less_Suc2)

lemma ex_run:
  "(\<exists>n. run_of src pat i ep s n \<and> Q (s + n)) \<longleftrightarrow>
     Q s \<or> single_at src pat i ep s \<and> (\<exists>n. run_of src pat i ep (s + 1) n \<and> Q (s + 1 + n))"
proof -
  have "(\<exists>n. run_of src pat i ep s n \<and> Q (s + n)) \<longleftrightarrow>
      Q s \<or> (\<exists>n. run_of src pat i ep s (Suc n) \<and> Q (s + Suc n))"
    by (metis add.right_neutral not0_implies_Suc run_of_0)
  then show ?thesis by (simp add: run_of_Suc)
qed

lemma run_of_max_run: "run_of src pat i ep s n \<longleftrightarrow> n \<le> max_run src pat i ep s"
proof (induction n arbitrary: s)
  case (Suc n)
  then show ?case by (simp add: run_of_Suc max_run.simps [of src pat i ep s])
qed simp

lemma try_down_0: "try_down k s 0 caps = k s caps"
  by (cases "k s caps") (auto simp: try_down.simps [of k s 0] split: option.split)

lemma try_down_Suc:
  "try_down k s (Suc n) caps =
     bindE (k (s + Suc n) caps) (\<lambda>(r, c). case r of Some e \<Rightarrow> Inr (Some e, c) | None \<Rightarrow> try_down k s n c)"
  by (cases "k (s + Suc n) caps") (auto simp: try_down.simps [of k s "Suc n"] split: option.split)

lemma try_down_decides:
  assumes k: "decides k P"
  shows "decides (\<lambda>s caps. try_down k s n caps) (\<lambda>s caps e c. \<exists>m \<le> n. P (s + m) caps e c)"
proof (induction n)
  case 0
  show ?case using k by (simp add: decides_def try_down_0)
next
  case (Suc n)
  have "case r of Some e \<Rightarrow> \<exists>m \<le> Suc n. P (s + m) caps e caps'
      | None \<Rightarrow> caps' = caps \<and> (\<nexists>e c. \<exists>m \<le> Suc n. P (s + m) caps e c)"
    if run: "try_down k s (Suc n) caps = Inr (r, caps')" for s caps r caps'
  proof -
    from run obtain r1 c where r1: "k (s + Suc n) caps = Inr (r1, c)"
      by (cases "k (s + Suc n) caps") (auto simp: try_down_Suc)
    show ?thesis
    proof (cases r1)
      case (Some e)
      with run r1 have "r = Some e" "caps' = c" by (simp_all add: try_down_Suc)
      with decides_Some [OF k r1 [unfolded Some]] show ?thesis by auto
    next
      case None
      note no = decides_None [OF k r1 [unfolded None]]
      with run r1 None have "try_down k s n caps = Inr (r, caps')" by (simp add: try_down_Suc)
      with Suc no show ?thesis by (fastforce simp: decides_def le_Suc_eq split: option.splits)
    qed
  qed
  then show ?case by (simp add: decides_def)
qed

lemma max_expand_decides:
  assumes k: "decides k P"
  shows "decides (max_expand k src pat i ep) (\<lambda>s caps e c. \<exists>n. run_of src pat i ep s n \<and> P (s + n) caps e c)"
  using try_down_decides [OF k] by (simp add: decides_def max_expand_def run_of_max_run)

lemma min_expand_decides:
  assumes k: "decides k P"
  shows "decides (min_expand k src pat i ep) (\<lambda>s caps e c. \<exists>n. run_of src pat i ep s n \<and> P (s + n) caps e c)"
proof -
  have "case r of Some e \<Rightarrow> \<exists>n. run_of src pat i ep s n \<and> P (s + n) caps e caps'
     | None \<Rightarrow> caps' = caps \<and> (\<nexists>e c n. run_of src pat i ep s n \<and> P (s + n) caps e c)"
    if "min_expand k src pat i ep s caps = Inr (r, caps')" for r s caps caps'
    using that
  proof (induction "length src - s" arbitrary: s rule: less_induct)
    case less
    note now = less.prems [unfolded min_expand.simps [of k src pat i ep s caps]]
    then obtain r1 c where r1: "k s caps = Inr (r1, c)" by (auto simp: bindE_Inr_iff)
    show ?case
    proof (cases r1)
      case (Some e)
      with now r1 have "r = Some e" "caps' = c" by auto
      then show ?thesis using decides_Some [OF k r1 [unfolded Some]] by (auto intro!: exI [of _ 0])
    next
      case None
      note no = decides_None [OF k r1 [unfolded None]]
      show ?thesis
      proof (cases "single_at src pat i ep s")
        case True
        with now r1 None no have again: "min_expand k src pat i ep (s + 1) caps = Inr (r, caps')" by auto
        have "length src - (s + 1) < length src - s" using True by (auto simp: single_at_def)
        from less.hyps [OF this again] True no show ?thesis
          using ex_run [of src pat i ep s "\<lambda>x. P x caps e c" for e c]
          by (simp split: option.splits)
      next
        case False
        with now r1 None have "r = None" "caps' = c" by auto
        with no False show ?thesis by (auto simp: run_of_max_run max_run.simps)
      qed
    qed
  qed
  then show ?thesis by (simp add: decides_def)
qed

lemma start_capture_decides:
  assumes k: "decides k P"
  shows "decides (\<lambda>s caps. start_capture k s what caps)
           (\<lambda>s caps e c. length caps < LUA_MAXCAPTURES \<and> P s (caps @ [(s, what)]) e c)"
proof (rule decidesI)
  fix s caps e caps'
  assume "start_capture k s what caps = Inr (Some e, caps')"
  then show "length caps < LUA_MAXCAPTURES \<and> P s (caps @ [(s, what)]) e caps'"
    using decides_Some [OF k]
    by (auto simp: start_capture_def luaL_error_def bindE_Inr_iff split: if_splits)
next
  fix s caps caps'
  assume "start_capture k s what caps = Inr (None, caps')"
  then show "caps' = caps \<and> (\<nexists>e c. length caps < LUA_MAXCAPTURES \<and> P s (caps @ [(s, what)]) e c)"
    by (auto simp: start_capture_def luaL_error_def bindE_Inr_iff split: if_splits dest: decides_none [OF k])
qed

lemma capture_to_close_ok:
  assumes "capture_to_close caps = Inr l"
  shows "l < length caps" "snd (caps ! l) = Cap_Unfinished"
proof -
  have "l < m \<and> snd (caps ! l) = Cap_Unfinished" if "close_from caps m = Inr l" for m
    using that by (induction m) (auto simp: luaL_error_def split: if_splits)
  from this [of "length caps"] assms show "l < length caps" "snd (caps ! l) = Cap_Unfinished"
    by (auto simp: capture_to_close_def)
qed

lemma set_caplen_undo:
  assumes "capture_to_close caps = Inr l"
  shows "set_caplen l Cap_Unfinished (set_caplen l c caps) = caps"
  using capture_to_close_ok [OF assms] by (simp add: set_caplen_def) (metis list_update_id prod.collapse)

lemma end_capture_decides:
  assumes k: "decides k P"
  shows "decides (end_capture k) (\<lambda>s caps e c. \<exists>l. capture_to_close caps = Inr l
           \<and> P s (set_caplen l (Cap_Len (s - fst (caps ! l))) caps) e c)"
proof (rule decidesI)
  fix s caps e caps'
  assume "end_capture k s caps = Inr (Some e, caps')"
  then show "\<exists>l. capture_to_close caps = Inr l
      \<and> P s (set_caplen l (Cap_Len (s - fst (caps ! l))) caps) e caps'"
    by (auto simp: end_capture_def bindE_Inr_iff split: if_splits dest: decides_Some [OF k])
next
  fix s caps caps'
  assume "end_capture k s caps = Inr (None, caps')"
  then show "caps' = caps \<and> (\<nexists>e c l. capture_to_close caps = Inr l
      \<and> P s (set_caplen l (Cap_Len (s - fst (caps ! l))) caps) e c)"
    by (auto simp: end_capture_def bindE_Inr_iff set_caplen_undo split: if_splits dest!: decides_none [OF k])
qed

section \<open>The matcher decides the relation\<close>

lemma decides_eq: "decides k P \<Longrightarrow> (\<And>s caps e c. Q s caps e c \<longleftrightarrow> P s caps e c) \<Longrightarrow> decides k Q"
  by (subgoal_tac "Q = P", simp) (intro ext, simp)

lemma decides_by:
  assumes "decides k' P"
    and "\<And>s caps. k s caps = k' s caps" and "\<And>s caps e c. Q s caps e c \<longleftrightarrow> P s caps e c"
  shows "decides k Q"
proof -
  have "k = k'" "Q = P" using assms(2,3) by (intro ext, simp)+
  with assms(1) show ?thesis by simp
qed

lemma decides_return: "decides (\<lambda>s caps. Inr (Some (f s), caps)) (\<lambda>s caps e c. e = f s \<and> c = caps)"
  by (simp add: decides_def)

text \<open>A step that fails without touching the captures or goes on from another position.\<close>

lemma decides_step:
  assumes "decides k P"
  shows "decides (\<lambda>s caps. bindE (f s caps) (\<lambda>r. case r of None \<Rightarrow> Inr (None, caps) | Some s' \<Rightarrow> k s' caps))
           (\<lambda>s caps e c. \<exists>s'. f s caps = Inr (Some s') \<and> P s' caps e c)"
proof (rule decidesI)
  fix s caps e caps'
  assume "bindE (f s caps) (\<lambda>r. case r of None \<Rightarrow> Inr (None, caps) | Some s' \<Rightarrow> k s' caps) = Inr (Some e, caps')"
  then show "\<exists>s'. f s caps = Inr (Some s') \<and> P s' caps e caps'"
    using decides_Some [OF assms] by (auto simp: bindE_Inr_iff split: option.splits)
next
  fix s caps caps'
  assume "bindE (f s caps) (\<lambda>r. case r of None \<Rightarrow> Inr (None, caps) | Some s' \<Rightarrow> k s' caps) = Inr (None, caps')"
  then show "caps' = caps \<and> (\<nexists>e c s'. f s caps = Inr (Some s') \<and> P s' caps e c)"
    using decides_none [OF assms] by (auto simp: bindE_Inr_iff split: option.splits)
qed

lemma decides_guard:
  assumes "decides k P"
  shows "decides (\<lambda>s caps. if b s then k (f s) caps else Inr (None, caps)) (\<lambda>s caps e c. b s \<and> P (f s) caps e c)"
  by (rule decidesI) (auto split: if_splits dest: decides_Some [OF assms] decides_none [OF assms])

text \<open>The optional item: with the character first, then without.\<close>

lemma decides_optional:
  assumes k: "decides k P"
  shows "decides (\<lambda>s caps.
      if b s then bindE (k (s + 1) caps) (\<lambda>(r, caps). case r of Some e \<Rightarrow> Inr (Some e, caps) | None \<Rightarrow> k s caps)
      else k s caps)
    (\<lambda>s caps e c. P s caps e c \<or> b s \<and> P (s + 1) caps e c)"
    (is "decides ?f _")
proof (rule decidesI)
  fix s caps e caps'
  assume run: "?f s caps = Inr (Some e, caps')"
  show "P s caps e caps' \<or> b s \<and> P (s + 1) caps e caps'"
  proof (cases "b s")
    case True
    with run obtain r1 c where r1: "k (s + 1) caps = Inr (r1, c)" by (cases "k (s + 1) caps") auto
    with run True show ?thesis by (cases r1) (auto dest: decides_none [OF k] decides_Some [OF k])
  qed (use run decides_Some [OF k] in simp)
next
  fix s caps caps'
  assume run: "?f s caps = Inr (None, caps')"
  show "caps' = caps \<and> (\<nexists>e c. P s caps e c \<or> b s \<and> P (s + 1) caps e c)"
  proof (cases "b s")
    case True
    with run obtain r1 c where r1: "k (s + 1) caps = Inr (r1, c)" by (cases "k (s + 1) caps") auto
    with run True show ?thesis by (cases r1) (auto dest!: decides_none [OF k])
  qed (use run decides_none [OF k] in simp)
qed

lemma matches_special:
  "cnth pat i = CHR ''('' \<Longrightarrow> cnth pat (i + 1) = CHR '')'' \<Longrightarrow>
     matches src pat i s caps e c \<longleftrightarrow> length caps < LUA_MAXCAPTURES
       \<and> matches src pat (i + 2) s (caps @ [(s, Cap_Position)]) e c"
  "cnth pat i = CHR ''('' \<Longrightarrow> cnth pat (i + 1) \<noteq> CHR '')'' \<Longrightarrow>
     matches src pat i s caps e c \<longleftrightarrow> length caps < LUA_MAXCAPTURES
       \<and> matches src pat (i + 1) s (caps @ [(s, Cap_Unfinished)]) e c"
  "cnth pat i = CHR '')'' \<Longrightarrow> matches src pat i s caps e c \<longleftrightarrow> (\<exists>l. capture_to_close caps = Inr l
       \<and> matches src pat (i + 1) s (set_caplen l (Cap_Len (s - fst (caps ! l))) caps) e c)"
  "cnth pat i = L_ESC \<Longrightarrow> cnth pat (i + 1) = CHR ''b'' \<Longrightarrow>
     matches src pat i s caps e c \<longleftrightarrow> (\<exists>s'. matchbalance src s pat (i + 2) = Inr (Some s')
       \<and> matches src pat (i + 4) s' caps e c)"
  "cnth pat i = L_ESC \<Longrightarrow> isdigit (cnth pat (i + 1)) \<Longrightarrow>
     matches src pat i s caps e c \<longleftrightarrow> (\<exists>s'. match_capture src s caps (cnth pat (i + 1)) = Inr (Some s')
       \<and> matches src pat (i + 2) s' caps e c)"
  "cnth pat i = L_ESC \<Longrightarrow> cnth pat (i + 1) = CHR ''f'' \<Longrightarrow> cnth pat (i + 2) = CHR ''['' \<Longrightarrow>
     classend pat (i + 2) = Inr ep \<Longrightarrow>
     matches src pat i s caps e c \<longleftrightarrow> frontier src pat (i + 2) ep s \<and> matches src pat ep s caps e c"
  "cnth pat i = NUL \<Longrightarrow> matches src pat i s caps e c \<longleftrightarrow> e = s \<and> c = caps"
  "cnth pat i = CHR ''$'' \<Longrightarrow> cnth pat (i + 1) = NUL \<Longrightarrow>
     matches src pat i s caps e c \<longleftrightarrow> s = length src \<and> e = s \<and> c = caps"
  by (rule iffI, (erule matches.cases; force simp: plain_item_def isdigit_def), force intro: matches.intros)+

lemma matches_plain:
  assumes "plain_item pat i" and "classend pat i = Inr ep"
  shows "matches src pat i s caps e c \<longleftrightarrow>
    (\<exists>n. repetitions (cnth pat ep) n \<and> run_of src pat i ep s n \<and> matches src pat (after_suffix pat ep) (s + n) caps e c)"
  proof
  assume "matches src pat i s caps e c"
  then show "\<exists>n. repetitions (cnth pat ep) n \<and> run_of src pat i ep s n \<and> matches src pat (after_suffix pat ep) (s + n) caps e c"
    using assms by cases (auto simp: plain_item_def)
qed (use assms m_item in blast)

lemma decides_error: "(\<And>s caps. \<exists>err. k s caps = Inl err) \<Longrightarrow> decides k P"
  by (auto simp: decides_def) (metis Inl_Inr_False)

lemma decides_plain:
  assumes "plain_item pat i" and "classend pat i = Inr ep"
    and "decides k (\<lambda>s caps e c.
      \<exists>n. repetitions (cnth pat ep) n \<and> run_of src pat i ep s n \<and> matches src pat (after_suffix pat ep) (s + n) caps e c)"
  shows "decides k (matches src pat i)"
  using assms(3) by (rule decides_eq) (rule matches_plain [OF assms(1,2)])

lemma ex_repetitions:
  "(\<exists>n. repetitions CHR ''?'' n \<and> R n) \<longleftrightarrow> R 0 \<or> R (Suc 0)"
  "(\<exists>n. repetitions CHR ''*'' n \<and> R n) \<longleftrightarrow> (\<exists>n. R n)"
  "(\<exists>n. repetitions CHR ''-'' n \<and> R n) \<longleftrightarrow> (\<exists>n. R n)"
  "(\<exists>n. repetitions CHR ''+'' n \<and> R n) \<longleftrightarrow> (\<exists>n. R (Suc n))"
  "c \<notin> {CHR ''?'', CHR ''*'', CHR ''-'', CHR ''+''} \<Longrightarrow> (\<exists>n. repetitions c n \<and> R n) \<longleftrightarrow> R (Suc 0)"
proof -
  show "(\<exists>n. repetitions CHR ''?'' n \<and> R n) \<longleftrightarrow> R 0 \<or> R (Suc 0)"
    using le_Suc_eq by (auto simp: repetitions_def)
  show "(\<exists>n. repetitions CHR ''+'' n \<and> R n) \<longleftrightarrow> (\<exists>n. R (Suc n))"
    by (auto simp: repetitions_def) (metis Suc_le_D)
qed (auto simp: repetitions_def)

text \<open>An item, its suffix and the rest of the pattern.\<close>

lemma do_match_item:
  assumes plain: "plain_item pat i"
    and rest: "\<And>j. cnth pat i \<noteq> NUL \<Longrightarrow> i < j \<Longrightarrow> decides (do_match src pat j) (matches src pat j)"
  shows "decides (do_match src pat i) (matches src pat i)"
proof -
  from plain have nz: "cnth pat i \<noteq> NUL" by (auto simp: plain_item_def)
  note eq = do_match.simps [of src pat i]
  show ?thesis
  proof (cases "classend pat i")
    case (Inl err)
    with plain show ?thesis by (intro decides_error) (auto simp: eq plain_item_def)
  next
    case (Inr ep)
    note k = rest [OF nz]
    from classend_gt [OF Inr nz] have ep: "i < ep" "i < ep + 1" by auto
    let ?m = "single_at src pat i ep"
    have body: "do_match src pat i = (\<lambda>s caps.
        if cnth pat ep = CHR ''?'' then
          (if ?m s then bindE (do_match src pat (ep + 1) (s + 1) caps) (\<lambda>(r, caps).
             case r of Some e \<Rightarrow> Inr (Some e, caps) | None \<Rightarrow> do_match src pat (ep + 1) s caps)
           else do_match src pat (ep + 1) s caps)
        else if cnth pat ep = CHR ''*'' then max_expand (do_match src pat (ep + 1)) src pat i ep s caps
        else if cnth pat ep = CHR ''+'' then
          (if ?m s then max_expand (do_match src pat (ep + 1)) src pat i ep (s + 1) caps else Inr (None, caps))
        else if cnth pat ep = CHR ''-'' then min_expand (do_match src pat (ep + 1)) src pat i ep s caps
        else if ?m s then do_match src pat ep (s + 1) caps else Inr (None, caps))"
      using plain Inr by (intro ext) (subst eq, simp add: plain_item_def Let_def, blast)
    note again = k [OF ep(2)]
    consider (opt) "cnth pat ep = CHR ''?''" | (star) "cnth pat ep = CHR ''*''" | (plus) "cnth pat ep = CHR ''+''"
      | (minus) "cnth pat ep = CHR ''-''" | (once) "cnth pat ep \<notin> {CHR ''?'', CHR ''*'', CHR ''-'', CHR ''+''}"
      by blast
    then show ?thesis
    proof cases
      case opt
      with decides_optional [OF again, of ?m] show ?thesis
        by (intro decides_plain [OF plain Inr]) (simp add: body after_suffix_def ex_repetitions)
    next
      case star
      with max_expand_decides [OF again, of src pat i ep] show ?thesis
        by (intro decides_plain [OF plain Inr]) (simp add: body after_suffix_def ex_repetitions)
    next
      case plus
      with decides_guard [OF max_expand_decides [OF again, of src pat i ep], of ?m "\<lambda>s. s + 1"] show ?thesis
        by (intro decides_plain [OF plain Inr]) (simp add: body after_suffix_def ex_repetitions run_of_Suc conj_assoc)
    next
      case minus
      with min_expand_decides [OF again, of src pat i ep] show ?thesis
        by (intro decides_plain [OF plain Inr]) (simp add: body after_suffix_def ex_repetitions)
    next
      case once
      with decides_guard [OF k [OF ep(1)], of ?m "\<lambda>s. s + 1"] show ?thesis
        by (intro decides_plain [OF plain Inr]) (simp add: body after_suffix_def ex_repetitions)
    qed
  qed
qed

lemma do_match_decides: "decides (do_match src pat i) (matches src pat i)"
proof (induction "length pat + 1 - i" arbitrary: i rule: less_induct)
  case less
  have k: "decides (do_match src pat j) (matches src pat j)" if "cnth pat i \<noteq> NUL" "i < j" for j
    using less item_step [OF that] by blast
  note eq = do_match.simps [of src pat i]
  show ?case
  proof (cases "plain_item pat i")
    case True
    then show ?thesis by (rule do_match_item) (rule k)
  next
    case False
    then consider (position) "cnth pat i = CHR ''(''" "cnth pat (i + 1) = CHR '')''"
      | (opn) "cnth pat i = CHR ''(''" "cnth pat (i + 1) \<noteq> CHR '')''"
      | (cls) "cnth pat i = CHR '')''"
      | (balance) "cnth pat i = L_ESC" "cnth pat (i + 1) = CHR ''b''"
      | (front) "cnth pat i = L_ESC" "cnth pat (i + 1) = CHR ''f''"
      | (backref) "cnth pat i = L_ESC" "isdigit (cnth pat (i + 1))"
      | (atend) "cnth pat i = NUL" | (anchor) "cnth pat i = CHR ''$''" "cnth pat (i + 1) = NUL"
      by (auto simp: plain_item_def)
    then show ?thesis
    proof cases
      case position
      then show ?thesis
        by (intro decides_by [OF start_capture_decides [OF k [of "i + 2"], of Cap_Position]])
          (simp_all add: eq matches_special(1))
    next
      case opn
      then show ?thesis
        by (intro decides_by [OF start_capture_decides [OF k [of "i + 1"], of Cap_Unfinished]])
          (simp_all add: eq matches_special(2))
    next
      case cls
      then show ?thesis
        by (intro decides_by [OF end_capture_decides [OF k [of "i + 1"]]]) (simp_all add: eq matches_special(3))
    next
      case balance
      then show ?thesis
        by (intro decides_by [OF decides_step [OF k [of "i + 4"], of "\<lambda>s caps. matchbalance src s pat (i + 2)"]])
          (simp_all add: eq matches_special(4))
    next
      case backref
      then have "cnth pat (i + 1) \<noteq> CHR ''b''" "cnth pat (i + 1) \<noteq> CHR ''f''" by (auto simp: isdigit_def)
      with backref show ?thesis
        by (intro decides_by [OF decides_step [OF k [of "i + 2"],
              of "\<lambda>s caps. match_capture src s caps (cnth pat (i + 1))"]])
          (simp_all add: eq matches_special(5) cong: option.case_cong)
    next
      case atend
      then show ?thesis
        by (intro decides_by [OF decides_return [of "\<lambda>s. s"]]) (simp_all add: eq matches_special(7))
    next
      case anchor
      then show ?thesis
        by (intro decides_by [OF decides_guard [OF decides_return [of "\<lambda>s. s"], of "\<lambda>s. s = length src" "\<lambda>s. s"]])
          (auto simp add: eq matches_special(8))
    next
      case front
      show ?thesis
      proof (cases "cnth pat (i + 2) = CHR ''['' \<and> (\<exists>ep. classend pat (i + 2) = Inr ep)")
        case True
        then obtain ep where ep: "cnth pat (i + 2) = CHR ''[''" "classend pat (i + 2) = Inr ep" by blast
        with classend_gt [OF ep(2)] have "i < ep" by simp
        with front ep show ?thesis
          by (intro decides_by [OF decides_guard [OF k [of ep], of "frontier src pat (i + 2) ep" "\<lambda>s. s"]])
            (simp_all add: eq matches_special(6))
      next
        case False
        with front show ?thesis
          by (intro decides_error) (cases "classend pat (i + 2)", auto simp: eq luaL_error_def)
      qed
    qed
  qed
qed

text \<open>
  C2. The backtracking matcher decides the match relation: when it returns a position, the pattern
  matches there with exactly the captures it leaves; when it returns NULL, the captures in use are
  what they were before the call and no end position and no captures at all make the pattern match.
\<close>

theorem match_decides:
  assumes "do_match src pat i s caps = Inr (r, caps')"
  shows "case r of Some e \<Rightarrow> matches src pat i s caps e caps'
         | None \<Rightarrow> caps' = caps \<and> (\<nexists>e c. matches src pat i s caps e c)"
  using do_match_decides assms by (auto simp: decides_def split: option.split)

theorem match_decides_witness:
  "matches ''a=bc'' ''(%a)=(%a+)'' 0 0 [] 4 [(0, Cap_Len 1), (2, Cap_Len 2)]"
proof -
  have "do_match ''a=bc'' ''(%a)=(%a+)'' 0 0 [] = Inr (Some 4, [(0, Cap_Len 1), (2, Cap_Len 2)])"
    by code_simp
  from match_decides [OF this] show ?thesis by simp
qed

section \<open>Captures stay inside the subject\<close>

fun capture_ok :: "string \<Rightarrow> nat \<Rightarrow> nat \<times> caplen \<Rightarrow> bool" where
  "capture_ok src s (init, Cap_Unfinished) \<longleftrightarrow> init \<le> s"
| "capture_ok src s (init, Cap_Position) \<longleftrightarrow> init \<le> length src"
| "capture_ok src s (init, Cap_Len n) \<longleftrightarrow> init + n \<le> length src"

definition captures_ok :: "string \<Rightarrow> nat \<Rightarrow> captures \<Rightarrow> bool" where
  "captures_ok src s caps \<longleftrightarrow>
     s \<le> length src \<and> length caps \<le> LUA_MAXCAPTURES \<and> (\<forall>c \<in> set caps. capture_ok src s c)"

lemma capture_ok_mono: "capture_ok src s c \<Longrightarrow> s \<le> s' \<Longrightarrow> capture_ok src s' c"
  by (cases c; cases "snd c") auto

lemma captures_ok_mono: "captures_ok src s caps \<Longrightarrow> s \<le> s' \<Longrightarrow> s' \<le> length src \<Longrightarrow> captures_ok src s' caps"
  using capture_ok_mono by (auto simp: captures_ok_def)

lemma captures_ok_push:
  "captures_ok src s caps \<Longrightarrow> length caps < LUA_MAXCAPTURES \<Longrightarrow> what \<in> {Cap_Position, Cap_Unfinished}
   \<Longrightarrow> captures_ok src s (caps @ [(s, what)])"
  by (auto simp: captures_ok_def)

lemma captures_ok_close:
  assumes ok: "captures_ok src s caps" and l: "capture_to_close caps = Inr l"
  shows "captures_ok src s (set_caplen l (Cap_Len (s - fst (caps ! l))) caps)"
proof -
  note l = capture_to_close_ok [OF l]
  then have "caps ! l = (fst (caps ! l), Cap_Unfinished)" by (metis prod.collapse)
  moreover have "capture_ok src s (caps ! l)" using ok l by (auto simp: captures_ok_def)
  ultimately have "fst (caps ! l) \<le> s" by (metis capture_ok.simps(1))
  with ok show ?thesis
    by (auto simp: captures_ok_def set_caplen_def dest!: set_update_subset_insert [THEN subsetD])
qed

lemma balance_loop_bounds: "balance_loop src b e cont s = Some s' \<Longrightarrow> s < s' \<and> s' \<le> length src"
  by (induction src b e cont s rule: balance_loop.induct)
    (subst (asm) (2) balance_loop.simps, fastforce split: if_splits)

lemma matchbalance_bounds: "matchbalance src s pat p = Inr (Some s') \<Longrightarrow> s < s' \<and> s' \<le> length src"
  by (auto simp: matchbalance_def luaL_error_def dest: balance_loop_bounds split: if_splits)

lemma match_capture_bounds:
  "match_capture src s caps l = Inr (Some s') \<Longrightarrow> s \<le> length src \<Longrightarrow> s \<le> s' \<and> s' \<le> length src"
  by (cases "check_capture caps l"; cases "snd (caps ! projr (check_capture caps l))")
    (auto simp: match_capture_def split: if_splits)

lemma run_of_bound: "run_of src pat i ep s n \<Longrightarrow> s \<le> length src \<Longrightarrow> s + n \<le> length src"
  by (induction n) (auto simp: run_of_def single_at_def Suc_le_eq)

lemma matches_captures_ok:
  "matches src pat i s caps e caps' \<Longrightarrow> captures_ok src s caps \<Longrightarrow> s \<le> e \<and> captures_ok src e caps'"
proof (induction rule: matches.induct)
  case (m_close i caps l s e caps')
  then show ?case using captures_ok_close by blast
next
  case (m_balance i s s' caps e caps')
  with matchbalance_bounds [OF m_balance(3)] show ?case using captures_ok_mono [of src s caps s'] by auto
next
  case (m_back i s caps s' e caps')
  then have "s \<le> s' \<and> s' \<le> length src" using match_capture_bounds by (auto simp: captures_ok_def)
  with m_back show ?case using captures_ok_mono [of src s caps s'] by auto
next
  case (m_item i ep n s caps e caps')
  then have "s + n \<le> length src" using run_of_bound by (auto simp: captures_ok_def)
  with m_item show ?case using captures_ok_mono [of src s caps "s + n"] by auto
qed (auto simp: captures_ok_push captures_ok_def)

text \<open>
  C15. Typing of match states: a match started inside the subject with well-formed captures ends
  inside the subject, not before it started, with at most \<open>LUA_MAXCAPTURES\<close> captures, each of
  which denotes a piece of the subject. So every later read through a capture is in bounds.
\<close>

theorem match_captures_inside:
  assumes "do_match src pat i s caps = Inr (Some e, caps')" and "captures_ok src s caps"
  shows "s \<le> e \<and> captures_ok src e caps'"
  using decides_Some [OF do_match_decides assms(1)] assms(2) by (rule matches_captures_ok)

theorem match_captures_inside_witness:
  "captures_ok ''xaay'' 3 [(1, Cap_Len 1), (2, Cap_Position)]"
proof -
  have "do_match ''xaay'' ''(a)()%1'' 0 1 [] = Inr (Some 3, [(1, Cap_Len 1), (2, Cap_Position)])"
    by code_simp
  from match_captures_inside [OF this] show ?thesis by (simp add: captures_ok_def)
qed

end
