(* ===== verification/Lua_Strlib.thy ===== *)
theory Lua_Strlib
  imports Lua_Match Lua_Buffer Lua_Format
begin

text \<open>
  The functions of \<open>lstrlib.c\<close> but for \<open>string.dump\<close>. An offset \<open>s + i\<close> is the
  number \<open>i\<close>; \<open>lua_Integer\<close> and \<open>ptrdiff_t\<close> are \<open>int\<close> (an argument out of their range is
  undefined behaviour of the cast), \<open>int\<close> is cut to 32 bits by \<open>cast_int\<close>. \<open>bufsiz\<close> is
  \<open>LUAL_BUFFERSIZE\<close>. A function that Lua code passes to \<open>gsub\<close> is a parameter that gets and
  returns the state \<open>'s\<close>; \<open>sprintf\<close> is a parameter of \<open>str_format\<close>.
\<close>

section \<open>Arguments\<close>

definition cast_int :: "int \<Rightarrow> int" where
  "cast_int i = sint (word_of_int i :: 32 word)"

definition luaL_optinteger :: "lua_conv \<Rightarrow> lval list \<Rightarrow> nat \<Rightarrow> int \<Rightarrow> lua_error + int" where
  "luaL_optinteger cv args narg d =
     (if lua_isnoneornil (index2adr args narg) then Inr d else luaL_checkinteger cv args narg)"

definition luaL_checkint :: "lua_conv \<Rightarrow> lval list \<Rightarrow> nat \<Rightarrow> lua_error + int" where
  "luaL_checkint cv args narg = bindE (luaL_checkinteger cv args narg) (\<lambda>i. Inr (cast_int i))"

definition luaL_optint :: "lua_conv \<Rightarrow> lval list \<Rightarrow> nat \<Rightarrow> int \<Rightarrow> lua_error + int" where
  "luaL_optint cv args narg d = bindE (luaL_optinteger cv args narg d) (\<lambda>i. Inr (cast_int i))"

definition LUAI_MAXCSTACK :: nat where "LUAI_MAXCSTACK = 8000"

text \<open>\<open>slots\<close> slots of the C function's frame are in use.\<close>

definition luaL_checkstack :: "nat \<Rightarrow> nat \<Rightarrow> string \<Rightarrow> lua_error + unit" where
  "luaL_checkstack slots space mes =
     (if LUAI_MAXCSTACK < slots + space then luaL_error (''stack overflow ('' @ mes @ '')'') else Inr ())"

definition lua_pushinteger :: "lua_conv \<Rightarrow> int \<Rightarrow> lval" where
  "lua_pushinteger cv i = LNum (integer2number cv i)"

fun mapE :: "('a \<Rightarrow> 'e + 'b) \<Rightarrow> 'a list \<Rightarrow> 'e + 'b list" where
  "mapE f [] = Inr []"
| "mapE f (x # xs) = bindE (f x) (\<lambda>y. bindE (mapE f xs) (\<lambda>ys. Inr (y # ys)))"

section \<open>Plain string functions\<close>

definition str_len :: "lua_conv \<Rightarrow> lval list \<Rightarrow> lua_results" where
  "str_len cv args = bindE (luaL_checklstring cv args 1) (\<lambda>s. Inr [lua_pushinteger cv (int (length s))])"

definition posrelat :: "int \<Rightarrow> nat \<Rightarrow> int" where
  "posrelat pos len = (let pos = (if pos < 0 then pos + int len + 1 else pos) in if 0 \<le> pos then pos else 0)"

definition str_sub :: "lua_conv \<Rightarrow> lval list \<Rightarrow> lua_results" where
  "str_sub cv args =
     bindE (luaL_checklstring cv args 1) (\<lambda>s.
     bindE (luaL_checkinteger cv args 2) (\<lambda>i.
     bindE (luaL_optinteger cv args 3 (- 1)) (\<lambda>j.
       let b = posrelat i (length s); e = posrelat j (length s);
           b = (if b < 1 then 1 else b);
           e = (if e > int (length s) then int (length s) else e)
       in if b \<le> e then Inr [LStr (take (nat (e - b + 1)) (drop (nat (b - 1)) s))]
          else Inr [LStr []])))"

definition str_reverse :: "nat \<Rightarrow> lua_conv \<Rightarrow> lval list \<Rightarrow> lua_results" where
  "str_reverse bufsiz cv args =
     bindE (luaL_checklstring cv args 1) (\<lambda>s.
       Inr [LStr (luaL_pushresult (foldl (luaL_addchar bufsiz) luaL_buffinit (map ((!) s) (rev [0..<length s]))))])"

definition str_lower :: "nat \<Rightarrow> lua_conv \<Rightarrow> lval list \<Rightarrow> lua_results" where
  "str_lower bufsiz cv args =
     bindE (luaL_checklstring cv args 1) (\<lambda>s.
       Inr [LStr (luaL_pushresult (foldl (\<lambda>b c. luaL_addchar bufsiz b (tolower c)) luaL_buffinit s))])"

definition str_upper :: "nat \<Rightarrow> lua_conv \<Rightarrow> lval list \<Rightarrow> lua_results" where
  "str_upper bufsiz cv args =
     bindE (luaL_checklstring cv args 1) (\<lambda>s.
       Inr [LStr (luaL_pushresult (foldl (\<lambda>b c. luaL_addchar bufsiz b (toupper c)) luaL_buffinit s))])"

fun rep_loop :: "nat \<Rightarrow> string \<Rightarrow> nat \<Rightarrow> luaL_Buffer \<Rightarrow> luaL_Buffer" where
  "rep_loop bufsiz s 0 b = b"
| "rep_loop bufsiz s (Suc n) b = rep_loop bufsiz s n (luaL_addlstring bufsiz b s)"

definition str_rep :: "nat \<Rightarrow> lua_conv \<Rightarrow> lval list \<Rightarrow> lua_results" where
  "str_rep bufsiz cv args =
     bindE (luaL_checklstring cv args 1) (\<lambda>s.
     bindE (luaL_checkint cv args 2) (\<lambda>n.
       Inr [LStr (luaL_pushresult (rep_loop bufsiz s (nat n) luaL_buffinit))]))"

definition str_byte :: "lua_conv \<Rightarrow> lval list \<Rightarrow> lua_results" where
  "str_byte cv args =
     bindE (luaL_checklstring cv args 1) (\<lambda>s.
     bindE (luaL_optinteger cv args 2 1) (\<lambda>i.
       let posi = posrelat i (length s) in
     bindE (luaL_optinteger cv args 3 posi) (\<lambda>j.
       let pose = posrelat j (length s);
           posi = (if posi \<le> 0 then 1 else posi);
           pose = (if int (length s) < pose then int (length s) else pose)
       in if pose < posi then Inr []
          else let n = cast_int (pose - posi + 1) in
            if posi + n \<le> pose then luaL_error ''string slice too long''
            else bindE (luaL_checkstack (length args) (nat n) ''string slice too long'') (\<lambda>_.
              Inr (map (\<lambda>k. lua_pushinteger cv (int (uc (s ! nat (posi + int k - 1))))) [0..<nat n])))))"

fun char_loop :: "nat \<Rightarrow> lua_conv \<Rightarrow> lval list \<Rightarrow> nat list \<Rightarrow> luaL_Buffer \<Rightarrow> lua_error + luaL_Buffer" where
  "char_loop bufsiz cv args [] b = Inr b"
| "char_loop bufsiz cv args (i # is) b =
     bindE (luaL_checkint cv args i) (\<lambda>c.
       if c mod 256 \<noteq> c then luaL_argerror i ''invalid value''
       else char_loop bufsiz cv args is (luaL_addchar bufsiz b (char_of (nat c))))"

definition str_char :: "nat \<Rightarrow> lua_conv \<Rightarrow> lval list \<Rightarrow> lua_results" where
  "str_char bufsiz cv args =
     bindE (char_loop bufsiz cv args [1..<Suc (length args)] luaL_buffinit) (\<lambda>b. Inr [LStr (luaL_pushresult b)])"

section \<open>Searching\<close>

text \<open>\<open>s1\<close> is the rest of the subject, \<open>off\<close> its offset, \<open>l1\<close> how many of its positions can start \<open>s2\<close>.\<close>

function lmemfind_loop :: "string \<Rightarrow> nat \<Rightarrow> string \<Rightarrow> nat \<Rightarrow> nat option" where
  "lmemfind_loop s1 l1 s2 off =
     (if 0 < l1 then
        (case strchr (take l1 s1) (cnth s2 0) of
           None \<Rightarrow> None
         | Some k \<Rightarrow>
             if take (length s2 - 1) (drop (k + 1) s1) = drop 1 s2 then Some (off + k)
             else lmemfind_loop (drop (k + 1) s1) (l1 - (k + 1)) s2 (off + k + 1))
      else None)"
  by pat_completeness auto
termination by (relation "measure (\<lambda>(s1, l1, s2, off). l1)") auto

declare lmemfind_loop.simps [simp del]

definition lmemfind :: "string \<Rightarrow> string \<Rightarrow> nat option" where
  "lmemfind s1 s2 =
     (if length s2 = 0 then Some 0 else if length s1 < length s2 then None
      else lmemfind_loop s1 (length s1 - (length s2 - 1)) s2 0)"

text \<open>\<open>whole\<close>: the start and the end of the match, \<open>None\<close> when the caller passes NULL for them.\<close>

definition push_onecapture :: "lua_conv \<Rightarrow> string \<Rightarrow> captures \<Rightarrow> nat \<Rightarrow> (nat \<times> nat) option \<Rightarrow> lua_error + lval" where
  "push_onecapture cv src caps i whole =
     (if length caps \<le> i then
        (case whole of
           Some (s, e) \<Rightarrow> if i = 0 then Inr (LStr (take (e - s) (drop s src))) else luaL_error ''invalid capture index''
         | None \<Rightarrow> luaL_error ''invalid capture index'')
      else (case snd (caps ! i) of
          Cap_Unfinished \<Rightarrow> luaL_error ''unfinished capture''
        | Cap_Position \<Rightarrow> Inr (lua_pushinteger cv (int (fst (caps ! i)) + 1))
        | Cap_Len l \<Rightarrow> Inr (LStr (take l (drop (fst (caps ! i)) src)))))"

definition push_captures ::
    "lua_conv \<Rightarrow> nat \<Rightarrow> string \<Rightarrow> captures \<Rightarrow> (nat \<times> nat) option \<Rightarrow> lua_results" where
  "push_captures cv slots src caps whole =
     (let nlevels = (if length caps = 0 \<and> whole \<noteq> None then 1 else length caps) in
      bindE (luaL_checkstack slots nlevels ''too many captures'') (\<lambda>_.
        mapE (\<lambda>i. push_onecapture cv src caps i whole) [0..<nlevels]))"

definition SPECIALS :: string where "SPECIALS = ''^$*+?.([%-''"

text \<open>The \<open>do \<dots> while\<close> of \<open>str_find_aux\<close>: where a match starts and ends, and its captures.\<close>

function find_loop :: "string \<Rightarrow> string \<Rightarrow> bool \<Rightarrow> nat \<Rightarrow> lua_error + (nat \<times> nat \<times> captures) option" where
  "find_loop src p anchor s1 =
     bindE (do_match src p 0 s1 []) (\<lambda>(r, caps).
       case r of
         Some e \<Rightarrow> Inr (Some (s1, e, caps))
       | None \<Rightarrow> if s1 < length src \<and> \<not> anchor then find_loop src p anchor (s1 + 1) else Inr None)"
  by pat_completeness auto
termination by (relation "measure (\<lambda>(src, p, anchor, s1). length src - s1)") auto

declare find_loop.simps [simp del]

definition unanchor :: "string \<Rightarrow> bool \<times> string" where
  "unanchor p = (if cnth p 0 = CHR ''^'' then (True, drop 1 p) else (False, p))"

definition str_find_aux :: "lua_conv \<Rightarrow> lval list \<Rightarrow> bool \<Rightarrow> lua_results" where
  "str_find_aux cv args fnd =
     bindE (luaL_checklstring cv args 1) (\<lambda>s.
     bindE (luaL_checklstring cv args 2) (\<lambda>p.
     bindE (luaL_optinteger cv args 3 1) (\<lambda>i.
       let init = posrelat i (length s) - 1;
           init = (if init < 0 then 0 else if length s < nat init then length s else nat init)
       in if fnd \<and> (lua_toboolean (index2adr args 4) \<or> (\<forall>c \<in> set (cstr p). c \<notin> set SPECIALS)) then
            (case lmemfind (drop init s) p of
               Some k \<Rightarrow> Inr [lua_pushinteger cv (int (init + k) + 1), lua_pushinteger cv (int (init + k + length p))]
             | None \<Rightarrow> Inr [LNil])
          else let (anchor, p) = unanchor p in
            bindE (find_loop s p anchor init) (\<lambda>r.
              case r of
                None \<Rightarrow> Inr [LNil]
              | Some (s1, e, caps) \<Rightarrow>
                  if fnd then
                    bindE (push_captures cv (length args + 2) s caps None) (\<lambda>vs.
                      Inr (lua_pushinteger cv (int s1 + 1) # lua_pushinteger cv (int e) # vs))
                  else push_captures cv (length args) s caps (Some (s1, e))))))"

definition str_find :: "lua_conv \<Rightarrow> lval list \<Rightarrow> lua_results" where
  "str_find cv args = str_find_aux cv args True"

definition str_match :: "lua_conv \<Rightarrow> lval list \<Rightarrow> lua_results" where
  "str_match cv args = str_find_aux cv args False"

text \<open>
  \<open>gmatch_aux\<close>: the upvalues are the subject, the pattern and the offset to go on from, which it
  returns updated. No results end the iteration.
\<close>

function gmatch_aux :: "lua_conv \<Rightarrow> nat \<Rightarrow> string \<Rightarrow> string \<Rightarrow> nat \<Rightarrow> nat \<Rightarrow> lua_error + lval list \<times> nat" where
  "gmatch_aux cv slots s p pos src =
     (if src \<le> length s then
        bindE (do_match s p 0 src []) (\<lambda>(r, caps).
          case r of
            Some e \<Rightarrow>
              bindE (push_captures cv slots s caps (Some (src, e))) (\<lambda>vs.
                Inr (vs, if e = src then e + 1 else e))
          | None \<Rightarrow> gmatch_aux cv slots s p pos (src + 1))
      else Inr ([], pos))"
  by pat_completeness auto
termination by (relation "measure (\<lambda>(cv, slots, s, p, pos, src). length s + 1 - src)") auto

declare gmatch_aux.simps [simp del]

definition gmatch_next :: "lua_conv \<Rightarrow> nat \<Rightarrow> string \<Rightarrow> string \<Rightarrow> nat \<Rightarrow> lua_error + lval list \<times> nat" where
  "gmatch_next cv slots s p pos = gmatch_aux cv slots s p pos pos"

text \<open>\<open>gmatch\<close>: the upvalues of the iterator it returns.\<close>

definition gmatch :: "lua_conv \<Rightarrow> lval list \<Rightarrow> lua_error + string \<times> string \<times> nat" where
  "gmatch cv args =
     bindE (luaL_checklstring cv args 1) (\<lambda>s. bindE (luaL_checklstring cv args 2) (\<lambda>p. Inr (s, p, 0)))"

definition gfind_nodef :: lua_results where
  "gfind_nodef = luaL_error (quoted ''string.gfind'' @ '' was renamed to '' @ quoted ''string.gmatch'')"

section \<open>Substitution\<close>

text \<open>\<open>add_s\<close>: \<open>i\<close> runs over the replacement string \<open>news\<close>.\<close>

function add_s ::
    "nat \<Rightarrow> lua_conv \<Rightarrow> string \<Rightarrow> string \<Rightarrow> captures \<Rightarrow> nat \<times> nat \<Rightarrow> nat \<Rightarrow> luaL_Buffer \<Rightarrow> lua_error + luaL_Buffer" where
  "add_s bufsiz cv src news caps whole i b =
     (if i < length news then
        (if news ! i \<noteq> L_ESC then add_s bufsiz cv src news caps whole (i + 1) (luaL_addchar bufsiz b (news ! i))
         else let c = cnth news (i + 1) in
           if \<not> isdigit c then add_s bufsiz cv src news caps whole (i + 2) (luaL_addchar bufsiz b c)
           else if c = CHR ''0'' then
             add_s bufsiz cv src news caps whole (i + 2)
               (luaL_addlstring bufsiz b (take (snd whole - fst whole) (drop (fst whole) src)))
           else bindE (push_onecapture cv src caps (uc c - 49) (Some whole)) (\<lambda>v.
             add_s bufsiz cv src news caps whole (i + 2) (luaL_addvalue bufsiz b (the (lua_tolstring cv (Some v))))))
      else Inr b)"
  by pat_completeness auto
termination by (relation "measure (\<lambda>(bufsiz, cv, src, news, caps, whole, i, b). length news - i)") auto

declare add_s.simps [simp del]

type_synonym 's lua_call = "string \<Rightarrow> lval list \<Rightarrow> 's \<Rightarrow> lua_error + lval \<times> 's"

text \<open>What \<open>add_value\<close> does with the value of a function or a table.\<close>

definition add_result ::
    "nat \<Rightarrow> lua_conv \<Rightarrow> string \<Rightarrow> nat \<times> nat \<Rightarrow> luaL_Buffer \<Rightarrow> lval \<Rightarrow> lua_error + luaL_Buffer" where
  "add_result bufsiz cv src whole b v =
     (if \<not> lua_toboolean (Some v) then
        Inr (luaL_addvalue bufsiz b (take (snd whole - fst whole) (drop (fst whole) src)))
      else if \<not> lua_isstring (Some v) then
        luaL_error (''invalid replacement value (a '' @ lua_typename (Some v) @ '')'')
      else Inr (luaL_addvalue bufsiz b (the (lua_tolstring cv (Some v)))))"

definition add_value ::
    "nat \<Rightarrow> lua_conv \<Rightarrow> 's lua_call \<Rightarrow> nat \<Rightarrow> string \<Rightarrow> lval \<Rightarrow> captures \<Rightarrow> nat \<times> nat \<Rightarrow> luaL_Buffer \<Rightarrow> 's
     \<Rightarrow> lua_error + luaL_Buffer \<times> 's" where
  "add_value bufsiz cv call slots src repl caps whole b st =
     (case repl of
        LFun f \<Rightarrow>
          bindE (push_captures cv (slots + lb_lvl b + 1) src caps (Some whole)) (\<lambda>vs.
          bindE (call f vs st) (\<lambda>(v, st).
          bindE (add_result bufsiz cv src whole b v) (\<lambda>b. Inr (b, st))))
      | LTable t \<Rightarrow>
          bindE (push_onecapture cv src caps 0 (Some whole)) (\<lambda>k.
          bindE (add_result bufsiz cv src whole b (table_get t k)) (\<lambda>b. Inr (b, st)))
      | _ \<Rightarrow>
          bindE (add_s bufsiz cv src (the (lua_tolstring cv (Some repl))) caps whole 0 b) (\<lambda>b. Inr (b, st)))"

text \<open>The loop of \<open>str_gsub\<close>: the offset reached, the number of substitutions and the buffer.\<close>

function gsub_loop ::
    "nat \<Rightarrow> lua_conv \<Rightarrow> 's lua_call \<Rightarrow> nat \<Rightarrow> string \<Rightarrow> string \<Rightarrow> lval \<Rightarrow> bool \<Rightarrow> int \<Rightarrow> nat \<Rightarrow> int \<Rightarrow> luaL_Buffer \<Rightarrow> 's
     \<Rightarrow> lua_error + nat \<times> int \<times> luaL_Buffer \<times> 's" where
  "gsub_loop bufsiz cv call slots src p repl anchor max_s s n b st =
     (if n < max_s then
        bindE (do_match src p 0 s []) (\<lambda>(r, caps).
        bindE (case r of
                 Some e \<Rightarrow> bindE (add_value bufsiz cv call slots src repl caps (s, e) b st) (\<lambda>(b, st). Inr (n + 1, b, st))
               | None \<Rightarrow> Inr (n, b, st)) (\<lambda>(n', b, st).
          case (case r of Some e \<Rightarrow> if s < e then Some (e, b) else
                           if s < length src then Some (s + 1, luaL_addchar bufsiz b (src ! s)) else None
                | None \<Rightarrow> if s < length src then Some (s + 1, luaL_addchar bufsiz b (src ! s)) else None) of
            None \<Rightarrow> Inr (s, n', b, st)
          | Some (s', b) \<Rightarrow>
              if anchor then Inr (s', n', b, st)
              else gsub_loop bufsiz cv call slots src p repl anchor max_s s' n' b st))
      else Inr (s, n, b, st))"
  by pat_completeness auto
termination
  by (relation "measures [\<lambda>(bufsiz, cv, call, slots, src, p, repl, anchor, max_s, s, n, b, st). nat (max_s - n),
      \<lambda>(bufsiz, cv, call, slots, src, p, repl, anchor, max_s, s, n, b, st). length src - s]")
    (auto simp: bindE_Inr_iff split: option.splits if_splits)

declare gsub_loop.simps [simp del]

definition str_gsub :: "nat \<Rightarrow> lua_conv \<Rightarrow> 's lua_call \<Rightarrow> lval list \<Rightarrow> 's \<Rightarrow> lua_error + lval list \<times> 's" where
  "str_gsub bufsiz cv call args st =
     bindE (luaL_checklstring cv args 1) (\<lambda>src.
     bindE (luaL_checkstring cv args 2) (\<lambda>p.
     bindE (luaL_optint cv args 4 (int (length src) + 1)) (\<lambda>max_s.
       let (anchor, p) = unanchor p in
       case index2adr args 3 of
         Some repl \<Rightarrow>
           if lua_typename (Some repl) \<in> {''number'', ''string'', ''function'', ''table''} then
             bindE (gsub_loop bufsiz cv call (length args) src p repl anchor max_s 0 0 luaL_buffinit st) (\<lambda>(s, n, b, st).
               Inr ([LStr (luaL_pushresult (luaL_addlstring bufsiz b (drop s src))), lua_pushinteger cv n], st))
           else luaL_argerror 3 ''string/function/table expected''
       | None \<Rightarrow> luaL_argerror 3 ''string/function/table expected'')))"

section \<open>Formatting\<close>

definition quote_char :: "char \<Rightarrow> string" where
  "quote_char c =
     (if c = CHR 0x22 \<or> c = CHR 0x5C \<or> c = LF then [CHR 0x5C, c]
      else if c = CR then [CHR 0x5C, CHR ''r'']
      else if c = NUL then [CHR 0x5C, CHR ''0'', CHR ''0'', CHR ''0'']
      else [c])"

definition addquoted :: "nat \<Rightarrow> lua_conv \<Rightarrow> lval list \<Rightarrow> nat \<Rightarrow> luaL_Buffer \<Rightarrow> lua_error + luaL_Buffer" where
  "addquoted bufsiz cv args arg b =
     bindE (luaL_checklstring cv args arg) (\<lambda>s.
       let b = luaL_addchar bufsiz b (CHR 0x22);
           b = foldl (\<lambda>b c. luaL_addlstring bufsiz b (quote_char c)) b s
       in Inr (luaL_addchar bufsiz b (CHR 0x22)))"

definition FLAGS :: string where "FLAGS = ''-+ #0''"

text \<open>\<open>scanformat\<close>: the conversion specification, \<open>%\<close> included, and the offset of its last character.\<close>

definition skip_digits :: "string \<Rightarrow> nat \<Rightarrow> nat" where
  "skip_digits fmt i =
     (let i = (if isdigit (cnth fmt i) then i + 1 else i) in if isdigit (cnth fmt i) then i + 1 else i)"

definition scanformat :: "string \<Rightarrow> nat \<Rightarrow> lua_error + string \<times> nat" where
  "scanformat fmt i =
     (let p = i + length (takeWhile (\<lambda>c. c \<in> set FLAGS) (drop i fmt)) in
      if length FLAGS + 1 \<le> p - i then luaL_error ''invalid format (repeated flags)''
      else let p = skip_digits fmt p;
               p = (if cnth fmt p = CHR ''.'' then skip_digits fmt (p + 1) else p)
           in if isdigit (cnth fmt p) then luaL_error ''invalid format (width or precision too long)''
              else Inr (L_ESC # map (cnth fmt) [i..<p + 1], p))"

text \<open>\<open>addintlen\<close>: \<open>LUA_INTFRMLEN\<close> goes before the conversion character.\<close>

definition addintlen :: "string \<Rightarrow> string" where
  "addintlen form = butlast form @ ''l'' @ [List.last form]"

text \<open>The value that goes to \<open>sprintf\<close> with the conversion \<open>form\<close>.\<close>

datatype item = Item_Int int | Item_Long int | Item_Ulong "64 word" | Item_Double real | Item_String string

type_synonym sprintf = "string \<Rightarrow> item \<Rightarrow> string"

definition format_item ::
    "nat \<Rightarrow> lua_conv \<Rightarrow> sprintf \<Rightarrow> lval list \<Rightarrow> nat \<Rightarrow> string \<Rightarrow> char \<Rightarrow> luaL_Buffer \<Rightarrow> lua_error + luaL_Buffer" where
  "format_item bufsiz cv spf args arg form c b =
     (let add = (\<lambda>form v. Inr (luaL_addlstring bufsiz b (cstr (spf form v)))) in
      if c = CHR ''c'' then
        bindE (luaL_checknumber cv args arg) (\<lambda>x. add form (Item_Int (cast_int (trunc_real x))))
      else if c \<in> {CHR ''d'', CHR ''i''} then
        bindE (luaL_checknumber cv args arg) (\<lambda>x. add (addintlen form) (Item_Long (trunc_real x)))
      else if c \<in> {CHR ''o'', CHR ''u'', CHR ''x'', CHR ''X''} then
        bindE (luaL_checknumber cv args arg) (\<lambda>x. add (addintlen form) (Item_Ulong (word_of_int (trunc_real x))))
      else if c \<in> {CHR ''e'', CHR ''E'', CHR ''f'', CHR ''g'', CHR ''G''} then
        bindE (luaL_checknumber cv args arg) (\<lambda>x. add form (Item_Double x))
      else if c = CHR ''q'' then addquoted bufsiz cv args arg b
      else if c = CHR ''s'' then
        bindE (luaL_checklstring cv args arg) (\<lambda>s.
          if CHR ''.'' \<notin> set form \<and> 100 \<le> length s then Inr (luaL_addvalue bufsiz b s)
          else add form (Item_String (cstr s)))
      else luaL_error (''invalid option '' @ quoted (L_ESC # cstr [c]) @ '' to '' @ quoted ''format''))"

lemma scanformat_ge: "scanformat fmt i = Inr (form, p) \<Longrightarrow> i \<le> p"
  by (auto simp: scanformat_def skip_digits_def Let_def luaL_error_def split: if_splits)

function format_loop ::
    "nat \<Rightarrow> lua_conv \<Rightarrow> sprintf \<Rightarrow> lval list \<Rightarrow> string \<Rightarrow> nat \<Rightarrow> nat \<Rightarrow> luaL_Buffer \<Rightarrow> lua_error + luaL_Buffer" where
  "format_loop bufsiz cv spf args fmt i arg b =
     (if i < length fmt then
        (if fmt ! i \<noteq> L_ESC then format_loop bufsiz cv spf args fmt (i + 1) arg (luaL_addchar bufsiz b (fmt ! i))
         else if cnth fmt (i + 1) = L_ESC then
           format_loop bufsiz cv spf args fmt (i + 2) arg (luaL_addchar bufsiz b L_ESC)
         else bindE (scanformat fmt (i + 1)) (\<lambda>(form, p).
           bindE (format_item bufsiz cv spf args (arg + 1) form (cnth fmt p) b) (\<lambda>b.
             format_loop bufsiz cv spf args fmt (p + 1) (arg + 1) b)))
      else Inr b)"
  by pat_completeness auto
termination
  by (relation "measure (\<lambda>(bufsiz, cv, spf, args, fmt, i, arg, b). length fmt - i)") (auto dest: scanformat_ge)

declare format_loop.simps [simp del]

definition str_format :: "nat \<Rightarrow> lua_conv \<Rightarrow> sprintf \<Rightarrow> lval list \<Rightarrow> lua_results" where
  "str_format bufsiz cv spf args =
     bindE (luaL_checklstring cv args 1) (\<lambda>fmt.
     bindE (format_loop bufsiz cv spf args fmt 0 1 luaL_buffinit) (\<lambda>b.
       Inr [LStr (luaL_pushresult b)]))"

end
