(* ===== verification/Lua_Find.thy ===== *)
theory Lua_Find
  imports Lua_Strlib
begin

text \<open>
  What the searches of \<open>Lua_Strlib\<close> find: \<open>lmemfind\<close> the first occurrence, the pattern search the
  leftmost match, and both the same place when the pattern is literal text, which is why
  \<open>str_find_aux\<close> may take the plain search for it.
\<close>

section \<open>The plain search\<close>

definition occurs_at :: "string \<Rightarrow> string \<Rightarrow> nat \<Rightarrow> bool" where
  "occurs_at s1 s2 k \<longleftrightarrow> take (length s2) (drop k s1) = s2"

lemma occurs_at_drop [simp]: "occurs_at (drop j s1) s2 k \<longleftrightarrow> occurs_at s1 s2 (j + k)"
  by (simp add: occurs_at_def add.commute)

lemma occurs_at_Cons:
  "occurs_at s1 (c # s2) k \<longleftrightarrow> k < length s1 \<and> s1 ! k = c \<and> occurs_at s1 s2 (k + 1)"
  unfolding occurs_at_def by (cases "k < length s1") (auto simp: Cons_nth_drop_Suc [symmetric])

lemma occurs_at_room: "occurs_at s1 s2 k \<Longrightarrow> k + length s2 \<le> length s1 \<or> s2 = []"
  unfolding occurs_at_def by (drule arg_cong [of _ _ length]) (cases "k \<le> length s1", auto simp: min_def split: if_splits)

definition first_occurrence :: "string \<Rightarrow> string \<Rightarrow> nat option" where
  "first_occurrence s1 s2 = List.find (occurs_at s1 s2) [0..<Suc (length s1)]"

lemma find_upt_Some:
  "List.find P [a..<b] = Some k \<longleftrightarrow> a \<le> k \<and> k < b \<and> P k \<and> (\<forall>j. a \<le> j \<and> j < k \<longrightarrow> \<not> P j)"
proof -
  have "List.find P [a..<b] = Some k \<longleftrightarrow> (\<exists>i < b - a. P (a + i) \<and> k = a + i \<and> (\<forall>j < i. \<not> P (a + j)))"
    by (auto simp: find_Some_iff)
  also have "\<dots> \<longleftrightarrow> a \<le> k \<and> k < b \<and> P k \<and> (\<forall>j. a \<le> j \<and> j < k \<longrightarrow> \<not> P j)"
    by (auto simp: le_iff_add)
  finally show ?thesis .
qed

lemma find_upt_None: "List.find P [a..<b] = None \<longleftrightarrow> (\<forall>j. a \<le> j \<and> j < b \<longrightarrow> \<not> P j)"
  by (auto simp: find_None_iff)

lemma strchr_first: "strchr s c = Some k \<Longrightarrow> k < length s \<and> s ! k = c \<and> (\<forall>j < k. s ! j \<noteq> c)"
  by (induction s arbitrary: k) (auto split: if_splits simp: nth_Cons split: nat.split)

lemma strchr_absent: "strchr s c = None \<Longrightarrow> j < length s \<Longrightarrow> s ! j \<noteq> c"
  by (auto simp: strchr_None)

lemma lmemfind_loop_first:
  assumes "s2 = c # s2'"
  shows "lmemfind_loop s1 (length s1 - length s2') s2 off = map_option ((+) off) (first_occurrence s1 s2)"
proof (induction "length s1" arbitrary: s1 off rule: less_induct)
  case less
  let ?w = "length s1 - length s2'"
  have room: "k < ?w" if "occurs_at s1 s2 k" for k
    using occurs_at_room [OF that] assms by auto
  show ?case
  proof (cases "strchr (take ?w s1) c")
    case None
    then have "\<not> occurs_at s1 s2 k" for k
      using strchr_absent [OF None, of k] room [of k] assms by (auto simp: occurs_at_Cons)
    then have "first_occurrence s1 s2 = None" by (simp add: first_occurrence_def find_upt_None del: upt_Suc)
    with None assms show ?thesis by (simp add: lmemfind_loop.simps [of s1] cnth_def)
  next
    case (Some k)
    from strchr_first [OF Some] have k: "k < ?w" "k < length s1" "s1 ! k = c" "\<forall>j < k. s1 ! j \<noteq> c" by auto
    then have before: "\<not> occurs_at s1 s2 j" if "j < k" for j using that assms by (auto simp: occurs_at_Cons)
    have here: "occurs_at s1 s2 k \<longleftrightarrow> take (length s2') (drop (k + 1) s1) = s2'"
      using k assms by (simp add: occurs_at_Cons) (simp add: occurs_at_def)
    show ?thesis
    proof (cases "occurs_at s1 s2 k")
      case True
      then have "first_occurrence s1 s2 = Some k" using before k
        by (simp add: first_occurrence_def find_upt_Some del: upt_Suc)
      with True here Some k(1) assms show ?thesis by (simp add: lmemfind_loop.simps [of s1] cnth_def)
    next
      case False
      have "first_occurrence s1 s2 = map_option ((+) (k + 1)) (first_occurrence (drop (k + 1) s1) s2)"
      proof (cases "first_occurrence (drop (k + 1) s1) s2")
        case None
        have "\<not> occurs_at s1 s2 j" for j
        proof
          assume o: "occurs_at s1 s2 j"
          with before False have "k < j" by (metis linorder_neqE_nat)
          then obtain i where "j = k + 1 + i" by (metis Suc_eq_plus1 Suc_leI le_iff_add)
          moreover have "\<forall>j < Suc (length s1 - Suc k). \<not> occurs_at s1 s2 (Suc (k + j))"
            using None by (auto simp: first_occurrence_def find_upt_None simp del: upt_Suc)
          with \<open>j = k + 1 + i\<close> o have "\<not> i < Suc (length s1 - Suc k)" by auto
          ultimately show False using occurs_at_room [OF o] assms by auto
        qed
        then have "first_occurrence s1 s2 = None"
          by (simp add: first_occurrence_def find_upt_None del: upt_Suc)
        with None show ?thesis by simp
      next
        case (Some i)
        then have i: "occurs_at s1 s2 (k + 1 + i)" "\<forall>j < i. \<not> occurs_at s1 s2 (k + 1 + j)" "i \<le> length s1 - (k + 1)"
          by (auto simp: first_occurrence_def find_upt_Some simp del: upt_Suc)
        have "\<not> occurs_at s1 s2 j" if "j < k + 1 + i" for j
          using that before False i(2) by (metis Suc_eq_plus1 less_Suc_eq less_imp_add_positive linorder_not_less
              le_iff_add nat_add_left_cancel_less)
        with i k have "first_occurrence s1 s2 = Some (k + 1 + i)"
          by (simp add: first_occurrence_def find_upt_Some del: upt_Suc)
        with Some show ?thesis by simp
      qed
      moreover have "length s1 - length s2' - (k + 1) = length (drop (k + 1) s1) - length s2'" by simp
      ultimately show ?thesis
        using False here Some k less [of "drop (k + 1) s1" "off + k + 1"] assms
        by (cases "first_occurrence (drop (k + 1) s1) s2", simp_all add: lmemfind_loop.simps [of s1] cnth_def)
    qed
  qed
qed

lemma lmemfind_first: "lmemfind s1 s2 = first_occurrence s1 s2"
proof (cases s2)
  case Nil
  have "first_occurrence s1 [] = Some 0"
    by (simp add: first_occurrence_def find_upt_Some occurs_at_def del: upt_Suc)
  with Nil show ?thesis by (simp add: lmemfind_def)
next
  case (Cons c s2')
  show ?thesis
  proof (cases "length s1 < length s2")
    case True
    then have "\<not> occurs_at s1 s2 k" for k using occurs_at_room [of s1 s2 k] Cons by auto
    then have "first_occurrence s1 s2 = None"
      by (simp add: first_occurrence_def find_upt_None del: upt_Suc)
    with True Cons show ?thesis by (simp add: lmemfind_def)
  next
    case False
    with Cons lmemfind_loop_first [OF Cons, of s1 0] show ?thesis
      by (cases "first_occurrence s1 s2") (simp_all add: lmemfind_def)
  qed
qed

section \<open>The pattern search\<close>

lemma find_loop_spec:
  assumes "find_loop src p anchor s = Inr r" and "s \<le> length src"
  shows "case r of
      Some (s1, e, caps) \<Rightarrow> s \<le> s1 \<and> s1 \<le> length src \<and> (anchor \<longrightarrow> s1 = s) \<and> matches src p 0 s1 [] e caps
        \<and> (\<forall>j. s \<le> j \<and> j < s1 \<longrightarrow> (\<nexists>e c. matches src p 0 j [] e c))
    | None \<Rightarrow> (\<forall>j. s \<le> j \<and> j \<le> (if anchor then s else length src) \<longrightarrow> (\<nexists>e c. matches src p 0 j [] e c))"
  using assms
proof (induction "length src - s" arbitrary: s rule: less_induct)
  case less
  note run = less.prems(1) [unfolded find_loop.simps [of src p anchor s]]
  then obtain r1 c where r1: "do_match src p 0 s [] = Inr (r1, c)" by (auto simp: bindE_Inr_iff)
  show ?case
  proof (cases r1)
    case (Some e)
    with run r1 have "r = Some (s, e, c)" by simp
    with decides_Some [OF do_match_decides r1 [unfolded Some]] less.prems(2) show ?thesis by auto
  next
    case None
    from decides_none [OF do_match_decides r1 [unfolded None]]
    have no: "\<nexists>e c. matches src p 0 s [] e c" by blast
    show ?thesis
    proof (cases "s < length src \<and> \<not> anchor")
      case True
      with run r1 None have "find_loop src p anchor (s + 1) = Inr r" by simp
      from less.hyps [OF _ this] True have
        "case r of
           Some (s1, e, caps) \<Rightarrow> s + 1 \<le> s1 \<and> s1 \<le> length src \<and> matches src p 0 s1 [] e caps
             \<and> (\<forall>j. s + 1 \<le> j \<and> j < s1 \<longrightarrow> (\<nexists>e c. matches src p 0 j [] e c))
         | None \<Rightarrow> (\<forall>j. s + 1 \<le> j \<and> j \<le> length src \<longrightarrow> (\<nexists>e c. matches src p 0 j [] e c))"
        by (auto split: option.splits)
      moreover have "s \<le> j \<longleftrightarrow> j = s \<or> s + 1 \<le> j" for j by auto
      ultimately show ?thesis using True no by (auto split: option.splits)
    next
      case False
      with run r1 None have "r = None" by auto
      with no False less.prems(2) show ?thesis by (auto simp: le_antisym)
    qed
  qed
qed

section \<open>Literal patterns\<close>

lemma find_map_upt: "List.find P (map f xs) = map_option f (List.find (\<lambda>x. P (f x)) xs)"
  by (induction xs) auto


definition literal :: "string \<Rightarrow> bool" where
  "literal p \<longleftrightarrow> (\<forall>c \<in> set p. c \<notin> set SPECIALS \<and> c \<noteq> CHR '')'' \<and> c \<noteq> NUL)"

lemma SPECIALS_set [simp]:
  "set SPECIALS = {CHR ''^'', CHR ''$'', CHR ''*'', CHR ''+'', CHR ''?'', CHR ''.'', CHR ''('', CHR ''['', L_ESC, CHR ''-''}"
  by (simp add: SPECIALS_def)

lemma literal_cnth:
  assumes "literal p"
  shows "cnth p i \<notin> {CHR ''$'', CHR ''*'', CHR ''+'', CHR ''?'', CHR ''.'', CHR ''('', CHR ''['', L_ESC, CHR ''-'', CHR '')''}"
    and "i < length p \<Longrightarrow> cnth p i \<noteq> NUL"
  using assms by (auto simp: literal_def cnth_def dest!: nth_mem)

lemma do_match_literal:
  assumes "literal p" and "i \<le> length p" and "s \<le> length src"
  shows "do_match src p i s caps = Inr (if occurs_at src (drop i p) s then Some (s + (length p - i)) else None, caps)"
  using assms
proof (induction "length p - i" arbitrary: i s)
  case 0
  then have "i = length p" by simp
  then show ?case by (simp add: do_match.simps [of src p "length p"] cnth_def occurs_at_def)
next
  case (Suc n)
  then have i: "i < length p" by simp
  note c = literal_cnth [OF Suc.prems(1)]
  have "drop i p = p ! i # drop (i + 1) p" using i by (simp add: Cons_nth_drop_Suc)
  moreover have "classend p i = Inr (i + 1)" using c(1) [of i] by (auto simp: classend_def)
  moreover have "single_at src p i (i + 1) s \<longleftrightarrow> s < length src \<and> src ! s = p ! i"
    using c(1) [of i] i by (auto simp: single_at_def singlematch_def cnth_def)
  moreover have "Suc (s + length p - Suc i) = s + length p - i" using i by simp
  ultimately show ?case
    using Suc c(1) [of i] c(1) [of "i + 1"] c(2) [OF i]
    by (simp add: do_match.simps [of src p i] occurs_at_Cons Let_def)
qed

lemma occurs_at_empty: "occurs_at src p (length src) \<longleftrightarrow> p = []"
  by (auto simp: occurs_at_def)

lemma first_occurrence_step:
  assumes "s < length src" and "\<not> occurs_at src p s"
  shows "first_occurrence (drop s src) p = map_option Suc (first_occurrence (drop (s + 1) src) p)"
proof -
  have step: "[0..<Suc (length (drop s src))] = 0 # map Suc [0..<Suc (length (drop (s + 1) src))]"
    using assms(1) by (simp add: map_Suc_upt upt_conv_Cons Suc_diff_Suc del: upt_Suc)
  have "occurs_at (drop (s + 1) src) p = (\<lambda>x. occurs_at src p (s + 1 + x))" by (simp add: fun_eq_iff)
  with assms(2) show ?thesis unfolding first_occurrence_def step
    by (simp add: find_map_upt del: upt_Suc length_drop)
qed

text \<open>The plain search and the pattern search agree on literal text.\<close>

lemma plain_search_is_match:
  assumes "literal p" and "s \<le> length src"
  shows "find_loop src p False s =
    Inr (map_option (\<lambda>k. (s + k, s + k + length p, [])) (lmemfind (drop s src) p))"
  unfolding lmemfind_first using assms(2)
proof (induction "length src - s" arbitrary: s rule: less_induct)
  case less
  note m = do_match_literal [OF assms(1) le0 less.prems]
  show ?case
  proof (cases "occurs_at src p s")
    case True
    then have "first_occurrence (drop s src) p = Some 0"
      by (simp add: first_occurrence_def find_upt_Some del: upt_Suc)
    with True m show ?thesis by (simp add: find_loop.simps [of src p False s])
  next
    case False
    show ?thesis
    proof (cases "s < length src")
      case True
      with False m less.hyps [of "s + 1"] first_occurrence_step [OF True False] show ?thesis
        by (cases "first_occurrence (drop (s + 1) src) p") (simp_all add: find_loop.simps [of src p False s])
    next
      case False': False
      with less.prems have "s = length src" by simp
      with False m show ?thesis
        by (simp add: find_loop.simps [of src p False "length src"] first_occurrence_def occurs_at_def)
    qed
  qed
qed

section \<open>\<open>string.find\<close>\<close>

text \<open>
  What \<open>string.find\<close> returns when the matcher is tried from \<open>init\<close> on, whatever the pattern: the bounds of
  the leftmost match and its captures, or nil. \<open>slots\<close> is the use of the stack.
\<close>

definition match_search :: "lua_conv \<Rightarrow> nat \<Rightarrow> string \<Rightarrow> string \<Rightarrow> nat \<Rightarrow> lua_results" where
  "match_search cv slots s p init =
     (let anchored = p \<noteq> [] \<and> hd p = CHR ''^'' in
      bindE (find_loop s (if anchored then tl p else p) anchored init) (\<lambda>r.
        case r of
          None \<Rightarrow> Inr [LNil]
        | Some (s1, e, caps) \<Rightarrow>
            bindE (push_captures cv slots s caps None) (\<lambda>vs.
              Inr (lua_pushinteger cv (int s1 + 1) # lua_pushinteger cv (int e) # vs))))"

lemma unanchor_eq:
  "unanchor p = (p \<noteq> [] \<and> hd p = CHR ''^'', if p \<noteq> [] \<and> hd p = CHR ''^'' then tl p else p)"
  by (cases p) (simp_all add: unanchor_def cnth_def)

lemma push_no_captures: "slots \<le> LUAI_MAXCSTACK \<Longrightarrow> push_captures cv slots s [] None = Inr []"
  by (simp add: push_captures_def luaL_checkstack_def)

lemma match_search_literal:
  assumes "literal p" and "init \<le> length s" and "slots \<le> LUAI_MAXCSTACK"
  shows "match_search cv slots s p init =
    (case lmemfind (drop init s) p of
       Some k \<Rightarrow> Inr [lua_pushinteger cv (int (init + k) + 1), lua_pushinteger cv (int (init + k + length p))]
     | None \<Rightarrow> Inr [LNil])"
proof -
  have "\<not> (p \<noteq> [] \<and> hd p = CHR ''^'')"
    using assms(1) by (cases p) (auto simp: literal_def)
  thus ?thesis
    using plain_search_is_match [OF assms(1,2)] push_no_captures [OF assms(3)]
    by (cases "lmemfind (drop init s) p"; auto simp: match_search_def Let_def)
qed

text \<open>
  C14. \<open>string.find\<close> without a request for a plain search returns what the pattern matcher finds: the test
  for special characters in \<open>str_find_aux\<close> takes the shortcut through \<open>lmemfind\<close> only where it gives the
  positions, and the absence of captures, that trying the matcher from every position gives. This is so for
  patterns without a zero byte and without \<open>)\<close>, which \<open>SPECIALS\<close> does not list, so that the
  shortcut is taken where the matcher would reject the pattern (\<open>shortcut_hides_error\<close>). \<open>v\<close> is the third
  argument, where to start.
\<close>

theorem find_shortcut_is_match:
  assumes "CHR '')'' \<notin> set p" and "NUL \<notin> set p" and "luaL_optinteger cv [LStr s, LStr p, v] 3 1 = Inr i"
  shows "str_find cv [LStr s, LStr p, v] =
    match_search cv 5 s p (nat (min (max (posrelat i (length s) - 1) 0) (int (length s))))"
proof -
  define init where "init = nat (min (max (posrelat i (length s) - 1) 0) (int (length s)))"
  have init: "init \<le> length s" "(if posrelat i (length s) - 1 < 0 then 0
      else if length s < nat (posrelat i (length s) - 1) then length s else nat (posrelat i (length s) - 1)) = init"
    by (auto simp: init_def min_def max_def)
  have c: "cstr p = p"
    by (rule cstr_id [OF assms(2)])
  have a: "luaL_checklstring cv [LStr s, LStr p, v] 1 = Inr s" "luaL_checklstring cv [LStr s, LStr p, v] 2 = Inr p"
    "\<not> lua_toboolean (index2adr [LStr s, LStr p, v] 4)"
    by (simp_all add: luaL_checklstring_def index2adr_def)
  show ?thesis
  proof (cases "\<forall>c \<in> set p. c \<notin> set SPECIALS")
    case True
    have "literal p"
      using True assms(1,2) by (auto simp: literal_def)
    note ms = match_search_literal [OF this init(1), of 5 cv]
    show ?thesis
      unfolding str_find_def str_find_aux_def a bindE.simps assms(3) Let_def c init(2) init_def [symmetric]
      using True a(3) ms by (simp add: LUAI_MAXCSTACK_def split: option.split)
  next
    case False
    thus ?thesis
      unfolding str_find_def str_find_aux_def a bindE.simps assms(3) Let_def c init(2) init_def [symmetric]
      using a(3) False by (auto simp: match_search_def unanchor_eq Let_def eval_nat_numeral simp del: SPECIALS_set)
  qed
qed

theorem find_shortcut_is_match_witness:
  "str_find plain_conv [LStr ''hello'', LStr ''l'', LNum 4] = match_search plain_conv 5 ''hello'' ''l'' 3"
  using find_shortcut_is_match [of "''l''" plain_conv "''hello''" "LNum 4" 4]
  by (simp add: api_simps luaL_optinteger_def posrelat_def trunc_real_def)

text \<open>With \<open>)\<close> the plain search is taken and finds the text, which the matcher reports as an error.\<close>

lemma shortcut_hides_error:
  "str_find plain_conv [LStr ''a)'', LStr '')'', LNum 1] = Inr [LNum 2, LNum 2]"
  "match_search plain_conv 5 ''a)'' '')'' 0 = luaL_error ''invalid pattern capture''"
proof -
  have "lmemfind ''a)'' '')'' = Some 1"
    by (simp add: lmemfind_def lmemfind_loop.simps cnth_def)
  thus "str_find plain_conv [LStr ''a)'', LStr '')'', LNum 1] = Inr [LNum 2, LNum 2]"
    using cstr_id [of "'')''"] by (simp add: str_find_def str_find_aux_def api_simps luaL_optinteger_def posrelat_def
        trunc_real_def lua_pushinteger_def plain_conv_def)
  show "match_search plain_conv 5 ''a)'' '')'' 0 = luaL_error ''invalid pattern capture''"
    by (simp add: match_search_def find_loop.simps do_match.simps cnth_def end_capture_def capture_to_close_def luaL_error_def)
qed

end
