(* ===== verification/Lua_Gsub.thy ===== *)
theory Lua_Gsub
  imports Lua_Find
begin

text \<open>
  What \<open>string.gsub\<close> with a replacement string computes: it cuts the subject into characters it
  keeps and matches it replaces (\<open>scan\<close>), and the result is the pieces in order, every match as
  the replacement string says (\<open>expand\<close>).
\<close>

section \<open>The replacement string\<close>

fun expand :: "lua_conv \<Rightarrow> string \<Rightarrow> captures \<Rightarrow> nat \<times> nat \<Rightarrow> string \<Rightarrow> lua_error + string" where
  "expand cv src caps w [] = Inr []"
| "expand cv src caps w [c] = Inr [if c = L_ESC then NUL else c]"
| "expand cv src caps w (c # d # r) =
     (if c \<noteq> L_ESC then bindE (expand cv src caps w (d # r)) (\<lambda>t. Inr (c # t))
      else bindE (if \<not> isdigit d then Inr [d]
                  else if d = CHR ''0'' then Inr (take (snd w - fst w) (drop (fst w) src))
                  else bindE (push_onecapture cv src caps (uc d - 49) (Some w)) (\<lambda>v. Inr (the (lua_tolstring cv (Some v)))))
             (\<lambda>h. bindE (expand cv src caps w r) (\<lambda>t. Inr (h @ t))))"

lemma add_s_expand:
  "bindE (add_s bufsiz cv src news caps w i b) (\<lambda>b'. Inr (lb_contents b')) =
   bindE (expand cv src caps w (drop i news)) (\<lambda>t. Inr (lb_contents b @ t))"
proof (induction bufsiz cv src news caps w i b rule: add_s.induct)
  case (1 bufsiz cv src news caps w i b)
  note eq = add_s.simps [of bufsiz cv src news caps w i b]
  show ?case
  proof (cases "drop i news")
    case Nil
    then show ?thesis by (simp add: eq)
  next
    case (Cons c r)
    then have i: "i < length news" and c: "news ! i = c" and r: "drop (Suc i) news = r"
      by (metis drop_all linorder_not_less list.discI, metis nth_via_drop, metis drop_Suc tl_drop list.sel(3))
    show ?thesis
    proof (cases "c = L_ESC")
      case False
      with 1(1) i c r have "bindE (add_s bufsiz cv src news caps w i b) (\<lambda>b'. Inr (lb_contents b')) =
          bindE (expand cv src caps w r) (\<lambda>t. Inr (lb_contents b @ [c] @ t))"
        by (simp add: eq contents_addchar)
      with False show ?thesis unfolding Cons
        by (cases r) (auto simp: bindE_assoc cong: bindE_cong)
    next
      case True
      note esc = c [unfolded True]
      show ?thesis
      proof (cases r)
        case Nil
        with r have "length news \<le> i + 1" by simp
        with i esc True Nil show ?thesis unfolding Cons
          by (simp add: eq cnth_def isdigit_def add_s.simps [of bufsiz cv src news caps w "Suc (Suc i)"] contents_addchar)
      next
        case (Cons d r')
        with r have d: "cnth news (i + 1) = d" and r': "drop (i + 2) news = r'"
          by (metis cnth_def drop_all linorder_not_less list.discI nth_via_drop Suc_eq_plus1,
              metis drop_Suc tl_drop list.sel(3) add_2_eq_Suc')
        note esc' = \<open>drop i news = c # r\<close> [unfolded True Cons]
        consider (other) "\<not> isdigit d" | (zero) "isdigit d" "d = CHR ''0''" | (cap) "isdigit d" "d \<noteq> CHR ''0''" by blast
        then show ?thesis
        proof cases
          case other
          with 1(2) [OF i _ d [symmetric]] i esc d r' show ?thesis
            by (simp add: eq esc' contents_addchar bindE_assoc)
        next
          case zero
          with 1(3) [OF i _ d [symmetric]] i esc d r' show ?thesis
            by (simp add: eq esc' contents_addlstring bindE_assoc)
        next
          case cap
          show ?thesis
          proof (cases "push_onecapture cv src caps (uc d - 49) (Some w)")
            case (Inl err)
            with cap i esc d show ?thesis by (simp add: eq esc')
          next
            case (Inr v)
            with cap 1(4) [OF i _ d [symmetric] _ _ Inr] i esc d r' show ?thesis
              by (simp add: eq esc' contents_addvalue bindE_assoc)
          qed
        qed
      qed
    qed
  qed
qed

section \<open>The pieces\<close>

datatype piece = Kept char | Hit nat nat captures

text \<open>
  \<open>scan src p anchor k s ps\<close>: from offset \<open>s\<close> on, with at most \<open>k\<close> more substitutions, the
  subject falls into the pieces \<open>ps\<close>. An anchored pattern is tried once.
\<close>

inductive scan :: "string \<Rightarrow> string \<Rightarrow> bool \<Rightarrow> nat \<Rightarrow> nat \<Rightarrow> piece list \<Rightarrow> bool" for src p anchor where
  scan_stop: "scan src p anchor 0 s (map Kept (drop s src))"
| scan_hit: "\<lbrakk>matches src p 0 s [] e caps; s < e; scan src p anchor (if anchor then 0 else k) e ps\<rbrakk>
    \<Longrightarrow> scan src p anchor (Suc k) s (Hit s e caps # ps)"
| scan_empty: "\<lbrakk>matches src p 0 s [] s caps; s < length src; scan src p anchor (if anchor then 0 else k) (s + 1) ps\<rbrakk>
    \<Longrightarrow> scan src p anchor (Suc k) s (Hit s s caps # Kept (src ! s) # ps)"
| scan_empty_end: "matches src p 0 (length src) [] (length src) caps
    \<Longrightarrow> scan src p anchor (Suc k) (length src) [Hit (length src) (length src) caps]"
| scan_miss: "\<lbrakk>\<nexists>e c. matches src p 0 s [] e c; s < length src; scan src p anchor (if anchor then 0 else Suc k) (s + 1) ps\<rbrakk>
    \<Longrightarrow> scan src p anchor (Suc k) s (Kept (src ! s) # ps)"
| scan_miss_end: "\<nexists>e c. matches src p 0 (length src) [] e c \<Longrightarrow> scan src p anchor (Suc k) (length src) []"

text \<open>The piece of the subject, and what replaces it.\<close>

fun piece_text :: "string \<Rightarrow> piece \<Rightarrow> string" where
  "piece_text src (Kept c) = [c]"
| "piece_text src (Hit s e caps) = take (e - s) (drop s src)"

fun piece_out :: "lua_conv \<Rightarrow> string \<Rightarrow> string \<Rightarrow> piece \<Rightarrow> lua_error + string" where
  "piece_out cv src news (Kept c) = Inr [c]"
| "piece_out cv src news (Hit s e caps) = expand cv src caps (s, e) news"

fun is_hit :: "piece \<Rightarrow> bool" where
  "is_hit (Kept c) = False"
| "is_hit (Hit s e caps) = True"

abbreviation hits :: "piece list \<Rightarrow> nat" where "hits ps \<equiv> length (filter is_hit ps)"

lemma matches_end: "matches src p 0 s [] e caps \<Longrightarrow> s \<le> length src \<Longrightarrow> s \<le> e \<and> e \<le> length src"
  using matches_captures_ok [of src p 0 s "[]" e caps] by (simp add: captures_ok_def)

lemma take_drop_split: "s \<le> e \<Longrightarrow> take (e - s) (drop s xs) @ drop e xs = drop s xs"
  by (metis append_take_drop_id drop_drop le_add_diff_inverse2)

lemma concat_kept: "concat (map (piece_text src) (map Kept xs)) = xs"
  by (induction xs) auto

lemma hits_kept [simp]: "hits (map Kept xs) = 0"
  by (simp add: filter_empty_conv)

lemma scan_partitions: "scan src p anchor k s ps \<Longrightarrow> s \<le> length src \<Longrightarrow> concat (map (piece_text src) ps) = drop s src"
proof (induction rule: scan.induct)
  case (scan_hit s e caps k ps)
  with matches_end [OF scan_hit(1)] show ?case by (simp add: take_drop_split)
qed (auto simp: concat_kept [unfolded map_map] Cons_nth_drop_Suc)

lemma scan_hits: "scan src p anchor k s ps \<Longrightarrow> hits ps \<le> k"
  by (induction rule: scan.induct) (auto split: if_splits)

lemma mapE_kept: "mapE (piece_out cv src news) (map Kept xs) = Inr (map (\<lambda>c. [c]) xs)"
  by (induction xs) auto

lemma concat_singletons [simp]: "concat (map (\<lambda>c. [c]) xs) = xs"
  by (induction xs) auto

section \<open>The loop\<close>

definition gsub_done ::
    "lua_conv \<Rightarrow> string \<Rightarrow> string \<Rightarrow> string \<Rightarrow> bool \<Rightarrow> nat \<Rightarrow> nat \<Rightarrow> int \<Rightarrow> luaL_Buffer \<Rightarrow> nat \<times> int \<times> luaL_Buffer \<Rightarrow> bool" where
  "gsub_done cv src p news anchor k s n b = (\<lambda>(s', n', b').
     s' \<le> length src \<and> (\<exists>ps ts. scan src p anchor k s ps \<and> mapE (piece_out cv src news) ps = Inr ts
       \<and> lb_contents b' @ drop s' src = lb_contents b @ concat ts \<and> n' = n + int (hits ps)))"

lemma gsub_done_stop: "s \<le> length src \<Longrightarrow> gsub_done cv src p news anchor 0 s n b (s, n, b)"
  using scan_stop [of src p anchor s] mapE_kept [of cv src news "drop s src"] hits_kept [of "drop s src"]
  unfolding gsub_done_def by auto

text \<open>One step of the loop: pieces are put in front, their text is added to the buffer.\<close>

lemma gsub_done_step:
  assumes "gsub_done cv src p news anchor k s n b r"
    and "\<And>ps. scan src p anchor k s ps \<Longrightarrow> scan src p anchor k' s' (qs @ ps)"
    and "mapE (piece_out cv src news) qs = Inr us"
    and "lb_contents b = lb_contents b' @ concat us" and "n = n' + int (hits qs)"
  shows "gsub_done cv src p news anchor k' s' n' b' r"
proof -
  obtain sr nr br where r: "r = (sr, nr, br)" by (cases r)
  with assms(1) obtain ps ts where ps: "scan src p anchor k s ps" "mapE (piece_out cv src news) ps = Inr ts"
      "lb_contents br @ drop sr src = lb_contents b @ concat ts" "nr = n + int (hits ps)" "sr \<le> length src"
    by (auto simp: gsub_done_def)
  have "mapE (piece_out cv src news) (qs @ ps) = Inr (us @ ts)" using assms(3) ps(2)
    by (induction qs arbitrary: us) (auto simp: bindE_Inr_iff)
  with ps assms(2,4,5) r show ?thesis unfolding gsub_done_def by (auto intro!: exI [of _ "qs @ ps"])
qed

lemma gsub_loop_scan:
  assumes "gsub_loop bufsiz cv call slots src p (LStr news) anchor max_s s n b st = Inr (s', n', b', st')"
    and "s \<le> length src"
  shows "st' = st \<and> gsub_done cv src p news anchor (nat (max_s - n)) s n b (s', n', b')"
  using assms
proof (induction "nat (max_s - n) + (length src - s)" arbitrary: s n b rule: less_induct)
  case less
  note run = less.prems(1) [unfolded gsub_loop.simps [of bufsiz cv call slots src p _ anchor max_s s n b st]]
  show ?case
  proof (cases "n < max_s")
    case False
    with run less.prems(2) show ?thesis by (auto intro: gsub_done_stop)
  next
    case True
    define k where "k = nat (max_s - (n + 1))"
    from True have k: "nat (max_s - n) = Suc k" by (simp add: k_def)
    \<comment> \<open>what follows the step\<close>
    let ?go = "\<lambda>s1 n1 b1. if anchor then Inr (s1, n1, b1, st)
        else gsub_loop bufsiz cv call slots src p (LStr news) anchor max_s s1 n1 b1 st"
    have go: "st' = st \<and> gsub_done cv src p news anchor (if anchor then 0 else nat (max_s - n1)) s1 n1 b1 (s', n', b')"
      if "?go s1 n1 b1 = Inr (s', n', b', st')" "nat (max_s - n1) + (length src - s1) < nat (max_s - n) + (length src - s)"
        "s1 \<le> length src" for s1 n1 b1
      using that less.hyps [of n1 s1 b1] by (auto intro: gsub_done_stop split: if_splits)
    obtain r c where m: "do_match src p 0 s [] = Inr (r, c)" using run True by (auto simp: bindE_Inr_iff)
    show ?thesis
    proof (cases r)
      case None
      from decides_none [OF do_match_decides m [unfolded None]] have no: "\<nexists>e c. matches src p 0 s [] e c" by simp
      show ?thesis
      proof (cases "s < length src")
        case s: True
        with run True m None have "?go (s + 1) n (luaL_addchar bufsiz b (src ! s)) = Inr (s', n', b', st')"
          by (cases anchor) auto
        moreover have "nat (max_s - n) + (length src - (s + 1)) < nat (max_s - n) + (length src - s)" using s by linarith
        ultimately have "st' = st \<and> gsub_done cv src p news anchor (if anchor then 0 else nat (max_s - n)) (s + 1) n
            (luaL_addchar bufsiz b (src ! s)) (s', n', b')" by (rule go) (use s in simp)
        then have "st' = st \<and> gsub_done cv src p news anchor (if anchor then 0 else Suc k) (s + 1) n
            (luaL_addchar bufsiz b (src ! s)) (s', n', b')" by (simp only: k)
        then show ?thesis unfolding k
          by (auto elim!: gsub_done_step [where qs = "[Kept (src ! s)]" and us = "[[src ! s]]"]
              simp: contents_addchar scan_miss [OF no s])
      next
        case False
        with run True m None less.prems(2) have "(s', n', b', st') = (length src, n, b, st)" "s = length src" by auto
        with scan_miss_end [of src p anchor k] no show ?thesis unfolding k gsub_done_def
          by (auto intro!: exI [of _ "[]"])
      qed
    next
      case (Some e)
      from decides_Some [OF do_match_decides m [unfolded Some]] have hit: "matches src p 0 s [] e c" .
      from matches_end [OF hit less.prems(2)] have e: "s \<le> e" "e \<le> length src" by auto
      from run True m Some obtain b1 where b1: "add_s bufsiz cv src news c (s, e) 0 b = Inr b1"
        by (auto simp: add_value_def bindE_Inr_iff)
      with add_s_expand [of bufsiz cv src news c "(s, e)" 0 b] obtain t where
        t: "expand cv src c (s, e) news = Inr t" "lb_contents b1 = lb_contents b @ t"
        by (cases "expand cv src c (s, e) news") auto
      have val: "add_value bufsiz cv call slots src (LStr news) c (s, e) b st = Inr (b1, st)"
        using b1 by (simp add: add_value_def)
      consider (longer) "s < e" | (emp) "e = s" "s < length src" | (stp) "e = s" "s = length src"
        using e less.prems(2) by linarith
      then show ?thesis
      proof cases
        case longer
        with run True m Some val have "?go e (n + 1) b1 = Inr (s', n', b', st')" by (cases anchor) auto
        moreover have "nat (max_s - (n + 1)) + (length src - e) < nat (max_s - n) + (length src - s)"
          using longer True by linarith
        ultimately have "st' = st \<and> gsub_done cv src p news anchor (if anchor then 0 else k) e (n + 1) b1
            (s', n', b')" unfolding k_def by (rule go) (use e in simp)
        then show ?thesis unfolding k using t
          by (auto elim!: gsub_done_step [where qs = "[Hit s e c]" and us = "[t]"] simp: scan_hit [OF hit longer])
      next
        case emp
        with run True m Some val have "?go (s + 1) (n + 1) (luaL_addchar bufsiz b1 (src ! s)) = Inr (s', n', b', st')"
          by (cases anchor) auto
        moreover have "nat (max_s - (n + 1)) + (length src - (s + 1)) < nat (max_s - n) + (length src - s)"
          using emp True by linarith
        ultimately have "st' = st \<and> gsub_done cv src p news anchor (if anchor then 0 else k) (s + 1) (n + 1)
            (luaL_addchar bufsiz b1 (src ! s)) (s', n', b')" unfolding k_def by (rule go) (use emp in simp)
        then show ?thesis unfolding k using t emp
          by (auto elim!: gsub_done_step [where qs = "[Hit s s c, Kept (src ! s)]" and us = "[t, [src ! s]]"]
              simp: contents_addchar scan_empty [OF hit [unfolded emp(1)] emp(2)])
      next
        case stp
        with run True m Some val have "(s', n', b', st') = (s, n + 1, b1, st)" by auto
        with stp t hit show ?thesis unfolding k gsub_done_def
          by (auto intro!: exI [of _ "[Hit s s c]"] scan_empty_end)
      qed
    qed
  qed
qed

lemma str_gsub_pieces:
  assumes run: "str_gsub bufsiz cv call args st = Inr (vs, st')"
    and args: "index2adr args 1 = Some (LStr src)" "index2adr args 2 = Some (LStr pat)" "index2adr args 3 = Some (LStr news)"
    and max_s: "luaL_optint cv args 4 (int (length src) + 1) = Inr max_s"
    and p: "unanchor (cstr pat) = (anchor, p)"
  shows "st' = st \<and> (\<exists>ps ts. scan src p anchor (nat max_s) 0 ps \<and> mapE (piece_out cv src news) ps = Inr ts
    \<and> vs = [LStr (concat ts), lua_pushinteger cv (int (hits ps))]
    \<and> concat (map (piece_text src) ps) = src \<and> hits ps \<le> nat max_s)"
proof -
  from run args max_s p obtain s n b where
    loop: "gsub_loop bufsiz cv call (length args) src p (LStr news) anchor max_s 0 0 luaL_buffinit st = Inr (s, n, b, st')"
    and vs: "vs = [LStr (luaL_pushresult (luaL_addlstring bufsiz b (drop s src))), lua_pushinteger cv n]"
    by (auto simp: str_gsub_def luaL_checkstring_def luaL_checklstring_def bindE_Inr_iff)
  from gsub_loop_scan [OF loop] have "st' = st" and d: "gsub_done cv src p news anchor (nat max_s) 0 0 luaL_buffinit (s, n, b)"
    by simp_all
  from d obtain ps ts where ps: "scan src p anchor (nat max_s) 0 ps" "mapE (piece_out cv src news) ps = Inr ts"
      "lb_contents b @ drop s src = concat ts" "n = int (hits ps)"
    by (auto simp: gsub_done_def contents_buffinit)
  with vs have "vs = [LStr (concat ts), lua_pushinteger cv (int (hits ps))]"
    by (simp add: pushresult_contents contents_addlstring)
  with ps scan_partitions [OF ps(1)] scan_hits [OF ps(1)] \<open>st' = st\<close> show ?thesis by (intro conjI exI) auto
qed

text \<open>Replacing every match by itself changes nothing.\<close>

lemma expand_whole: "expand cv src caps w ''%0'' = Inr (take (snd w - fst w) (drop (fst w) src))"
  by (simp add: isdigit_def)

lemma pieces_whole: "mapE (piece_out cv src ''%0'') ps = Inr (map (piece_text src) ps)"
proof (induction ps)
  case (Cons q ps)
  then show ?case by (cases q) (simp_all add: expand_whole del: expand.simps)
qed simp

lemma gsub_identity:
  assumes "str_gsub bufsiz cv call [LStr src, LStr pat, LStr ''%0''] st = Inr (vs, st')"
  shows "\<exists>n. vs = [LStr src, lua_pushinteger cv n]"
proof -
  let ?args = "[LStr src, LStr pat, LStr ''%0'']"
  have i: "index2adr ?args 3 = Some (LStr ''%0'')" by (rule index2adr_3)
  obtain max_s where "luaL_optint cv ?args 4 (int (length src) + 1) = Inr max_s"
    by (simp add: luaL_optint_def luaL_optinteger_def)
  moreover obtain anchor p where "unanchor (cstr pat) = (anchor, p)" by (cases "unanchor (cstr pat)")
  ultimately show ?thesis
    using str_gsub_pieces [OF assms(1) index2adr_1 [unfolded One_nat_def [symmetric]] index2adr_2 i, of max_s anchor p]
    by (auto simp: pieces_whole simp del: piece_out.simps)
qed

text \<open>
  C10. \<open>string.gsub\<close> with a replacement string: the subject falls into kept characters and matches
  of the pattern, tried at every position in turn and at most \<open>max_s\<close> times; the pieces in order
  are the whole subject, the result is their replacements in order, the second result the number of
  matches, and no Lua function is called.
\<close>

theorem gsub_rewrites:
  assumes run: "str_gsub bufsiz cv call args st = Inr (vs, st')"
    and args: "index2adr args 1 = Some (LStr src)" "index2adr args 2 = Some (LStr pat)" "index2adr args 3 = Some (LStr news)"
    and max_s: "luaL_optint cv args 4 (int (length src) + 1) = Inr max_s"
    and p: "unanchor (cstr pat) = (anchor, p)"
  shows "st' = st \<and> (\<exists>ps ts. scan src p anchor (nat max_s) 0 ps \<and> mapE (piece_out cv src news) ps = Inr ts
    \<and> vs = [LStr (concat ts), lua_pushinteger cv (int (hits ps))]
    \<and> concat (map (piece_text src) ps) = src \<and> hits ps \<le> nat max_s)"
  using assms by (rule str_gsub_pieces)

theorem gsub_rewrites_witness:
  "\<exists>ps ts. scan ''ab cd'' ''(%a)%a'' False 6 0 ps \<and> mapE (piece_out plain_conv ''ab cd'' ''<%1>'') ps = Inr ts
    \<and> [LStr ''<a> <c>'', LNum 2] = [LStr (concat ts), lua_pushinteger plain_conv (int (hits ps))]"
proof -
  let ?args = "[LStr ''ab cd'', LStr ''(%a)%a'', LStr ''<%1>'']"
  have "str_gsub 4 plain_conv (\<lambda>f vs st. luaL_error []) ?args () = Inr ([LStr ''<a> <c>'', LNum 2], ())"
    by code_simp
  from gsub_rewrites [OF this, of "''ab cd''" "''(%a)%a''" "''<%1>''" 6 False "''(%a)%a''"] show ?thesis
    by (auto simp: luaL_optint_def luaL_optinteger_def cast_int_def unanchor_def cstr_def cnth_def)
qed

end
