(* ===== verification/Lua_Strprops.thy ===== *)
theory Lua_Strprops
  imports Lua_Gsub
begin

text \<open>
  The string functions without patterns: what \<open>reverse\<close>, \<open>lower\<close>, \<open>upper\<close>, \<open>rep\<close> and \<open>sub\<close>
  compute, \<open>char\<close> and \<open>byte\<close> as inverses, and that a conversion specification fits the array that
  \<open>str_format\<close> keeps it in.
\<close>

lemma pushresult_fold:
  "luaL_pushresult (foldl (\<lambda>b c. luaL_addchar bufsiz b (f c)) luaL_buffinit s) = map f s"
proof -
  have "lb_contents (foldl (\<lambda>b c. luaL_addchar bufsiz b (f c)) b s) = lb_contents b @ map f s" for b
    by (induction s arbitrary: b) (auto simp: contents_addchar)
  then show ?thesis by (simp add: pushresult_contents contents_buffinit)
qed

lemma reverse_rev: "luaL_checklstring cv args 1 = Inr s \<Longrightarrow> str_reverse bufsiz cv args = Inr [LStr (rev s)]"
  using pushresult_fold [of bufsiz "\<lambda>c. c" "map ((!) s) (rev [0..<length s])"]
  by (simp add: str_reverse_def rev_map [symmetric] map_nth)

lemma lower_map: "luaL_checklstring cv args 1 = Inr s \<Longrightarrow> str_lower bufsiz cv args = Inr [LStr (map tolower s)]"
  by (simp add: str_lower_def pushresult_fold)

lemma upper_map: "luaL_checklstring cv args 1 = Inr s \<Longrightarrow> str_upper bufsiz cv args = Inr [LStr (map toupper s)]"
  by (simp add: str_upper_def pushresult_fold)

lemma rep_replicate:
  assumes "luaL_checklstring cv args 1 = Inr s" and "luaL_checkint cv args 2 = Inr n"
  shows "str_rep bufsiz cv args = Inr [LStr (concat (replicate (nat n) s))]"
proof -
  have "lb_contents (rep_loop bufsiz s k b) = lb_contents b @ concat (replicate k s)" for k b
    by (induction k arbitrary: b) (auto simp: contents_addlstring)
  with assms show ?thesis by (simp add: str_rep_def pushresult_contents contents_buffinit)
qed

text \<open>\<open>sub (s, i, j)\<close>: characters \<open>i\<close> to \<open>j\<close>, negative positions from the end.\<close>

definition abs_pos :: "nat \<Rightarrow> int \<Rightarrow> int" where
  "abs_pos len i = (if i < 0 then int len + 1 + i else i)"

lemma sub_slice:
  assumes "luaL_checklstring cv args 1 = Inr s" and "luaL_checkinteger cv args 2 = Inr i"
    and "luaL_optinteger cv args 3 (- 1) = Inr j"
  shows "str_sub cv args = Inr [LStr (map (\<lambda>k. s ! nat (k - 1))
    [max 1 (abs_pos (length s) i)..min (int (length s)) (abs_pos (length s) j)])]"
proof -
  let ?b = "max 1 (abs_pos (length s) i)" and ?e = "min (int (length s)) (abs_pos (length s) j)"
  have run: "str_sub cv args = Inr [LStr (if ?b \<le> ?e then take (nat (?e - ?b + 1)) (drop (nat (?b - 1)) s) else [])]"
  proof -
    have b: "(if posrelat i (length s) < 1 then 1 else posrelat i (length s)) = ?b"
      by (auto simp: posrelat_def abs_pos_def Let_def)
    have e: "(if int (length s) < posrelat j (length s) then int (length s) else posrelat j (length s)) = max 0 ?e"
      by (auto simp: posrelat_def abs_pos_def Let_def)
    show ?thesis
    proof (cases "?b \<le> ?e")
      case True
      then have "max 0 ?e = ?e" by auto
      with True show ?thesis using assms unfolding str_sub_def by (simp only: bindE.simps Let_def b e if_True)
    next
      case False
      then have "\<not> ?b \<le> max 0 ?e" by auto
      with False show ?thesis using assms unfolding str_sub_def by (simp only: bindE.simps Let_def b e if_False)
    qed
  qed
  have "(if ?b \<le> ?e then take (nat (?e - ?b + 1)) (drop (nat (?b - 1)) s) else []) = map (\<lambda>k. s ! nat (k - 1)) [?b..?e]"
    (is "?l = ?r")
  proof (rule nth_equalityI)
    show len: "length ?l = length ?r" by (auto simp: max_def min_def)
    fix n
    assume "n < length ?l"
    then have n: "?b \<le> ?e" "n < nat (?e - ?b + 1)" using len by (auto split: if_splits)
    moreover from this have "nat (?b - 1) \<le> length s" by (simp add: min_def split: if_splits)
    ultimately have "?l ! n = s ! (nat (?b - 1) + n)" by simp
    moreover have "nat (?b - 1) + n = nat (?b + int n - 1)" by linarith
    moreover have "[?b..?e] ! n = ?b + int n" using n by (intro nth_upto) linarith
    ultimately show "?l ! n = ?r ! n" using n by simp
  qed
  with run show ?thesis by simp
qed

section \<open>\<open>byte\<close> and \<open>char\<close>\<close>

lemma cast_int_id: "- (2 ^ 31) \<le> i \<Longrightarrow> i < 2 ^ 31 \<Longrightarrow> cast_int i = i"
  by (simp add: cast_int_def signed_of_int [where 'a = int, simplified] signed_take_bit_int_eq_self)

lemma char_loop_bytes:
  assumes "\<And>i. i \<in> set is \<Longrightarrow> 1 \<le> i \<and> i \<le> length args" and "\<And>i. i < 256 \<Longrightarrow> integer2number cv (int i) = real i"
    and "args = map (\<lambda>c. lua_pushinteger cv (int (uc c))) s"
  shows "\<exists>b'. char_loop bufsiz cv args is b = Inr b' \<and> lb_contents b' = lb_contents b @ map (\<lambda>i. s ! (i - 1)) is"
  using assms(1)
proof (induction "is" arbitrary: b)
  case (Cons i "is")
  then have i: "1 \<le> i" "i \<le> length args" by auto
  have "cast_int (int (uc c)) = int (uc c)" for c
    using uc_less [of c] by (intro cast_int_id) (auto simp: less_trans [of _ 256])
  with i assms(2,3) have "luaL_checkint cv args i = Inr (int (uc (s ! (i - 1))))"
    by (simp add: luaL_checkint_def luaL_checkinteger_def luaL_checknumber_def index2adr_def lua_pushinteger_def)
  moreover have "int (uc c) mod 256 = int (uc c)" for c by (simp add: zmod_int [symmetric, of _ 256, simplified])
  ultimately show ?case using Cons.IH [of "luaL_addchar bufsiz b (s ! (i - 1))"] Cons.prems
    by (simp add: contents_addchar)
qed simp

text \<open>
  \<open>string.char\<close> takes the numbers that \<open>string.byte (s, 1, -1)\<close> returns back to \<open>s\<close>, for a
  string that fits the stack of a C function and a conversion of integers to numbers that is exact
  for the values of a byte.
\<close>

theorem byte_char_roundtrip:
  assumes "length s + 3 \<le> LUAI_MAXCSTACK" and "\<And>i. i < 256 \<Longrightarrow> integer2number cv (int i) = real i"
  shows "\<exists>vs. str_byte cv [LStr s, LNum 1, LNum (- 1)] = Inr vs \<and> str_char bufsiz cv vs = Inr [LStr s]"
proof (cases "s = []")
  case True
  then show ?thesis
    by (simp add: str_byte_def str_char_def luaL_optinteger_def luaL_checkinteger_def luaL_checklstring_def
        posrelat_def pushresult_contents contents_buffinit)
next
  case False
  let ?vs = "map (\<lambda>c. lua_pushinteger cv (int (uc c))) s"
  have "cast_int (int (length s)) = int (length s)"
    using assms(1) by (intro cast_int_id) (simp_all add: LUAI_MAXCSTACK_def)
  moreover have "?vs = map (\<lambda>k. lua_pushinteger cv (int (uc (s ! k)))) [0..<length s]"
    by (subst map_nth [symmetric, of s]) (simp only: map_map comp_def length_map length_upt)
  ultimately have "str_byte cv [LStr s, LNum 1, LNum (- 1)] = Inr ?vs"
    using assms(1) False
    by (simp add: str_byte_def luaL_optinteger_def luaL_checkinteger_def luaL_checklstring_def luaL_checkstack_def
        posrelat_def Let_def Suc_le_eq)
  moreover obtain b where "char_loop bufsiz cv ?vs [1..<Suc (length ?vs)] luaL_buffinit = Inr b"
      "lb_contents b = map (\<lambda>i. s ! (i - 1)) [1..<Suc (length s)]"
    using char_loop_bytes [of "[1..<Suc (length ?vs)]" ?vs cv s bufsiz luaL_buffinit, OF _ assms(2) refl]
    by (auto simp: contents_buffinit simp del: upt_Suc)
  moreover have "map (\<lambda>i. s ! (i - 1)) [1..<Suc (length s)] = s"
    by (simp add: map_Suc_upt [symmetric] comp_def map_nth del: upt_Suc)
  ultimately show ?thesis by (intro exI [of _ ?vs]) (simp add: str_char_def pushresult_contents del: upt_Suc)
qed

theorem byte_char_roundtrip_witness:
  "\<exists>vs. str_byte plain_conv [LStr ''Lua'', LNum 1, LNum (- 1)] = Inr vs \<and> str_char 4 plain_conv vs = Inr [LStr ''Lua'']"
  using byte_char_roundtrip [of "''Lua''" plain_conv 4] by (simp add: LUAI_MAXCSTACK_def plain_conv_def)

section \<open>Conversion specifications\<close>

text \<open>\<open>MAX_FORMAT\<close> is \<open>sizeof (FLAGS) + sizeof (LUA_INTFRMLEN) + 10\<close>.\<close>

definition MAX_FORMAT :: nat where "MAX_FORMAT = 6 + 2 + 10"

lemma scanformat_fits:
  assumes "scanformat fmt i = Inr (form, p)"
  shows "length form + 1 \<le> MAX_FORMAT" and "length (addintlen form) + 1 \<le> MAX_FORMAT"
proof -
  have skip: "skip_digits fmt q \<le> q + 2" for q by (auto simp: skip_digits_def Let_def)
  let ?q = "i + length (takeWhile (\<lambda>c. c \<in> set FLAGS) (drop i fmt))"
  have "\<not> length FLAGS + 1 \<le> ?q - i" and p: "p = (if cnth fmt (skip_digits fmt ?q) = CHR ''.''
      then skip_digits fmt (skip_digits fmt ?q + 1) else skip_digits fmt ?q)"
    and form: "form = L_ESC # map (cnth fmt) [i..<p + 1]"
    using assms by (auto simp: scanformat_def Let_def luaL_error_def split: if_splits)
  then have "?q \<le> i + 5" by (simp add: FLAGS_def)
  with p skip [of ?q] skip [of "skip_digits fmt ?q + 1"] have "p \<le> i + 10" by (auto split: if_splits)
  with form show "length form + 1 \<le> MAX_FORMAT" "length (addintlen form) + 1 \<le> MAX_FORMAT"
    by (auto simp: MAX_FORMAT_def addintlen_def simp del: upt_Suc)
qed

end
