(* ===== verification/Lua_Quote.thy ===== *)
theory Lua_Quote
  imports Lua_Lex Lua_Strprops
begin

text \<open>
  \<open>string.format ("%q", s)\<close> against the lexer: what \<open>addquoted\<close> writes, \<open>llex\<close> reads back as the
  string token \<open>s\<close>.
\<close>

lemma addquoted_text:
  assumes "luaL_checklstring cv args arg = Inr s"
  shows "\<exists>b'. addquoted bufsiz cv args arg b = Inr b'
    \<and> lb_contents b' = lb_contents b @ CHR 0x22 # concat (map quote_char s) @ [CHR 0x22]"
proof -
  have "lb_contents (foldl (\<lambda>b c. luaL_addlstring bufsiz b (quote_char c)) b s) =
      lb_contents b @ concat (map quote_char s)" for b
    by (induction s arbitrary: b) (auto simp: contents_addlstring)
  with assms show ?thesis by (simp add: addquoted_def Let_def contents_addchar)
qed

lemma quote_chars:
  "c = CHR 0x22 \<or> c = CHR 0x5C \<Longrightarrow> quote_char c = [CHR 0x5C, c]"
  "quote_char LF = [CHR 0x5C, LF]" "quote_char CR = [CHR 0x5C, CHR ''r'']" "quote_char NUL = CHR 0x5C # ''000''"
  "c \<notin> {CHR 0x22, CHR 0x5C, LF, CR, NUL} \<Longrightarrow> quote_char c = [c]"
  by (auto simp: quote_char_def)

text \<open>The next character is never a newline, so \<open>inclinenumber\<close> skips just the one it is at.\<close>

lemma quoted_head: "hd (concat (map quote_char s) @ CHR 0x22 # r) \<notin> {LF, CR}"
  by (cases s) (auto simp: quote_char_def)

lemma inclinenumber_one:
  assumes "ls_rest ls = c # r" and "r \<noteq> []" and "hd r \<notin> {LF, CR}" and "ls_line ls + 1 < MAX_INT"
  shows "inclinenumber cv ls = Inr (ls\<lparr>ls_rest := r, ls_line := ls_line ls + 1\<rparr>)"
  using assms by (cases r) (auto simp: inclinenumber_def Let_def next_char_def currIsNewline_def cur_is_def current_def)

lemma char_of_0: "char_of (0 :: nat) = NUL"
  by code_simp

definition lf_count :: "string \<Rightarrow> nat" where "lf_count s = length (filter (\<lambda>c. c = LF) s)"

lemma dec_loop_nul:
  "ls_rest ls = ''000'' @ r \<Longrightarrow> dec_loop 3 0 ls = (0, ls\<lparr>ls_rest := r\<rparr>)"
  by (simp add: numeral_3_eq_3 current_def next_char_def isdigit_def)

lemma string_loop_quoted:
  assumes "ls_rest ls = concat (map quote_char s) @ CHR 0x22 # r" and "ls_line ls + lf_count s < MAX_INT"
  shows "string_loop cv (CHR 0x22) ls =
    Inr (ls\<lparr>ls_rest := CHR 0x22 # r, ls_buff := ls_buff ls @ s, ls_line := ls_line ls + lf_count s\<rparr>)"
  using assms
proof (induction s arbitrary: ls)
  case Nil
  then show ?case by (simp add: string_loop.simps [of cv _ ls] current_def lf_count_def)
next
  case (Cons c s)
  let ?t = "concat (map quote_char s) @ CHR 0x22 # r"
  note step = string_loop.simps [of cv "CHR 0x22" ls]
  consider (esc) "c = CHR 0x22 \<or> c = CHR 0x5C" | (lf) "c = LF" | (cr) "c = CR" | (nul) "c = NUL"
    | (plain) "c \<notin> {CHR 0x22, CHR 0x5C, LF, CR, NUL}" by blast
  then show ?case
  proof cases
    case esc
    with Cons.prems have rest: "ls_rest ls = CHR 0x5C # c # ?t" by (simp add: quote_chars)
    have "escape_char c = None" "\<not> isdigit c" "c \<noteq> LF" "c \<noteq> CR" using esc by (auto simp: escape_char_def isdigit_def)
    with rest have "read_escape cv (next_char ls) = Inr (ls\<lparr>ls_rest := ?t, ls_buff := ls_buff ls @ [c]\<rparr>)"
      by (simp add: read_escape_def current_def save_and_next_def next_char_def save_def)
    with rest have "string_loop cv (CHR 0x22) ls = string_loop cv (CHR 0x22) (ls\<lparr>ls_rest := ?t, ls_buff := ls_buff ls @ [c]\<rparr>)"
      by (simp add: step current_def)
    with esc Cons show ?thesis by (auto simp: lf_count_def)
  next
    case lf
    with Cons.prems have rest: "ls_rest ls = CHR 0x5C # LF # ?t" by (simp add: quote_chars)
    have "inclinenumber cv (save LF (next_char ls)) =
        Inr (ls\<lparr>ls_rest := ?t, ls_buff := ls_buff ls @ [LF], ls_line := ls_line ls + 1\<rparr>)"
      using inclinenumber_one [of "save LF (next_char ls)" LF ?t cv] quoted_head [of s r] rest Cons.prems lf
      by (simp add: save_def next_char_def lf_count_def)
    with rest have "string_loop cv (CHR 0x22) ls =
        string_loop cv (CHR 0x22) (ls\<lparr>ls_rest := ?t, ls_buff := ls_buff ls @ [LF], ls_line := ls_line ls + 1\<rparr>)"
      by (simp add: step current_def read_escape_def escape_char_def next_char_def)
    with lf Cons show ?thesis by (simp add: lf_count_def)
  next
    case cr
    with Cons.prems have rest: "ls_rest ls = CHR 0x5C # CHR ''r'' # ?t" by (simp add: quote_chars)
    with cr have "read_escape cv (next_char ls) = Inr (ls\<lparr>ls_rest := ?t, ls_buff := ls_buff ls @ [c]\<rparr>)"
      by (simp add: read_escape_def current_def escape_char_def next_char_def save_def)
    with rest have "string_loop cv (CHR 0x22) ls = string_loop cv (CHR 0x22) (ls\<lparr>ls_rest := ?t, ls_buff := ls_buff ls @ [c]\<rparr>)"
      by (simp add: step current_def)
    with cr Cons show ?thesis by (auto simp: lf_count_def)
  next
    case nul
    with Cons.prems have rest: "ls_rest (next_char ls) = ''000'' @ ?t" "ls_rest ls = CHR 0x5C # ''000'' @ ?t"
      by (simp_all add: quote_chars next_char_def)
    have "read_escape cv (next_char ls) = Inr (ls\<lparr>ls_rest := ?t, ls_buff := ls_buff ls @ [c]\<rparr>)"
      using rest dec_loop_nul [OF rest(1)] nul char_of_0
      by (simp add: read_escape_def current_def escape_char_def isdigit_def save_def) (simp add: next_char_def)
    with rest have "string_loop cv (CHR 0x22) ls = string_loop cv (CHR 0x22) (ls\<lparr>ls_rest := ?t, ls_buff := ls_buff ls @ [c]\<rparr>)"
      by (simp add: step current_def)
    with nul Cons show ?thesis by (auto simp: lf_count_def)
  next
    case plain
    with Cons.prems have rest: "ls_rest ls = c # ?t" by (simp add: quote_chars)
    then have "save_and_next ls = ls\<lparr>ls_rest := ?t, ls_buff := ls_buff ls @ [c]\<rparr>"
      by (simp add: current_def save_and_next_def next_char_def save_def)
    with rest plain have "string_loop cv (CHR 0x22) ls = string_loop cv (CHR 0x22) (ls\<lparr>ls_rest := ?t, ls_buff := ls_buff ls @ [c]\<rparr>)"
      by (simp add: step current_def)
    with plain Cons show ?thesis by (auto simp: lf_count_def)
  qed
qed

text \<open>
  C8. \<open>%q\<close> can be read back by Lua: the lexer, at the text that \<open>string.format\<close> with \<open>%q\<close> appends
  for the string \<open>s\<close>, whatever bytes it has, returns the string token \<open>s\<close> and stops right after
  it, with the newlines of \<open>s\<close> counted as lines.
\<close>

theorem quoted_reads_back:
  assumes "luaL_checklstring cv args arg = Inr s"
    and "ls_line ls + lf_count s < MAX_INT"
  shows "\<exists>b' q. addquoted bufsiz cv args arg b = Inr b' \<and> lb_contents b' = lb_contents b @ q
    \<and> (\<exists>ls'. llex cv dp (ls\<lparr>ls_rest := q @ r\<rparr>) = Inr (TK_STRING s, ls')
         \<and> ls_rest ls' = r \<and> ls_line ls' = ls_line ls + lf_count s)"
proof -
  let ?q = "CHR 0x22 # concat (map quote_char s) @ [CHR 0x22]"
  obtain b' where b': "addquoted bufsiz cv args arg b = Inr b'" "lb_contents b' = lb_contents b @ ?q"
    using addquoted_text [OF assms(1)] by blast
  let ?ls = "resetbuffer (ls\<lparr>ls_rest := ?q @ r\<rparr>)"
  have "save_and_next ?ls = ls\<lparr>ls_rest := concat (map quote_char s) @ CHR 0x22 # r, ls_buff := [CHR 0x22]\<rparr>"
    by (simp add: save_and_next_def next_char_def save_def resetbuffer_def current_def)
  with string_loop_quoted [of "save_and_next ?ls" s r cv] assms(2)
  have "read_string cv (CHR 0x22) ?ls = Inr (TK_STRING s,
      ls\<lparr>ls_rest := r, ls_buff := CHR 0x22 # s @ [CHR 0x22], ls_line := ls_line ls + lf_count s\<rparr>)"
    by (simp add: read_string_def Let_def) (simp add: save_and_next_def next_char_def save_def current_def)
  moreover have "llex cv dp (ls\<lparr>ls_rest := ?q @ r\<rparr>) = read_string cv (CHR 0x22) ?ls"
    unfolding llex_def llex_loop.simps [of cv dp ?ls] by (simp add: current_def)
  ultimately show ?thesis using b' by (intro exI [of _ b'] exI [of _ ?q]) auto
qed

theorem quoted_reads_back_witness:
  "\<exists>b' q. addquoted 4 plain_conv [LStr [CHR 0x22, LF, NUL, CR]] 1 luaL_buffinit = Inr b'
    \<and> lb_contents b' = lb_contents luaL_buffinit @ q
    \<and> (\<exists>ls'. llex plain_conv (CHR ''.'') ((luaX_setinput [])\<lparr>ls_rest := q @ '' x''\<rparr>) = Inr (TK_STRING [CHR 0x22, LF, NUL, CR], ls')
         \<and> ls_rest ls' = '' x'' \<and> ls_line ls' = ls_line (luaX_setinput []) + 1)"
  using quoted_reads_back [of plain_conv "[LStr [CHR 0x22, LF, NUL, CR]]" 1 "[CHR 0x22, LF, NUL, CR]" "luaX_setinput []"
      4 luaL_buffinit "CHR ''.''" "'' x''"]
  by (simp add: luaL_checklstring_def lf_count_def luaX_setinput_def MAX_INT_def)

end
