(* ===== verification/Lua_Opcode.thy ===== *)
theory Lua_Opcode
  imports Prelude
begin

text \<open>
  Instructions of the virtual machine, \<open>lopcodes.h\<close> and \<open>lopcodes.c\<close>: the fields of an instruction
  word, the opcodes (the numbers of the enumeration), and the table of their properties.
\<close>

section \<open>Fields\<close>

type_synonym instruction = "32 word"

abbreviation (input) SIZE_C :: nat where "SIZE_C \<equiv> 9"
abbreviation (input) SIZE_B :: nat where "SIZE_B \<equiv> 9"
abbreviation (input) SIZE_Bx :: nat where "SIZE_Bx \<equiv> 18"
abbreviation (input) SIZE_A :: nat where "SIZE_A \<equiv> 8"
abbreviation (input) SIZE_OP :: nat where "SIZE_OP \<equiv> 6"
abbreviation (input) POS_OP :: nat where "POS_OP \<equiv> 0"
abbreviation (input) POS_A :: nat where "POS_A \<equiv> 6"
abbreviation (input) POS_C :: nat where "POS_C \<equiv> 14"
abbreviation (input) POS_B :: nat where "POS_B \<equiv> 23"
abbreviation (input) POS_Bx :: nat where "POS_Bx \<equiv> 14"

definition MAXARG_Bx :: int where "MAXARG_Bx = 2 ^ SIZE_Bx - 1"
definition MAXARG_sBx :: int where "MAXARG_sBx = 131071"   \<comment> \<open>\<open>MAXARG_Bx >> 1\<close>\<close>

definition MASK1 :: "nat \<Rightarrow> nat \<Rightarrow> instruction" where
  "MASK1 n p = push_bit p (NOT (push_bit n (NOT 0)))"

definition MASK0 :: "nat \<Rightarrow> nat \<Rightarrow> instruction" where
  "MASK0 n p = NOT (MASK1 n p)"

text \<open>The macros \<open>GETARG_x\<close> and \<open>SETARG_x\<close> for a field of \<open>n\<close> bits at \<open>p\<close>.\<close>

definition getarg :: "nat \<Rightarrow> nat \<Rightarrow> instruction \<Rightarrow> nat" where
  "getarg n p i = unat (drop_bit p i AND MASK1 n 0)"

definition setarg :: "nat \<Rightarrow> nat \<Rightarrow> nat \<Rightarrow> instruction \<Rightarrow> instruction" where
  "setarg n p u i = (i AND MASK0 n p) OR (push_bit p (of_nat u) AND MASK1 n p)"

definition GET_OPCODE :: "instruction \<Rightarrow> nat" where "GET_OPCODE = getarg SIZE_OP POS_OP"
definition GETARG_A :: "instruction \<Rightarrow> nat" where "GETARG_A = getarg SIZE_A POS_A"
definition GETARG_B :: "instruction \<Rightarrow> nat" where "GETARG_B = getarg SIZE_B POS_B"
definition GETARG_C :: "instruction \<Rightarrow> nat" where "GETARG_C = getarg SIZE_C POS_C"
definition GETARG_Bx :: "instruction \<Rightarrow> nat" where "GETARG_Bx = getarg SIZE_Bx POS_Bx"
definition GETARG_sBx :: "instruction \<Rightarrow> int" where "GETARG_sBx i = int (GETARG_Bx i) - MAXARG_sBx"

definition SET_OPCODE :: "nat \<Rightarrow> instruction \<Rightarrow> instruction" where "SET_OPCODE = setarg SIZE_OP POS_OP"
definition SETARG_A :: "nat \<Rightarrow> instruction \<Rightarrow> instruction" where "SETARG_A = setarg SIZE_A POS_A"
definition SETARG_B :: "nat \<Rightarrow> instruction \<Rightarrow> instruction" where "SETARG_B = setarg SIZE_B POS_B"
definition SETARG_C :: "nat \<Rightarrow> instruction \<Rightarrow> instruction" where "SETARG_C = setarg SIZE_C POS_C"
definition SETARG_Bx :: "nat \<Rightarrow> instruction \<Rightarrow> instruction" where "SETARG_Bx = setarg SIZE_Bx POS_Bx"
definition SETARG_sBx :: "int \<Rightarrow> instruction \<Rightarrow> instruction" where
  "SETARG_sBx b = SETARG_Bx (nat ((b + MAXARG_sBx) mod 2 ^ 32))"

definition CREATE_ABC :: "nat \<Rightarrow> nat \<Rightarrow> nat \<Rightarrow> nat \<Rightarrow> instruction" where
  "CREATE_ABC o' a b c = push_bit POS_OP (of_nat o') OR push_bit POS_A (of_nat a)
     OR push_bit POS_B (of_nat b) OR push_bit POS_C (of_nat c)"

definition CREATE_ABx :: "nat \<Rightarrow> nat \<Rightarrow> nat \<Rightarrow> instruction" where
  "CREATE_ABx o' a bc = push_bit POS_OP (of_nat o') OR push_bit POS_A (of_nat a) OR push_bit POS_Bx (of_nat bc)"

definition BITRK :: nat where "BITRK = 2 ^ (SIZE_B - 1)"
definition ISK :: "nat \<Rightarrow> bool" where "ISK x \<longleftrightarrow> x AND BITRK \<noteq> 0"
definition INDEXK :: "nat \<Rightarrow> nat" where "INDEXK r = (if bit r 8 then r - BITRK else r)"   \<comment> \<open>\<open>r & ~BITRK\<close>\<close>
definition RKASK :: "nat \<Rightarrow> nat" where "RKASK x = x OR BITRK"
abbreviation (input) NO_REG :: nat where "NO_REG \<equiv> 255"

section \<open>Opcodes\<close>

abbreviation (input) OP_MOVE :: nat where "OP_MOVE \<equiv> 0"
abbreviation (input) OP_LOADK :: nat where "OP_LOADK \<equiv> 1"
abbreviation (input) OP_LOADBOOL :: nat where "OP_LOADBOOL \<equiv> 2"
abbreviation (input) OP_LOADNIL :: nat where "OP_LOADNIL \<equiv> 3"
abbreviation (input) OP_GETUPVAL :: nat where "OP_GETUPVAL \<equiv> 4"
abbreviation (input) OP_GETGLOBAL :: nat where "OP_GETGLOBAL \<equiv> 5"
abbreviation (input) OP_GETTABLE :: nat where "OP_GETTABLE \<equiv> 6"
abbreviation (input) OP_SETGLOBAL :: nat where "OP_SETGLOBAL \<equiv> 7"
abbreviation (input) OP_SETUPVAL :: nat where "OP_SETUPVAL \<equiv> 8"
abbreviation (input) OP_SETTABLE :: nat where "OP_SETTABLE \<equiv> 9"
abbreviation (input) OP_NEWTABLE :: nat where "OP_NEWTABLE \<equiv> 10"
abbreviation (input) OP_SELF :: nat where "OP_SELF \<equiv> 11"
abbreviation (input) OP_ADD :: nat where "OP_ADD \<equiv> 12"
abbreviation (input) OP_SUB :: nat where "OP_SUB \<equiv> 13"
abbreviation (input) OP_MUL :: nat where "OP_MUL \<equiv> 14"
abbreviation (input) OP_DIV :: nat where "OP_DIV \<equiv> 15"
abbreviation (input) OP_MOD :: nat where "OP_MOD \<equiv> 16"
abbreviation (input) OP_POW :: nat where "OP_POW \<equiv> 17"
abbreviation (input) OP_UNM :: nat where "OP_UNM \<equiv> 18"
abbreviation (input) OP_NOT :: nat where "OP_NOT \<equiv> 19"
abbreviation (input) OP_LEN :: nat where "OP_LEN \<equiv> 20"
abbreviation (input) OP_CONCAT :: nat where "OP_CONCAT \<equiv> 21"
abbreviation (input) OP_JMP :: nat where "OP_JMP \<equiv> 22"
abbreviation (input) OP_EQ :: nat where "OP_EQ \<equiv> 23"
abbreviation (input) OP_LT :: nat where "OP_LT \<equiv> 24"
abbreviation (input) OP_LE :: nat where "OP_LE \<equiv> 25"
abbreviation (input) OP_TEST :: nat where "OP_TEST \<equiv> 26"
abbreviation (input) OP_TESTSET :: nat where "OP_TESTSET \<equiv> 27"
abbreviation (input) OP_CALL :: nat where "OP_CALL \<equiv> 28"
abbreviation (input) OP_TAILCALL :: nat where "OP_TAILCALL \<equiv> 29"
abbreviation (input) OP_RETURN :: nat where "OP_RETURN \<equiv> 30"
abbreviation (input) OP_FORLOOP :: nat where "OP_FORLOOP \<equiv> 31"
abbreviation (input) OP_FORPREP :: nat where "OP_FORPREP \<equiv> 32"
abbreviation (input) OP_TFORLOOP :: nat where "OP_TFORLOOP \<equiv> 33"
abbreviation (input) OP_SETLIST :: nat where "OP_SETLIST \<equiv> 34"
abbreviation (input) OP_CLOSE :: nat where "OP_CLOSE \<equiv> 35"
abbreviation (input) OP_CLOSURE :: nat where "OP_CLOSURE \<equiv> 36"
abbreviation (input) OP_VARARG :: nat where "OP_VARARG \<equiv> 37"
abbreviation (input) NUM_OPCODES :: nat where "NUM_OPCODES \<equiv> 38"

abbreviation (input) iABC :: nat where "iABC \<equiv> 0"
abbreviation (input) iABx :: nat where "iABx \<equiv> 1"
abbreviation (input) iAsBx :: nat where "iAsBx \<equiv> 2"
abbreviation (input) OpArgN :: nat where "OpArgN \<equiv> 0"
abbreviation (input) OpArgU :: nat where "OpArgU \<equiv> 1"
abbreviation (input) OpArgR :: nat where "OpArgR \<equiv> 2"
abbreviation (input) OpArgK :: nat where "OpArgK \<equiv> 3"

definition opmode :: "nat \<Rightarrow> nat \<Rightarrow> nat \<Rightarrow> nat \<Rightarrow> nat \<Rightarrow> nat" where
  "opmode t a b c m = push_bit 7 t OR push_bit 6 a OR push_bit 4 b OR push_bit 2 c OR m"

definition luaP_opmodes :: "nat list" where
  "luaP_opmodes =
   [opmode 0 1 OpArgR OpArgN iABC,    \<comment> \<open>\<open>OP_MOVE\<close>\<close>
    opmode 0 1 OpArgK OpArgN iABx,    \<comment> \<open>\<open>OP_LOADK\<close>\<close>
    opmode 0 1 OpArgU OpArgU iABC,    \<comment> \<open>\<open>OP_LOADBOOL\<close>\<close>
    opmode 0 1 OpArgR OpArgN iABC,    \<comment> \<open>\<open>OP_LOADNIL\<close>\<close>
    opmode 0 1 OpArgU OpArgN iABC,    \<comment> \<open>\<open>OP_GETUPVAL\<close>\<close>
    opmode 0 1 OpArgK OpArgN iABx,    \<comment> \<open>\<open>OP_GETGLOBAL\<close>\<close>
    opmode 0 1 OpArgR OpArgK iABC,    \<comment> \<open>\<open>OP_GETTABLE\<close>\<close>
    opmode 0 0 OpArgK OpArgN iABx,    \<comment> \<open>\<open>OP_SETGLOBAL\<close>\<close>
    opmode 0 0 OpArgU OpArgN iABC,    \<comment> \<open>\<open>OP_SETUPVAL\<close>\<close>
    opmode 0 0 OpArgK OpArgK iABC,    \<comment> \<open>\<open>OP_SETTABLE\<close>\<close>
    opmode 0 1 OpArgU OpArgU iABC,    \<comment> \<open>\<open>OP_NEWTABLE\<close>\<close>
    opmode 0 1 OpArgR OpArgK iABC,    \<comment> \<open>\<open>OP_SELF\<close>\<close>
    opmode 0 1 OpArgK OpArgK iABC,    \<comment> \<open>\<open>OP_ADD\<close>\<close>
    opmode 0 1 OpArgK OpArgK iABC,    \<comment> \<open>\<open>OP_SUB\<close>\<close>
    opmode 0 1 OpArgK OpArgK iABC,    \<comment> \<open>\<open>OP_MUL\<close>\<close>
    opmode 0 1 OpArgK OpArgK iABC,    \<comment> \<open>\<open>OP_DIV\<close>\<close>
    opmode 0 1 OpArgK OpArgK iABC,    \<comment> \<open>\<open>OP_MOD\<close>\<close>
    opmode 0 1 OpArgK OpArgK iABC,    \<comment> \<open>\<open>OP_POW\<close>\<close>
    opmode 0 1 OpArgR OpArgN iABC,    \<comment> \<open>\<open>OP_UNM\<close>\<close>
    opmode 0 1 OpArgR OpArgN iABC,    \<comment> \<open>\<open>OP_NOT\<close>\<close>
    opmode 0 1 OpArgR OpArgN iABC,    \<comment> \<open>\<open>OP_LEN\<close>\<close>
    opmode 0 1 OpArgR OpArgR iABC,    \<comment> \<open>\<open>OP_CONCAT\<close>\<close>
    opmode 0 0 OpArgR OpArgN iAsBx,   \<comment> \<open>\<open>OP_JMP\<close>\<close>
    opmode 1 0 OpArgK OpArgK iABC,    \<comment> \<open>\<open>OP_EQ\<close>\<close>
    opmode 1 0 OpArgK OpArgK iABC,    \<comment> \<open>\<open>OP_LT\<close>\<close>
    opmode 1 0 OpArgK OpArgK iABC,    \<comment> \<open>\<open>OP_LE\<close>\<close>
    opmode 1 1 OpArgR OpArgU iABC,    \<comment> \<open>\<open>OP_TEST\<close>\<close>
    opmode 1 1 OpArgR OpArgU iABC,    \<comment> \<open>\<open>OP_TESTSET\<close>\<close>
    opmode 0 1 OpArgU OpArgU iABC,    \<comment> \<open>\<open>OP_CALL\<close>\<close>
    opmode 0 1 OpArgU OpArgU iABC,    \<comment> \<open>\<open>OP_TAILCALL\<close>\<close>
    opmode 0 0 OpArgU OpArgN iABC,    \<comment> \<open>\<open>OP_RETURN\<close>\<close>
    opmode 0 1 OpArgR OpArgN iAsBx,   \<comment> \<open>\<open>OP_FORLOOP\<close>\<close>
    opmode 0 1 OpArgR OpArgN iAsBx,   \<comment> \<open>\<open>OP_FORPREP\<close>\<close>
    opmode 1 0 OpArgN OpArgU iABC,    \<comment> \<open>\<open>OP_TFORLOOP\<close>\<close>
    opmode 0 0 OpArgU OpArgU iABC,    \<comment> \<open>\<open>OP_SETLIST\<close>\<close>
    opmode 0 0 OpArgN OpArgN iABC,    \<comment> \<open>\<open>OP_CLOSE\<close>\<close>
    opmode 0 1 OpArgU OpArgN iABx,    \<comment> \<open>\<open>OP_CLOSURE\<close>\<close>
    opmode 0 1 OpArgU OpArgN iABC]    \<comment> \<open>\<open>OP_VARARG\<close>\<close>"

definition getOpMode :: "nat \<Rightarrow> nat" where "getOpMode m = luaP_opmodes ! m AND 3"
definition getBMode :: "nat \<Rightarrow> nat" where "getBMode m = drop_bit 4 (luaP_opmodes ! m) AND 3"
definition getCMode :: "nat \<Rightarrow> nat" where "getCMode m = drop_bit 2 (luaP_opmodes ! m) AND 3"
definition testAMode :: "nat \<Rightarrow> bool" where "testAMode m \<longleftrightarrow> luaP_opmodes ! m AND push_bit 6 1 \<noteq> 0"
definition testTMode :: "nat \<Rightarrow> bool" where "testTMode m \<longleftrightarrow> luaP_opmodes ! m AND push_bit 7 1 \<noteq> 0"

section \<open>Facts\<close>

text \<open>The table, read.\<close>

lemma getOpMode_simps [simp]:
  "getOpMode 0 = 0" "getOpMode (Suc 0) = 1" "getOpMode 2 = 0" "getOpMode 3 = 0" "getOpMode 4 = 0"
  "getOpMode 5 = 1" "getOpMode 6 = 0" "getOpMode 7 = 1" "getOpMode 8 = 0" "getOpMode 9 = 0"
  "getOpMode 10 = 0" "getOpMode 11 = 0" "getOpMode 12 = 0" "getOpMode 13 = 0" "getOpMode 14 = 0"
  "getOpMode 15 = 0" "getOpMode 16 = 0" "getOpMode 17 = 0" "getOpMode 18 = 0" "getOpMode 19 = 0"
  "getOpMode 20 = 0" "getOpMode 21 = 0" "getOpMode 22 = 2" "getOpMode 23 = 0" "getOpMode 24 = 0"
  "getOpMode 25 = 0" "getOpMode 26 = 0" "getOpMode 27 = 0" "getOpMode 28 = 0" "getOpMode 29 = 0"
  "getOpMode 30 = 0" "getOpMode 31 = 2" "getOpMode 32 = 2" "getOpMode 33 = 0" "getOpMode 34 = 0"
  "getOpMode 35 = 0" "getOpMode 36 = 1" "getOpMode 37 = 0"
  by (simp_all add: getOpMode_def luaP_opmodes_def opmode_def)

lemma getBMode_simps [simp]:
  "getBMode 0 = 2" "getBMode (Suc 0) = 3" "getBMode 2 = 1" "getBMode 3 = 2" "getBMode 4 = 1"
  "getBMode 5 = 3" "getBMode 6 = 2" "getBMode 7 = 3" "getBMode 8 = 1" "getBMode 9 = 3" "getBMode 10
  = 1" "getBMode 11 = 2" "getBMode 12 = 3" "getBMode 13 = 3" "getBMode 14 = 3" "getBMode 15 = 3"
  "getBMode 16 = 3" "getBMode 17 = 3" "getBMode 18 = 2" "getBMode 19 = 2" "getBMode 20 = 2"
  "getBMode 21 = 2" "getBMode 22 = 2" "getBMode 23 = 3" "getBMode 24 = 3" "getBMode 25 = 3"
  "getBMode 26 = 2" "getBMode 27 = 2" "getBMode 28 = 1" "getBMode 29 = 1" "getBMode 30 = 1"
  "getBMode 31 = 2" "getBMode 32 = 2" "getBMode 33 = 0" "getBMode 34 = 1" "getBMode 35 = 0"
  "getBMode 36 = 1" "getBMode 37 = 1"
  by (simp_all add: getBMode_def luaP_opmodes_def opmode_def)

lemma getCMode_simps [simp]:
  "getCMode 0 = 0" "getCMode (Suc 0) = 0" "getCMode 2 = 1" "getCMode 3 = 0" "getCMode 4 = 0"
  "getCMode 5 = 0" "getCMode 6 = 3" "getCMode 7 = 0" "getCMode 8 = 0" "getCMode 9 = 3" "getCMode 10
  = 1" "getCMode 11 = 3" "getCMode 12 = 3" "getCMode 13 = 3" "getCMode 14 = 3" "getCMode 15 = 3"
  "getCMode 16 = 3" "getCMode 17 = 3" "getCMode 18 = 0" "getCMode 19 = 0" "getCMode 20 = 0"
  "getCMode 21 = 2" "getCMode 22 = 0" "getCMode 23 = 3" "getCMode 24 = 3" "getCMode 25 = 3"
  "getCMode 26 = 1" "getCMode 27 = 1" "getCMode 28 = 1" "getCMode 29 = 1" "getCMode 30 = 0"
  "getCMode 31 = 0" "getCMode 32 = 0" "getCMode 33 = 1" "getCMode 34 = 1" "getCMode 35 = 0"
  "getCMode 36 = 0" "getCMode 37 = 0"
  by (simp_all add: getCMode_def luaP_opmodes_def opmode_def)

lemma testAMode_simps [simp]:
  "testAMode 0" "testAMode (Suc 0)" "testAMode 2" "testAMode 3" "testAMode 4" "testAMode 5"
  "testAMode 6" "\<not> testAMode 7" "\<not> testAMode 8" "\<not> testAMode 9" "testAMode 10"
  "testAMode 11" "testAMode 12" "testAMode 13" "testAMode 14" "testAMode 15" "testAMode 16"
  "testAMode 17" "testAMode 18" "testAMode 19" "testAMode 20" "testAMode 21" "\<not> testAMode 22"
  "\<not> testAMode 23" "\<not> testAMode 24" "\<not> testAMode 25" "testAMode 26" "testAMode 27"
  "testAMode 28" "testAMode 29" "\<not> testAMode 30" "testAMode 31" "testAMode 32" "\<not>
  testAMode 33" "\<not> testAMode 34" "\<not> testAMode 35" "testAMode 36" "testAMode 37"
  by (simp_all add: testAMode_def luaP_opmodes_def opmode_def)

lemma testTMode_simps [simp]:
  "\<not> testTMode 0" "\<not> testTMode (Suc 0)" "\<not> testTMode 2" "\<not> testTMode 3" "\<not>
  testTMode 4" "\<not> testTMode 5" "\<not> testTMode 6" "\<not> testTMode 7" "\<not> testTMode 8"
  "\<not> testTMode 9" "\<not> testTMode 10" "\<not> testTMode 11" "\<not> testTMode 12" "\<not>
  testTMode 13" "\<not> testTMode 14" "\<not> testTMode 15" "\<not> testTMode 16" "\<not> testTMode
  17" "\<not> testTMode 18" "\<not> testTMode 19" "\<not> testTMode 20" "\<not> testTMode 21"
  "\<not> testTMode 22" "testTMode 23" "testTMode 24" "testTMode 25" "testTMode 26" "testTMode 27"
  "\<not> testTMode 28" "\<not> testTMode 29" "\<not> testTMode 30" "\<not> testTMode 31" "\<not>
  testTMode 32" "testTMode 33" "\<not> testTMode 34" "\<not> testTMode 35" "\<not> testTMode 36"
  "\<not> testTMode 37"
  by (simp_all add: testTMode_def luaP_opmodes_def opmode_def)

lemma MASK1_mask: "MASK1 n p = push_bit p (mask n)"
  by (simp add: MASK1_def not_eq_complement mask_eq_exp_minus_1 push_bit_eq_mult)

lemma getarg_mod: "getarg n p i = unat i div 2 ^ p mod 2 ^ n"
proof -
  have "getarg n p i = unat (take_bit n (drop_bit p i))"
    by (simp add: getarg_def MASK1_mask take_bit_eq_mask)
  also have "\<dots> = take_bit n (drop_bit p (unat i))"
    by (simp only: unsigned_take_bit_eq unat_drop_bit_eq)
  finally show ?thesis by (simp add: take_bit_eq_mod drop_bit_eq_div)
qed

lemma getarg_less: "getarg n p i < 2 ^ n"
  by (simp add: getarg_mod)

text \<open>What is written into a field is read back, and the other fields stay.\<close>

lemma bit_of_small: "u < 2 ^ n \<Longrightarrow> bit (of_nat u :: 32 word) k \<Longrightarrow> k < n"
  by (metis bit_of_nat_iff bit_take_bit_iff take_bit_nat_eq_self)

lemma getarg_take: "getarg n p i = unat (take_bit n (drop_bit p i))"
  by (simp add: getarg_def MASK1_mask take_bit_eq_mask)

lemma unat_small:
  assumes "u < 2 ^ n" and "n \<le> 32"
  shows "unat (of_nat u :: 32 word) = u"
proof -
  have "u < 2 ^ 32" using assms by (meson less_le_trans one_le_numeral power_increasing)
  then show ?thesis by (simp add: unat_of_nat)
qed

lemma get_set_same:
  assumes "u < 2 ^ n" and "p + n \<le> 32"
  shows "getarg n p (setarg n p u i) = u"
proof -
  have small: "k < n \<and> p + k < 32" if "bit (of_nat u :: 32 word) k" for k
    using bit_of_small [OF assms(1) that] assms(2) by simp
  have "take_bit n (drop_bit p (setarg n p u i)) = of_nat u"
    by (intro bit_word_eqI)
      (auto simp: bit_take_bit_iff bit_drop_bit_eq setarg_def MASK0_def MASK1_mask bit_or_iff bit_and_iff
        bit_not_iff bit_push_bit_iff bit_mask_iff dest: small)
  then show ?thesis using unat_small [OF assms(1)] assms(2) by (simp add: getarg_take)
qed

lemma get_set_other:
  assumes "q + m \<le> p \<or> p + n \<le> q" and "p + n \<le> 32" and "q + m \<le> 32"
  shows "getarg m q (setarg n p u i) = getarg m q i"
proof -
  have "take_bit m (drop_bit q (setarg n p u i)) = take_bit m (drop_bit q i)"
    using assms
    by (intro bit_word_eqI)
      (auto simp: bit_take_bit_iff bit_drop_bit_eq setarg_def MASK0_def MASK1_mask bit_or_iff bit_and_iff
        bit_not_iff bit_push_bit_iff bit_mask_iff)
  then show ?thesis by (simp add: getarg_take)
qed

lemma create_ABC_fields:
  assumes "x < 2 ^ SIZE_OP" and "a < 2 ^ SIZE_A" and "b < 2 ^ SIZE_B" and "c < 2 ^ SIZE_C"
  shows "GET_OPCODE (CREATE_ABC x a b c) = x" and "GETARG_A (CREATE_ABC x a b c) = a"
    and "GETARG_B (CREATE_ABC x a b c) = b" and "GETARG_C (CREATE_ABC x a b c) = c"
proof -
  note small = bit_of_small [OF assms(1)] bit_of_small [OF assms(2)] bit_of_small [OF assms(3)] bit_of_small [OF assms(4)]
  have high: "6 \<le> k \<Longrightarrow> \<not> bit (of_nat x :: 32 word) k" "8 \<le> k \<Longrightarrow> \<not> bit (of_nat a :: 32 word) k"
    "9 \<le> k \<Longrightarrow> \<not> bit (of_nat b :: 32 word) k" "9 \<le> k \<Longrightarrow> \<not> bit (of_nat c :: 32 word) k" for k
    using small [of k] by auto
  note s = bit_take_bit_iff bit_drop_bit_eq CREATE_ABC_def bit_or_iff bit_push_bit_iff
  have "take_bit SIZE_OP (drop_bit POS_OP (CREATE_ABC x a b c)) = of_nat x"
    and "take_bit SIZE_A (drop_bit POS_A (CREATE_ABC x a b c)) = of_nat a"
    and "take_bit SIZE_B (drop_bit POS_B (CREATE_ABC x a b c)) = of_nat b"
    and "take_bit SIZE_C (drop_bit POS_C (CREATE_ABC x a b c)) = of_nat c"
    by (rule bit_word_eqI, use high in \<open>auto simp: s not_le dest: small\<close>)+
  then show "GET_OPCODE (CREATE_ABC x a b c) = x" "GETARG_A (CREATE_ABC x a b c) = a"
    "GETARG_B (CREATE_ABC x a b c) = b" "GETARG_C (CREATE_ABC x a b c) = c"
    using unat_small [OF assms(1)] unat_small [OF assms(2)] unat_small [OF assms(3)] unat_small [OF assms(4)]
    by (simp_all add: GET_OPCODE_def GETARG_A_def GETARG_B_def GETARG_C_def getarg_take)
qed

lemma create_ABx_fields:
  assumes "x < 2 ^ SIZE_OP" and "a < 2 ^ SIZE_A" and "bx < 2 ^ SIZE_Bx"
  shows "GET_OPCODE (CREATE_ABx x a bx) = x" and "GETARG_A (CREATE_ABx x a bx) = a"
    and "GETARG_Bx (CREATE_ABx x a bx) = bx"
proof -
  note small = bit_of_small [OF assms(1)] bit_of_small [OF assms(2)] bit_of_small [OF assms(3)]
  have high: "6 \<le> k \<Longrightarrow> \<not> bit (of_nat x :: 32 word) k" "8 \<le> k \<Longrightarrow> \<not> bit (of_nat a :: 32 word) k"
    "18 \<le> k \<Longrightarrow> \<not> bit (of_nat bx :: 32 word) k" for k
    using small [of k] by auto
  note s = bit_take_bit_iff bit_drop_bit_eq CREATE_ABx_def bit_or_iff bit_push_bit_iff
  have "take_bit SIZE_OP (drop_bit POS_OP (CREATE_ABx x a bx)) = of_nat x"
    and "take_bit SIZE_A (drop_bit POS_A (CREATE_ABx x a bx)) = of_nat a"
    and "take_bit SIZE_Bx (drop_bit POS_Bx (CREATE_ABx x a bx)) = of_nat bx"
    by (rule bit_word_eqI, use high in \<open>auto simp: s not_le dest: small\<close>)+
  then show "GET_OPCODE (CREATE_ABx x a bx) = x" "GETARG_A (CREATE_ABx x a bx) = a"
    "GETARG_Bx (CREATE_ABx x a bx) = bx"
    using unat_small [OF assms(1)] unat_small [OF assms(2)] unat_small [OF assms(3)]
    by (simp_all add: GET_OPCODE_def GETARG_A_def GETARG_Bx_def getarg_take)
qed

lemma create_ABC_nonzero:
  assumes "x < 2 ^ SIZE_OP" and "a < 2 ^ SIZE_A" and "b < 2 ^ SIZE_B" and "c < 2 ^ SIZE_C" and "x \<noteq> 0"
  shows "CREATE_ABC x a b c \<noteq> 0"
  using create_ABC_fields(1) [OF assms(1-4)] assms(5) by (auto simp: GET_OPCODE_def getarg_mod)

text \<open>For evaluation: a field of an instruction is computed, not its bits.\<close>

lemmas fields = GET_OPCODE_def GETARG_A_def GETARG_B_def GETARG_C_def GETARG_Bx_def GETARG_sBx_def
  MAXARG_sBx_def getarg_mod ISK_def INDEXK_def BITRK_def

end
