(* ===== verification/Lua_Checkcode.thy ===== *)
theory Lua_Checkcode
  imports Lua_Opcode
begin

text \<open>
  Function prototypes and the code checker of \<open>ldebug.c\<close>, \<open>symbexec\<close>, which decides whether a
  precompiled chunk is run at all. A read of one of the prototype's arrays outside its bounds is
  undefined behaviour, the outer \<open>None\<close>; a failed \<open>check\<close> is the inner one.
\<close>

section \<open>Prototypes\<close>

text \<open>A constant; a string constant is a pointer, which may be NULL. A number is its bytes.\<close>

datatype lconst = KNil | KBool bool | KNumber "64 word" | KString "string option"

record locvar =
  varname :: "string option"
  startpc :: "32 word"
  endpc :: "32 word"

datatype proto = Proto
  (p_k: "lconst list")
  (p_code: "instruction list")
  (p_p: "proto list")
  (p_lineinfo: "32 word list")
  (p_locvars: "locvar list")
  (p_upvalues: "string option list")
  (p_source: "string option")
  (p_linedefined: "32 word")
  (p_lastlinedefined: "32 word")
  (p_nups: "8 word")
  (p_numparams: "8 word")
  (p_is_vararg: "8 word")
  (p_maxstacksize: "8 word")

abbreviation sizecode :: "proto \<Rightarrow> nat" where "sizecode pt \<equiv> length (p_code pt)"
abbreviation maxstack :: "proto \<Rightarrow> int" where "maxstack pt \<equiv> int (unat (p_maxstacksize pt))"

definition MAXSTACK :: nat where "MAXSTACK = 250"
definition VARARG_HASARG :: "8 word" where "VARARG_HASARG = 1"
definition VARARG_ISVARARG :: "8 word" where "VARARG_ISVARARG = 2"
definition VARARG_NEEDSARG :: "8 word" where "VARARG_NEEDSARG = 4"

section \<open>Checked reads\<close>

type_synonym 'a checked = "'a option option"

fun bindC :: "'a checked \<Rightarrow> ('a \<Rightarrow> 'b checked) \<Rightarrow> 'b checked" where
  "bindC None f = None"
| "bindC (Some None) f = Some None"
| "bindC (Some (Some a)) f = f a"

abbreviation retC :: "'a \<Rightarrow> 'a checked" where "retC a \<equiv> Some (Some a)"

lemma bindC_cong [fundef_cong]:
  "m = m' \<Longrightarrow> (\<And>a. m' = Some (Some a) \<Longrightarrow> f a = g a) \<Longrightarrow> bindC m f = bindC m' g"
  by (cases m'; simp) (rename_tac r, case_tac r, auto)

text \<open>For evaluation by \<open>simp\<close>: the continuation waits for its argument.\<close>

lemma bindC_weak_cong: "m = m' \<Longrightarrow> bindC m f = bindC m' f"
  by simp

lemma bindC_Some: "bindC m f = Some (Some b) \<longleftrightarrow> (\<exists>a. m = Some (Some a) \<and> f a = Some (Some b))"
  by (cases m; simp) (rename_tac r, case_tac r, auto)

lemma bindC_None: "bindC m f = None \<longleftrightarrow> m = None \<or> (\<exists>a. m = Some (Some a) \<and> f a = None)"
  by (cases m; simp) (rename_tac r, case_tac r, auto)

definition check :: "bool \<Rightarrow> unit checked" where
  "check x = (if x then retC () else Some None)"

definition nth_at :: "'a list \<Rightarrow> nat \<Rightarrow> 'a checked" where
  "nth_at xs i = (if i < length xs then retC (xs ! i) else None)"

abbreviation code_at :: "proto \<Rightarrow> nat \<Rightarrow> instruction checked" where "code_at pt \<equiv> nth_at (p_code pt)"

definition checkreg :: "proto \<Rightarrow> int \<Rightarrow> unit checked" where
  "checkreg pt reg = check (reg < maxstack pt)"

section \<open>The checker\<close>

definition precheck :: "proto \<Rightarrow> unit checked" where
  "precheck pt =
     bindC (check (unat (p_maxstacksize pt) \<le> MAXSTACK)) (\<lambda>_.
     bindC (check (unat (p_numparams pt) + unat (p_is_vararg pt AND VARARG_HASARG) \<le> unat (p_maxstacksize pt))) (\<lambda>_.
     bindC (check (p_is_vararg pt AND VARARG_NEEDSARG = 0 \<or> p_is_vararg pt AND VARARG_HASARG \<noteq> 0)) (\<lambda>_.
     bindC (check (length (p_upvalues pt) \<le> unat (p_nups pt))) (\<lambda>_.
     bindC (check (length (p_lineinfo pt) = sizecode pt \<or> length (p_lineinfo pt) = 0)) (\<lambda>_.
     bindC (check (0 < sizecode pt)) (\<lambda>_.
     bindC (code_at pt (sizecode pt - 1)) (\<lambda>i. check (GET_OPCODE i = OP_RETURN))))))))"

definition luaG_checkopenop :: "instruction \<Rightarrow> bool" where
  "luaG_checkopenop i \<longleftrightarrow> GET_OPCODE i \<in> {OP_CALL, OP_TAILCALL, OP_RETURN, OP_SETLIST} \<and> GETARG_B i = 0"

definition checkopenop :: "proto \<Rightarrow> nat \<Rightarrow> unit checked" where
  "checkopenop pt pc = bindC (code_at pt (pc + 1)) (\<lambda>i. check (luaG_checkopenop i))"

definition checkArgMode :: "proto \<Rightarrow> nat \<Rightarrow> nat \<Rightarrow> unit checked" where
  "checkArgMode pt r mode =
     (if mode = OpArgN then check (r = 0)
      else if mode = OpArgU then retC ()
      else if mode = OpArgR then checkreg pt (int r)
      else check (if ISK r then INDEXK r < length (p_k pt) else int r < maxstack pt))"

text \<open>An instruction that a raw count follows (if it is an instruction).\<close>

definition setlist0 :: "instruction \<Rightarrow> bool" where
  "setlist0 i \<longleftrightarrow> GET_OPCODE i = OP_SETLIST \<and> GETARG_C i = 0"

text \<open>How many words that look like that come right before \<open>dest\<close>.\<close>

fun setlist_run :: "proto \<Rightarrow> nat \<Rightarrow> nat checked" where
  "setlist_run pt 0 = retC 0"
| "setlist_run pt (Suc d) =
     bindC (code_at pt d) (\<lambda>i. if setlist0 i then bindC (setlist_run pt d) (\<lambda>j. retC (j + 1)) else retC 0)"

definition check_dest :: "proto \<Rightarrow> int \<Rightarrow> unit checked" where
  "check_dest pt dest =
     bindC (check (0 \<le> dest \<and> dest < int (sizecode pt))) (\<lambda>_.
       if 0 < dest then bindC (setlist_run pt (nat dest)) (\<lambda>j. check (j mod 2 = 0)) else retC ())"

text \<open>The arguments \<open>b\<close> and \<open>c\<close>, checked by their modes.\<close>

definition operands :: "proto \<Rightarrow> nat \<Rightarrow> nat \<Rightarrow> instruction \<Rightarrow> (int \<times> int) checked" where
  "operands pt pc x i =
     (if getOpMode x = iABC then
        bindC (checkArgMode pt (GETARG_B i) (getBMode x)) (\<lambda>_.
        bindC (checkArgMode pt (GETARG_C i) (getCMode x)) (\<lambda>_. retC (int (GETARG_B i), int (GETARG_C i))))
      else if getOpMode x = iABx then
        bindC (if getBMode x = OpArgK then check (GETARG_Bx i < length (p_k pt)) else retC ()) (\<lambda>_.
          retC (int (GETARG_Bx i), 0))
      else
        bindC (if getBMode x = OpArgR then check_dest pt (int pc + 1 + GETARG_sBx i) else retC ()) (\<lambda>_.
          retC (GETARG_sBx i, 0)))"

definition is_kstring :: "lconst \<Rightarrow> bool" where
  "is_kstring k = (case k of KString _ \<Rightarrow> True | _ \<Rightarrow> False)"

text \<open>The pseudo-instructions after a closure: each is \<open>OP_GETUPVAL\<close> or \<open>OP_MOVE\<close>.\<close>

fun check_captures :: "proto \<Rightarrow> nat \<Rightarrow> nat \<Rightarrow> unit checked" where
  "check_captures pt pc 0 = retC ()"
| "check_captures pt pc (Suc n) =
     bindC (code_at pt (pc + 1)) (\<lambda>i.
     bindC (check (GET_OPCODE i = OP_GETUPVAL \<or> GET_OPCODE i = OP_MOVE)) (\<lambda>_. check_captures pt (pc + 1) n))"

text \<open>The second \<open>switch\<close>: \<open>pc\<close> and \<open>last\<close> after the instruction (before the loop's \<open>pc++\<close>).\<close>

definition symb_jump :: "proto \<Rightarrow> nat \<Rightarrow> nat \<Rightarrow> nat \<Rightarrow> int \<Rightarrow> nat" where
  "symb_jump pt lastpc reg pc b =
     (let dest = int pc + 1 + b in
      if reg \<noteq> NO_REG \<and> int pc < dest \<and> dest \<le> int lastpc then nat (int pc + b) else pc)"

definition symb_op ::
    "proto \<Rightarrow> nat \<Rightarrow> nat \<Rightarrow> nat \<Rightarrow> nat \<Rightarrow> nat \<Rightarrow> int \<Rightarrow> int \<Rightarrow> int \<Rightarrow> (nat \<times> nat) checked" where
  "symb_op pt lastpc reg pc lst x a b c =
     (if x = OP_LOADBOOL then
        (if c = 1 then
           bindC (check (pc + 2 < sizecode pt)) (\<lambda>_.
           bindC (code_at pt (pc + 1)) (\<lambda>i.
           bindC (check (GET_OPCODE i \<noteq> OP_SETLIST \<or> GETARG_C i \<noteq> 0)) (\<lambda>_. retC (pc, lst))))
         else retC (pc, lst))
      else if x = OP_LOADNIL then retC (pc, if a \<le> int reg \<and> int reg \<le> b then pc else lst)
      else if x = OP_GETUPVAL \<or> x = OP_SETUPVAL then
        bindC (check (b < int (unat (p_nups pt)))) (\<lambda>_. retC (pc, lst))
      else if x = OP_GETGLOBAL \<or> x = OP_SETGLOBAL then
        bindC (nth_at (p_k pt) (nat b)) (\<lambda>k. bindC (check (is_kstring k)) (\<lambda>_. retC (pc, lst)))
      else if x = OP_SELF then
        bindC (checkreg pt (a + 1)) (\<lambda>_. retC (pc, if int reg = a + 1 then pc else lst))
      else if x = OP_CONCAT then bindC (check (b < c)) (\<lambda>_. retC (pc, lst))
      else if x = OP_TFORLOOP then
        bindC (check (1 \<le> c)) (\<lambda>_. bindC (checkreg pt (a + 2 + c)) (\<lambda>_.
          retC (pc, if a + 2 \<le> int reg then pc else lst)))
      else if x = OP_FORLOOP \<or> x = OP_FORPREP then
        bindC (checkreg pt (a + 3)) (\<lambda>_. retC (symb_jump pt lastpc reg pc b, lst))
      else if x = OP_JMP then retC (symb_jump pt lastpc reg pc b, lst)
      else if x = OP_CALL \<or> x = OP_TAILCALL then
        bindC (if b \<noteq> 0 then checkreg pt (a + b - 1) else retC ()) (\<lambda>_.
        let c = c - 1 in
        bindC (if c = - 1 then checkopenop pt pc else if c \<noteq> 0 then checkreg pt (a + c - 1) else retC ()) (\<lambda>_.
          retC (pc, if a \<le> int reg then pc else lst)))
      else if x = OP_RETURN then
        (let b = b - 1 in bindC (if 0 < b then checkreg pt (a + b - 1) else retC ()) (\<lambda>_. retC (pc, lst)))
      else if x = OP_SETLIST then
        bindC (if 0 < b then checkreg pt (a + b) else retC ()) (\<lambda>_.
          if c = 0 then bindC (check (pc + 1 < sizecode pt - 1)) (\<lambda>_. retC (pc + 1, lst)) else retC (pc, lst))
      else if x = OP_CLOSURE then
        bindC (check (b < int (length (p_p pt)))) (\<lambda>_.
        bindC (nth_at (p_p pt) (nat b)) (\<lambda>p.
        let nup = unat (p_nups p) in
        bindC (check (pc + nup < sizecode pt)) (\<lambda>_.
        bindC (check_captures pt pc nup) (\<lambda>_.
          retC (if reg \<noteq> NO_REG then pc + nup else pc, lst)))))
      else if x = OP_VARARG then
        bindC (check (p_is_vararg pt AND VARARG_ISVARARG \<noteq> 0 \<and> p_is_vararg pt AND VARARG_NEEDSARG = 0)) (\<lambda>_.
        let b = b - 1 in
        bindC (if b = - 1 then checkopenop pt pc else retC ()) (\<lambda>_.
        bindC (checkreg pt (a + b - 1)) (\<lambda>_. retC (pc, lst))))
      else retC (pc, lst))"

text \<open>The body of the loop.\<close>

definition symb_step :: "proto \<Rightarrow> nat \<Rightarrow> nat \<Rightarrow> nat \<Rightarrow> nat \<Rightarrow> (nat \<times> nat) checked" where
  "symb_step pt lastpc reg pc lst =
     bindC (code_at pt pc) (\<lambda>i.
     let x = GET_OPCODE i; a = GETARG_A i in
     bindC (check (x < NUM_OPCODES)) (\<lambda>_.
     bindC (checkreg pt (int a)) (\<lambda>_.
     bindC (operands pt pc x i) (\<lambda>(b, c).
     let lst = (if testAMode x \<and> a = reg then pc else lst) in
     bindC (if testTMode x then
              bindC (check (pc + 2 < sizecode pt)) (\<lambda>_.
              bindC (code_at pt (pc + 1)) (\<lambda>j. check (GET_OPCODE j = OP_JMP)))
            else retC ()) (\<lambda>_.
     symb_op pt lastpc reg pc lst x (int a) b c)))))"

lemma symb_op_ge: "symb_op pt lastpc reg pc lst x a b c = retC (pc', lst') \<Longrightarrow> pc \<le> pc'"
  by (auto simp: symb_op_def bindC_Some Let_def symb_jump_def split: if_splits)

lemma symb_step_ge: "symb_step pt lastpc reg pc lst = retC (pc', lst') \<Longrightarrow> pc \<le> pc'"
  by (auto simp: symb_step_def bindC_Some Let_def dest: symb_op_ge)

function symb_loop :: "proto \<Rightarrow> nat \<Rightarrow> nat \<Rightarrow> nat \<Rightarrow> nat \<Rightarrow> nat checked" where
  "symb_loop pt lastpc reg pc lst =
     (if pc < lastpc then
        bindC (symb_step pt lastpc reg pc lst) (\<lambda>(pc, lst). symb_loop pt lastpc reg (pc + 1) lst)
      else retC lst)"
  by pat_completeness auto
termination
  by (relation "measure (\<lambda>(pt, lastpc, reg, pc, lst). lastpc - pc)") (auto dest!: symb_step_ge)

declare symb_loop.simps [simp del]

definition symbexec :: "proto \<Rightarrow> nat \<Rightarrow> nat \<Rightarrow> instruction checked" where
  "symbexec pt lastpc reg =
     bindC (precheck pt) (\<lambda>_.
     bindC (symb_loop pt lastpc reg 0 (sizecode pt - 1)) (code_at pt))"

definition luaG_checkcode :: "proto \<Rightarrow> bool option" where
  "luaG_checkcode pt =
     (case symbexec pt (sizecode pt) NO_REG of
        None \<Rightarrow> None
      | Some None \<Rightarrow> Some False
      | Some (Some i) \<Rightarrow> Some (i \<noteq> 0))"

lemma setlist_run_eq:
  "setlist_run pt d = (if d = 0 then retC 0 else bindC (code_at pt (d - 1)) (\<lambda>i.
     if setlist0 i then bindC (setlist_run pt (d - 1)) (\<lambda>j. retC (j + 1)) else retC 0))"
  by (cases d) (simp_all cong: if_cong)

lemmas checker_defs = luaG_checkcode_def symbexec_def precheck_def symb_loop.simps symb_step_def operands_def
  checkArgMode_def check_dest_def setlist0_def check_def checkreg_def nth_at_def symb_op_def symb_jump_def
  checkopenop_def luaG_checkopenop_def is_kstring_def MAXSTACK_def VARARG_HASARG_def VARARG_ISVARARG_def
  VARARG_NEEDSARG_def Let_def setlist_run_eq create_ABC_fields create_ABx_fields create_ABC_nonzero GETARG_sBx_def MAXARG_sBx_def

end
