(* ===== verification/Lua_Codesafe.thy ===== *)
theory Lua_Codesafe
  imports Lua_Checkcode
begin

text \<open>
  What the code checker promises. It never reads outside the arrays of a prototype, whatever the
  prototype; and accepted code, when the virtual machine runs it, stays inside the code array and
  uses only the registers, constants, upvalues and prototypes there are - unless the skip operand
  of a \<open>LOADBOOL\<close> is greater than one or a tail call asks for a fixed number of results, which the
  checker overlooks.
\<close>

section \<open>The checker reads only inside the arrays\<close>

definition in_bounds :: "'a checked \<Rightarrow> bool" where
  "in_bounds m \<longleftrightarrow> m \<noteq> None"

lemma in_bounds_simps [simp]:
  "in_bounds (Some y)" "in_bounds (check x)" "in_bounds (checkreg pt r)"
  "in_bounds (nth_at xs i) \<longleftrightarrow> i < length xs"
  "in_bounds (bindC m f) \<longleftrightarrow> in_bounds m \<and> (\<forall>a. m = retC a \<longrightarrow> in_bounds (f a))"
  by (auto simp: in_bounds_def check_def checkreg_def nth_at_def bindC_None simp del: not_None_eq)

lemma in_bounds_if [simp]: "in_bounds (if x then m else m') \<longleftrightarrow> (if x then in_bounds m else in_bounds m')"
  by simp

definition returns_last :: "proto \<Rightarrow> bool" where
  "returns_last pt \<longleftrightarrow> 0 < sizecode pt \<and> GET_OPCODE (p_code pt ! (sizecode pt - 1)) = OP_RETURN"

lemma check_eq [simp]: "check x = retC () \<longleftrightarrow> x"
  by (simp_all add: check_def)

lemma nth_at_Some [simp]: "nth_at xs i = Some (Some x) \<longleftrightarrow> i < length xs \<and> x = xs ! i"
  by (auto simp: nth_at_def)

lemma checkreg_eq [simp]: "checkreg pt r = retC () \<longleftrightarrow> r < maxstack pt"
  by (simp add: checkreg_def)

lemma precheck_returns: "precheck pt = retC () \<Longrightarrow> returns_last pt"
  by (auto simp: precheck_def bindC_Some returns_last_def)

lemma precheck_reads: "in_bounds (precheck pt)"
  by (simp add: precheck_def)

lemma not_at_end:
  assumes "returns_last pt" and "pc < sizecode pt" and "GET_OPCODE (p_code pt ! pc) \<noteq> OP_RETURN"
  shows "pc + 1 < sizecode pt"
proof -
  have "pc \<noteq> sizecode pt - 1" using assms(1,3) by (auto simp: returns_last_def)
  then show ?thesis using assms(2) by linarith
qed

lemma setlist_run_reads: "d \<le> sizecode pt \<Longrightarrow> in_bounds (setlist_run pt d)"
  by (induction d) auto

lemma check_dest_reads: "in_bounds (check_dest pt d)"
  by (simp add: check_dest_def setlist_run_reads)

lemma checkArgMode_reads: "in_bounds (checkArgMode pt r mode)"
  by (simp add: checkArgMode_def)

lemma operands_reads: "in_bounds (operands pt pc x i)"
  by (simp add: operands_def checkArgMode_reads check_dest_reads)

lemma check_captures_reads: "pc + n < sizecode pt \<Longrightarrow> in_bounds (check_captures pt pc n)"
  by (induction n arbitrary: pc) auto

lemma checkopenop_reads: "pc + 1 < sizecode pt \<Longrightarrow> in_bounds (checkopenop pt pc)"
  by (simp add: checkopenop_def)

text \<open>What the first \<open>switch\<close> leaves for the second.\<close>

lemma operands_Bx:
  assumes "operands pt pc x i = retC (b, c)" and "getOpMode x = iABx"
  shows "b = int (GETARG_Bx i)" and "getBMode x = OpArgK \<Longrightarrow> GETARG_Bx i < length (p_k pt)"
  using assms by (auto simp: operands_def bindC_Some)

lemma symb_op_reads:
  assumes "returns_last pt" and "pc < sizecode pt" and "x = GET_OPCODE (p_code pt ! pc)"
    and "operands pt pc x (p_code pt ! pc) = retC (b, c)"
  shows "in_bounds (symb_op pt lastpc reg pc lst x a b c)"
proof -
  have nxt: "in_bounds (checkopenop pt pc)" if "x \<noteq> OP_RETURN"
    using not_at_end [of pt pc] assms that by (intro checkopenop_reads) auto
  have k: "nat b < length (p_k pt)" if "x = OP_GETGLOBAL \<or> x = OP_SETGLOBAL"
    using operands_Bx [OF assms(4)] that by auto
  have p: "nat b < length (p_p pt)" if "b < int (length (p_p pt))" "x = OP_CLOSURE"
    using operands_Bx [OF assms(4)] that by auto
  show ?thesis
    using nxt k p unfolding symb_op_def
    by (auto simp: Let_def check_captures_reads)
qed

lemma symb_step_reads:
  assumes "returns_last pt" and "pc < sizecode pt"
  shows "in_bounds (symb_step pt lastpc reg pc lst)"
  using symb_op_reads [OF assms refl] assms(2)
  by (auto simp: symb_step_def Let_def operands_reads)

lemma symb_op_last: "symb_op pt lastpc reg pc lst x a b c = retC (pc', lst') \<Longrightarrow> lst' = lst \<or> lst' = pc"
  by (auto simp: symb_op_def bindC_Some Let_def split: if_splits)

lemma symb_step_last:
  assumes "symb_step pt lastpc reg pc lst = retC (pc', lst')"
  shows "lst' = lst \<or> lst' = pc" and "pc < sizecode pt"
  using assms by (auto simp: symb_step_def bindC_Some Let_def dest!: symb_op_last split: if_splits)

lemma symb_loop_reads:
  assumes "returns_last pt" and "lastpc \<le> sizecode pt" and "lst < sizecode pt"
  shows "in_bounds (symb_loop pt lastpc reg pc lst)
    \<and> (\<forall>l. symb_loop pt lastpc reg pc lst = retC l \<longrightarrow> l < sizecode pt)"
  using assms
proof (induction pt lastpc reg pc lst rule: symb_loop.induct)
  case (1 pt lastpc reg pc lst)
  note eq = symb_loop.simps [of pt lastpc reg pc lst]
  show ?case
  proof (cases "pc < lastpc")
    case True
    have nn: "in_bounds (symb_step pt lastpc reg pc lst)" using True 1 by (intro symb_step_reads) auto
    have ih: "in_bounds (symb_loop pt lastpc reg (pc' + 1) lst')
        \<and> (\<forall>l. symb_loop pt lastpc reg (pc' + 1) lst' = retC l \<longrightarrow> l < sizecode pt)"
      if "symb_step pt lastpc reg pc lst = retC (pc', lst')" for pc' lst'
      using 1(1) [OF True that refl] symb_step_last [OF that] 1(2-4) by auto
    show ?thesis unfolding eq using True nn ih by (fastforce simp: bindC_Some)
  qed (use 1 eq in simp)
qed

lemma symbexec_reads:
  assumes "lastpc \<le> sizecode pt"
  shows "in_bounds (symbexec pt lastpc reg)"
proof -
  have "in_bounds (bindC (symb_loop pt lastpc reg 0 (sizecode pt - 1)) (code_at pt))"
    if "precheck pt = retC ()"
    using symb_loop_reads [OF precheck_returns [OF that] assms, of "sizecode pt - 1" reg 0]
      precheck_returns [OF that] by (simp add: returns_last_def)
  then show ?thesis by (simp add: symbexec_def precheck_reads)
qed

section \<open>What the virtual machine does with an instruction\<close>

text \<open>
  The part of \<open>luaV_execute\<close> (\<open>lvm.c\<close>) that the checker is about: which places an instruction reads
  or writes, and where the program counter goes. \<open>Scratch\<close> is a register of the frame or of the
  \<open>EXTRA_STACK\<close> slots above it. An operand count of 0 takes its values up to \<open>L->top\<close>. A call uses
  the function, its arguments and the registers in which the caller asks for results.
\<close>

datatype access = Reg nat | Scratch nat | Const nat | Name nat | Upval nat | Sub nat | Word nat

definition EXTRA_STACK :: nat where "EXTRA_STACK = 5"

fun access_ok :: "proto \<Rightarrow> access \<Rightarrow> bool" where
  "access_ok pt (Reg r) \<longleftrightarrow> r < unat (p_maxstacksize pt)"
| "access_ok pt (Scratch r) \<longleftrightarrow> r < unat (p_maxstacksize pt) + EXTRA_STACK"
| "access_ok pt (Const k) \<longleftrightarrow> k < length (p_k pt)"
| "access_ok pt (Name k) \<longleftrightarrow> k < length (p_k pt) \<and> is_kstring (p_k pt ! k)"
| "access_ok pt (Upval u) \<longleftrightarrow> u < unat (p_nups pt)"
| "access_ok pt (Sub n) \<longleftrightarrow> n < length (p_p pt)"
| "access_ok pt (Word q) \<longleftrightarrow> q < sizecode pt"

definition RK :: "nat \<Rightarrow> access" where
  "RK r = (if ISK r then Const (INDEXK r) else Reg r)"

definition closure_nups :: "proto \<Rightarrow> instruction \<Rightarrow> nat" where
  "closure_nups pt i = unat (p_nups (p_p pt ! GETARG_Bx i))"

definition upval_source :: "instruction \<Rightarrow> access" where
  "upval_source i = (if GET_OPCODE i = OP_GETUPVAL then Upval (GETARG_B i) else Reg (GETARG_B i))"

definition vm_uses :: "proto \<Rightarrow> nat \<Rightarrow> access list" where
  "vm_uses pt pc =
    (let i = p_code pt ! pc; x = GET_OPCODE i; a = GETARG_A i; b = GETARG_B i; c = GETARG_C i; bx = GETARG_Bx i in
     Word pc #
     (if x \<in> {OP_MOVE, OP_UNM, OP_NOT, OP_LEN} then [Reg a, Reg b]
      else if x = OP_LOADK then [Reg a, Const bx]
      else if x \<in> {OP_LOADBOOL, OP_NEWTABLE} then [Reg a]
      else if x = OP_LOADNIL then Reg b # map Reg [a..<b]
      else if x \<in> {OP_GETUPVAL, OP_SETUPVAL} then [Reg a, Upval b]
      else if x \<in> {OP_GETGLOBAL, OP_SETGLOBAL} then [Reg a, Name bx]
      else if x = OP_GETTABLE then [Reg a, Reg b, RK c]
      else if x = OP_SELF then [Reg a, Reg (a + 1), Reg b, RK c]
      else if x = OP_SETTABLE \<or> x \<in> {OP_ADD..OP_POW} then [Reg a, RK b, RK c]
      else if x = OP_CONCAT then Reg a # map Reg [b..<c + 1]
      else if x \<in> {OP_EQ, OP_LT, OP_LE} then [RK b, RK c, Word (pc + 1)]
      else if x = OP_TEST then [Reg a, Word (pc + 1)]
      else if x = OP_TESTSET then [Reg a, Reg b, Word (pc + 1)]
      else if x = OP_CALL then Reg a # map Reg [a..<a + b] @ map Reg [a..<a + c - 1]
      else if x = OP_TAILCALL then Reg a # map Reg [a..<a + b]
      else if x = OP_RETURN then map Reg [a..<a + b - 1]
      else if x \<in> {OP_FORLOOP, OP_FORPREP} then map Reg [a..<a + 4]
      else if x = OP_TFORLOOP then
        Word (pc + 1) # map Reg [a..<a + 3] @ map Scratch [a + 3..<a + 6] @ map Reg [a + 3..<a + 3 + c]
      else if x = OP_SETLIST then map Reg [a..<a + b + 1] @ (if c = 0 then [Word (pc + 1)] else [])
      else if x = OP_CLOSURE then
        Reg a # Sub bx # map Word [pc + 1..<pc + 1 + closure_nups pt i] @
        map (\<lambda>j. upval_source (p_code pt ! j)) [pc + 1..<pc + 1 + closure_nups pt i]
      else if x = OP_VARARG then map Reg [a..<a + b - 1]
      else []))"

definition vm_next :: "proto \<Rightarrow> nat \<Rightarrow> int list" where
  "vm_next pt pc =
    (let i = p_code pt ! pc; x = GET_OPCODE i; n = int pc + 1 in
     if x = OP_LOADBOOL then [if GETARG_C i \<noteq> 0 then n + 1 else n]
     else if x \<in> {OP_JMP, OP_FORPREP} then [n + GETARG_sBx i]
     else if x \<in> {OP_EQ, OP_LT, OP_LE, OP_TEST, OP_TESTSET, OP_TFORLOOP} then
       [n + 1, n + GETARG_sBx (p_code pt ! (pc + 1)) + 1]
     else if x = OP_FORLOOP then [n, n + GETARG_sBx i]
     else if x = OP_RETURN then []
     else if x = OP_SETLIST then [if GETARG_C i = 0 then n + 1 else n]
     else if x = OP_CLOSURE then [n + int (closure_nups pt i)]
     else [n])"

text \<open>The program counters an execution of the function can reach.\<close>

inductive vm_reach :: "proto \<Rightarrow> int \<Rightarrow> bool" for pt where
  vm_reach_start: "vm_reach pt 0"
| vm_reach_step: "vm_reach pt pc \<Longrightarrow> q \<in> set (vm_next pt (nat pc)) \<Longrightarrow> vm_reach pt q"

text \<open>An instruction that leaves its values up to \<open>L->top\<close>, for the next one to take.\<close>

definition leaves_open :: "instruction \<Rightarrow> bool" where
  "leaves_open i \<longleftrightarrow> GET_OPCODE i = OP_CALL \<and> GETARG_C i = 0 \<or> GET_OPCODE i = OP_TAILCALL
     \<or> GET_OPCODE i = OP_VARARG \<and> GETARG_B i = 0"

definition vm_safe_at :: "proto \<Rightarrow> int \<Rightarrow> bool" where
  "vm_safe_at pt pc \<longleftrightarrow> 0 \<le> pc \<and> pc < int (sizecode pt)
     \<and> GET_OPCODE (p_code pt ! nat pc) < NUM_OPCODES
     \<and> list_all (access_ok pt) (vm_uses pt (nat pc))
     \<and> (leaves_open (p_code pt ! nat pc) \<longrightarrow> luaG_checkopenop (p_code pt ! (nat pc + 1)))"

text \<open>
  Two operands that the checker takes as the compiler makes them: the skip of \<open>LOADBOOL\<close> is a truth
  value, and a tail call asks for all results.
\<close>

definition compiler_operands :: "proto \<Rightarrow> bool" where
  "compiler_operands pt \<longleftrightarrow>
     list_all (\<lambda>i. (GET_OPCODE i = OP_LOADBOOL \<longrightarrow> GETARG_C i \<le> 1) \<and> (GET_OPCODE i = OP_TAILCALL \<longrightarrow> GETARG_C i = 0))
       (p_code pt)"

section \<open>Where instructions start\<close>

text \<open>The words the checker takes for instructions: all but the count after a \<open>SETLIST\<close>.\<close>

inductive starts :: "proto \<Rightarrow> nat \<Rightarrow> bool" for pt where
  starts_0: "starts pt 0"
| starts_1: "starts pt pc \<Longrightarrow> \<not> setlist0 (p_code pt ! pc) \<Longrightarrow> starts pt (pc + 1)"
| starts_2: "starts pt pc \<Longrightarrow> setlist0 (p_code pt ! pc) \<Longrightarrow> starts pt (pc + 2)"

text \<open>Of two words in a row at least one is an instruction, the first one with a count otherwise.\<close>

lemma starts_gap: "\<not> starts pt pc \<Longrightarrow> \<exists>q. pc = q + 1 \<and> starts pt q \<and> setlist0 (p_code pt ! q)"
proof (induction pc)
  case 0
  then show ?case using starts_0 by blast
next
  case (Suc pc)
  show ?case
  proof (cases "starts pt pc")
    case True
    then show ?thesis using Suc.prems starts_1 [of pt pc] by auto
  next
    case False
    then obtain q where "pc = q + 1" "starts pt q" "setlist0 (p_code pt ! q)" using Suc.IH by blast
    then show ?thesis using starts_2 [of pt q] Suc.prems by auto
  qed
qed

lemma setlist_run_SomeD:
  "setlist_run pt d = retC j \<Longrightarrow> j \<le> d \<and> (\<forall>q\<in>{d - j..<d}. setlist0 (p_code pt ! q))
     \<and> (j < d \<longrightarrow> \<not> setlist0 (p_code pt ! (d - j - 1)))"
proof (induction d arbitrary: j)
  case (Suc d)
  show ?case
  proof (cases "setlist0 (p_code pt ! d)")
    case True
    then obtain k where k: "setlist_run pt d = retC k" "j = k + 1" using Suc.prems by (auto simp: bindC_Some)
    show ?thesis using Suc.IH [OF k(1)] True k(2) by (auto simp: less_Suc_eq)
  qed (use Suc.prems in \<open>auto simp: bindC_Some\<close>)
qed simp

lemma starts_even: "starts pt q \<Longrightarrow> (\<forall>p\<in>{q..<q + 2 * n}. setlist0 (p_code pt ! p)) \<Longrightarrow> starts pt (q + 2 * n)"
proof (induction n)
  case (Suc n)
  then have "starts pt (q + 2 * n)" by auto
  then show ?case using starts_2 [of pt "q + 2 * n"] Suc.prems by auto
qed simp

text \<open>What the test on jumps is for: a jump does not land on a count.\<close>

lemma check_dest_starts:
  assumes "check_dest pt dest = retC ()"
  shows "0 \<le> dest" and "dest < int (sizecode pt)" and "starts pt (nat dest)"
proof -
  show "0 \<le> dest" "dest < int (sizecode pt)" using assms by (auto simp: check_dest_def bindC_Some)
  show "starts pt (nat dest)"
  proof (cases "dest = 0")
    case False
    then obtain j where j: "setlist_run pt (nat dest) = retC j" "j mod 2 = 0"
      using assms by (auto simp: check_dest_def bindC_Some split: if_splits)
    note run = setlist_run_SomeD [OF j(1)]
    have at: "starts pt (nat dest - j)"
    proof (rule ccontr)
      assume "\<not> starts pt (nat dest - j)"
      then obtain q where "nat dest - j = q + 1" "setlist0 (p_code pt ! q)" using starts_gap by blast
      then show False using run by auto
    qed
    have "nat dest - j + 2 * (j div 2) = nat dest" using run j(2) by (simp add: mult_div_mod_eq minus_mod_eq_mult_div [symmetric])
    then show ?thesis using starts_even [OF at, of "j div 2"] run by auto
  qed (simp add: starts_0)
qed

section \<open>Every instruction has been checked\<close>

definition accepted_at :: "proto \<Rightarrow> nat \<Rightarrow> bool" where
  "accepted_at pt pc \<longleftrightarrow> (\<exists>lst r. symb_step pt (sizecode pt) NO_REG pc lst = retC r)"

lemma symb_op_next:
  assumes "symb_op pt lastpc NO_REG pc lst x a b c = retC (pc', lst')"
  shows "pc' = (if x = OP_SETLIST \<and> c = 0 then pc + 1 else pc)"
  using assms by (auto simp: symb_op_def bindC_Some Let_def symb_jump_def split: if_splits)

lemma operands_ABC:
  assumes "operands pt pc x i = retC (b, c)" and "getOpMode x = iABC"
  shows "b = int (GETARG_B i)" and "c = int (GETARG_C i)"
    and "checkArgMode pt (GETARG_B i) (getBMode x) = retC ()" and "checkArgMode pt (GETARG_C i) (getCMode x) = retC ()"
  using assms by (auto simp: operands_def bindC_Some)

lemma symb_step_next:
  assumes "symb_step pt lastpc NO_REG pc lst = retC (pc', lst')"
  shows "pc' = (if setlist0 (p_code pt ! pc) then pc + 1 else pc)"
proof -
  define x where "x = GET_OPCODE (p_code pt ! pc)"
  obtain a b c l where op: "operands pt pc x (p_code pt ! pc) = retC (b, c)"
    and so: "symb_op pt lastpc NO_REG pc l x a b c = retC (pc', lst')"
    using assms by (auto simp: symb_step_def bindC_Some Let_def x_def)
  show ?thesis
    using symb_op_next [OF so] operands_ABC [OF op] by (auto simp: setlist0_def x_def)
qed

lemma loop_advances:
  assumes "symb_loop pt (sizecode pt) NO_REG pc lst = retC l"
  shows "\<exists>lst. symb_loop pt (sizecode pt) NO_REG (if setlist0 (p_code pt ! pc) then pc + 2 else pc + 1) lst = retC l"
proof (cases "pc < sizecode pt")
  case True
  then obtain pc' lst' where st: "symb_step pt (sizecode pt) NO_REG pc lst = retC (pc', lst')"
    and "symb_loop pt (sizecode pt) NO_REG (pc' + 1) lst' = retC l"
    using assms unfolding symb_loop.simps [of pt "sizecode pt" NO_REG pc lst] by (auto simp: bindC_Some)
  then show ?thesis using symb_step_next [OF st] by (auto split: if_splits)
qed (auto simp: symb_loop.simps)

lemma loop_accepts:
  assumes "symb_loop pt (sizecode pt) NO_REG 0 l0 = retC l" and "starts pt pc"
  shows "\<exists>lst. symb_loop pt (sizecode pt) NO_REG pc lst = retC l"
  using assms(2)
proof (induction rule: starts.induct)
  case starts_0
  then show ?case using assms(1) by blast
next
  case (starts_1 pc)
  then show ?case using loop_advances by fastforce
next
  case (starts_2 pc)
  then show ?case using loop_advances by fastforce
qed

lemma checkcode_True:
  assumes "luaG_checkcode pt = Some True"
  obtains l where "precheck pt = retC ()" and "symb_loop pt (sizecode pt) NO_REG 0 (sizecode pt - 1) = retC l"
  using assms by (auto simp: luaG_checkcode_def symbexec_def bindC_Some split: option.splits)

lemma checked_accepts:
  assumes "luaG_checkcode pt = Some True" and "starts pt pc" and "pc < sizecode pt"
  shows "accepted_at pt pc"
proof -
  obtain l1 where "symb_loop pt (sizecode pt) NO_REG 0 (sizecode pt - 1) = retC l1"
    using checkcode_True [OF assms(1)] by blast
  from loop_accepts [OF this assms(2)] obtain lst where
    l: "symb_loop pt (sizecode pt) NO_REG pc lst = retC l1" by blast
  show ?thesis unfolding accepted_at_def
    using l assms(3) unfolding symb_loop.simps [of pt "sizecode pt" NO_REG pc lst] by (auto simp: bindC_Some)
qed

text \<open>What acceptance says of an instruction, opcode by opcode.\<close>

declare of_nat_unat [simp del]

lemma accepted_step:
  assumes "accepted_at pt pc" and "x = GET_OPCODE (p_code pt ! pc)" and "i = p_code pt ! pc"
  obtains b c l r where "pc < sizecode pt" and "x < NUM_OPCODES" and "GETARG_A i < unat (p_maxstacksize pt)"
    and "operands pt pc x i = retC (b, c)"
    and "testTMode x \<Longrightarrow> pc + 2 < sizecode pt \<and> GET_OPCODE (p_code pt ! (pc + 1)) = OP_JMP"
    and "symb_op pt (sizecode pt) NO_REG pc l x (int (GETARG_A i)) b c = retC r"
  using assms by (auto simp: accepted_at_def symb_step_def bindC_Some Let_def split: if_splits)

lemma checkArgMode_R [simp]: "checkArgMode pt r OpArgR = retC () \<longleftrightarrow> r < unat (p_maxstacksize pt)"
  by (simp add: checkArgMode_def)

lemma checkArgMode_K [simp]: "checkArgMode pt r OpArgK = retC () \<longleftrightarrow> access_ok pt (RK r)"
  by (simp add: checkArgMode_def RK_def)

lemma opcodes:
  assumes "x < NUM_OPCODES"
  shows "x \<in> {0, 1, 2, 3, 4, 5, 6, 7, 8, 9, 10, 11, 12, 13, 14, 15, 16, 17, 18, 19, 20, 21, 22, 23, 24, 25, 26, 27,
    28, 29, 30, 31, 32, 33, 34, 35, 36, 37}"
  using assms by (simp add: eval_nat_numeral less_Suc_eq)

lemma check_captures_SomeD:
  "check_captures pt pc n = retC () \<Longrightarrow> j \<in> {pc + 1..<pc + 1 + n} \<Longrightarrow>
     j < sizecode pt \<and> GET_OPCODE (p_code pt ! j) \<in> {OP_GETUPVAL, OP_MOVE}"
proof (induction n arbitrary: pc)
  case (Suc n)
  then show ?case
    by (cases "j = pc + 1") (auto simp: bindC_Some)
qed simp

lemma accepted_captures:
  assumes ok: "luaG_checkcode pt = Some True" and "starts pt pc" and "pc < sizecode pt"
    and "GET_OPCODE (p_code pt ! pc) = OP_CLOSURE" and j: "j \<in> {pc + 1..<pc + 1 + closure_nups pt (p_code pt ! pc)}"
  shows "j < sizecode pt" and "GET_OPCODE (p_code pt ! j) \<in> {OP_GETUPVAL, OP_MOVE}" and "starts pt j"
    and "starts pt (j + 1)" and "j + 1 < sizecode pt"
proof -
  obtain b c l r where so: "operands pt pc OP_CLOSURE (p_code pt ! pc) = retC (b, c)"
    "symb_op pt (sizecode pt) NO_REG pc l OP_CLOSURE (int (GETARG_A (p_code pt ! pc))) b c = retC r"
    using accepted_step [OF checked_accepts [OF ok assms(2,3)] refl refl] assms(4) by metis
  have caps: "check_captures pt pc (closure_nups pt (p_code pt ! pc)) = retC ()"
    using so(2) operands_Bx [OF so(1)] by (auto simp: symb_op_def bindC_Some Let_def closure_nups_def)
  have at: "k < sizecode pt \<and> GET_OPCODE (p_code pt ! k) \<in> {OP_GETUPVAL, OP_MOVE}"
    if "k \<in> {pc + 1..<pc + 1 + closure_nups pt (p_code pt ! pc)}" for k
    using check_captures_SomeD [OF caps that] .
  then show "j < sizecode pt" and op: "GET_OPCODE (p_code pt ! j) \<in> {OP_GETUPVAL, OP_MOVE}" using j by blast+
  have run: "k < pc + 1 + closure_nups pt (p_code pt ! pc) \<Longrightarrow> pc \<le> k \<Longrightarrow> starts pt (k + 1)" for k
  proof (induction k)
    case 0
    then show ?case using starts_1 [OF assms(2)] assms(4) by (simp add: setlist0_def)
  next
    case (Suc k)
    show ?case
    proof (cases "pc = Suc k")
      case True
      then show ?thesis using starts_1 [OF assms(2)] assms(4) by (simp add: setlist0_def)
    next
      case False
      then have "starts pt (Suc k)" using Suc by simp
      then show ?thesis using starts_1 [of pt "Suc k"] at [of "Suc k"] Suc.prems False by (auto simp: setlist0_def)
    qed
  qed
  show "starts pt (j + 1)" using run [of j] j by simp
  show "starts pt j" using run [of "j - 1"] j by (simp split: if_splits) linarith
  obtain l where "precheck pt = retC ()" using checkcode_True [OF ok] by blast
  then show "j + 1 < sizecode pt" using not_at_end [OF precheck_returns] at [OF j] by auto
qed

text \<open>The places that an accepted instruction names.\<close>

lemma captures_ok:
  assumes "luaG_checkcode pt = Some True" and "starts pt pc" and "pc < sizecode pt"
    and "GET_OPCODE (p_code pt ! pc) = OP_CLOSURE" and j: "j \<in> {pc + 1..<pc + 1 + closure_nups pt (p_code pt ! pc)}"
  shows "access_ok pt (upval_source (p_code pt ! j))"
proof -
  note cap = accepted_captures [OF assms]
  define x where "x = GET_OPCODE (p_code pt ! j)"
  obtain b c l r where so: "operands pt j x (p_code pt ! j) = retC (b, c)"
    "symb_op pt (sizecode pt) NO_REG j l x (int (GETARG_A (p_code pt ! j))) b c = retC r"
    using accepted_step [OF checked_accepts [OF assms(1) cap(3,1)] x_def refl] by metis
  have "x = OP_GETUPVAL \<or> x = OP_MOVE" using cap(2) by (simp add: x_def)
  then show ?thesis
    using so(2) operands_ABC [OF so(1)]
    by (auto simp: symb_op_def bindC_Some upval_source_def simp flip: x_def split: if_splits)
qed

lemma list_all_Reg [simp]: "list_all (access_ok pt) (map Reg [m..<n]) \<longleftrightarrow> n \<le> m \<or> n \<le> unat (p_maxstacksize pt)"
proof -
  have "(\<forall>r\<in>{m..<n}. r < k) \<longleftrightarrow> n \<le> m \<or> n \<le> k" for k :: nat
    by (cases "m < n") (auto dest: bspec [of _ _ "n - 1"])
  then show ?thesis by (simp add: list_all_iff)
qed

lemma list_all_Scratch [simp]:
  "list_all (access_ok pt) (map Scratch [m..<n]) \<longleftrightarrow> n \<le> m \<or> n \<le> unat (p_maxstacksize pt) + EXTRA_STACK"
proof -
  have "(\<forall>r\<in>{m..<n}. r < k) \<longleftrightarrow> n \<le> m \<or> n \<le> k" for k :: nat
    by (cases "m < n") (auto dest: bspec [of _ _ "n - 1"])
  then show ?thesis by (simp add: list_all_iff)
qed

lemma uses_ok:
  assumes ok: "luaG_checkcode pt = Some True" and "starts pt pc" and "pc < sizecode pt"
  shows "list_all (access_ok pt) (vm_uses pt pc)"
proof -
  define i where "i = p_code pt ! pc"
  define x where "x = GET_OPCODE i"
  obtain b c l r where lt: "x < NUM_OPCODES" and a: "GETARG_A i < unat (p_maxstacksize pt)"
    and op: "operands pt pc x i = retC (b, c)"
    and t: "testTMode x \<Longrightarrow> pc + 2 < sizecode pt \<and> GET_OPCODE (p_code pt ! (pc + 1)) = OP_JMP"
    and so: "symb_op pt (sizecode pt) NO_REG pc l x (int (GETARG_A i)) b c = retC r"
    using accepted_step [OF checked_accepts [OF assms]] unfolding x_def i_def by metis
  note abc = operands_ABC [OF op] and bx = operands_Bx [OF op]
  have cw: "j < sizecode pt" "access_ok pt (upval_source (p_code pt ! j))"
    if "x = OP_CLOSURE" "j \<in> {pc + 1..<pc + 1 + closure_nups pt i}" for j
    using accepted_captures(1) [OF assms, of j] captures_ok [OF assms, of j] that by (auto simp: x_def i_def)
  show ?thesis
    using opcodes [OF lt] a assms(3)
    unfolding insert_iff empty_iff
    apply (elim disjE; (use so abc bx t cw in
      \<open>simp add: vm_uses_def Let_def symb_op_def bindC_Some EXTRA_STACK_def split: if_splits flip: i_def x_def; fail\<close>)?)
    by (use so abc bx cw in \<open>auto simp: vm_uses_def Let_def symb_op_def bindC_Some list.pred_map list_all_iff
      simp flip: i_def x_def split: if_splits\<close>)
qed

text \<open>Where an accepted instruction sends the program counter.\<close>

lemma jump_ok:
  assumes "luaG_checkcode pt = Some True" and "starts pt pc" and "pc < sizecode pt"
    and "GET_OPCODE (p_code pt ! pc) \<in> {OP_JMP, OP_FORLOOP, OP_FORPREP}"
    and "q = int pc + 1 + GETARG_sBx (p_code pt ! pc)"
  shows "0 \<le> q \<and> q < int (sizecode pt) \<and> starts pt (nat q)"
proof -
  obtain b c where "operands pt pc (GET_OPCODE (p_code pt ! pc)) (p_code pt ! pc) = retC (b, c)"
    using accepted_step [OF checked_accepts [OF assms(1-3)] refl refl] by metis
  then have "check_dest pt q = retC ()"
    using assms(4,5) by (auto simp: operands_def bindC_Some)
  from check_dest_starts [OF this] show ?thesis by blast
qed

definition lands :: "proto \<Rightarrow> int \<Rightarrow> bool" where
  "lands pt q \<longleftrightarrow> 0 \<le> q \<and> q < int (sizecode pt) \<and> starts pt (nat q)"

lemma lands_next:
  assumes "luaG_checkcode pt = Some True" and "starts pt pc" and "pc < sizecode pt"
    and "\<not> setlist0 (p_code pt ! pc)" and "GET_OPCODE (p_code pt ! pc) \<noteq> OP_RETURN"
  shows "lands pt (int pc + 1)"
proof -
  have "returns_last pt" using checkcode_True [OF assms(1)] precheck_returns by metis
  then have "pc + 1 < sizecode pt" using not_at_end assms(3,5) by blast
  then show ?thesis using starts_1 [OF assms(2,4)] by (simp add: lands_def nat_add_distrib)
qed

lemma test_next:
  assumes "luaG_checkcode pt = Some True" and "starts pt pc" and "pc < sizecode pt"
    and "GET_OPCODE (p_code pt ! pc) \<in> {OP_EQ, OP_LT, OP_LE, OP_TEST, OP_TESTSET, OP_TFORLOOP}"
  shows "lands pt (2 + int pc)" and "lands pt (int pc + 1 + GETARG_sBx (p_code pt ! (pc + 1)) + 1)"
proof -
  have t: "testTMode (GET_OPCODE (p_code pt ! pc))" using assms(4) by auto
  then have j: "pc + 2 < sizecode pt" "GET_OPCODE (p_code pt ! (pc + 1)) = OP_JMP"
    using accepted_step [OF checked_accepts [OF assms(1-3)] refl refl] by metis+
  have s: "starts pt (pc + 1)" using starts_1 [OF assms(2)] assms(4) by (auto simp: setlist0_def)
  show "lands pt (2 + int pc)" using lands_next [OF assms(1) s] j by (simp add: setlist0_def)
  show "lands pt (int pc + 1 + GETARG_sBx (p_code pt ! (pc + 1)) + 1)"
    using jump_ok [OF assms(1) s, of "int pc + 1 + GETARG_sBx (p_code pt ! (pc + 1)) + 1"] j by (simp add: lands_def)
qed

lemma closure_next:
  assumes ok: "luaG_checkcode pt = Some True" and "starts pt pc" and "pc < sizecode pt"
    and "GET_OPCODE (p_code pt ! pc) = OP_CLOSURE"
  shows "lands pt (int pc + 1 + int (closure_nups pt (p_code pt ! pc)))"
proof (cases "closure_nups pt (p_code pt ! pc) = 0")
  case True
  then show ?thesis using lands_next [OF assms(1-3)] assms(4) by (simp add: setlist0_def)
next
  case False
  then show ?thesis
    using accepted_captures(4,5) [OF assms, of "pc + closure_nups pt (p_code pt ! pc)"]
    by (simp add: lands_def nat_add_distrib)
qed

lemma next_ok:
  assumes ok: "luaG_checkcode pt = Some True" and "starts pt pc" and "pc < sizecode pt"
    and co: "compiler_operands pt" and q: "q \<in> set (vm_next pt pc)"
  shows "lands pt q"
proof -
  define i where "i = p_code pt ! pc"
  define x where "x = GET_OPCODE i"
  obtain b c l r where op: "operands pt pc x i = retC (b, c)"
    and so: "symb_op pt (sizecode pt) NO_REG pc l x (int (GETARG_A i)) b c = retC r"
    using accepted_step [OF checked_accepts [OF assms(1-3)]] unfolding x_def i_def by metis
  note abc = operands_ABC [OF op] and nxt = lands_next [OF assms(1-3)]
  consider "x \<in> {OP_JMP, OP_FORPREP, OP_FORLOOP}" | "x \<in> {OP_EQ, OP_LT, OP_LE, OP_TEST, OP_TESTSET, OP_TFORLOOP}"
    | "x = OP_CLOSURE" | "x = OP_LOADBOOL" | "x = OP_SETLIST"
    | "x \<notin> {OP_JMP, OP_FORPREP, OP_FORLOOP, OP_EQ, OP_LT, OP_LE, OP_TEST, OP_TESTSET, OP_TFORLOOP, OP_CLOSURE,
        OP_LOADBOOL, OP_SETLIST}" by blast
  then show ?thesis
  proof cases
    case 1
    then show ?thesis
      using q jump_ok [OF assms(1-3), of "int pc + 1 + GETARG_sBx i"] nxt
      by (auto simp: vm_next_def Let_def setlist0_def lands_def simp flip: i_def x_def)
  next
    case 2
    then show ?thesis
      using q test_next [OF assms(1-3)] by (auto simp: vm_next_def Let_def simp flip: i_def x_def)
  next
    case 3
    then show ?thesis
      using q closure_next [OF assms(1-3)] by (auto simp: vm_next_def Let_def simp flip: i_def x_def)
  next
    case 4
    have "GETARG_C i \<le> 1" using co 4 assms(3) by (auto simp: compiler_operands_def list_all_length x_def i_def)
    moreover have "lands pt (2 + int pc)" if "GETARG_C i = 1"
    proof -
      have "pc + 2 < sizecode pt" "\<not> setlist0 (p_code pt ! (pc + 1))"
        using so abc 4 that by (auto simp: symb_op_def bindC_Some setlist0_def)
      then show ?thesis
        using starts_1 [OF starts_1 [OF assms(2)]] 4 by (simp add: lands_def nat_add_distrib setlist0_def i_def x_def)
    qed
    ultimately show ?thesis
      using q nxt 4 by (auto simp: vm_next_def Let_def setlist0_def le_Suc_eq simp flip: i_def x_def split: if_splits)
  next
    case 5
    have "lands pt (2 + int pc)" if "GETARG_C i = 0"
      using so abc 5 that starts_2 [OF assms(2)]
      by (auto simp: symb_op_def bindC_Some setlist0_def lands_def nat_add_distrib i_def x_def)
    then show ?thesis
      using q nxt 5 by (auto simp: vm_next_def Let_def setlist0_def simp flip: i_def x_def split: if_splits)
  next
    case 6
    then show ?thesis
      using q nxt by (auto simp: vm_next_def Let_def setlist0_def simp flip: i_def x_def split: if_splits)
  qed
qed

lemma open_ok:
  assumes ok: "luaG_checkcode pt = Some True" and "starts pt pc" and "pc < sizecode pt"
    and co: "compiler_operands pt" and "leaves_open (p_code pt ! pc)"
  shows "luaG_checkopenop (p_code pt ! (pc + 1))"
proof -
  define i where "i = p_code pt ! pc"
  define x where "x = GET_OPCODE i"
  obtain b c l r where op: "operands pt pc x i = retC (b, c)"
    and so: "symb_op pt (sizecode pt) NO_REG pc l x (int (GETARG_A i)) b c = retC r"
    using accepted_step [OF checked_accepts [OF assms(1-3)]] unfolding x_def i_def by metis
  have "x = OP_TAILCALL \<Longrightarrow> GETARG_C i = 0"
    using co assms(3) by (auto simp: compiler_operands_def list_all_length x_def i_def)
  then show ?thesis
    using so operands_ABC [OF op] assms(5)
    by (auto simp: leaves_open_def symb_op_def bindC_Some checkopenop_def Let_def simp flip: i_def x_def split: if_splits)
qed

lemma reach_lands:
  assumes ok: "luaG_checkcode pt = Some True" and co: "compiler_operands pt" and "vm_reach pt pc"
  shows "lands pt pc"
  using assms(3)
proof (induction rule: vm_reach.induct)
  case vm_reach_start
  obtain l where "precheck pt = retC ()" using checkcode_True [OF ok] by blast
  then show ?case using precheck_returns by (auto simp: lands_def starts_0 returns_last_def)
next
  case (vm_reach_step pc q)
  then show ?case using next_ok [OF ok _ _ co] by (auto simp: lands_def)
qed

lemma reach_safe:
  assumes "luaG_checkcode pt = Some True" and "compiler_operands pt" and "vm_reach pt pc"
  shows "vm_safe_at pt pc"
proof -
  have at: "0 \<le> pc" "nat pc < sizecode pt" "starts pt (nat pc)"
    using reach_lands [OF assms] by (auto simp: lands_def nat_less_iff)
  have "GET_OPCODE (p_code pt ! nat pc) < NUM_OPCODES"
    using accepted_step [OF checked_accepts [OF assms(1) at(3,2)] refl refl] by metis
  then show ?thesis
    using at uses_ok [OF assms(1) at(3,2)] open_ok [OF assms(1) at(3,2) assms(2)]
    by (simp add: vm_safe_at_def nat_less_iff)
qed

section \<open>Properties\<close>

declare of_nat_unat [simp]

text \<open>
  C12. The checker reads no array of the prototype outside its bounds, for any prototype, as a whole
  (\<open>luaG_checkcode\<close>) and up to an instruction and for a register, as error messages use it.
\<close>

theorem checker_stays_inside:
  assumes "lastpc \<le> sizecode pt"
  shows "symbexec pt lastpc reg \<noteq> None"
  using symbexec_reads [OF assms] by (simp add: in_bounds_def)

definition loop_proto :: proto where
  "loop_proto = Proto [KNumber 0, KString (Some ''x'')]
     [CREATE_ABx OP_LOADK 0 0, CREATE_ABx OP_LOADK 1 0, CREATE_ABx OP_LOADK 2 0,
      CREATE_ABx OP_FORPREP 0 (131071 + 1), CREATE_ABx OP_SETGLOBAL 3 1, CREATE_ABx OP_FORLOOP 0 (131071 - 2),
      CREATE_ABC OP_RETURN 0 1 0]
     [] [] [] [] None 0 0 0 0 2 4"

lemma checker_stays_inside_witness: "symbexec loop_proto 5 3 \<noteq> None"
  by (rule checker_stays_inside) (simp add: loop_proto_def)

text \<open>
  C3. Code that the checker accepts is safe to run, provided that the skip operand of every \<open>LOADBOOL\<close>
  is a truth value and every \<open>TAILCALL\<close> asks for all results, as the compiler makes them
  (\<open>compiler_operands\<close>; the checker tests neither, and without them the claim is false): at every
  program counter the virtual machine can reach there is an instruction, the registers it reads and
  writes, those for the results of a call included, its constants, upvalues and prototypes exist, names
  are strings, and what leaves its values up to the stack top is followed by an instruction that takes
  them.
\<close>

theorem checked_code_is_safe:
  assumes "luaG_checkcode pt = Some True" and "compiler_operands pt" and "vm_reach pt pc"
  shows "vm_safe_at pt pc"
  using assms by (rule reach_safe)

lemma checked_code_is_safe_witness: "vm_safe_at loop_proto 4"
proof (rule checked_code_is_safe)
  show "luaG_checkcode loop_proto = Some True"
    by (simp add: checker_defs loop_proto_def cong: bindC_weak_cong)
  show "compiler_operands loop_proto"
    by (simp add: compiler_operands_def loop_proto_def create_ABC_fields create_ABx_fields)
  have next': "vm_next loop_proto 0 = [1]" "vm_next loop_proto 1 = [2]" "vm_next loop_proto 2 = [3]"
    "vm_next loop_proto 3 = [5]" "vm_next loop_proto 5 = [6, 4]"
    by (simp_all add: vm_next_def loop_proto_def create_ABC_fields create_ABx_fields GETARG_sBx_def MAXARG_sBx_def)
  have r: "vm_reach loop_proto 1" using vm_reach_step [OF vm_reach_start, of 1] next' by simp
  have r: "vm_reach loop_proto 2" using vm_reach_step [OF r, of 2] next' by simp
  have r: "vm_reach loop_proto 3" using vm_reach_step [OF r, of 3] next' by simp
  have r: "vm_reach loop_proto 5" using vm_reach_step [OF r, of 5] next' by simp
  show "vm_reach loop_proto 4" using vm_reach_step [OF r, of 4] next' by simp
qed

text \<open>
  The checker looks at the skip of \<open>LOADBOOL\<close> only when its operand is 1, the virtual machine skips
  when it is not 0: this code is accepted and runs off its end.
\<close>

definition skip_proto :: proto where
  "skip_proto = Proto [] [CREATE_ABC OP_LOADBOOL 0 0 2, CREATE_ABC OP_RETURN 0 1 0] [] [] [] [] None 0 0 0 0 2 1"

lemma accepted_code_runs_off_the_end:
  "luaG_checkcode skip_proto = Some True" and "vm_reach skip_proto 2" and "\<not> vm_safe_at skip_proto 2"
proof -
  show "luaG_checkcode skip_proto = Some True"
    by (simp add: checker_defs skip_proto_def cong: bindC_weak_cong)
  have "vm_next skip_proto 0 = [2]" by (simp add: vm_next_def skip_proto_def create_ABC_fields)
  then show "vm_reach skip_proto 2" using vm_reach_step [OF vm_reach_start, of 2] by simp
  show "\<not> vm_safe_at skip_proto 2" by (simp add: vm_safe_at_def skip_proto_def)
qed

text \<open>
  The virtual machine leaves the results of a tail call up to the stack top whatever its operand
  \<open>C\<close> (and asserts that this is 0); the checker takes it at its word, and accepts code in which the
  next instruction does not take them.
\<close>

definition tail_proto :: proto where
  "tail_proto = Proto [] [CREATE_ABC OP_TAILCALL 0 1 1, CREATE_ABC OP_LOADNIL 0 0 0, CREATE_ABC OP_RETURN 0 1 0]
     [] [] [] [] None 0 0 0 0 2 1"

lemma accepted_tail_call: "luaG_checkcode tail_proto = Some True" and "\<not> vm_safe_at tail_proto 0"
proof -
  show "luaG_checkcode tail_proto = Some True"
    by (simp add: checker_defs tail_proto_def cong: bindC_weak_cong)
  show "\<not> vm_safe_at tail_proto 0"
    by (simp add: vm_safe_at_def tail_proto_def leaves_open_def luaG_checkopenop_def create_ABC_fields)
qed

end
