(* ===== verification/Lua_Zio.thy ===== *)
theory Lua_Zio
  imports Prelude
begin

text \<open>
  Input streams, \<open>lzio.c\<close>. A stream has the unread bytes of the current block (\<open>p\<close>, with \<open>n\<close>
  their number) and the blocks its reader will return, in order; after the last one the reader
  returns NULL. An empty block ends the stream, as NULL does.
\<close>

record ZIO =
  z_p :: string
  z_blocks :: "string list"

definition luaZ_init :: "string list \<Rightarrow> ZIO" where
  "luaZ_init reader = \<lparr>z_p = [], z_blocks = reader\<rparr>"

text \<open>\<open>EOZ\<close> is \<open>None\<close>.\<close>

definition luaZ_fill :: "ZIO \<Rightarrow> char option \<times> ZIO" where
  "luaZ_fill z =
     (case z_blocks z of
        [] \<Rightarrow> (None, z)
      | buff # bs \<Rightarrow>
          if buff = [] then (None, z\<lparr>z_blocks := bs\<rparr>)
          else (Some (hd buff), z\<lparr>z_p := tl buff, z_blocks := bs\<rparr>))"

definition luaZ_lookahead :: "ZIO \<Rightarrow> char option \<times> ZIO" where
  "luaZ_lookahead z =
     (if z_p z = [] then
        (case luaZ_fill z of
           (None, z) \<Rightarrow> (None, z)
         | (Some c, z) \<Rightarrow> (Some c, z\<lparr>z_p := c # z_p z\<rparr>))
      else (Some (hd (z_p z)), z))"

definition zgetc :: "ZIO \<Rightarrow> char option \<times> ZIO" where
  "zgetc z = (if z_p z \<noteq> [] then (Some (hd (z_p z)), z\<lparr>z_p := tl (z_p z)\<rparr>) else luaZ_fill z)"

lemma lookahead_Some: "luaZ_lookahead z = (Some c, z') \<Longrightarrow> z_p z' \<noteq> [] \<and> c = hd (z_p z')"
  by (auto simp: luaZ_lookahead_def luaZ_fill_def split: if_splits prod.splits option.splits list.splits)

text \<open>The number of missing bytes, the bytes that were stored, and the stream.\<close>

function luaZ_read :: "nat \<Rightarrow> ZIO \<Rightarrow> nat \<times> string \<times> ZIO" where
  "luaZ_read n z =
     (if n = 0 then (0, [], z)
      else
        (case luaZ_lookahead z of
           (None, z) \<Rightarrow> (n, [], z)
         | (Some c, z) \<Rightarrow>
             let m = (if n \<le> length (z_p z) then n else length (z_p z));
                 (missing, b, z') = luaZ_read (n - m) (z\<lparr>z_p := drop m (z_p z)\<rparr>)
             in (missing, take m (z_p z) @ b, z')))"
  by pat_completeness auto
termination by (relation "measure fst") (auto dest: lookahead_Some dest!: sym [of "(Some _, _)"])

declare luaZ_read.simps [simp del]

section \<open>The bytes of a stream\<close>

text \<open>
  What is left before the stream ends for the first time (a reader that has returned an empty block
  may be asked again and return more).
\<close>

definition pending :: "ZIO \<Rightarrow> string" where
  "pending z = z_p z @ concat (takeWhile (\<lambda>b. b \<noteq> []) (z_blocks z))"

lemma lookahead_spec:
  assumes "luaZ_lookahead z = (r, z')"
  shows "r = None \<longleftrightarrow> pending z = []" and "r = Some c \<Longrightarrow> pending z' = pending z \<and> c = hd (pending z)"
  using assms
  by (auto simp: luaZ_lookahead_def luaZ_fill_def pending_def split: if_splits prod.splits option.splits list.splits)

lemma zgetc_spec:
  assumes "zgetc z = (r, z')"
  shows "r = None \<longleftrightarrow> pending z = []" and "r = Some c \<Longrightarrow> pending z = c # pending z'"
  using assms by (auto simp: zgetc_def luaZ_fill_def pending_def split: if_splits list.splits option.splits)

text \<open>A read takes the bytes across the blocks and says how many are missing.\<close>

lemma read_spec:
  assumes "luaZ_read n z = (missing, b, z')"
  shows "missing = n - length (pending z) \<and> b = take n (pending z)
    \<and> (missing = 0 \<longrightarrow> pending z' = drop n (pending z))"
  using assms
proof (induction n z arbitrary: missing b z' rule: luaZ_read.induct)
  case (1 n z)
  note eq = luaZ_read.simps [of n z]
  show ?case
  proof (cases "n = 0")
    case False
    obtain r z1 where la: "luaZ_lookahead z = (r, z1)" by (cases "luaZ_lookahead z") auto
    note spec = lookahead_spec [OF la]
    show ?thesis
    proof (cases r)
      case None
      then show ?thesis using 1(2) eq False la spec(1) by auto
    next
      case (Some c)
      define m where "m = (if n \<le> length (z_p z1) then n else length (z_p z1))"
      obtain ms b1 z2 where rd: "luaZ_read (n - m) (z1\<lparr>z_p := drop m (z_p z1)\<rparr>) = (ms, b1, z2)"
        by (cases "luaZ_read (n - m) (z1\<lparr>z_p := drop m (z_p z1)\<rparr>)") auto
      have res: "missing = ms" "b = take m (z_p z1) @ b1" "z' = z2"
        using 1(2) eq False la Some rd by (simp_all add: Let_def m_def)
      have m: "m \<le> n" "m \<le> length (z_p z1)" by (simp_all add: m_def)
      have same: "pending z1 = pending z" using spec(2) [OF Some] by simp
      have "pending (z1\<lparr>z_p := drop m (z_p z1)\<rparr>) = drop m (pending z1)" "take m (z_p z1) = take m (pending z1)"
        and ml: "m \<le> length (pending z1)" using m by (simp_all add: pending_def)
      moreover have "ms = n - m - length (pending (z1\<lparr>z_p := drop m (z_p z1)\<rparr>))
          \<and> b1 = take (n - m) (pending (z1\<lparr>z_p := drop m (z_p z1)\<rparr>))
          \<and> (ms = 0 \<longrightarrow> pending z2 = drop (n - m) (pending (z1\<lparr>z_p := drop m (z_p z1)\<rparr>)))"
        using 1(1) [OF False la [symmetric] Some m_def rd] .
      ultimately show ?thesis
        using res m ml unfolding same by (simp add: take_add [symmetric])
    qed
  qed (use 1(2) eq in simp)
qed

section \<open>The interface of a reader of bytes\<close>

text \<open>
  What the loader of precompiled chunks relies on: a read of no more than what is left gives those
  bytes, and a longer one reports missing bytes.
\<close>

locale byte_source =
  fixes rd :: "nat \<Rightarrow> 'z \<Rightarrow> nat \<times> string \<times> 'z"
    and left :: "'z \<Rightarrow> string"
  assumes rd_missing: "rd n z = (missing, b, z') \<Longrightarrow> missing = n - length (left z)"
    and rd_bytes: "rd n z = (0, b, z') \<Longrightarrow> b = take n (left z) \<and> left z' = drop n (left z)"
begin

lemma rd_exact:
  assumes "left z = bs @ rest" and "length bs = n"
  shows "\<exists>z'. rd n z = (0, bs, z') \<and> left z' = rest"
proof -
  obtain missing b z' where rd: "rd n z = (missing, b, z')" by (cases "rd n z") auto
  have "missing = 0" using rd_missing [OF rd] assms by simp
  then show ?thesis using rd rd_bytes [of n z b z'] assms by auto
qed

end

interpretation zio: byte_source luaZ_read pending
  by unfold_locales (use read_spec in blast)+

end
