(* ===== verification/Lua_Dump.thy ===== *)
theory Lua_Dump
  imports Lua_Checkcode Lua_Buffer Lua_Api
begin

text \<open>
  Saving functions as precompiled chunks: \<open>ldump.c\<close>, \<open>lua_dump\<close> (\<open>lapi.c\<close>) and \<open>string.dump\<close>
  (\<open>lstrlib.c\<close>), on a little-endian machine with 4-byte \<open>int\<close> and 8-byte \<open>size_t\<close>. The writer is
  a parameter: it gets a block and its data, and returns a status and the data.
\<close>

section \<open>Bytes\<close>

text \<open>The bytes of an \<open>n\<close>-byte integer in memory.\<close>

fun le_bytes :: "nat \<Rightarrow> nat \<Rightarrow> string" where
  "le_bytes 0 x = []"
| "le_bytes (Suc n) x = char_of (x mod 256) # le_bytes n (x div 256)"

lemma length_le_bytes [simp]: "length (le_bytes n x) = n"
  by (induction n arbitrary: x) auto

section \<open>The dump state\<close>

type_synonym 'd writer = "string \<Rightarrow> 'd \<Rightarrow> int \<times> 'd"

record 'd DumpState =
  d_data :: 'd
  d_strip :: bool
  d_status :: int

definition DumpBlock :: "'d writer \<Rightarrow> string \<Rightarrow> 'd DumpState \<Rightarrow> 'd DumpState" where
  "DumpBlock w b D =
     (if d_status D = 0 then (let (st, d) = w b (d_data D) in D\<lparr>d_status := st, d_data := d\<rparr>) else D)"

definition DumpChar :: "'d writer \<Rightarrow> nat \<Rightarrow> 'd DumpState \<Rightarrow> 'd DumpState" where
  "DumpChar w y = DumpBlock w (le_bytes 1 y)"

definition DumpInt :: "'d writer \<Rightarrow> 32 word \<Rightarrow> 'd DumpState \<Rightarrow> 'd DumpState" where
  "DumpInt w x = DumpBlock w (le_bytes 4 (unat x))"

definition DumpSize :: "'d writer \<Rightarrow> 64 word \<Rightarrow> 'd DumpState \<Rightarrow> 'd DumpState" where   \<comment> \<open>\<open>DumpVar(size,D)\<close>\<close>
  "DumpSize w x = DumpBlock w (le_bytes 8 (unat x))"

definition DumpNumber :: "'d writer \<Rightarrow> 64 word \<Rightarrow> 'd DumpState \<Rightarrow> 'd DumpState" where
  "DumpNumber w x = DumpBlock w (le_bytes 8 (unat x))"

text \<open>A vector of 4-byte elements: instructions or lines.\<close>

definition DumpVector :: "'d writer \<Rightarrow> 32 word list \<Rightarrow> 'd DumpState \<Rightarrow> 'd DumpState" where
  "DumpVector w b D =
     DumpBlock w (concat (map (\<lambda>x. le_bytes 4 (unat x)) b)) (DumpInt w (of_nat (length b)) D)"

definition DumpString :: "'d writer \<Rightarrow> string option \<Rightarrow> 'd DumpState \<Rightarrow> 'd DumpState" where
  "DumpString w s D =
     (case s of
        None \<Rightarrow> DumpSize w 0 D
      | Some s \<Rightarrow> DumpBlock w (s @ [NUL]) (DumpSize w (of_nat (length s + 1)) D))"

definition DumpConstant :: "'d writer \<Rightarrow> lconst \<Rightarrow> 'd DumpState \<Rightarrow> 'd DumpState" where
  "DumpConstant w k D =
     (case k of
        KNil \<Rightarrow> DumpChar w 0 D
      | KBool b \<Rightarrow> DumpChar w (of_bool b) (DumpChar w 1 D)
      | KNumber x \<Rightarrow> DumpNumber w x (DumpChar w 3 D)
      | KString s \<Rightarrow> DumpString w s (DumpChar w 4 D))"

definition DumpLocvar :: "'d writer \<Rightarrow> locvar \<Rightarrow> 'd DumpState \<Rightarrow> 'd DumpState" where
  "DumpLocvar w v D = DumpInt w (endpc v) (DumpInt w (startpc v) (DumpString w (varname v) D))"

definition DumpDebug :: "'d writer \<Rightarrow> proto \<Rightarrow> 'd DumpState \<Rightarrow> 'd DumpState" where
  "DumpDebug w f D =
     (let strip = d_strip D;
          D = DumpVector w (if strip then [] else p_lineinfo f) D;
          vs = (if strip then [] else p_locvars f);
          D = fold (DumpLocvar w) vs (DumpInt w (of_nat (length vs)) D);
          us = (if strip then [] else p_upvalues f)
      in fold (DumpString w) us (DumpInt w (of_nat (length us)) D))"

lemma size_proto_sub: "size_list size (p_p f) < size f"
  by (cases f) simp

lemma size_sub: "g \<in> set (p_p f) \<Longrightarrow> size g < size f"
  using size_list_estimation' [of g "p_p f" "size g" size] size_proto_sub [of f] by simp

lemma size_protos [simp]: "Suc (2 * size_list size (p_p f)) < 2 * size f"
  using size_proto_sub [of f] by linarith

text \<open>\<open>DumpFunction\<close> and the loop of \<open>DumpConstants\<close> over the nested prototypes.\<close>

function DumpFunction :: "'d writer \<Rightarrow> proto \<Rightarrow> string option \<Rightarrow> 'd DumpState \<Rightarrow> 'd DumpState"
  and DumpProtos :: "'d writer \<Rightarrow> proto list \<Rightarrow> string option \<Rightarrow> 'd DumpState \<Rightarrow> 'd DumpState" where
  "DumpFunction w f p D =
     (let D = DumpString w (if p_source f = p \<or> d_strip D then None else p_source f) D;
          D = DumpInt w (p_linedefined f) D;
          D = DumpInt w (p_lastlinedefined f) D;
          D = DumpChar w (unat (p_nups f)) D;
          D = DumpChar w (unat (p_numparams f)) D;
          D = DumpChar w (unat (p_is_vararg f)) D;
          D = DumpChar w (unat (p_maxstacksize f)) D;
          D = DumpVector w (p_code f) D;
          D = fold (DumpConstant w) (p_k f) (DumpInt w (of_nat (length (p_k f))) D);
          D = DumpProtos w (p_p f) (p_source f) (DumpInt w (of_nat (length (p_p f))) D)
      in DumpDebug w f D)"
| "DumpProtos w [] p D = D"
| "DumpProtos w (f # fs) p D = DumpProtos w fs p (DumpFunction w f p D)"
  by pat_completeness auto
termination
  by (relation "measure (\<lambda>x. case x of Inl (w, f, p, D) \<Rightarrow> 2 * size f | Inr (w, fs, p, D) \<Rightarrow> 2 * size_list size fs + 1)")
    auto

declare DumpFunction.simps [simp del]

definition luaU_header :: string where
  "luaU_header = CHR 0x1B # ''Lua'' @ map char_of [0x51, 0, 1, 4, 8, 4, 8, 0 :: nat]"

definition luaU_dump :: "'d writer \<Rightarrow> proto \<Rightarrow> 'd \<Rightarrow> bool \<Rightarrow> int \<times> 'd" where
  "luaU_dump w f d strip =
     (let D = DumpFunction w f None (DumpBlock w luaU_header \<lparr>d_data = d, d_strip = strip, d_status = 0\<rparr>)
      in (d_status D, d_data D))"

text \<open>A function on the stack: a Lua function with its prototype, or a C function.\<close>

definition lua_dump :: "'d writer \<Rightarrow> proto option \<Rightarrow> 'd \<Rightarrow> int \<times> 'd" where
  "lua_dump w f d = (case f of Some p \<Rightarrow> luaU_dump w p d False | None \<Rightarrow> (1, d))"

text \<open>\<open>writer\<close> and \<open>str_dump\<close> of \<open>lstrlib.c\<close>, for an argument that is a function.\<close>

definition writer :: "nat \<Rightarrow> luaL_Buffer writer" where
  "writer bufsiz b B = (0, luaL_addlstring bufsiz B b)"

definition str_dump :: "nat \<Rightarrow> proto option \<Rightarrow> lua_results" where
  "str_dump bufsiz f =
     (let (st, b) = lua_dump (writer bufsiz) f luaL_buffinit
      in if st \<noteq> 0 then luaL_error ''unable to dump given function'' else Inr [LStr (luaL_pushresult b)])"

section \<open>The format\<close>

text \<open>The bytes of a chunk, as a specification of what the functions above write.\<close>

definition string_bytes :: "string option \<Rightarrow> string" where
  "string_bytes s = (case s of None \<Rightarrow> le_bytes 8 0 | Some s \<Rightarrow> le_bytes 8 (unat (of_nat (length s + 1) :: 64 word)) @ s @ [NUL])"

definition int_bytes :: "32 word \<Rightarrow> string" where
  "int_bytes x = le_bytes 4 (unat x)"

definition vector_bytes :: "32 word list \<Rightarrow> string" where
  "vector_bytes xs = int_bytes (of_nat (length xs)) @ concat (map int_bytes xs)"

fun const_bytes :: "lconst \<Rightarrow> string" where
  "const_bytes KNil = le_bytes 1 0"
| "const_bytes (KBool b) = le_bytes 1 1 @ le_bytes 1 (of_bool b)"
| "const_bytes (KNumber x) = le_bytes 1 3 @ le_bytes 8 (unat x)"
| "const_bytes (KString s) = le_bytes 1 4 @ string_bytes s"

definition locvar_bytes :: "locvar \<Rightarrow> string" where
  "locvar_bytes v = string_bytes (varname v) @ int_bytes (startpc v) @ int_bytes (endpc v)"

definition list_bytes :: "('a \<Rightarrow> string) \<Rightarrow> 'a list \<Rightarrow> string" where
  "list_bytes f xs = int_bytes (of_nat (length xs)) @ concat (map f xs)"

definition head_bytes :: "proto \<Rightarrow> string" where
  "head_bytes f = int_bytes (p_linedefined f) @ int_bytes (p_lastlinedefined f) @
     le_bytes 1 (unat (p_nups f)) @ le_bytes 1 (unat (p_numparams f)) @
     le_bytes 1 (unat (p_is_vararg f)) @ le_bytes 1 (unat (p_maxstacksize f)) @
     vector_bytes (p_code f) @ list_bytes const_bytes (p_k f)"

definition debug_bytes :: "bool \<Rightarrow> proto \<Rightarrow> string" where
  "debug_bytes strip f =
     (if strip then vector_bytes [] @ list_bytes locvar_bytes [] @ list_bytes string_bytes []
      else vector_bytes (p_lineinfo f) @ list_bytes locvar_bytes (p_locvars f) @ list_bytes string_bytes (p_upvalues f))"

function proto_bytes :: "bool \<Rightarrow> string option \<Rightarrow> proto \<Rightarrow> string" where
  "proto_bytes strip p f =
     string_bytes (if p_source f = p \<or> strip then None else p_source f) @ head_bytes f @
     int_bytes (of_nat (length (p_p f))) @ concat (map (proto_bytes strip (p_source f)) (p_p f)) @
     debug_bytes strip f"
  by pat_completeness auto
termination
proof (relation "measure (\<lambda>(strip, p, f). size f)")
  show "((strip, p_source f, g), strip, p, f) \<in> measure (\<lambda>(strip, p, f). size f)" if "g \<in> set (p_p f)" for strip p f g
    using size_sub [OF that] by simp
qed simp

declare proto_bytes.simps [simp del]

text \<open>
  The header of the format: the signature, version 5.1 of the official format, little endian, an \<open>int\<close> of 4
  bytes, a \<open>size_t\<close> of 8, an instruction of 4 and a number of 8, which is not integral.
\<close>

definition chunk_header :: string where
  "chunk_header = map char_of [0x1B, 0x4C, 0x75, 0x61, 0x51, 0x00, 0x01, 0x04, 0x08, 0x04, 0x08, 0x00 :: nat]"

definition chunk_bytes :: "bool \<Rightarrow> proto \<Rightarrow> string" where
  "chunk_bytes strip f = chunk_header @ proto_bytes strip None f"

lemma chunk_bytes_eq: "chunk_bytes strip f = luaU_header @ proto_bytes strip None f"
proof -
  have "chunk_header = luaU_header"
    by code_simp
  thus ?thesis
    by (simp add: chunk_bytes_def)
qed

section \<open>What a dump writes\<close>

text \<open>
  The interface of a writer, as the dump uses it: a block for which it returns 0 has been appended to
  what was written.
\<close>

locale chunk_writer =
  fixes w :: "'d writer" and written :: "'d \<Rightarrow> string"
  assumes appends: "w b d = (0, d') \<Longrightarrow> written d' = written d @ b"
begin

definition never_fails :: bool where
  "never_fails \<longleftrightarrow> (\<forall>b d. fst (w b d) = 0)"

text \<open>From \<open>D\<close> to \<open>D'\<close>, \<open>b\<close> was written if no block failed, and nothing after one had failed.\<close>

definition wrote :: "string \<Rightarrow> 'd DumpState \<Rightarrow> 'd DumpState \<Rightarrow> bool" where
  "wrote b D D' \<longleftrightarrow> d_strip D' = d_strip D
     \<and> (d_status D' = 0 \<longrightarrow> d_status D = 0 \<and> written (d_data D') = written (d_data D) @ b)
     \<and> (never_fails \<and> d_status D = 0 \<longrightarrow> d_status D' = 0)
     \<and> (d_status D \<noteq> 0 \<longrightarrow> D' = D)"

definition writes :: "bool \<Rightarrow> ('d DumpState \<Rightarrow> 'd DumpState) \<Rightarrow> string \<Rightarrow> bool" where
  "writes strip F b \<longleftrightarrow> (\<forall>D. d_strip D = strip \<longrightarrow> wrote b D (F D))"

lemma wrote_refl: "wrote [] D D"
  by (simp add: wrote_def)

lemma wrote_trans: "wrote b D D' \<Longrightarrow> wrote c D' D'' \<Longrightarrow> wrote (b @ c) D D''"
  unfolding wrote_def by (metis append_assoc)

lemma wrote_strip: "wrote b D D' \<Longrightarrow> d_strip D' = d_strip D"
  unfolding wrote_def by blast

lemma writesD: "writes strip F b \<Longrightarrow> d_strip D = strip \<Longrightarrow> wrote b D (F D)"
  by (simp add: writes_def)

lemma writes_Nil: "writes strip (\<lambda>D. D) []"
  by (simp add: writes_def wrote_refl)

lemma writes_block: "writes strip (DumpBlock w b) b"
  unfolding writes_def
proof (intro allI impI)
  fix D :: "'d DumpState"
  obtain st d where w: "w b (d_data D) = (st, d)" by (cases "w b (d_data D)") auto
  have "never_fails \<Longrightarrow> st = 0" using w unfolding never_fails_def by (metis fst_conv)
  then show "wrote b D (DumpBlock w b D)"
    using w appends [of b "d_data D" d] by (simp add: DumpBlock_def wrote_def)
qed

lemma writes_seq:
  assumes "writes strip F b" and "writes strip G c"
  shows "writes strip (\<lambda>D. G (F D)) (b @ c)"
  unfolding writes_def
proof (intro allI impI)
  fix D :: "'d DumpState"
  assume D: "d_strip D = strip"
  note F = writesD [OF assms(1) D]
  show "wrote (b @ c) D (G (F D))"
    using wrote_trans [OF F writesD [OF assms(2)]] wrote_strip [OF F] D by simp
qed

lemma writes_fold:
  assumes "\<And>x. x \<in> set xs \<Longrightarrow> writes strip (F x) (g x)"
  shows "writes strip (fold F xs) (concat (map g xs))"
  using assms
proof (induction xs)
  case (Cons x xs)
  then show ?case using writes_seq [of strip "F x" "g x" "fold F xs"] by (simp add: comp_def)
qed (simp add: writes_Nil id_def)

lemma writes_eq: "writes strip F b \<Longrightarrow> (\<And>D. d_strip D = strip \<Longrightarrow> F' D = F D) \<Longrightarrow> b = b' \<Longrightarrow> writes strip F' b'"
  by (simp add: writes_def)

lemma writes_int: "writes strip (DumpInt w x) (int_bytes x)"
  unfolding DumpInt_def int_bytes_def by (rule writes_block)

lemma writes_char: "writes strip (DumpChar w y) (le_bytes 1 y)"
  unfolding DumpChar_def by (rule writes_block)

lemma writes_vector: "writes strip (DumpVector w xs) (vector_bytes xs)"
  unfolding DumpVector_def vector_bytes_def int_bytes_def [abs_def]
  by (rule writes_seq [OF writes_int [unfolded int_bytes_def] writes_block])

lemma writes_string: "writes strip (DumpString w s) (string_bytes s)"
  by (cases s)
    (auto simp: DumpString_def [abs_def] string_bytes_def DumpSize_def
      intro: writes_block writes_eq [OF writes_seq [OF writes_block writes_block]])

lemma writes_const: "writes strip (DumpConstant w k) (const_bytes k)"
proof (cases k)
  case KNil
  then show ?thesis using writes_char by (simp add: DumpConstant_def [abs_def] del: le_bytes.simps)
next
  case (KBool b)
  then show ?thesis
    using writes_seq [OF writes_char writes_char] by (simp add: DumpConstant_def [abs_def] del: le_bytes.simps)
next
  case (KNumber x)
  then show ?thesis
    using writes_seq [OF writes_char writes_block]
    by (simp add: DumpConstant_def [abs_def] DumpNumber_def del: le_bytes.simps)
next
  case (KString s)
  then show ?thesis
    using writes_seq [OF writes_char writes_string] by (simp add: DumpConstant_def [abs_def] del: le_bytes.simps)
qed

lemma writes_locvar: "writes strip (DumpLocvar w v) (locvar_bytes v)"
  unfolding DumpLocvar_def [abs_def] locvar_bytes_def
  using writes_seq [OF writes_seq [OF writes_string writes_int] writes_int] by simp

lemma writes_list:
  assumes "\<And>x. writes strip (F x) (g x)"
  shows "writes strip (\<lambda>D. fold F xs (DumpInt w (of_nat (length xs)) D)) (list_bytes g xs)"
  unfolding list_bytes_def by (rule writes_seq [OF writes_int writes_fold]) (rule assms)

lemma writes_debug: "writes strip (DumpDebug w f) (debug_bytes strip f)"
proof -
  have "writes strip (\<lambda>D. fold (DumpString w) us (DumpInt w (of_nat (length us))
      (fold (DumpLocvar w) vs (DumpInt w (of_nat (length vs)) (DumpVector w ls D)))))
    ((vector_bytes ls @ list_bytes locvar_bytes vs) @ list_bytes string_bytes us)" for ls vs us
    by (rule writes_seq [OF writes_seq [OF writes_vector writes_list [OF writes_locvar]] writes_list [OF writes_string]])
  note ws = this
  show ?thesis
    by (rule writes_eq [OF ws [of "if strip then [] else p_upvalues f" "if strip then [] else p_locvars f"
        "if strip then [] else p_lineinfo f"]])
      (simp_all add: DumpDebug_def Let_def debug_bytes_def)
qed

lemma writes_head:
  "writes strip (\<lambda>D. fold (DumpConstant w) (p_k f) (DumpInt w (of_nat (length (p_k f)))
     (DumpVector w (p_code f)
     (DumpChar w (unat (p_maxstacksize f)) (DumpChar w (unat (p_is_vararg f))
     (DumpChar w (unat (p_numparams f)) (DumpChar w (unat (p_nups f))
     (DumpInt w (p_lastlinedefined f) (DumpInt w (p_linedefined f) D))))))))) (head_bytes f)"
  using writes_seq [OF writes_seq [OF writes_seq [OF writes_seq [OF writes_seq [OF writes_seq
    [OF writes_seq [OF writes_int writes_int] writes_char] writes_char] writes_char] writes_char] writes_vector]
    writes_list [OF writes_const]]
  unfolding head_bytes_def append_assoc .

lemma DumpFunction_eq:
  "DumpFunction w f p D =
     DumpDebug w f (DumpProtos w (p_p f) (p_source f) (DumpInt w (of_nat (length (p_p f)))
       (fold (DumpConstant w) (p_k f) (DumpInt w (of_nat (length (p_k f)))
         (DumpVector w (p_code f)
         (DumpChar w (unat (p_maxstacksize f)) (DumpChar w (unat (p_is_vararg f))
         (DumpChar w (unat (p_numparams f)) (DumpChar w (unat (p_nups f))
         (DumpInt w (p_lastlinedefined f) (DumpInt w (p_linedefined f)
           (DumpString w (if p_source f = p \<or> d_strip D then None else p_source f) D)))))))))))) "
  by (simp add: DumpFunction.simps [of w f p D] Let_def)

lemma writes_function:
  "writes strip (DumpFunction w f p) (proto_bytes strip p f)"
proof (induction f arbitrary: p rule: measure_induct_rule [of size])
  case (less f)
  have protos: "writes strip (DumpProtos w fs q) (concat (map (proto_bytes strip q) fs))"
    if "set fs \<subseteq> set (p_p f)" for fs q
    using that
  proof (induction fs)
    case (Cons g fs)
    then have "writes strip (DumpFunction w g q) (proto_bytes strip q g)"
      using less.IH [of g q] size_sub by auto
    from writes_seq [OF this] Cons show ?case by simp
  qed (use writes_Nil in \<open>simp add: writes_def\<close>)
  have all: "writes strip (\<lambda>D. DumpDebug w f (DumpProtos w (p_p f) (p_source f) (DumpInt w (of_nat (length (p_p f)))
       (fold (DumpConstant w) (p_k f) (DumpInt w (of_nat (length (p_k f)))
         (DumpVector w (p_code f)
         (DumpChar w (unat (p_maxstacksize f)) (DumpChar w (unat (p_is_vararg f))
         (DumpChar w (unat (p_numparams f)) (DumpChar w (unat (p_nups f))
         (DumpInt w (p_lastlinedefined f) (DumpInt w (p_linedefined f) (DumpString w s D)))))))))))))
    ((((string_bytes s @ head_bytes f) @ int_bytes (of_nat (length (p_p f)))) @
       concat (map (proto_bytes strip (p_source f)) (p_p f))) @ debug_bytes strip f)" for s
    by (rule writes_seq [OF writes_seq [OF writes_seq [OF writes_seq [OF writes_string writes_head] writes_int]
      protos [OF order_refl]] writes_debug])
  show ?case
    by (rule writes_eq [OF all [of "if p_source f = p \<or> strip then None else p_source f"]])
      (simp_all only: DumpFunction_eq proto_bytes.simps [of strip p f] append_assoc)
qed

lemma dump_function_writes:
  "writes strip (\<lambda>D. DumpFunction w f None (DumpBlock w luaU_header D)) (chunk_bytes strip f)"
  unfolding chunk_bytes_eq by (rule writes_seq [OF writes_block writes_function])

text \<open>If the dump ends with status 0, what was written is the chunk.\<close>

lemma dump_wrote:
  assumes "luaU_dump w f d strip = (st, d')"
  shows "st = 0 \<Longrightarrow> written d' = written d @ chunk_bytes strip f" and "never_fails \<Longrightarrow> st = 0"
  using writesD [OF dump_function_writes, of "\<lparr>d_data = d, d_strip = strip, d_status = 0\<rparr>" strip f] assms
  by (auto simp: wrote_def luaU_dump_def Let_def)

end

section \<open>\<open>string.dump\<close>\<close>

lemma writer_appends: "writer n b B = (0, B') \<Longrightarrow> lb_contents B' = lb_contents B @ b"
  by (auto simp: writer_def contents_addlstring)

interpretation lbw: chunk_writer "writer n" lb_contents for n
  by unfold_locales (rule writer_appends)

lemma str_dump_bytes: "str_dump n (Some f) = Inr [LStr (chunk_bytes False f)]"
proof -
  obtain st B where d: "luaU_dump (writer n) f luaL_buffinit False = (st, B)"
    by (cases "luaU_dump (writer n) f luaL_buffinit False") auto
  have "lbw.never_fails n" by (simp add: lbw.never_fails_def writer_def)
  then have "st = 0" using lbw.dump_wrote(2) [OF d] by simp
  then show ?thesis
    using lbw.dump_wrote(1) [OF d] d
    by (simp add: str_dump_def lua_dump_def pushresult_contents contents_buffinit)
qed

text \<open>
  C39. \<open>string.dump\<close> gives exactly the bytes of the format, header first, in the order in which they
  are loaded: the buffer loses and reorders nothing, and the dump to it does not fail.
\<close>

theorem str_dump_gives_chunk: "str_dump n (Some f) = Inr [LStr (chunk_bytes False f)]"
  by (rule str_dump_bytes)

end
