(* ===== verification/Lua_Undump.thy ===== *)
theory Lua_Undump
  imports Lua_Codesafe Lua_Zio Lua_Dump "HOL-Library.Sublist"
begin

text \<open>
  Loading precompiled chunks, \<open>lundump.c\<close>, on the machine of \<open>Lua_Dump\<close>. \<open>rd\<close> is \<open>luaZ_read\<close> on
  the stream. A load raises a message or returns a value and the stream. The name \<open>S\<close> in a
  message is \<open>S->name\<close>; \<open>calls\<close> is \<open>L->nCcalls\<close> on entry. Memory is enough for what is loaded.
\<close>

section \<open>The load state\<close>

type_synonym 'z reader = "nat \<Rightarrow> 'z \<Rightarrow> nat \<times> string \<times> 'z"
type_synonym ('z, 'a) load = "'z \<Rightarrow> string + 'a \<times> 'z"

definition retL :: "'a \<Rightarrow> ('z, 'a) load" where
  "retL a z = Inr (a, z)"

definition bindL :: "('z, 'a) load \<Rightarrow> ('a \<Rightarrow> ('z, 'b) load) \<Rightarrow> ('z, 'b) load" where
  "bindL m f z = bindE (m z) (\<lambda>(a, z). f a z)"

lemma bindL_cong [fundef_cong]: "m = m' \<Longrightarrow> (\<And>a. f a = g a) \<Longrightarrow> bindL m f = bindL m' g"
  by (simp add: bindL_def fun_eq_iff)

definition load_error :: "string \<Rightarrow> string \<Rightarrow> ('z, 'a) load" where
  "load_error S why z = Inl (S @ '': '' @ why @ '' in precompiled chunk'')"

definition IF :: "bool \<Rightarrow> string \<Rightarrow> string \<Rightarrow> ('z, unit) load" where
  "IF c S why = (if c then load_error S why else retL ())"

fun le_nat :: "string \<Rightarrow> nat" where
  "le_nat [] = 0"
| "le_nat (c # cs) = uc c + 256 * le_nat cs"

definition LoadBlock :: "'z reader \<Rightarrow> string \<Rightarrow> nat \<Rightarrow> ('z, string) load" where
  "LoadBlock rd S n z = (let (r, b, z) = rd n z in bindL (IF (r \<noteq> 0) S ''unexpected end'') (\<lambda>_. retL b) z)"

text \<open>A \<open>char\<close> is signed.\<close>

definition LoadChar :: "'z reader \<Rightarrow> string \<Rightarrow> ('z, int) load" where
  "LoadChar rd S = bindL (LoadBlock rd S 1) (\<lambda>b. retL (sint (of_nat (le_nat b) :: 8 word)))"

definition LoadByte :: "'z reader \<Rightarrow> string \<Rightarrow> ('z, 8 word) load" where
  "LoadByte rd S = bindL (LoadChar rd S) (\<lambda>c. retL (word_of_int c))"

definition LoadInt :: "'z reader \<Rightarrow> string \<Rightarrow> ('z, 32 word) load" where
  "LoadInt rd S = bindL (LoadBlock rd S 4) (\<lambda>b.
     let x = of_nat (le_nat b) in bindL (IF (sint x < 0) S ''bad integer'') (\<lambda>_. retL x))"

definition LoadNumber :: "'z reader \<Rightarrow> string \<Rightarrow> ('z, 64 word) load" where
  "LoadNumber rd S = bindL (LoadBlock rd S 8) (\<lambda>b. retL (of_nat (le_nat b)))"

definition LoadString :: "'z reader \<Rightarrow> string \<Rightarrow> ('z, string option) load" where
  "LoadString rd S = bindL (LoadBlock rd S 8) (\<lambda>b.
     let n = le_nat b in
     if n = 0 then retL None
     else bindL (LoadBlock rd S n) (\<lambda>s. retL (Some (take (n - 1) s))))"

fun words4 :: "nat \<Rightarrow> string \<Rightarrow> 32 word list" where
  "words4 0 b = []"
| "words4 (Suc n) b = of_nat (le_nat (take 4 b)) # words4 n (drop 4 b)"

text \<open>\<open>LoadCode\<close>, and the lines of \<open>LoadDebug\<close>.\<close>

definition LoadVector :: "'z reader \<Rightarrow> string \<Rightarrow> ('z, 32 word list) load" where
  "LoadVector rd S = bindL (LoadInt rd S) (\<lambda>n.
     bindL (LoadBlock rd S (unat n * 4)) (\<lambda>b. retL (words4 (unat n) b)))"

fun load_n :: "('z, 'a) load \<Rightarrow> nat \<Rightarrow> ('z, 'a list) load" where
  "load_n m 0 = retL []"
| "load_n m (Suc n) = bindL m (\<lambda>x. bindL (load_n m n) (\<lambda>xs. retL (x # xs)))"

definition LoadConstant :: "'z reader \<Rightarrow> string \<Rightarrow> ('z, lconst) load" where
  "LoadConstant rd S = bindL (LoadChar rd S) (\<lambda>t.
     if t = 0 then retL KNil
     else if t = 1 then bindL (LoadChar rd S) (\<lambda>c. retL (KBool (c \<noteq> 0)))
     else if t = 3 then bindL (LoadNumber rd S) (\<lambda>x. retL (KNumber x))
     else if t = 4 then bindL (LoadString rd S) (\<lambda>s. retL (KString s))
     else load_error S ''bad constant'')"

definition LoadLocvar :: "'z reader \<Rightarrow> string \<Rightarrow> ('z, locvar) load" where
  "LoadLocvar rd S = bindL (LoadString rd S) (\<lambda>v. bindL (LoadInt rd S) (\<lambda>s. bindL (LoadInt rd S) (\<lambda>e.
     retL \<lparr>varname = v, startpc = s, endpc = e\<rparr>)))"

definition load_list :: "'z reader \<Rightarrow> string \<Rightarrow> ('z, 'a) load \<Rightarrow> ('z, 'a list) load" where
  "load_list rd S m = bindL (LoadInt rd S) (\<lambda>n. load_n m (unat n))"

definition LoadDebug :: "'z reader \<Rightarrow> string \<Rightarrow> ('z, 32 word list \<times> locvar list \<times> string option list) load" where
  "LoadDebug rd S =
     bindL (LoadVector rd S) (\<lambda>ls.
     bindL (load_list rd S (LoadLocvar rd S)) (\<lambda>vs.
     bindL (load_list rd S (LoadString rd S)) (\<lambda>us. retL (ls, vs, us))))"

definition LUAI_MAXCCALLS :: nat where "LUAI_MAXCCALLS = 200"

text \<open>\<open>LoadFunction\<close> and the loop of \<open>LoadConstants\<close> that loads the nested prototypes.\<close>

function LoadFunction :: "'z reader \<Rightarrow> string \<Rightarrow> nat \<Rightarrow> string option \<Rightarrow> ('z, proto) load"
  and LoadProtos :: "'z reader \<Rightarrow> string \<Rightarrow> nat \<Rightarrow> string option \<Rightarrow> nat \<Rightarrow> ('z, proto list) load" where
  "LoadFunction rd S calls p =
     (if calls + 1 > LUAI_MAXCCALLS then load_error S ''code too deep''
      else
        bindL (LoadString rd S) (\<lambda>s. let source = (case s of None \<Rightarrow> p | Some s \<Rightarrow> Some s) in
        bindL (LoadInt rd S) (\<lambda>linedefined.
        bindL (LoadInt rd S) (\<lambda>lastlinedefined.
        bindL (LoadByte rd S) (\<lambda>nups.
        bindL (LoadByte rd S) (\<lambda>numparams.
        bindL (LoadByte rd S) (\<lambda>is_vararg.
        bindL (LoadByte rd S) (\<lambda>maxstacksize.
        bindL (LoadVector rd S) (\<lambda>code.
        bindL (load_list rd S (LoadConstant rd S)) (\<lambda>k.
        bindL (LoadInt rd S) (\<lambda>n.
        bindL (LoadProtos rd S (calls + 1) source (unat n)) (\<lambda>ps.
        bindL (LoadDebug rd S) (\<lambda>(lineinfo, locvars, upvalues).
        let f = Proto k code ps lineinfo locvars upvalues source linedefined lastlinedefined
                  nups numparams is_vararg maxstacksize in
        bindL (IF (luaG_checkcode f \<noteq> Some True) S ''bad code'') (\<lambda>_. retL f))))))))))))))"
| "LoadProtos rd S calls p 0 = retL []"
| "LoadProtos rd S calls p (Suc n) =
     bindL (LoadFunction rd S calls p) (\<lambda>f. bindL (LoadProtos rd S calls p n) (\<lambda>fs. retL (f # fs)))"
  by pat_completeness auto
termination
  by (relation "inv_image (less_than <*lex*> less_than)
      (\<lambda>x. case x of Inl (rd, S, calls, p) \<Rightarrow> (LUAI_MAXCCALLS + 1 - calls, 0)
                   | Inr (rd, S, calls, p, n) \<Rightarrow> (LUAI_MAXCCALLS + 1 - calls, n))") auto

declare LoadFunction.simps [simp del]

definition LoadHeader :: "'z reader \<Rightarrow> string \<Rightarrow> ('z, unit) load" where
  "LoadHeader rd S = bindL (LoadBlock rd S 12) (\<lambda>s. IF (luaU_header \<noteq> s) S ''bad header'')"

definition load_name :: "string \<Rightarrow> string" where
  "load_name name =
     (let n = cstr name in
      if cnth n 0 = CHR ''@'' \<or> cnth n 0 = CHR ''='' then tl n
      else if cnth n 0 = CHR 0x1B then ''binary string''
      else n)"

definition luaU_undump :: "'z reader \<Rightarrow> string \<Rightarrow> nat \<Rightarrow> ('z, proto) load" where
  "luaU_undump rd name calls =
     (let S = load_name name
      in bindL (LoadHeader rd S) (\<lambda>_. LoadFunction rd S calls (Some ''=?'')))"

section \<open>Reading what was written\<close>

lemma le_nat_bytes: "le_nat (le_bytes n x) = x mod 256 ^ n"
proof (induction n arbitrary: x)
  case (Suc n)
  have "le_nat (le_bytes (Suc n) x) = x mod 256 + 256 * (x div 256 mod 256 ^ n)"
    using Suc by simp
  also have "\<dots> = x mod (256 * 256 ^ n)"
    by (simp add: mod_mult2_eq)
  finally show ?case by simp
qed simp

lemma word_bytes:
  "of_nat (le_nat (le_bytes 4 (unat x))) = (x :: 32 word)"
  "of_nat (le_nat (le_bytes 8 (unat y))) = (y :: 64 word)"
  "of_nat (le_nat (le_bytes 1 (unat v))) = (v :: 8 word)"
proof -
  have "unat x < 2 ^ 32" "unat y < 2 ^ 64" "unat v < 2 ^ 8"
    using unsigned_less [of x] unsigned_less [of y] unsigned_less [of v] by simp_all
  then have "unat x mod 256 ^ 4 = unat x" "unat y mod 256 ^ 8 = unat y" "unat v mod 256 ^ 1 = unat v"
    by simp_all
  then show "of_nat (le_nat (le_bytes 4 (unat x))) = (x :: 32 word)"
    "of_nat (le_nat (le_bytes 8 (unat y))) = (y :: 64 word)"
    "of_nat (le_nat (le_bytes 1 (unat v))) = (v :: 8 word)"
    unfolding le_nat_bytes by simp_all
qed

lemma words4_bytes: "words4 (length xs) (concat (map int_bytes xs)) = xs"
proof (induction xs)
  case (Cons x xs)
  have "take 4 (int_bytes x @ r) = int_bytes x" "drop 4 (int_bytes x @ r) = r" for r
    by (simp_all add: int_bytes_def)
  then show ?case using Cons by (simp add: word_bytes(1) int_bytes_def)
qed simp

lemma strict_prefix_append_cases:
  assumes "strict_prefix xs (bs @ cs)"
  obtains "strict_prefix xs bs" | ys where "xs = bs @ ys" and "strict_prefix ys cs"
proof (cases "prefix bs xs")
  case True
  then obtain ys where "xs = bs @ ys" by (auto simp: prefix_def)
  then show ?thesis using assms that(2) by (simp add: strict_prefix_def)
next
  case False
  then have "prefix xs bs" using assms by (metis prefix_same_cases prefixI strict_prefix_def)
  then show ?thesis using False that(1) by (auto simp: strict_prefix_def)
qed

lemma word_sint_inverse: "word_of_int (sint v) = (v :: 8 word)"
  by (metis of_int_sint scast_id)

text \<open>Sizes that the format can hold, and integers that are not negative.\<close>

definition fits_string :: "string option \<Rightarrow> bool" where
  "fits_string s \<longleftrightarrow> (case s of None \<Rightarrow> True | Some s \<Rightarrow> length s + 1 < 2 ^ 64)"

definition fits_list :: "'a list \<Rightarrow> bool" where
  "fits_list xs \<longleftrightarrow> length xs < 2 ^ 31"

fun fits_const :: "lconst \<Rightarrow> bool" where
  "fits_const (KString s) = fits_string s"
| "fits_const _ = True"

definition fits_locvar :: "locvar \<Rightarrow> bool" where
  "fits_locvar v \<longleftrightarrow> fits_string (varname v) \<and> 0 \<le> sint (startpc v) \<and> 0 \<le> sint (endpc v)"

context byte_source
begin

text \<open>
  \<open>m\<close> turns the bytes \<open>bs\<close>, whatever follows them, into \<open>a\<close>, and complains if the stream ends
  within them.
\<close>

definition loads :: "string \<Rightarrow> ('z, 'a) load \<Rightarrow> string \<Rightarrow> 'a \<Rightarrow> bool" where
  "loads S m bs a \<longleftrightarrow> (\<forall>z rest. left z = bs @ rest \<longrightarrow> (\<exists>z'. m z = Inr (a, z') \<and> left z' = rest))
     \<and> (\<forall>z. strict_prefix (left z) bs \<longrightarrow> m z = load_error S ''unexpected end'' z)"

lemma loadsD:
  assumes "loads S m bs a"
  shows "left z = bs @ rest \<Longrightarrow> \<exists>z'. m z = Inr (a, z') \<and> left z' = rest"
    and "strict_prefix (left z) bs \<Longrightarrow> m z = load_error S ''unexpected end'' z"
  using assms unfolding loads_def by blast+

lemma loads_ret: "loads S (retL a) [] a"
  by (simp add: loads_def retL_def)

lemma loads_bind:
  assumes "loads S m bs a" and "loads S (f a) cs b"
  shows "loads S (bindL m f) (bs @ cs) b"
  unfolding loads_def
proof (intro conjI allI impI)
  fix z rest
  assume "left z = (bs @ cs) @ rest"
  then obtain z1 where z1: "m z = Inr (a, z1)" "left z1 = cs @ rest"
    using loadsD(1) [OF assms(1), of z "cs @ rest"] by auto
  then obtain z2 where "f a z1 = Inr (b, z2)" "left z2 = rest"
    using loadsD(1) [OF assms(2)] by blast
  then show "\<exists>z'. bindL m f z = Inr (b, z') \<and> left z' = rest"
    using z1(1) by (simp add: bindL_def)
next
  fix z
  assume "strict_prefix (left z) (bs @ cs)"
  then show "bindL m f z = load_error S ''unexpected end'' z"
  proof (cases rule: strict_prefix_append_cases)
    case 1
    then show ?thesis using loadsD(2) [OF assms(1)] by (simp add: bindL_def load_error_def)
  next
    case (2 ys)
    then obtain z1 where "m z = Inr (a, z1)" "left z1 = ys" using loadsD(1) [OF assms(1)] by blast
    then show ?thesis using loadsD(2) [OF assms(2), of z1] 2(2) by (simp add: bindL_def load_error_def)
  qed
qed

lemma loads_bind_ret:
  assumes "loads S m bs a" and "f a = retL b"
  shows "loads S (bindL m f) bs b"
  using loads_bind [OF assms(1), of f "[]" b] loads_ret [of S b] assms(2) by simp

lemma loads_block:
  assumes "length bs = n"
  shows "loads S (LoadBlock rd S n) bs bs"
  unfolding loads_def
proof (intro conjI allI impI)
  fix z rest
  assume "left z = bs @ rest"
  then obtain z' where "rd n z = (0, bs, z')" "left z' = rest" using rd_exact assms by blast
  then show "\<exists>z'. LoadBlock rd S n z = Inr (bs, z') \<and> left z' = rest"
    by (simp add: LoadBlock_def IF_def bindL_def retL_def)
next
  fix z
  assume "strict_prefix (left z) bs"
  then have "length (left z) < n" using prefix_length_less assms by blast
  moreover obtain missing b z' where "rd n z = (missing, b, z')" by (cases "rd n z") auto
  ultimately show "LoadBlock rd S n z = load_error S ''unexpected end'' z"
    using rd_missing [of n z] by (simp add: LoadBlock_def IF_def bindL_def load_error_def)
qed

lemma loads_byte: "loads S (LoadByte rd S) (le_bytes 1 (unat v)) v"
proof -
  have "loads S (LoadChar rd S) (le_bytes 1 (unat v)) (sint v)"
    unfolding LoadChar_def
    by (rule loads_bind_ret [OF loads_block]) (simp_all add: word_bytes(3) del: le_bytes.simps One_nat_def)
  then show ?thesis
    unfolding LoadByte_def by (rule loads_bind_ret) (simp only: word_sint_inverse)
qed

lemma loads_small_char: "n < 128 \<Longrightarrow> loads S (LoadChar rd S) (le_bytes 1 n) (int n)"
  unfolding LoadChar_def
proof (rule loads_bind_ret [OF loads_block])
  assume n: "n < 128"
  have "sint (word_of_int (int n) :: 8 word) = int n"
    using n by (simp only: sint_sbintrunc') (simp add: signed_take_bit_int_eq_self)
  then show "retL (sint (of_nat (le_nat (le_bytes 1 n)) :: 8 word)) = retL (int n)"
    using n by (simp add: le_nat_bytes del: le_bytes.simps One_nat_def)
qed simp

lemma loads_int: "0 \<le> sint x \<Longrightarrow> loads S (LoadInt rd S) (int_bytes x) x"
  unfolding LoadInt_def int_bytes_def
  by (rule loads_bind_ret [OF loads_block]) (simp_all add: word_bytes(1) IF_def bindL_def retL_def fun_eq_iff)

lemma loads_number: "loads S (LoadNumber rd S) (le_bytes 8 (unat x)) x"
  unfolding LoadNumber_def by (rule loads_bind_ret [OF loads_block]) (simp_all add: word_bytes(2))

lemma loads_string:
  assumes "fits_string s"
  shows "loads S (LoadString rd S) (string_bytes s) s"
proof (cases s)
  case None
  have "le_nat (le_bytes 8 0) = 0" by (simp add: le_nat_bytes)
  then show ?thesis
    unfolding None LoadString_def string_bytes_def
    by (simp add: loads_bind_ret [OF loads_block] del: le_bytes.simps)
next
  case (Some t)
  have n: "le_nat (le_bytes 8 (unat (of_nat (length t + 1) :: 64 word))) = length t + 1"
    using assms Some by (simp add: le_nat_bytes fits_string_def unat_of_nat del: of_nat_Suc)
  have "loads S (bindL (LoadBlock rd S (length t + 1)) (\<lambda>s. retL (Some (take (length t) s)))) (t @ [NUL]) (Some t)"
    by (rule loads_bind_ret [OF loads_block]) simp_all
  then have cont: "loads S (let n = le_nat (le_bytes 8 (unat (of_nat (length t + 1) :: 64 word))) in
      if n = 0 then retL None else bindL (LoadBlock rd S n) (\<lambda>s. retL (Some (take (n - 1) s)))) (t @ [NUL]) (Some t)"
    unfolding n by simp
  show ?thesis
    unfolding Some LoadString_def string_bytes_def option.case by (rule loads_bind [OF loads_block]) (simp, rule cont)
qed

lemma loads_count:
  assumes "fits_list xs"
  shows "loads S (LoadInt rd S) (int_bytes (of_nat (length xs))) (of_nat (length xs))"
    and "unat (of_nat (length xs) :: 32 word) = length xs"
proof -
  have n: "length xs < 2 ^ 31" using assms by (simp add: fits_list_def)
  then have "sint (word_of_int (int (length xs)) :: 32 word) = int (length xs)"
    by (simp only: sint_sbintrunc') (simp add: signed_take_bit_int_eq_self)
  then show "loads S (LoadInt rd S) (int_bytes (of_nat (length xs))) (of_nat (length xs))"
    by (intro loads_int) simp
  show "unat (of_nat (length xs) :: 32 word) = length xs" using n by (simp add: unat_of_nat)
qed

lemma loads_vector:
  assumes "fits_list xs"
  shows "loads S (LoadVector rd S) (vector_bytes xs) xs"
  unfolding LoadVector_def vector_bytes_def
proof (rule loads_bind [OF loads_count(1) [OF assms]])
  have l: "length (concat (map int_bytes xs)) = length xs * 4"
    by (induction xs) (simp_all add: int_bytes_def)
  show "loads S (bindL (LoadBlock rd S (unat (of_nat (length xs) :: 32 word) * 4))
      (\<lambda>b. retL (words4 (unat (of_nat (length xs) :: 32 word)) b))) (concat (map int_bytes xs)) xs"
    by (rule loads_bind_ret [OF loads_block]) (simp_all only: l loads_count(2) [OF assms] words4_bytes)
qed

lemma loads_n:
  assumes "\<And>x. x \<in> set xs \<Longrightarrow> loads S m (g x) x"
  shows "loads S (load_n m (length xs)) (concat (map g xs)) xs"
  using assms
proof (induction xs)
  case (Cons x xs)
  have "loads S (bindL (load_n m (length xs)) (\<lambda>ys. retL (x # ys))) (concat (map g xs)) (x # xs)"
    by (rule loads_bind_ret [where a = xs]) (use Cons in auto)
  then have "loads S (bindL m (\<lambda>y. bindL (load_n m (length xs)) (\<lambda>ys. retL (y # ys))))
      (g x @ concat (map g xs)) (x # xs)"
    by (rule loads_bind [rotated]) (use Cons in simp)
  then show ?case by simp
qed (simp add: loads_ret)

lemma loads_list:
  assumes "fits_list xs" and "\<And>x. x \<in> set xs \<Longrightarrow> loads S m (g x) x"
  shows "loads S (load_list rd S m) (list_bytes g xs) xs"
  unfolding load_list_def list_bytes_def
  by (rule loads_bind [OF loads_count(1) [OF assms(1)]]) (simp only: loads_count(2) [OF assms(1)] loads_n [OF assms(2)])

lemma loads_const:
  assumes "fits_const k"
  shows "loads S (LoadConstant rd S) (const_bytes k) k"
proof (cases k)
  case KNil
  show ?thesis
    unfolding LoadConstant_def KNil const_bytes.simps
    by (rule loads_bind_ret [OF loads_small_char]) simp_all
next
  case (KBool b)
  have "loads S (bindL (LoadChar rd S) (\<lambda>c. retL (KBool (c \<noteq> 0)))) (le_bytes 1 (of_bool b)) (KBool b)"
    by (rule loads_bind_ret [OF loads_small_char]) (cases b; simp)+
  then show ?thesis
    unfolding LoadConstant_def KBool const_bytes.simps
    by (intro loads_bind [OF loads_small_char]) (simp_all del: le_bytes.simps)
next
  case (KNumber x)
  have "loads S (bindL (LoadNumber rd S) (\<lambda>x. retL (KNumber x))) (le_bytes 8 (unat x)) (KNumber x)"
    by (rule loads_bind_ret [OF loads_number]) simp
  then show ?thesis
    unfolding LoadConstant_def KNumber const_bytes.simps
    by (intro loads_bind [OF loads_small_char]) (simp_all del: le_bytes.simps)
next
  case (KString s)
  have "loads S (bindL (LoadString rd S) (\<lambda>s. retL (KString s))) (string_bytes s) (KString s)"
    by (rule loads_bind_ret [OF loads_string]) (use assms KString in simp_all)
  then show ?thesis
    unfolding LoadConstant_def KString const_bytes.simps
    by (intro loads_bind [OF loads_small_char]) (simp_all del: le_bytes.simps)
qed

lemma loads_locvar:
  assumes "fits_locvar v"
  shows "loads S (LoadLocvar rd S) (locvar_bytes v) v"
  unfolding LoadLocvar_def locvar_bytes_def
  by (rule loads_bind [OF loads_string loads_bind [OF loads_int loads_bind_ret [OF loads_int]]])
    (use assms in \<open>auto simp: fits_locvar_def retL_def\<close>)

end

end
