(* ===== verification/Lua_Objname.thy ===== *)
theory Lua_Objname
  imports Lua_Codesafe
begin

text \<open>
  How an error message finds the name of the value that caused it: \<open>getobjname\<close> of \<open>ldebug.c\<close>
  (with \<open>luaF_getlocalname\<close> of \<open>lfunc.c\<close>), which runs the code symbolically up to the current
  instruction. The call frame is one of a Lua function; \<open>None\<close> is undefined behaviour.
\<close>

section \<open>The functions\<close>

definition getstr :: "string option \<Rightarrow> string checked" where
  "getstr s = map_option Some s"

fun luaF_getlocalname :: "locvar list \<Rightarrow> nat \<Rightarrow> nat \<Rightarrow> string checked" where
  "luaF_getlocalname [] local_number pc = Some None"
| "luaF_getlocalname (v # vs) local_number pc =
     (if int pc < sint (startpc v) then Some None
      else if int pc < sint (endpc v) then
        (if local_number = 1 then getstr (varname v) else luaF_getlocalname vs (local_number - 1) pc)
      else luaF_getlocalname vs local_number pc)"

definition svalue :: "lconst \<Rightarrow> string checked" where
  "svalue k = (case k of KString s \<Rightarrow> getstr s | _ \<Rightarrow> None)"

definition kname :: "proto \<Rightarrow> nat \<Rightarrow> string checked" where
  "kname p c =
     (if ISK c then bindC (nth_at (p_k p) (INDEXK c)) (\<lambda>k. if is_kstring k then svalue k else retC ''?'')
      else retC ''?'')"

definition named :: "string \<Rightarrow> string checked \<Rightarrow> (string \<times> string) checked" where
  "named what r = bindC r (\<lambda>name. retC (what, name))"

text \<open>The instruction that last changed the register; a failed check of \<open>symbexec\<close> returns 0.\<close>

definition changed_by :: "proto \<Rightarrow> nat \<Rightarrow> nat \<Rightarrow> instruction option" where
  "changed_by p pc stackpos =
     (case symbexec p pc stackpos of None \<Rightarrow> None | Some None \<Rightarrow> Some 0 | Some (Some i) \<Rightarrow> Some i)"

lemma symb_step_change:
  assumes "symb_step pt lastpc reg pc lst = retC (pc', lst')" and "lst' \<noteq> lst"
  shows "lst' = pc" and "GET_OPCODE (p_code pt ! pc) = OP_MOVE \<Longrightarrow> GETARG_A (p_code pt ! pc) = reg"
proof -
  show "lst' = pc" using symb_step_last [OF assms(1)] assms(2) by simp
  show "GETARG_A (p_code pt ! pc) = reg" if "GET_OPCODE (p_code pt ! pc) = OP_MOVE"
    using assms that by (auto simp: symb_step_def bindC_Some Let_def symb_op_def split: if_splits)
qed

lemma symb_loop_change:
  assumes "symb_loop pt lastpc reg pc lst = retC l" and "l \<noteq> lst"
  shows "\<exists>l0 r. symb_step pt lastpc reg l l0 = retC r
    \<and> (GET_OPCODE (p_code pt ! l) = OP_MOVE \<longrightarrow> GETARG_A (p_code pt ! l) = reg)"
  using assms
proof (induction pt lastpc reg pc lst rule: symb_loop.induct)
  case (1 pt lastpc reg pc lst)
  note eq = symb_loop.simps [of pt lastpc reg pc lst]
  have lt: "pc < lastpc" using 1(2,3) eq by (auto split: if_splits)
  then obtain pc' lst' where st: "symb_step pt lastpc reg pc lst = retC (pc', lst')"
    and rec: "symb_loop pt lastpc reg (pc' + 1) lst' = retC l"
    using 1(2) eq by (auto simp: bindC_Some)
  show ?case
  proof (cases "l = lst'")
    case True
    then show ?thesis using symb_step_change [OF st] st 1(3) by auto
  next
    case False
    then show ?thesis using 1(1) [OF lt st refl rec] by blast
  qed
qed

lemma changed_by_cases:
  assumes "changed_by p pc stackpos = Some i"
  obtains "i = 0" | "GET_OPCODE i = OP_RETURN"
    | l l0 r where "i = p_code p ! l" and "l < sizecode p" and "symb_step p pc stackpos l l0 = retC r"
        and "GET_OPCODE i = OP_MOVE \<Longrightarrow> GETARG_A i = stackpos"
proof (cases "symbexec p pc stackpos")
  case (Some r)
  show ?thesis
  proof (cases r)
    case None
    then show ?thesis using assms Some that(1) by (simp add: changed_by_def)
  next
    case (Some j)
    then have ij: "i = j" and "symbexec p pc stackpos = retC j"
      using assms \<open>symbexec p pc stackpos = Some r\<close> by (simp_all add: changed_by_def)
    then obtain l where pre: "precheck p = retC ()"
      and l: "symb_loop p pc stackpos 0 (sizecode p - 1) = retC l" "l < sizecode p" and i: "i = p_code p ! l"
      by (auto simp: symbexec_def bindC_Some)
    show ?thesis
    proof (cases "l = sizecode p - 1")
      case True
      then show ?thesis using precheck_returns [OF pre] i that(2) by (simp add: returns_last_def)
    next
      case False
      from symb_loop_change [OF l(1) this] obtain l0 r where "symb_step p pc stackpos l l0 = retC r"
        and "GET_OPCODE (p_code p ! l) = OP_MOVE \<longrightarrow> GETARG_A (p_code p ! l) = stackpos"
        by (elim exE conjE) (rule that)
      then show ?thesis using that(3) [of l l0 r] l(2) i by simp
    qed
  qed
qed (use assms in \<open>simp add: changed_by_def\<close>)

lemma fields_0 [simp]: "GET_OPCODE 0 = 0" "GETARG_A 0 = 0" "GETARG_B 0 = 0"
  by (simp_all add: fields)

lemma move_changes:
  assumes "changed_by p pc stackpos = Some i" and "GET_OPCODE i = OP_MOVE" and "GETARG_B i < GETARG_A i"
  shows "GETARG_B i < stackpos"
  using assms(1) by (rule changed_by_cases) (use assms(2,3) in auto)

function getobjname :: "proto \<Rightarrow> nat \<Rightarrow> nat \<Rightarrow> (string \<times> string) checked" where
  "getobjname p pc stackpos =
     (case luaF_getlocalname (p_locvars p) (stackpos + 1) pc of
        None \<Rightarrow> None
      | Some (Some name) \<Rightarrow> retC (''local'', name)
      | Some None \<Rightarrow>
          (case changed_by p pc stackpos of
             None \<Rightarrow> None
           | Some i \<Rightarrow>
               let x = GET_OPCODE i in
               if x = OP_GETGLOBAL then named ''global'' (bindC (nth_at (p_k p) (GETARG_Bx i)) svalue)
               else if x = OP_MOVE then
                 (if GETARG_B i < GETARG_A i then getobjname p pc (GETARG_B i) else Some None)
               else if x = OP_GETTABLE then named ''field'' (kname p (GETARG_C i))
               else if x = OP_GETUPVAL then
                 named ''upvalue''
                   (if p_upvalues p = [] then retC ''?'' else bindC (nth_at (p_upvalues p) (GETARG_B i)) getstr)
               else if x = OP_SELF then named ''method'' (kname p (GETARG_C i))
               else Some None))"
  by pat_completeness auto
termination
  by (relation "measure (\<lambda>(p, pc, stackpos). stackpos)") (auto simp: move_changes)

declare getobjname.simps [simp del]

section \<open>It reads only what there is\<close>

text \<open>Names that are there are not NULL, and there are names for all upvalues or for none.\<close>

definition names_present :: "proto \<Rightarrow> bool" where
  "names_present p \<longleftrightarrow> KString None \<notin> set (p_k p) \<and> None \<notin> set (p_upvalues p)
     \<and> list_all (\<lambda>v. varname v \<noteq> None) (p_locvars p)
     \<and> (p_upvalues p = [] \<or> length (p_upvalues p) = unat (p_nups p))"

lemma getlocalname_ok: "list_all (\<lambda>v. varname v \<noteq> None) vs \<Longrightarrow> luaF_getlocalname vs n pc \<noteq> None"
  by (induction vs n pc rule: luaF_getlocalname.induct) (auto simp: getstr_def)

lemma svalue_ok:
  assumes "names_present p" and "k < length (p_k p)" and "is_kstring (p_k p ! k)"
  shows "in_bounds (svalue (p_k p ! k))"
proof -
  have "p_k p ! k \<noteq> KString None" using nth_mem [OF assms(2)] assms(1) unfolding names_present_def by metis
  then show ?thesis using assms(3) by (auto simp: svalue_def getstr_def is_kstring_def in_bounds_def split: lconst.splits)
qed

lemma kname_ok:
  assumes "names_present p" and "access_ok p (RK c)"
  shows "in_bounds (kname p c)"
  using assms by (auto simp: kname_def RK_def svalue_ok)

lemma step_operands:
  assumes "symb_step p pc reg l l0 = retC r" and "i = p_code p ! l"
  shows "GET_OPCODE i = OP_GETGLOBAL \<Longrightarrow> access_ok p (Name (GETARG_Bx i))"
    and "GET_OPCODE i \<in> {OP_GETTABLE, OP_SELF} \<Longrightarrow> access_ok p (RK (GETARG_C i))"
    and "GET_OPCODE i = OP_GETUPVAL \<Longrightarrow> GETARG_B i < unat (p_nups p)"
proof -
  obtain b c lst where op: "operands p l (GET_OPCODE i) i = retC (b, c)"
    and so: "symb_op p pc reg l lst (GET_OPCODE i) (int (GETARG_A i)) b c = retC r"
    using assms by (auto simp: symb_step_def bindC_Some Let_def)
  note abc = operands_ABC [OF op] and bx = operands_Bx [OF op]
  show "access_ok p (Name (GETARG_Bx i))" if "GET_OPCODE i = OP_GETGLOBAL"
    using that so bx by (auto simp: symb_op_def bindC_Some)
  show "access_ok p (RK (GETARG_C i))" if "GET_OPCODE i \<in> {OP_GETTABLE, OP_SELF}"
    using that abc by auto
  show "GETARG_B i < unat (p_nups p)" if "GET_OPCODE i = OP_GETUPVAL"
    using that so abc by (auto simp: symb_op_def bindC_Some simp del: of_nat_unat)
qed

lemma upvalue_name_ok:
  assumes "names_present p" and "u < unat (p_nups p)" and "p_upvalues p \<noteq> []"
  shows "in_bounds (bindC (nth_at (p_upvalues p) u) getstr)"
proof -
  have "u < length (p_upvalues p)" using assms by (simp add: names_present_def)
  moreover from nth_mem [OF this] have "p_upvalues p ! u \<noteq> None"
    using assms(1) unfolding names_present_def by metis
  ultimately show ?thesis by (simp add: getstr_def nth_at_def in_bounds_def)
qed

lemma in_bounds_named [simp]: "in_bounds (named what r) \<longleftrightarrow> in_bounds r"
  by (simp add: named_def)

lemma getobjname_ok:
  assumes "names_present p" and "pc \<le> sizecode p"
  shows "in_bounds (getobjname p pc stackpos)"
  using assms
proof (induction p pc stackpos rule: getobjname.induct)
  case (1 p pc stackpos)
  note eq = getobjname.simps [of p pc stackpos]
  have "luaF_getlocalname (p_locvars p) (stackpos + 1) pc \<noteq> None"
    using getlocalname_ok 1(2) by (simp add: names_present_def)
  then obtain nm where nm: "luaF_getlocalname (p_locvars p) (stackpos + 1) pc = Some nm" by blast
  show ?case
  proof (cases nm)
    case None
    have "changed_by p pc stackpos \<noteq> None"
      using symbexec_reads [OF 1(3), of stackpos] by (auto simp: changed_by_def in_bounds_def split: option.splits)
    then obtain i where i: "changed_by p pc stackpos = Some i" by blast
    have ih: "in_bounds (getobjname p pc (GETARG_B i))" if "GET_OPCODE i = OP_MOVE" "GETARG_B i < GETARG_A i"
      using 1(1) [OF nm None i refl _ that] that 1(2,3) by simp
    from i show ?thesis
    proof (cases rule: changed_by_cases)
      case (3 l l0 r)
      note ops = step_operands [OF 3(3,1)]
      show ?thesis
        unfolding eq using nm None i ih ops 1(2) kname_ok [OF 1(2)] svalue_ok [OF 1(2)]
          upvalue_name_ok [OF 1(2), of "GETARG_B i"] by (auto simp: Let_def)
    qed (use eq nm None i in \<open>simp_all add: Let_def\<close>)
  qed (use eq nm in simp)
qed

text \<open>
  C17. The search for the name of a value ends (each step of it goes to a lower register) and stays inside
  the arrays of the prototype, wherever in the code the error was and whatever the code, provided that no
  name is missing: the constants and local variables that are strings are not NULL and there are no
  upvalue names, or as many as upvalues (\<open>names_present\<close>). The compiler gives such prototypes; the loader and the
  checker do not ask for it, and without it names are read that are not there (\<open>upvalue_name_outside\<close>).
\<close>

theorem getobjname_reads_names:
  assumes "names_present p" and "pc \<le> sizecode p"
  shows "getobjname p pc stackpos \<noteq> None"
  using getobjname_ok [OF assms] by (simp add: in_bounds_def)

lemma getobjname_reads_names_witness: "getobjname loop_proto 5 3 \<noteq> None"
  by (rule getobjname_reads_names) (simp_all add: names_present_def loop_proto_def)

text \<open>
  A prototype may have fewer upvalue names than upvalues (\<open>precheck\<close> allows it), and then the name
  of an upvalue is read past the end of \<open>upvalues\<close>.
\<close>

definition few_names :: proto where
  "few_names = Proto [] [CREATE_ABC OP_GETUPVAL 0 1 0, CREATE_ABC OP_CALL 0 1 1, CREATE_ABC OP_RETURN 0 1 0]
     [] [] [] [Some ''x''] None 0 0 2 0 0 1"

lemma upvalue_name_outside: "luaG_checkcode few_names = Some True" and "getobjname few_names 1 0 = None"
proof -
  show "luaG_checkcode few_names = Some True"
    by (simp add: checker_defs few_names_def cong: bindC_weak_cong)
  have "changed_by few_names 1 0 = Some (CREATE_ABC OP_GETUPVAL 0 1 0)"
    by (simp add: changed_by_def checker_defs few_names_def cong: bindC_weak_cong)
  then show "getobjname few_names 1 0 = None"
    by (simp add: getobjname.simps create_ABC_fields few_names_def named_def nth_at_def)
qed

end
