(* ===== verification/Lua_Chunk.thy ===== *)
theory Lua_Chunk
  imports Lua_Undump Lua_Objname
begin

text \<open>
  Chunks there and back: what \<open>luaU_dump\<close> (\<open>ldump.c\<close>) writes, \<open>luaU_undump\<close> (\<open>lundump.c\<close>) reads
  back, for any way in which the stream cuts the bytes into blocks; and whatever the bytes, what
  is loaded has been checked, the nested prototypes with it.
\<close>

section \<open>Prototypes and their nested ones\<close>

fun all_protos :: "(proto \<Rightarrow> bool) \<Rightarrow> proto \<Rightarrow> bool" where
  "all_protos P (Proto k code ps li vs us s ld lld nu np va ms) \<longleftrightarrow>
     P (Proto k code ps li vs us s ld lld nu np va ms) \<and> list_all (all_protos P) ps"

lemma all_protos_eq: "all_protos P f \<longleftrightarrow> P f \<and> list_all (all_protos P) (p_p f)"
  by (cases f) simp

fun depth :: "proto \<Rightarrow> nat" where
  "depth (Proto k code ps li vs us s ld lld nu np va ms) = Suc (foldr max (map depth ps) 0)"

lemma depth_eq: "depth f = Suc (foldr max (map depth (p_p f)) 0)"
  by (cases f) simp

lemma foldr_max_le: "x \<in> set xs \<Longrightarrow> x \<le> foldr max xs (0::nat)"
  by (induction xs) auto

lemma depth_sub: "g \<in> set (p_p f) \<Longrightarrow> depth g < depth f"
  using foldr_max_le [of "depth g" "map depth (p_p f)"] by (cases f) (auto simp: less_Suc_eq_le)

lemma depth_pos: "0 < depth f"
  by (cases f) simp

text \<open>A prototype without its debug information; \<open>q\<close> is the source it gets when it is loaded.\<close>

fun strip_proto :: "string option \<Rightarrow> proto \<Rightarrow> proto" where
  "strip_proto q (Proto k code ps li vs us s ld lld nu np va ms) =
     Proto k code (map (strip_proto q) ps) [] [] [] q ld lld nu np va ms"

section \<open>The checker does not look at debug information\<close>

definition same_code :: "proto \<Rightarrow> proto \<Rightarrow> bool" where
  "same_code f g \<longleftrightarrow> p_code g = p_code f \<and> p_k g = p_k f \<and> map p_nups (p_p g) = map p_nups (p_p f)
     \<and> p_nups g = p_nups f \<and> p_numparams g = p_numparams f \<and> p_is_vararg g = p_is_vararg f
     \<and> p_maxstacksize g = p_maxstacksize f"

lemma nups_strip [simp]: "p_nups (strip_proto q f) = p_nups f"
  by (cases f) simp

lemma same_code_strip: "same_code f (strip_proto q f)"
  by (cases f) (simp add: same_code_def)

lemma same_code_length: "same_code f g \<Longrightarrow> length (p_p g) = length (p_p f)"
  unfolding same_code_def by (metis length_map)

lemma same_code_nups:
  assumes "same_code f g" and "n < length (p_p f)"
  shows "p_nups (p_p g ! n) = p_nups (p_p f ! n)"
  using assms same_code_length [OF assms(1)] unfolding same_code_def by (metis nth_map)

lemma same_code_simps:
  assumes "same_code f g"
  shows "p_code g = p_code f" and "p_k g = p_k f" and "p_nups g = p_nups f" and "p_numparams g = p_numparams f"
    and "p_is_vararg g = p_is_vararg f" and "p_maxstacksize g = p_maxstacksize f" and "length (p_p g) = length (p_p f)"
  using assms same_code_length [OF assms] by (simp_all add: same_code_def)

lemma setlist_run_same: "same_code f g \<Longrightarrow> setlist_run g d = setlist_run f d"
  by (induction d) (simp_all add: same_code_simps cong: if_cong)

lemma check_captures_same: "same_code f g \<Longrightarrow> check_captures g pc n = check_captures f pc n"
  by (induction n arbitrary: pc) (simp_all add: same_code_simps)

lemma operands_same: "same_code f g \<Longrightarrow> operands g pc x i = operands f pc x i"
  by (simp add: operands_def checkArgMode_def checkreg_def check_dest_def same_code_simps [of f g]
      setlist_run_same [of f g] cong: if_cong)

lemma closure_same:
  assumes "same_code f g"
  shows "bindC (check (b < int (length (p_p g)))) (\<lambda>_. bindC (nth_at (p_p g) (nat b)) (\<lambda>p. F (p_nups p)))
       = bindC (check (b < int (length (p_p f)))) (\<lambda>_. bindC (nth_at (p_p f) (nat b)) (\<lambda>p. F (p_nups p)))"
  using same_code_nups [OF assms, of "nat b"]
  by (cases "nat b < length (p_p f)") (simp_all add: nth_at_def same_code_simps [OF assms])

lemma symb_op_same:
  assumes "same_code f g"
  shows "symb_op g lastpc reg pc lst x a b c = symb_op f lastpc reg pc lst x a b c"
  unfolding symb_op_def Let_def symb_jump_def checkreg_def checkopenop_def same_code_simps [OF assms]
    check_captures_same [OF assms]
  using closure_same [OF assms, unfolded same_code_simps [OF assms]]
  by (auto cong: if_cong)

lemma symb_step_same: "same_code f g \<Longrightarrow> symb_step g lastpc reg pc lst = symb_step f lastpc reg pc lst"
  by (simp add: symb_step_def same_code_simps [of f g] operands_same [of f g] symb_op_same [of f g] checkreg_def
      cong: if_cong)

lemma symb_loop_same: "same_code f g \<Longrightarrow> symb_loop g lastpc reg pc lst = symb_loop f lastpc reg pc lst"
proof (induction f lastpc reg pc lst rule: symb_loop.induct)
  case (1 f lastpc reg pc lst)
  note eqs = symb_loop.simps [of f lastpc reg pc lst] symb_loop.simps [of g lastpc reg pc lst]
  show ?case
  proof (cases "pc < lastpc")
    case True
    have "bindC (symb_step f lastpc reg pc lst) (\<lambda>(pc, lst). symb_loop g lastpc reg (pc + 1) lst)
        = bindC (symb_step f lastpc reg pc lst) (\<lambda>(pc, lst). symb_loop f lastpc reg (pc + 1) lst)"
      by (rule bindC_cong [OF refl]) (use 1(1) [OF True _ refl 1(2)] in auto)
    then show ?thesis using True eqs symb_step_same [OF 1(2)] by simp
  qed (use eqs in simp)
qed

lemma precheck_same:
  assumes "same_code f g" and "precheck f = retC ()"
    and "length (p_upvalues g) \<le> unat (p_nups g)" and "p_lineinfo g = []"
  shows "precheck g = retC ()"
  using assms by (auto simp: precheck_def bindC_Some same_code_simps)

lemma checkcode_strip:
  assumes "luaG_checkcode f = Some True"
  shows "luaG_checkcode (strip_proto q f) = Some True"
proof -
  note same = same_code_strip [of f q]
  have "precheck f = retC ()" using assms by (rule checkcode_True)
  then have "precheck (strip_proto q f) = precheck f"
    using precheck_same [OF same] by (cases f) simp
  then have "symbexec (strip_proto q f) lastpc reg = symbexec f lastpc reg" for lastpc reg
    by (simp add: symbexec_def symb_loop_same [OF same] same_code_simps [OF same])
  then show ?thesis using assms by (simp add: luaG_checkcode_def same_code_simps [OF same])
qed

section \<open>There and back\<close>

definition fits_proto :: "proto \<Rightarrow> bool" where
  "fits_proto f \<longleftrightarrow> fits_list (p_k f) \<and> fits_list (p_code f) \<and> fits_list (p_p f) \<and> fits_list (p_lineinfo f)
     \<and> fits_list (p_locvars f) \<and> fits_list (p_upvalues f) \<and> fits_string (p_source f)
     \<and> list_all fits_const (p_k f) \<and> list_all fits_locvar (p_locvars f) \<and> list_all fits_string (p_upvalues f)
     \<and> 0 \<le> sint (p_linedefined f) \<and> 0 \<le> sint (p_lastlinedefined f)"

text \<open>What a prototype is after it was dumped and loaded.\<close>

definition reloaded :: "bool \<Rightarrow> string option \<Rightarrow> proto \<Rightarrow> proto" where
  "reloaded strip q f = (if strip then strip_proto q f else f)"

definition dumpable :: "bool \<Rightarrow> proto \<Rightarrow> bool" where
  "dumpable strip f \<longleftrightarrow> fits_proto f \<and> luaG_checkcode f = Some True \<and> (strip \<or> p_source f \<noteq> None)"

lemma reloaded_checked: "luaG_checkcode f = Some True \<Longrightarrow> luaG_checkcode (reloaded strip q f) = Some True"
  by (simp add: reloaded_def checkcode_strip)

lemma reloaded_id [simp]: "reloaded False q = (\<lambda>f. f)"
  by (simp add: reloaded_def fun_eq_iff)

lemma reloaded_eq:
  "reloaded strip q f = Proto (p_k f) (p_code f)
     (map (reloaded strip (if strip then q else p_source f)) (p_p f))
     (if strip then [] else p_lineinfo f) (if strip then [] else p_locvars f) (if strip then [] else p_upvalues f)
     (if strip then q else p_source f) (p_linedefined f) (p_lastlinedefined f)
     (p_nups f) (p_numparams f) (p_is_vararg f) (p_maxstacksize f)"
  by (cases f) (simp add: reloaded_def)

context byte_source
begin

lemma loads_debug:
  assumes "fits_proto f"
  shows "loads S (LoadDebug rd S) (debug_bytes strip f)
    (if strip then [] else p_lineinfo f, if strip then [] else p_locvars f, if strip then [] else p_upvalues f)"
proof -
  have "loads S (LoadDebug rd S) (vector_bytes ls @ list_bytes locvar_bytes vs @ list_bytes string_bytes us) (ls, vs, us)"
    if "fits_list ls" "fits_list vs" "fits_list us" "list_all fits_locvar vs" "list_all fits_string us" for ls vs us
    unfolding LoadDebug_def
    by (rule loads_bind [OF loads_vector loads_bind [OF loads_list loads_bind_ret [OF loads_list]]])
      (use that loads_locvar loads_string in \<open>auto simp: list_all_iff\<close>)
  from this [of "if strip then [] else p_lineinfo f" "if strip then [] else p_locvars f" "if strip then [] else p_upvalues f"]
  show ?thesis
    using assms by (cases strip) (simp_all add: fits_proto_def debug_bytes_def fits_list_def)
qed

lemma loads_protos:
  assumes "\<And>g. g \<in> set fs \<Longrightarrow> loads S (LoadFunction rd S calls q) (bytes g) (h g)"
  shows "loads S (LoadProtos rd S calls q (length fs)) (concat (map bytes fs)) (map h fs)"
  using assms
proof (induction fs)
  case (Cons g fs)
  have "loads S (bindL (LoadProtos rd S calls q (length fs)) (\<lambda>fs'. retL (h g # fs'))) (concat (map bytes fs)) (map h (g # fs))"
    by (rule loads_bind_ret [where a = "map h fs"]) (use Cons in auto)
  then have "loads S (bindL (LoadFunction rd S calls q) (\<lambda>f. bindL (LoadProtos rd S calls q (length fs)) (\<lambda>fs'. retL (f # fs'))))
      (bytes g @ concat (map bytes fs)) (map h (g # fs))"
    by (rule loads_bind [rotated]) (use Cons in simp)
  then show ?case by simp
qed (simp add: loads_ret)

lemma loads_function:
  assumes "all_protos (dumpable strip) f" and "calls + depth f \<le> LUAI_MAXCCALLS"
    and "strip \<or> (p_source f = p \<longrightarrow> q = p)"
  shows "loads S (LoadFunction rd S calls q) (proto_bytes strip p f) (reloaded strip q f)"
  using assms
proof (induction f arbitrary: calls p q rule: measure_induct_rule [of size])
  case (less f)
  define s where "s = (if p_source f = p \<or> strip then None else p_source f)"
  define src where "src = (case s of None \<Rightarrow> q | Some s \<Rightarrow> Some s)"
  have ok: "dumpable strip f" using less.prems(1) by (simp add: all_protos_eq)
  then have fits: "fits_proto f" by (simp add: dumpable_def)
  have src: "src = (if strip then q else p_source f)"
    using ok less.prems(3) by (auto simp: src_def s_def dumpable_def split: option.splits)
  have calls: "\<not> calls + 1 > LUAI_MAXCCALLS" using less.prems(2) depth_pos [of f] by simp
  have protos: "loads S (LoadProtos rd S (calls + 1) src (length (p_p f)))
      (concat (map (proto_bytes strip (p_source f)) (p_p f))) (map (reloaded strip src) (p_p f))"
  proof (rule loads_protos)
    fix g
    assume g: "g \<in> set (p_p f)"
    show "loads S (LoadFunction rd S (calls + 1) src) (proto_bytes strip (p_source f) g) (reloaded strip src g)"
      using less.prems(1,2) depth_sub [OF g] g src
      by (intro less.IH [OF size_sub [OF g]]) (auto simp: all_protos_eq [of _ f] list_all_iff)
  qed
  have final: "loads S (bindL (LoadDebug rd S) (\<lambda>(lineinfo, locvars, upvalues).
        bindL (IF (luaG_checkcode (Proto (p_k f) (p_code f) (map (reloaded strip src) (p_p f)) lineinfo locvars upvalues
            src (p_linedefined f) (p_lastlinedefined f) (p_nups f) (p_numparams f) (p_is_vararg f) (p_maxstacksize f))
            \<noteq> Some True) S ''bad code'')
          (\<lambda>_. retL (Proto (p_k f) (p_code f) (map (reloaded strip src) (p_p f)) lineinfo locvars upvalues
            src (p_linedefined f) (p_lastlinedefined f) (p_nups f) (p_numparams f) (p_is_vararg f) (p_maxstacksize f)))))
      (debug_bytes strip f) (reloaded strip q f)"
    by (rule loads_bind_ret [OF loads_debug [OF fits]])
      (use reloaded_checked [of f strip q] ok in
        \<open>simp add: src reloaded_eq [of strip q f] dumpable_def IF_def bindL_def retL_def fun_eq_iff\<close>)
  have parts: "fits_string s" "0 \<le> sint (p_linedefined f)" "0 \<le> sint (p_lastlinedefined f)"
    "fits_list (p_code f)" "fits_list (p_k f)" "fits_list (p_p f)" "\<And>k. k \<in> set (p_k f) \<Longrightarrow> fits_const k"
    using fits by (auto simp: fits_proto_def s_def fits_string_def list_all_iff)
  show ?case
    unfolding LoadFunction.simps [of rd S calls q] proto_bytes.simps [of strip p f] head_bytes_def append_assoc
      Let_def if_not_P [OF calls] s_def [symmetric]
    apply (rule loads_bind [OF loads_string [OF parts(1)]])
    unfolding src_def [symmetric]
    apply (rule loads_bind [OF loads_int [OF parts(2)]])
    apply (rule loads_bind [OF loads_int [OF parts(3)]])
    apply (rule loads_bind [OF loads_byte])+
    apply (rule loads_bind [OF loads_vector [OF parts(4)]])
    apply (rule loads_bind [OF loads_list [OF parts(5)]], erule loads_const [OF parts(7)])
    apply (rule loads_bind [OF loads_count(1) [OF parts(6)]])
    unfolding loads_count(2) [OF parts(6)]
    apply (rule loads_bind [OF protos])
    apply (rule final)
    done
qed

lemma loads_undump:
  assumes "all_protos (dumpable strip) f" and "calls + depth f \<le> LUAI_MAXCCALLS"
  shows "loads (load_name name) (luaU_undump rd name calls) (chunk_bytes strip f) (reloaded strip (Some ''=?'') f)"
  unfolding luaU_undump_def Let_def chunk_bytes_eq
proof (rule loads_bind)
  show "loads (load_name name) (LoadHeader rd (load_name name)) luaU_header ()"
    unfolding LoadHeader_def
    by (rule loads_bind_ret [OF loads_block]) (simp_all add: IF_def luaU_header_def)
  have "strip \<or> p_source f \<noteq> None" using assms(1) by (simp add: all_protos_eq dumpable_def)
  then show "loads (load_name name) (LoadFunction rd (load_name name) calls (Some ''=?'')) (proto_bytes strip None f)
      (reloaded strip (Some ''=?'') f)"
    by (intro loads_function [OF assms]) auto
qed

end

section \<open>What is loaded has been checked\<close>

lemma bindL_Inr: "bindL m f z = Inr r \<longleftrightarrow> (\<exists>a z'. m z = Inr (a, z') \<and> f a z' = Inr r)"
  by (auto simp: bindL_def bindE_Inr_iff)

definition loaded_ok :: "nat \<Rightarrow> proto \<Rightarrow> bool" where
  "loaded_ok calls f \<longleftrightarrow> all_protos (\<lambda>g. luaG_checkcode g = Some True) f \<and> calls + depth f \<le> LUAI_MAXCCALLS"

lemma depth_list: "list_all (\<lambda>g. calls + depth g \<le> m) gs \<Longrightarrow> calls \<le> m \<Longrightarrow> calls + foldr max (map depth gs) 0 \<le> m"
  by (induction gs) auto

lemma loaded_checked:
  "LoadFunction rd S calls p z = Inr (f, z') \<Longrightarrow> loaded_ok calls f"
  "LoadProtos rd S calls p n z = Inr (fs, z') \<Longrightarrow> list_all (loaded_ok calls) fs"
proof (induction rd S calls p and rd S calls p n arbitrary: z f z' and z fs z' rule: LoadFunction_LoadProtos.induct)
  case (1 rd S calls p)
  have calls: "\<not> calls + 1 > LUAI_MAXCCALLS"
    using 1(2) unfolding LoadFunction.simps [of rd S calls p] by (auto simp: load_error_def)
  have "(\<exists>s0 n z1 z2. LoadProtos rd S (calls + 1) (case s0 of None \<Rightarrow> p | Some s \<Rightarrow> Some s) (unat (n :: 32 word)) z1
      = Inr (p_p f, z2)) \<and> luaG_checkcode f = Some True"
    using 1(2) unfolding LoadFunction.simps [of rd S calls p] if_not_P [OF calls] Let_def
    by (clarsimp simp: bindL_Inr IF_def load_error_def retL_def split: if_splits) (intro exI, assumption)
  then obtain s0 n z1 z2 where
    ps: "LoadProtos rd S (calls + 1) (case s0 of None \<Rightarrow> p | Some s \<Rightarrow> Some s) (unat (n :: 32 word)) z1 = Inr (p_p f, z2)"
    and ok: "luaG_checkcode f = Some True" by blast
  have sub: "list_all (loaded_ok (calls + 1)) (p_p f)" using 1(1) [OF calls refl ps] .
  then show ?case
    using ok depth_list [of "calls + 1" LUAI_MAXCCALLS "p_p f"] calls
    by (simp add: loaded_ok_def list_all_iff all_protos_eq [of _ f] depth_eq [of f])
next
  case (3 rd S calls p n)
  then show ?case by (fastforce simp: bindL_Inr retL_def)
qed (simp add: retL_def)

lemma undump_checked:
  assumes "luaU_undump rd name calls z = Inr (f, z')"
  shows "loaded_ok calls f"
  using assms loaded_checked(1) by (auto simp: luaU_undump_def Let_def bindL_Inr)

section \<open>Properties\<close>

text \<open>
  C6. A dump followed by a load gives the function back: whatever its nested functions and
  constants, and for every way in which the reader cuts the bytes into blocks, \<open>luaU_undump\<close> returns
  what \<open>luaU_dump\<close> was given (with \<open>strip\<close>, that without its debug information) and leaves the rest of
  the stream.
\<close>

theorem chunk_roundtrip:
  assumes "luaU_dump (writer n) f luaL_buffinit strip = (st, B)"
    and "pending z = luaL_pushresult B @ rest"
    and "all_protos (dumpable strip) f" and "calls + depth f \<le> LUAI_MAXCCALLS"
  shows "st = 0 \<and> (\<exists>z'. luaU_undump luaZ_read name calls z = Inr (reloaded strip (Some ''=?'') f, z') \<and> pending z' = rest)"
proof -
  have "lbw.never_fails n" by (simp add: lbw.never_fails_def writer_def)
  then have st: "st = 0" by (rule lbw.dump_wrote(2) [OF assms(1)])
  then have "luaL_pushresult B = chunk_bytes strip f"
    using lbw.dump_wrote(1) [OF assms(1)] by (simp add: pushresult_contents contents_buffinit)
  then show ?thesis
    using st zio.loadsD(1) [OF zio.loads_undump [OF assms(3,4)]] assms(2) by simp
qed

definition inner_proto :: proto where
  "inner_proto = Proto [KString (Some ''x''), KNumber 5, KBool True, KNil]
     [CREATE_ABx OP_GETGLOBAL 0 0, CREATE_ABC OP_RETURN 0 2 0]
     [] [1, 2] [\<lparr>varname = Some ''v'', startpc = 0, endpc = 1\<rparr>] [] (Some ''@t.lua'') 1 2 0 0 0 2"

definition outer_proto :: proto where
  "outer_proto = Proto [] [CREATE_ABx OP_CLOSURE 0 0, CREATE_ABC OP_RETURN 0 1 0] [inner_proto] [3, 3] [] []
     (Some ''@t.lua'') 0 0 0 0 2 2"

lemma outer_dumpable: "all_protos (dumpable False) outer_proto" "depth outer_proto = 2"
proof -
  have i: "luaG_checkcode inner_proto = Some True"
    by (simp add: checker_defs inner_proto_def cong: bindC_weak_cong)
  have "luaG_checkcode outer_proto = Some True"
    by (simp add: checker_defs outer_proto_def inner_proto_def cong: bindC_weak_cong)
  then show "all_protos (dumpable False) outer_proto"
    using i by (simp add: all_protos_eq dumpable_def fits_proto_def fits_list_def fits_string_def fits_locvar_def
        outer_proto_def inner_proto_def)
  show "depth outer_proto = 2" by (simp add: outer_proto_def inner_proto_def)
qed

lemma outer_loads:
  "\<exists>z'. luaU_undump luaZ_read ''=x'' 0 (luaZ_init [luaU_header, proto_bytes False None outer_proto])
     = Inr (outer_proto, z')"
proof -
  have "proto_bytes False None outer_proto \<noteq> []"
    by (simp add: proto_bytes.simps [of False None outer_proto] head_bytes_def int_bytes_def)
  then have "pending (luaZ_init [luaU_header, proto_bytes False None outer_proto]) = chunk_bytes False outer_proto @ []"
    by (simp add: pending_def luaZ_init_def chunk_bytes_eq luaU_header_def)
  from zio.loadsD(1) [OF zio.loads_undump [OF outer_dumpable(1)] this] show ?thesis
    using outer_dumpable(2) by (fastforce simp: LUAI_MAXCCALLS_def)
qed

lemma chunk_roundtrip_witness:
  "\<exists>z'. luaU_undump luaZ_read ''=x'' 0 (luaZ_init [luaU_header, proto_bytes False None outer_proto])
     = Inr (outer_proto, z')"
proof -
  obtain st B where d: "luaU_dump (writer 8) outer_proto luaL_buffinit False = (st, B)"
    by (cases "luaU_dump (writer 8) outer_proto luaL_buffinit False") auto
  have "luaL_pushresult B = chunk_bytes False outer_proto"
    using str_dump_bytes [of 8 outer_proto] d by (simp add: str_dump_def lua_dump_def luaL_error_def split: if_splits)
  moreover have "proto_bytes False None outer_proto \<noteq> []"
    by (simp add: proto_bytes.simps [of False None outer_proto] head_bytes_def int_bytes_def)
  then have "pending (luaZ_init [luaU_header, proto_bytes False None outer_proto]) = chunk_bytes False outer_proto"
    by (simp add: pending_def luaZ_init_def chunk_bytes_eq luaU_header_def)
  ultimately show ?thesis
    using chunk_roundtrip [OF d, of "luaZ_init [luaU_header, proto_bytes False None outer_proto]" "[]" 0 "''=x''"]
      outer_dumpable by (auto simp: LUAI_MAXCCALLS_def)
qed

text \<open>
  C16. A truncated chunk is rejected: if the stream ends anywhere within what was dumped, the load
  raises \<open>unexpected end\<close> (and not another error, and it returns no function).
\<close>

theorem truncated_chunk_rejected:
  assumes "strict_prefix (pending z) (chunk_bytes strip f)"
    and "all_protos (dumpable strip) f" and "calls + depth f \<le> LUAI_MAXCCALLS"
  shows "luaU_undump luaZ_read name calls z = Inl (load_name name @ '': unexpected end in precompiled chunk'')"
  using zio.loadsD(2) [OF zio.loads_undump [OF assms(2,3)] assms(1)] by (simp add: load_error_def)

lemma truncated_chunk_rejected_witness:
  "luaU_undump luaZ_read ''=x'' 0 (luaZ_init [luaU_header]) = Inl ''x: unexpected end in precompiled chunk''"
proof -
  have "proto_bytes False None outer_proto \<noteq> []"
    by (simp add: proto_bytes.simps [of False None outer_proto] head_bytes_def int_bytes_def)
  then have "strict_prefix (pending (luaZ_init [luaU_header])) (chunk_bytes False outer_proto)"
    by (simp add: pending_def luaZ_init_def chunk_bytes_eq luaU_header_def strict_prefix_def)
  from truncated_chunk_rejected [OF this, of 0 "''=x''"] outer_dumpable show ?thesis
    by (simp add: LUAI_MAXCCALLS_def load_name_def cstr_def cnth_def)
qed

text \<open>
  C11. Whatever the bytes, a function that is loaded has been checked, and so have all functions
  nested in it; they are nested no deeper than \<open>LUAI_MAXCCALLS\<close> allows.
\<close>

theorem undump_only_checked:
  assumes "luaU_undump rd name calls z = Inr (f, z')"
  shows "all_protos (\<lambda>g. luaG_checkcode g = Some True) f \<and> calls + depth f \<le> LUAI_MAXCCALLS"
  using undump_checked [OF assms] by (simp add: loaded_ok_def)

lemma undump_only_checked_witness: "luaG_checkcode outer_proto = Some True"
proof -
  obtain z' where "luaU_undump luaZ_read ''=x'' 0 (luaZ_init [luaU_header, proto_bytes False None outer_proto])
     = Inr (outer_proto, z')" using outer_loads by blast
  from undump_only_checked [OF this] show ?thesis by (simp add: all_protos_eq)
qed

text \<open>
  A string constant of size 0 is loaded as a NULL pointer, and is then a string for the checker and
  for the virtual machine.
\<close>

lemma null_string_constant:
  "\<exists>z'. LoadConstant luaZ_read S (luaZ_init [le_bytes 1 4 @ le_bytes 8 0]) = Inr (KString None, z')"
  "is_kstring (KString None)" "svalue (KString None) = None"
proof -
  have "pending (luaZ_init [le_bytes 1 4 @ le_bytes 8 0]) = const_bytes (KString None) @ []"
    by (simp add: pending_def luaZ_init_def string_bytes_def)
  moreover have "fits_const (KString None)" by (simp add: fits_string_def)
  ultimately show "\<exists>z'. LoadConstant luaZ_read S (luaZ_init [le_bytes 1 4 @ le_bytes 8 0]) = Inr (KString None, z')"
    using zio.loadsD(1) [OF zio.loads_const] by blast
qed (simp_all add: is_kstring_def svalue_def getstr_def)

end
