(* ===== verification/Lua_Gc.thy ===== *)
theory Lua_Gc
  imports Lua_String
begin

text \<open>
  The garbage collector, \<open>lgc.c\<close> and \<open>lgc.h\<close> (with the open upvalues of \<open>lfunc.c\<close>). An object is an
  address; \<open>g_objs\<close> has its contents until it is freed, \<open>g_marked\<close> its \<open>marked\<close> byte. What C links
  through \<open>next\<close>, \<open>gclist\<close> or \<open>u.l\<close> is a list of addresses, first element first; \<open>GCObject **\<close> into
  \<open>rootgc\<close> is the object whose \<open>next\<close> it points to, or none for \<open>&g->rootgc\<close>. The circular list
  \<open>tmudata\<close> starts with its first element. Numbers, booleans and light userdata are \<open>GPlain\<close>.
  Sizes of objects (\<open>sizeof\<close>) are a parameter \<open>sz\<close>, and so is the call of a \<open>__gc\<close> metamethod.
  The cache of absent metamethods (\<open>flags\<close>), the sizes of stacks and of the scanner's buffer are
  not modelled.
\<close>

section \<open>Objects\<close>

type_synonym gcref = nat

datatype gcval = GNil | GPlain | GRef gcref | GDead gcref

datatype uvloc = UOpen gcref nat | UClosed gcval

record gtable =
  tb_metatable :: "gcref option"
  tb_array :: "gcval list"
  tb_node :: "(gcval \<times> gcval) list"   \<comment> \<open>key and value\<close>

record gthread =
  th_gt :: gcval
  th_stack :: "gcval list"
  th_top :: nat
  th_citop :: "nat list"   \<comment> \<open>\<open>ci->top\<close> of the calls in progress\<close>
  th_openupval :: "gcref list"

datatype gcobj =
    OString string
  | OUdata "gcref option" gcref                \<comment> \<open>metatable, environment\<close>
  | OUpval uvloc
  | OCclosure gcref "gcval list"               \<comment> \<open>environment, upvalues\<close>
  | OLclosure gcref gcref "gcref list"         \<comment> \<open>environment, prototype, upvalues\<close>
  | OTable gtable
  | OProto "gcref option" "gcval list" "gcref option list" "gcref option list" "gcref option list"
      \<comment> \<open>source, constants, upvalue names, nested prototypes, names of local variables\<close>
  | OThread gthread

record gcstate =
  g_objs :: "gcref \<Rightarrow> gcobj option"
  g_marked :: "gcref \<Rightarrow> 8 word"
  g_strt :: "gcref list list"
  g_nuse :: nat
  g_currentwhite :: "8 word"
  g_gcstate :: nat
  g_sweepstrgc :: nat
  g_rootgc :: "gcref list"
  g_sweepgc :: "gcref option"
  g_gray :: "gcref list"
  g_grayagain :: "gcref list"
  g_weak :: "gcref list"
  g_tmudata :: "gcref list"
  g_threshold :: "64 word"
  g_totalbytes :: "64 word"
  g_estimate :: "64 word"
  g_gcdept :: "64 word"
  g_gcpause :: "32 word"
  g_gcstepmul :: "32 word"
  g_registry :: gcval
  g_mainthread :: gcref
  g_uvhead :: "gcref list"
  g_mt :: "gcref option list"
  g_tm_gc :: gcref       \<comment> \<open>\<open>tmname[TM_GC]\<close>\<close>
  g_tm_mode :: gcref     \<comment> \<open>\<open>tmname[TM_MODE]\<close>\<close>

abbreviation (input) GCSpause :: nat where "GCSpause \<equiv> 0"
abbreviation (input) GCSpropagate :: nat where "GCSpropagate \<equiv> 1"
abbreviation (input) GCSsweepstring :: nat where "GCSsweepstring \<equiv> 2"
abbreviation (input) GCSsweep :: nat where "GCSsweep \<equiv> 3"
abbreviation (input) GCSfinalize :: nat where "GCSfinalize \<equiv> 4"

section \<open>The \<open>marked\<close> byte\<close>

abbreviation (input) WHITE0BIT :: nat where "WHITE0BIT \<equiv> 0"
abbreviation (input) WHITE1BIT :: nat where "WHITE1BIT \<equiv> 1"
abbreviation (input) BLACKBIT :: nat where "BLACKBIT \<equiv> 2"
abbreviation (input) FINALIZEDBIT :: nat where "FINALIZEDBIT \<equiv> 3"
abbreviation (input) KEYWEAKBIT :: nat where "KEYWEAKBIT \<equiv> 3"
abbreviation (input) VALUEWEAKBIT :: nat where "VALUEWEAKBIT \<equiv> 4"
abbreviation (input) FIXEDBIT :: nat where "FIXEDBIT \<equiv> 5"
abbreviation (input) SFIXEDBIT :: nat where "SFIXEDBIT \<equiv> 6"

definition bitmask :: "nat \<Rightarrow> 8 word" where "bitmask b = push_bit b 1"
definition WHITEBITS :: "8 word" where "WHITEBITS = bitmask WHITE0BIT OR bitmask WHITE1BIT"
definition testbit :: "8 word \<Rightarrow> nat \<Rightarrow> bool" where "testbit x b \<longleftrightarrow> x AND bitmask b \<noteq> 0"
definition l_setbit :: "nat \<Rightarrow> 8 word \<Rightarrow> 8 word" where "l_setbit b x = x OR bitmask b"
definition resetbit :: "nat \<Rightarrow> 8 word \<Rightarrow> 8 word" where "resetbit b x = x AND NOT (bitmask b)"

definition white_byte :: "8 word \<Rightarrow> bool" where "white_byte m \<longleftrightarrow> m AND WHITEBITS \<noteq> 0"
definition white2gray :: "8 word \<Rightarrow> 8 word" where "white2gray m = m AND NOT WHITEBITS"
definition black2gray :: "8 word \<Rightarrow> 8 word" where "black2gray = resetbit BLACKBIT"
definition gray2black :: "8 word \<Rightarrow> 8 word" where "gray2black = l_setbit BLACKBIT"
definition maskmarks :: "8 word" where "maskmarks = NOT (bitmask BLACKBIT OR WHITEBITS)"

definition otherwhite :: "gcstate \<Rightarrow> 8 word" where "otherwhite g = g_currentwhite g XOR WHITEBITS"
definition luaC_white :: "gcstate \<Rightarrow> 8 word" where "luaC_white g = g_currentwhite g AND WHITEBITS"
definition makewhite :: "gcstate \<Rightarrow> 8 word \<Rightarrow> 8 word" where "makewhite g m = (m AND maskmarks) OR luaC_white g"

definition iswhite :: "gcstate \<Rightarrow> gcref \<Rightarrow> bool" where "iswhite g x \<longleftrightarrow> white_byte (g_marked g x)"
definition isblack :: "gcstate \<Rightarrow> gcref \<Rightarrow> bool" where "isblack g x \<longleftrightarrow> testbit (g_marked g x) BLACKBIT"
definition isgray :: "gcstate \<Rightarrow> gcref \<Rightarrow> bool" where "isgray g x \<longleftrightarrow> \<not> isblack g x \<and> \<not> iswhite g x"
definition isdead :: "gcstate \<Rightarrow> gcref \<Rightarrow> bool" where
  "isdead g x \<longleftrightarrow> g_marked g x AND otherwhite g AND WHITEBITS \<noteq> 0"
definition isfinalized :: "gcstate \<Rightarrow> gcref \<Rightarrow> bool" where "isfinalized g x \<longleftrightarrow> testbit (g_marked g x) FINALIZEDBIT"

definition set_mark :: "gcref \<Rightarrow> (8 word \<Rightarrow> 8 word) \<Rightarrow> gcstate \<Rightarrow> gcstate" where
  "set_mark x f g = g\<lparr>g_marked := (g_marked g)(x := f (g_marked g x))\<rparr>"

definition set_obj :: "gcref \<Rightarrow> gcobj \<Rightarrow> gcstate \<Rightarrow> gcstate" where
  "set_obj x ob g = g\<lparr>g_objs := (g_objs g)(x := Some ob)\<rparr>"

section \<open>Marking\<close>

text \<open>\<open>*uv->v\<close>: a slot of a stack, or the upvalue's own.\<close>

definition uv_value :: "gcstate \<Rightarrow> uvloc \<Rightarrow> gcval" where
  "uv_value g u =
     (case u of
        UClosed v \<Rightarrow> v
      | UOpen t i \<Rightarrow>
          (case g_objs g t of
             Some (OThread th) \<Rightarrow> if i < length (th_stack th) then th_stack th ! i else GNil
           | _ \<Rightarrow> GNil))"

definition mark_if_white :: "(gcref \<Rightarrow> gcstate \<Rightarrow> gcstate) \<Rightarrow> gcref \<Rightarrow> gcstate \<Rightarrow> gcstate" where
  "mark_if_white f x g = (if iswhite g x then f x g else g)"

definition mark_value_with :: "(gcref \<Rightarrow> gcstate \<Rightarrow> gcstate) \<Rightarrow> gcval \<Rightarrow> gcstate \<Rightarrow> gcstate" where
  "mark_value_with f v g = (case v of GRef x \<Rightarrow> mark_if_white f x g | _ \<Rightarrow> g)"

text \<open>
  \<open>reallymarkobject\<close>. It calls itself from an upvalue for its value and from a userdata for two
  tables, so it is never nested more than three deep (\<open>mark_depth_enough\<close> below).
\<close>

primrec really_mark :: "nat \<Rightarrow> gcref \<Rightarrow> gcstate \<Rightarrow> gcstate" where
  "really_mark 0 = (\<lambda>x g. g)"
| "really_mark (Suc n) = (\<lambda>x g.
     let g = set_mark x white2gray g in
     case g_objs g x of
       None \<Rightarrow> g
     | Some (OString s) \<Rightarrow> g
     | Some (OUdata mt env) \<Rightarrow>
         let g = set_mark x gray2black g;
             g = (case mt of None \<Rightarrow> g | Some t \<Rightarrow> mark_if_white (really_mark n) t g)
         in mark_if_white (really_mark n) env g
     | Some (OUpval u) \<Rightarrow>
         let g = mark_value_with (really_mark n) (uv_value g u) g
         in (case u of UClosed v \<Rightarrow> set_mark x gray2black g | UOpen t i \<Rightarrow> g)
     | Some _ \<Rightarrow> g\<lparr>g_gray := x # g_gray g\<rparr>)"

definition reallymarkobject :: "gcref \<Rightarrow> gcstate \<Rightarrow> gcstate" where
  "reallymarkobject = really_mark 3"

definition markobject :: "gcref \<Rightarrow> gcstate \<Rightarrow> gcstate" where
  "markobject = mark_if_white reallymarkobject"

definition markvalue :: "gcval \<Rightarrow> gcstate \<Rightarrow> gcstate" where
  "markvalue = mark_value_with reallymarkobject"

definition mark_opt :: "gcref option \<Rightarrow> gcstate \<Rightarrow> gcstate" where
  "mark_opt x g = (case x of None \<Rightarrow> g | Some t \<Rightarrow> markobject t g)"

definition stringmark :: "gcref \<Rightarrow> gcstate \<Rightarrow> gcstate" where
  "stringmark s = set_mark s white2gray"

definition stringmark_opt :: "gcref option \<Rightarrow> gcstate \<Rightarrow> gcstate" where
  "stringmark_opt s g = (case s of None \<Rightarrow> g | Some s \<Rightarrow> stringmark s g)"

section \<open>Traversal\<close>

text \<open>\<open>fasttm\<close>: \<open>luaH_getstr\<close> in the metatable, nil for NULL.\<close>

definition fasttm :: "gcstate \<Rightarrow> gcref option \<Rightarrow> gcref \<Rightarrow> gcval" where
  "fasttm g et ename =
     (case et of
        None \<Rightarrow> GNil
      | Some t \<Rightarrow>
          (case g_objs g t of
             Some (OTable tb) \<Rightarrow>
               (case find (\<lambda>(k, v). k = GRef ename) (tb_node tb) of Some (k, v) \<Rightarrow> v | None \<Rightarrow> GNil)
           | _ \<Rightarrow> GNil))"

definition weak_mode :: "gcstate \<Rightarrow> gcref option \<Rightarrow> char \<Rightarrow> bool" where
  "weak_mode g mt c =
     (case fasttm g mt (g_tm_mode g) of
        GRef s \<Rightarrow> (case g_objs g s of Some (OString str) \<Rightarrow> strchr (cstr str) c \<noteq> None | _ \<Rightarrow> False)
      | _ \<Rightarrow> False)"

definition removeentry :: "gcval \<times> gcval \<Rightarrow> gcval \<times> gcval" where
  "removeentry n = ((case fst n of GRef x \<Rightarrow> GDead x | k \<Rightarrow> k), snd n)"

definition mark_node :: "bool \<Rightarrow> bool \<Rightarrow> gcval \<times> gcval \<Rightarrow> gcstate \<Rightarrow> gcstate" where
  "mark_node weakkey weakvalue n g =
     (if snd n = GNil then g
      else
        (let g = (if weakkey then g else markvalue (fst n) g)
         in if weakvalue then g else markvalue (snd n) g))"

definition weak_bits :: "bool \<Rightarrow> bool \<Rightarrow> 8 word \<Rightarrow> 8 word" where
  "weak_bits weakkey weakvalue m =
     (m AND NOT (bitmask KEYWEAKBIT OR bitmask VALUEWEAKBIT))
       OR (push_bit KEYWEAKBIT (of_bool weakkey) OR push_bit VALUEWEAKBIT (of_bool weakvalue))"

definition traversetable :: "gcref \<Rightarrow> gtable \<Rightarrow> gcstate \<Rightarrow> bool \<times> gcstate" where
  "traversetable h tb g =
     (let g = mark_opt (tb_metatable tb) g;
          weakkey = weak_mode g (tb_metatable tb) CHR ''k'';
          weakvalue = weak_mode g (tb_metatable tb) CHR ''v'';
          g = (if weakkey \<or> weakvalue then
                 (set_mark h (weak_bits weakkey weakvalue) g)\<lparr>g_weak := h # g_weak g\<rparr>
               else g)
      in
      if weakkey \<and> weakvalue then (True, g)
      else
        (let g = (if weakvalue then g else fold markvalue (rev (tb_array tb)) g);
             g = fold (mark_node weakkey weakvalue) (rev (tb_node tb)) g;
             g = set_obj h (OTable (tb\<lparr>tb_node := map (\<lambda>n. if snd n = GNil then removeentry n else n) (tb_node tb)\<rparr>)) g
         in (weakkey \<or> weakvalue, g)))"

definition traverseproto ::
    "gcref option \<Rightarrow> gcval list \<Rightarrow> gcref option list \<Rightarrow> gcref option list \<Rightarrow> gcref option list \<Rightarrow> gcstate \<Rightarrow> gcstate" where
  "traverseproto source k upvalues p locvars g =
     (let g = stringmark_opt source g;
          g = fold markvalue k g;
          g = fold stringmark_opt upvalues g;
          g = fold mark_opt p g
      in fold stringmark_opt locvars g)"

definition traverseclosure :: "gcobj \<Rightarrow> gcstate \<Rightarrow> gcstate" where
  "traverseclosure cl g =
     (case cl of
        OCclosure env upvalue \<Rightarrow> fold markvalue upvalue (markobject env g)
      | OLclosure env p upvals \<Rightarrow> fold markobject upvals (markobject p (markobject env g))
      | _ \<Rightarrow> g)"

text \<open>The last two loops: values below the top are marked, those up to \<open>lim\<close> cleared.\<close>

definition traversestack :: "gcref \<Rightarrow> gthread \<Rightarrow> gcstate \<Rightarrow> gcstate" where
  "traversestack l th g =
     (let g = markvalue (th_gt th) g;
          lim = fold max (th_citop th) (th_top th);
          g = fold markvalue (take (th_top th) (th_stack th)) g;
          cleared = map (\<lambda>(i, v). if th_top th \<le> i \<and> i \<le> lim then GNil else v) (enumerate 0 (th_stack th))
      in set_obj l (OThread (th\<lparr>th_stack := cleared\<rparr>)) g)"

definition propagatemark :: "(gcobj \<Rightarrow> nat) \<Rightarrow> gcstate \<Rightarrow> nat \<times> gcstate" where
  "propagatemark sz g =
     (let x = hd (g_gray g);
          g = set_mark x gray2black g;
          g = g\<lparr>g_gray := tl (g_gray g)\<rparr>
      in case g_objs g x of
           Some (OTable h) \<Rightarrow>
             let (isweak, g') = traversetable x h g
             in (sz (OTable h), if isweak then set_mark x black2gray g' else g')
         | Some (OCclosure env upvalue) \<Rightarrow> (sz (OCclosure env upvalue), traverseclosure (OCclosure env upvalue) g)
         | Some (OLclosure env p upvals) \<Rightarrow> (sz (OLclosure env p upvals), traverseclosure (OLclosure env p upvals) g)
         | Some (OThread th) \<Rightarrow>
             let g = g\<lparr>g_grayagain := x # g_grayagain g\<rparr>;
                 g = set_mark x black2gray g
             in (sz (OThread th), traversestack x th g)
         | Some (OProto source k upvalues p locvars) \<Rightarrow>
             (sz (OProto source k upvalues p locvars), traverseproto source k upvalues p locvars g)
         | _ \<Rightarrow> (0, g))"

partial_function (option) propagateall :: "(gcobj \<Rightarrow> nat) \<Rightarrow> nat \<Rightarrow> gcstate \<Rightarrow> (nat \<times> gcstate) option" where
  "propagateall sz m g =
     (if g_gray g = [] then Some (m, g)
      else (case propagatemark sz g of (c, g) \<Rightarrow> propagateall sz (m + c) g))"

section \<open>Weak tables\<close>

definition iscleared :: "gcval \<Rightarrow> bool \<Rightarrow> gcstate \<Rightarrow> bool \<times> gcstate" where
  "iscleared v iskey g =
     (case v of
        GRef x \<Rightarrow>
          (case g_objs g x of
             Some (OString s) \<Rightarrow> (False, stringmark x g)
           | Some (OUdata mt env) \<Rightarrow> (iswhite g x \<or> \<not> iskey \<and> isfinalized g x, g)
           | _ \<Rightarrow> (iswhite g x, g))
      | _ \<Rightarrow> (False, g))"

text \<open>The loops run from the last element to the first.\<close>

fun clear_array :: "gcval list \<Rightarrow> gcstate \<Rightarrow> gcval list \<times> gcstate" where
  "clear_array [] g = ([], g)"
| "clear_array (v # vs) g =
     (let (vs', g) = clear_array vs g;
          (cleared, g) = iscleared v False g
      in ((if cleared then GNil else v) # vs', g))"

definition clear_entry :: "gcval \<times> gcval \<Rightarrow> gcstate \<Rightarrow> (gcval \<times> gcval) \<times> gcstate" where
  "clear_entry n g =
     (if snd n = GNil then (n, g)
      else
        (let (ck, g) = iscleared (fst n) True g
         in if ck then (removeentry (fst n, GNil), g)
            else (let (cv, g) = iscleared (snd n) False g
                  in if cv then (removeentry (fst n, GNil), g) else (n, g))))"

fun clear_nodes :: "(gcval \<times> gcval) list \<Rightarrow> gcstate \<Rightarrow> (gcval \<times> gcval) list \<times> gcstate" where
  "clear_nodes [] g = ([], g)"
| "clear_nodes (n # ns) g =
     (let (ns', g) = clear_nodes ns g; (n', g) = clear_entry n g in (n' # ns', g))"

definition clear_one :: "gcref \<Rightarrow> gcstate \<Rightarrow> gcstate" where
  "clear_one h g =
     (case g_objs g h of
        Some (OTable tb) \<Rightarrow>
          (let (arr, g) = (if testbit (g_marked g h) VALUEWEAKBIT then clear_array (tb_array tb) g else (tb_array tb, g));
               (nodes, g) = clear_nodes (tb_node tb) g
           in set_obj h (OTable (tb\<lparr>tb_array := arr, tb_node := nodes\<rparr>)) g)
      | _ \<Rightarrow> g)"

definition cleartable :: "gcref list \<Rightarrow> gcstate \<Rightarrow> gcstate" where
  "cleartable l g = fold clear_one l g"

end
