(* ===== verification/Lua_Gcstep.thy ===== *)
theory Lua_Gcstep
  imports Lua_Gc
begin

text \<open>
  The rest of \<open>lgc.c\<close>: barriers, finalizers, sweeping, the atomic end of the marking phase, and the
  steps of the collector; with the open upvalues of \<open>lfunc.c\<close>, which are closed when a thread is freed.
\<close>

section \<open>Barriers and links\<close>

definition valiswhite :: "gcstate \<Rightarrow> gcval \<Rightarrow> bool" where
  "valiswhite g v = (case v of GRef x \<Rightarrow> iswhite g x | _ \<Rightarrow> False)"

definition luaC_barrierf :: "gcref \<Rightarrow> gcref \<Rightarrow> gcstate \<Rightarrow> gcstate" where
  "luaC_barrierf x v g =
     (if g_gcstate g = GCSpropagate then reallymarkobject v g else set_mark x (makewhite g) g)"

definition luaC_barrierback :: "gcref \<Rightarrow> gcstate \<Rightarrow> gcstate" where
  "luaC_barrierback t g = (set_mark t black2gray g)\<lparr>g_grayagain := t # g_grayagain g\<rparr>"

definition luaC_barrier :: "gcref \<Rightarrow> gcval \<Rightarrow> gcstate \<Rightarrow> gcstate" where
  "luaC_barrier p v g = (case v of GRef x \<Rightarrow> if iswhite g x \<and> isblack g p then luaC_barrierf p x g else g | _ \<Rightarrow> g)"

definition luaC_barriert :: "gcref \<Rightarrow> gcval \<Rightarrow> gcstate \<Rightarrow> gcstate" where
  "luaC_barriert t v g = (if valiswhite g v \<and> isblack g t then luaC_barrierback t g else g)"

definition luaC_objbarrier :: "gcref \<Rightarrow> gcref \<Rightarrow> gcstate \<Rightarrow> gcstate" where
  "luaC_objbarrier p x g = (if iswhite g x \<and> isblack g p then luaC_barrierf p x g else g)"

definition luaC_objbarriert :: "gcref \<Rightarrow> gcref \<Rightarrow> gcstate \<Rightarrow> gcstate" where
  "luaC_objbarriert t x g = (if iswhite g x \<and> isblack g t then luaC_barrierback t g else g)"

text \<open>\<open>luaC_link\<close> for a new object with contents \<open>ob\<close>.\<close>

definition luaC_link :: "gcref \<Rightarrow> gcobj \<Rightarrow> gcstate \<Rightarrow> gcstate" where
  "luaC_link x ob g =
     (set_obj x ob g)\<lparr>g_rootgc := x # g_rootgc g, g_marked := (g_marked g)(x := luaC_white g)\<rparr>"

definition luaC_linkupval :: "gcref \<Rightarrow> gcstate \<Rightarrow> gcstate" where
  "luaC_linkupval uv g =
     (let g = g\<lparr>g_rootgc := uv # g_rootgc g\<rparr> in
      if isgray g uv then
        if g_gcstate g = GCSpropagate then
          (let g = set_mark uv gray2black g
           in case g_objs g uv of Some (OUpval u) \<Rightarrow> luaC_barrier uv (uv_value g u) g | _ \<Rightarrow> g)
        else set_mark uv (makewhite g) g
      else g)"

section \<open>Open upvalues (\<open>lfunc.c\<close>)\<close>

definition set_openupval :: "gcref \<Rightarrow> gcref list \<Rightarrow> gcstate \<Rightarrow> gcstate" where
  "set_openupval t us g =
     (case g_objs g t of Some (OThread th) \<Rightarrow> set_obj t (OThread (th\<lparr>th_openupval := us\<rparr>)) g | _ \<Rightarrow> g)"

definition open_level :: "gcstate \<Rightarrow> gcref \<Rightarrow> nat" where
  "open_level g u = (case g_objs g u of Some (OUpval (UOpen t i)) \<Rightarrow> i | _ \<Rightarrow> 0)"

definition unlinkupval :: "gcref \<Rightarrow> gcstate \<Rightarrow> gcstate" where
  "unlinkupval uv g = g\<lparr>g_uvhead := remove1 uv (g_uvhead g)\<rparr>"

definition free_mem :: "(gcobj \<Rightarrow> nat) \<Rightarrow> gcref \<Rightarrow> gcstate \<Rightarrow> gcstate" where
  "free_mem sz x g =
     g\<lparr>g_totalbytes := g_totalbytes g - (case g_objs g x of Some ob \<Rightarrow> of_nat (sz ob) | None \<Rightarrow> 0),
       g_objs := (g_objs g)(x := None)\<rparr>"

definition luaF_freeupval :: "(gcobj \<Rightarrow> nat) \<Rightarrow> gcref \<Rightarrow> gcstate \<Rightarrow> gcstate" where
  "luaF_freeupval sz uv g =
     (let g = (case g_objs g uv of Some (OUpval (UOpen t i)) \<Rightarrow> unlinkupval uv g | _ \<Rightarrow> g) in free_mem sz uv g)"

text \<open>The list of open upvalues is sorted by level, highest first; \<open>us\<close> is what is left of it.\<close>

fun close_loop :: "(gcobj \<Rightarrow> nat) \<Rightarrow> gcref \<Rightarrow> nat \<Rightarrow> gcref list \<Rightarrow> gcstate \<Rightarrow> gcstate" where
  "close_loop sz L level [] g = g"
| "close_loop sz L level (uv # us) g =
     (if level \<le> open_level g uv then
        (let g = set_openupval L us g in
         close_loop sz L level us
           (if isdead g uv then luaF_freeupval sz uv g
            else
              (let g = unlinkupval uv g;
                   v = (case g_objs g uv of Some (OUpval u) \<Rightarrow> uv_value g u | _ \<Rightarrow> GNil);
                   g = set_obj uv (OUpval (UClosed v)) g
               in luaC_linkupval uv g)))
      else g)"

definition luaF_close :: "(gcobj \<Rightarrow> nat) \<Rightarrow> gcref \<Rightarrow> nat \<Rightarrow> gcstate \<Rightarrow> gcstate" where
  "luaF_close sz L level g =
     (case g_objs g L of Some (OThread th) \<Rightarrow> close_loop sz L level (th_openupval th) g | _ \<Rightarrow> g)"

text \<open>\<open>luaF_findupval\<close>: the upvalue of a slot, and the state; \<open>fresh\<close> is the address of a new one.\<close>

fun find_open :: "gcstate \<Rightarrow> nat \<Rightarrow> gcref list \<Rightarrow> gcref list \<times> gcref option \<times> gcref list" where
  "find_open g level [] = ([], None, [])"
| "find_open g level (p # us) =
     (if level \<le> open_level g p then
        if open_level g p = level then ([], Some p, us)
        else (let (pre, r, post) = find_open g level us in (p # pre, r, post))
      else ([], None, p # us))"

definition luaF_findupval :: "gcref \<Rightarrow> nat \<Rightarrow> gcref \<Rightarrow> gcstate \<Rightarrow> gcref \<times> gcstate" where
  "luaF_findupval L level fresh g =
     (case g_objs g L of
        Some (OThread th) \<Rightarrow>
          (case find_open g level (th_openupval th) of
             (pre, Some p, post) \<Rightarrow> (p, if isdead g p then set_mark p (\<lambda>m. m XOR WHITEBITS) g else g)
           | (pre, None, post) \<Rightarrow>
               (fresh,
                (set_openupval L (pre @ fresh # post) (set_obj fresh (OUpval (UOpen L level)) g))
                  \<lparr>g_marked := (g_marked g)(fresh := luaC_white g), g_uvhead := fresh # g_uvhead g\<rparr>))
      | _ \<Rightarrow> (fresh, g))"

section \<open>Finalizers\<close>

text \<open>What \<open>p\<close> points to and the objects after it: the list from there on.\<close>

definition root_after :: "gcref option \<Rightarrow> gcstate \<Rightarrow> gcref list" where
  "root_after p g = (case p of None \<Rightarrow> g_rootgc g | Some x \<Rightarrow> tl (dropWhile (\<lambda>y. y \<noteq> x) (g_rootgc g)))"

definition udata_mt :: "gcstate \<Rightarrow> gcref \<Rightarrow> gcref option" where
  "udata_mt g u = (case g_objs g u of Some (OUdata mt env) \<Rightarrow> mt | _ \<Rightarrow> None)"

definition obj_size :: "(gcobj \<Rightarrow> nat) \<Rightarrow> gcstate \<Rightarrow> gcref \<Rightarrow> nat" where
  "obj_size sz g x = (case g_objs g x of Some ob \<Rightarrow> sz ob | None \<Rightarrow> 0)"

text \<open>The userdata kept in the list, those moved to \<open>tmudata\<close>, the size of these, and the state.\<close>

fun separate_loop :: "(gcobj \<Rightarrow> nat) \<Rightarrow> bool \<Rightarrow> gcref list \<Rightarrow> gcstate \<Rightarrow> gcref list \<times> gcref list \<times> nat \<times> gcstate" where
  "separate_loop sz all [] g = ([], [], 0, g)"
| "separate_loop sz all (u # us) g =
     (if \<not> (iswhite g u \<or> all) \<or> isfinalized g u then
        (let (kept, moved, m, g) = separate_loop sz all us g in (u # kept, moved, m, g))
      else if fasttm g (udata_mt g u) (g_tm_gc g) = GNil then
        (let (kept, moved, m, g) = separate_loop sz all us (set_mark u (l_setbit FINALIZEDBIT) g)
         in (u # kept, moved, m, g))
      else
        (let (kept, moved, m, g) = separate_loop sz all us (set_mark u (l_setbit FINALIZEDBIT) g)
         in (kept, u # moved, obj_size sz g u + m, g)))"

definition luaC_separateudata :: "(gcobj \<Rightarrow> nat) \<Rightarrow> bool \<Rightarrow> gcstate \<Rightarrow> nat \<times> gcstate" where
  "luaC_separateudata sz all g =
     (let (kept, moved, deadmem, g') = separate_loop sz all (root_after (Some (g_mainthread g)) g) g
      in (deadmem,
          g'\<lparr>g_rootgc := takeWhile (\<lambda>y. y \<noteq> g_mainthread g) (g_rootgc g) @ g_mainthread g # kept,
             g_tmudata := g_tmudata g @ moved\<rparr>))"

definition marktmu :: "gcstate \<Rightarrow> gcstate" where
  "marktmu g = fold (\<lambda>u g. reallymarkobject u (set_mark u (makewhite g) g)) (g_tmudata g) g"

text \<open>
  \<open>call\<close> runs the metamethod on the userdata; while it runs, the threshold keeps the collector from
  stepping.
\<close>

definition GCTM :: "(gcval \<Rightarrow> gcref \<Rightarrow> gcstate \<Rightarrow> gcstate) \<Rightarrow> gcstate \<Rightarrow> gcstate" where
  "GCTM call g =
     (let u = hd (g_tmudata g);
          g = g\<lparr>g_tmudata := tl (g_tmudata g)\<rparr>;
          g = g\<lparr>g_rootgc := takeWhile (\<lambda>y. y \<noteq> g_mainthread g) (g_rootgc g) @
                 g_mainthread g # u # root_after (Some (g_mainthread g)) g\<rparr>;
          g = set_mark u (makewhite g) g;
          tm = fasttm g (udata_mt g u) (g_tm_gc g)
      in if tm \<noteq> GNil then
           (let oldt = g_threshold g;
                g = call tm u (g\<lparr>g_threshold := 2 * g_totalbytes g\<rparr>)
            in g\<lparr>g_threshold := oldt\<rparr>)
         else g)"

partial_function (option) luaC_callGCTM :: "(gcval \<Rightarrow> gcref \<Rightarrow> gcstate \<Rightarrow> gcstate) \<Rightarrow> gcstate \<Rightarrow> gcstate option" where
  "luaC_callGCTM call g = (if g_tmudata g = [] then Some g else luaC_callGCTM call (GCTM call g))"

section \<open>Sweeping\<close>

text \<open>\<open>(cur->gch.marked ^ WHITEBITS) & deadmask\<close>: not dead.\<close>

definition sweep_keeps :: "gcstate \<Rightarrow> gcref \<Rightarrow> bool" where
  "sweep_keeps g x \<longleftrightarrow> (g_marked g x XOR WHITEBITS) AND otherwhite g \<noteq> 0"

text \<open>\<open>freeobj\<close>, with \<open>luaE_freethread\<close> (\<open>lstate.c\<close>).\<close>

definition freeobj :: "(gcobj \<Rightarrow> nat) \<Rightarrow> gcref \<Rightarrow> gcstate \<Rightarrow> gcstate" where
  "freeobj sz x g =
     (case g_objs g x of
        Some (OUpval u) \<Rightarrow> luaF_freeupval sz x g
      | Some (OThread th) \<Rightarrow> free_mem sz x (luaF_close sz x 0 g)
      | Some (OString s) \<Rightarrow> free_mem sz x (g\<lparr>g_nuse := g_nuse g - 1\<rparr>)
      | _ \<Rightarrow> free_mem sz x g)"

text \<open>\<open>sweepwholelist\<close> on a chain of strings or of open upvalues: what is left of it.\<close>

fun sweepwholelist :: "(gcobj \<Rightarrow> nat) \<Rightarrow> gcref list \<Rightarrow> gcstate \<Rightarrow> gcref list \<times> gcstate" where
  "sweepwholelist sz [] g = ([], g)"
| "sweepwholelist sz (x # xs) g =
     (if sweep_keeps g x then
        (let (xs', g) = sweepwholelist sz xs (set_mark x (makewhite g) g) in (x # xs', g))
      else sweepwholelist sz xs (freeobj sz x g))"

definition sweep_openupval :: "(gcobj \<Rightarrow> nat) \<Rightarrow> gcref \<Rightarrow> gcstate \<Rightarrow> gcstate" where
  "sweep_openupval sz x g =
     (case g_objs g x of
        Some (OThread th) \<Rightarrow>
          (let (us, g) = sweepwholelist sz (th_openupval th) g in set_openupval x us g)
      | _ \<Rightarrow> g)"

text \<open>\<open>sweeplist\<close> on \<open>rootgc\<close>, from \<open>p\<close> on.\<close>

fun sweeplist :: "(gcobj \<Rightarrow> nat) \<Rightarrow> nat \<Rightarrow> gcref option \<Rightarrow> gcstate \<Rightarrow> gcref option \<times> gcstate" where
  "sweeplist sz 0 p g = (p, g)"
| "sweeplist sz (Suc count) p g =
     (case root_after p g of
        [] \<Rightarrow> (p, g)
      | cur # _ \<Rightarrow>
          (let g = sweep_openupval sz cur g in
           if sweep_keeps g cur then sweeplist sz count (Some cur) (set_mark cur (makewhite g) g)
           else sweeplist sz count p (freeobj sz cur (g\<lparr>g_rootgc := remove1 cur (g_rootgc g)\<rparr>))))"

text \<open>\<open>checkSizes\<close>, the part about the string table (\<open>luaS_resize\<close>, outside of the string sweep).\<close>

definition string_hash :: "gcstate \<Rightarrow> gcref \<Rightarrow> 32 word" where
  "string_hash g x = (case g_objs g x of Some (OString s) \<Rightarrow> luaS_hash s | _ \<Rightarrow> 0)"

definition resize_strt :: "nat \<Rightarrow> gcstate \<Rightarrow> gcstate" where
  "resize_strt newsize g =
     (if g_gcstate g = GCSsweepstring then g
      else g\<lparr>g_strt := foldl (\<lambda>newhash p. chain_in p (lmod (string_hash g p) newsize) newhash)
                             (replicate newsize []) (concat (g_strt g))\<rparr>)"

definition MINSTRTABSIZE :: nat where "MINSTRTABSIZE = 32"

definition checkSizes :: "gcstate \<Rightarrow> gcstate" where
  "checkSizes g =
     (if g_nuse g < length (g_strt g) div 4 \<and> MINSTRTABSIZE * 2 < length (g_strt g)
      then resize_strt (length (g_strt g) div 2) g else g)"

section \<open>The phases\<close>

definition markmt :: "gcstate \<Rightarrow> gcstate" where
  "markmt g = fold mark_opt (g_mt g) g"

definition thread_gt :: "gcstate \<Rightarrow> gcref \<Rightarrow> gcval" where
  "thread_gt g x = (case g_objs g x of Some (OThread th) \<Rightarrow> th_gt th | _ \<Rightarrow> GNil)"

definition markroot :: "gcstate \<Rightarrow> gcstate" where
  "markroot g =
     (let g = g\<lparr>g_gray := [], g_grayagain := [], g_weak := []\<rparr>;
          g = markobject (g_mainthread g) g;
          g = markvalue (thread_gt g (g_mainthread g)) g;
          g = markvalue (g_registry g) g;
          g = markmt g
      in g\<lparr>g_gcstate := GCSpropagate\<rparr>)"

definition remark_one :: "gcref \<Rightarrow> gcstate \<Rightarrow> gcstate" where
  "remark_one uv g =
     (if isgray g uv then
        (case g_objs g uv of Some (OUpval u) \<Rightarrow> markvalue (uv_value g u) g | _ \<Rightarrow> g)
      else g)"

definition remarkupvals :: "gcstate \<Rightarrow> gcstate" where
  "remarkupvals g = fold remark_one (g_uvhead g) g"

text \<open>\<open>L\<close> is the running thread. \<open>None\<close> would be a \<open>propagateall\<close> that does not end.\<close>

definition atomic :: "(gcobj \<Rightarrow> nat) \<Rightarrow> gcref \<Rightarrow> gcstate \<Rightarrow> gcstate option" where
  "atomic sz L g =
     Option.bind (propagateall sz 0 (remarkupvals g)) (\<lambda>(_, g).
     let g = g\<lparr>g_gray := g_weak g, g_weak := []\<rparr> in
     Option.bind (propagateall sz 0 (markmt (markobject L g))) (\<lambda>(_, g).
     let g = g\<lparr>g_gray := g_grayagain g, g_grayagain := []\<rparr> in
     Option.bind (propagateall sz 0 g) (\<lambda>(_, g).
     let (udsize, g) = luaC_separateudata sz False g in
     Option.bind (propagateall sz 0 (marktmu g)) (\<lambda>(m, g).
     let g = cleartable (g_weak g) g
     in Some (g\<lparr>g_currentwhite := otherwhite g, g_sweepstrgc := 0, g_sweepgc := None,
                g_gcstate := GCSsweepstring,
                g_estimate := g_totalbytes g - of_nat (udsize + m)\<rparr>)))))"

definition GCSWEEPMAX :: nat where "GCSWEEPMAX = 40"
definition GCSWEEPCOST :: nat where "GCSWEEPCOST = 10"
definition GCFINALIZECOST :: nat where "GCFINALIZECOST = 100"
definition GCSTEPSIZE :: "64 word" where "GCSTEPSIZE = 1024"

definition singlestep ::
    "(gcobj \<Rightarrow> nat) \<Rightarrow> (gcval \<Rightarrow> gcref \<Rightarrow> gcstate \<Rightarrow> gcstate) \<Rightarrow> gcref \<Rightarrow> gcstate \<Rightarrow> (nat \<times> gcstate) option" where
  "singlestep sz call L g =
     (if g_gcstate g = GCSpause then Some (0, markroot g)
      else if g_gcstate g = GCSpropagate then
        (if g_gray g \<noteq> [] then Some (propagatemark sz g) else map_option (\<lambda>g. (0, g)) (atomic sz L g))
      else if g_gcstate g = GCSsweepstring then
        (let old = g_totalbytes g;
             i = g_sweepstrgc g;
             (xs, g) = sweepwholelist sz (g_strt g ! i) g;
             g = g\<lparr>g_strt := (g_strt g)[i := xs], g_sweepstrgc := i + 1\<rparr>;
             g = (if length (g_strt g) \<le> g_sweepstrgc g then g\<lparr>g_gcstate := GCSsweep\<rparr> else g)
         in Some (GCSWEEPCOST, g\<lparr>g_estimate := g_estimate g - (old - g_totalbytes g)\<rparr>))
      else if g_gcstate g = GCSsweep then
        (let old = g_totalbytes g;
             (p, g) = sweeplist sz GCSWEEPMAX (g_sweepgc g) g;
             g = g\<lparr>g_sweepgc := p\<rparr>;
             g = (if root_after p g = [] then (checkSizes g)\<lparr>g_gcstate := GCSfinalize\<rparr> else g)
         in Some (GCSWEEPMAX * GCSWEEPCOST, g\<lparr>g_estimate := g_estimate g - (old - g_totalbytes g)\<rparr>))
      else
        (if g_tmudata g \<noteq> [] then
           (let g = GCTM call g;
                g = (if of_nat GCFINALIZECOST < g_estimate g
                     then g\<lparr>g_estimate := g_estimate g - of_nat GCFINALIZECOST\<rparr> else g)
            in Some (GCFINALIZECOST, g))
         else Some (0, g\<lparr>g_gcstate := GCSpause, g_gcdept := 0\<rparr>)))"

definition setthreshold :: "gcstate \<Rightarrow> gcstate" where
  "setthreshold g = g\<lparr>g_threshold := (g_estimate g div 100) * scast (g_gcpause g)\<rparr>"

partial_function (option) step_loop ::
    "(gcobj \<Rightarrow> nat) \<Rightarrow> (gcval \<Rightarrow> gcref \<Rightarrow> gcstate \<Rightarrow> gcstate) \<Rightarrow> gcref \<Rightarrow> int \<Rightarrow> gcstate \<Rightarrow> gcstate option" where
  "step_loop sz call L budget g =
     Option.bind (singlestep sz call L g) (\<lambda>(c, g).
       if g_gcstate g = GCSpause then Some g
       else if 0 < budget - int c then step_loop sz call L (budget - int c) g
       else Some g)"

definition luaC_step ::
    "(gcobj \<Rightarrow> nat) \<Rightarrow> (gcval \<Rightarrow> gcref \<Rightarrow> gcstate \<Rightarrow> gcstate) \<Rightarrow> gcref \<Rightarrow> gcstate \<Rightarrow> gcstate option" where
  "luaC_step sz call L g =
     (let budget = int (unat ((1024 div 100) * g_gcstepmul g));
          budget = (if budget = 0 then (2 ^ 64 - 3 - 1) div 2 else budget);
          g = g\<lparr>g_gcdept := g_gcdept g + (g_totalbytes g - g_threshold g)\<rparr>
      in map_option (\<lambda>g.
           if g_gcstate g \<noteq> GCSpause then
             (if g_gcdept g < GCSTEPSIZE then g\<lparr>g_threshold := g_totalbytes g + GCSTEPSIZE\<rparr>
              else g\<lparr>g_gcdept := g_gcdept g - GCSTEPSIZE, g_threshold := g_totalbytes g\<rparr>)
           else setthreshold g) (step_loop sz call L budget g))"

partial_function (option) run_until ::
    "(gcobj \<Rightarrow> nat) \<Rightarrow> (gcval \<Rightarrow> gcref \<Rightarrow> gcstate \<Rightarrow> gcstate) \<Rightarrow> gcref \<Rightarrow> nat \<Rightarrow> gcstate \<Rightarrow> gcstate option" where
  "run_until sz call L phase g =
     (if g_gcstate g = phase then Some g
      else Option.bind (singlestep sz call L g) (\<lambda>(_, g). run_until sz call L phase g))"

definition luaC_fullgc ::
    "(gcobj \<Rightarrow> nat) \<Rightarrow> (gcval \<Rightarrow> gcref \<Rightarrow> gcstate \<Rightarrow> gcstate) \<Rightarrow> gcref \<Rightarrow> gcstate \<Rightarrow> gcstate option" where
  "luaC_fullgc sz call L g =
     (let g = (if g_gcstate g \<le> GCSpropagate then
                 g\<lparr>g_sweepstrgc := 0, g_sweepgc := None, g_gray := [], g_grayagain := [], g_weak := [],
                   g_gcstate := GCSsweepstring\<rparr>
               else g)
      in case run_until sz call L GCSfinalize g of
           None \<Rightarrow> None
         | Some g \<Rightarrow> map_option setthreshold (run_until sz call L GCSpause (markroot g)))"

end
