(* ===== verification/Lua_Gcmark.thy ===== *)
theory Lua_Gcmark
  imports Lua_Gc
begin

text \<open>
  The marking phase of \<open>lgc.c\<close>: what marking changes (\<open>grow\<close>), the invariant that a marked object
  outside the gray lists has marked references (\<open>traced\<close>), and the termination of \<open>propagateall\<close>.
\<close>

unbundle bit_operations_syntax

section \<open>Bits of the \<open>marked\<close> byte\<close>

named_theorems gc_bits

lemma bit_bitmask [gc_bits]: "b < 8 \<Longrightarrow> bit (bitmask b) n \<longleftrightarrow> n = b"
  by (auto simp: bitmask_def bit_simps)

lemma bit_WHITEBITS [gc_bits]: "bit WHITEBITS n \<longleftrightarrow> n = 0 \<or> n = 1"
  by (auto simp: WHITEBITS_def bit_simps gc_bits)

lemma bit_less_8: "bit (m :: 8 word) n \<Longrightarrow> n < 8"
  using bit_imp_le_length [of m n] by simp

lemma word8_nonzero: "(m :: 8 word) \<noteq> 0 \<longleftrightarrow> (\<exists>n. bit m n)"
  using bit_word_eqI [of m 0] by auto

lemma white_byte_bit [gc_bits]: "white_byte m \<longleftrightarrow> bit m 0 \<or> bit m 1"
  unfolding white_byte_def word8_nonzero by (auto simp: bit_simps gc_bits)

lemma testbit_bit [gc_bits]: "b < 8 \<Longrightarrow> testbit m b \<longleftrightarrow> bit m b"
  unfolding testbit_def word8_nonzero by (auto simp: bit_and_iff gc_bits)

lemma bit_white2gray [gc_bits]: "bit (white2gray m) n \<longleftrightarrow> bit m n \<and> n \<noteq> 0 \<and> n \<noteq> 1"
  by (auto simp: white2gray_def bit_simps gc_bits dest: bit_less_8)

lemma bit_l_setbit [gc_bits]: "b < 8 \<Longrightarrow> bit (l_setbit b m) n \<longleftrightarrow> bit m n \<or> n = b"
  by (auto simp: l_setbit_def bit_simps gc_bits)

lemma bit_resetbit [gc_bits]: "b < 8 \<Longrightarrow> bit (resetbit b m) n \<longleftrightarrow> bit m n \<and> n \<noteq> b"
  by (auto simp: resetbit_def bit_simps gc_bits dest: bit_less_8)

lemma bit_gray2black [gc_bits]: "bit (gray2black m) n \<longleftrightarrow> bit m n \<or> n = 2"
  by (simp add: gray2black_def gc_bits)

lemma bit_black2gray [gc_bits]: "bit (black2gray m) n \<longleftrightarrow> bit m n \<and> n \<noteq> 2"
  by (simp add: black2gray_def gc_bits)

lemma bit_makewhite [gc_bits]:
  "bit (makewhite g m) n \<longleftrightarrow> bit m n \<and> 3 \<le> n \<or> bit (g_currentwhite g) n \<and> n \<le> 1"
  by (auto simp: makewhite_def maskmarks_def luaC_white_def bit_simps gc_bits dest: bit_less_8)

lemma bit_weak_bits [gc_bits]:
  "bit (weak_bits wk wv m) n \<longleftrightarrow> (if n = 3 then wk else if n = 4 then wv else bit m n)"
  by (auto simp: weak_bits_def bit_simps gc_bits bit_of_bool_iff dest: bit_less_8)

section \<open>Marked objects and their references\<close>

definition M :: "gcstate \<Rightarrow> gcref set" where "M g = {x. \<not> iswhite g x}"

primrec vrefs :: "gcval \<Rightarrow> gcref set" where
  "vrefs GNil = {}" | "vrefs GPlain = {}" | "vrefs (GRef x) = {x}" | "vrefs (GDead x) = {}"

text \<open>What a table keeps alive when its keys, or its values, are weak.\<close>

definition trefs :: "bool \<Rightarrow> bool \<Rightarrow> gtable \<Rightarrow> gcref set" where
  "trefs wk wv tb =
     set_option (tb_metatable tb) \<union> (if wv then {} else \<Union> (vrefs ` set (tb_array tb))) \<union>
     (\<Union> n \<in> {n \<in> set (tb_node tb). snd n \<noteq> GNil}. (if wk then {} else vrefs (fst n)) \<union> (if wv then {} else vrefs (snd n)))"

definition orefs :: "gcstate \<Rightarrow> gcobj \<Rightarrow> gcref set" where
  "orefs g ob =
     (case ob of
        OString s \<Rightarrow> {}
      | OUdata mt env \<Rightarrow> insert env (set_option mt)
      | OUpval u \<Rightarrow> vrefs (uv_value g u)
      | OCclosure env ups \<Rightarrow> insert env (\<Union> (vrefs ` set ups))
      | OLclosure env p ups \<Rightarrow> insert env (insert p (set ups))
      | OTable tb \<Rightarrow> trefs False False tb
      | OProto src k us ps ls \<Rightarrow>
          set_option src \<union> \<Union> (vrefs ` set k) \<union> \<Union> (set_option ` set us) \<union> \<Union> (set_option ` set ps) \<union>
          \<Union> (set_option ` set ls)
      | OThread th \<Rightarrow> vrefs (th_gt th) \<union> \<Union> (vrefs ` set (take (th_top th) (th_stack th))))"

definition refs :: "gcstate \<Rightarrow> gcref \<Rightarrow> gcref set" where
  "refs g x = (case g_objs g x of None \<Rightarrow> {} | Some ob \<Rightarrow> orefs g ob)"

definition leaf :: "gcstate \<Rightarrow> gcref \<Rightarrow> bool" where
  "leaf g x \<longleftrightarrow> (case g_objs g x of None \<Rightarrow> True | Some (OString s) \<Rightarrow> True | _ \<Rightarrow> False)"

definition is_openuv :: "gcstate \<Rightarrow> gcref \<Rightarrow> bool" where
  "is_openuv g x \<longleftrightarrow> (\<exists>t i. g_objs g x = Some (OUpval (UOpen t i)))"

definition is_thread :: "gcstate \<Rightarrow> gcref \<Rightarrow> bool" where
  "is_thread g x \<longleftrightarrow> (\<exists>th. g_objs g x = Some (OThread th))"

definition is_table :: "gcstate \<Rightarrow> gcref \<Rightarrow> bool" where
  "is_table g x \<longleftrightarrow> (\<exists>tb. g_objs g x = Some (OTable tb))"

text \<open>What marking never blackens.\<close>

definition keeps_colour :: "gcstate \<Rightarrow> gcref \<Rightarrow> bool" where
  "keeps_colour g x \<longleftrightarrow> is_openuv g x \<or> is_table g x \<or> is_thread g x"

text \<open>How deep \<open>reallymarkobject\<close> nests at an object.\<close>

definition rank :: "gcstate \<Rightarrow> gcref \<Rightarrow> nat" where
  "rank g x = (case g_objs g x of Some (OUpval u) \<Rightarrow> 3 | Some (OUdata mt env) \<Rightarrow> 2 | _ \<Rightarrow> 1)"

text \<open>
  The types of references marking relies on: a userdata has tables, an upvalue a Lua value, a
  prototype the names of its variables as strings.
\<close>

definition obj_wt :: "gcstate \<Rightarrow> gcobj \<Rightarrow> bool" where
  "obj_wt g ob \<longleftrightarrow>
     (case ob of
        OUdata mt env \<Rightarrow> (\<forall>y \<in> insert env (set_option mt). rank g y \<le> 1)
      | OUpval u \<Rightarrow> (\<forall>y \<in> vrefs (uv_value g u). rank g y \<le> 2)
      | OProto src k us ps ls \<Rightarrow>
          (\<forall>y \<in> set_option src \<union> \<Union> (set_option ` set us) \<union> \<Union> (set_option ` set ls). leaf g y)
      | _ \<Rightarrow> True)"

definition wt :: "gcstate \<Rightarrow> bool" where
  "wt g \<longleftrightarrow> (\<forall>x ob. g_objs g x = Some ob \<longrightarrow> obj_wt g ob)"

section \<open>What marking changes\<close>

definition new_ok :: "gcstate \<Rightarrow> gcref \<Rightarrow> bool" where
  "new_ok g x \<longleftrightarrow> x \<in> set (g_gray g) \<or> refs g x \<subseteq> M g \<and> (isblack g x \<or> leaf g x \<or> is_openuv g x) \<and> \<not> is_thread g x"

definition same_rest :: "gcstate \<Rightarrow> gcstate \<Rightarrow> bool" where
  "same_rest g g' \<longleftrightarrow> g' = g\<lparr>g_marked := g_marked g', g_gray := g_gray g'\<rparr>"

lemma same_rest_refl: "same_rest g g"
  by (simp add: same_rest_def)

lemma same_rest_trans: "same_rest g1 g2 \<Longrightarrow> same_rest g2 g3 \<Longrightarrow> same_rest g1 g3"
  unfolding same_rest_def by (cases g1; cases g2; cases g3) simp

lemma same_rest_fields:
  assumes "same_rest g g'"
  shows "g_objs g' = g_objs g" "g_strt g' = g_strt g" "g_nuse g' = g_nuse g"
    "g_currentwhite g' = g_currentwhite g" "g_gcstate g' = g_gcstate g" "g_sweepstrgc g' = g_sweepstrgc g"
    "g_rootgc g' = g_rootgc g" "g_sweepgc g' = g_sweepgc g" "g_grayagain g' = g_grayagain g"
    "g_weak g' = g_weak g" "g_tmudata g' = g_tmudata g" "g_registry g' = g_registry g"
    "g_mainthread g' = g_mainthread g" "g_uvhead g' = g_uvhead g" "g_mt g' = g_mt g"
    "g_tm_gc g' = g_tm_gc g" "g_tm_mode g' = g_tm_mode g" "g_totalbytes g' = g_totalbytes g"
  by (subst assms [unfolded same_rest_def], simp)+

text \<open>Marking, up to what is still to be done with the objects in \<open>Y\<close>.\<close>

definition grayable :: "gcstate \<Rightarrow> gcref \<Rightarrow> bool" where
  "grayable g x \<longleftrightarrow> g_objs g x \<noteq> None \<and> rank g x = 1"

definition new_gray :: "gcstate \<Rightarrow> gcstate \<Rightarrow> bool" where
  "new_gray g g' \<longleftrightarrow>
     (\<exists>ns. g_gray g' = ns @ g_gray g \<and> distinct ns \<and> (\<forall>x \<in> set ns. x \<in> M g' \<and> x \<notin> M g \<and> grayable g x))"

text \<open>What stays white keeps its white bit.\<close>

definition white_same :: "gcstate \<Rightarrow> gcstate \<Rightarrow> bool" where
  "white_same g g' \<longleftrightarrow> (\<forall>x b. x \<notin> M g' \<longrightarrow> b \<le> 1 \<longrightarrow> bit (g_marked g' x) b = bit (g_marked g x) b)"

lemma white_same_refl: "g_marked g' = g_marked g \<Longrightarrow> white_same g g'"
  by (simp add: white_same_def)

lemma white_same_trans: "white_same g1 g2 \<Longrightarrow> white_same g2 g3 \<Longrightarrow> M g2 \<subseteq> M g3 \<Longrightarrow> white_same g1 g3"
  unfolding white_same_def by (metis subsetD)

lemma white_same_one: "\<forall>y. y \<noteq> x \<longrightarrow> g_marked g' y = g_marked g y \<Longrightarrow>
    x \<in> M g' \<or> (\<forall>b \<le> 1. bit (g_marked g' x) b = bit (g_marked g x) b) \<Longrightarrow> white_same g g'"
  unfolding white_same_def by metis

definition grow_ex :: "gcref set \<Rightarrow> gcstate \<Rightarrow> gcstate \<Rightarrow> bool" where
  "grow_ex Y g g' \<longleftrightarrow>
     same_rest g g' \<and> new_gray g g' \<and> M g \<subseteq> M g' \<and>
     (\<forall>x \<in> M g - Y. g_marked g' x = g_marked g x) \<and>
     (\<forall>x \<in> M g' - M g - Y. new_ok g' x) \<and>
     (\<forall>x b. 3 \<le> b \<longrightarrow> bit (g_marked g' x) b = bit (g_marked g x) b) \<and>
     (\<forall>x. keeps_colour g x \<longrightarrow> isblack g' x \<longrightarrow> isblack g x) \<and> white_same g g'"

abbreviation grow :: "gcstate \<Rightarrow> gcstate \<Rightarrow> bool" where "grow \<equiv> grow_ex {}"

lemma grow_exD:
  assumes "grow_ex Y g g'"
  shows "same_rest g g'" "new_gray g g'" "M g \<subseteq> M g'"
    "x \<in> M g \<Longrightarrow> x \<notin> Y \<Longrightarrow> g_marked g' x = g_marked g x"
    "x \<in> M g' \<Longrightarrow> x \<notin> M g \<Longrightarrow> x \<notin> Y \<Longrightarrow> new_ok g' x"
    "3 \<le> b \<Longrightarrow> bit (g_marked g' x) b = bit (g_marked g x) b"
    "keeps_colour g x \<Longrightarrow> isblack g' x \<Longrightarrow> isblack g x"
    "g_objs g' = g_objs g" "white_same g g'"
  using assms same_rest_fields(1) unfolding grow_ex_def by blast+

lemma new_gray_set: "new_gray g g' \<Longrightarrow> set (g_gray g) \<subseteq> set (g_gray g')"
  by (auto simp: new_gray_def)

lemma uv_value_cong: "g_objs g' = g_objs g \<Longrightarrow> uv_value g' u = uv_value g u"
  by (cases u) (simp_all add: uv_value_def)

lemma orefs_cong:
  assumes "g_objs g' = g_objs g"
  shows "orefs g' ob = orefs g ob"
  using uv_value_cong [OF assms] by (cases ob) (simp_all add: orefs_def)

lemma refs_cong:
  assumes "g_objs g' = g_objs g"
  shows "refs g' x = refs g x"
  using orefs_cong [OF assms] by (cases "g_objs g x") (simp_all add: refs_def assms)

lemma kind_cong:
  assumes "g_objs g' = g_objs g"
  shows "rank g' x = rank g x" "leaf g' x = leaf g x" "is_openuv g' x = is_openuv g x"
    "is_thread g' x = is_thread g x" "is_table g' x = is_table g x" "keeps_colour g' x = keeps_colour g x"
  using assms unfolding rank_def leaf_def keeps_colour_def is_openuv_def is_thread_def is_table_def by simp_all

lemma wt_cong:
  assumes "g_objs g' = g_objs g"
  shows "wt g' = wt g"
proof -
  have "obj_wt g' ob = obj_wt g ob" for ob
    by (cases ob) (simp_all add: obj_wt_def kind_cong [OF assms] uv_value_cong [OF assms])
  thus ?thesis
    by (simp add: wt_def assms)
qed

lemma grow_refl: "grow_ex Y g g"
  by (auto simp: grow_ex_def same_rest_refl new_gray_def white_same_refl)

lemma new_ok_mono:
  assumes "new_ok g x" "grow_ex Y g g'" "x \<in> M g" "x \<notin> Y"
  shows "new_ok g' x"
proof -
  note d = grow_exD [OF assms(2)]
  note e = d(8)
  have "isblack g' x = isblack g x"
    using d(4) [OF assms(3,4)] by (simp add: isblack_def)
  thus ?thesis
    using assms(1) d(3) new_gray_set [OF d(2)] unfolding new_ok_def refs_cong [OF e] kind_cong [OF e] by blast
qed

lemma new_gray_trans:
  assumes "new_gray g1 g2" "new_gray g2 g3" "M g1 \<subseteq> M g2" "M g2 \<subseteq> M g3" "g_objs g2 = g_objs g1"
  shows "new_gray g1 g3"
proof -
  obtain ns1 where 1: "g_gray g2 = ns1 @ g_gray g1" "distinct ns1"
      "\<forall>x \<in> set ns1. x \<in> M g2 \<and> x \<notin> M g1 \<and> grayable g1 x"
    using assms(1) unfolding new_gray_def by blast
  obtain ns2 where 2: "g_gray g3 = ns2 @ g_gray g2" "distinct ns2"
      "\<forall>x \<in> set ns2. x \<in> M g3 \<and> x \<notin> M g2 \<and> grayable g2 x"
    using assms(2) unfolding new_gray_def by blast
  have "g_gray g3 = (ns2 @ ns1) @ g_gray g1 \<and> distinct (ns2 @ ns1) \<and>
      (\<forall>x \<in> set (ns2 @ ns1). x \<in> M g3 \<and> x \<notin> M g1 \<and> grayable g1 x)"
    using 1 2 assms(3,4) kind_cong(1) [OF assms(5)] assms(5) unfolding grayable_def by fastforce
  thus ?thesis
    unfolding new_gray_def by blast
qed

lemma grow_trans:
  assumes "grow_ex Y g1 g2" "grow_ex Y g2 g3"
  shows "grow_ex Y g1 g3"
proof -
  note d1 = grow_exD [OF assms(1)] and d2 = grow_exD [OF assms(2)]
  have n: "new_ok g3 x" if "x \<in> M g3 - M g1 - Y" for x
    using that new_ok_mono [OF _ assms(2), of x] d1(5) [of x] d2(5) [of x] by blast
  have m: "g_marked g3 x = g_marked g1 x" if "x \<in> M g1 - Y" for x
    using that d1(3) d1(4) [of x] d2(4) [of x] by auto
  have u: "keeps_colour g1 x \<Longrightarrow> isblack g3 x \<Longrightarrow> isblack g1 x" for x
    using d1(7) [of x] d2(7) [of x] kind_cong(6) [OF d1(8), of x] by blast
  show ?thesis
    unfolding grow_ex_def
    using n m u same_rest_trans [OF d1(1) d2(1)] new_gray_trans [OF d1(2) d2(2) d1(3) d2(3) d1(8)] d1(3) d2(3)
      d1(6) d2(6) white_same_trans [OF d1(9) d2(9) d2(3)] by auto
qed

lemma grow_close:
  assumes "grow_ex {x} g g'" "x \<notin> M g" "x \<in> M g' \<Longrightarrow> new_ok g' x"
  shows "grow g g'"
proof -
  note d = grow_exD [OF assms(1)]
  have "new_ok g' y" if "y \<in> M g' - M g" for y
    using that assms(3) d(5) [of y] by (cases "y = x") auto
  moreover have "g_marked g' y = g_marked g y" if "y \<in> M g" for y
    using that assms(2) d(4) [of y] by (cases "y = x") auto
  ultimately show ?thesis
    unfolding grow_ex_def using d(1-3,6,7,9) by auto
qed

section \<open>\<open>reallymarkobject\<close>\<close>

lemma set_mark_simps [simp]:
  "g_objs (set_mark x f g) = g_objs g" "g_gray (set_mark x f g) = g_gray g"
  "g_marked (set_mark x f g) = (g_marked g)(x := f (g_marked g x))"
  by (simp_all add: set_mark_def)

lemma set_mark_same_rest [simp]: "same_rest g (set_mark x f g)"
  by (simp add: same_rest_def set_mark_def)

lemma M_white2gray: "M (set_mark x white2gray g) = insert x (M g)"
  by (auto simp: M_def iswhite_def gc_bits)

lemma M_gray2black: "M (set_mark x gray2black g) = M g"
  by (auto simp: M_def iswhite_def gc_bits)

lemma M_black2gray: "M (set_mark x black2gray g) = M g"
  by (auto simp: M_def iswhite_def gc_bits)

lemma grow_mono: "grow_ex Y g g' \<Longrightarrow> Y \<subseteq> Z \<Longrightarrow> grow_ex Z g g'"
  unfolding grow_ex_def by blast

lemma white_same_marks:
  "white_same g (set_mark x white2gray g)" "white_same g (set_mark x gray2black g)"
  by (rule white_same_one [of x]; auto simp: M_white2gray gc_bits)+

lemma grow_white2gray: "iswhite g x \<Longrightarrow> grow_ex {x} g (set_mark x white2gray g)"
  unfolding grow_ex_def M_white2gray
  using white_same_marks(1) [of g x]
  by (auto simp: new_gray_def gc_bits M_def isblack_def split: if_splits)

lemma grow_gray2black: "\<not> keeps_colour g x \<Longrightarrow> grow_ex {x} g (set_mark x gray2black g)"
  unfolding grow_ex_def M_gray2black
  using white_same_marks(2) [of g x]
  by (auto simp: new_gray_def gc_bits M_def isblack_def split: if_splits)

lemma grow_push_gray:
  assumes "iswhite g x" "grayable g x"
  shows "grow g ((set_mark x white2gray g)\<lparr>g_gray := x # g_gray g\<rparr>)"
proof -
  let ?g = "(set_mark x white2gray g)\<lparr>g_gray := x # g_gray g\<rparr>"
  have "M ?g = insert x (M g)"
    by (auto simp: M_def iswhite_def gc_bits)
  moreover have "new_gray g ?g"
    unfolding new_gray_def by (rule exI [of _ "[x]"]) (use assms in \<open>auto simp: M_def iswhite_def gc_bits\<close>)
  moreover have "same_rest g ?g"
    by (simp add: same_rest_def set_mark_def)
  moreover have "x \<notin> M g"
    using assms(1) by (simp add: M_def)
  moreover have "white_same g ?g"
    by (rule white_same_one [of x]) (auto simp: M_def iswhite_def gc_bits)
  ultimately show ?thesis
    unfolding grow_ex_def
    by (auto simp: gc_bits new_ok_def isblack_def split: if_splits)
qed

text \<open>What the marking of one object, of rank at most \<open>n\<close>, does.\<close>

definition marks :: "nat \<Rightarrow> gcstate \<Rightarrow> (gcref \<Rightarrow> gcstate \<Rightarrow> gcstate) \<Rightarrow> bool" where
  "marks n g0 f \<longleftrightarrow>
     (\<forall>g x. g_objs g = g_objs g0 \<longrightarrow> iswhite g x \<longrightarrow> rank g x \<le> n \<longrightarrow> grow g (f x g) \<and> x \<in> M (f x g))"

lemma marksD:
  "marks n g0 f \<Longrightarrow> g_objs g = g_objs g0 \<Longrightarrow> iswhite g x \<Longrightarrow> rank g x \<le> n \<Longrightarrow> grow g (f x g) \<and> x \<in> M (f x g)"
  unfolding marks_def by blast

lemma mark_if_white_grow:
  assumes "marks n g0 f" "g_objs g = g_objs g0" "rank g x \<le> n"
  shows "grow g (mark_if_white f x g) \<and> x \<in> M (mark_if_white f x g)"
  using marksD [OF assms(1,2) _ assms(3)] grow_refl by (auto simp: mark_if_white_def M_def)

lemma mark_value_grow:
  assumes "marks n g0 f" "g_objs g = g_objs g0" "\<forall>x \<in> vrefs v. rank g x \<le> n"
  shows "grow g (mark_value_with f v g) \<and> vrefs v \<subseteq> M (mark_value_with f v g)"
  using assms(3) mark_if_white_grow [OF assms(1,2)] grow_refl by (cases v) (auto simp: mark_value_with_def)

lemma really_mark_udata:
  assumes f: "marks n g f" and w: "iswhite g x" and ob: "g_objs g x = Some (OUdata mt env)"
    and r: "rank g env \<le> n" "\<forall>t. mt = Some t \<longrightarrow> rank g t \<le> n"
    and g2: "g2 = set_mark x gray2black (set_mark x white2gray g)"
    and g3: "g3 = (case mt of None \<Rightarrow> g2 | Some t \<Rightarrow> mark_if_white f t g2)"
    and g4: "g4 = mark_if_white f env g3"
  shows "grow g g4 \<and> x \<in> M g4"
proof -
  have e2: "g_objs g2 = g_objs g"
    by (simp add: g2)
  have nu: "\<not> keeps_colour g x" "\<not> is_thread g x"
    using ob by (simp_all add: keeps_colour_def is_openuv_def is_table_def is_thread_def)
  have 1: "grow_ex {x} g g2"
    unfolding g2
    by (rule grow_trans [OF grow_white2gray [OF w] grow_gray2black])
      (use nu kind_cong(6) [of "set_mark x white2gray g" g] in simp)
  have 2: "grow g2 g3 \<and> set_option mt \<subseteq> M g3"
    using mark_if_white_grow [OF f e2] r(2) grow_refl by (auto simp: g3 kind_cong [OF e2] split: option.split)
  have e3: "g_objs g3 = g_objs g"
    using 2 e2 grow_exD(8) by metis
  have 3: "grow g3 g4 \<and> env \<in> M g4"
    using mark_if_white_grow [OF f e3] r(1) by (simp add: g4 kind_cong [OF e3])
  have g24: "grow g2 g4"
    using 2 3 grow_trans by blast
  have x2: "x \<in> M g2" "isblack g2 x"
    by (simp_all add: g2 M_gray2black M_white2gray isblack_def gc_bits)
  have x4: "x \<in> M g4" "isblack g4 x"
    using x2 grow_exD(3) [OF g24] grow_exD(4) [OF g24 x2(1)] by (auto simp: isblack_def)
  have e4: "g_objs g4 = g_objs g"
    using grow_exD(8) [OF g24] e2 by simp
  have "refs g4 x \<subseteq> M g4"
    unfolding refs_cong [OF e4] using 2 3 grow_exD(3) [of "{}" g3 g4] by (auto simp: refs_def ob orefs_def)
  hence "new_ok g4 x"
    using x4 nu by (simp add: new_ok_def kind_cong [OF e4])
  moreover have "grow_ex {x} g g4"
    by (rule grow_trans [OF 1 grow_mono [OF g24]]) simp
  ultimately show ?thesis
    using grow_close w x4 by (simp add: M_def)
qed

lemma really_mark_upval:
  assumes f: "marks n g f" and w: "iswhite g x" and ob: "g_objs g x = Some (OUpval u)"
    and r: "\<forall>y \<in> vrefs (uv_value g u). rank g y \<le> n"
    and g2: "g2 = mark_value_with f (uv_value (set_mark x white2gray g) u) (set_mark x white2gray g)"
    and g3: "g3 = (case u of UClosed v \<Rightarrow> set_mark x gray2black g2 | UOpen t i \<Rightarrow> g2)"
  shows "grow g g3 \<and> x \<in> M g3"
proof -
  let ?g1 = "set_mark x white2gray g"
  have e1: "g_objs ?g1 = g_objs g"
    by simp
  have 2: "grow ?g1 g2 \<and> vrefs (uv_value g u) \<subseteq> M g2"
    using mark_value_grow [OF f e1] r by (simp add: g2 uv_value_cong [OF e1] kind_cong [OF e1])
  hence g12: "grow ?g1 g2" by blast
  have e2: "g_objs g2 = g_objs g"
    using grow_exD(8) [OF g12] by simp
  have e3: "g_objs g3 = g_objs g"
    by (simp add: g3 e2 split: uvloc.split)
  have M3: "M g3 = M g2"
    by (simp add: g3 M_gray2black split: uvloc.split)
  have x3: "x \<in> M g3"
    using grow_exD(3) [OF g12] by (auto simp: M3 M_white2gray)
  have 3: "grow_ex {x} g2 g3"
    using ob grow_gray2black [of g2 x] grow_refl
    by (auto simp: g3 keeps_colour_def is_openuv_def is_table_def is_thread_def e2 split: uvloc.split)
  have bl: "isblack g3 x \<or> is_openuv g3 x"
    using ob by (auto simp: g3 is_openuv_def e2 isblack_def gc_bits split: uvloc.split)
  have "refs g3 x \<subseteq> M g3"
    unfolding refs_cong [OF e3] M3 using 2 by (auto simp: refs_def ob orefs_def)
  moreover have "\<not> is_thread g3 x"
    using ob by (simp add: is_thread_def e3)
  ultimately have "new_ok g3 x"
    using bl by (auto simp: new_ok_def)
  moreover have "grow_ex {x} g g3"
    by (rule grow_trans [OF grow_trans [OF grow_white2gray [OF w] grow_mono [OF g12]] 3]) simp
  ultimately show ?thesis
    using grow_close w x3 by (simp add: M_def)
qed

lemma really_mark_leaf:
  assumes w: "iswhite g x" and l: "leaf g x"
  shows "grow g (set_mark x white2gray g) \<and> x \<in> M (set_mark x white2gray g)"
proof -
  let ?g1 = "set_mark x white2gray g"
  have e1: "g_objs ?g1 = g_objs g"
    by simp
  have "refs g x = {}" "\<not> is_thread g x"
    using l by (auto simp: leaf_def refs_def orefs_def is_thread_def split: option.splits gcobj.splits)
  hence "new_ok ?g1 x"
    using l by (simp add: new_ok_def refs_cong [OF e1] kind_cong [OF e1])
  thus ?thesis
    using grow_close [OF grow_white2gray [OF w]] w by (simp add: M_def M_white2gray [unfolded M_def])
qed

lemma wt_udata: "wt g \<Longrightarrow> g_objs g x = Some (OUdata mt env) \<Longrightarrow> y \<in> insert env (set_option mt) \<Longrightarrow> rank g y \<le> 1"
  unfolding wt_def obj_wt_def by fastforce

lemma wt_upval: "wt g \<Longrightarrow> g_objs g x = Some (OUpval u) \<Longrightarrow> y \<in> vrefs (uv_value g u) \<Longrightarrow> rank g y \<le> 2"
  unfolding wt_def obj_wt_def by fastforce

lemma rank_pos [simp]: "rank g x \<noteq> 0"
  by (simp add: rank_def split: option.split gcobj.split)

lemma really_mark_marks: "wt g \<Longrightarrow> marks n g (really_mark n)"
proof (induction n)
  case 0
  show ?case
    by (simp add: marks_def)
next
  case (Suc n)
  have IH: "marks n g (really_mark n)"
    by (rule Suc.IH [OF Suc.prems])
  have "grow h (really_mark (Suc n) x h) \<and> x \<in> M (really_mark (Suc n) x h)"
    if e: "g_objs h = g_objs g" and w: "iswhite h x" and r: "rank h x \<le> Suc n" for h x
  proof -
    have f: "marks n h (really_mark n)"
      using IH e by (simp add: marks_def)
    have wt: "wt h"
      using Suc.prems wt_cong [OF e] by simp
    have xw: "x \<in> M ((set_mark x white2gray h)\<lparr>g_gray := x # g_gray h\<rparr>)"
      by (simp add: M_def iswhite_def gc_bits)
    show ?thesis
    proof (cases "g_objs h x")
      case None
      thus ?thesis
        using really_mark_leaf [OF w] by (simp add: leaf_def)
    next
      case (Some ob)
      show ?thesis
      proof (cases ob)
        case (OString s)
        thus ?thesis
          using really_mark_leaf [OF w] Some by (simp add: leaf_def)
      next
        case (OUdata mt env)
        have "1 \<le> n"
          using r Some OUdata by (simp add: rank_def)
        moreover have "rank h y \<le> 1" if "y \<in> insert env (set_option mt)" for y
          by (rule wt_udata [OF wt Some [unfolded OUdata] that])
        ultimately have "rank h env \<le> n" "\<forall>t. mt = Some t \<longrightarrow> rank h t \<le> n"
          by (force intro: le_trans)+
        from really_mark_udata [OF f w Some [unfolded OUdata] this refl refl refl]
        show ?thesis
          by (simp add: Some OUdata Let_def)
      next
        case (OUpval u)
        have "2 \<le> n"
          using r Some OUpval by (simp add: rank_def)
        hence "\<forall>y \<in> vrefs (uv_value h u). rank h y \<le> n"
          using wt_upval [OF wt Some [unfolded OUpval]] le_trans by blast
        from really_mark_upval [OF f w Some [unfolded OUpval] this refl refl]
        show ?thesis
          by (simp add: Some OUpval Let_def)
      qed (use grow_push_gray [OF w] xw Some in \<open>simp_all add: Let_def grayable_def rank_def\<close>)
    qed
  qed
  thus ?case
    unfolding marks_def by blast
qed

text \<open>Three levels are enough, whatever the object.\<close>

lemma mark_depth_enough: "wt g \<Longrightarrow> marks 3 g reallymarkobject"
  by (simp add: reallymarkobject_def really_mark_marks)

lemma rank_le_3: "rank g x \<le> 3"
  by (simp add: rank_def split: option.split gcobj.split)

lemma reallymark_grow: "wt g \<Longrightarrow> iswhite g x \<Longrightarrow> grow g (reallymarkobject x g) \<and> x \<in> M (reallymarkobject x g)"
  using marksD [OF mark_depth_enough refl] rank_le_3 by blast

lemma markobject_grow: "wt g \<Longrightarrow> grow g (markobject x g) \<and> x \<in> M (markobject x g)"
  unfolding markobject_def by (rule mark_if_white_grow [OF mark_depth_enough refl rank_le_3])

lemma markvalue_grow: "wt g \<Longrightarrow> grow g (markvalue v g) \<and> vrefs v \<subseteq> M (markvalue v g)"
  unfolding markvalue_def by (rule mark_value_grow [OF mark_depth_enough refl]) (simp_all add: rank_le_3)

lemma mark_opt_grow: "wt g \<Longrightarrow> grow g (mark_opt x g) \<and> set_option x \<subseteq> M (mark_opt x g)"
  using markobject_grow [of g] grow_refl by (auto simp: mark_opt_def split: option.split)

lemma stringmark_grow: "leaf g x \<Longrightarrow> grow g (stringmark x g) \<and> x \<in> M (stringmark x g)"
proof (cases "iswhite g x")
  case True
  thus "leaf g x \<Longrightarrow> ?thesis"
    using really_mark_leaf by (simp add: stringmark_def)
next
  case False
  hence "white2gray (g_marked g x) = g_marked g x"
    by (auto simp: iswhite_def gc_bits intro!: bit_word_eqI intro: ccontr)
  hence "stringmark x g = g"
    by (simp add: stringmark_def set_mark_def)
  thus ?thesis
    using False grow_refl by (simp add: M_def)
qed

lemma stringmark_opt_grow:
  "\<forall>y \<in> set_option x. leaf g y \<Longrightarrow> grow g (stringmark_opt x g) \<and> set_option x \<subseteq> M (stringmark_opt x g)"
  using stringmark_grow grow_refl by (auto simp: stringmark_opt_def split: option.split)

text \<open>A sequence of markings.\<close>

lemma fold_grow:
  assumes "\<And>a h. a \<in> set xs \<Longrightarrow> g_objs h = g_objs g \<Longrightarrow> grow h (f a h) \<and> R a \<subseteq> M (f a h)"
  shows "grow g (fold f xs g) \<and> \<Union> (R ` set xs) \<subseteq> M (fold f xs g)"
  using assms
proof (induction xs arbitrary: g)
  case Nil
  thus ?case
    by (simp add: grow_refl)
next
  case (Cons a xs)
  have 1: "grow g (f a g)" "R a \<subseteq> M (f a g)"
    using Cons.prems [of a g] by auto
  note e = grow_exD(8) [OF 1(1)]
  have 2: "grow (f a g) (fold f xs (f a g)) \<and> \<Union> (R ` set xs) \<subseteq> M (fold f xs (f a g))"
    by (rule Cons.IH) (use Cons.prems e in auto)
  show ?case
    using grow_trans [OF 1(1), of "fold f xs (f a g)"] 2 1(2) grow_exD(3) [of "{}" "f a g"] by auto
qed

end
