(* ===== verification/Lua_Gctrav.thy ===== *)
theory Lua_Gctrav
  imports Lua_Gcmark
begin

text \<open>
  Traversal of the gray objects: what one call of \<open>propagatemark\<close> changes, and the termination of
  \<open>propagateall\<close>.
\<close>

unbundle bit_operations_syntax

section \<open>Objects that lose references\<close>

text \<open>Traversing clears the stack above the top and the keys of empty entries; \<open>cleartable\<close> clears entries.\<close>

definition node_shrink :: "gcval \<times> gcval \<Rightarrow> gcval \<times> gcval \<Rightarrow> bool" where
  "node_shrink m n \<longleftrightarrow> n = m \<or> snd n = GNil \<and> vrefs (fst n) \<subseteq> vrefs (fst m)"

definition obj_shrink :: "gcobj \<Rightarrow> gcobj \<Rightarrow> bool" where
  "obj_shrink a b \<longleftrightarrow>
     (case (a, b) of
        (OTable s, OTable t) \<Rightarrow>
          tb_metatable t = tb_metatable s \<and>
          list_all2 (\<lambda>v w. w = v \<or> w = GNil) (tb_array s) (tb_array t) \<and>
          list_all2 node_shrink (tb_node s) (tb_node t)
      | (OThread s, OThread t) \<Rightarrow>
          th_gt t = th_gt s \<and> th_top t = th_top s \<and> th_citop t = th_citop s \<and>
          th_openupval t = th_openupval s \<and> list_all2 (\<lambda>v w. w = v \<or> w = GNil) (th_stack s) (th_stack t)
      | _ \<Rightarrow> b = a)"

definition shrinks :: "gcstate \<Rightarrow> gcstate \<Rightarrow> bool" where
  "shrinks g g' \<longleftrightarrow> (\<forall>y. rel_option obj_shrink (g_objs g y) (g_objs g' y))"

lemma obj_shrink_refl [simp]: "obj_shrink a a"
  by (cases a) (auto simp: obj_shrink_def node_shrink_def list.rel_refl)

lemma list_all2_nil_trans:
  assumes "list_all2 (\<lambda>v w. w = v \<or> w = GNil) a b" "list_all2 (\<lambda>v w. w = v \<or> w = GNil) b c"
  shows "list_all2 (\<lambda>v w. w = v \<or> w = GNil) a c"
  by (rule list_all2_trans [OF _ assms]) auto

lemma obj_shrink_trans: "obj_shrink a b \<Longrightarrow> obj_shrink b c \<Longrightarrow> obj_shrink a c"
proof (cases a)
  case (OTable s)
  assume "obj_shrink a b" "obj_shrink b c"
  moreover have "list_all2 node_shrink x y \<Longrightarrow> list_all2 node_shrink y z \<Longrightarrow> list_all2 node_shrink x z" for x y z
    by (erule (1) list_all2_trans [rotated]) (auto simp: node_shrink_def)
  ultimately show ?thesis
    using OTable list_all2_nil_trans by (auto simp: obj_shrink_def split: gcobj.splits)
next
  case (OThread s)
  assume "obj_shrink a b" "obj_shrink b c"
  thus ?thesis
    using OThread list_all2_nil_trans by (fastforce simp: obj_shrink_def split: gcobj.splits)
qed (auto simp: obj_shrink_def split: gcobj.splits)

lemma shrinks_refl: "g_objs g' = g_objs g \<Longrightarrow> shrinks g g'"
  by (simp add: shrinks_def option.rel_refl)

lemma shrinks_trans: "shrinks g1 g2 \<Longrightarrow> shrinks g2 g3 \<Longrightarrow> shrinks g1 g3"
  unfolding shrinks_def
proof
  fix y
  assume "\<forall>y. rel_option obj_shrink (g_objs g1 y) (g_objs g2 y)" "\<forall>y. rel_option obj_shrink (g_objs g2 y) (g_objs g3 y)"
  hence "rel_option obj_shrink (g_objs g1 y) (g_objs g2 y)" "rel_option obj_shrink (g_objs g2 y) (g_objs g3 y)"
    by auto
  thus "rel_option obj_shrink (g_objs g1 y) (g_objs g3 y)"
    by (cases "g_objs g1 y"; cases "g_objs g2 y"; cases "g_objs g3 y") (auto intro: obj_shrink_trans)
qed

lemma shrinks_set_obj:
  assumes "g_objs g x = Some ob" "obj_shrink ob ob'"
  shows "shrinks g (set_obj x ob' g)"
  using assms by (auto simp: shrinks_def set_obj_def option.rel_refl)

lemma shrinks_none: "shrinks g g' \<Longrightarrow> g_objs g' x = None \<longleftrightarrow> g_objs g x = None"
  unfolding shrinks_def by (metis option.rel_distinct(1,2) not_None_eq)

lemma shrinks_None: "shrinks g g' \<Longrightarrow> g_objs g x = None \<Longrightarrow> g_objs g' x = None"
  by (simp add: shrinks_none)

lemma shrinksD: "shrinks g g' \<Longrightarrow> g_objs g x = Some ob \<Longrightarrow> \<exists>ob'. g_objs g' x = Some ob' \<and> obj_shrink ob ob'"
  unfolding shrinks_def by (metis option_rel_Some1)

lemma shrinks_uv_value:
  assumes "shrinks g g'"
  shows "uv_value g' u = uv_value g u \<or> uv_value g' u = GNil"
proof (cases u)
  case (UOpen t i)
  show ?thesis
  proof (cases "g_objs g t")
    case None
    thus ?thesis
      using shrinks_None [OF assms None] by (simp add: UOpen uv_value_def)
  next
    case (Some ob)
    then obtain ob' where "g_objs g' t = Some ob'" "obj_shrink ob ob'"
      using shrinksD [OF assms] by blast
    thus ?thesis
      using Some by (cases ob; cases ob')
        (auto simp: UOpen uv_value_def obj_shrink_def list_all2_conv_all_nth)
  qed
qed (simp add: uv_value_def)

lemma list_all2_vrefs:
  "list_all2 (\<lambda>v w. w = v \<or> w = GNil) a b \<Longrightarrow> \<Union> (vrefs ` set b) \<subseteq> \<Union> (vrefs ` set a)"
  by (induction rule: list_all2_induct) auto

lemma list_all2_node:
  "list_all2 node_shrink a b \<Longrightarrow> {n \<in> set b. snd n \<noteq> GNil} \<subseteq> {n \<in> set a. snd n \<noteq> GNil}"
  by (induction rule: list_all2_induct) (auto simp: node_shrink_def)

lemma trefs_shrink: "obj_shrink (OTable s) (OTable t) \<Longrightarrow> trefs wk wv t \<subseteq> trefs wk wv s"
  unfolding obj_shrink_def trefs_def using list_all2_vrefs [of "tb_array s" "tb_array t"]
    list_all2_node [of "tb_node s" "tb_node t"] by (auto split: if_splits)

lemma orefs_shrink:
  assumes "shrinks g g'" "obj_shrink ob ob'"
  shows "orefs g' ob' \<subseteq> orefs g ob"
proof (cases ob)
  case (OTable s)
  thus ?thesis
    using assms(2) trefs_shrink by (cases ob') (auto simp: orefs_def obj_shrink_def)
next
  case (OThread s)
  then obtain t where t: "ob' = OThread t" and e: "th_gt t = th_gt s" "th_top t = th_top s"
      and l: "list_all2 (\<lambda>v w. w = v \<or> w = GNil) (th_stack s) (th_stack t)"
    using assms(2) by (cases ob') (auto simp: obj_shrink_def)
  have "\<Union> (vrefs ` set (take (th_top s) (th_stack t))) \<subseteq> \<Union> (vrefs ` set (take (th_top s) (th_stack s)))"
    by (rule list_all2_vrefs [OF list_all2_takeI [OF l]])
  thus ?thesis
    by (auto simp: OThread t e orefs_def)
next
  case (OUpval u)
  thus ?thesis
    using assms(2) shrinks_uv_value [OF assms(1), of u] by (cases ob') (auto simp: orefs_def obj_shrink_def)
qed (use assms(2) in \<open>auto simp: orefs_def obj_shrink_def\<close>)

lemma refs_shrink:
  assumes "shrinks g g'"
  shows "refs g' x \<subseteq> refs g x"
proof (cases "g_objs g x")
  case None
  thus ?thesis
    using shrinks_None [OF assms None] by (simp add: refs_def)
next
  case (Some ob)
  then obtain ob' where "g_objs g' x = Some ob'" "obj_shrink ob ob'"
    using shrinksD [OF assms] by blast
  thus ?thesis
    using Some orefs_shrink [OF assms, of ob ob'] by (simp add: refs_def)
qed

lemma kind_shrink:
  assumes "shrinks g g'"
  shows "rank g' x = rank g x" "leaf g' x = leaf g x" "is_openuv g' x = is_openuv g x"
    "is_thread g' x = is_thread g x" "is_table g' x = is_table g x" "keeps_colour g' x = keeps_colour g x"
proof -
  have *: "rank g' x = rank g x \<and> leaf g' x = leaf g x \<and> is_openuv g' x = is_openuv g x \<and>
      is_thread g' x = is_thread g x \<and> is_table g' x = is_table g x"
  proof (cases "g_objs g x")
    case None
    thus ?thesis
      using shrinks_None [OF assms None] by (simp add: rank_def leaf_def is_openuv_def is_thread_def is_table_def)
  next
    case (Some ob)
    then obtain ob' where "g_objs g' x = Some ob'" "obj_shrink ob ob'"
      using shrinksD [OF assms] by blast
    thus ?thesis
      using Some by (cases ob; cases ob') (auto simp: obj_shrink_def rank_def leaf_def is_openuv_def is_thread_def is_table_def)
  qed
  show "rank g' x = rank g x" "leaf g' x = leaf g x" "is_openuv g' x = is_openuv g x" "is_thread g' x = is_thread g x"
    "is_table g' x = is_table g x" "keeps_colour g' x = keeps_colour g x"
    using * unfolding keeps_colour_def by blast+
qed

lemma obj_wt_shrink:
  assumes "shrinks g g'" "obj_shrink ob ob'" "obj_wt g ob"
  shows "obj_wt g' ob'"
  using assms(2,3) shrinks_uv_value [OF assms(1)]
  by (cases ob; cases ob'; simp add: obj_shrink_def obj_wt_def kind_shrink [OF assms(1)])
    (metis empty_iff vrefs.simps(1))

lemma wt_shrink:
  assumes "shrinks g g'" "wt g"
  shows "wt g'"
  unfolding wt_def
proof (intro allI impI)
  fix x ob'
  assume g': "g_objs g' x = Some ob'"
  then obtain ob where ob: "g_objs g x = Some ob"
    using shrinks_none [OF assms(1), of x] by (cases "g_objs g x") auto
  then have "obj_shrink ob ob'"
    using shrinksD [OF assms(1) ob] g' by auto
  moreover have "obj_wt g ob"
    using assms(2) ob by (simp add: wt_def)
  ultimately show "obj_wt g' ob'"
    by (rule obj_wt_shrink [OF assms(1)])
qed

end
