(* ===== verification/Lua_Gcprop.thy ===== *)
theory Lua_Gcprop
  imports Lua_Gctrav
begin

text \<open>
  \<open>propagatemark\<close> blackens one gray object and marks what it refers to: a step of \<open>advance\<close>, after
  which the object no longer needs the gray list.
\<close>

unbundle bit_operations_syntax

definition same_frame :: "gcstate \<Rightarrow> gcstate \<Rightarrow> bool" where
  "same_frame g g' \<longleftrightarrow>
     g' = g\<lparr>g_objs := g_objs g', g_marked := g_marked g', g_gray := g_gray g', g_grayagain := g_grayagain g',
            g_weak := g_weak g'\<rparr>"

lemma same_frame_refl: "same_frame g g"
  by (simp add: same_frame_def)

lemma same_frame_trans: "same_frame g1 g2 \<Longrightarrow> same_frame g2 g3 \<Longrightarrow> same_frame g1 g3"
  unfolding same_frame_def by (cases g1; cases g2; cases g3) simp

lemma same_rest_frame: "same_rest g g' \<Longrightarrow> same_frame g g'"
  unfolding same_frame_def same_rest_def by (cases g; cases g') simp

lemma same_frame_fields:
  assumes "same_frame g g'"
  shows "g_strt g' = g_strt g" "g_nuse g' = g_nuse g"
    "g_currentwhite g' = g_currentwhite g" "g_gcstate g' = g_gcstate g" "g_sweepstrgc g' = g_sweepstrgc g"
    "g_rootgc g' = g_rootgc g" "g_sweepgc g' = g_sweepgc g"
    "g_tmudata g' = g_tmudata g" "g_registry g' = g_registry g"
    "g_mainthread g' = g_mainthread g" "g_uvhead g' = g_uvhead g" "g_mt g' = g_mt g"
    "g_tm_gc g' = g_tm_gc g" "g_tm_mode g' = g_tm_mode g" "g_totalbytes g' = g_totalbytes g"
    "g_threshold g' = g_threshold g" "g_gcdept g' = g_gcdept g"
  by (subst assms [unfolded same_frame_def], simp)+

text \<open>Marking on behalf of the object \<open>x\<close>, which may itself change.\<close>

definition advance :: "gcref \<Rightarrow> gcstate \<Rightarrow> gcstate \<Rightarrow> bool" where
  "advance x g g' \<longleftrightarrow>
     same_frame g g' \<and> shrinks g g' \<and> new_gray g g' \<and> M g \<subseteq> M g' \<and>
     (\<forall>y \<in> M g. y \<noteq> x \<longrightarrow> g_marked g' y = g_marked g y) \<and>
     (\<forall>y \<in> M g' - M g. y \<noteq> x \<longrightarrow> new_ok g' y) \<and>
     (\<forall>y b. 3 \<le> b \<longrightarrow> y \<noteq> x \<or> 5 \<le> b \<longrightarrow> bit (g_marked g' y) b = bit (g_marked g y) b) \<and>
     (\<forall>y. keeps_colour g y \<longrightarrow> isblack g' y \<longrightarrow> isblack g y) \<and>
     (\<exists>ws. g_weak g' = ws @ g_weak g \<and> set ws \<subseteq> {x}) \<and>
     (\<exists>as. g_grayagain g' = as @ g_grayagain g \<and> set as \<subseteq> {x}) \<and> white_same g g'"

lemma advanceD:
  assumes "advance x g g'"
  shows "same_frame g g'" "shrinks g g'" "new_gray g g'" "M g \<subseteq> M g'"
    "y \<in> M g \<Longrightarrow> y \<noteq> x \<Longrightarrow> g_marked g' y = g_marked g y"
    "y \<in> M g' \<Longrightarrow> y \<notin> M g \<Longrightarrow> y \<noteq> x \<Longrightarrow> new_ok g' y"
    "3 \<le> b \<Longrightarrow> y \<noteq> x \<or> 5 \<le> b \<Longrightarrow> bit (g_marked g' y) b = bit (g_marked g y) b"
    "keeps_colour g y \<Longrightarrow> isblack g' y \<Longrightarrow> isblack g y"
    "\<exists>ws. g_weak g' = ws @ g_weak g \<and> set ws \<subseteq> {x}"
    "\<exists>as. g_grayagain g' = as @ g_grayagain g \<and> set as \<subseteq> {x}" "white_same g g'"
  using assms unfolding advance_def by blast+

lemma grow_advance:
  assumes "grow g g'"
  shows "advance x g g'"
proof -
  note d = grow_exD [OF assms]
  show ?thesis
    unfolding advance_def
    using d(2-7,9) same_rest_frame [OF d(1)] shrinks_refl [OF d(8)] same_rest_fields(9,10) [OF d(1)] by auto
qed

lemma grayable_shrink: "shrinks g g' \<Longrightarrow> grayable g' x = grayable g x"
  by (simp add: grayable_def kind_shrink shrinks_none)

lemma new_gray_trans_advance:
  assumes "new_gray g1 g2" "new_gray g2 g3" "M g1 \<subseteq> M g2" "M g2 \<subseteq> M g3"
    "\<And>x. grayable g2 x \<longleftrightarrow> grayable g1 x"
  shows "new_gray g1 g3"
proof -
  obtain ns1 where 1: "g_gray g2 = ns1 @ g_gray g1" "distinct ns1"
      "\<forall>x \<in> set ns1. x \<in> M g2 \<and> x \<notin> M g1 \<and> grayable g1 x"
    using assms(1) unfolding new_gray_def by blast
  obtain ns2 where 2: "g_gray g3 = ns2 @ g_gray g2" "distinct ns2"
      "\<forall>x \<in> set ns2. x \<in> M g3 \<and> x \<notin> M g2 \<and> grayable g2 x"
    using assms(2) unfolding new_gray_def by blast
  have "g_gray g3 = (ns2 @ ns1) @ g_gray g1 \<and> distinct (ns2 @ ns1) \<and>
      (\<forall>x \<in> set (ns2 @ ns1). x \<in> M g3 \<and> x \<notin> M g1 \<and> grayable g1 x)"
    using 1 2 assms(3-5) by fastforce
  thus ?thesis
    unfolding new_gray_def by blast
qed

lemma new_ok_advance:
  assumes "new_ok g y" "advance x g g'" "y \<in> M g" "y \<noteq> x"
  shows "new_ok g' y"
proof -
  note d = advanceD [OF assms(2)]
  have "isblack g' y = isblack g y"
    using d(5) [OF assms(3,4)] by (simp add: isblack_def)
  thus ?thesis
    using assms(1) d(4) new_gray_set [OF d(3)] refs_shrink [OF d(2), of y] kind_shrink [OF d(2), of y]
    unfolding new_ok_def by blast
qed

lemma advance_trans:
  assumes "advance x g1 g2" "advance x g2 g3"
  shows "advance x g1 g3"
proof -
  note a = advanceD [OF assms(1)] and b = advanceD [OF assms(2)]
  have n: "new_ok g3 y" if "y \<in> M g3 - M g1" "y \<noteq> x" for y
    using that new_ok_advance [OF _ assms(2), of y] a(6) [of y] b(6) [of y] by blast
  have m: "g_marked g3 y = g_marked g1 y" if "y \<in> M g1" "y \<noteq> x" for y
    using that a(4) a(5) [of y] b(5) [of y] by auto
  have u: "keeps_colour g1 y \<Longrightarrow> isblack g3 y \<Longrightarrow> isblack g1 y" for y
    using a(8) [of y] b(8) [of y] kind_shrink(6) [OF a(2), of y] by blast
  have w: "\<exists>ws. g_weak g3 = ws @ g_weak g1 \<and> set ws \<subseteq> {x}"
    using a(9) b(9) by (metis append_assoc set_append Un_least)
  have v: "\<exists>as. g_grayagain g3 = as @ g_grayagain g1 \<and> set as \<subseteq> {x}"
    using a(10) b(10) by (metis append_assoc set_append Un_least)
  show ?thesis
    unfolding advance_def
    using n m u w v same_frame_trans [OF a(1) b(1)] shrinks_trans [OF a(2) b(2)]
      new_gray_trans_advance [OF a(3) b(3) a(4) b(4) grayable_shrink [OF a(2)]] a(4) b(4) a(7) b(7)
      white_same_trans [OF a(11) b(11) b(4)] by auto
qed

lemma advance_refl: "advance x g g"
  by (rule grow_advance [OF grow_refl])

section \<open>The traversals\<close>

lemma fold_markvalue:
  "wt g \<Longrightarrow> grow g (fold markvalue vs g) \<and> \<Union> (vrefs ` set vs) \<subseteq> M (fold markvalue vs g)"
  using markvalue_grow wt_cong by (intro fold_grow) metis

lemma fold_markobject:
  assumes "wt g"
  shows "grow g (fold markobject xs g) \<and> set xs \<subseteq> M (fold markobject xs g)"
proof -
  have "grow g (fold markobject xs g) \<and> \<Union> ((\<lambda>x. {x}) ` set xs) \<subseteq> M (fold markobject xs g)"
    using markobject_grow wt_cong assms by (intro fold_grow) (metis empty_subsetI insert_subset)
  thus ?thesis
    by simp
qed

lemma fold_mark_opt:
  "wt g \<Longrightarrow> grow g (fold mark_opt xs g) \<and> \<Union> (set_option ` set xs) \<subseteq> M (fold mark_opt xs g)"
  using mark_opt_grow wt_cong by (intro fold_grow) metis

lemma fold_stringmark:
  assumes "\<forall>x \<in> \<Union> (set_option ` set xs). leaf g x"
  shows "grow g (fold stringmark_opt xs g) \<and> \<Union> (set_option ` set xs) \<subseteq> M (fold stringmark_opt xs g)"
proof (rule fold_grow)
  fix a and h :: gcstate
  assume a: "a \<in> set xs" and e: "g_objs h = g_objs g"
  have "\<forall>y \<in> set_option a. leaf h y"
    using assms a by (auto simp: kind_cong [OF e])
  thus "grow h (stringmark_opt a h) \<and> set_option a \<subseteq> M (stringmark_opt a h)"
    by (rule stringmark_opt_grow)
qed

definition node_refs :: "bool \<Rightarrow> bool \<Rightarrow> gcval \<times> gcval \<Rightarrow> gcref set" where
  "node_refs wk wv n =
     (if snd n = GNil then {} else (if wk then {} else vrefs (fst n)) \<union> (if wv then {} else vrefs (snd n)))"

lemma mark_node_grow:
  assumes "wt g"
  shows "grow g (mark_node wk wv n g) \<and> node_refs wk wv n \<subseteq> M (mark_node wk wv n g)"
proof -
  let ?g1 = "if wk then g else markvalue (fst n) g"
  have 1: "grow g ?g1 \<and> (if wk then {} else vrefs (fst n)) \<subseteq> M ?g1"
    using markvalue_grow [OF assms] grow_refl by auto
  hence 2: "wt ?g1"
    using wt_cong [OF grow_exD(8)] assms by blast
  let ?g2 = "if wv then ?g1 else markvalue (snd n) ?g1"
  have 3: "grow ?g1 ?g2 \<and> (if wv then {} else vrefs (snd n)) \<subseteq> M ?g2"
    using markvalue_grow [OF 2] grow_refl by auto
  have "grow g ?g2 \<and> (if wk then {} else vrefs (fst n)) \<union> (if wv then {} else vrefs (snd n)) \<subseteq> M ?g2"
    using 1 3 grow_trans grow_exD(3) by blast
  thus ?thesis
    using grow_refl by (auto simp: mark_node_def node_refs_def Let_def)
qed

lemma fold_mark_node:
  "wt g \<Longrightarrow> grow g (fold (mark_node wk wv) ns g) \<and> \<Union> (node_refs wk wv ` set ns) \<subseteq> M (fold (mark_node wk wv) ns g)"
  using mark_node_grow wt_cong by (intro fold_grow) metis

lemma trefs_alt:
  "trefs wk wv tb =
     set_option (tb_metatable tb) \<union> (if wv then {} else \<Union> (vrefs ` set (tb_array tb))) \<union>
     \<Union> (node_refs wk wv ` set (tb_node tb))"
  by (auto simp: trefs_def node_refs_def split: if_splits)

text \<open>Chaining two steps, each with the references it takes care of.\<close>

lemma grow_both:
  assumes "grow g1 g2 \<and> A \<subseteq> M g2" "grow g2 g3 \<and> B \<subseteq> M g3"
  shows "grow g1 g3 \<and> A \<union> B \<subseteq> M g3"
  using assms grow_trans grow_exD(3) [of "{}" g2 g3] by blast

lemma grow_wt: "grow_ex Y g g' \<Longrightarrow> wt g \<Longrightarrow> wt g'"
  using wt_cong [OF grow_exD(8)] by blast

lemma traverseproto_grow:
  assumes "wt g" "g_objs g x = Some (OProto src k us ps ls)"
  shows "grow g (traverseproto src k us ps ls g) \<and>
    orefs g (OProto src k us ps ls) \<subseteq> M (traverseproto src k us ps ls g)"
proof -
  have lf: "\<forall>y \<in> set_option src \<union> \<Union> (set_option ` set us) \<union> \<Union> (set_option ` set ls). leaf g y"
    using assms by (fastforce simp: wt_def obj_wt_def)
  have lf': "grow g h \<Longrightarrow> leaf h y = leaf g y" for h :: gcstate and y
    using kind_cong(2) [OF grow_exD(8)] by blast
  define g1 where "g1 = stringmark_opt src g"
  define g2 where "g2 = fold markvalue k g1"
  define g3 where "g3 = fold stringmark_opt us g2"
  define g4 where "g4 = fold mark_opt ps g3"
  have 1: "grow g g1 \<and> set_option src \<subseteq> M g1"
    unfolding g1_def using lf by (intro stringmark_opt_grow) blast
  have 2: "grow g1 g2 \<and> \<Union> (vrefs ` set k) \<subseteq> M g2"
    unfolding g2_def using 1 grow_wt assms(1) by (intro fold_markvalue) blast
  note 12 = grow_both [OF 1 2]
  have 3: "grow g2 g3 \<and> \<Union> (set_option ` set us) \<subseteq> M g3"
    unfolding g3_def using lf lf' 12 by (intro fold_stringmark) auto
  note 13 = grow_both [OF 12 3]
  have 4: "grow g3 g4 \<and> \<Union> (set_option ` set ps) \<subseteq> M g4"
    unfolding g4_def using 13 grow_wt assms(1) by (intro fold_mark_opt) blast
  note 14 = grow_both [OF 13 4]
  have 5: "grow g4 (fold stringmark_opt ls g4) \<and> \<Union> (set_option ` set ls) \<subseteq> M (fold stringmark_opt ls g4)"
    using lf lf' 14 by (intro fold_stringmark) auto
  have "traverseproto src k us ps ls g = fold stringmark_opt ls g4"
    by (simp add: traverseproto_def g1_def g2_def g3_def g4_def Let_def)
  thus ?thesis
    using grow_both [OF 14 5] by (simp add: orefs_def)
qed

lemma traverseclosure_grow:
  assumes "wt g"
  shows "grow g (traverseclosure (OCclosure env ups) g) \<and> orefs g (OCclosure env ups) \<subseteq> M (traverseclosure (OCclosure env ups) g)"
    and "grow g (traverseclosure (OLclosure env p uvs) g) \<and> orefs g (OLclosure env p uvs) \<subseteq> M (traverseclosure (OLclosure env p uvs) g)"
proof -
  define g1 where "g1 = markobject env g"
  define g2 where "g2 = markobject p g1"
  have 1: "grow g g1 \<and> {env} \<subseteq> M g1"
    unfolding g1_def using markobject_grow [OF assms] by simp
  have w1: "wt g1"
    using 1 grow_wt assms by blast
  have 2: "grow g1 g2 \<and> {p} \<subseteq> M g2"
    unfolding g2_def using markobject_grow [OF w1] by simp
  have w2: "wt g2"
    using 2 grow_wt w1 by blast
  show "grow g (traverseclosure (OCclosure env ups) g) \<and> orefs g (OCclosure env ups) \<subseteq> M (traverseclosure (OCclosure env ups) g)"
    using grow_both [OF 1 fold_markvalue [OF w1]] by (simp add: traverseclosure_def orefs_def g1_def)
  show "grow g (traverseclosure (OLclosure env p uvs) g) \<and> orefs g (OLclosure env p uvs) \<subseteq> M (traverseclosure (OLclosure env p uvs) g)"
    using grow_both [OF grow_both [OF 1 2] fold_markobject [OF w2]]
    by (simp add: traverseclosure_def orefs_def g1_def g2_def)
qed

end
