(* ===== verification/Lua_Gcstepmark.thy ===== *)
theory Lua_Gcstepmark
  imports Lua_Gcprop
begin

text \<open>
  One step of the propagation, whatever the object, and the loop over all of them.
\<close>

unbundle bit_operations_syntax

lemma set_obj_simps [simp]:
  "g_marked (set_obj x ob g) = g_marked g" "g_gray (set_obj x ob g) = g_gray g"
  "g_weak (set_obj x ob g) = g_weak g" "g_grayagain (set_obj x ob g) = g_grayagain g"
  "g_objs (set_obj x ob g) = (g_objs g)(x := Some ob)" "M (set_obj x ob g) = M g"
  by (simp_all add: set_obj_def M_def iswhite_def)

lemma same_frame_set_obj [simp]: "same_frame g (set_obj x ob g)"
  by (simp add: same_frame_def set_obj_def)

lemma advance_set_obj:
  assumes "g_objs g x = Some ob" "obj_shrink ob ob'"
  shows "advance x g (set_obj x ob' g)"
  unfolding advance_def using shrinks_set_obj [OF assms]
  by (auto simp: new_gray_def isblack_def white_same_refl)

text \<open>A change of the bits of the object itself, its white bits apart.\<close>

lemma advance_set_mark:
  assumes "\<And>b. b \<le> 1 \<or> 5 \<le> b \<Longrightarrow> bit (f (g_marked g x)) b = bit (g_marked g x) b"
    "bit (f (g_marked g x)) 2 \<Longrightarrow> bit (g_marked g x) 2"
  shows "advance x g (set_mark x f g)"
proof -
  have "M (set_mark x f g) = M g"
    using assms(1) by (auto simp: M_def iswhite_def gc_bits)
  thus ?thesis
    unfolding advance_def using assms white_same_one [of x "set_mark x f g" g]
    by (auto simp: new_gray_def isblack_def gc_bits shrinks_refl set_mark_def same_frame_def)
qed

lemma advance_push_weak: "advance x g (g\<lparr>g_weak := x # g_weak g\<rparr>)"
proof -
  have m: "M (g\<lparr>g_weak := x # g_weak g\<rparr>) = M g"
    by (simp add: M_def iswhite_def)
  show ?thesis
    unfolding advance_def m by (auto simp: new_gray_def isblack_def shrinks_refl same_frame_def white_same_refl)
qed

lemma advance_push_grayagain: "advance x g (g\<lparr>g_grayagain := x # g_grayagain g\<rparr>)"
proof -
  have m: "M (g\<lparr>g_grayagain := x # g_grayagain g\<rparr>) = M g"
    by (simp add: M_def iswhite_def)
  show ?thesis
    unfolding advance_def m by (auto simp: new_gray_def isblack_def shrinks_refl same_frame_def white_same_refl)
qed

text \<open>What must be marked: for a weak table only its strong part.\<close>

definition kept_refs :: "gcstate \<Rightarrow> gcref \<Rightarrow> gcref set" where
  "kept_refs g x =
     (if x \<in> set (g_weak g) then
        (case g_objs g x of
           Some (OTable tb) \<Rightarrow> trefs (bit (g_marked g x) KEYWEAKBIT) (bit (g_marked g x) VALUEWEAKBIT) tb
         | _ \<Rightarrow> refs g x)
      else refs g x)"

lemma trefs_mono: "(wk \<Longrightarrow> wk') \<Longrightarrow> (wv \<Longrightarrow> wv') \<Longrightarrow> trefs wk' wv' tb \<subseteq> trefs wk wv tb"
  by (auto simp: trefs_def split: if_splits)

lemma kept_refs_sub: "kept_refs g x \<subseteq> refs g x"
  using trefs_mono [of False _ False]
  by (auto simp: kept_refs_def refs_def orefs_def split: option.splits gcobj.splits)

lemma kept_refs_cong:
  assumes "g_objs g' = g_objs g" "x \<in> set (g_weak g') \<longleftrightarrow> x \<in> set (g_weak g)"
    "bit (g_marked g' x) 3 = bit (g_marked g x) 3" "bit (g_marked g' x) 4 = bit (g_marked g x) 4"
  shows "kept_refs g' x = kept_refs g x"
proof (cases "\<exists>tb. g_objs g x = Some (OTable tb)")
  case True
  thus ?thesis
    using assms refs_cong [OF assms(1)] by (auto simp: kept_refs_def)
next
  case False
  hence "kept_refs h x = refs h x" if "g_objs h = g_objs g" for h
    using that by (auto simp: kept_refs_def split: option.splits gcobj.splits)
  thus ?thesis
    using assms(1) refs_cong [OF assms(1)] by simp
qed

section \<open>Tables and stacks\<close>

lemma list_all2_map_right:
  "(\<And>a. a \<in> set xs \<Longrightarrow> P a (f a)) \<Longrightarrow> list_all2 P xs (map f xs)"
  by (induction xs) auto

lemma removeentry_shrink:
  "obj_shrink (OTable tb) (OTable (tb\<lparr>tb_node := map (\<lambda>n. if snd n = GNil then removeentry n else n) (tb_node tb)\<rparr>))"
  by (auto simp: obj_shrink_def list.rel_refl removeentry_def node_shrink_def intro!: list_all2_map_right
      split: gcval.split)

lemma removeentry_trefs:
  "trefs wk wv (tb\<lparr>tb_node := map (\<lambda>n. if snd n = GNil then removeentry n else n) (tb_node tb)\<rparr>) = trefs wk wv tb"
proof -
  have "node_refs wk wv (if snd n = GNil then removeentry n else n) = node_refs wk wv n" for n
    by (simp add: node_refs_def removeentry_def)
  hence "(\<Union>n\<in>set ns. node_refs wk wv (if snd n = GNil then removeentry n else n)) =
      \<Union> (node_refs wk wv ` set ns)" for ns
    by simp
  note eq = this
  have "set (tb_node (tb\<lparr>tb_node := map (\<lambda>n. if snd n = GNil then removeentry n else n) (tb_node tb)\<rparr>)) =
      (\<lambda>n. if snd n = GNil then removeentry n else n) ` set (tb_node tb)"
    by simp
  thus ?thesis
    unfolding trefs_alt by (simp only: image_image eq) simp
qed

lemma advance_keeps_mark:
  assumes "grow g g'" "x \<in> M g"
  shows "g_marked g' x = g_marked g x" "g_objs g' = g_objs g" "g_weak g' = g_weak g" "g_grayagain g' = g_grayagain g"
  using grow_exD [OF assms(1)] assms(2) same_rest_fields [OF grow_exD(1) [OF assms(1)]] by auto

text \<open>The keys of a table, those of its empty entries included: a store in such an entry has no barrier for the key.\<close>

definition keys_marked :: "gcstate \<Rightarrow> gcref \<Rightarrow> bool" where
  "keys_marked g x \<longleftrightarrow>
     (case g_objs g x of Some (OTable tb) \<Rightarrow> (\<Union>n \<in> set (tb_node tb). vrefs (fst n)) \<subseteq> M g | _ \<Rightarrow> True)"

definition keys_kept :: "gcstate \<Rightarrow> bool" where
  "keys_kept g \<longleftrightarrow> (\<forall>x. isblack g x \<longrightarrow> keys_marked g x)"

lemma keys_marked_other: "\<not> is_table g x \<Longrightarrow> keys_marked g x"
  by (auto simp: keys_marked_def is_table_def split: option.splits gcobj.splits)

lemma removeentry_keys:
  "(\<Union>n \<in> set (map (\<lambda>n. if snd n = GNil then removeentry n else n) ns). vrefs (fst n)) \<subseteq>
     \<Union> (node_refs False wv ` set ns)"
  by (auto simp: node_refs_def removeentry_def split: gcval.splits if_splits)

lemma advance_traversetable:
  assumes wt: "wt g" and ob: "g_objs g x = Some (OTable tb)" and x: "x \<in> M g"
    and t: "traversetable x tb g = (isweak, g')"
  shows "advance x g g' \<and> kept_refs g' x \<subseteq> M g' \<and> x \<in> M g' \<and> (isweak \<longrightarrow> x \<in> set (g_weak g')) \<and>
    isblack g' x = isblack g x \<and> (\<not> isweak \<longrightarrow> keys_marked g' x)"
proof -
  define g1 where "g1 = mark_opt (tb_metatable tb) g"
  define wk where "wk = weak_mode g1 (tb_metatable tb) CHR ''k''"
  define wv where "wv = weak_mode g1 (tb_metatable tb) CHR ''v''"
  define g2 where "g2 = (if wk \<or> wv then (set_mark x (weak_bits wk wv) g1)\<lparr>g_weak := x # g_weak g1\<rparr> else g1)"
  define g3 where "g3 = (if wv then g2 else fold markvalue (rev (tb_array tb)) g2)"
  define g4 where "g4 = fold (mark_node wk wv) (rev (tb_node tb)) g3"
  define tb' where "tb' = tb\<lparr>tb_node := map (\<lambda>n. if snd n = GNil then removeentry n else n) (tb_node tb)\<rparr>"
  have 1: "grow g g1 \<and> set_option (tb_metatable tb) \<subseteq> M g1"
    unfolding g1_def by (rule mark_opt_grow [OF wt])
  hence g01: "grow g g1" by blast
  note k1 = advance_keeps_mark [OF g01 x]
  have x1: "x \<in> M g1"
    using x grow_exD(3) [OF g01] by blast
  have sm: "advance x g1 (set_mark x (weak_bits wk wv) g1)"
    by (rule advance_set_mark) (auto simp: gc_bits)
  have "(set_mark x (weak_bits wk wv) g1)\<lparr>g_weak := x # g_weak g1\<rparr> =
      (set_mark x (weak_bits wk wv) g1)\<lparr>g_weak := x # g_weak (set_mark x (weak_bits wk wv) g1)\<rparr>"
    by (simp add: set_mark_def)
  hence 2: "advance x g1 g2"
    unfolding g2_def using advance_trans [OF sm advance_push_weak] advance_refl by (cases "wk \<or> wv") simp_all
  have e2: "g_objs g2 = g_objs g"
    by (simp add: g2_def k1)
  have M2: "M g2 = M g1"
    by (auto simp: g2_def M_def iswhite_def gc_bits)
  have w2: "wt g2"
    using wt wt_cong [OF e2] by simp
  have 3: "grow g2 g3 \<and> (if wv then {} else \<Union> (vrefs ` set (tb_array tb))) \<subseteq> M g3"
    unfolding g3_def using fold_markvalue [OF w2, of "rev (tb_array tb)"] grow_refl by auto
  have w3: "wt g3"
    using 3 grow_wt w2 by blast
  have 4: "grow g3 g4 \<and> \<Union> (node_refs wk wv ` set (tb_node tb)) \<subseteq> M g4"
    unfolding g4_def using fold_mark_node [OF w3, of wk wv "rev (tb_node tb)"] by simp
  note 24 = grow_both [OF 3 4]
  hence g24: "grow g2 g4" by blast
  have x2: "x \<in> M g2"
    using x1 M2 by simp
  note k2 = advance_keeps_mark [OF g24 x2]
  have x4: "x \<in> M g4"
    using x2 grow_exD(3) [OF g24] by blast
  have adv4: "advance x g g4"
    by (rule advance_trans [OF advance_trans [OF grow_advance [OF g01] 2] grow_advance [OF g24]])
  have ob4: "g_objs g4 x = Some (OTable tb)"
    using k2(2) e2 ob by simp
  have adv5: "advance x g (set_obj x (OTable tb') g4)"
    unfolding tb'_def by (rule advance_trans [OF adv4 advance_set_obj [OF ob4 removeentry_shrink]])
  have strong: "trefs wk wv tb \<subseteq> M g4"
    unfolding trefs_alt using 24 1 M2 grow_exD(3) [OF g24] by auto
  have black: "isblack g4 x = isblack g x"
    by (simp add: isblack_def k2(1) g2_def k1 gc_bits)
  have weak: "wk \<or> wv \<Longrightarrow> x \<in> set (g_weak g4)"
    "wk \<or> wv \<Longrightarrow> bit (g_marked g4 x) 3 = wk \<and> bit (g_marked g4 x) 4 = wv"
    by (simp_all add: k2 g2_def gc_bits)
  have keys: "\<not> wk \<Longrightarrow> keys_marked (set_obj x (OTable tb') g4) x"
    using strong removeentry_keys [of "tb_node tb" wv] unfolding trefs_alt
    by (simp add: keys_marked_def tb'_def) blast
  have kept: "kept_refs g4 x \<subseteq> M g4 \<and> kept_refs (set_obj x (OTable tb') g4) x \<subseteq> M g4"
  proof (cases "wk \<or> wv")
    case True
    thus ?thesis
      using weak strong removeentry_trefs [of wk wv tb] by (simp add: kept_refs_def ob4 tb'_def)
  next
    case False
    hence "refs g4 x \<subseteq> M g4" "refs (set_obj x (OTable tb') g4) x \<subseteq> M g4"
      using strong removeentry_trefs [of False False tb] by (simp_all add: refs_def ob4 orefs_def tb'_def)
    thus ?thesis
      using kept_refs_sub by blast
  qed
  show ?thesis
  proof (cases "wk \<and> wv")
    case True
    have g4: "g4 = fold (mark_node True True) (rev (tb_node tb)) g2"
      using True by (simp add: g4_def g3_def)
    have "mark_node True True n h = h" for n h
      by (simp add: mark_node_def)
    hence "fold (mark_node True True) ns h = h" for ns h
      by (induction ns arbitrary: h) auto
    hence "g4 = g2"
      using g4 by simp
    moreover have "traversetable x tb g = (True, g2)"
      using True unfolding traversetable_def Let_def g1_def [symmetric] wk_def [symmetric] wv_def [symmetric] g2_def
      by simp
    ultimately have "g' = g4" "isweak"
      using t by simp_all
    thus ?thesis
      using adv4 kept x4 weak True black by simp
  next
    case False
    have "traversetable x tb g = (wk \<or> wv, set_obj x (OTable tb') g4)"
      using False unfolding traversetable_def Let_def g1_def [symmetric] wk_def [symmetric] wv_def [symmetric]
        g2_def [symmetric] g3_def [symmetric] g4_def [symmetric] tb'_def [symmetric]
      by (cases wk; cases wv) simp_all
    hence "g' = set_obj x (OTable tb') g4" "isweak = (wk \<or> wv)"
      using t by simp_all
    thus ?thesis
      using adv5 kept x4 weak black keys by (auto simp: isblack_def)
  qed
qed

lemma cleared_stack:
  "list_all2 (\<lambda>v w. w = v \<or> w = GNil) st (map (\<lambda>(i, v). if k \<le> i \<and> i \<le> hi then GNil else v) (enumerate n st))"
  by (induction st arbitrary: n) auto

lemma take_cleared_stack:
  "take k (map (\<lambda>(i, v). if n + k \<le> i \<and> i \<le> hi then GNil else v) (enumerate n st)) = take k st"
proof (induction st arbitrary: n k)
  case (Cons a st)
  show ?case
    using Cons [where n = "Suc n" and k = "k - 1"] by (cases k) auto
qed simp

lemma advance_traversestack:
  assumes wt: "wt g" and ob: "g_objs g x = Some (OThread th)" and x: "x \<in> M g"
  shows "advance x g (traversestack x th g) \<and> refs (traversestack x th g) x \<subseteq> M (traversestack x th g) \<and>
    x \<in> M (traversestack x th g) \<and> g_grayagain (traversestack x th g) = g_grayagain g"
proof -
  define g1 where "g1 = markvalue (th_gt th) g"
  define hi where "hi = fold max (th_citop th) (th_top th)"
  define g2 where "g2 = fold markvalue (take (th_top th) (th_stack th)) g1"
  define st where "st = map (\<lambda>(i, v). if th_top th \<le> i \<and> i \<le> hi then GNil else v) (enumerate 0 (th_stack th))"
  have 1: "grow g g1 \<and> vrefs (th_gt th) \<subseteq> M g1"
    unfolding g1_def by (rule markvalue_grow [OF wt])
  have w1: "wt g1"
    using 1 grow_wt wt by blast
  have 2: "grow g1 g2 \<and> \<Union> (vrefs ` set (take (th_top th) (th_stack th))) \<subseteq> M g2"
    unfolding g2_def by (rule fold_markvalue [OF w1])
  note 12 = grow_both [OF 1 2]
  hence g02: "grow g g2" by blast
  note k = advance_keeps_mark [OF g02 x]
  have ob2: "g_objs g2 x = Some (OThread th)"
    using ob k by simp
  have sh: "obj_shrink (OThread th) (OThread (th\<lparr>th_stack := st\<rparr>))"
    unfolding st_def by (simp add: obj_shrink_def cleared_stack)
  have eq: "traversestack x th g = set_obj x (OThread (th\<lparr>th_stack := st\<rparr>)) g2"
    by (simp add: traversestack_def Let_def g1_def g2_def hi_def st_def)
  have "advance x g (set_obj x (OThread (th\<lparr>th_stack := st\<rparr>)) g2)"
    by (rule advance_trans [OF grow_advance [OF g02] advance_set_obj [OF ob2 sh]])
  moreover have "take (th_top th) st = take (th_top th) (th_stack th)"
    using take_cleared_stack [of "th_top th" 0 hi "th_stack th"] by (simp add: st_def)
  hence "refs (set_obj x (OThread (th\<lparr>th_stack := st\<rparr>)) g2) x \<subseteq> M g2"
    using 12 by (simp add: refs_def orefs_def)
  moreover have "x \<in> M g2"
    using x grow_exD(3) [OF g02] by blast
  ultimately show ?thesis
    by (simp add: eq k(4))
qed

lemma keys_kept_grow:
  assumes "grow g g'" "keys_kept g"
  shows "keys_kept g'"
proof -
  note d = grow_exD [OF assms(1)]
  have "keys_marked g' x" if "isblack g' x" for x
  proof (cases "is_table g x")
    case True
    hence "keys_marked g x"
      using assms(2) that d(7) [of x] by (auto simp: keys_kept_def keeps_colour_def)
    thus ?thesis
      using True d(3) by (auto simp: keys_marked_def d(8) is_table_def)
  next
    case False
    thus ?thesis
      using kind_cong(5) [OF d(8)] by (simp add: keys_marked_other)
  qed
  thus ?thesis
    by (simp add: keys_kept_def)
qed

lemma list_all2_keys:
  "list_all2 node_shrink a b \<Longrightarrow> (\<Union>n \<in> set b. vrefs (fst n)) \<subseteq> (\<Union>n \<in> set a. vrefs (fst n))"
  by (induction rule: list_all2_induct) (auto simp: node_shrink_def)

lemma keys_marked_shrink:
  assumes "shrinks g g'" "M g \<subseteq> M g'" "keys_marked g x"
  shows "keys_marked g' x"
proof (cases "is_table g x")
  case True
  then obtain s where s: "g_objs g x = Some (OTable s)"
    by (auto simp: is_table_def)
  from shrinksD [OF assms(1) this] obtain ob' where o: "g_objs g' x = Some ob'" "obj_shrink (OTable s) ob'"
    by blast
  then obtain t where t': "ob' = OTable t"
    by (cases ob') (simp_all add: obj_shrink_def)
  note t = o [unfolded t']
  have "(\<Union>n \<in> set (tb_node t). vrefs (fst n)) \<subseteq> (\<Union>n \<in> set (tb_node s). vrefs (fst n))"
    using t(2) by (intro list_all2_keys) (simp add: obj_shrink_def)
  thus ?thesis
    using assms(2,3) s t(1) unfolding keys_marked_def by simp
next
  case False
  thus ?thesis
    using kind_shrink(5) [OF assms(1)] by (simp add: keys_marked_other)
qed

lemma keys_marked_cong: "g_objs g' = g_objs g \<Longrightarrow> M g' = M g \<Longrightarrow> keys_marked g' x = keys_marked g x"
  using keys_marked_shrink [of g g' x] keys_marked_shrink [of g' g x] shrinks_refl by auto

section \<open>\<open>propagatemark\<close>\<close>

definition pop_gray :: "gcstate \<Rightarrow> gcstate" where
  "pop_gray g = (set_mark (hd (g_gray g)) gray2black g)\<lparr>g_gray := tl (g_gray g)\<rparr>"

lemma pop_gray_simps [simp]:
  "g_objs (pop_gray g) = g_objs g" "g_gray (pop_gray g) = tl (g_gray g)" "M (pop_gray g) = M g"
  "g_weak (pop_gray g) = g_weak g" "g_grayagain (pop_gray g) = g_grayagain g"
  by (auto simp: pop_gray_def M_def iswhite_def gc_bits set_mark_def)

text \<open>The object at hand afterwards: black, or in the list of its kind.\<close>

definition settled :: "gcstate \<Rightarrow> gcref \<Rightarrow> bool" where
  "settled g x \<longleftrightarrow>
     (isblack g x \<or> x \<in> set (g_weak g)) \<and> \<not> is_thread g x \<or> leaf g x \<or> x \<in> set (g_grayagain g)"

lemma kept_refs_grow:
  assumes "grow g g'" "refs g x \<subseteq> M g'"
  shows "kept_refs g' x \<subseteq> M g'"
  using assms(2) kept_refs_sub refs_cong [OF grow_exD(8) [OF assms(1)]] by blast

lemma propagatemark_step:
  assumes wt: "wt g" and x: "g_gray g = x # xs" "x \<in> M g" and k: "grayable g x"
  shows "advance x (pop_gray g) (snd (propagatemark sz g)) \<and>
    kept_refs (snd (propagatemark sz g)) x \<subseteq> M (snd (propagatemark sz g)) \<and>
    x \<in> M (snd (propagatemark sz g)) \<and> settled (snd (propagatemark sz g)) x \<and>
    (isblack (snd (propagatemark sz g)) x \<longrightarrow> keys_marked (snd (propagatemark sz g)) x)"
proof -
  let ?g = "pop_gray g"
  have w: "wt ?g"
    using wt wt_cong [of ?g g] by simp
  have xp: "x \<in> M ?g"
    using x by simp
  have bl: "isblack ?g x"
    using x by (simp add: pop_gray_def isblack_def gc_bits)
  have pg: "(set_mark x gray2black g)\<lparr>g_gray := xs\<rparr> = ?g"
    by (simp add: pop_gray_def x)
  have grown: ?thesis
    if e: "snd (propagatemark sz g) = g'" and gr: "grow ?g g' \<and> orefs ?g ob \<subseteq> M g'"
      and ob: "g_objs g x = Some ob" and nt: "\<not> is_thread g x" "\<not> is_table g x" for g' ob
  proof -
    have gr': "grow ?g g'" using gr by blast
    have "refs ?g x \<subseteq> M g'"
      using gr ob by (simp add: refs_def)
    moreover have "isblack g' x"
      using bl advance_keeps_mark [OF gr' xp] by (simp add: isblack_def)
    moreover have "\<not> is_thread g' x"
      using nt kind_cong(4) [OF grow_exD(8) [OF gr']] kind_cong(4) [of ?g g] by simp
    moreover have "keys_marked g' x"
      using nt kind_cong(5) [OF grow_exD(8) [OF gr']] kind_cong(5) [of ?g g] by (simp add: keys_marked_other)
    ultimately show ?thesis
      unfolding e settled_def using grow_advance [OF gr'] kept_refs_grow [OF gr'] xp grow_exD(3) [OF gr'] by blast
  qed
  from k obtain ob where ob: "g_objs g x = Some ob" by (auto simp: grayable_def)
  show ?thesis
  proof (cases ob)
    case (OString s)
    have "snd (propagatemark sz g) = ?g"
      by (simp add: propagatemark_def pg x(1) ob OString Let_def)
    thus ?thesis
      using xp advance_refl by (simp add: kept_refs_def refs_def ob OString orefs_def settled_def leaf_def keys_marked_def)
  next
    case (OUdata mt env)
    thus ?thesis
      using k ob by (simp add: grayable_def rank_def)
  next
    case (OUpval u)
    thus ?thesis
      using k ob by (simp add: grayable_def rank_def)
  next
    case (OCclosure env ups)
    show ?thesis
      by (rule grown [OF _ traverseclosure_grow(1) [OF w, of env ups] ob [unfolded OCclosure]])
        (simp_all add: propagatemark_def pg x(1) ob OCclosure Let_def is_thread_def is_table_def)
  next
    case (OLclosure env p uvs)
    show ?thesis
      by (rule grown [OF _ traverseclosure_grow(2) [OF w, of env p uvs] ob [unfolded OLclosure]])
        (simp_all add: propagatemark_def pg x(1) ob OLclosure Let_def is_thread_def is_table_def)
  next
    case (OProto src ks us ps ls)
    have "g_objs ?g x = Some (OProto src ks us ps ls)"
      using ob OProto by simp
    from grown [OF _ traverseproto_grow [OF w this] ob [unfolded OProto]] show ?thesis
      by (simp add: propagatemark_def pg x(1) ob OProto Let_def is_thread_def is_table_def)
  next
    case (OTable tb)
    obtain isweak g' where t: "traversetable x tb ?g = (isweak, g')"
      by (cases "traversetable x tb ?g")
    have obp: "g_objs ?g x = Some (OTable tb)"
      using ob OTable by simp
    note tt = advance_traversetable [OF w obp xp t]
    have nt: "\<not> is_thread g' x"
      using tt kind_shrink(4) [OF advanceD(2), of x ?g g' x] obp by (simp add: is_thread_def)
    let ?g2 = "if isweak then set_mark x black2gray g' else g'"
    have e: "snd (propagatemark sz g) = ?g2"
      by (simp add: propagatemark_def pg x(1) ob OTable Let_def t)
    have "advance x g' (set_mark x black2gray g')"
      by (rule advance_set_mark) (auto simp: gc_bits)
    hence a2: "advance x g' ?g2"
      using advance_refl by simp
    have m2: "M ?g2 = M g'"
      by (simp add: M_black2gray)
    have "kept_refs ?g2 x = kept_refs g' x"
      by (rule kept_refs_cong) (auto simp: gc_bits set_mark_def)
    moreover have "settled ?g2 x"
      using tt bl nt by (auto simp: settled_def set_mark_def is_thread_def)
    moreover have "isblack ?g2 x \<longrightarrow> keys_marked ?g2 x"
      using tt by (simp add: isblack_def gc_bits)
    ultimately show ?thesis
      unfolding e using tt advance_trans [OF _ a2] m2 by simp
  next
    case (OThread th)
    define g1 where "g1 = ?g\<lparr>g_grayagain := x # g_grayagain ?g\<rparr>"
    define g2 where "g2 = set_mark x black2gray g1"
    have a1: "advance x ?g g1"
      unfolding g1_def by (rule advance_push_grayagain)
    have e2: "g_objs g2 = g_objs g"
      by (simp add: g2_def g1_def)
    have a2: "advance x g1 g2"
      unfolding g2_def by (rule advance_set_mark) (auto simp: gc_bits)
    have "M g1 = M ?g"
      by (simp add: g1_def M_def iswhite_def)
    hence x2: "x \<in> M g2"
      using xp by (simp add: g2_def M_black2gray)
    have w2: "wt g2"
      using wt wt_cong [OF e2] by simp
    have ob2: "g_objs g2 x = Some (OThread th)"
      using e2 ob OThread by simp
    note ts = advance_traversestack [OF w2 ob2 x2]
    have e: "snd (propagatemark sz g) = traversestack x th g2"
      using ob OThread x(1) by (simp add: propagatemark_def pg Let_def g2_def g1_def)
    have "x \<in> set (g_grayagain (traversestack x th g2))"
      using ts by (simp add: g2_def set_mark_def g1_def)
    moreover have "keys_marked (traversestack x th g2) x"
      using kind_shrink(5) [OF advanceD(2) [OF conjunct1 [OF ts]]] ob2
      by (intro keys_marked_other) (simp add: is_table_def)
    ultimately show ?thesis
      unfolding e settled_def using ts advance_trans [OF advance_trans [OF a1 a2]] kept_refs_sub by blast
  qed
qed

text \<open>The invariant of the marking phase, but for the objects in \<open>X\<close>.\<close>

definition traced :: "gcref set \<Rightarrow> gcstate \<Rightarrow> bool" where
  "traced X g \<longleftrightarrow> (\<forall>x \<in> M g. x \<in> set (g_gray g) \<or> x \<in> X \<or> kept_refs g x \<subseteq> M g)"

definition gray_ok :: "gcstate \<Rightarrow> bool" where
  "gray_ok g \<longleftrightarrow> (\<forall>x \<in> set (g_gray g). x \<in> M g \<and> grayable g x)"

lemma kept_refs_advance:
  assumes "advance x g g'" "y \<noteq> x" "y \<in> M g"
  shows "kept_refs g' y \<subseteq> kept_refs g y"
proof -
  note d = advanceD [OF assms(1)]
  have w: "y \<in> set (g_weak g') \<longleftrightarrow> y \<in> set (g_weak g)"
    using d(9) assms(2) by auto
  have m: "g_marked g' y = g_marked g y"
    by (rule d(5) [OF assms(3,2)])
  show ?thesis
  proof (cases "\<exists>tb. g_objs g y = Some (OTable tb)")
    case True
    then obtain tb where tb: "g_objs g y = Some (OTable tb)" by blast
    from shrinksD [OF d(2) this] obtain ob' where ob': "g_objs g' y = Some ob'" "obj_shrink (OTable tb) ob'"
      by blast
    then obtain tb' where tb': "ob' = OTable tb'"
      by (cases ob') (auto simp: obj_shrink_def)
    show ?thesis
      using refs_shrink [OF d(2), of y] trefs_shrink [OF ob'(2) [unfolded tb']] tb ob' tb'
      by (simp add: kept_refs_def w m)
  next
    case False
    hence "kept_refs g y = refs g y"
      by (auto simp: kept_refs_def split: option.splits gcobj.splits)
    thus ?thesis
      using kept_refs_sub [of g' y] refs_shrink [OF d(2), of y] by simp
  qed
qed

lemma traced_advance:
  assumes a: "advance x g g'" and t: "traced (insert x X) g" and x: "kept_refs g' x \<subseteq> M g' \<or> x \<in> X \<or> x \<in> set (g_gray g')"
  shows "traced X g'"
  unfolding traced_def
proof
  fix y
  assume y: "y \<in> M g'"
  note d = advanceD [OF a]
  show "y \<in> set (g_gray g') \<or> y \<in> X \<or> kept_refs g' y \<subseteq> M g'"
  proof (cases "y = x \<or> y \<notin> M g")
    case True
    thus ?thesis
      using x y d(6) [of y] kept_refs_sub [of g' y] unfolding new_ok_def by blast
  next
    case False
    thus ?thesis
      using t new_gray_set [OF d(3)] kept_refs_advance [OF a, of y] d(4) unfolding traced_def by blast
  qed
qed

lemma traced_pop:
  assumes "traced X g" "g_gray g = x # xs"
  shows "traced (insert x X) (pop_gray g)"
proof -
  have "kept_refs (pop_gray g) y = kept_refs g y" if "y \<noteq> x" for y
    by (rule kept_refs_cong) (use that assms(2) in \<open>auto simp: pop_gray_def set_mark_def\<close>)
  thus ?thesis
    using assms by (auto simp: traced_def)
qed

lemma traced_grow: "grow g g' \<Longrightarrow> traced X g \<Longrightarrow> traced X g'"
proof -
  assume g: "grow g g'" and t: "traced X g"
  show ?thesis
    unfolding traced_def
  proof
    fix y
    assume y: "y \<in> M g'"
    note d = grow_exD [OF g]
    show "y \<in> set (g_gray g') \<or> y \<in> X \<or> kept_refs g' y \<subseteq> M g'"
    proof (cases "y \<in> M g")
      case True
      hence "kept_refs g' y = kept_refs g y"
        using d(4) [of y] same_rest_fields(10) [OF d(1)] by (intro kept_refs_cong [OF d(8)]) simp_all
      thus ?thesis
        using True t new_gray_set [OF d(2)] d(3) unfolding traced_def by blast
    next
      case False
      thus ?thesis
        using y d(5) [of y] kept_refs_sub [of g' y] unfolding new_ok_def by blast
    qed
  qed
qed

lemma gray_ok_grow: "grow g g' \<Longrightarrow> gray_ok g \<Longrightarrow> gray_ok g'"
proof -
  assume g: "grow g g'" and o: "gray_ok g"
  note d = grow_exD [OF g]
  have e: "grayable g' y = grayable g y" for y
    by (simp add: grayable_def d(8) kind_cong [OF d(8)])
  show ?thesis
    using o d(2,3) by (auto simp: gray_ok_def new_gray_def e)
qed

lemma gray_ok_advance:
  assumes "advance x g g'" "gray_ok g"
  shows "gray_ok g'"
proof -
  note d = advanceD [OF assms(1)]
  show ?thesis
    using assms(2) d(3,4) by (auto simp: gray_ok_def new_gray_def grayable_shrink [OF d(2)])
qed

lemma gray_ok_pop: "gray_ok g \<Longrightarrow> g_gray g \<noteq> [] \<Longrightarrow> gray_ok (pop_gray g)"
  using kind_cong(1) [of "pop_gray g" g] by (cases "g_gray g") (auto simp: gray_ok_def grayable_def)

text \<open>What a whole propagation step keeps.\<close>

lemma propagatemark_traced:
  assumes "wt g" "gray_ok g" "g_gray g \<noteq> []" "traced X g"
  shows "wt (snd (propagatemark sz g))" "gray_ok (snd (propagatemark sz g))" "traced X (snd (propagatemark sz g))"
proof -
  obtain x xs where x: "g_gray g = x # xs"
    using assms(3) by (cases "g_gray g") auto
  have gx: "x \<in> M g" "grayable g x"
    using assms(2) x by (auto simp: gray_ok_def)
  note s = propagatemark_step [OF assms(1) x gx, of sz]
  have a: "advance x (pop_gray g) (snd (propagatemark sz g))"
    using s by blast
  have "wt (pop_gray g)"
    using assms(1) wt_cong [of "pop_gray g" g] by simp
  thus "wt (snd (propagatemark sz g))"
    using wt_shrink [OF advanceD(2) [OF a]] by blast
  show "gray_ok (snd (propagatemark sz g))"
    by (rule gray_ok_advance [OF a gray_ok_pop [OF assms(2,3)]])
  show "traced X (snd (propagatemark sz g))"
    by (rule traced_advance [OF a traced_pop [OF assms(4) x]]) (use s in blast)
qed

text \<open>Where marked objects are, by their colour: the barriers rely on it.\<close>

definition coloured :: "gcref set \<Rightarrow> gcstate \<Rightarrow> bool" where
  "coloured X g \<longleftrightarrow> (\<forall>y \<in> M g. y \<in> set (g_gray g) \<or> y \<in> X \<or> is_openuv g y \<or> settled g y)"

lemma new_ok_settled: "new_ok g y \<Longrightarrow> y \<in> set (g_gray g) \<or> is_openuv g y \<or> settled g y"
  unfolding new_ok_def settled_def by blast

lemma coloured_grow:
  assumes "grow g g'" "coloured X g"
  shows "coloured X g'"
  unfolding coloured_def
proof
  fix y
  assume y: "y \<in> M g'"
  note d = grow_exD [OF assms(1)]
  show "y \<in> set (g_gray g') \<or> y \<in> X \<or> is_openuv g' y \<or> settled g' y"
  proof (cases "y \<in> M g")
    case True
    have "settled g' y = settled g y"
      using d(4) [OF True] same_rest_fields(9,10) [OF d(1)]
      by (simp add: settled_def isblack_def kind_cong [OF d(8)])
    thus ?thesis
      using True assms(2) new_gray_set [OF d(2)] kind_cong(3) [OF d(8)] unfolding coloured_def by blast
  next
    case False
    thus ?thesis
      using new_ok_settled d(5) [OF y] by blast
  qed
qed

lemma coloured_advance:
  assumes a: "advance x g g'" and t: "coloured (insert x X) g" and x: "settled g' x"
  shows "coloured X g'"
  unfolding coloured_def
proof
  fix y
  assume y: "y \<in> M g'"
  note d = advanceD [OF a]
  show "y \<in> set (g_gray g') \<or> y \<in> X \<or> is_openuv g' y \<or> settled g' y"
  proof (cases "y \<in> M g \<and> y \<noteq> x")
    case True
    have "settled g y \<Longrightarrow> settled g' y"
      using d(5) [of y] True d(9,10) by (auto simp: settled_def isblack_def kind_shrink [OF d(2)])
    thus ?thesis
      using True t new_gray_set [OF d(3)] kind_shrink(3) [OF d(2)] unfolding coloured_def by blast
  next
    case False
    thus ?thesis
      using new_ok_settled d(6) [OF y] x by blast
  qed
qed

lemma coloured_pop:
  assumes "coloured X g" "g_gray g = x # xs"
  shows "coloured (insert x X) (pop_gray g)"
proof -
  have "settled (pop_gray g) y = settled g y" if "y \<noteq> x" for y
    using that assms(2) kind_cong [of "pop_gray g" g]
    by (auto simp: settled_def isblack_def pop_gray_def set_mark_def)
  thus ?thesis
    using assms kind_cong(3) [of "pop_gray g" g] by (auto simp: coloured_def)
qed

lemma keys_kept_advance:
  assumes a: "advance x g g'" and k: "\<And>y. y \<noteq> x \<Longrightarrow> isblack g y \<Longrightarrow> keys_marked g y"
    and x: "isblack g' x \<Longrightarrow> keys_marked g' x"
  shows "keys_kept g'"
proof -
  note d = advanceD [OF a]
  have "keys_marked g' y" if "isblack g' y" "y \<noteq> x" for y
  proof (cases "is_table g y")
    case True
    hence "keys_marked g y"
      using that d(8) [of y] k by (simp add: keeps_colour_def)
    thus ?thesis
      by (rule keys_marked_shrink [OF d(2,4)])
  next
    case False
    thus ?thesis
      using kind_shrink(5) [OF d(2)] by (simp add: keys_marked_other)
  qed
  thus ?thesis
    using x unfolding keys_kept_def by blast
qed

text \<open>The lists the atomic phase goes through again.\<close>

definition later_ok :: "gcstate \<Rightarrow> bool" where
  "later_ok g \<longleftrightarrow> (\<forall>x \<in> set (g_weak g) \<union> set (g_grayagain g). x \<in> M g \<and> grayable g x)"

text \<open>What any number of marking steps change.\<close>

definition progress :: "gcstate \<Rightarrow> gcstate \<Rightarrow> bool" where
  "progress g g' \<longleftrightarrow>
     same_frame g g' \<and> shrinks g g' \<and> M g \<subseteq> M g' \<and>
     (\<forall>y b. 5 \<le> b \<or> 3 \<le> b \<and> \<not> grayable g y \<longrightarrow> bit (g_marked g' y) b = bit (g_marked g y) b) \<and>
     (\<forall>y. is_openuv g y \<longrightarrow> isblack g' y \<longrightarrow> isblack g y) \<and>
     set (g_weak g) \<subseteq> set (g_weak g') \<and> set (g_grayagain g) \<subseteq> set (g_grayagain g') \<and> white_same g g'"

lemma progressD:
  assumes "progress g g'"
  shows "same_frame g g'" "shrinks g g'" "M g \<subseteq> M g'"
    "5 \<le> b \<or> 3 \<le> b \<and> \<not> grayable g y \<Longrightarrow> bit (g_marked g' y) b = bit (g_marked g y) b"
    "is_openuv g y \<Longrightarrow> isblack g' y \<Longrightarrow> isblack g y"
    "set (g_weak g) \<subseteq> set (g_weak g')" "set (g_grayagain g) \<subseteq> set (g_grayagain g')"
    "white_same g g'"
  using assms unfolding progress_def by blast+

lemma progress_trans:
  assumes "progress g1 g2" "progress g2 g3"
  shows "progress g1 g3"
proof -
  note a = progressD [OF assms(1)] and b = progressD [OF assms(2)]
  have "is_openuv g1 y \<Longrightarrow> isblack g3 y \<Longrightarrow> isblack g1 y" for y
    using a(5) [of y] b(5) [of y] kind_shrink(3) [OF a(2)] by blast
  moreover have "5 \<le> n \<or> 3 \<le> n \<and> \<not> grayable g1 y \<Longrightarrow> bit (g_marked g3 y) n = bit (g_marked g1 y) n" for y n
    using a(4) [of n y] b(4) [of n y] grayable_shrink [OF a(2)] by blast
  ultimately show ?thesis
    unfolding progress_def
    using same_frame_trans [OF a(1) b(1)] shrinks_trans [OF a(2) b(2)] a(3,6,7) b(3,6,7)
      white_same_trans [OF a(8) b(8) b(3)] by blast
qed

lemma grow_progress:
  assumes "grow g g'"
  shows "progress g g'"
proof -
  note d = grow_exD [OF assms]
  show ?thesis
    unfolding progress_def
    using d(3,6,7,9) same_rest_frame [OF d(1)] shrinks_refl [OF d(8)] same_rest_fields(9,10) [OF d(1)]
    by (auto simp: keeps_colour_def)
qed

lemma progress_refl: "progress g g"
  by (rule grow_progress [OF grow_refl])

lemma advance_progress:
  assumes "advance x g g'" "grayable g x"
  shows "progress g g'"
proof -
  note d = advanceD [OF assms(1)]
  have "bit (g_marked g' y) b = bit (g_marked g y) b" if "5 \<le> b \<or> 3 \<le> b \<and> \<not> grayable g y" for y b
    using that d(7) [of b y] assms(2) by auto
  thus ?thesis
    unfolding progress_def using d(1,2,4,8,9,10,11) by (auto simp: keeps_colour_def)
qed

lemma pop_gray_progress:
  assumes "grayable g x" "g_gray g = x # xs"
  shows "progress g (pop_gray g)"
proof -
  have nu: "\<not> is_openuv g x"
    using assms(1) by (auto simp: grayable_def rank_def is_openuv_def)
  have e: "pop_gray g = (set_mark x gray2black g)\<lparr>g_gray := xs\<rparr>"
    using assms(2) by (simp add: pop_gray_def)
  have "same_frame g (pop_gray g)"
    by (simp add: e same_frame_def set_mark_def)
  moreover have "isblack (pop_gray g) y \<Longrightarrow> isblack g y" if "is_openuv g y" for y
    using that nu by (cases "y = x") (simp_all add: e isblack_def set_mark_def)
  moreover have "bit (g_marked (pop_gray g) y) b = bit (g_marked g y) b" if "3 \<le> b" for y b
    using that by (simp add: e set_mark_def gc_bits)
  moreover have "white_same g (pop_gray g)"
    by (rule white_same_one [of x]) (auto simp: e set_mark_def gc_bits)
  ultimately show ?thesis
    unfolding progress_def using shrinks_refl [of "pop_gray g" g] by simp
qed

text \<open>The white objects still to be found, and the gray ones: each step takes one away.\<close>

definition todo :: "gcstate \<Rightarrow> nat" where
  "todo g = card {x. g_objs g x \<noteq> None \<and> x \<notin> M g} + length (g_gray g)"

lemma todo_advance:
  assumes "advance x g g'" "finite (dom (g_objs g))"
  shows "todo g' \<le> todo g" "finite (dom (g_objs g'))"
proof -
  note d = advanceD [OF assms(1)]
  have dom: "g_objs g' y = None \<longleftrightarrow> g_objs g y = None" for y
    by (rule shrinks_none [OF d(2)])
  have "dom (g_objs g') = dom (g_objs g)"
    using dom by (auto simp: dom_def)
  with assms(2) show "finite (dom (g_objs g'))"
    by simp
  let ?W = "{x. g_objs g x \<noteq> None \<and> x \<notin> M g}" and ?W' = "{x. g_objs g' x \<noteq> None \<and> x \<notin> M g'}"
  obtain ns where ns: "g_gray g' = ns @ g_gray g" "distinct ns"
      "\<forall>x \<in> set ns. x \<in> M g' \<and> x \<notin> M g \<and> grayable g x"
    using d(3) unfolding new_gray_def by blast
  have fin: "finite ?W" "finite ?W'"
    using assms(2) by (auto intro: finite_subset [of _ "dom (g_objs g)"] simp: dom)
  have "set ns \<union> ?W' \<subseteq> ?W" "set ns \<inter> ?W' = {}"
    using ns(3) d(4) dom by (auto simp: grayable_def)
  hence "card (set ns) + card ?W' \<le> card ?W"
    using fin card_mono [of ?W "set ns \<union> ?W'"] card_Un_disjoint [of "set ns" ?W'] by simp
  thus "todo g' \<le> todo g"
    using ns(1) distinct_card [OF ns(2)] by (simp add: todo_def)
qed

lemma todo_pop: "g_gray g \<noteq> [] \<Longrightarrow> todo (pop_gray g) < todo g"
  by (cases "g_gray g") (simp_all add: todo_def)

text \<open>All that a propagation step keeps, and all that a run of them ends with.\<close>

definition mark_inv :: "gcref set \<Rightarrow> gcref set \<Rightarrow> gcstate \<Rightarrow> bool" where
  "mark_inv X Y g \<longleftrightarrow>
     wt g \<and> finite (dom (g_objs g)) \<and> gray_ok g \<and> later_ok g \<and> traced X g \<and> coloured Y g \<and> keys_kept g"

lemma later_ok_advance:
  assumes "advance x g g'" "later_ok g" "x \<in> M g" "grayable g x"
  shows "later_ok g'"
proof -
  note d = advanceD [OF assms(1)]
  have "set (g_weak g') \<union> set (g_grayagain g') \<subseteq> insert x (set (g_weak g) \<union> set (g_grayagain g))"
    using d(9,10) by auto
  thus ?thesis
    using assms(2-4) d(4) unfolding later_ok_def grayable_shrink [OF d(2)] by blast
qed

lemma propagatemark_inv:
  assumes i: "mark_inv X Y g" and ne: "g_gray g \<noteq> []"
  shows "mark_inv X Y (snd (propagatemark sz g))" "progress g (snd (propagatemark sz g))"
    "todo (snd (propagatemark sz g)) < todo g"
proof -
  have wt: "wt g" and fin: "finite (dom (g_objs g))" and go: "gray_ok g" and lo: "later_ok g"
    and tr: "traced X g" and co: "coloured Y g" and ke: "keys_kept g"
    using i by (simp_all add: mark_inv_def)
  obtain x xs where x: "g_gray g = x # xs"
    using ne by (cases "g_gray g") auto
  have gx: "x \<in> M g" "grayable g x"
    using go x by (auto simp: gray_ok_def)
  note s = propagatemark_step [OF wt x gx, of sz]
  have a: "advance x (pop_gray g) (snd (propagatemark sz g))"
    using s by blast
  have ge: "grayable (pop_gray g) y = grayable g y" for y
    using kind_cong(1) [of "pop_gray g" g] by (simp add: grayable_def)
  have "later_ok (pop_gray g)"
    using lo by (simp add: later_ok_def ge)
  hence "later_ok (snd (propagatemark sz g))"
    using later_ok_advance [OF a] gx by (simp add: ge)
  moreover have "coloured Y (snd (propagatemark sz g))"
    by (rule coloured_advance [OF a coloured_pop [OF co x]]) (use s in blast)
  moreover have "keys_kept (snd (propagatemark sz g))"
  proof (rule keys_kept_advance [OF a])
    fix y
    assume y: "y \<noteq> x" "isblack (pop_gray g) y"
    hence "isblack g y"
      using x by (simp add: pop_gray_def isblack_def)
    hence "keys_marked g y"
      using ke by (simp add: keys_kept_def)
    thus "keys_marked (pop_gray g) y"
      using keys_marked_cong [of "pop_gray g" g] by simp
  qed (use s in blast)
  ultimately show "mark_inv X Y (snd (propagatemark sz g))"
    using propagatemark_traced [OF wt go ne tr, of sz] todo_advance(2) [OF a] fin by (simp add: mark_inv_def)
  show "progress g (snd (propagatemark sz g))"
    by (rule progress_trans [OF pop_gray_progress [OF gx(2) x] advance_progress [OF a]])
      (use gx ge in simp)
  show "todo (snd (propagatemark sz g)) < todo g"
    using todo_advance(1) [OF a] todo_pop [OF ne] fin by simp
qed

lemma propagateall_run:
  assumes "mark_inv X Y g"
  shows "\<exists>c g'. propagateall sz m g = Some (c, g') \<and> g_gray g' = [] \<and> mark_inv X Y g' \<and> progress g g'"
  using assms
proof (induction "todo g" arbitrary: g m rule: less_induct)
  case less
  show ?case
  proof (cases "g_gray g = []")
    case True
    thus ?thesis
      using less.prems progress_refl by (subst propagateall.simps) simp
  next
    case False
    note p = propagatemark_inv [OF less.prems False, of sz]
    obtain c1 g1 where 1: "propagatemark sz g = (c1, g1)"
      by (cases "propagatemark sz g")
    have "\<exists>c g'. propagateall sz (m + c1) g1 = Some (c, g') \<and> g_gray g' = [] \<and> mark_inv X Y g' \<and> progress g1 g'"
      using less.hyps [of g1] p 1 by simp
    then obtain c g' where "propagateall sz (m + c1) g1 = Some (c, g')" "g_gray g' = []" "mark_inv X Y g'"
        "progress g1 g'"
      by blast
    thus ?thesis
      using False 1 p(2) progress_trans by (subst propagateall.simps) auto
  qed
qed

end
