(* ===== verification/Lua_Gcatomic.thy ===== *)
theory Lua_Gcatomic
  imports Lua_Gcstep Lua_Gcstepmark "HOL-Library.Multiset"
begin

text \<open>
  The atomic end of the marking phase: it terminates, and afterwards no marked object refers to an
  unmarked one, weak tables included.
\<close>

unbundle bit_operations_syntax

lemma fold_grow_from:
  assumes "\<And>a h. a \<in> set xs \<Longrightarrow> grow g h \<Longrightarrow> grow h (f a h) \<and> R a \<subseteq> M (f a h)" "grow g h"
  shows "grow h (fold f xs h) \<and> \<Union> (R ` set xs) \<subseteq> M (fold f xs h)"
  using assms
proof (induction xs arbitrary: h)
  case Nil
  thus ?case
    by (simp add: grow_refl)
next
  case (Cons a xs)
  have 1: "grow h (f a h) \<and> R a \<subseteq> M (f a h)"
    using Cons.prems by simp
  have 2: "grow (f a h) (fold f xs (f a h)) \<and> \<Union> (R ` set xs) \<subseteq> M (fold f xs (f a h))"
    by (rule Cons.IH) (use Cons.prems 1 grow_trans in auto)
  show ?case
    using grow_both [OF 1 2] by auto
qed

section \<open>Open upvalues\<close>

definition uv_ok :: "gcstate \<Rightarrow> bool" where
  "uv_ok g \<longleftrightarrow> (\<forall>x. is_openuv g x \<longrightarrow> x \<in> set (g_uvhead g) \<and> \<not> isblack g x) \<and> (\<forall>x \<in> set (g_uvhead g). is_openuv g x)"

lemma uv_ok_progress:
  assumes "progress g g'" "uv_ok g"
  shows "uv_ok g'"
proof -
  note d = progressD [OF assms(1)]
  show ?thesis
    using assms(2) d(5) unfolding uv_ok_def same_frame_fields(11) [OF d(1)] kind_shrink(3) [OF d(2)] by blast
qed

lemma remark_one_grow:
  assumes "wt g" "is_openuv g u" "\<not> isblack g u"
  shows "grow g (remark_one u g) \<and> (u \<in> M g \<longrightarrow> refs g u \<subseteq> M (remark_one u g))"
proof -
  obtain t i where o: "g_objs g u = Some (OUpval (UOpen t i))"
    using assms(2) by (auto simp: is_openuv_def)
  have "grow g (markvalue (uv_value g (UOpen t i)) g) \<and>
      vrefs (uv_value g (UOpen t i)) \<subseteq> M (markvalue (uv_value g (UOpen t i)) g)"
    by (rule markvalue_grow [OF assms(1)])
  thus ?thesis
    using assms(3) o grow_refl by (simp add: remark_one_def isgray_def refs_def orefs_def M_def)
qed

lemma remarkupvals_grow:
  assumes wt: "wt g" and u: "uv_ok g"
  shows "grow g (remarkupvals g)" "\<forall>x \<in> set (g_uvhead g). x \<in> M g \<longrightarrow> refs g x \<subseteq> M (remarkupvals g)"
proof -
  let ?R = "\<lambda>x. if x \<in> M g then refs g x else {}"
  have "grow g (fold remark_one (g_uvhead g) g) \<and> \<Union> (?R ` set (g_uvhead g)) \<subseteq> M (fold remark_one (g_uvhead g) g)"
  proof (rule fold_grow_from [OF _ grow_refl])
    fix a and h :: gcstate
    assume a: "a \<in> set (g_uvhead g)" and gh: "grow g h"
    note e = grow_exD(8) [OF gh]
    have "is_openuv h a" "\<not> isblack h a"
      using u a grow_exD(7) [OF gh] kind_cong(3) [OF e] unfolding uv_ok_def keeps_colour_def by blast+
    thus "grow h (remark_one a h) \<and> ?R a \<subseteq> M (remark_one a h)"
      using remark_one_grow [OF grow_wt [OF gh wt]] refs_cong [OF e, of a] grow_exD(3) [OF gh] by auto
  qed
  thus "grow g (remarkupvals g)" "\<forall>x \<in> set (g_uvhead g). x \<in> M g \<longrightarrow> refs g x \<subseteq> M (remarkupvals g)"
    unfolding remarkupvals_def by auto
qed

section \<open>Between the propagations\<close>

lemma mark_inv_grow:
  assumes "mark_inv X Y g" "grow g g'"
  shows "mark_inv X Y g'"
proof -
  note d = grow_exD [OF assms(2)]
  have "later_ok g'"
    using assms(1) d(3) same_rest_fields(9,10) [OF d(1)]
    by (auto simp: mark_inv_def later_ok_def grayable_def kind_cong [OF d(8)] d(8))
  thus ?thesis
    using assms(1) wt_cong [OF d(8)] gray_ok_grow [OF assms(2)] traced_grow [OF assms(2)] coloured_grow [OF assms(2)] keys_kept_grow [OF assms(2)] d(8)
    by (simp add: mark_inv_def)
qed

lemma mark_inv_sub: "mark_inv X Y g \<Longrightarrow> (\<And>x. x \<in> X \<Longrightarrow> x \<in> M g \<Longrightarrow> x \<notin> X' \<Longrightarrow> x \<in> set (g_gray g) \<or> kept_refs g x \<subseteq> M g) \<Longrightarrow> mark_inv X' Y g"
  unfolding mark_inv_def traced_def by blast

lemma traced_remark:
  assumes i: "mark_inv (A \<union> set (g_uvhead g)) Y g" and u: "uv_ok g"
  shows "mark_inv A Y (remarkupvals g)"
proof -
  have wt: "wt g"
    using i by (simp add: mark_inv_def)
  note r = remarkupvals_grow [OF wt u]
  note d = grow_exD [OF r(1)]
  show ?thesis
  proof (rule mark_inv_sub [OF mark_inv_grow [OF i r(1)]])
    fix x
    assume x: "x \<in> A \<union> set (g_uvhead g)" "x \<in> M (remarkupvals g)" "x \<notin> A"
    show "x \<in> set (g_gray (remarkupvals g)) \<or> kept_refs (remarkupvals g) x \<subseteq> M (remarkupvals g)"
      using x r(2) d(5) [of x] refs_cong [OF d(8), of x] kept_refs_sub [of "remarkupvals g" x]
      unfolding new_ok_def by blast
  qed
qed

text \<open>\<open>g->gray = g->weak; g->weak = NULL\<close> and the same for \<open>grayagain\<close>.\<close>

lemma gray_from_weak:
  assumes i: "mark_inv X Y g" and e: "g_gray g = []"
    and X: "X \<subseteq> A \<union> set (g_weak g)"
  shows "mark_inv A Y (g\<lparr>g_gray := g_weak g, g_weak := []\<rparr>)"
proof -
  let ?g = "g\<lparr>g_gray := g_weak g, g_weak := []\<rparr>"
  have o: "g_objs ?g = g_objs g" and m: "M ?g = M g"
    by (simp_all add: M_def iswhite_def)
  note k = kind_cong [OF o]
  have "kept_refs ?g x = kept_refs g x" if "x \<notin> set (g_weak g)" for x
    by (rule kept_refs_cong [OF o]) (use that in simp_all)
  note kr = this
  have "x \<in> X \<or> kept_refs g x \<subseteq> M g" if "x \<in> M g" for x
    using i that e by (simp add: mark_inv_def traced_def)
  hence "x \<in> set (g_weak g) \<or> x \<in> A \<or> kept_refs ?g x \<subseteq> M g" if "x \<in> M g" for x
    using kr [of x] X that by blast
  hence "traced A ?g"
    by (simp add: traced_def m)
  moreover have "coloured Y ?g"
    using i unfolding mark_inv_def coloured_def m settled_def by (auto simp: e k isblack_def)
  moreover have "keys_kept ?g"
    using i unfolding mark_inv_def keys_kept_def by (simp add: isblack_def keys_marked_cong [OF o m])
  ultimately show ?thesis
    using i wt_cong [OF o] by (auto simp: mark_inv_def gray_ok_def later_ok_def m grayable_def k)
qed

lemma gray_from_grayagain:
  assumes i: "mark_inv X Y g" and e: "g_gray g = []"
    and X: "X \<subseteq> A \<union> set (g_grayagain g)"
  shows "mark_inv A Y (g\<lparr>g_gray := g_grayagain g, g_grayagain := []\<rparr>)"
proof -
  let ?g = "g\<lparr>g_gray := g_grayagain g, g_grayagain := []\<rparr>"
  have o: "g_objs ?g = g_objs g" and m: "M ?g = M g"
    by (simp_all add: M_def iswhite_def)
  note k = kind_cong [OF o]
  have "kept_refs ?g x = kept_refs g x" for x
    by (rule kept_refs_cong [OF o]) simp_all
  note kr = this
  have "x \<in> X \<or> kept_refs g x \<subseteq> M g" if "x \<in> M g" for x
    using i that e by (simp add: mark_inv_def traced_def)
  hence "x \<in> set (g_grayagain g) \<or> x \<in> A \<or> kept_refs ?g x \<subseteq> M g" if "x \<in> M g" for x
    using kr [of x] X that by blast
  hence "traced A ?g"
    by (simp add: traced_def m)
  moreover have "coloured Y ?g"
    using i unfolding mark_inv_def coloured_def m settled_def by (auto simp: e k isblack_def)
  moreover have "keys_kept ?g"
    using i unfolding mark_inv_def keys_kept_def by (simp add: isblack_def keys_marked_cong [OF o m])
  ultimately show ?thesis
    using i wt_cong [OF o] by (auto simp: mark_inv_def gray_ok_def later_ok_def m grayable_def k)
qed

lemma markmt_grow: "wt g \<Longrightarrow> grow g (markmt g) \<and> \<Union> (set_option ` set (g_mt g)) \<subseteq> M (markmt g)"
  unfolding markmt_def by (rule fold_mark_opt)

section \<open>Userdata to be finalized\<close>

definition is_udata :: "gcstate \<Rightarrow> gcref \<Rightarrow> bool" where
  "is_udata g x \<longleftrightarrow> (\<exists>mt env. g_objs g x = Some (OUdata mt env))"

text \<open>Only the bits of userdata change, and which list they are in.\<close>

definition fin_frame :: "gcstate \<Rightarrow> gcstate \<Rightarrow> bool" where
  "fin_frame g g' \<longleftrightarrow> (\<exists>m. g' = g\<lparr>g_marked := m\<rparr> \<and>
     (\<forall>x b. bit (m x) b = bit (g_marked g x) b \<or> b = FINALIZEDBIT \<and> is_udata g x \<and> bit (m x) b))"

lemma fin_frame_refl: "fin_frame g g"
  unfolding fin_frame_def by (rule exI [of _ "g_marked g"]) simp

lemma fin_frame_trans: "fin_frame g1 g2 \<Longrightarrow> fin_frame g2 g3 \<Longrightarrow> fin_frame g1 g3"
  unfolding fin_frame_def is_udata_def by fastforce

lemma separate_loop_frame:
  assumes "separate_loop sz all us g = (kept, moved, m, g')" "\<forall>u \<in> set us. is_udata g u"
  shows "fin_frame g g' \<and> mset kept + mset moved = mset us"
  using assms
proof (induction us arbitrary: g kept moved m g')
  case Nil
  thus ?case
    by (simp add: fin_frame_refl)
next
  case (Cons u us)
  let ?g1 = "set_mark u (l_setbit FINALIZEDBIT) g"
  have u: "is_udata g u"
    using Cons.prems(2) by simp
  have f1: "fin_frame g ?g1"
    unfolding fin_frame_def set_mark_def
    by (rule exI [of _ "(g_marked g)(u := l_setbit FINALIZEDBIT (g_marked g u))"]) (use u in \<open>auto simp: gc_bits\<close>)
  have us: "\<forall>v \<in> set us. is_udata g v" "\<forall>v \<in> set us. is_udata ?g1 v"
    using Cons.prems(2) by (simp_all add: is_udata_def)
  obtain k1 m1 n1 h1 where 1: "separate_loop sz all us g = (k1, m1, n1, h1)"
    by (cases "separate_loop sz all us g") auto
  obtain k2 m2 n2 h2 where 2: "separate_loop sz all us ?g1 = (k2, m2, n2, h2)"
    by (cases "separate_loop sz all us ?g1") auto
  note a = Cons.IH [OF 1 us(1)] and b = Cons.IH [OF 2 us(2)]
  have fb: "fin_frame g h2"
    using b fin_frame_trans [OF f1] by blast
  from Cons.prems(1) a b fb show ?case
    by (auto simp: 1 2 split: if_splits)
qed

lemma fin_frame_mark_inv:
  assumes f: "fin_frame g h" and g': "g' = h\<lparr>g_rootgc := r, g_tmudata := t\<rparr>" and i: "mark_inv X Y g"
  shows "mark_inv X Y g'" "M g' = M g" "g_objs g' = g_objs g"
proof -
  obtain m where h: "h = g\<lparr>g_marked := m\<rparr>"
    and b: "\<And>x b. bit (m x) b = bit (g_marked g x) b \<or> b = 3 \<and> is_udata g x \<and> bit (m x) b"
    using f by (auto simp: fin_frame_def)
  have o: "g_objs g' = g_objs g" and gr: "g_gray g' = g_gray g" "g_weak g' = g_weak g" "g_grayagain g' = g_grayagain g"
    and mk: "g_marked g' = m"
    by (simp_all add: g' h)
  have b': "b \<noteq> 3 \<Longrightarrow> bit (m x) b = bit (g_marked g x) b" for x b
    using b [of x b] by blast
  have m: "M g' = M g"
    by (auto simp: M_def iswhite_def mk gc_bits b')
  note k = kind_cong [OF o]
  have kr: "kept_refs g' x = kept_refs g x" for x
  proof (cases "is_udata g x")
    case True
    hence "kept_refs g' x = refs g' x" "kept_refs g x = refs g x"
      by (auto simp: is_udata_def kept_refs_def o)
    thus ?thesis
      using refs_cong [OF o, of x] by simp
  next
    case False
    thus ?thesis
      using b [of x 3] by (intro kept_refs_cong [OF o]) (auto simp: gr mk b')
  qed
  have "traced X g'"
    using i by (simp add: mark_inv_def traced_def m gr kr)
  moreover have "coloured Y g'"
    using i by (simp add: mark_inv_def coloured_def m gr settled_def isblack_def mk gc_bits b' k)
  moreover have "keys_kept g'"
    using i unfolding mark_inv_def keys_kept_def by (simp add: isblack_def keys_marked_cong [OF o m] mk gc_bits b')
  ultimately show "mark_inv X Y g'"
    using i by (simp add: mark_inv_def wt_cong [OF o] o gray_ok_def later_ok_def gr m grayable_def k)
  show "M g' = M g"
    by (fact m)
  show "g_objs g' = g_objs g"
    by (fact o)
qed

text \<open>One userdata of \<open>marktmu\<close>: whitened, then marked.\<close>

lemma marktmu_one:
  assumes wt: "wt h" and go: "gray_ok h" and u: "is_udata h u" and w: "white_byte (g_currentwhite h)"
    and h': "h' = reallymarkobject u (set_mark u (makewhite h) h)"
  shows "advance u h h' \<and> settled h' u \<and> kept_refs h' u \<subseteq> M h' \<and> u \<in> M h' \<and> progress h h' \<and>
    g_weak h' = g_weak h \<and> g_grayagain h' = g_grayagain h"
proof -
  let ?h = "set_mark u (makewhite h) h"
  have wt1: "wt ?h"
    using wt wt_cong [of ?h h] by simp
  have iw: "iswhite ?h u"
    using w by (auto simp: iswhite_def gc_bits)
  have M1: "M ?h = M h - {u}"
    using w by (auto simp: M_def iswhite_def gc_bits)
  have gr: "grow ?h h'" and um: "u \<in> M h'"
    using reallymark_grow [OF wt1 iw] by (simp_all add: h')
  note d = grow_exD [OF gr]
  have o: "g_objs h' = g_objs h"
    using d(8) by simp
  have gu: "\<not> grayable h u" "\<not> is_openuv h u" "\<not> leaf h u" "\<not> is_thread h u" "\<not> keeps_colour h u"
    using u by (auto simp: is_udata_def grayable_def rank_def keeps_colour_def is_openuv_def leaf_def is_thread_def is_table_def)
  have sf: "same_frame h h'"
    using same_frame_trans [OF _ same_rest_frame [OF d(1)]] same_rest_frame [OF set_mark_same_rest] by blast
  have wl: "g_weak h' = g_weak h" "g_grayagain h' = g_grayagain h"
    using same_rest_fields(9,10) [OF d(1)] by (simp_all add: set_mark_def)
  have ge: "grayable ?h y = grayable h y" for y
    using kind_cong(1) [of ?h h] by (simp add: grayable_def)
  have ng: "new_gray h h'"
    using d(2) gu(1) unfolding new_gray_def M1 ge by auto
  have Mh: "M h \<subseteq> M h'"
    using d(3) um M1 by blast
  have marks: "\<forall>y \<in> M h. y \<noteq> u \<longrightarrow> g_marked h' y = g_marked h y"
    using d(4) M1 by simp
  have nu: "new_ok h' y" if "y \<in> M h'" "y = u \<or> y \<notin> M h" for y
    using d(5) [OF that(1)] that(2) M1 by blast
  have bits: "\<forall>y b. 3 \<le> b \<longrightarrow> bit (g_marked h' y) b = bit (g_marked h y) b"
    using d(6) by (simp add: gc_bits)
  have op: "\<forall>y. keeps_colour h y \<longrightarrow> isblack h' y \<longrightarrow> isblack h y"
  proof (intro allI impI)
    fix y
    assume y: "keeps_colour h y" "isblack h' y"
    hence "isblack ?h y"
      using d(7) [of y] kind_cong(6) [of ?h h y] by simp
    thus "isblack h y"
      using y gu(5) by (cases "y = u") (simp_all add: isblack_def)
  qed
  have ws: "white_same h h'"
    unfolding white_same_def
  proof (intro allI impI)
    fix y and b :: nat
    assume y: "y \<notin> M h'" "b \<le> 1"
    hence "bit (g_marked h' y) b = bit (g_marked ?h y) b"
      using grow_exD(9) [OF gr] by (simp add: white_same_def)
    thus "bit (g_marked h' y) b = bit (g_marked h y) b"
      using y um by (cases "y = u") simp_all
  qed
  have adv: "advance u h h'"
    unfolding advance_def using sf shrinks_refl [OF o] ng Mh marks nu bits op wl ws by auto
  have "new_ok h' u"
    by (rule nu [OF um]) simp
  moreover have "u \<notin> set (g_gray h')"
    using d(2) gu(1) go unfolding new_gray_def ge gray_ok_def by auto
  ultimately have blk: "settled h' u \<and> kept_refs h' u \<subseteq> M h'"
    using kept_refs_sub [of h' u] gu unfolding new_ok_def settled_def kind_cong [OF o] by blast
  have "progress h h'"
    unfolding progress_def using sf shrinks_refl [OF o] Mh bits op wl ws by (auto simp: keeps_colour_def)
  thus ?thesis
    using adv blk um wl by blast
qed

lemma marktmu_run:
  assumes "mark_inv (A \<union> set us) (B \<union> set us) h" "\<forall>u \<in> set us. is_udata h u" "white_byte (g_currentwhite h)"
  shows "mark_inv A B (fold (\<lambda>u g. reallymarkobject u (set_mark u (makewhite g) g)) us h) \<and>
    progress h (fold (\<lambda>u g. reallymarkobject u (set_mark u (makewhite g) g)) us h) \<and>
    set us \<subseteq> M (fold (\<lambda>u g. reallymarkobject u (set_mark u (makewhite g) g)) us h) \<and>
    g_weak (fold (\<lambda>u g. reallymarkobject u (set_mark u (makewhite g) g)) us h) = g_weak h"
  using assms
proof (induction us arbitrary: h)
  case Nil
  thus ?case
    by (simp add: progress_refl)
next
  case (Cons u us)
  let ?h = "reallymarkobject u (set_mark u (makewhite h) h)"
  have i: "wt h" "gray_ok h" "is_udata h u"
    using Cons.prems by (simp_all add: mark_inv_def)
  note m = marktmu_one [OF i Cons.prems(3) refl]
  have a: "advance u h ?h" and p: "progress h ?h"
    using m by blast+
  have i': "wt ?h" "finite (dom (g_objs ?h))" "gray_ok ?h"
    using Cons.prems(1) wt_shrink [OF advanceD(2) [OF a]] todo_advance(2) [OF a] gray_ok_advance [OF a]
    by (simp_all add: mark_inv_def)
  have lo: "later_ok ?h"
    using Cons.prems(1) m advanceD(4) [OF a] grayable_shrink [OF advanceD(2) [OF a]]
    unfolding mark_inv_def later_ok_def by auto
  have tr: "traced (A \<union> set us) ?h"
    by (rule traced_advance [OF a]) (use Cons.prems(1) m in \<open>auto simp: mark_inv_def\<close>)
  have co: "coloured (B \<union> set us) ?h"
    by (rule coloured_advance [OF a]) (use Cons.prems(1) m in \<open>auto simp: mark_inv_def\<close>)
  have "keys_kept ?h"
  proof (rule keys_kept_advance [OF a])
    have "\<not> is_table ?h u"
      using kind_shrink(5) [OF advanceD(2) [OF a]] i(3) by (auto simp: is_table_def is_udata_def)
    thus "keys_marked ?h u"
      by (rule keys_marked_other)
  qed (use Cons.prems(1) in \<open>simp add: mark_inv_def keys_kept_def\<close>)
  hence inv: "mark_inv (A \<union> set us) (B \<union> set us) ?h"
    using i' lo tr co by (simp add: mark_inv_def)
  have o: "g_objs ?h = g_objs h"
    using grow_exD(8) [OF conjunct1 [OF reallymark_grow [of "set_mark u (makewhite h) h" u]]]
      wt_cong [of "set_mark u (makewhite h) h" h] i(1) Cons.prems(3) by (simp add: iswhite_def gc_bits)
  have ud: "\<forall>u \<in> set us. is_udata ?h u"
    using Cons.prems(2) by (simp add: is_udata_def o)
  have cw: "white_byte (g_currentwhite ?h)"
    using Cons.prems(3) same_frame_fields(3) [OF progressD(1) [OF p]] by simp
  note I = Cons.IH [OF inv ud cw]
  show ?case
    using I progress_trans [OF p] m progressD(3) by (simp only: fold_Cons o_apply set_simps insert_subset) blast
qed

section \<open>Clearing weak tables\<close>

lemma grow_keep: "grow g1 g2 \<and> A \<subseteq> M g2 \<Longrightarrow> grow g2 g3 \<Longrightarrow> grow g1 g3 \<and> A \<subseteq> M g3"
  using grow_both [of g1 g2 A g3 "{}"] by simp

lemma iscleared_grow:
  assumes "iscleared v iskey g = (c, g')"
  shows "grow g g' \<and> (\<not> c \<longrightarrow> vrefs v \<subseteq> M g')"
proof (cases v)
  case (GRef x)
  show ?thesis
  proof (cases "g_objs g x")
    case None
    thus ?thesis
      using assms GRef grow_refl by (auto simp: iscleared_def M_def)
  next
    case (Some ob)
    show ?thesis
    proof (cases ob)
      case (OString s)
      thus ?thesis
        using assms GRef Some stringmark_grow [of g x] by (auto simp: iscleared_def leaf_def)
    qed (use assms GRef Some grow_refl in \<open>auto simp: iscleared_def M_def\<close>)
  qed
qed (use assms grow_refl in \<open>auto simp: iscleared_def\<close>)

lemma clear_array_grow:
  assumes "clear_array vs g = (vs', g')"
  shows "grow g g' \<and> list_all2 (\<lambda>v w. w = v \<or> w = GNil) vs vs' \<and> \<Union> (vrefs ` set vs') \<subseteq> M g'"
  using assms
proof (induction vs arbitrary: g vs' g')
  case Nil
  thus ?case
    by (simp add: grow_refl)
next
  case (Cons v vs)
  obtain ws g1 where 1: "clear_array vs g = (ws, g1)"
    by (cases "clear_array vs g")
  obtain c g2 where 2: "iscleared v False g1 = (c, g2)"
    by (cases "iscleared v False g1")
  note a = Cons.IH [OF 1] and b = iscleared_grow [OF 2]
  have ab: "grow g g2 \<and> \<Union> (vrefs ` set ws) \<subseteq> M g2"
    by (rule grow_keep [of g g1]) (use a b in simp_all)
  have "vs' = (if c then GNil else v) # ws" "g' = g2"
    using Cons.prems by (simp_all add: 1 2)
  thus ?case
    using a b ab by (cases c) simp_all
qed

lemma clear_entry_grow:
  assumes "clear_entry n g = (n', g')"
  shows "grow g g' \<and> node_shrink n n' \<and> node_refs False False n' \<subseteq> M g'"
proof (cases "snd n = GNil")
  case True
  thus ?thesis
    using assms grow_refl by (auto simp: clear_entry_def node_refs_def node_shrink_def)
next
  case False
  obtain ck g1 where 1: "iscleared (fst n) True g = (ck, g1)"
    by (cases "iscleared (fst n) True g")
  obtain cv g2 where 2: "iscleared (snd n) False g1 = (cv, g2)"
    by (cases "iscleared (snd n) False g1")
  note a = iscleared_grow [OF 1] and b = iscleared_grow [OF 2]
  have "grow g g2 \<and> (if ck then {} else vrefs (fst n)) \<subseteq> M g2"
    by (rule grow_keep [of g g1]) (use a b in simp_all)
  hence ab: "grow g g2" "\<not> ck \<Longrightarrow> vrefs (fst n) \<subseteq> M g2"
    by simp_all
  show ?thesis
    using assms False a b ab by (auto simp: clear_entry_def 1 2 node_refs_def removeentry_def node_shrink_def
        split: if_splits gcval.splits)
qed

lemma clear_nodes_grow:
  assumes "clear_nodes ns g = (ns', g')"
  shows "grow g g' \<and> list_all2 node_shrink ns ns' \<and> \<Union> (node_refs False False ` set ns') \<subseteq> M g'"
  using assms
proof (induction ns arbitrary: g ns' g')
  case Nil
  thus ?case
    by (simp add: grow_refl)
next
  case (Cons n ns)
  obtain ms g1 where 1: "clear_nodes ns g = (ms, g1)"
    by (cases "clear_nodes ns g")
  obtain n2 g2 where 2: "clear_entry n g1 = (n2, g2)"
    by (cases "clear_entry n g1")
  note a = Cons.IH [OF 1] and b = clear_entry_grow [OF 2]
  have ab: "grow g g2 \<and> \<Union> (node_refs False False ` set ms) \<subseteq> M g2"
    by (rule grow_keep [of g g1]) (use a b in simp_all)
  have "ns' = n2 # ms" "g' = g2"
    using Cons.prems by (simp_all add: 1 2)
  thus ?case
    using a b ab by simp
qed

lemma clear_one_advance:
  assumes h: "h \<in> M g" "h \<in> set (g_weak g)" and k: "kept_refs g h \<subseteq> M g"
  shows "advance h g (clear_one h g) \<and> refs (clear_one h g) h \<subseteq> M (clear_one h g)"
proof (cases "\<exists>tb. g_objs g h = Some (OTable tb)")
  case False
  hence "clear_one h g = g" "kept_refs g h = refs g h"
    by (auto simp: clear_one_def kept_refs_def split: option.splits gcobj.splits)
  thus ?thesis
    using k advance_refl by simp
next
  case True
  then obtain tb where tb: "g_objs g h = Some (OTable tb)" by blast
  let ?b = "testbit (g_marked g h) VALUEWEAKBIT"
  obtain arr g1 where 1: "(if ?b then clear_array (tb_array tb) g else (tb_array tb, g)) = (arr, g1)"
    by (cases "if ?b then clear_array (tb_array tb) g else (tb_array tb, g)")
  obtain nodes g2 where 2: "clear_nodes (tb_node tb) g1 = (nodes, g2)"
    by (cases "clear_nodes (tb_node tb) g1")
  have strong: "set_option (tb_metatable tb) \<subseteq> M g" "\<not> ?b \<Longrightarrow> \<Union> (vrefs ` set (tb_array tb)) \<subseteq> M g"
    using k h(2) by (auto simp: kept_refs_def tb trefs_def gc_bits split: if_splits)
  have a: "grow g g1 \<and> list_all2 (\<lambda>v w. w = v \<or> w = GNil) (tb_array tb) arr \<and> \<Union> (vrefs ` set arr) \<subseteq> M g1"
    using 1 clear_array_grow [of "tb_array tb" g arr g1] strong(2) grow_refl
    by (cases ?b) (auto simp: list.rel_refl)
  note b = clear_nodes_grow [OF 2]
  have arr: "grow g g2 \<and> \<Union> (vrefs ` set arr) \<subseteq> M g2"
    by (rule grow_keep [of g g1]) (use a b in simp_all)
  hence g02: "grow g g2"
    by blast
  have tb2: "g_objs g2 h = Some (OTable tb)"
    using grow_exD(8) [OF g02] tb by simp
  let ?tb = "tb\<lparr>tb_array := arr, tb_node := nodes\<rparr>"
  have e: "clear_one h g = set_obj h (OTable ?tb) g2"
    by (simp add: clear_one_def tb Let_def 1 2)
  have sh: "obj_shrink (OTable tb) (OTable ?tb)"
    using a b by (simp add: obj_shrink_def)
  have "set_option (tb_metatable tb) \<union> \<Union> (vrefs ` set arr) \<union> \<Union> (node_refs False False ` set nodes) \<subseteq> M g2"
    using strong(1) arr b grow_exD(3) [OF g02] by blast
  hence "refs (set_obj h (OTable ?tb) g2) h \<subseteq> M g2"
    by (simp add: refs_def orefs_def trefs_alt)
  thus ?thesis
    unfolding e using advance_trans [OF grow_advance [OF g02] advance_set_obj [OF tb2 sh]] by simp
qed

lemma iscleared_gray: "g_gray (snd (iscleared v k g)) = g_gray g"
  by (simp add: iscleared_def stringmark_def split: gcval.split option.split gcobj.split)

lemma clear_array_gray: "g_gray (snd (clear_array vs g)) = g_gray g"
proof (induction vs)
  case (Cons v vs)
  thus ?case
    using iscleared_gray [of v False "snd (clear_array vs g)"] by (simp add: case_prod_unfold Let_def)
qed simp

lemma clear_entry_gray: "g_gray (snd (clear_entry n g)) = g_gray g"
  by (simp add: clear_entry_def iscleared_gray case_prod_unfold Let_def)

lemma clear_nodes_gray: "g_gray (snd (clear_nodes ns g)) = g_gray g"
  by (induction ns) (simp_all add: clear_entry_gray case_prod_unfold Let_def)

lemma clear_one_gray: "g_gray (clear_one h g) = g_gray g"
  by (simp add: clear_one_def clear_array_gray clear_nodes_gray case_prod_unfold Let_def
      split: option.split gcobj.split)

lemma clear_one_step:
  assumes t: "traced {} g" "g_gray g = []" "later_ok g" and h: "h \<in> set (g_weak g)"
  shows "traced {} (clear_one h g) \<and> g_gray (clear_one h g) = [] \<and> later_ok (clear_one h g) \<and>
    set (g_weak (clear_one h g)) = set (g_weak g) \<and> progress g (clear_one h g) \<and>
    refs (clear_one h g) h \<subseteq> M (clear_one h g)"
proof -
  have hm: "h \<in> M g" "grayable g h"
    using t(3) h by (simp_all add: later_ok_def)
  have "kept_refs g h \<subseteq> M g"
    using t(1,2) hm(1) by (simp add: traced_def)
  note c = clear_one_advance [OF hm(1) h this]
  hence a: "advance h g (clear_one h g)" by blast
  have "traced (insert h {}) g"
    using t(1) by (auto simp: traced_def)
  hence "traced {} (clear_one h g)"
    using traced_advance [OF a] c kept_refs_sub by blast
  moreover have "set (g_weak (clear_one h g)) = set (g_weak g)"
    using advanceD(9) [OF a] h by auto
  ultimately show ?thesis
    using c clear_one_gray t(2) later_ok_advance [OF a t(3) hm] advance_progress [OF a hm(2)] by simp
qed

lemma cleartable_run:
  assumes "traced {} g" "g_gray g = []" "later_ok g" "set hs \<subseteq> set (g_weak g)"
  shows "traced {} (cleartable hs g) \<and> g_gray (cleartable hs g) = [] \<and>
    set (g_weak (cleartable hs g)) = set (g_weak g) \<and> progress g (cleartable hs g) \<and>
    (\<forall>h \<in> set hs. refs (cleartable hs g) h \<subseteq> M (cleartable hs g))"
  using assms
proof (induction hs arbitrary: g)
  case Nil
  thus ?case
    by (simp add: cleartable_def progress_refl)
next
  case (Cons h hs)
  have e: "cleartable (h # hs) g = cleartable hs (clear_one h g)"
    by (simp add: cleartable_def)
  note s = clear_one_step [OF Cons.prems(1-3), of h]
  have I: "traced {} (cleartable hs (clear_one h g)) \<and> g_gray (cleartable hs (clear_one h g)) = [] \<and>
    set (g_weak (cleartable hs (clear_one h g))) = set (g_weak (clear_one h g)) \<and>
    progress (clear_one h g) (cleartable hs (clear_one h g)) \<and>
    (\<forall>k \<in> set hs. refs (cleartable hs (clear_one h g)) k \<subseteq> M (cleartable hs (clear_one h g)))"
    by (rule Cons.IH) (use s Cons.prems(4) in simp_all)
  have "refs (cleartable hs (clear_one h g)) h \<subseteq> M (cleartable hs (clear_one h g))"
    using s I progressD(3) [of "clear_one h g"] refs_shrink [OF progressD(2), of "clear_one h g" _ h] Cons.prems(4)
    by (meson list.set_intros(1) subset_iff)
  thus ?case
    unfolding e using s I Cons.prems(4) progress_trans by auto
qed

section \<open>The whole atomic phase\<close>

definition roots :: "gcref \<Rightarrow> gcstate \<Rightarrow> gcref set" where
  "roots L g = {L, g_mainthread g} \<union> vrefs (g_registry g) \<union> \<Union> (set_option ` set (g_mt g)) \<union> set (g_tmudata g)"

text \<open>The invariant of the propagation phase.\<close>

definition phase_inv :: "gcstate \<Rightarrow> bool" where
  "phase_inv g \<longleftrightarrow>
     mark_inv (set (g_grayagain g) \<union> set (g_weak g) \<union> set (g_tmudata g) \<union> set (g_uvhead g)) (set (g_tmudata g)) g \<and>
     uv_ok g \<and>
     (\<forall>u \<in> set (g_tmudata g) \<union> set (root_after (Some (g_mainthread g)) g). is_udata g u) \<and>
     white_byte (g_currentwhite g) \<and> insert (g_mainthread g) (vrefs (g_registry g)) \<subseteq> M g"

definition marked_closed :: "gcstate \<Rightarrow> bool" where
  "marked_closed g \<longleftrightarrow> (\<forall>x \<in> M g. refs g x \<subseteq> M g)"

lemma is_udata_shrink: "shrinks g g' \<Longrightarrow> is_udata g x \<Longrightarrow> is_udata g' x"
  using shrinksD by (fastforce simp: is_udata_def obj_shrink_def split: gcobj.splits)

lemma root_split:
  assumes "x \<in> set (g_rootgc g)"
  shows "g_rootgc g = takeWhile (\<lambda>y. y \<noteq> x) (g_rootgc g) @ x # root_after (Some x) g"
proof -
  have "x \<in> set xs \<Longrightarrow> dropWhile (\<lambda>y. y \<noteq> x) xs = x # tl (dropWhile (\<lambda>y. y \<noteq> x) xs)" for xs
    by (induction xs) auto
  hence "dropWhile (\<lambda>y. y \<noteq> x) (g_rootgc g) = x # root_after (Some x) g"
    using assms by (simp add: root_after_def)
  thus ?thesis
    by (metis takeWhile_dropWhile_id)
qed

lemma separate_frame:
  assumes "luaC_separateudata sz False g = (d, g')" "mark_inv X (set (g_tmudata g)) g"
    "\<forall>u \<in> set (root_after (Some (g_mainthread g)) g). is_udata g u" "\<forall>u \<in> set (g_tmudata g). is_udata g u"
  shows "mark_inv X (set (g_tmudata g')) g' \<and> M g' = M g \<and> g_objs g' = g_objs g \<and> g_gray g' = g_gray g \<and>
    g_weak g' = g_weak g \<and> set (g_tmudata g) \<subseteq> set (g_tmudata g') \<and> (\<forall>u \<in> set (g_tmudata g'). is_udata g' u) \<and>
    (\<exists>m r t. g' = g\<lparr>g_marked := m, g_rootgc := r, g_tmudata := t\<rparr> \<and>
      (\<forall>x b. b \<noteq> 3 \<longrightarrow> bit (m x) b = bit (g_marked g x) b) \<and>
      g_mainthread g \<in> set r \<and>
      (g_mainthread g \<in> set (g_rootgc g) \<longrightarrow> mset r + mset t = mset (g_rootgc g) + mset (g_tmudata g)))"
proof -
  obtain kept moved m h where s: "separate_loop sz False (root_after (Some (g_mainthread g)) g) g = (kept, moved, m, h)"
    by (cases "separate_loop sz False (root_after (Some (g_mainthread g)) g) g") auto
  note l = separate_loop_frame [OF s assms(3)]
  let ?r = "takeWhile (\<lambda>y. y \<noteq> g_mainthread g) (g_rootgc g) @ g_mainthread g # kept"
  let ?t = "g_tmudata g @ moved"
  have g': "g' = h\<lparr>g_rootgc := ?r, g_tmudata := ?t\<rparr>"
    using assms(1) by (simp add: luaC_separateudata_def s)
  note f = fin_frame_mark_inv [OF conjunct1 [OF l] g' assms(2)]
  obtain mk where h: "h = g\<lparr>g_marked := mk\<rparr>" and mk: "\<forall>x b. b \<noteq> 3 \<longrightarrow> bit (mk x) b = bit (g_marked g x) b"
    using conjunct1 [OF l] unfolding fin_frame_def by blast
  have t: "g_tmudata g' = ?t"
    by (simp add: g')
  have "coloured (set (g_tmudata g')) g'"
    using f(1) by (auto simp: mark_inv_def coloured_def t)
  hence "mark_inv X (set (g_tmudata g')) g'"
    using f(1) by (simp add: mark_inv_def)
  moreover have "set_mset (mset kept + mset moved) = set (root_after (Some (g_mainthread g)) g)"
    using l by simp
  hence "set (g_tmudata g') \<subseteq> set (g_tmudata g) \<union> set (root_after (Some (g_mainthread g)) g)"
    by (auto simp: t)
  hence "\<forall>u \<in> set (g_tmudata g'). is_udata g' u"
    using assms(3,4) unfolding is_udata_def f(3) by blast
  moreover have "g_gray g' = g_gray g" "g_weak g' = g_weak g"
    by (simp_all add: g' h)
  moreover have ms: "mset ?r + mset ?t = mset (g_rootgc g) + mset (g_tmudata g)" if "g_mainthread g \<in> set (g_rootgc g)"
  proof -
    have "g_rootgc g = takeWhile (\<lambda>y. y \<noteq> g_mainthread g) (g_rootgc g) @ g_mainthread g # root_after (Some (g_mainthread g)) g"
      using that by (rule root_split)
    from arg_cong [OF this, of mset] show ?thesis
      using l by (simp add: ac_simps)
  qed
  moreover have "\<exists>m r t. g' = g\<lparr>g_marked := m, g_rootgc := r, g_tmudata := t\<rparr> \<and>
      (\<forall>x b. b \<noteq> 3 \<longrightarrow> bit (m x) b = bit (g_marked g x) b) \<and>
      g_mainthread g \<in> set r \<and>
      (g_mainthread g \<in> set (g_rootgc g) \<longrightarrow> mset r + mset t = mset (g_rootgc g) + mset (g_tmudata g))"
  proof (intro exI conjI)
    show "g' = g\<lparr>g_marked := mk, g_rootgc := ?r, g_tmudata := ?t\<rparr>"
      by (simp add: g' h)
    show "\<forall>x b. b \<noteq> 3 \<longrightarrow> bit (mk x) b = bit (g_marked g x) b"
      by (fact mk)
    show "g_mainthread g \<in> set ?r"
      by simp
    show "g_mainthread g \<in> set (g_rootgc g) \<longrightarrow> mset ?r + mset ?t = mset (g_rootgc g) + mset (g_tmudata g)"
      using ms by blast
  qed
  moreover have "set (g_tmudata g) \<subseteq> set (g_tmudata g')"
    by (simp add: t)
  ultimately show ?thesis
    using f(2,3) by blast
qed

end
