(* ===== verification/Lua_Gcphase.thy ===== *)
theory Lua_Gcphase
  imports Lua_Gcatomic
begin

text \<open>
  \<open>atomic\<close> as a whole: it ends, and what it leaves behind. \<open>mark_frame\<close> says what marking has not
  changed.
\<close>

unbundle bit_operations_syntax

definition mark_frame :: "gcstate \<Rightarrow> gcstate \<Rightarrow> bool" where
  "mark_frame g g' \<longleftrightarrow>
     g_strt g' = g_strt g \<and> g_nuse g' = g_nuse g \<and> g_registry g' = g_registry g \<and>
     g_mainthread g' = g_mainthread g \<and> g_uvhead g' = g_uvhead g \<and> g_mt g' = g_mt g \<and>
     g_totalbytes g' = g_totalbytes g \<and> shrinks g g' \<and> M g \<subseteq> M g' \<and>
     (\<forall>y b. 5 \<le> b \<longrightarrow> bit (g_marked g' y) b = bit (g_marked g y) b) \<and>
     (\<forall>y. is_openuv g y \<longrightarrow> isblack g' y \<longrightarrow> isblack g y) \<and> white_same g g' \<and>
     set (g_tmudata g) \<subseteq> set (g_tmudata g') \<and>
     (g_mainthread g \<in> set (g_rootgc g) \<longrightarrow>
       g_mainthread g \<in> set (g_rootgc g') \<and>
       mset (g_rootgc g') + mset (g_tmudata g') = mset (g_rootgc g) + mset (g_tmudata g))"

lemma mark_frame_trans:
  assumes a: "mark_frame g1 g2" and b: "mark_frame g2 g3"
  shows "mark_frame g1 g3"
proof -
  have "is_openuv g1 y \<Longrightarrow> isblack g3 y \<Longrightarrow> isblack g1 y" for y
    using a b kind_shrink(3) [of g1 g2 y] unfolding mark_frame_def by blast
  moreover have "shrinks g1 g3"
    using a b shrinks_trans [of g1 g2 g3] by (simp add: mark_frame_def)
  moreover have "white_same g1 g3"
    using a b white_same_trans [of g1 g2 g3] by (simp add: mark_frame_def)
  ultimately show ?thesis
    using a b unfolding mark_frame_def by auto
qed

lemma progress_mark_frame:
  assumes "progress g g'"
  shows "mark_frame g g'" "g_rootgc g' = g_rootgc g" "g_tmudata g' = g_tmudata g" "g_currentwhite g' = g_currentwhite g"
    "g_mainthread g' = g_mainthread g"
proof -
  note d = progressD [OF assms] and f = same_frame_fields [OF progressD(1) [OF assms]]
  show "g_rootgc g' = g_rootgc g" "g_tmudata g' = g_tmudata g" "g_currentwhite g' = g_currentwhite g"
    "g_mainthread g' = g_mainthread g"
    using f by blast+
  show "mark_frame g g'"
    unfolding mark_frame_def using d(2,3,5,8) d(4) f by simp
qed

text \<open>Another list becomes the gray one.\<close>

lemma gray_swap_frame:
  assumes "g' = g\<lparr>g_gray := a, g_weak := w, g_grayagain := b\<rparr>"
  shows "mark_frame g g'"
proof -
  have "M g' = M g"
    by (simp add: assms M_def iswhite_def)
  thus ?thesis
    unfolding mark_frame_def by (simp add: assms shrinks_refl isblack_def white_same_refl)
qed

lemma propagateall_steps:
  assumes "mark_inv X Y g"
  obtains c g' where "propagateall sz m g = Some (c, g')" "g_gray g' = []" "mark_inv X Y g'" "progress g g'"
  using propagateall_run [OF assms] by blast

text \<open>Up to the separation of the userdata.\<close>

lemma atomic_first:
  assumes p: "phase_inv g"
  obtains c1 g1 c2 g2 c3 g3 where
    "propagateall sz 0 (remarkupvals g) = Some (c1, g1)"
    "propagateall sz 0 (markmt (markobject L (g1\<lparr>g_gray := g_weak g1, g_weak := []\<rparr>))) = Some (c2, g2)"
    "propagateall sz 0 (g2\<lparr>g_gray := g_grayagain g2, g_grayagain := []\<rparr>) = Some (c3, g3)"
    "g_gray g3 = []" "mark_inv (set (g_tmudata g)) (set (g_tmudata g)) g3" "mark_frame g g3"
    "insert L (\<Union> (set_option ` set (g_mt g))) \<subseteq> M g3"
    "g_rootgc g3 = g_rootgc g" "g_tmudata g3 = g_tmudata g" "g_currentwhite g3 = g_currentwhite g"
proof -
  let ?T = "set (g_tmudata g)"
  have i: "mark_inv ((set (g_grayagain g) \<union> set (g_weak g) \<union> ?T) \<union> set (g_uvhead g)) ?T g" and u: "uv_ok g"
    using p by (simp_all add: phase_inv_def)
  have wt: "wt g"
    using i by (simp add: mark_inv_def)
  note i0 = traced_remark [OF i u]
  note p0 = grow_progress [OF remarkupvals_grow(1) [OF wt u]]
  obtain c1 g1 where 1: "propagateall sz 0 (remarkupvals g) = Some (c1, g1)" "g_gray g1 = []"
      "mark_inv (set (g_grayagain g) \<union> set (g_weak g) \<union> ?T) ?T g1" "progress (remarkupvals g) g1"
    using propagateall_steps [OF i0] by blast
  note p1 = progress_trans [OF p0 1(4)]
  let ?g1 = "g1\<lparr>g_gray := g_weak g1, g_weak := []\<rparr>"
  have i1: "mark_inv (set (g_grayagain g) \<union> ?T) ?T ?g1"
    by (rule gray_from_weak [OF 1(3,2)]) (use progressD(6) [OF p1] in blast)
  let ?h = "markobject L ?g1"
  have w1: "wt ?g1"
    using i1 by (simp add: mark_inv_def)
  have gl: "grow ?g1 ?h \<and> {L} \<subseteq> M ?h"
    using markobject_grow [OF w1] by simp
  have gm: "grow ?g1 (markmt ?h) \<and> {L} \<union> \<Union> (set_option ` set (g_mt ?h)) \<subseteq> M (markmt ?h)"
    by (rule grow_both [OF gl markmt_grow]) (use gl grow_wt w1 in blast)
  hence gm1: "grow ?g1 (markmt ?h)"
    by blast
  obtain c2 g2 where 2: "propagateall sz 0 (markmt ?h) = Some (c2, g2)" "g_gray g2 = []"
      "mark_inv (set (g_grayagain g) \<union> ?T) ?T g2" "progress (markmt ?h) g2"
    using propagateall_steps [OF mark_inv_grow [OF i1 gm1]] by blast
  note p2 = progress_trans [OF grow_progress [OF gm1] 2(4)]
  let ?g2 = "g2\<lparr>g_gray := g_grayagain g2, g_grayagain := []\<rparr>"
  have "set (g_grayagain g) \<subseteq> set (g_grayagain g2)"
    using progressD(7) [OF p1] progressD(7) [OF p2] by auto
  hence i2: "mark_inv ?T ?T ?g2"
    by (intro gray_from_grayagain [OF 2(3,2)]) blast
  obtain c3 g3 where 3: "propagateall sz 0 ?g2 = Some (c3, g3)" "g_gray g3 = []"
      "mark_inv ?T ?T g3" "progress ?g2 g3"
    using propagateall_steps [OF i2] by blast
  have s1: "mark_frame g1 ?g1"
    by (rule gray_swap_frame [where b = "g_grayagain g1"]) simp
  have s2: "mark_frame g2 ?g2"
    by (rule gray_swap_frame [where w = "g_weak g2"]) simp
  note f1 = progress_mark_frame [OF p1] and f2 = progress_mark_frame [OF p2] and f3 = progress_mark_frame [OF 3(4)]
  have a: "mark_frame g ?g1"
    by (rule mark_frame_trans [OF f1(1) s1])
  have b: "mark_frame g g2"
    by (rule mark_frame_trans [OF a f2(1)])
  have c: "mark_frame g ?g2"
    by (rule mark_frame_trans [OF b s2])
  have d: "mark_frame g g3"
    by (rule mark_frame_trans [OF c f3(1)])
  have "g_mt ?h = g_mt g"
    using same_rest_fields(15) [OF grow_exD(1) [of "{}" ?g1 ?h]] gl p1 [THEN progress_mark_frame(1)]
    by (simp add: mark_frame_def)
  hence "insert L (\<Union> (set_option ` set (g_mt g))) \<subseteq> M (markmt ?h)"
    using gm by simp
  also have "\<dots> \<subseteq> M g2"
    by (rule progressD(3) [OF 2(4)])
  also have "\<dots> \<subseteq> M ?g2"
    using s2 by (simp add: mark_frame_def)
  also have "\<dots> \<subseteq> M g3"
    by (rule progressD(3) [OF 3(4)])
  finally have L: "insert L (\<Union> (set_option ` set (g_mt g))) \<subseteq> M g3" .
  show ?thesis
    by (rule that [OF 1(1) 2(1) 3(1) 3(2) 3(3) d L]) (simp_all add: f1 f2 f3)
qed

text \<open>The rest of it, from the separation of the userdata on.\<close>

lemma separate_mark_frame:
  assumes "\<exists>m r t. g' = g\<lparr>g_marked := m, g_rootgc := r, g_tmudata := t\<rparr> \<and>
      (\<forall>x b. b \<noteq> 3 \<longrightarrow> bit (m x) b = bit (g_marked g x) b) \<and>
      g_mainthread g \<in> set r \<and>
      (g_mainthread g \<in> set (g_rootgc g) \<longrightarrow> mset r + mset t = mset (g_rootgc g) + mset (g_tmudata g))"
    "set (g_tmudata g) \<subseteq> set (g_tmudata g')"
  shows "mark_frame g g' \<and> g_currentwhite g' = g_currentwhite g"
proof -
  obtain m r t where g': "g' = g\<lparr>g_marked := m, g_rootgc := r, g_tmudata := t\<rparr>"
    and b: "\<And>x b. b \<noteq> 3 \<Longrightarrow> bit (m x) b = bit (g_marked g x) b"
    and mr: "g_mainthread g \<in> set r"
    and ms: "g_mainthread g \<in> set (g_rootgc g) \<longrightarrow> mset r + mset t = mset (g_rootgc g) + mset (g_tmudata g)"
    using assms(1) by blast
  have "M g' = M g"
    by (auto simp: g' M_def iswhite_def gc_bits b)
  thus ?thesis
    unfolding mark_frame_def using ms mr assms(2)
    by (simp add: g' shrinks_refl isblack_def gc_bits b white_same_def)
qed

lemma atomic_second:
  assumes i: "mark_inv (set (g_tmudata g)) (set (g_tmudata g)) g" and e: "g_gray g = []"
    and ud: "\<forall>u \<in> set (g_tmudata g) \<union> set (root_after (Some (g_mainthread g)) g). is_udata g u"
    and w: "white_byte (g_currentwhite g)"
  obtains d g1 c g2 g3 where
    "luaC_separateudata sz False g = (d, g1)"
    "propagateall sz 0 (marktmu g1) = Some (c, g2)"
    "g3 = cleartable (g_weak g2) g2"
    "marked_closed g3" "g_gray g3 = []" "set (g_tmudata g3) \<subseteq> M g3" "mark_frame g g3" "wt g3"
    "finite (dom (g_objs g3))" "g_currentwhite g3 = g_currentwhite g" "\<forall>u \<in> set (g_tmudata g3). is_udata g3 u"
proof -
  obtain d g1 where 1: "luaC_separateudata sz False g = (d, g1)"
    by (cases "luaC_separateudata sz False g")
  have ud1: "\<forall>u \<in> set (root_after (Some (g_mainthread g)) g). is_udata g u" "\<forall>u \<in> set (g_tmudata g). is_udata g u"
    using ud by blast+
  note s = separate_frame [OF 1 i ud1]
  have f1: "mark_frame g g1 \<and> g_currentwhite g1 = g_currentwhite g"
    by (rule separate_mark_frame) (use s in blast)+
  let ?T = "set (g_tmudata g1)"
  have i1: "mark_inv ({} \<union> ?T) ({} \<union> ?T) g1"
  proof -
    have "mark_inv (set (g_tmudata g)) ?T g1" "set (g_tmudata g) \<subseteq> ?T"
      using s by blast+
    thus ?thesis
      unfolding mark_inv_def traced_def by (simp only: Un_empty_left) blast
  qed
  let ?h = "marktmu g1"
  have m: "mark_inv {} {} ?h \<and> progress g1 ?h \<and> ?T \<subseteq> M ?h"
    unfolding marktmu_def using marktmu_run [OF i1] s f1 w by simp
  hence i2: "mark_inv {} {} ?h" and p1: "progress g1 ?h" and t1: "?T \<subseteq> M ?h"
    by blast+
  obtain c g2 where 2: "propagateall sz 0 ?h = Some (c, g2)" "g_gray g2 = []" "mark_inv {} {} g2" "progress ?h g2"
    using propagateall_steps [OF i2] by blast
  let ?g3 = "cleartable (g_weak g2) g2"
  have tr: "traced {} g2" "later_ok g2"
    using 2(3) by (simp_all add: mark_inv_def)
  note c = cleartable_run [OF tr(1) 2(2) tr(2) subset_refl]
  have p3: "progress g2 ?g3"
    using c by blast
  note p = progress_trans [OF progress_trans [OF p1 2(4)] p3]
  note pf = progress_mark_frame [OF p]
  have closed: "marked_closed ?g3"
    unfolding marked_closed_def
  proof
    fix x
    assume x: "x \<in> M ?g3"
    show "refs ?g3 x \<subseteq> M ?g3"
    proof (cases "x \<in> set (g_weak g2)")
      case True
      thus ?thesis
        using c by blast
    next
      case False
      hence "kept_refs ?g3 x = refs ?g3 x"
        using c by (auto simp: kept_refs_def)
      moreover have "kept_refs ?g3 x \<subseteq> M ?g3"
        using c bspec [OF conjunct1 [OF c, unfolded traced_def] x] by simp
      ultimately show ?thesis
        by simp
    qed
  qed
  have sh: "shrinks g2 ?g3"
    by (rule progressD(2) [OF p3])
  have "dom (g_objs ?g3) = dom (g_objs g2)"
    using shrinks_none [OF sh] by (auto simp: dom_def)
  hence fin: "finite (dom (g_objs ?g3))"
    using 2(3) by (simp add: mark_inv_def)
  have wt: "wt ?g3"
    by (rule wt_shrink [OF sh]) (use 2(3) in \<open>simp add: mark_inv_def\<close>)
  have frame: "mark_frame g ?g3"
    by (rule mark_frame_trans [OF conjunct1 [OF f1] pf(1)])
  have ud3: "\<forall>u \<in> set (g_tmudata ?g3). is_udata ?g3 u"
    using s is_udata_shrink [OF progressD(2) [OF p]] by (simp add: pf)
  have "?T \<subseteq> M ?g3"
    using t1 progressD(3) [OF 2(4)] progressD(3) [OF p3] by blast
  hence t3: "set (g_tmudata ?g3) \<subseteq> M ?g3"
    by (simp add: pf)
  show ?thesis
    by (rule that [OF 1 2(1) refl closed _ t3 frame wt fin _ ud3]) (use c f1 pf(4) in simp_all)
qed

text \<open>The flip of the current white.\<close>

definition flip_white :: "nat \<Rightarrow> gcstate \<Rightarrow> gcstate" where
  "flip_white udsize g =
     g\<lparr>g_currentwhite := otherwhite g, g_sweepstrgc := 0, g_sweepgc := None, g_gcstate := GCSsweepstring,
       g_estimate := g_totalbytes g - of_nat udsize\<rparr>"

lemma flip_white_same:
  "M (flip_white n g) = M g" "g_objs (flip_white n g) = g_objs g" "refs (flip_white n g) = refs g"
  "roots L (flip_white n g) = roots L g" "g_gray (flip_white n g) = g_gray g" "g_rootgc (flip_white n g) = g_rootgc g"
  "g_tmudata (flip_white n g) = g_tmudata g" "g_marked (flip_white n g) = g_marked g"
proof -
  show "M (flip_white n g) = M g" "g_objs (flip_white n g) = g_objs g"
    "roots L (flip_white n g) = roots L g" "g_gray (flip_white n g) = g_gray g" "g_rootgc (flip_white n g) = g_rootgc g"
    "g_tmudata (flip_white n g) = g_tmudata g" "g_marked (flip_white n g) = g_marked g"
    by (simp_all add: flip_white_def M_def iswhite_def roots_def)
  show "refs (flip_white n g) = refs g"
    using refs_cong [of "flip_white n g" g] by (auto simp: flip_white_def)
qed

text \<open>
  The atomic phase ends, and in the state it leaves everything marked refers to marked objects only,
  and the roots are marked.
\<close>

lemma atomic_ok:
  assumes p: "phase_inv g"
  obtains g' where "atomic sz L g = Some g'" "marked_closed g'" "roots L g' \<subseteq> M g'" "mark_frame g g'"
    "g_currentwhite g' = otherwhite g" "g_gcstate g' = GCSsweepstring" "g_sweepstrgc g' = 0" "g_sweepgc g' = None"
    "wt g'" "finite (dom (g_objs g'))" "\<forall>u \<in> set (g_tmudata g'). is_udata g' u"
proof -
  obtain c1 g1 c2 g2 c3 g3 where a:
    "propagateall sz 0 (remarkupvals g) = Some (c1, g1)"
    "propagateall sz 0 (markmt (markobject L (g1\<lparr>g_gray := g_weak g1, g_weak := []\<rparr>))) = Some (c2, g2)"
    "propagateall sz 0 (g2\<lparr>g_gray := g_grayagain g2, g_grayagain := []\<rparr>) = Some (c3, g3)"
    "g_gray g3 = []" "mark_inv (set (g_tmudata g)) (set (g_tmudata g)) g3" "mark_frame g g3"
    "insert L (\<Union> (set_option ` set (g_mt g))) \<subseteq> M g3"
    "g_rootgc g3 = g_rootgc g" "g_tmudata g3 = g_tmudata g" "g_currentwhite g3 = g_currentwhite g"
    by (rule atomic_first [OF p])
  have sh: "shrinks g g3" and mt: "g_mainthread g3 = g_mainthread g"
    using a(6) by (simp_all add: mark_frame_def)
  have i: "mark_inv (set (g_tmudata g3)) (set (g_tmudata g3)) g3"
    using a(5,9) by simp
  have ud: "\<forall>u \<in> set (g_tmudata g3) \<union> set (root_after (Some (g_mainthread g3)) g3). is_udata g3 u"
    using p is_udata_shrink [OF sh] unfolding phase_inv_def by (simp add: a(8,9) mt root_after_def)
  have w: "white_byte (g_currentwhite g3)"
    using p a(10) by (simp add: phase_inv_def)
  obtain d g4 c g5 g6 where b:
    "luaC_separateudata sz False g3 = (d, g4)" "propagateall sz 0 (marktmu g4) = Some (c, g5)"
    "g6 = cleartable (g_weak g5) g5"
    "marked_closed g6" "g_gray g6 = []" "set (g_tmudata g6) \<subseteq> M g6" "mark_frame g3 g6" "wt g6"
    "finite (dom (g_objs g6))" "g_currentwhite g6 = g_currentwhite g3" "\<forall>u \<in> set (g_tmudata g6). is_udata g6 u"
    by (rule atomic_second [OF i a(4) ud w, of sz])
  have f: "mark_frame g g6"
    by (rule mark_frame_trans [OF a(6) b(7)])
  let ?g = "flip_white (d + c) g6"
  have e: "atomic sz L g = Some ?g"
    by (simp add: atomic_def a(1-3) b(1,2) Let_def flip_white_def b(3) [symmetric] add.commute)
  have rf: "g_registry g6 = g_registry g" "g_mainthread g6 = g_mainthread g" "g_mt g6 = g_mt g"
    using f by (simp_all add: mark_frame_def)
  have "M g \<subseteq> M g6" "M g3 \<subseteq> M g6"
    using f b(7) by (simp_all add: mark_frame_def)
  moreover have "insert (g_mainthread g) (vrefs (g_registry g)) \<subseteq> M g"
    using p by (simp add: phase_inv_def)
  ultimately have "insert (g_mainthread g) (vrefs (g_registry g)) \<subseteq> M g6" "insert L (\<Union> (set_option ` set (g_mt g))) \<subseteq> M g6"
    using a(7) by blast+
  hence roots: "roots L g6 \<subseteq> M g6"
    using b(6) unfolding roots_def rf by blast
  have f': "mark_frame g ?g"
  proof (rule mark_frame_trans [OF f])
    have "isblack ?g = isblack g6"
      by (simp add: isblack_def flip_white_same fun_eq_iff)
    thus "mark_frame g6 ?g"
      unfolding mark_frame_def using shrinks_refl [of ?g g6] white_same_refl [of ?g g6]
      by (simp add: flip_white_same) (simp add: flip_white_def)
  qed
  show ?thesis
  proof (rule that [OF e])
    show "marked_closed ?g"
      using b(4) by (simp add: marked_closed_def flip_white_same)
    show "roots L ?g \<subseteq> M ?g"
      using roots by (simp add: flip_white_same)
    show "mark_frame g ?g"
      by (fact f')
    show "g_currentwhite ?g = otherwhite g"
      by (simp add: flip_white_def otherwhite_def b(10) a(10))
    show "wt ?g"
      using b(8) wt_cong [of ?g g6] by (simp add: flip_white_same)
    show "finite (dom (g_objs ?g))"
      using b(9) by (simp add: flip_white_same)
    show "\<forall>u \<in> set (g_tmudata ?g). is_udata ?g u"
      using b(11) by (simp add: flip_white_same is_udata_def)
  qed (simp_all add: flip_white_def)
qed

end
