(* ===== verification/Lua_Gccycle.thy ===== *)
theory Lua_Gccycle
  imports Lua_Gcphase
begin

text \<open>
  The marking half of a collection: \<open>markroot\<close> starts it from a state in which everything is white,
  \<open>propagatemark\<close> keeps its invariant, \<open>atomic\<close> ends it with every reachable object marked.
\<close>

unbundle bit_operations_syntax

section \<open>The start\<close>

text \<open>No marks but those of userdata left over from the last collection, still waiting for their finalizers.\<close>

definition fresh_cycle :: "gcstate \<Rightarrow> bool" where
  "fresh_cycle g \<longleftrightarrow>
     wt g \<and> finite (dom (g_objs g)) \<and> uv_ok g \<and> white_byte (g_currentwhite g) \<and>
     (\<forall>x. g_objs g x \<noteq> None \<longrightarrow> x \<in> M g \<longrightarrow> x \<in> set (g_tmudata g)) \<and>
     (\<forall>x. is_table g x \<longrightarrow> \<not> isblack g x) \<and>
     (\<forall>u \<in> set (g_tmudata g) \<union> set (root_after (Some (g_mainthread g)) g). is_udata g u)"

lemma fresh_mark_inv:
  assumes f: "fresh_cycle g" and g0: "g0 = g\<lparr>g_gray := [], g_grayagain := [], g_weak := []\<rparr>"
  shows "mark_inv (set (g_tmudata g) \<union> U) (set (g_tmudata g)) g0"
proof -
  have o: "g_objs g0 = g_objs g" and m: "M g0 = M g"
    by (simp_all add: g0 M_def iswhite_def)
  note k = kind_cong [OF o]
  have un: "g_objs g x = None" if "x \<in> M g" "x \<notin> set (g_tmudata g)" for x
    using f that by (auto simp: fresh_cycle_def)
  have "traced (set (g_tmudata g) \<union> U) g0"
    unfolding traced_def m
  proof
    fix x
    assume "x \<in> M g"
    hence "x \<in> set (g_tmudata g) \<or> kept_refs g0 x = {}"
      using un by (auto simp: kept_refs_def refs_def o g0)
    thus "x \<in> set (g_gray g0) \<or> x \<in> set (g_tmudata g) \<union> U \<or> kept_refs g0 x \<subseteq> M g"
      by auto
  qed
  moreover have "coloured (set (g_tmudata g)) g0"
    unfolding coloured_def m
  proof
    fix x
    assume "x \<in> M g"
    hence "x \<in> set (g_tmudata g) \<or> leaf g0 x"
      using un [of x] by (cases "x \<in> set (g_tmudata g)") (simp_all add: leaf_def o)
    thus "x \<in> set (g_gray g0) \<or> x \<in> set (g_tmudata g) \<or> is_openuv g0 x \<or> settled g0 x"
      by (auto simp: settled_def)
  qed
  moreover have "keys_kept g0"
    unfolding keys_kept_def
  proof (intro allI impI)
    fix x
    assume "isblack g0 x"
    hence "\<not> is_table g0 x"
      using f k(5) by (auto simp: fresh_cycle_def isblack_def g0)
    thus "keys_marked g0 x"
      by (rule keys_marked_other)
  qed
  ultimately show ?thesis
    using f wt_cong [OF o] by (simp add: mark_inv_def fresh_cycle_def gray_ok_def later_ok_def o) (simp add: g0)
qed

lemma uv_ok_cong:
  assumes "g_objs g' = g_objs g" "g_marked g' = g_marked g" "g_uvhead g' = g_uvhead g"
  shows "uv_ok g' = uv_ok g"
  using kind_cong(3) [OF assms(1)] by (simp add: uv_ok_def isblack_def assms(2,3))

lemma markroot_grow:
  assumes f: "fresh_cycle g" and g0: "g0 = g\<lparr>g_gray := [], g_grayagain := [], g_weak := []\<rparr>"
  shows "\<exists>g1. markroot g = g1\<lparr>g_gcstate := GCSpropagate\<rparr> \<and> grow g0 g1 \<and> insert (g_mainthread g) (vrefs (g_registry g)) \<subseteq> M g1"
proof -
  have o: "g_objs g0 = g_objs g"
    by (simp add: g0)
  have wt: "wt g0"
    using f wt_cong [OF o] by (simp add: fresh_cycle_def)
  define a where "a = markobject (g_mainthread g) g0"
  define b where "b = markvalue (thread_gt a (g_mainthread g)) a"
  define c where "c = markvalue (g_registry g) b"
  have 1: "grow g0 a \<and> {g_mainthread g} \<subseteq> M a"
    unfolding a_def using markobject_grow [OF wt] by simp
  have wa: "wt a"
    using 1 grow_wt wt by blast
  have 2: "grow a b \<and> {} \<subseteq> M b"
    unfolding b_def using markvalue_grow [OF wa] by simp
  have wb: "wt b"
    using 2 grow_wt wa by blast
  have 3: "grow b c \<and> vrefs (g_registry g) \<subseteq> M c"
    unfolding c_def by (rule markvalue_grow [OF wb])
  have wc: "wt c"
    using 3 grow_wt wb by blast
  note 4 = markmt_grow [OF wc]
  have m: "g_mainthread a = g_mainthread g"
    using same_rest_fields(13) [OF grow_exD(1) [OF conjunct1 [OF 1]]] by (simp add: g0)
  have mb: "g_registry b = g_registry g"
    using same_rest_fields(12) [OF grow_exD(1) [OF conjunct1 [OF 1]]]
      same_rest_fields(12) [OF grow_exD(1) [OF conjunct1 [OF 2]]] by (simp add: g0)
  have "markroot g = (markmt c)\<lparr>g_gcstate := GCSpropagate\<rparr>"
    by (simp add: markroot_def Let_def a_def [unfolded g0, symmetric] m b_def [symmetric] mb c_def [symmetric])
  moreover have "grow g0 (markmt c) \<and> (({g_mainthread g} \<union> {}) \<union> vrefs (g_registry g)) \<union> \<Union> (set_option ` set (g_mt c)) \<subseteq> M (markmt c)"
    by (rule grow_both [OF grow_both [OF grow_both [OF 1 2] 3] 4])
  ultimately show ?thesis
    by auto
qed

text \<open>A change of the phase alone.\<close>

lemma phase_inv_cong:
  assumes "phase_inv g"
    "g' = g\<lparr>g_gcstate := s, g_sweepstrgc := n, g_sweepgc := p, g_estimate := e, g_threshold := t, g_gcdept := d,
            g_totalbytes := b, g_strt := st, g_nuse := nu\<rparr>"
  shows "phase_inv g'"
proof -
  have o: "g_objs g' = g_objs g" and m: "M g' = M g" and k: "g_marked g' = g_marked g"
    and l: "g_gray g' = g_gray g" "g_weak g' = g_weak g" "g_grayagain g' = g_grayagain g" "g_tmudata g' = g_tmudata g"
      "g_uvhead g' = g_uvhead g" "g_mainthread g' = g_mainthread g" "g_registry g' = g_registry g"
      "g_currentwhite g' = g_currentwhite g" "g_rootgc g' = g_rootgc g"
    by (simp_all add: assms(2) M_def iswhite_def)
  have kr: "kept_refs g' x = kept_refs g x" for x
    by (rule kept_refs_cong [OF o]) (simp_all add: l k)
  note kc = kind_cong [OF o]
  have "mark_inv X Y g' = mark_inv X Y g" for X Y
    by (simp add: mark_inv_def wt_cong [OF o] o gray_ok_def later_ok_def traced_def coloured_def keys_kept_def m l kr
        grayable_def kc settled_def isblack_def k keys_marked_cong [OF o m])
  moreover have "is_udata g' = is_udata g" "root_after (Some (g_mainthread g)) g' = root_after (Some (g_mainthread g)) g"
    by (auto simp: is_udata_def o root_after_def l)
  ultimately show ?thesis
    using assms(1) by (simp add: phase_inv_def l m uv_ok_cong [OF o k l(5)])
qed

lemma markroot_phase:
  assumes f: "fresh_cycle g"
  shows "phase_inv (markroot g)"
proof -
  let ?g0 = "g\<lparr>g_gray := [], g_grayagain := [], g_weak := []\<rparr>"
  obtain g1 where 1: "markroot g = g1\<lparr>g_gcstate := GCSpropagate\<rparr>" "grow ?g0 g1"
      "insert (g_mainthread g) (vrefs (g_registry g)) \<subseteq> M g1"
    using markroot_grow [OF f refl] by blast
  note sr = same_rest_fields [OF grow_exD(1) [OF 1(2)]]
  have "mark_inv (set (g_tmudata g) \<union> set (g_uvhead g)) (set (g_tmudata g)) g1"
    by (rule mark_inv_grow [OF fresh_mark_inv [OF f refl] 1(2)])
  moreover have "uv_ok g1"
  proof (rule uv_ok_progress [OF grow_progress [OF 1(2)]])
    show "uv_ok ?g0"
      using f uv_ok_cong [of ?g0 g] by (simp add: fresh_cycle_def)
  qed
  moreover have "\<forall>u \<in> set (g_tmudata g) \<union> set (root_after (Some (g_mainthread g)) g). is_udata g1 u"
    using f unfolding fresh_cycle_def is_udata_def sr(1) by simp
  moreover have "root_after (Some (g_mainthread g)) g1 = root_after (Some (g_mainthread g)) g"
    by (simp add: root_after_def sr)
  ultimately have "phase_inv g1"
    using f 1(3) by (simp add: phase_inv_def fresh_cycle_def sr Un_ac)
  moreover have "markroot g = g1\<lparr>g_gcstate := GCSpropagate, g_sweepstrgc := g_sweepstrgc g1, g_sweepgc := g_sweepgc g1,
      g_estimate := g_estimate g1, g_threshold := g_threshold g1, g_gcdept := g_gcdept g1,
      g_totalbytes := g_totalbytes g1, g_strt := g_strt g1, g_nuse := g_nuse g1\<rparr>"
    by (simp add: 1(1))
  ultimately show ?thesis
    by (rule phase_inv_cong)
qed

section \<open>The steps\<close>

lemma phase_inv_progress:
  assumes p: "phase_inv g" and pr: "progress g g'"
    and i: "mark_inv (set (g_grayagain g) \<union> set (g_weak g) \<union> set (g_tmudata g) \<union> set (g_uvhead g)) (set (g_tmudata g)) g'"
  shows "phase_inv g'"
proof -
  note d = progressD [OF pr] and f = same_frame_fields [OF progressD(1) [OF pr]]
  have "traced (set (g_grayagain g') \<union> set (g_weak g') \<union> set (g_tmudata g) \<union> set (g_uvhead g)) g'"
    using i d(6,7) unfolding mark_inv_def traced_def by blast
  moreover have "\<forall>u \<in> set (g_tmudata g) \<union> set (root_after (Some (g_mainthread g)) g). is_udata g' u"
    using p is_udata_shrink [OF d(2)] unfolding phase_inv_def by blast
  moreover have "root_after (Some (g_mainthread g)) g' = root_after (Some (g_mainthread g)) g"
    by (simp add: root_after_def f)
  ultimately show ?thesis
    using p i d(3) uv_ok_progress [OF pr] by (auto simp: phase_inv_def mark_inv_def f)
qed

lemma propagatemark_phase:
  assumes p: "phase_inv g" and ne: "g_gray g \<noteq> []"
  shows "phase_inv (snd (propagatemark sz g))" "todo (snd (propagatemark sz g)) < todo g"
proof -
  have i: "mark_inv (set (g_grayagain g) \<union> set (g_weak g) \<union> set (g_tmudata g) \<union> set (g_uvhead g)) (set (g_tmudata g)) g"
    using p by (simp add: phase_inv_def)
  note s = propagatemark_inv [OF i ne, of sz]
  show "phase_inv (snd (propagatemark sz g))"
    by (rule phase_inv_progress [OF p s(2,1)])
  show "todo (snd (propagatemark sz g)) < todo g"
    by (rule s(3))
qed

section \<open>Reachable objects\<close>

inductive gc_reach :: "gcref \<Rightarrow> gcstate \<Rightarrow> gcref \<Rightarrow> bool" for L :: gcref and g :: gcstate where
  gc_reach_root: "x \<in> roots L g \<Longrightarrow> gc_reach L g x"
| gc_reach_ref: "gc_reach L g x \<Longrightarrow> y \<in> refs g x \<Longrightarrow> gc_reach L g y"

lemma reach_marked: "gc_reach L g x \<Longrightarrow> roots L g \<subseteq> M g \<Longrightarrow> marked_closed g \<Longrightarrow> x \<in> M g"
  by (induction rule: gc_reach.induct) (auto simp: marked_closed_def)

lemma marked_not_dead: "x \<in> M g \<Longrightarrow> \<not> isdead g x"
proof -
  assume "x \<in> M g"
  hence "\<not> bit (g_marked g x) 0" "\<not> bit (g_marked g x) 1"
    by (auto simp: M_def iswhite_def gc_bits)
  hence "\<not> bit (g_marked g x AND otherwhite g AND WHITEBITS) n" for n
    by (cases "n = 0 \<or> n = 1") (auto simp: bit_and_iff gc_bits)
  thus ?thesis
    using word8_nonzero by (auto simp: isdead_def)
qed

section \<open>The marking phase\<close>

lemma propagateall_phase:
  assumes p: "phase_inv g"
  obtains c g' where "propagateall sz m g = Some (c, g')" "g_gray g' = []" "phase_inv g'"
proof -
  have i: "mark_inv (set (g_grayagain g) \<union> set (g_weak g) \<union> set (g_tmudata g) \<union> set (g_uvhead g)) (set (g_tmudata g)) g"
    using p by (simp add: phase_inv_def)
  from propagateall_run [OF i, of sz m] phase_inv_progress [OF p] show ?thesis
    using that by blast
qed

text \<open>
  C5. \<open>propagateall\<close> ends: from any state of the propagation phase it empties the gray list and keeps
  the invariant of the phase (a marked object outside the gray lists refers to marked objects only).
\<close>

theorem propagation_ends:
  assumes "phase_inv g"
  shows "\<exists>c g'. propagateall sz m g = Some (c, g') \<and> g_gray g' = [] \<and> phase_inv g'"
  using propagateall_phase [OF assms] by metis

text \<open>
  C4. The atomic phase is sound: it ends, it flips the current white, and no object that is reachable
  afterwards, from the main thread, the running thread \<open>L\<close>, the registry, the metatables of the basic
  types or the userdata waiting for their finalizers, is dead, so that sweeping keeps it.
\<close>

theorem atomic_keeps_reachable:
  assumes "phase_inv g"
  shows "\<exists>g'. atomic sz L g = Some g' \<and> g_gcstate g' = GCSsweepstring \<and> g_currentwhite g' = otherwhite g \<and>
    {x. gc_reach L g' x} \<subseteq> {x. \<not> isdead g' x}"
proof -
  obtain g' where a: "atomic sz L g = Some g'" "marked_closed g'" "roots L g' \<subseteq> M g'"
      "g_currentwhite g' = otherwhite g" "g_gcstate g' = GCSsweepstring"
    using atomic_ok [OF assms] by metis
  have "{x. gc_reach L g' x} \<subseteq> {x. \<not> isdead g' x}"
    using reach_marked [OF _ a(3,2)] marked_not_dead by blast
  thus ?thesis
    using a by blast
qed

section \<open>A small heap\<close>

text \<open>
  The main thread 0 with a closure 2 on its stack, the table of globals 1, also the registry, in which
  the name 3 maps to the table 4, and a table 5 that nothing refers to.
\<close>

definition heap0 :: "gcref \<Rightarrow> gcobj option" where
  "heap0 = [0 \<mapsto> OThread \<lparr>th_gt = GRef 1, th_stack = [GRef 2, GNil], th_top = 1, th_citop = [1], th_openupval = []\<rparr>,
            1 \<mapsto> OTable \<lparr>tb_metatable = None, tb_array = [], tb_node = [(GRef 3, GRef 4)]\<rparr>,
            2 \<mapsto> OCclosure 1 [GPlain],
            3 \<mapsto> OString ''t'',
            4 \<mapsto> OTable \<lparr>tb_metatable = None, tb_array = [GPlain], tb_node = []\<rparr>,
            5 \<mapsto> OTable \<lparr>tb_metatable = Some 4, tb_array = [], tb_node = []\<rparr>]"

definition state0 :: gcstate where
  "state0 = \<lparr>g_objs = heap0, g_marked = (\<lambda>x. if x = 0 then 0x61 else 1), g_strt = [[3]], g_nuse = 1,
     g_currentwhite = 0x21, g_gcstate = GCSpause, g_sweepstrgc = 0, g_rootgc = [5, 4, 2, 1, 0], g_sweepgc = None,
     g_gray = [], g_grayagain = [], g_weak = [], g_tmudata = [], g_threshold = 0, g_totalbytes = 100,
     g_estimate = 0, g_gcdept = 0, g_gcpause = 200, g_gcstepmul = 200, g_registry = GRef 1, g_mainthread = 0,
     g_uvhead = [], g_mt = [], g_tm_gc = 6, g_tm_mode = 7\<rparr>"

lemma state0_white: "iswhite state0 x"
proof -
  have "bit (0x61 :: 8 word) 0" "bit (1 :: 8 word) 0"
    by simp_all
  thus ?thesis
    by (simp add: iswhite_def state0_def gc_bits)
qed

lemma state0_fresh: "fresh_cycle state0"
proof -
  have M: "M state0 = {}"
    by (auto simp: M_def state0_white)
  have "wt state0"
    by (auto simp: wt_def state0_def heap0_def obj_wt_def split: if_splits)
  moreover have "finite (dom (g_objs state0))"
    by (simp add: state0_def heap0_def)
  moreover have "uv_ok state0"
    by (auto simp: uv_ok_def is_openuv_def state0_def heap0_def split: if_splits)
  moreover have "white_byte (g_currentwhite state0)"
    by (simp add: state0_def gc_bits)
  moreover have "\<not> isblack state0 x" for x
    by (simp add: isblack_def state0_def gc_bits)
  moreover have "root_after (Some (g_mainthread state0)) state0 = []" "g_tmudata state0 = []"
    by (simp_all add: root_after_def state0_def)
  ultimately show ?thesis
    by (simp add: fresh_cycle_def M)
qed

lemma propagation_ends_witness:
  "\<exists>c g'. propagateall (\<lambda>_. 40) 0 (markroot state0) = Some (c, g') \<and> g_gray g' = [] \<and> phase_inv g'"
  by (rule propagation_ends [OF markroot_phase [OF state0_fresh]])

lemma atomic_keeps_reachable_witness:
  "\<exists>g'. atomic (\<lambda>_. 40) 0 (markroot state0) = Some g' \<and> g_gcstate g' = GCSsweepstring \<and>
    g_currentwhite g' = otherwhite (markroot state0) \<and> {x. gc_reach 0 g' x} \<subseteq> {x. \<not> isdead g' x}"
  by (rule atomic_keeps_reachable [OF markroot_phase [OF state0_fresh]])

end
