(* ===== verification/Spec2Isabelle.thy ===== *)
theory Spec2Isabelle
  imports Mime_B64 Mime_Qp Mime_Text Mime_Eol Lua_Buffer Host_Match Host_Main Select Lua_Tablib Lua_Quote Lua_Chunk Lua_Gccycle
begin

text \<open>
  Verification development for premake-dev: the C program \<open>src/host\<close> that runs the Premake
  scripts, the Lua 5.1.4 library it embeds (\<open>src/host/lua-5.1.4/src\<close>), and the socket and MIME
  libraries it ships in \<open>lib/src\<close>. The scripts themselves (\<open>src/base\<close>, \<open>src/actions\<close>,
  \<open>src/tools\<close>) are Lua, not C.

  The program: \<open>premake.c\<close> opens a Lua state, registers the C functions of the host, splits the
  command line into Lua tables and calls the main script. The C functions talk to Lua through the
  API (\<open>lapi.c\<close>, \<open>lauxlib.c\<close>); the scripts work on Lua values, strings and tables and use the
  standard libraries; \<open>mime\<close> and \<open>socket\<close> are further C libraries on the same API.

  \<^bold>\<open>Conventions.\<close> A definition has the name of the C function it models. Byte strings are HOL
  strings; what C sees through a \<open>char*\<close> is \<open>cstr\<close> (\<open>Prelude\<close>). A function that may raise a Lua
  error returns \<open>Inl\<close> of it or \<open>Inr\<close>; \<open>None\<close>, where it occurs around that, is undefined behaviour
  of C or a loop whose fuel ran out, and the theorems say that it does not happen. State that C code
  changes (a table, the string table, socket objects, the kernel) is a record passed along. What is
  not in the repository is a parameter: \<open>lua_conv\<close> (\<open>sprintf\<close>, \<open>strtod\<close> and rounding), \<open>bits\<close> (the
  bytes of a \<open>double\<close>), \<open>osapi\<close> and the system-call script (the operating system), \<open>net_conv\<close>
  (\<open>inet_aton\<close> and so on), and Lua functions that C code calls.

  \<^bold>\<open>The Lua library.\<close>
  \<^item> \<open>Lua_Api\<close> (\<open>lapi.c\<close>, \<open>lauxlib.c\<close>): values as a C function sees them, checked arguments.
  \<^item> \<open>Lua_Buffer\<close> (\<open>lauxlib.c\<close>): \<open>luaL_Buffer\<close> with its array and its pieces on the stack; the
    locale \<open>byte_sink\<close> is what its clients rely on, and the buffer an interpretation of it.
  \<^item> \<open>Lua_Format\<close> (\<open>lobject.c\<close>, \<open>lvm.c\<close>): \<open>lua_pushfstring\<close> and \<open>lua_concat\<close>.
  \<^item> \<open>Lua_Object\<close> (\<open>lobject.c\<close>): values of the virtual machine, raw equality, logarithms, the
    "floating point byte", chunk names.
  \<^item> \<open>Lua_String\<close> (\<open>lstring.c\<close>): the hash and the string table; interning makes equality of strings
    equality of objects.
  \<^item> \<open>Lua_Table\<close> (all of \<open>ltable.c\<close>): array part, node vector with chains through \<open>i_next\<close>,
    \<open>lastfree\<close>, rehash. \<open>Lua_Chain\<close> has the invariant of the chains and insertion by Brent's
    variation, \<open>Lua_Newkey\<close> the invariant of a table (\<open>table_ok\<close>) and what it maps keys to
    (\<open>lookup\<close>), \<open>Lua_Rehash\<close> counting, the new sizes and reinsertion, \<open>Lua_Table_Spec\<close> the refinement
    of a finite map, \<open>Lua_Traverse\<close> \<open>next\<close> and the border \<open>#t\<close>, \<open>Lua_Rawtable\<close> the raw access of
    \<open>lapi.c\<close> and the properties. \<open>newkey\<close> and \<open>luaH_resize\<close> call each other; the recursion is cut by
    fuel, and one unit is enough (\<open>newkey_terminates\<close>). Chains and probes have the number of nodes as fuel.
  \<^item> \<open>Lua_Sort\<close>, \<open>Lua_Tablib\<close> (\<open>ltablib.c\<close>): \<open>table.sort\<close> with its quicksort (fuel: the number of
    elements) and the other functions, over the locale \<open>raw_array\<close>, which the table is an
    interpretation of.
  \<^item> \<open>Lua_Pattern\<close> (\<open>lstrlib.c\<close>): the pattern matcher, its continuations as arguments; total, by a
    measure on the pattern. \<open>Lua_Match\<close> proves it equivalent to the relation \<open>matches\<close> and its
    captures well typed.
  \<^item> \<open>Lua_Strlib\<close> (\<open>lstrlib.c\<close>): the functions of the string library. \<open>Lua_Find\<close>: plain search and
    leftmost match; \<open>Lua_Gsub\<close>: substitution as pieces of the subject; \<open>Lua_Strprops\<close>: the functions
    without patterns, and the bound of a conversion specification.
  \<^item> \<open>Lua_Lex\<close> (\<open>llex.c\<close>): the lexical analyzer, total, by the input left. \<open>Lua_Quote\<close>: it reads back
    what \<open>%q\<close> writes.
  \<^item> \<open>Lua_Opcode\<close> (\<open>lopcodes.h\<close>, \<open>lopcodes.c\<close>), \<open>Lua_Checkcode\<close> (\<open>ldebug.c\<close>): instructions,
    prototypes and the code checker, with reads outside an array as \<open>None\<close>. \<open>Lua_Codesafe\<close>: it
    makes no such read, and accepted code is safe for the virtual machine, whose use of registers
    and of the program counter is the specification \<open>vm_uses\<close>, \<open>vm_next\<close> (after \<open>lvm.c\<close>).
    \<open>Lua_Objname\<close> (\<open>ldebug.c\<close>): the search for the name of a value.
  \<^item> \<open>Lua_Zio\<close> (\<open>lzio.c\<close>; the locale \<open>byte_source\<close>), \<open>Lua_Dump\<close> (\<open>ldump.c\<close>; the locale
    \<open>chunk_writer\<close>), \<open>Lua_Undump\<close> (\<open>lundump.c\<close>), \<open>Lua_Chunk\<close>: precompiled chunks, their round
    trip, truncation, and that only checked functions are loaded. Loading recurses on
    \<open>LUAI_MAXCCALLS\<close> less the C calls made, as the code does.

  \<^bold>\<open>The garbage collector\<close> (\<open>lgc.c\<close>, \<open>lgc.h\<close>, the open upvalues of \<open>lfunc.c\<close>), on an explicit heap
  of its own: objects under addresses, with their \<open>marked\<close> bytes, and \<open>global_State\<close> as the record
  \<open>gcstate\<close>.
  \<^item> \<open>Lua_Gc\<close>: the bits of the \<open>marked\<close> byte, marking and traversal, weak tables. \<open>Lua_Gcstep\<close>:
    barriers, links, open upvalues, finalizers, sweeping, \<open>atomic\<close>, \<open>singlestep\<close>, \<open>luaC_step\<close> and
    \<open>luaC_fullgc\<close>. Loops that end only because marking makes progress are partial functions;
    \<open>reallymarkobject\<close> nests at most three deep (\<open>mark_depth_enough\<close>).
  \<^item> \<open>Lua_Gcmark\<close>: what marking changes (\<open>grow\<close>). \<open>Lua_Gctrav\<close>: traversal only takes references
    away (\<open>shrinks\<close>). \<open>Lua_Gcprop\<close>, \<open>Lua_Gcstepmark\<close>: one step of the propagation, its invariant
    \<open>mark_inv\<close> and the measure that it lowers. \<open>Lua_Gcatomic\<close>, \<open>Lua_Gcphase\<close>: the parts of the
    atomic phase, and the whole. \<open>Lua_Gccycle\<close>: the marking half of a collection, from \<open>markroot\<close> on.

  \<^bold>\<open>The host.\<close>
  \<^item> \<open>Host_String\<close> (\<open>string_endswith.c\<close>, \<open>path_isabsolute.c\<close>, \<open>os_uuid.c\<close>): prefix and suffix tests,
    the hash as FNV-1, UUIDs.
  \<^item> \<open>Host_Fs\<close> (\<open>os_chdir.c\<close>, \<open>os_mkdir.c\<close>, \<open>os_stat.c\<close>, \<open>os_getversion.c\<close> and so on): over \<open>osapi\<close>.
  \<^item> \<open>Host_Match\<close> (\<open>os_match.c\<close>): the directory iterator, both versions; the locale \<open>match_iterator\<close>
    is what the scripts' loop relies on.
  \<^item> \<open>Host_Search\<close> (\<open>os_pathsearch.c\<close>), \<open>Host_Main\<close> (\<open>premake.c\<close>): the search path, the command line,
    the exit status; \<open>option_memory_safety\<close> says exactly when parsing an option overruns.

  \<^bold>\<open>MIME\<close> (\<open>lib/src/mime.c\<close>): \<open>Mime_Codec\<close> (the part the four coders share, the locale
  \<open>chunk_codec\<close>), \<open>Mime_B64\<close>, \<open>Mime_Qp\<close>, \<open>Mime_Text\<close> (line wrapping), \<open>Mime_Eol\<close> (line ends, dot
  stuffing): equivalence with RFC 4648, round trips, line bounds.

  \<^bold>\<open>Sockets\<close> (\<open>lib/src\<close>).
  \<^item> \<open>Timeout\<close> (\<open>timeout.c\<close>), \<open>Io\<close> (\<open>io.c\<close>; the locale \<open>io_driver\<close> is the driver interface),
    \<open>Buffer\<close> (\<open>buffer.c\<close>): sending, and receiving by line, by count and until the end, on any driver.
  \<^item> \<open>Usocket\<close> (\<open>usocket.c\<close>): the Unix layer, the kernel as the script of its answers; retry loops
    have fuel \<open>io_fuel\<close> of the script, which is enough (\<open>repeatF_enough\<close>).
  \<^item> \<open>Auxiliar\<close> (\<open>auxiliar.c\<close>), \<open>Inet\<close> (\<open>inet.c\<close>, \<open>options.c\<close>), \<open>Tcp\<close> (\<open>tcp.c\<close>), \<open>Udp\<close> (\<open>udp.c\<close>),
    \<open>Select\<close> (\<open>select.c\<close>): objects and their classes, every method, readiness.

  \<^bold>\<open>Not modelled.\<close> The parser, code generator and interpreter loop of Lua, its memory (outside
  of the collector values are values, no object is freed, memory is enough), coroutines, call frames and hooks; metatables of tables that
  the library functions get; LuaJIT (vendored, not part of the program's build); LuaFileSystem; the
  Windows socket layer and Unix domain sockets; the math, io, os, debug and package libraries (wrappers of
  the C library); the generated \<open>scripts.c\<close>. Numbers are reals: rounding of \<open>double\<close> arithmetic is not modelled.
\<close>

end
